(* ===== verification/Prelude.thy ===== *)
theory Prelude
  imports Main "HOL-Library.Word"
begin

text \<open>
  Shared vocabulary of the development: the machine integers of the i686 target, the flat
  byte-addressed memory the C code works on, little-endian loads and stores, C strings, and
  the generic word and list facts the component theories use.  Addresses and \<open>size_t\<close>
  are 32-bit words, so pointer arithmetic wraps exactly as on the target.
\<close>

unbundle bit_operations_syntax

type_synonym u8 = "8 word"
type_synonym u16 = "16 word"
type_synonym u32 = "32 word"
type_synonym mem = "u32 \<Rightarrow> u8"

named_theorems region_simps \<open>facts about address intervals\<close>

section \<open>Words\<close>

lemma unat_minus_1: "x \<noteq> 0 \<Longrightarrow> unat (x - 1 :: 'a::len word) = unat x - 1"
  by (simp add: unat_minus_one)

lemma unat_lt_two_power: "unat (x :: 'a::len word) < 2 ^ LENGTH('a)"
  by (rule unsigned_less)

lemma u32_bound [simp]: "unat (x :: u32) < 4294967296"
  using unat_lt_two_power [of x] by simp

lemma u16_bound [simp]: "unat (x :: u16) < 65536"
  using unat_lt_two_power [of x] by simp

lemma u8_bound [simp]: "unat (x :: u8) < 256"
  using unat_lt_two_power [of x] by simp

lemma unat_add_small:
  "unat x + unat y < 4294967296 \<Longrightarrow> unat (x + y :: u32) = unat x + unat y"
  by (simp add: unat_word_ariths)

lemma unat_of_nat_small: "n < 4294967296 \<Longrightarrow> unat (of_nat n :: u32) = n"
  by (simp add: unat_of_nat take_bit_nat_eq_self)

lemma unat_sub_le: "unat y \<le> unat x \<Longrightarrow> unat (x - y :: 'a::len word) = unat x - unat y"
  by (simp add: unat_sub word_le_nat_alt)

lemma unat_sub_wrap:
  "unat x < unat y \<Longrightarrow> unat (x - y :: u32) = 4294967296 + unat x - unat y"
  by (simp add: unat_sub_if_size word_size)

lemma unat_neg_1 [simp]: "unat (- 1 :: u32) = 4294967295"
  using unat_sub_wrap [of 0 1] by simp

subsection \<open>Masks, truncation and sign\<close>

lemma and_not_mask_push_drop: "x AND NOT (mask n) = push_bit n (drop_bit n (x :: 'a::len word))"
  by (rule bit_word_eqI) (auto simp: bit_simps)

lemma unat_and_not_mask: "unat (x AND NOT (mask n) :: 'a::len word) = unat x div 2 ^ n * 2 ^ n"
proof -
  have le: "unat x div 2 ^ n * 2 ^ n \<le> unat x" by simp
  have "unat (push_bit n (drop_bit n x)) = take_bit LENGTH('a) (push_bit n (unat (drop_bit n x)))"
    by (rule unsigned_push_bit_eq)
  also have "unat (drop_bit n x) = drop_bit n (unat x)"
    by (rule unat_drop_bit_eq)
  also have "take_bit LENGTH('a) (push_bit n (drop_bit n (unat x))) = unat x div 2 ^ n * 2 ^ n"
    unfolding push_bit_eq_mult drop_bit_eq_div
    using le unat_lt_two_power [of x] by (intro take_bit_nat_eq_self) linarith
  finally show ?thesis by (simp only: and_not_mask_push_drop)
qed

lemma unat_and_ff: "unat (x AND 0xFF :: 'a::len word) = unat x mod 256" if "8 \<le> LENGTH('a)"
proof -
  have "unat (x AND 0xFF) = unat (take_bit 8 x)" by (simp add: take_bit_eq_mask mask_eq_exp_minus_1)
  moreover have "unat (take_bit 8 x) = take_bit 8 (unat x)" by (rule unsigned_take_bit_eq)
  ultimately show ?thesis by (simp add: take_bit_eq_mod)
qed

lemma unat_ucast_u8: "unat (ucast (x :: 'a::len word) :: u8) = unat x mod 256"
  by (simp add: unsigned_ucast_eq take_bit_eq_mod)

lemma unat_ucast_u32: "unat (ucast (b :: u8) :: u32) = unat b"
proof -
  have "unat b < 2 ^ 32" using u8_bound [of b] by (simp del: u8_bound)
  then show ?thesis by (simp add: unsigned_ucast_eq take_bit_nat_eq_self)
qed

lemma sint_small: "unat (x :: u32) < 2147483648 \<Longrightarrow> sint x = int (unat x)"
proof -
  assume "unat x < 2147483648"
  then have "int (unat x) < 2147483648" by linarith
  moreover have "- 2147483648 \<le> uint x" by (rule order_trans [OF _ uint_ge_0]) simp
  ultimately show ?thesis
    using signed_take_bit_int_eq_self [of 31 "uint x"] by (simp add: sint_uint)
qed

lemma u16_bytes:
  assumes "p < 65536"
  shows "(ucast (drop_bit 8 (of_nat p :: u16) AND 0xFF) :: u8) = of_nat (p div 256)"
    and "(ucast ((of_nat p :: u16) AND 0xFF) :: u8) = of_nat (p mod 256)"
proof -
  have p: "unat (of_nat p :: u16) = p" using assms by (simp add: unat_of_nat take_bit_nat_eq_self)
  then have "unat (drop_bit 8 (of_nat p :: u16)) = p div 256"
    by (simp add: drop_bit_eq_div unat_div)
  then show "(ucast (drop_bit 8 (of_nat p :: u16) AND 0xFF) :: u8) = of_nat (p div 256)"
    by (simp only: word_unat_eq_iff unat_ucast_u8 unat_and_ff)
      (simp add: unat_ucast_u8 unat_and_ff unat_of_nat take_bit_eq_mod)
  show "(ucast ((of_nat p :: u16) AND 0xFF) :: u8) = of_nat (p mod 256)"
    using p by (simp add: word_unat_eq_iff unat_ucast_u8 unat_and_ff unat_of_nat take_bit_eq_mod)
qed

section \<open>Byte memory\<close>

text \<open>
  \<open>bytes_at m a n\<close> reads \<open>n\<close> consecutive bytes (addresses wrap at 2^32, as on the
  target); \<open>load_u32\<close> is the little-endian 32-bit load of a \<open>*(uint32_t *)p\<close>.
\<close>

definition bytes_at :: "mem \<Rightarrow> u32 \<Rightarrow> nat \<Rightarrow> u8 list" where
  "bytes_at m a n = map (\<lambda>i. m (a + of_nat i)) [0..<n]"

definition load_u32 :: "mem \<Rightarrow> u32 \<Rightarrow> u32" where
  "load_u32 m a = ucast (m a) + 256 * ucast (m (a + 1)) + 65536 * ucast (m (a + 2))
     + 16777216 * ucast (m (a + 3))"

definition le32 :: "nat \<Rightarrow> u8 list" where
  "le32 n = [of_nat n, of_nat (n div 256), of_nat (n div 65536), of_nat (n div 16777216)]"

definition in_region :: "u32 \<Rightarrow> u32 \<Rightarrow> nat \<Rightarrow> bool" where
  "in_region a d n \<longleftrightarrow> unat (a - d) < n"

lemma length_bytes_at [simp]: "length (bytes_at m a n) = n"
  by (simp add: bytes_at_def)

lemma nth_bytes_at [simp]: "i < n \<Longrightarrow> bytes_at m a n ! i = m (a + of_nat i)"
  by (simp add: bytes_at_def)

lemma bytes_at_0 [simp]: "bytes_at m a 0 = []"
  by (simp add: bytes_at_def)

lemma bytes_at_Suc: "bytes_at m a (Suc n) = m a # bytes_at m (a + 1) n"
  by (rule nth_equalityI) (auto simp: nth_Cons algebra_simps split: nat.split)

lemma bytes_at_add: "bytes_at m a (n + k) = bytes_at m a n @ bytes_at m (a + of_nat n) k"
  by (rule nth_equalityI) (auto simp: nth_append add.assoc simp flip: of_nat_add)

lemma bytes_at_cong:
  "(\<And>i. i < n \<Longrightarrow> m (a + of_nat i) = m' (b + of_nat i)) \<Longrightarrow> bytes_at m a n = bytes_at m' b n"
  by (rule nth_equalityI) auto

lemma in_region_0 [simp]: "\<not> in_region a d 0"
  by (simp add: in_region_def)

lemma in_region_Suc [region_simps]:
  assumes "n < 4294967295"
  shows "in_region a d (Suc n) \<longleftrightarrow> a = d \<or> in_region a (d + 1) n \<and> a \<noteq> d"
proof (cases "a = d")
  case True
  then show ?thesis by (simp add: in_region_def)
next
  case False
  then have "unat (a - d - 1) = unat (a - d) - 1" by (intro unat_minus_1) simp
  moreover have "0 < unat (a - d)" using False by (simp add: unat_gt_0)
  ultimately show ?thesis using False by (auto simp: in_region_def diff_diff_eq)
qed

lemma in_region_offset [region_simps]:
  "i < 4294967296 \<Longrightarrow> in_region (d + of_nat i) d n \<longleftrightarrow> i < n"
  by (simp add: in_region_def unat_of_nat_small)

lemma in_region_Suc_last:
  assumes "n < 4294967296"
  shows "in_region a d (Suc n) \<longleftrightarrow> in_region a d n \<or> a = d + of_nat n"
proof -
  have "unat (a - d) = n \<longleftrightarrow> a - d = of_nat n"
    using assms by (auto simp: unat_of_nat_small)
  then have "unat (a - d) = n \<longleftrightarrow> a = d + of_nat n" by (auto simp: algebra_simps)
  then show ?thesis by (auto simp: in_region_def less_Suc_eq)
qed

lemma in_regionE:
  assumes "in_region a d n"
  obtains i where "i < n" "a = d + of_nat i"
proof
  show "unat (a - d) < n" using assms by (simp add: in_region_def)
  show "a = d + of_nat (unat (a - d))" by simp
qed

text \<open>A byte list placed in memory (by the boot loader, say).\<close>

definition store_bytes :: "mem \<Rightarrow> u32 \<Rightarrow> u8 list \<Rightarrow> mem" where
  "store_bytes m a bs =
     (\<lambda>x. if in_region x a (length bs) then bs ! unat (x - a) else m x)"

lemma store_bytes_nth:
  "i < length bs \<Longrightarrow> length bs \<le> 4294967296 \<Longrightarrow> store_bytes m a bs (a + of_nat i) = bs ! i"
  by (simp add: store_bytes_def in_region_offset unat_of_nat_small)

lemma bytes_at_store_bytes:
  "length bs \<le> 4294967296 \<Longrightarrow> bytes_at (store_bytes m a bs) a (length bs) = bs"
  by (rule nth_equalityI) (auto simp: store_bytes_nth)

section \<open>C strings\<close>

text \<open>\<open>cstr_at m a xs\<close>: the bytes \<open>xs\<close>, none of them NUL, then a NUL, start at \<open>a\<close>.\<close>

definition cstr_at :: "mem \<Rightarrow> u32 \<Rightarrow> u8 list \<Rightarrow> bool" where
  "cstr_at m a xs \<longleftrightarrow>
     bytes_at m a (length xs) = xs \<and> 0 \<notin> set xs \<and> m (a + of_nat (length xs)) = 0"

lemma cstr_at_Nil [simp]: "cstr_at m a [] \<longleftrightarrow> m a = 0"
  by (simp add: cstr_at_def)

lemma cstr_at_Cons: "cstr_at m a (x # xs) \<longleftrightarrow> m a = x \<and> x \<noteq> 0 \<and> cstr_at m (a + 1) xs"
  by (auto simp: cstr_at_def bytes_at_Suc algebra_simps)

end
