(* ===== verification/Libc.thy ===== *)
theory Libc
  imports Prelude
begin

text \<open>
  The freestanding C library of the kernel, \<open>kernel/libc.c\<close>: memory and string routines
  over the flat byte memory.  Every counted loop (\<open>while (n--)\<close>) is a structural recursion
  on the count; a loop that stops only at a NUL byte is a \<open>partial_function\<close> into
  \<open>option\<close>, whose value \<open>None\<close> is the loop that never ends.  Pointers are 32-bit words, a
  null pointer is the address 0, and a C \<open>int\<close> result is an \<open>int\<close>.
\<close>

section \<open>The routines\<close>

fun memcpy_loop :: "nat \<Rightarrow> u32 \<Rightarrow> u32 \<Rightarrow> mem \<Rightarrow> mem" where
  "memcpy_loop 0 d s m = m"
| "memcpy_loop (Suc n) d s m = memcpy_loop n (d + 1) (s + 1) (m(d := m s))"

definition memcpy :: "mem \<Rightarrow> u32 \<Rightarrow> u32 \<Rightarrow> u32 \<Rightarrow> mem \<times> u32" where
  "memcpy m dest src n = (memcpy_loop (unat n) dest src m, dest)"

fun memset_loop :: "nat \<Rightarrow> u32 \<Rightarrow> u8 \<Rightarrow> mem \<Rightarrow> mem" where
  "memset_loop 0 p c m = m"
| "memset_loop (Suc n) p c m = memset_loop n (p + 1) c (m(p := c))"

definition memset :: "mem \<Rightarrow> u32 \<Rightarrow> int \<Rightarrow> u32 \<Rightarrow> mem \<times> u32" where
  "memset m s c n = (memset_loop (unat n) s (word_of_int c) m, s)"

fun memmove_down :: "nat \<Rightarrow> u32 \<Rightarrow> u32 \<Rightarrow> mem \<Rightarrow> mem" where
  "memmove_down 0 d s m = m"
| "memmove_down (Suc n) d s m = memmove_down n (d - 1) (s - 1) (m(d - 1 := m (s - 1)))"

definition memmove :: "mem \<Rightarrow> u32 \<Rightarrow> u32 \<Rightarrow> u32 \<Rightarrow> mem \<times> u32" where
  "memmove m dest src n =
     (if dest < src then (memcpy_loop (unat n) dest src m, dest)
      else (memmove_down (unat n) (dest + n) (src + n) m, dest))"

partial_function (option) strcmp :: "mem \<Rightarrow> u32 \<Rightarrow> u32 \<Rightarrow> int option" where
  "strcmp m s1 s2 =
     (if m s1 \<noteq> 0 \<and> m s1 = m s2 then strcmp m (s1 + 1) (s2 + 1)
      else Some (int (unat (m s1)) - int (unat (m s2))))"

partial_function (option) strcpy_loop :: "mem \<Rightarrow> u32 \<Rightarrow> u32 \<Rightarrow> mem option" where
  "strcpy_loop m d s =
     (if m s \<noteq> 0 then strcpy_loop (m(d := m s)) (d + 1) (s + 1) else Some (m(d := m s)))"

definition strcpy :: "mem \<Rightarrow> u32 \<Rightarrow> u32 \<Rightarrow> (mem \<times> u32) option" where
  "strcpy m dest src = map_option (\<lambda>m'. (m', dest)) (strcpy_loop m dest src)"

fun strncpy_loop :: "nat \<Rightarrow> u32 \<Rightarrow> u32 \<Rightarrow> mem \<Rightarrow> mem" where
  "strncpy_loop 0 d s m = m"
| "strncpy_loop (Suc n) d s m =
     (if m s \<noteq> 0 then strncpy_loop n (d + 1) (s + 1) (m(d := m s))
      else memset_loop (Suc n) d 0 m)"

definition strncpy :: "mem \<Rightarrow> u32 \<Rightarrow> u32 \<Rightarrow> u32 \<Rightarrow> mem \<times> u32" where
  "strncpy m dest src n = (strncpy_loop (unat n) dest src m, dest)"

fun memcmp_loop :: "nat \<Rightarrow> u32 \<Rightarrow> u32 \<Rightarrow> mem \<Rightarrow> int" where
  "memcmp_loop 0 p1 p2 m = 0"
| "memcmp_loop (Suc n) p1 p2 m =
     (if m p1 \<noteq> m p2 then int (unat (m p1)) - int (unat (m p2))
      else memcmp_loop n (p1 + 1) (p2 + 1) m)"

definition memcmp :: "mem \<Rightarrow> u32 \<Rightarrow> u32 \<Rightarrow> u32 \<Rightarrow> int" where
  "memcmp m s1 s2 n = memcmp_loop (unat n) s1 s2 m"

partial_function (option) strlen_loop :: "mem \<Rightarrow> u32 \<Rightarrow> u32 \<Rightarrow> u32 option" where
  "strlen_loop m str len = (if m (str + len) \<noteq> 0 then strlen_loop m str (len + 1) else Some len)"

definition strlen :: "mem \<Rightarrow> u32 \<Rightarrow> u32 option" where
  "strlen m str = strlen_loop m str 0"

fun strncmp_loop :: "nat \<Rightarrow> u32 \<Rightarrow> u32 \<Rightarrow> mem \<Rightarrow> int" where
  "strncmp_loop 0 s1 s2 m = 0"
| "strncmp_loop (Suc n) s1 s2 m =
     (if m s1 \<noteq> 0 \<and> m s1 = m s2 then strncmp_loop n (s1 + 1) (s2 + 1) m
      else int (unat (m s1)) - int (unat (m s2)))"

definition strncmp :: "mem \<Rightarrow> u32 \<Rightarrow> u32 \<Rightarrow> u32 \<Rightarrow> int" where
  "strncmp m s1 s2 n = strncmp_loop (unat n) s1 s2 m"

partial_function (option) strchr_loop :: "mem \<Rightarrow> u32 \<Rightarrow> u8 \<Rightarrow> u32 option" where
  "strchr_loop m s c =
     (if m s \<noteq> c then (if m s = 0 then Some 0 else strchr_loop m (s + 1) c) else Some s)"

definition strchr :: "mem \<Rightarrow> u32 \<Rightarrow> int \<Rightarrow> u32 option" where
  "strchr m s c = strchr_loop m s (word_of_int c)"

definition memcpy_chk :: "mem \<Rightarrow> u32 \<Rightarrow> u32 \<Rightarrow> u32 \<Rightarrow> u32 \<Rightarrow> mem \<times> u32" where
  "memcpy_chk m dest src n dest_len = memcpy m dest src n"

section \<open>Copying\<close>

text \<open>
  What a block copy means, independently of any direction of the loop: the bytes of the
  destination region are those the source region held before, all other bytes are kept.
\<close>

definition block_copied :: "mem \<Rightarrow> u32 \<Rightarrow> u32 \<Rightarrow> nat \<Rightarrow> mem" where
  "block_copied m d s n = (\<lambda>a. if in_region a d n then m (s + (a - d)) else m a)"

lemma block_copied_0 [simp]: "block_copied m d s 0 = m"
  by (simp add: block_copied_def)

lemma block_copied_Suc_front:
  assumes n: "n < 4294967295" and gap: "d = s \<or> Suc n \<le> unat (d - s)"
  shows "block_copied (m(d := m s)) (d + 1) (s + 1) n = block_copied m d s (Suc n)"
proof
  fix a
  have "s + (a - d) \<noteq> d" if "a \<noteq> d" "in_region a (d + 1) n" "d \<noteq> s"
  proof
    assume "s + (a - d) = d"
    then have "a - d = d - s" by (simp add: algebra_simps)
    moreover have "in_region a d (Suc n)" using that n by (simp add: in_region_Suc)
    ultimately show False using gap that by (simp add: in_region_def)
  qed
  moreover have "\<not> in_region d (d + 1) n"
    using n by (simp add: in_region_def)
  ultimately show "block_copied (m(d := m s)) (d + 1) (s + 1) n a = block_copied m d s (Suc n) a"
    using n by (cases "d = s") (auto simp: block_copied_def in_region_Suc)
qed

lemma block_copied_Suc_back:
  assumes n: "n < 4294967295" and gap: "d = s \<or> Suc n \<le> unat (s - d)"
  shows "block_copied (m(d + of_nat n := m (s + of_nat n))) d s n = block_copied m d s (Suc n)"
proof
  fix a
  have "s + (a - d) \<noteq> d + of_nat n" if reg: "in_region a d n" and ne: "d \<noteq> s"
  proof
    assume eq: "s + (a - d) = d + of_nat n"
    obtain i where i: "i < n" "a = d + of_nat i" using reg by (elim in_regionE)
    with eq have "s - d = of_nat (n - i)" by (simp add: of_nat_diff algebra_simps)
    then have "unat (s - d) = n - i" using n by (simp add: unat_of_nat_small)
    then show False using gap ne i(1) by simp
  qed
  then show "block_copied (m(d + of_nat n := m (s + of_nat n))) d s n a
      = block_copied m d s (Suc n) a"
    using n by (cases "d = s") (auto simp: block_copied_def in_region_Suc_last in_region_offset)
qed

lemma memcpy_loop_block:
  "n < 4294967296 \<Longrightarrow> d = s \<or> n \<le> unat (d - s) \<Longrightarrow> memcpy_loop n d s m = block_copied m d s n"
proof (induction n arbitrary: d s m)
  case 0
  then show ?case by simp
next
  case (Suc n)
  from Suc.prems have "d + 1 = s + 1 \<or> n \<le> unat (d + 1 - (s + 1))" by auto
  with Suc have "memcpy_loop (Suc n) d s m = block_copied (m(d := m s)) (d + 1) (s + 1) n" by simp
  also have "\<dots> = block_copied m d s (Suc n)"
    using Suc.prems by (intro block_copied_Suc_front) auto
  finally show ?case .
qed

lemma memmove_down_block:
  "n < 4294967296 \<Longrightarrow> d = s \<or> n \<le> unat (s - d) \<Longrightarrow>
     memmove_down n (d + of_nat n) (s + of_nat n) m = block_copied m d s n"
proof (induction n arbitrary: m)
  case 0
  then show ?case by simp
next
  case (Suc n)
  have "memmove_down (Suc n) (d + of_nat (Suc n)) (s + of_nat (Suc n)) m
      = memmove_down n (d + of_nat n) (s + of_nat n) (m(d + of_nat n := m (s + of_nat n)))"
    by (simp add: algebra_simps)
  also have "\<dots> = block_copied (m(d + of_nat n := m (s + of_nat n))) d s n"
    using Suc by auto
  also have "\<dots> = block_copied m d s (Suc n)"
    using Suc.prems by (intro block_copied_Suc_back) auto
  finally show ?case .
qed

lemma memmove_block:
  assumes "unat dest + unat n \<le> 4294967296" "unat src + unat n \<le> 4294967296"
  shows "memmove m dest src n = (block_copied m dest src (unat n), dest)"
proof (cases "dest < src")
  case True
  then have "unat (dest - src) = 4294967296 + unat dest - unat src"
    by (intro unat_sub_wrap) (simp add: word_less_nat_alt)
  then have "unat n \<le> unat (dest - src)" using assms by simp
  with True show ?thesis by (simp add: memmove_def memcpy_loop_block)
next
  case False
  then have "dest = src \<or> unat src < unat dest" by (auto simp: word_less_nat_alt word_unat_eq_iff)
  then have "dest = src \<or> unat n \<le> unat (src - dest)"
    using assms unat_sub_wrap [of src dest] by auto
  with False show ?thesis using memmove_down_block [of "unat n" dest src m]
    by (simp add: memmove_def)
qed

lemma bytes_at_block_copied:
  assumes "n < 4294967296"
  shows "bytes_at (block_copied m d s n) d n = bytes_at m s n"
  using assms by (intro bytes_at_cong) (simp add: block_copied_def in_region_offset)

lemma memset_loop_spec:
  "n < 4294967296 \<Longrightarrow> memset_loop n p c m = (\<lambda>a. if in_region a p n then c else m a)"
proof (induction n arbitrary: p m)
  case 0
  then show ?case by simp
next
  case (Suc n)
  then show ?case by (auto simp: in_region_Suc fun_eq_iff)
qed

section \<open>Strings\<close>

text \<open>
  The reference comparison of two NUL-terminated byte strings: the first differing position
  decides, a proper prefix being smaller because its NUL is the smallest byte.
\<close>

fun str_diff :: "u8 list \<Rightarrow> u8 list \<Rightarrow> int" where
  "str_diff [] [] = 0"
| "str_diff [] (y # ys) = - int (unat y)"
| "str_diff (x # xs) [] = int (unat x)"
| "str_diff (x # xs) (y # ys) =
     (if x = y then str_diff xs ys else int (unat x) - int (unat y))"

lemma str_diff_0_iff: "0 \<notin> set xs \<Longrightarrow> 0 \<notin> set ys \<Longrightarrow> str_diff xs ys = 0 \<longleftrightarrow> xs = ys"
  by (induction xs ys rule: str_diff.induct) (auto simp: word_uint_eq_iff)

lemma str_diff_neg_iff:
  "0 \<notin> set xs \<Longrightarrow> 0 \<notin> set ys \<Longrightarrow> str_diff xs ys < 0 \<longleftrightarrow> ord_class.lexordp xs ys"
  by (induction xs ys rule: str_diff.induct) (auto simp: word_less_def word_uint_eq_iff order_less_le)

lemma strcmp_diff:
  "cstr_at m s1 xs \<Longrightarrow> cstr_at m s2 ys \<Longrightarrow> strcmp m s1 s2 = Some (str_diff xs ys)"
proof (induction xs ys arbitrary: s1 s2 rule: str_diff.induct)
  case 1
  then show ?case by (simp add: strcmp.simps [of m s1 s2])
next
  case (2 y ys)
  then show ?case by (auto simp: strcmp.simps [of m s1 s2] cstr_at_Cons)
next
  case (3 x xs)
  then show ?case by (auto simp: strcmp.simps [of m s1 s2] cstr_at_Cons)
next
  case (4 x xs y ys)
  then show ?case by (auto simp: strcmp.simps [of m s1 s2] cstr_at_Cons)
qed

lemma strncmp_loop_diff:
  "cstr_at m s1 xs \<Longrightarrow> cstr_at m s2 ys \<Longrightarrow>
     strncmp_loop n s1 s2 m = str_diff (take n xs) (take n ys)"
proof (induction xs ys arbitrary: s1 s2 n rule: str_diff.induct)
  case 1
  then show ?case by (cases n) auto
next
  case (2 y ys)
  then show ?case by (cases n) (auto simp: cstr_at_Cons)
next
  case (3 x xs)
  then show ?case by (cases n) (auto simp: cstr_at_Cons)
next
  case (4 x xs y ys)
  then show ?case by (cases n) (auto simp: cstr_at_Cons)
qed

lemma strlen_loop_correct:
  "cstr_at m (str + l) xs \<Longrightarrow> strlen_loop m str l = Some (l + of_nat (length xs))"
proof (induction xs arbitrary: l)
  case Nil
  then show ?case by (simp add: strlen_loop.simps [of m str l])
next
  case (Cons x xs)
  then have "strlen_loop m str (l + 1) = Some (l + 1 + of_nat (length xs))"
    by (intro Cons.IH) (simp add: cstr_at_Cons add.assoc)
  with Cons.prems show ?case
    by (auto simp: strlen_loop.simps [of m str l] cstr_at_Cons algebra_simps)
qed

lemma strlen_correct: "cstr_at m str xs \<Longrightarrow> strlen m str = Some (of_nat (length xs))"
  using strlen_loop_correct [of m str 0 xs] by (simp add: strlen_def)

lemma strchr_loop_correct:
  "cstr_at m s xs \<Longrightarrow> c \<noteq> 0 \<Longrightarrow>
     strchr_loop m s c = Some (if c \<in> set xs then s + of_nat (length (takeWhile (\<lambda>x. x \<noteq> c) xs)) else 0)"
proof (induction xs arbitrary: s)
  case Nil
  then show ?case by (auto simp: strchr_loop.simps [of m s c])
next
  case (Cons x xs)
  then show ?case
    by (auto simp: strchr_loop.simps [of m s c] cstr_at_Cons algebra_simps)
qed

lemma bytes_at_update_outside:
  "n < 4294967296 \<Longrightarrow> \<not> in_region a d n \<Longrightarrow> bytes_at (m(a := v)) d n = bytes_at m d n"
  by (intro bytes_at_cong) (auto simp: in_region_offset)

lemma bytes_at_memset:
  "n < 4294967296 \<Longrightarrow> bytes_at (memset_loop n p c m) p n = replicate n c"
  by (rule nth_equalityI) (auto simp: memset_loop_spec in_region_offset)

text \<open>
  \<open>strncpy\<close> into a buffer that does not overlap its source: the buffer holds the first
  \<open>n\<close> bytes of the string and is padded with NULs, and nothing else is written.
\<close>

definition disjoint_regions :: "u32 \<Rightarrow> nat \<Rightarrow> u32 \<Rightarrow> nat \<Rightarrow> bool" where
  "disjoint_regions s k d n \<longleftrightarrow> (\<forall>i<k. \<not> in_region (s + of_nat i) d n)"

lemma disjoint_regions_step:
  assumes "disjoint_regions s (Suc k) d (Suc n)" "n < 4294967295"
  shows "s \<noteq> d" "disjoint_regions (s + 1) k (d + 1) n"
    "i < Suc k \<Longrightarrow> s + of_nat i \<noteq> d"
proof -
  have all: "\<not> in_region (s + of_nat i) d (Suc n)" if "i < Suc k" for i
    using assms(1) that unfolding disjoint_regions_def by blast
  have later: "\<not> in_region (s + 1 + of_nat i) (d + 1) n \<and> s + 1 + of_nat i \<noteq> d" if "i < k" for i
    using all [of "Suc i"] that assms(2) by (auto simp: in_region_Suc add.assoc)
  show "s \<noteq> d" using all [of 0] assms(2) by (auto simp: in_region_Suc)
  show "disjoint_regions (s + 1) k (d + 1) n"
    using later by (simp add: disjoint_regions_def)
  show "s + of_nat i \<noteq> d" if "i < Suc k"
    using all [OF that] assms(2) by (auto simp: in_region_Suc)
qed

lemma strncpy_loop_spec:
  "n < 4294967296 \<Longrightarrow> cstr_at m s xs \<Longrightarrow> disjoint_regions s (Suc (length xs)) d n \<Longrightarrow>
     bytes_at (strncpy_loop n d s m) d n = take n xs @ replicate (n - length xs) 0
     \<and> (\<forall>a. \<not> in_region a d n \<longrightarrow> strncpy_loop n d s m a = m a)"
proof (induction n arbitrary: d s m xs)
  case 0
  then show ?case by simp
next
  case (Suc n)
  show ?case
  proof (cases xs)
    case Nil
    then show ?thesis
      using Suc.prems bytes_at_memset [of "Suc n" d 0 m]
      by (simp add: memset_loop_spec) (auto simp: in_region_Suc)
  next
    case (Cons x ys)
    let ?m = "m(d := m s)"
    have n: "n < 4294967295" using Suc.prems by simp
    note dis = disjoint_regions_step [OF Suc.prems(3) n, unfolded Cons]
    have "bytes_at ?m (s + 1) (length ys) = ys \<and> 0 \<notin> set ys \<and> ?m (s + 1 + of_nat (length ys)) = 0"
    proof -
      have "bytes_at ?m (s + 1) (length ys) = bytes_at m (s + 1) (length ys)"
        using dis(3) [of "Suc _"] by (intro bytes_at_cong) (auto simp: Cons add.assoc)
      moreover have "s + 1 + of_nat (length ys) \<noteq> d"
        using dis(3) [of "Suc (length ys)"] by (simp add: Cons add.assoc)
      ultimately show ?thesis using Suc.prems(2) by (simp add: Cons cstr_at_def bytes_at_Suc add.assoc)
    qed
    then have "cstr_at ?m (s + 1) ys" by (simp add: cstr_at_def)
    moreover have "disjoint_regions (s + 1) (Suc (length ys)) (d + 1) n"
      using dis(2) by (simp add: Cons)
    ultimately have ih: "bytes_at (strncpy_loop n (d + 1) (s + 1) ?m) (d + 1) n
        = take n ys @ replicate (n - length ys) 0"
      "\<And>a. \<not> in_region a (d + 1) n \<Longrightarrow> strncpy_loop n (d + 1) (s + 1) ?m a = ?m a"
      using Suc.IH n by auto
    have "\<not> in_region d (d + 1) n" using n by (simp add: in_region_def)
    then have "strncpy_loop n (d + 1) (s + 1) ?m d = m s" using ih(2) by simp
    then show ?thesis
      using ih Suc.prems(2) n by (auto simp: Cons cstr_at_Cons bytes_at_Suc in_region_Suc)
  qed
qed

lemma memcmp_loop_0_iff: "memcmp_loop n p q m = 0 \<longleftrightarrow> bytes_at m p n = bytes_at m q n"
  by (induction n arbitrary: p q) (auto simp: bytes_at_Suc word_uint_eq_iff)

section \<open>Properties\<close>

text \<open>
  C28: \<open>memmove\<close> copies correctly for every overlap of source and destination: provided
  neither region wraps around the address space, the destination afterwards holds the bytes
  the source held before, every byte outside the destination is kept, and the destination
  pointer is returned.
\<close>

theorem memmove_correct:
  assumes "unat dest + unat n \<le> 2 ^ 32" "unat src + unat n \<le> 2 ^ 32"
  shows "bytes_at (fst (memmove m dest src n)) dest (unat n) = bytes_at m src (unat n)
    \<and> (\<forall>a. \<not> in_region a dest (unat n) \<longrightarrow> fst (memmove m dest src n) a = m a)
    \<and> snd (memmove m dest src n) = dest"
  using assms by (simp add: memmove_block bytes_at_block_copied) (simp add: block_copied_def)

theorem memmove_correct_witness:
  "bytes_at (fst (memmove (\<lambda>a. ucast a) 103 101 5)) 103 5 = [101, 102, 103, 104, 105]"
proof -
  have "bytes_at (fst (memmove (\<lambda>a. ucast a) 103 101 5)) 103 (unat (5 :: u32))
      = bytes_at (\<lambda>a. ucast a) 101 (unat (5 :: u32))"
    by (rule memmove_correct [THEN conjunct1]) simp_all
  then show ?thesis by (simp add: bytes_at_def upt_rec)
qed

text \<open>
  On NUL-terminated strings \<open>strcmp\<close> terminates, returns 0 exactly for equal strings
  and a negative number exactly when the first string is lexicographically smaller as
  unsigned bytes.
\<close>

theorem strcmp_correct:
  assumes "cstr_at m s1 xs" "cstr_at m s2 ys"
  shows "\<exists>r. strcmp m s1 s2 = Some r \<and> (r = 0 \<longleftrightarrow> xs = ys)
    \<and> (r < 0 \<longleftrightarrow> ord_class.lexordp xs ys)"
  using assms strcmp_diff [OF assms] by (auto simp: cstr_at_def str_diff_0_iff str_diff_neg_iff)

theorem strcmp_correct_witness:
  "\<exists>r. strcmp (store_bytes (\<lambda>_. 0) 16 [97, 98, 0, 97, 99, 0]) 16 19 = Some r
    \<and> (r = 0 \<longleftrightarrow> [97, 98 :: u8] = [97, 99]) \<and> (r < 0 \<longleftrightarrow> ord_class.lexordp [97, 98 :: u8] [97, 99])"
  by (rule strcmp_correct) (simp_all add: cstr_at_def bytes_at_def store_bytes_def in_region_def upt_rec)

end
