(* ===== verification/Refinement.thy ===== *)
theory Refinement
  imports Main
begin

text \<open>
  Refinement of a data type: operations on a representation against operations on the value it stands
  for.  A call that reports a fault (no memory) may stop anywhere, but leaves a state that satisfies the
  invariant.  From the single call the locale derives whole sequences of calls.
\<close>

fun run_calls :: "('c \<Rightarrow> 's \<Rightarrow> 'r \<times> 's) \<Rightarrow> 'c list \<Rightarrow> 's \<Rightarrow> 'r list \<times> 's" where
  "run_calls step [] s = ([], s)"
| "run_calls step (c # cs) s =
     (let (r, s') = step c s; (rs, s'') = run_calls step cs s' in (r # rs, s''))"

locale data_refinement =
  fixes inv :: "'s \<Rightarrow> bool"
    and abs :: "'s \<Rightarrow> 'a"
    and valid :: "'c \<Rightarrow> bool"
    and step :: "'c \<Rightarrow> 's \<Rightarrow> 'r \<times> 's"
    and spec :: "'c \<Rightarrow> 'a \<Rightarrow> 'r \<times> 'a"
    and fault :: "'r \<Rightarrow> bool"
  assumes keeps: "inv s \<Longrightarrow> valid c \<Longrightarrow> inv (snd (step c s))"
    and simulates: "inv s \<Longrightarrow> valid c \<Longrightarrow> \<not> fault (fst (step c s))
      \<Longrightarrow> spec c (abs s) = (fst (step c s), abs (snd (step c s)))"
begin

lemma run_keeps: "inv s \<Longrightarrow> list_all valid cs \<Longrightarrow> inv (snd (run_calls step cs s))"
  by (induction cs arbitrary: s) (auto simp: Let_def case_prod_beta dest: keeps)

lemma run_simulates:
  "inv s \<Longrightarrow> list_all valid cs \<Longrightarrow> \<not> list_ex fault (fst (run_calls step cs s))
    \<Longrightarrow> run_calls spec cs (abs s) = (fst (run_calls step cs s), abs (snd (run_calls step cs s)))"
proof (induction cs arbitrary: s)
  case (Cons c cs)
  let ?s = "snd (step c s)"
  have "inv ?s" using Cons.prems by (auto intro: keeps)
  moreover have "spec c (abs s) = (fst (step c s), abs ?s)"
    using Cons.prems by (intro simulates) (auto simp: Let_def case_prod_beta)
  ultimately show ?case using Cons.IH [of ?s] Cons.prems by (simp add: Let_def case_prod_beta)
qed simp

end

end
