(* ===== verification/Interfaces.thy ===== *)
theory Interfaces
  imports Prelude Refinement
begin

text \<open>
  The contracts on which the kernel's components rely on each other, each a locale whose
  parameters are the operations a client calls and whose assumptions are what the provider
  promises: a memory allocator, a bounded byte queue, a byte sink.  The client-side facts
  proved inside a locale are obtained for the model by interpreting the locale on the
  definitions of the providing component: the allocators \<open>Bump\<close> and \<open>GcAlloc\<close>, the queues
  \<open>Keyboard\<close> and \<open>Ringbuf\<close>, the sinks \<open>Machine\<close> (COM1) and \<open>Vga\<close> (the console).
\<close>

section \<open>Allocators\<close>

text \<open>
  \<open>addrs p n\<close> are the addresses of the block of \<open>n\<close> bytes at \<open>p\<close>.  A run of an
  allocator returns the blocks it handed out (address and size), failed requests left out.
\<close>

definition addrs :: "u32 \<Rightarrow> u32 \<Rightarrow> nat set" where
  "addrs p n = {unat p ..< unat p + unat n}"

fun alloc_run :: "('s \<Rightarrow> u32 \<Rightarrow> u32 \<times> 's) \<Rightarrow> 's \<Rightarrow> u32 list \<Rightarrow> (u32 \<times> u32) list \<times> 's" where
  "alloc_run f s [] = ([], s)"
| "alloc_run f s (n # ns) =
     (let (p, s') = f s n; (bs, s'') = alloc_run f s' ns
      in (if p = 0 then bs else (p, n) # bs, s''))"

fun disjoint_blocks :: "(u32 \<times> u32) list \<Rightarrow> bool" where
  "disjoint_blocks [] \<longleftrightarrow> True"
| "disjoint_blocks ((p, n) # bs) \<longleftrightarrow>
     (\<forall>(q, k) \<in> set bs. addrs p n \<inter> addrs q k = {}) \<and> disjoint_blocks bs"

locale allocator =
  fixes alloc :: "'s \<Rightarrow> u32 \<Rightarrow> u32 \<times> 's"
    and invar :: "'s \<Rightarrow> bool"
    and pool :: "'s \<Rightarrow> nat set"
    and taken :: "'s \<Rightarrow> nat set"
    and fits :: "'s \<Rightarrow> u32 \<Rightarrow> bool"
  assumes alloc_invar: "invar s \<Longrightarrow> fits s n \<Longrightarrow> invar (snd (alloc s n))"
    and alloc_fresh: "invar s \<Longrightarrow> fits s n \<Longrightarrow> fst (alloc s n) \<noteq> 0 \<Longrightarrow>
      addrs (fst (alloc s n)) n \<subseteq> pool s - taken s"
    and alloc_taken: "invar s \<Longrightarrow> fits s n \<Longrightarrow>
      taken s \<union> (if fst (alloc s n) = 0 then {} else addrs (fst (alloc s n)) n)
        \<subseteq> taken (snd (alloc s n))"
    and alloc_pool: "invar s \<Longrightarrow> fits s n \<Longrightarrow> pool (snd (alloc s n)) = pool s"
    and alloc_fits: "invar s \<Longrightarrow> fits s n \<Longrightarrow> fits s k \<Longrightarrow> fits (snd (alloc s n)) k"
begin

lemma run_invar:
  "invar s \<Longrightarrow> \<forall>n \<in> set ns. fits s n \<Longrightarrow> invar (snd (alloc_run alloc s ns))"
proof (induction ns arbitrary: s)
  case Nil
  then show ?case by simp
next
  case (Cons n ns)
  then have "invar (snd (alloc s n))" "\<forall>k \<in> set ns. fits (snd (alloc s n)) k"
    by (auto intro: alloc_invar alloc_fits)
  then show ?case using Cons.IH by (simp add: case_prod_beta Let_def)
qed

lemma run_blocks_fresh:
  "invar s \<Longrightarrow> \<forall>n \<in> set ns. fits s n \<Longrightarrow> (p, k) \<in> set (fst (alloc_run alloc s ns)) \<Longrightarrow>
     addrs p k \<subseteq> pool s - taken s"
proof (induction ns arbitrary: s)
  case Nil
  then show ?case by simp
next
  case (Cons n ns)
  let ?s = "snd (alloc s n)"
  have n: "fits s n" using Cons.prems by simp
  have "invar ?s" "\<forall>k \<in> set ns. fits ?s k"
    using Cons.prems by (auto intro: alloc_invar alloc_fits)
  then have ih: "addrs p k \<subseteq> pool ?s - taken ?s" if "(p, k) \<in> set (fst (alloc_run alloc ?s ns))"
    using Cons.IH that by blast
  have "(p, k) = (fst (alloc s n), n) \<and> fst (alloc s n) \<noteq> 0
      \<or> (p, k) \<in> set (fst (alloc_run alloc ?s ns))"
    using Cons.prems(3) by (auto simp: case_prod_beta Let_def split: if_splits)
  then show ?case
    using ih alloc_fresh [OF Cons.prems(1) n] alloc_taken [OF Cons.prems(1) n]
      alloc_pool [OF Cons.prems(1) n] by auto
qed

lemma run_blocks_disjoint:
  "invar s \<Longrightarrow> \<forall>n \<in> set ns. fits s n \<Longrightarrow> disjoint_blocks (fst (alloc_run alloc s ns))"
proof (induction ns arbitrary: s)
  case Nil
  then show ?case by simp
next
  case (Cons n ns)
  let ?s = "snd (alloc s n)"
  have n: "fits s n" using Cons.prems by simp
  have s: "invar ?s" "\<forall>k \<in> set ns. fits ?s k"
    using Cons.prems by (auto intro: alloc_invar alloc_fits)
  have "addrs (fst (alloc s n)) n \<inter> addrs q k = {}"
    if "fst (alloc s n) \<noteq> 0" "(q, k) \<in> set (fst (alloc_run alloc ?s ns))" for q k
    using run_blocks_fresh [OF s that(2)] alloc_taken [OF Cons.prems(1) n] that(1) by auto
  then show ?case using Cons.IH [OF s] by (auto simp: case_prod_beta Let_def)
qed

end

section \<open>Bounded byte queues\<close>

text \<open>
  A bounded FIFO of bytes: \<open>put\<close> reports whether it accepted the byte, \<open>get\<close> returns the
  oldest byte or nothing.  \<open>contents\<close> is the queue as a list, oldest byte first.
\<close>

datatype queue_op = Put u8 | Get

fun queue_run ::
  "('q \<Rightarrow> u8 \<Rightarrow> bool \<times> 'q) \<Rightarrow> ('q \<Rightarrow> u8 option \<times> 'q) \<Rightarrow> 'q \<Rightarrow> queue_op list
    \<Rightarrow> u8 list \<times> u8 list \<times> 'q" where
  "queue_run put get q [] = ([], [], q)"
| "queue_run put get q (Put c # ops) =
     (let (ok, q') = put q c; (ins, outs, q'') = queue_run put get q' ops
      in (if ok then c # ins else ins, outs, q''))"
| "queue_run put get q (Get # ops) =
     (let (r, q') = get q; (ins, outs, q'') = queue_run put get q' ops
      in (ins, (case r of None \<Rightarrow> outs | Some c \<Rightarrow> c # outs), q''))"

locale bounded_queue =
  fixes put :: "'q \<Rightarrow> u8 \<Rightarrow> bool \<times> 'q"
    and get :: "'q \<Rightarrow> u8 option \<times> 'q"
    and contents :: "'q \<Rightarrow> u8 list"
    and room :: "'q \<Rightarrow> nat"
    and invar :: "'q \<Rightarrow> bool"
  assumes put_invar: "invar q \<Longrightarrow> invar (snd (put q c))"
    and put_accepts: "invar q \<Longrightarrow> fst (put q c) \<longleftrightarrow> length (contents q) < room q"
    and put_contents: "invar q \<Longrightarrow>
      contents (snd (put q c)) = contents q @ (if length (contents q) < room q then [c] else [])"
    and put_room: "invar q \<Longrightarrow> room (snd (put q c)) = room q"
    and get_invar: "invar q \<Longrightarrow> invar (snd (get q))"
    and get_result: "invar q \<Longrightarrow>
      fst (get q) = (case contents q of [] \<Rightarrow> None | c # _ \<Rightarrow> Some c)"
    and get_contents: "invar q \<Longrightarrow> contents (snd (get q)) = tl (contents q)"
    and get_room: "invar q \<Longrightarrow> room (snd (get q)) = room q"
begin

lemma run_invar:
  "invar q \<Longrightarrow> invar (snd (snd (queue_run put get q ops)))"
proof (induction ops arbitrary: q)
  case Nil
  then show ?case by simp
next
  case (Cons op ops)
  then show ?case
    by (cases op) (auto simp: case_prod_beta Let_def put_invar get_invar)
qed

lemma run_fifo:
  "invar q \<Longrightarrow> contents q @ fst (queue_run put get q ops)
     = fst (snd (queue_run put get q ops)) @ contents (snd (snd (queue_run put get q ops)))"
proof (induction ops arbitrary: q)
  case Nil
  then show ?case by simp
next
  case (Cons op ops)
  show ?case
  proof (cases op)
    case (Put c)
    have "invar (snd (put q c))" using Cons.prems by (rule put_invar)
    from Cons.IH [OF this] show ?thesis
      using Cons.prems by (auto simp: Put case_prod_beta Let_def put_contents put_accepts)
  next
    case Get
    have "invar (snd (get q))" using Cons.prems by (rule get_invar)
    from Cons.IH [OF this] show ?thesis
      using Cons.prems
      by (auto simp: Get case_prod_beta Let_def get_contents get_result split: list.splits)
  qed
qed

end

text \<open>
  The same queue as a data type: its two operations as calls with replies, which refine those of a plain
  list of at most \<open>k\<close> bytes.
\<close>

datatype queue_reply = Accepted bool | Taken "u8 option"

fun queue_call ::
  "('q \<Rightarrow> u8 \<Rightarrow> bool \<times> 'q) \<Rightarrow> ('q \<Rightarrow> u8 option \<times> 'q) \<Rightarrow> queue_op \<Rightarrow> 'q \<Rightarrow> queue_reply \<times> 'q" where
  "queue_call put get (Put c) q = map_prod Accepted id (put q c)"
| "queue_call put get Get q = map_prod Taken id (get q)"

fun list_queue :: "nat \<Rightarrow> queue_op \<Rightarrow> u8 list \<Rightarrow> queue_reply \<times> u8 list" where
  "list_queue k (Put c) cs = (if length cs < k then (Accepted True, cs @ [c]) else (Accepted False, cs))"
| "list_queue k Get [] = (Taken None, [])"
| "list_queue k Get (c # cs) = (Taken (Some c), cs)"

sublocale bounded_queue \<subseteq> sized: data_refinement "\<lambda>q. invar q \<and> room q = k" contents "\<lambda>_. True"
  "queue_call put get" "list_queue k" "\<lambda>_. False" for k
proof (unfold_locales, goal_cases)
  case (1 q c)
  then show ?case by (cases c) (simp_all add: put_invar put_room get_invar get_room)
next
  case (2 q c)
  then show ?case
    by (cases c; cases "contents q") (auto simp: put_accepts put_contents get_result get_contents)
qed

section \<open>Byte sinks\<close>

text \<open>
  A device one byte is sent to.  Sending may wait for the device for ever (\<open>None\<close>);
  \<open>live\<close> says the device becomes ready again and again.
\<close>

fun put_all :: "(u8 \<Rightarrow> 's \<Rightarrow> 's option) \<Rightarrow> u8 list \<Rightarrow> 's \<Rightarrow> 's option" where
  "put_all put [] s = Some s"
| "put_all put (c # cs) s = Option.bind (put c s) (put_all put cs)"

locale byte_sink =
  fixes put :: "u8 \<Rightarrow> 's \<Rightarrow> 's option"
    and sent :: "'s \<Rightarrow> u8 list"
    and live :: "'s \<Rightarrow> bool"
  assumes put_returns: "live s \<Longrightarrow> put c s \<noteq> None"
    and put_live: "live s \<Longrightarrow> put c s = Some s' \<Longrightarrow> live s'"
    and put_sent: "live s \<Longrightarrow> put c s = Some s' \<Longrightarrow> sent s' = sent s @ [c]"
begin

lemma put_all_sends:
  "live s \<Longrightarrow> \<exists>s'. put_all put cs s = Some s' \<and> live s' \<and> sent s' = sent s @ cs"
proof (induction cs arbitrary: s)
  case Nil
  then show ?case by simp
next
  case (Cons c cs)
  from put_returns [OF Cons.prems] obtain s1 where s1: "put c s = Some s1" by blast
  with Cons.prems have "live s1" "sent s1 = sent s @ [c]" by (auto intro: put_live put_sent)
  with Cons.IH [of s1] s1 show ?case by auto
qed

end

end
