(* ===== verification/Bump.thy ===== *)
theory Bump
  imports Interfaces
begin

text \<open>
  The kernel heap, \<open>kernel/drivers/mem.c\<close>: a bump allocator over the addresses
  \<open>heap_start\<close> up to \<open>heap_end\<close>.  The three file-level variables are the record
  \<open>heap\<close>; \<open>kmalloc\<close> returns the pointer (0 is \<open>NULL\<close>) and the new heap.  All
  arithmetic is on \<open>uint32_t\<close>, so the sum in the out-of-memory test can wrap.
\<close>

record heap =
  heap_start :: u32
  heap_end :: u32
  current_addr :: u32

definition heap_reset :: heap where
  "heap_reset = \<lparr>heap_start = 0, heap_end = 0, current_addr = 0\<rparr>"

definition mem_initialize :: "u32 \<Rightarrow> u32 \<Rightarrow> heap \<Rightarrow> heap" where
  "mem_initialize start_addr sz h =
     h\<lparr>heap_start := start_addr, heap_end := start_addr + sz, current_addr := start_addr\<rparr>"

definition kmalloc :: "heap \<Rightarrow> u32 \<Rightarrow> u32 \<times> heap" where
  "kmalloc h sz =
     (if heap_end h < current_addr h + sz then (0, h)
      else
        let ptr = current_addr h;
            cur = current_addr h + sz;
            cur' = (if cur mod 4 \<noteq> 0 then cur + (4 - cur mod 4) else cur)
        in (ptr, h\<lparr>current_addr := cur'\<rparr>))"

definition kfree :: "heap \<Rightarrow> u32 \<Rightarrow> heap" where
  "kfree h ptr = h"

section \<open>The allocator contract\<close>

text \<open>
  A request fits when adding it to any address of the heap cannot wrap.  The invariant: the
  bump pointer is word aligned and lies between the start of the heap and its end, up to the
  last alignment step.
\<close>

definition heap_fits :: "heap \<Rightarrow> u32 \<Rightarrow> bool" where
  "heap_fits h sz \<longleftrightarrow> unat (heap_end h) + 4 + unat sz < 2 ^ 32"

definition heap_invar :: "heap \<Rightarrow> bool" where
  "heap_invar h \<longleftrightarrow> 0 < unat (heap_start h) \<and> unat (heap_start h) \<le> unat (current_addr h)
     \<and> unat (current_addr h) < unat (heap_end h) + 4 \<and> unat (heap_end h) + 4 < 2 ^ 32
     \<and> unat (current_addr h) mod 4 = 0"

definition heap_pool :: "heap \<Rightarrow> nat set" where
  "heap_pool h = {unat (heap_start h) ..< unat (heap_end h)}"

definition heap_taken :: "heap \<Rightarrow> nat set" where
  "heap_taken h = {unat (heap_start h) ..< unat (current_addr h)}"

definition round_up4 :: "nat \<Rightarrow> nat" where
  "round_up4 n = (if n mod 4 \<noteq> 0 then n + (4 - n mod 4) else n)"

lemma round_up4: "n \<le> round_up4 n" "round_up4 n < n + 4" "round_up4 n mod 4 = 0"
  unfolding round_up4_def by (simp_all, presburger+)

lemma unat_round_up4:
  assumes "unat (x :: u32) + 4 < 2 ^ 32"
  shows "unat (if x mod 4 \<noteq> 0 then x + (4 - x mod 4) else x) = round_up4 (unat x)"
proof -
  have m: "unat (x mod 4) = unat x mod 4" by (simp add: unat_mod)
  then have "unat (4 - x mod 4) = 4 - unat x mod 4" by (simp add: unat_sub_le)
  moreover have "x mod 4 = 0 \<longleftrightarrow> unat x mod 4 = 0" using m by (metis unat_eq_zero)
  ultimately show ?thesis
    using assms by (auto simp: round_up4_def unat_add_small)
qed

lemma kmalloc_fits:
  assumes "heap_invar h" "heap_fits h sz"
  shows "unat (current_addr h + sz) = unat (current_addr h) + unat sz"
  using assms by (intro unat_add_small) (simp add: heap_invar_def heap_fits_def)

lemma kmalloc_cases:
  assumes "heap_invar h" "heap_fits h sz"
  obtains "unat (heap_end h) < unat (current_addr h) + unat sz" "kmalloc h sz = (0, h)"
  | h' where "unat (current_addr h) + unat sz \<le> unat (heap_end h)"
      "kmalloc h sz = (current_addr h, h')" "heap_start h' = heap_start h"
      "heap_end h' = heap_end h"
      "unat (current_addr h') = round_up4 (unat (current_addr h) + unat sz)"
proof (cases "heap_end h < current_addr h + sz")
  case True
  then show ?thesis using kmalloc_fits [OF assms] that(1)
    by (simp add: kmalloc_def word_less_nat_alt)
next
  case False
  let ?c = "current_addr h + sz"
  have le: "unat (current_addr h) + unat sz \<le> unat (heap_end h)"
    using False kmalloc_fits [OF assms] by (simp add: word_less_nat_alt)
  then have "unat ?c + 4 < 2 ^ 32"
    using kmalloc_fits [OF assms] assms(1) by (simp add: heap_invar_def)
  from unat_round_up4 [OF this] show ?thesis
    using that(2) [OF le, of "snd (kmalloc h sz)"] False kmalloc_fits [OF assms]
    by (simp add: kmalloc_def Let_def)
qed

interpretation bump: allocator kmalloc heap_invar heap_pool heap_taken heap_fits
proof
  fix h n k
  assume inv: "heap_invar h" and fit: "heap_fits h n"
  show "heap_invar (snd (kmalloc h n))"
    using inv fit
    by (rule kmalloc_cases) (use inv fit round_up4 [of "unat (current_addr h) + unat n"] in
      \<open>auto simp: heap_invar_def\<close>)
  show "addrs (fst (kmalloc h n)) n \<subseteq> heap_pool h - heap_taken h" if "fst (kmalloc h n) \<noteq> 0"
    using inv fit
    by (rule kmalloc_cases) (use inv that in \<open>auto simp: heap_invar_def addrs_def heap_pool_def heap_taken_def\<close>)
  show "heap_taken h \<union> (if fst (kmalloc h n) = 0 then {} else addrs (fst (kmalloc h n)) n)
      \<subseteq> heap_taken (snd (kmalloc h n))"
    using inv fit
    by (rule kmalloc_cases) (use inv round_up4 [of "unat (current_addr h) + unat n"] in
      \<open>auto simp: heap_invar_def addrs_def heap_taken_def\<close>)
  show "heap_pool (snd (kmalloc h n)) = heap_pool h"
    using inv fit by (rule kmalloc_cases) (auto simp: heap_pool_def)
  show "heap_fits (snd (kmalloc h n)) k" if "heap_fits h k"
    using inv fit by (rule kmalloc_cases) (use that in \<open>auto simp: heap_fits_def\<close>)
qed

lemma kmalloc_run_aligned:
  "heap_invar h \<Longrightarrow> \<forall>n \<in> set ns. heap_fits h n \<Longrightarrow> (p, k) \<in> set (fst (alloc_run kmalloc h ns)) \<Longrightarrow>
     unat p mod 4 = 0"
proof (induction ns arbitrary: h)
  case Nil
  then show ?case by simp
next
  case (Cons n ns)
  have n: "heap_fits h n" using Cons.prems by simp
  have "heap_invar (snd (kmalloc h n))" "\<forall>k \<in> set ns. heap_fits (snd (kmalloc h n)) k"
    using Cons.prems by (auto intro: bump.alloc_invar bump.alloc_fits)
  note later = Cons.IH [OF this]
  have "fst (kmalloc h n) \<noteq> 0 \<Longrightarrow> unat (fst (kmalloc h n)) mod 4 = 0"
    using Cons.prems(1) n by (rule kmalloc_cases) (use Cons.prems(1) in \<open>auto simp: heap_invar_def\<close>)
  then show ?case
    using Cons.prems(3) later by (auto simp: case_prod_beta Let_def split: if_splits)
qed

section \<open>Properties\<close>

text \<open>The heap \<open>kernel_main\<close> sets up: 4 MiB from the 2 MiB mark.\<close>

definition kernel_heap :: heap where
  "kernel_heap = mem_initialize 0x200000 (4 * 1024 * 1024) heap_reset"

lemma kernel_heap_invar: "heap_invar kernel_heap"
  by (simp add: heap_invar_def kernel_heap_def mem_initialize_def heap_reset_def)

lemma kernel_heap_fits: "unat n < 0xFF9FFFFC \<Longrightarrow> heap_fits kernel_heap n"
  by (simp add: heap_fits_def kernel_heap_def mem_initialize_def heap_reset_def)

lemma kernel_heap_pool: "heap_pool kernel_heap = {0x200000 ..< 0x600000}"
  by (simp add: heap_pool_def kernel_heap_def mem_initialize_def heap_reset_def)

text \<open>
  C29: on the heap the kernel sets up, whatever the sequence of requests, as long as no
  request is larger than 0xFF9FFFFB bytes, the blocks \<open>kmalloc\<close> hands out never overlap, lie
  inside the 4 MiB heap and start on a word boundary.
\<close>

theorem kmalloc_blocks_disjoint:
  assumes "\<forall>n \<in> set requests. unat n < 0xFF9FFFFC"
  shows "disjoint_blocks (fst (alloc_run kmalloc kernel_heap requests))
    \<and> (\<forall>(p, k) \<in> set (fst (alloc_run kmalloc kernel_heap requests)).
        addrs p k \<subseteq> {0x200000 ..< 0x600000} \<and> unat p mod 4 = 0)"
proof -
  have fits: "\<forall>n \<in> set requests. heap_fits kernel_heap n"
    using assms kernel_heap_fits by blast
  show ?thesis
    using bump.run_blocks_disjoint [OF kernel_heap_invar fits]
      bump.run_blocks_fresh [OF kernel_heap_invar fits]
      kmalloc_run_aligned [OF kernel_heap_invar fits]
    by (fastforce simp: kernel_heap_pool)
qed

theorem kmalloc_blocks_disjoint_witness:
  "disjoint_blocks (fst (alloc_run kmalloc kernel_heap [5, 0x500000, 8]))
    \<and> fst (alloc_run kmalloc kernel_heap [5, 0x500000, 8]) = [(0x200000, 5), (0x200008, 8)]"
proof (rule conjI)
  show "disjoint_blocks (fst (alloc_run kmalloc kernel_heap [5, 0x500000, 8]))"
    by (rule kmalloc_blocks_disjoint [THEN conjunct1]) simp
  show "fst (alloc_run kmalloc kernel_heap [5, 0x500000, 8]) = [(0x200000, 5), (0x200008, 8)]"
    by (simp add: kernel_heap_def mem_initialize_def heap_reset_def kmalloc_def)
qed

text \<open>
  The out-of-memory test of \<open>kmalloc\<close> adds with wrap-around, so a huge request is
  accepted and moves the bump pointer backwards: after two ordinary requests of 16 bytes, a
  request of 0xFFFFFFF0 bytes succeeds, and the next ordinary request is given the second
  block again while it is still in use.
\<close>

theorem kmalloc_wraps_and_aliases:
  "fst (alloc_run kmalloc kernel_heap [16, 16, 0xFFFFFFF0, 16])
     = [(0x200000, 16), (0x200010, 16), (0x200020, 0xFFFFFFF0), (0x200010, 16)]"
  by (simp add: kernel_heap_def mem_initialize_def heap_reset_def kmalloc_def)

end
