(* ===== verification/Machine.thy ===== *)
theory Machine
  imports Interfaces
begin

text \<open>
  The port-mapped hardware as the kernel sees it, and the COM1 driver of
  \<open>kernel/kernel.c\<close>.  What a device answers is outside the kernel: \<open>dev_in s p i\<close> is the
  value the \<open>i\<close>-th read of port \<open>p\<close> returns, a parameter of the model; \<open>dev_rd\<close> counts the
  reads made and \<open>dev_out\<close> records the writes in order.  A busy-wait loop on a status port is a
  \<open>partial_function\<close> into \<open>option\<close>: \<open>None\<close> is a device that never becomes ready.

  The kernel's global variables are fields of one record that the component theories extend;
  an operation that touches only some of them is defined on the record scheme that has them.
\<close>

record machine =
  dev_in :: "u16 \<Rightarrow> nat \<Rightarrow> u8"
  dev_rd :: "u16 \<Rightarrow> nat"
  dev_out :: "(u16 \<times> u8) list"

definition outb :: "u16 \<Rightarrow> u8 \<Rightarrow> 'a machine_scheme \<Rightarrow> 'a machine_scheme" where
  "outb port val s = s\<lparr>dev_out := dev_out s @ [(port, val)]\<rparr>"

definition inb :: "u16 \<Rightarrow> 'a machine_scheme \<Rightarrow> u8 \<times> 'a machine_scheme" where
  "inb port s =
     (dev_in s port (dev_rd s port), s\<lparr>dev_rd := (dev_rd s)(port := Suc (dev_rd s port))\<rparr>)"

section \<open>COM1\<close>

abbreviation (input) COM1_PORT :: u16 where "COM1_PORT \<equiv> 0x3F8"

definition init_serial :: "'a machine_scheme \<Rightarrow> 'a machine_scheme" where
  "init_serial s =
     outb (COM1_PORT + 4) 0x0B (outb (COM1_PORT + 2) 0xC7 (outb (COM1_PORT + 3) 0x03
     (outb (COM1_PORT + 1) 0x00 (outb (COM1_PORT + 0) 0x03 (outb (COM1_PORT + 3) 0x80
     (outb (COM1_PORT + 1) 0x00 s))))))"

definition is_transmit_empty :: "'a machine_scheme \<Rightarrow> int \<times> 'a machine_scheme" where
  "is_transmit_empty s = (let (v, s') = inb (COM1_PORT + 5) s in (uint (v AND 0x20), s'))"

definition serial_has_data :: "'a machine_scheme \<Rightarrow> int \<times> 'a machine_scheme" where
  "serial_has_data s = (let (v, s') = inb (COM1_PORT + 5) s in (uint (v AND 0x01), s'))"

partial_function (option) serial_wait_data :: "'a machine_scheme \<Rightarrow> 'a machine_scheme option" where
  "serial_wait_data s =
     (let (v, s') = serial_has_data s in if v = 0 then serial_wait_data s' else Some s')"

definition serial_getc :: "'a machine_scheme \<Rightarrow> (u8 \<times> 'a machine_scheme) option" where
  "serial_getc s = map_option (inb COM1_PORT) (serial_wait_data s)"

partial_function (option) serial_wait_empty :: "'a machine_scheme \<Rightarrow> 'a machine_scheme option" where
  "serial_wait_empty s =
     (let (v, s') = is_transmit_empty s in if v = 0 then serial_wait_empty s' else Some s')"

definition write_serial :: "u8 \<Rightarrow> 'a machine_scheme \<Rightarrow> 'a machine_scheme option" where
  "write_serial a s = map_option (outb COM1_PORT a) (serial_wait_empty s)"

text \<open>The argument is the byte array up to its NUL; a NUL before the end stops the loop.\<close>

fun write_serial_string :: "u8 list \<Rightarrow> 'a machine_scheme \<Rightarrow> 'a machine_scheme option" where
  "write_serial_string [] s = Some s"
| "write_serial_string (c # cs) s =
     (if c = 0 then Some s else Option.bind (write_serial c s) (write_serial_string cs))"

section \<open>Waiting for the transmitter\<close>

text \<open>
  \<open>uart_live\<close>: from any point on, the line status register eventually reports an empty
  transmitter.  Under it the wait loop ends, having only read that register.
\<close>

definition uart_live :: "'a machine_scheme \<Rightarrow> bool" where
  "uart_live s \<longleftrightarrow> (\<forall>n. \<exists>i\<ge>n. dev_in s 0x3FD i AND 0x20 \<noteq> 0)"

definition com1_sent :: "'a machine_scheme \<Rightarrow> u8 list" where
  "com1_sent s = map snd (filter (\<lambda>w. fst w = COM1_PORT) (dev_out s))"

lemma serial_wait_empty_returns:
  assumes "dev_in s 0x3FD i AND 0x20 \<noteq> 0" "dev_rd s 0x3FD \<le> i"
  shows "\<exists>k. serial_wait_empty s = Some (s\<lparr>dev_rd := (dev_rd s)(0x3FD := k)\<rparr>)"
  using assms
proof (induction "i - dev_rd s 0x3FD" arbitrary: s)
  case 0
  then have "dev_rd s 0x3FD = i" by simp
  with 0 show ?case
    by (subst serial_wait_empty.simps)
      (auto simp: is_transmit_empty_def inb_def word_uint_eq_iff)
next
  case (Suc d)
  let ?s = "snd (is_transmit_empty s)"
  have s': "?s = s\<lparr>dev_rd := (dev_rd s)(0x3FD := Suc (dev_rd s 0x3FD))\<rparr>"
    by (simp add: is_transmit_empty_def inb_def)
  have "\<exists>k. serial_wait_empty ?s = Some (?s\<lparr>dev_rd := (dev_rd ?s)(0x3FD := k)\<rparr>)"
    using Suc.hyps(2) Suc.prems by (intro Suc.hyps(1)) (auto simp: s')
  then obtain k where k: "serial_wait_empty ?s = Some (s\<lparr>dev_rd := (dev_rd s)(0x3FD := k)\<rparr>)"
    by (auto simp: s')
  show ?case
  proof (cases "fst (is_transmit_empty s) = 0")
    case True
    with k show ?thesis by (subst serial_wait_empty.simps) (auto simp: case_prod_beta Let_def)
  next
    case False
    then show ?thesis
      by (subst serial_wait_empty.simps) (auto simp: case_prod_beta Let_def s')
  qed
qed

lemma write_serial_live:
  assumes "uart_live s"
  shows "\<exists>k. write_serial c s
    = Some (s\<lparr>dev_rd := (dev_rd s)(0x3FD := k), dev_out := dev_out s @ [(COM1_PORT, c)]\<rparr>)"
proof -
  obtain i where "dev_rd s 0x3FD \<le> i" "dev_in s 0x3FD i AND 0x20 \<noteq> 0"
    using assms unfolding uart_live_def by blast
  then show ?thesis
    using serial_wait_empty_returns [of s i] by (auto simp: write_serial_def outb_def)
qed

interpretation com1: byte_sink write_serial com1_sent uart_live
proof
  fix s s' :: "'a machine_scheme" and c
  assume live: "uart_live s"
  from write_serial_live [OF live, of c] show "write_serial c s \<noteq> None" by auto
  assume "write_serial c s = Some s'"
  then obtain k where s': "s' = s\<lparr>dev_rd := (dev_rd s)(0x3FD := k), dev_out := dev_out s @ [(COM1_PORT, c)]\<rparr>"
    using write_serial_live [OF live, of c] by auto
  then show "uart_live s'" using live by (simp add: uart_live_def)
  show "com1_sent s' = com1_sent s @ [c]" by (simp add: s' com1_sent_def)
qed

lemma write_serial_string_put_all:
  "0 \<notin> set cs \<Longrightarrow> write_serial_string cs s = put_all write_serial cs s"
  by (induction cs arbitrary: s) (auto intro: bind_option_cong)

end
