(* ===== verification/Vga.thy ===== *)
theory Vga
  imports Machine
begin

text \<open>
  The text console, \<open>kernel/drivers/vga.c\<close>.  \<open>terminal_buffer\<close> is the memory of 16-bit
  cells behind the pointer 0xB8000, addressed by cell index and not limited to the 2000 cells
  of the screen, so that a write outside the screen would be visible in the model.  Row and
  column are \<open>size_t\<close>.  Every printed byte is echoed to COM1 first, which may wait for ever.
\<close>

record vga = machine +
  terminal_row :: u32
  terminal_column :: u32
  terminal_color :: u8
  terminal_buffer :: "nat \<Rightarrow> u16"

abbreviation (input) VGA_WIDTH :: nat where "VGA_WIDTH \<equiv> 80"
abbreviation (input) VGA_HEIGHT :: nat where "VGA_HEIGHT \<equiv> 25"

datatype vga_color =
  VGA_COLOR_BLACK | VGA_COLOR_BLUE | VGA_COLOR_GREEN | VGA_COLOR_CYAN | VGA_COLOR_RED
| VGA_COLOR_MAGENTA | VGA_COLOR_BROWN | VGA_COLOR_LIGHT_GREY | VGA_COLOR_DARK_GREY
| VGA_COLOR_LIGHT_BLUE | VGA_COLOR_LIGHT_GREEN | VGA_COLOR_LIGHT_CYAN | VGA_COLOR_LIGHT_RED
| VGA_COLOR_LIGHT_MAGENTA | VGA_COLOR_LIGHT_BROWN | VGA_COLOR_WHITE

fun vga_color_code :: "vga_color \<Rightarrow> u8" where
  "vga_color_code VGA_COLOR_BLACK = 0"
| "vga_color_code VGA_COLOR_BLUE = 1"
| "vga_color_code VGA_COLOR_GREEN = 2"
| "vga_color_code VGA_COLOR_CYAN = 3"
| "vga_color_code VGA_COLOR_RED = 4"
| "vga_color_code VGA_COLOR_MAGENTA = 5"
| "vga_color_code VGA_COLOR_BROWN = 6"
| "vga_color_code VGA_COLOR_LIGHT_GREY = 7"
| "vga_color_code VGA_COLOR_DARK_GREY = 8"
| "vga_color_code VGA_COLOR_LIGHT_BLUE = 9"
| "vga_color_code VGA_COLOR_LIGHT_GREEN = 10"
| "vga_color_code VGA_COLOR_LIGHT_CYAN = 11"
| "vga_color_code VGA_COLOR_LIGHT_RED = 12"
| "vga_color_code VGA_COLOR_LIGHT_MAGENTA = 13"
| "vga_color_code VGA_COLOR_LIGHT_BROWN = 14"
| "vga_color_code VGA_COLOR_WHITE = 15"

definition vga_entry_color :: "vga_color \<Rightarrow> vga_color \<Rightarrow> u8" where
  "vga_entry_color fg bg = vga_color_code fg OR push_bit 4 (vga_color_code bg)"

definition vga_entry :: "u8 \<Rightarrow> u8 \<Rightarrow> u16" where
  "vga_entry uc color = ucast uc OR push_bit 8 (ucast color)"

definition terminal_putentryat ::
  "u8 \<Rightarrow> u8 \<Rightarrow> u32 \<Rightarrow> u32 \<Rightarrow> 'a vga_scheme \<Rightarrow> 'a vga_scheme" where
  "terminal_putentryat c color x y s =
     s\<lparr>terminal_buffer := (terminal_buffer s)(unat (y * of_nat VGA_WIDTH + x) := vga_entry c color)\<rparr>"

definition update_cursor :: "int \<Rightarrow> int \<Rightarrow> 'a vga_scheme \<Rightarrow> 'a vga_scheme" where
  "update_cursor x y s =
     (let pos = (word_of_int (y * int VGA_WIDTH + x) :: u16) in
      outb 0x3D5 (ucast (drop_bit 8 pos AND 0xFF)) (outb 0x3D4 0x0E
      (outb 0x3D5 (ucast (pos AND 0xFF)) (outb 0x3D4 0x0F s))))"

definition terminal_clear :: "'a vga_scheme \<Rightarrow> 'a vga_scheme" where
  "terminal_clear s =
     (let blank = vga_entry 32 (terminal_color s);
          buf = fold (\<lambda>y. fold (\<lambda>x b. b(y * VGA_WIDTH + x := blank)) [0..<VGA_WIDTH])
                  [0..<VGA_HEIGHT] (terminal_buffer s)
      in update_cursor 0 0 (s\<lparr>terminal_buffer := buf, terminal_row := 0, terminal_column := 0\<rparr>))"

text \<open>The buffer pointer becomes 0xB8000 here; the cells are those of that memory throughout.\<close>

definition terminal_initialize :: "'a vga_scheme \<Rightarrow> 'a vga_scheme" where
  "terminal_initialize s =
     terminal_clear (s\<lparr>terminal_row := 0, terminal_column := 0,
       terminal_color := vga_entry_color VGA_COLOR_LIGHT_CYAN VGA_COLOR_BLACK\<rparr>)"

definition terminal_setcolor :: "u8 \<Rightarrow> 'a vga_scheme \<Rightarrow> 'a vga_scheme" where
  "terminal_setcolor color s = s\<lparr>terminal_color := color\<rparr>"

definition scroll_rows :: "(nat \<Rightarrow> u16) \<Rightarrow> nat \<Rightarrow> u16" where
  "scroll_rows = fold (\<lambda>y. fold (\<lambda>x b. b(y * VGA_WIDTH + x := b ((y + 1) * VGA_WIDTH + x)))
     [0..<VGA_WIDTH]) [0..<VGA_HEIGHT - 1]"

definition clear_last_line :: "u16 \<Rightarrow> (nat \<Rightarrow> u16) \<Rightarrow> nat \<Rightarrow> u16" where
  "clear_last_line blank =
     fold (\<lambda>x b. b((VGA_HEIGHT - 1) * VGA_WIDTH + x := blank)) [0..<VGA_WIDTH]"

definition terminal_scroll :: "'a vga_scheme \<Rightarrow> 'a vga_scheme" where
  "terminal_scroll s =
     s\<lparr>terminal_buffer :=
        clear_last_line (vga_entry 32 (terminal_color s)) (scroll_rows (terminal_buffer s))\<rparr>"

text \<open>\<open>terminal_putchar\<close> after the serial echo: place the byte, scroll, move the cursor.\<close>

definition terminal_place :: "u8 \<Rightarrow> 'a vga_scheme \<Rightarrow> 'a vga_scheme" where
  "terminal_place c s =
     (if c = 10 then s\<lparr>terminal_column := 0, terminal_row := terminal_row s + 1\<rparr>
      else if c = 13 then s\<lparr>terminal_column := 0\<rparr>
      else if c = 9 then
        (let col = (terminal_column s + 4) AND NOT (4 - 1)
         in if of_nat VGA_WIDTH \<le> col
            then s\<lparr>terminal_column := 0, terminal_row := terminal_row s + 1\<rparr>
            else s\<lparr>terminal_column := col\<rparr>)
      else if c = 8 then
        (if 0 < terminal_column s then
           (let s' = s\<lparr>terminal_column := terminal_column s - 1\<rparr>
            in terminal_putentryat 32 (terminal_color s') (terminal_column s') (terminal_row s') s')
         else if 0 < terminal_row s then
           (let s' = s\<lparr>terminal_row := terminal_row s - 1, terminal_column := of_nat VGA_WIDTH - 1\<rparr>
            in terminal_putentryat 32 (terminal_color s') (terminal_column s') (terminal_row s') s')
         else s)
      else
        (let s' = terminal_putentryat c (terminal_color s) (terminal_column s) (terminal_row s) s;
             col = terminal_column s' + 1
         in if col = of_nat VGA_WIDTH
            then s'\<lparr>terminal_column := 0, terminal_row := terminal_row s' + 1\<rparr>
            else s'\<lparr>terminal_column := col\<rparr>))"

definition terminal_scroll_if_full :: "'a vga_scheme \<Rightarrow> 'a vga_scheme" where
  "terminal_scroll_if_full s =
     (if of_nat VGA_HEIGHT \<le> terminal_row s
      then (terminal_scroll s)\<lparr>terminal_row := of_nat VGA_HEIGHT - 1\<rparr> else s)"

definition terminal_putchar :: "u8 \<Rightarrow> 'a vga_scheme \<Rightarrow> 'a vga_scheme option" where
  "terminal_putchar c s =
     map_option (\<lambda>s1.
         let s2 = terminal_scroll_if_full (terminal_place c (outb 0x3F8 c s1))
         in update_cursor (sint (terminal_column s2)) (sint (terminal_row s2)) s2)
       (serial_wait_empty s)"

fun terminal_write :: "u8 list \<Rightarrow> 'a vga_scheme \<Rightarrow> 'a vga_scheme option" where
  "terminal_write [] s = Some s"
| "terminal_write (c # cs) s = Option.bind (terminal_putchar c s) (terminal_write cs)"

text \<open>The string up to its first NUL.\<close>

definition terminal_writestring :: "u8 list \<Rightarrow> 'a vga_scheme \<Rightarrow> 'a vga_scheme option" where
  "terminal_writestring data s = terminal_write (takeWhile (\<lambda>c. c \<noteq> 0) data) s"

section \<open>What the loops compute\<close>

lemma scroll_inner:
  "n \<le> 80 \<Longrightarrow> fold (\<lambda>x b. b(y * 80 + x := b ((y + 1) * 80 + x))) [0..<n] b
     = (\<lambda>j. if y * 80 \<le> j \<and> j < y * 80 + n then b (j + 80) else (b j :: u16))"
proof (induction n)
  case 0
  then show ?case by (auto simp: fun_eq_iff)
next
  case (Suc n)
  then show ?case by (auto simp: fun_eq_iff less_Suc_eq add_ac)
qed

lemma scroll_rows_eq:
  "scroll_rows b = (\<lambda>j. if j < 1920 then b (j + 80) else b j)"
proof -
  let ?row = "\<lambda>y b j. if y * 80 \<le> j \<and> j < y * 80 + 80 then b (j + 80) else (b j :: u16)"
  have row: "(\<lambda>y. fold (\<lambda>x b. b(y * 80 + x := b ((y + 1) * 80 + x))) [0..<80]) = ?row"
    by (intro ext) (simp only: scroll_inner [OF order_refl])
  have "fold ?row [0..<k] b = (\<lambda>j. if j < k * 80 then b (j + 80) else b j)" for k
    by (induction k) (auto simp: fun_eq_iff)
  from this [of 24] show ?thesis unfolding scroll_rows_def row by simp
qed

lemma fill_eq:
  "fold (\<lambda>x b. b(k + x := v)) [0..<n] b = (\<lambda>j. if k \<le> j \<and> j < k + n then v else (b j :: u16))"
  by (induction n) (auto simp: fun_eq_iff)

lemma clear_last_line_eq:
  "clear_last_line v b = (\<lambda>j. if 1920 \<le> j \<and> j < 2000 then v else b j)"
  by (simp add: clear_last_line_def fill_eq)

lemma clear_all_eq:
  "fold (\<lambda>y. fold (\<lambda>x b. b(y * 80 + x := v)) [0..<80]) [0..<k] b
     = (\<lambda>j. if j < k * 80 then v else (b j :: u16))"
proof -
  have row: "(\<lambda>y. fold (\<lambda>x b. b(y * 80 + x := v)) [0..<80])
      = (\<lambda>y b j. if y * 80 \<le> j \<and> j < y * 80 + 80 then v else (b j :: u16))"
    by (intro ext) (simp only: fill_eq)
  show ?thesis unfolding row by (induction k) (auto simp: fun_eq_iff)
qed

section \<open>The abstract screen\<close>

text \<open>
  The specification: 25 lines of 80 cells and a cursor.  \<open>screen_put\<close> is what printing one
  byte means on it; \<open>screen_of\<close> reads the screen off the buffer and the two cursor words.
\<close>

definition screen_lines :: "(nat \<Rightarrow> u16) \<Rightarrow> u16 list list" where
  "screen_lines b = map (\<lambda>y. map (\<lambda>x. b (y * VGA_WIDTH + x)) [0..<VGA_WIDTH]) [0..<VGA_HEIGHT]"

lemma length_screen_lines [simp]: "length (screen_lines b) = 25"
  by (simp add: screen_lines_def)

lemma nth_screen_lines:
  "y < 25 \<Longrightarrow> screen_lines b ! y = map (\<lambda>x. b (y * 80 + x)) [0..<80]"
  by (simp add: screen_lines_def)

lemma cell_inj: 
  assumes x: "x < 80" "x' < 80"
  shows "y * 80 + x = y' * 80 + x' \<longleftrightarrow> y = y' \<and> x = (x' :: nat)"
proof
  assume eq: "y * 80 + x = y' * 80 + x'"
  have "(y * 80 + x) div 80 = y" "(y' * 80 + x') div 80 = y'" using x by simp_all
  with eq have "y = y'" by metis
  with eq show "y = y' \<and> x = x'" by simp
qed simp

lemma screen_lines_update:
  assumes "y < 25" "x < 80"
  shows "screen_lines (b(y * 80 + x := v)) = (screen_lines b)[y := (screen_lines b ! y)[x := v]]"
proof (rule nth_equalityI)
  fix i assume i: "i < length (screen_lines (b(y * 80 + x := v)))"
  show "screen_lines (b(y * 80 + x := v)) ! i
      = (screen_lines b)[y := (screen_lines b ! y)[x := v]] ! i"
    using i assms
    by (cases "i = y"; intro nth_equalityI) (simp_all add: nth_screen_lines nth_list_update cell_inj)
qed (use assms in simp)

lemma screen_lines_scroll:
  "screen_lines (clear_last_line v (scroll_rows b)) = tl (screen_lines b) @ [replicate 80 v]"
proof (rule nth_equalityI)
  fix i assume i: "i < length (screen_lines (clear_last_line v (scroll_rows b)))"
  show "screen_lines (clear_last_line v (scroll_rows b)) ! i
      = (tl (screen_lines b) @ [replicate 80 v]) ! i"
    using i
    by (cases "i = 24"; intro nth_equalityI)
      (simp_all add: nth_screen_lines nth_append nth_tl scroll_rows_eq clear_last_line_eq add_ac)
qed simp

record screen =
  s_lines :: "u16 list list"
  s_row :: nat
  s_col :: nat

definition screen_set :: "nat \<Rightarrow> nat \<Rightarrow> u16 \<Rightarrow> screen \<Rightarrow> screen" where
  "screen_set y x v sc = sc\<lparr>s_lines := (s_lines sc)[y := (s_lines sc ! y)[x := v]]\<rparr>"

definition screen_place :: "u8 \<Rightarrow> u8 \<Rightarrow> screen \<Rightarrow> screen" where
  "screen_place color c sc =
     (let r = s_row sc; k = s_col sc; blank = vga_entry 32 color in
      if c = 10 then sc\<lparr>s_row := r + 1, s_col := 0\<rparr>
      else if c = 13 then sc\<lparr>s_col := 0\<rparr>
      else if c = 9 then
        (let k' = (k div 4 + 1) * 4
         in if k' < 80 then sc\<lparr>s_col := k'\<rparr> else sc\<lparr>s_row := r + 1, s_col := 0\<rparr>)
      else if c = 8 then
        (if 0 < k then screen_set r (k - 1) blank (sc\<lparr>s_col := k - 1\<rparr>)
         else if 0 < r then screen_set (r - 1) 79 blank (sc\<lparr>s_row := r - 1, s_col := 79\<rparr>)
         else sc)
      else
        (let sc' = screen_set r k (vga_entry c color) sc
         in if k + 1 < 80 then sc'\<lparr>s_col := k + 1\<rparr> else sc'\<lparr>s_row := r + 1, s_col := 0\<rparr>))"

definition screen_put :: "u8 \<Rightarrow> u8 \<Rightarrow> screen \<Rightarrow> screen" where
  "screen_put color c sc =
     (let sc' = screen_place color c sc in
      if s_row sc' < 25 then sc'
      else sc'\<lparr>s_lines := tl (s_lines sc') @ [replicate 80 (vga_entry 32 color)], s_row := 24\<rparr>)"

definition screen_of :: "'a vga_scheme \<Rightarrow> screen" where
  "screen_of s = \<lparr>s_lines = screen_lines (terminal_buffer s),
     s_row = unat (terminal_row s), s_col = unat (terminal_column s)\<rparr>"

definition vga_ok :: "'a vga_scheme \<Rightarrow> bool" where
  "vga_ok s \<longleftrightarrow> unat (terminal_row s) < 25 \<and> unat (terminal_column s) < 80"

section \<open>Refinement\<close>

lemma unat_cell_index:
  "unat y < 25 \<Longrightarrow> unat x < 80 \<Longrightarrow> unat (y * 80 + x :: u32) = unat y * 80 + unat x"
  by (simp add: unat_word_ariths)

lemma screen_of_putentryat:
  assumes "unat (y :: u32) < 25" "unat (x :: u32) < 80"
  shows "screen_of (terminal_putentryat c color x y s)
    = screen_set (unat y) (unat x) (vga_entry c color) (screen_of s)"
  using assms
  by (simp add: screen_of_def terminal_putentryat_def screen_set_def unat_cell_index
      screen_lines_update)

lemma tab_stop:
  "unat (x :: u32) < 80 \<Longrightarrow> unat ((x + 4) AND NOT (4 - 1)) = (unat x div 4 + 1) * 4"
proof -
  assume "unat x < 80"
  then have "unat ((x + 4) AND NOT (4 - 1)) = (unat x + 4) div 4 * 4"
    using unat_and_not_mask [of "x + 4" 2] by (simp add: mask_eq_exp_minus_1 unat_add_small)
  moreover have "(unat x + 4) div 4 = unat x div 4 + 1" by simp
  ultimately show ?thesis by metis
qed

lemma unat_inc: "unat (x :: u32) < 80 \<Longrightarrow> unat (x + 1) = unat x + 1"
  by (simp add: unat_add_small)

lemma screen_of_place:
  assumes "vga_ok s"
  shows "screen_of (terminal_place c s) = screen_place (terminal_color s) c (screen_of s)"
proof -
  let ?r = "terminal_row s" and ?k = "terminal_column s"
  have r: "unat ?r < 25" and k: "unat ?k < 80" using assms by (simp_all add: vga_ok_def)
  have r1: "unat (?r + 1) = unat ?r + 1" and k1: "unat (?k + 1) = unat ?k + 1"
    using r k by (simp_all add: unat_add_small)
  have tab: "unat ((?k + 4) AND NOT (4 - 1)) = (unat ?k div 4 + 1) * 4" using k by (rule tab_stop)
  show ?thesis
  proof (cases "c = 10 \<or> c = 13 \<or> c = 9 \<or> c = 8")
    case False
    have "?k + 1 = 80 \<longleftrightarrow> \<not> unat ?k + 1 < 80" using k k1 by (auto simp: word_unat_eq_iff)
    then show ?thesis
      using False screen_of_putentryat [OF r k, of c "terminal_color s" s] r1 k1
      by (auto simp: terminal_place_def screen_place_def Let_def screen_of_def
          terminal_putentryat_def screen_set_def)
  next
    case True
    then consider "c = 10" | "c = 13" | "c = 9" | "c = 8" by blast
    then show ?thesis
    proof cases
      case 3
      then show ?thesis using tab r1
        by (simp add: terminal_place_def screen_place_def Let_def screen_of_def word_le_nat_alt del: word_not_simps)
    next
      case 4
      have "0 < ?k \<Longrightarrow> unat (?k - 1) = unat ?k - 1" "0 < ?r \<Longrightarrow> unat (?r - 1) = unat ?r - 1"
        by (simp_all add: unat_minus_1)
      moreover have "0 < ?k \<longleftrightarrow> 0 < unat ?k" "0 < ?r \<longleftrightarrow> 0 < unat ?r"
        by (simp_all add: word_less_nat_alt)
      ultimately show ?thesis using 4 r k
          screen_of_putentryat [of ?r "?k - 1" 32 "terminal_color s" "s\<lparr>terminal_column := ?k - 1\<rparr>"]
          screen_of_putentryat [of "?r - 1" 79 32 "terminal_color s"
            "s\<lparr>terminal_row := ?r - 1, terminal_column := 79\<rparr>"]
        by (simp add: terminal_place_def screen_place_def Let_def screen_of_def)
    qed (use r1 in \<open>simp_all add: terminal_place_def screen_place_def screen_of_def\<close>)
  qed
qed

definition cursor_writes :: "nat \<Rightarrow> (u16 \<times> u8) list" where
  "cursor_writes pos =
     [(0x3D4, 0x0F), (0x3D5, of_nat (pos mod 256)), (0x3D4, 0x0E), (0x3D5, of_nat (pos div 256))]"

lemma update_cursor_writes:
  assumes "unat (x :: u32) < 80" "unat (y :: u32) < 25"
  shows "update_cursor (sint x) (sint y) s
    = s\<lparr>dev_out := dev_out s @ cursor_writes (unat y * 80 + unat x)\<rparr>"
proof -
  let ?p = "unat y * 80 + unat x"
  have small: "?p < 65536" using assms by simp
  have "word_of_int (sint y * 80 + sint x) = (of_nat ?p :: u16)"
    using assms by (simp add: sint_small)
  then show ?thesis
    using u16_bytes [OF small] by (simp add: update_cursor_def Let_def outb_def cursor_writes_def
        del: of_nat_add of_nat_mult)
qed

lemma screen_place_bounds:
  "s_row sc < 25 \<Longrightarrow> s_col sc < 80 \<Longrightarrow>
     s_row (screen_place color c sc) \<le> 25 \<and> s_col (screen_place color c sc) < 80"
  by (auto simp: screen_place_def screen_set_def Let_def)

lemma screen_of_scroll_if_full:
  assumes "unat (terminal_row s) \<le> 25"
  shows "screen_of (terminal_scroll_if_full s) =
    (if s_row (screen_of s) < 25 then screen_of s
     else (screen_of s)\<lparr>s_lines := tl (s_lines (screen_of s))
       @ [replicate 80 (vga_entry 32 (terminal_color s))], s_row := 24\<rparr>)"
  by (simp add: terminal_scroll_if_full_def screen_of_def terminal_scroll_def screen_lines_scroll
      word_le_nat_alt)

lemma terminal_place_color [simp]: "terminal_color (terminal_place c s) = terminal_color s"
  by (simp add: terminal_place_def Let_def terminal_putentryat_def)

lemma terminal_place_machine [simp]:
  "dev_out (terminal_place c s) = dev_out s" "dev_in (terminal_place c s) = dev_in s"
  "dev_rd (terminal_place c s) = dev_rd s"
  by (simp_all add: terminal_place_def Let_def terminal_putentryat_def)

lemma terminal_scroll_if_full_simps [simp]:
  "terminal_color (terminal_scroll_if_full s) = terminal_color s"
  "dev_out (terminal_scroll_if_full s) = dev_out s" "dev_in (terminal_scroll_if_full s) = dev_in s"
  "dev_rd (terminal_scroll_if_full s) = dev_rd s"
  by (simp_all add: terminal_scroll_if_full_def terminal_scroll_def)

lemma terminal_place_offscreen:
  assumes "vga_ok s" "2000 \<le> i"
  shows "terminal_buffer (terminal_place c s) i = terminal_buffer s i"
proof -
  have cell: "unat (y * 80 + x :: u32) \<noteq> i" if "unat y < 25" "unat x < 80" for x y
    using that assms(2) by (simp add: unat_cell_index)
  have "0 < terminal_column s \<Longrightarrow> unat (terminal_column s - 1) < 80"
    "0 < terminal_row s \<Longrightarrow> unat (terminal_row s - 1) < 25"
    using assms(1) by (auto simp: vga_ok_def unat_minus_1)
  then show ?thesis
    using assms(1) cell [of "terminal_row s" "terminal_column s"]
      cell [of "terminal_row s" "terminal_column s - 1"] cell [of "terminal_row s - 1" 79]
    by (auto simp: terminal_place_def Let_def terminal_putentryat_def vga_ok_def)
qed

lemma terminal_putchar_effect:
  assumes "vga_ok s" "uart_live s"
  shows "\<exists>s'. terminal_putchar c s = Some s'
    \<and> screen_of s' = screen_put (terminal_color s) c (screen_of s)
    \<and> vga_ok s' \<and> uart_live s' \<and> terminal_color s' = terminal_color s
    \<and> dev_out s' = dev_out s @ (0x3F8, c) # cursor_writes (s_row (screen_of s') * 80 + s_col (screen_of s'))
    \<and> (\<forall>i\<ge>2000. terminal_buffer s' i = terminal_buffer s i)"
proof -
  obtain i where "dev_rd s 0x3FD \<le> i" "dev_in s 0x3FD i AND 0x20 \<noteq> 0"
    using assms(2) unfolding uart_live_def by blast
  then obtain k where k: "serial_wait_empty s = Some (s\<lparr>dev_rd := (dev_rd s)(0x3FD := k)\<rparr>)"
    using serial_wait_empty_returns by blast
  define s1 where "s1 = outb 0x3F8 c (s\<lparr>dev_rd := (dev_rd s)(0x3FD := k)\<rparr>)"
  define s2 where "s2 = terminal_place c s1"
  define s3 where "s3 = terminal_scroll_if_full s2"
  have s1: "vga_ok s1" "screen_of s1 = screen_of s" "terminal_color s1 = terminal_color s"
    "terminal_buffer s1 = terminal_buffer s"
    using assms(1) by (simp_all add: s1_def outb_def vga_ok_def screen_of_def)
  have sc2: "screen_of s2 = screen_place (terminal_color s) c (screen_of s)"
    using screen_of_place [OF s1(1)] s1 by (simp add: s2_def)
  have "s_row (screen_of s) < 25" "s_col (screen_of s) < 80"
    using assms(1) by (simp_all add: vga_ok_def screen_of_def)
  from screen_place_bounds [OF this] sc2
  have b2: "s_row (screen_of s2) \<le> 25" "s_col (screen_of s2) < 80" by auto
  then have row2: "unat (terminal_row s2) \<le> 25" by (simp add: screen_of_def)
  have col: "terminal_color s2 = terminal_color s" by (simp add: s2_def s1)
  have sc3: "screen_of s3 = screen_put (terminal_color s) c (screen_of s)"
    using screen_of_scroll_if_full [OF row2] by (simp add: s3_def sc2 screen_put_def Let_def col)
  moreover have "s_row (screen_of s3) < 25" "s_col (screen_of s3) < 80"
    using screen_of_scroll_if_full [OF row2] b2 by (simp_all add: s3_def)
  then have ok3: "unat (terminal_row s3) < 25" "unat (terminal_column s3) < 80"
    by (simp_all add: screen_of_def)
  have put: "terminal_putchar c s
      = Some (s3\<lparr>dev_out := dev_out s3 @ cursor_writes (unat (terminal_row s3) * 80 + unat (terminal_column s3))\<rparr>)"
    using update_cursor_writes [OF ok3(2,1), of s3]
    by (simp add: terminal_putchar_def k Let_def s3_def s2_def s1_def)
  have off: "terminal_buffer s3 i = terminal_buffer s i" if "2000 \<le> i" for i
    using terminal_place_offscreen [OF s1(1) that, of c] that s1(4)
    by (simp add: s3_def s2_def terminal_scroll_if_full_def terminal_scroll_def
        scroll_rows_eq clear_last_line_eq)
  have "dev_out s3 = dev_out s @ [(0x3F8, c)]" "dev_in s3 = dev_in s"
    by (simp_all add: s3_def s2_def s1_def outb_def)
  then show ?thesis
    using put ok3 off assms(2) sc3 col
    by (simp add: vga_ok_def uart_live_def screen_of_def s3_def)
qed

lemma terminal_initialize_screen:
  "screen_of (terminal_initialize s)
     = \<lparr>s_lines = replicate 25 (replicate 80 (vga_entry 32 (vga_entry_color VGA_COLOR_LIGHT_CYAN VGA_COLOR_BLACK))),
        s_row = 0, s_col = 0\<rparr>"
proof -
  have "screen_lines (\<lambda>j. if j < 25 * 80 then v else b j) = replicate 25 (replicate 80 v)" for v b
    by (rule nth_equalityI; simp) (rule nth_equalityI; simp add: nth_screen_lines)
  then show ?thesis
    by (simp add: terminal_initialize_def terminal_clear_def clear_all_eq [of _ 25, simplified]
        screen_of_def update_cursor_def outb_def Let_def)
qed

lemma terminal_initialize_ok: "vga_ok (terminal_initialize s)"
  by (simp add: vga_ok_def terminal_initialize_def terminal_clear_def update_cursor_def outb_def Let_def)

interpretation console: byte_sink terminal_putchar com1_sent "\<lambda>s. vga_ok s \<and> uart_live s"
proof
  fix s s' :: "'a vga_scheme" and c
  assume s: "vga_ok s \<and> uart_live s"
  note eff = terminal_putchar_effect [of s c] s
  show "terminal_putchar c s \<noteq> None" using eff by auto
  assume "terminal_putchar c s = Some s'"
  with eff show "vga_ok s' \<and> uart_live s'" "com1_sent s' = com1_sent s @ [c]"
    by (auto simp: com1_sent_def cursor_writes_def)
qed

lemma terminal_write_put_all: "terminal_write cs s = put_all terminal_putchar cs s"
  by (induction cs arbitrary: s) (auto intro: bind_option_cong)

lemma terminal_write_screen:
  "vga_ok s \<Longrightarrow> uart_live s \<Longrightarrow> terminal_write cs s = Some s' \<Longrightarrow>
     screen_of s' = fold (screen_put (terminal_color s)) cs (screen_of s)
     \<and> (\<forall>i\<ge>2000. terminal_buffer s' i = terminal_buffer s i)"
proof (induction cs arbitrary: s)
  case Nil
  then show ?case by simp
next
  case (Cons c cs)
  obtain s1 where s1: "terminal_putchar c s = Some s1" "vga_ok s1" "uart_live s1"
    "screen_of s1 = screen_put (terminal_color s) c (screen_of s)"
    "terminal_color s1 = terminal_color s" "\<forall>i\<ge>2000. terminal_buffer s1 i = terminal_buffer s i"
    using terminal_putchar_effect [OF Cons.prems(1,2), of c] by blast
  with Cons.prems(3) have "terminal_write cs s1 = Some s'" by simp
  from Cons.IH [OF s1(2,3) this] show ?case by (simp add: s1)
qed

section \<open>Properties\<close>

text \<open>A console just initialised, whose UART is always ready to transmit.\<close>

definition ready_console :: vga where
  "ready_console = terminal_initialize
     \<lparr>dev_in = (\<lambda>_ _. 0x20), dev_rd = (\<lambda>_. 0), dev_out = [], terminal_row = 7,
      terminal_column = 3, terminal_color = 0, terminal_buffer = (\<lambda>_. 0)\<rparr>"

lemma ready_console: "vga_ok ready_console" "uart_live ready_console"
  by (simp add: ready_console_def terminal_initialize_ok)
    (auto simp: ready_console_def uart_live_def terminal_initialize_def terminal_clear_def
      update_cursor_def outb_def Let_def)

text \<open>
  C6: \<open>terminal_putchar\<close> implements the abstract 25 by 80 screen: with the cursor on the
  screen and a UART that keeps becoming ready it returns, the screen it leaves is that of the
  specification (line feed, carriage return, tab, backspace, wrap at the right margin,
  scrolling at the bottom), the cursor is again on the screen, and the CRT controller is sent
  the new cursor position.
\<close>

theorem terminal_putchar_refines:
  assumes "vga_ok s" "uart_live s"
  shows "\<exists>s'. terminal_putchar c s = Some s'
    \<and> screen_of s' = screen_put (terminal_color s) c (screen_of s) \<and> vga_ok s'
    \<and> dev_out s' = dev_out s @ (0x3F8, c) # cursor_writes (s_row (screen_of s') * 80 + s_col (screen_of s'))"
  using terminal_putchar_effect [OF assms, of c] by blast

theorem terminal_putchar_refines_witness:
  "\<exists>s'. terminal_putchar 10 ready_console = Some s'
    \<and> screen_of s' = screen_put (terminal_color ready_console) 10 (screen_of ready_console) \<and> vga_ok s'
    \<and> dev_out s' = dev_out ready_console
        @ (0x3F8, 10) # cursor_writes (s_row (screen_of s') * 80 + s_col (screen_of s'))"
  by (rule terminal_putchar_refines) (rule ready_console)+

text \<open>
  Writing any string to the console returns, mirrors exactly its bytes to COM1 in order,
  leaves the screen obtained by printing the bytes one by one, and never touches memory
  beyond the 2000 cells of the screen.
\<close>

theorem terminal_write_correct:
  assumes "vga_ok s" "uart_live s"
  shows "\<exists>s'. terminal_write cs s = Some s' \<and> com1_sent s' = com1_sent s @ cs
    \<and> screen_of s' = fold (screen_put (terminal_color s)) cs (screen_of s)
    \<and> (\<forall>i. 2000 \<le> i \<longrightarrow> terminal_buffer s' i = terminal_buffer s i)"
  using console.put_all_sends [of s cs] terminal_write_screen [of s cs] assms
  by (auto simp: terminal_write_put_all)

theorem terminal_write_correct_witness:
  "\<exists>s'. terminal_write [72, 105, 10] ready_console = Some s'
    \<and> com1_sent s' = com1_sent ready_console @ [72, 105, 10]
    \<and> screen_of s' = fold (screen_put (terminal_color ready_console)) [72, 105, 10] (screen_of ready_console)
    \<and> (\<forall>i. 2000 \<le> i \<longrightarrow> terminal_buffer s' i = terminal_buffer ready_console i)"
  by (rule terminal_write_correct) (rule ready_console)+

end
