(* ===== verification/Gdt.thy ===== *)
theory Gdt
  imports Vga
begin

text \<open>
  The segment descriptors of \<open>kernel/drivers/gdt.c\<close> and \<open>gdt.h\<close>.  The packed struct is a
  record of its fields; \<open>gdt[num]\<close> outside the three entries is undefined behaviour in C and
  \<open>None\<close> here.  The address of the table is the linker's choice, a parameter; \<open>gdt_flush\<close>
  is the assembly routine of \<open>boot.s\<close> that loads the table register and the segment selectors.
\<close>

record gdt_entry =
  limit_low :: u16
  base_low :: u16
  base_middle :: u8
  access :: u8
  granularity :: u8
  base_high :: u8

record gdt_ptr =
  gp_limit :: u16
  gp_base :: u32

record segments = vga +
  gdt :: "gdt_entry list"
  gp :: gdt_ptr
  gdtr :: "gdt_ptr option"
  seg_code :: u16
  seg_data :: u16

definition gdt_set_gate ::
  "int \<Rightarrow> u32 \<Rightarrow> u32 \<Rightarrow> u8 \<Rightarrow> u8 \<Rightarrow> 'a segments_scheme \<Rightarrow> 'a segments_scheme option" where
  "gdt_set_gate num base limit acc gran s =
     (if 0 \<le> num \<and> nat num < length (gdt s) then
        Some (s\<lparr>gdt := (gdt s)[nat num := (gdt s ! nat num)\<lparr>
          base_low := ucast (base AND 0xFFFF),
          base_middle := ucast (drop_bit 16 base AND 0xFF),
          base_high := ucast (drop_bit 24 base AND 0xFF),
          limit_low := ucast (limit AND 0xFFFF),
          granularity := ucast (drop_bit 16 limit AND 0x0F) OR (gran AND 0xF0),
          access := acc\<rparr>]\<rparr>)
      else None)"

definition gdt_flush :: "'a segments_scheme \<Rightarrow> 'a segments_scheme" where
  "gdt_flush s = s\<lparr>gdtr := Some (gp s), seg_data := 0x10, seg_code := 0x08\<rparr>"

definition gdt_install :: "u32 \<Rightarrow> 'a segments_scheme \<Rightarrow> 'a segments_scheme option" where
  "gdt_install gdt_addr s =
     (let s = s\<lparr>gp := \<lparr>gp_limit = 8 * 3 - 1, gp_base = gdt_addr\<rparr>\<rparr> in
      map_option gdt_flush
        (Option.bind (gdt_set_gate 0 0 0 0 0 s) (\<lambda>s.
         Option.bind (gdt_set_gate 1 0 0xFFFFFFFF 0x9A 0xCF s)
           (gdt_set_gate 2 0 0xFFFFFFFF 0x92 0xCF))))"

section \<open>What the processor reads back\<close>

text \<open>The linear base and the 20-bit limit a descriptor stands for, and its flag nibble.\<close>

definition gate_base :: "gdt_entry \<Rightarrow> u32" where
  "gate_base e = ucast (base_low e) OR push_bit 16 (ucast (base_middle e))
     OR push_bit 24 (ucast (base_high e))"

definition gate_limit :: "gdt_entry \<Rightarrow> u32" where
  "gate_limit e = ucast (limit_low e) OR push_bit 16 (ucast (granularity e AND 0x0F))"

definition gate_flags :: "gdt_entry \<Rightarrow> u8" where
  "gate_flags e = granularity e AND 0xF0"

lemma mask_numerals:
  "(0xFFFF :: 'a::len word) = mask 16" "(0xFF :: 'a word) = mask 8" "(0x0F :: 'a word) = mask 4"
  "(0xF0 :: 'a word) = push_bit 4 (mask 4)" "(0xFFFFF :: 'a word) = mask 20"
  by (simp_all add: mask_eq_exp_minus_1 push_bit_eq_mult)

lemma gate_decode:
  assumes "gdt_set_gate num base limit acc gran s = Some s'"
  shows "gate_base (gdt s' ! nat num) = base"
    and "gate_limit (gdt s' ! nat num) = limit AND 0xFFFFF"
    and "access (gdt s' ! nat num) = acc"
    and "gate_flags (gdt s' ! nat num) = gran AND 0xF0"
proof -
  have n: "0 \<le> num" "nat num < length (gdt s)"
    using assms by (auto simp: gdt_set_gate_def split: if_splits)
  then have e: "base_low (gdt s' ! nat num) = ucast (base AND 0xFFFF)"
    "base_middle (gdt s' ! nat num) = ucast (drop_bit 16 base AND 0xFF)"
    "base_high (gdt s' ! nat num) = ucast (drop_bit 24 base AND 0xFF)"
    "limit_low (gdt s' ! nat num) = ucast (limit AND 0xFFFF)"
    "granularity (gdt s' ! nat num) = ucast (drop_bit 16 limit AND 0x0F) OR (gran AND 0xF0)"
    "access (gdt s' ! nat num) = acc"
    using assms by (auto simp: gdt_set_gate_def)
  show "gate_base (gdt s' ! nat num) = base"
    unfolding gate_base_def e mask_numerals
  proof (rule bit_word_eqI)
    fix n
    show "bit (ucast (ucast (base AND mask 16) :: u16) OR
        push_bit 16 (ucast (ucast (drop_bit 16 base AND mask 8) :: u8)) OR
        push_bit 24 (ucast (ucast (drop_bit 24 base AND mask 8) :: u8)) :: u32) n = bit base n"
      if "n < LENGTH(32)"
      using that by (cases "n < 16"; cases "n < 24") (auto simp: bit_simps)
  qed
  show "gate_limit (gdt s' ! nat num) = limit AND 0xFFFFF"
    unfolding gate_limit_def e mask_numerals
    by (rule bit_word_eqI) (auto simp: bit_simps)
  show "gate_flags (gdt s' ! nat num) = gran AND 0xF0"
    unfolding gate_flags_def e mask_numerals
    by (rule bit_word_eqI) (auto simp: bit_simps)
  show "access (gdt s' ! nat num) = acc" by (rule e)
qed

lemma gdt_install_result:
  assumes "length (gdt s) = 3"
  shows "gdt_install addr s = Some (s\<lparr>
      gdt := [\<lparr>limit_low = 0, base_low = 0, base_middle = 0, access = 0, granularity = 0, base_high = 0\<rparr>,
        \<lparr>limit_low = 0xFFFF, base_low = 0, base_middle = 0, access = 0x9A, granularity = 0xCF, base_high = 0\<rparr>,
        \<lparr>limit_low = 0xFFFF, base_low = 0, base_middle = 0, access = 0x92, granularity = 0xCF, base_high = 0\<rparr>],
      gp := \<lparr>gp_limit = 23, gp_base = addr\<rparr>, gdtr := Some \<lparr>gp_limit = 23, gp_base = addr\<rparr>,
      seg_code := 0x08, seg_data := 0x10\<rparr>)"
  using assms
  by (auto simp: gdt_install_def gdt_set_gate_def gdt_flush_def numeral_3_eq_3 length_Suc_conv)

text \<open>
  After \<open>gdt_install\<close> the three descriptors decode to the flat model: the null
  descriptor, a ring-0 code segment and a ring-0 data segment, both with base 0, limit
  0xFFFFF in 4 KiB units (4 GiB) and 32-bit operand size; the table register covers exactly
  the three entries, and the selectors loaded name the code and the data descriptor.
\<close>

theorem gdt_install_flat:
  assumes "length (gdt s) = 3"
  shows "\<exists>s'. gdt_install addr s = Some s' \<and> length (gdt s') = 3
    \<and> gate_base (gdt s' ! 0) = 0 \<and> gate_limit (gdt s' ! 0) = 0 \<and> access (gdt s' ! 0) = 0
    \<and> (\<forall>i \<in> {1, 2}. gate_base (gdt s' ! i) = 0 \<and> gate_limit (gdt s' ! i) = 0xFFFFF
         \<and> gate_flags (gdt s' ! i) = 0xC0)
    \<and> access (gdt s' ! 1) = 0x9A \<and> access (gdt s' ! 2) = 0x92
    \<and> gdtr s' = Some \<lparr>gp_limit = of_nat (8 * length (gdt s')) - 1, gp_base = addr\<rparr>
    \<and> seg_code s' = of_nat (8 * 1) \<and> seg_data s' = of_nat (8 * 2)"
  by (simp add: gdt_install_result [OF assms] gate_base_def gate_limit_def gate_flags_def)

theorem gdt_install_flat_witness:
  "\<exists>s s' :: segments. length (gdt s) = 3 \<and> gdt_install 0x104000 s = Some s'
     \<and> gate_limit (gdt s' ! 1) = 0xFFFFF \<and> gdtr s' = Some \<lparr>gp_limit = 23, gp_base = 0x104000\<rparr>"
proof -
  define s :: segments where "s = \<lparr>dev_in = (\<lambda>_ _. 0), dev_rd = (\<lambda>_. 0), dev_out = [],
    terminal_row = 0, terminal_column = 0, terminal_color = 0, terminal_buffer = (\<lambda>_. 0),
    gdt = replicate 3 \<lparr>limit_low = 0, base_low = 0, base_middle = 0, access = 0, granularity = 0,
      base_high = 0\<rparr>, gp = \<lparr>gp_limit = 0, gp_base = 0\<rparr>, gdtr = None, seg_code = 0, seg_data = 0\<rparr>"
  have "length (gdt s) = 3" by (simp add: s_def)
  from gdt_install_flat [OF this, of "0x104000"] this show ?thesis by auto
qed

end
