(* ===== verification/Idt.thy ===== *)
theory Idt
  imports Gdt
begin

text \<open>
  Interrupts: \<open>kernel/drivers/idt.c\<close> and \<open>idt.h\<close>.  The interrupt descriptor table, the
  programming of the two interrupt controllers, the table of IRQ handlers and its dispatcher,
  and the timer.  The addresses of the assembly stubs \<open>isr0 .. isr19\<close>, \<open>irq0 .. irq15\<close>
  and of the table are the linker's choice, parameters.  A C function pointer stored in
  \<open>irq_handlers\<close> is one of the handlers the kernel installs; what calling it does is the
  parameter \<open>call\<close> of the dispatcher, which \<open>Keyboard\<close> supplies.
\<close>

record idt_entry =
  base_lo :: u16
  i_sel :: u16
  always0 :: u8
  i_flags :: u8
  base_hi :: u16

record idt_ptr =
  ip_limit :: u16
  ip_base :: u32

text \<open>The stack frame \<open>struct regs\<close> the common stubs pass on.\<close>

record regs =
  r_ds :: u32
  r_edi :: u32
  r_esi :: u32
  r_ebp :: u32
  r_esp :: u32
  r_ebx :: u32
  r_edx :: u32
  r_ecx :: u32
  r_eax :: u32
  int_no :: u32
  err_code :: u32
  r_eip :: u32
  r_cs :: u32
  r_eflags :: u32
  r_useresp :: u32
  r_ss :: u32

datatype handler = Timer_handler | Keyboard_handler

record intr = segments +
  idt :: "idt_entry list"
  idtp :: idt_ptr
  idtr :: "idt_ptr option"
  irq_handlers :: "handler option list"
  timer_ticks :: u32

definition idt_set_gate ::
  "u8 \<Rightarrow> u32 \<Rightarrow> u16 \<Rightarrow> u8 \<Rightarrow> 'a intr_scheme \<Rightarrow> 'a intr_scheme" where
  "idt_set_gate num base sel flg s =
     s\<lparr>idt := (idt s)[unat num := \<lparr>base_lo = ucast (base AND 0xFFFF), i_sel = sel, always0 = 0,
        i_flags = flg, base_hi = ucast (drop_bit 16 base AND 0xFFFF)\<rparr>]\<rparr>"

definition pic_remap :: "'a machine_scheme \<Rightarrow> 'a machine_scheme" where
  "pic_remap s =
     fold (\<lambda>(port, val). outb port val)
       [(0x20, 0x11), (0xA0, 0x11), (0x21, 0x20), (0xA1, 0x28), (0x21, 0x04), (0xA1, 0x02),
        (0x21, 0x01), (0xA1, 0x01), (0x21, 0xFC), (0xA1, 0xFF)] s"

definition idt_load :: "'a intr_scheme \<Rightarrow> 'a intr_scheme" where
  "idt_load s = s\<lparr>idtr := Some (idtp s)\<rparr>"

definition idt_install ::
  "u32 \<Rightarrow> (nat \<Rightarrow> u32) \<Rightarrow> (nat \<Rightarrow> u32) \<Rightarrow> 'a intr_scheme \<Rightarrow> 'a intr_scheme" where
  "idt_install idt_addr isr irq s =
     (let s = s\<lparr>idtp := \<lparr>ip_limit = 8 * 256 - 1, ip_base = idt_addr\<rparr>\<rparr>;
          s = fold (\<lambda>i. idt_set_gate (of_nat i) 0 0x08 0x8E) [0..<256] s;
          s = pic_remap s;
          s = fold (\<lambda>i. idt_set_gate (of_nat i) (isr i) 0x08 0x8E) [0..<20] s;
          s = fold (\<lambda>i. idt_set_gate (of_nat (32 + i)) (irq i) 0x08 0x8E) [0..<16] s
      in idt_load s)"

section \<open>IRQ dispatch and the timer\<close>

definition irq_install_handler :: "int \<Rightarrow> handler \<Rightarrow> 'a intr_scheme \<Rightarrow> 'a intr_scheme" where
  "irq_install_handler irq h s =
     (if 0 \<le> irq \<and> irq < 16 then s\<lparr>irq_handlers := (irq_handlers s)[nat irq := Some h]\<rparr> else s)"

definition irq_uninstall_handler :: "int \<Rightarrow> 'a intr_scheme \<Rightarrow> 'a intr_scheme" where
  "irq_uninstall_handler irq s =
     (if 0 \<le> irq \<and> irq < 16 then s\<lparr>irq_handlers := (irq_handlers s)[nat irq := None]\<rparr> else s)"

definition timer_handler :: "regs \<Rightarrow> 'a intr_scheme \<Rightarrow> 'a intr_scheme" where
  "timer_handler r s = s\<lparr>timer_ticks := timer_ticks s + 1\<rparr>"

definition timer_install :: "'a intr_scheme \<Rightarrow> 'a intr_scheme" where
  "timer_install s =
     (let divisor = (1193 :: u16);
          s = outb 0x43 0x36 s;
          s = outb 0x40 (ucast (divisor AND 0xFF)) s;
          s = outb 0x40 (ucast (drop_bit 8 divisor AND 0xFF)) s
      in irq_install_handler 0 Timer_handler s)"

definition timer_get_ticks :: "'a intr_scheme \<Rightarrow> u32" where
  "timer_get_ticks s = timer_ticks s"

text \<open>The exception handler prints a message and returns.\<close>

definition isr_handler :: "regs \<Rightarrow> 'a intr_scheme \<Rightarrow> 'a intr_scheme option" where
  "isr_handler r s = terminal_writestring (map of_char ''Received Exception: '') s"

definition irq_handler ::
  "(handler \<Rightarrow> regs \<Rightarrow> 'a intr_scheme \<Rightarrow> 'a intr_scheme) \<Rightarrow> regs option \<Rightarrow> 'a intr_scheme
    \<Rightarrow> 'a intr_scheme" where
  "irq_handler call rp s =
     (case rp of None \<Rightarrow> s
      | Some r \<Rightarrow>
          let s = (if 32 \<le> int_no r \<and> int_no r < 48 then
                     (case irq_handlers s ! unat (int_no r - 32) of
                        None \<Rightarrow> s | Some h \<Rightarrow> call h r s)
                   else s);
              s = (if 40 \<le> int_no r then outb 0xA0 0x20 s else s)
          in outb 0x20 0x20 s)"

section \<open>The table the processor sees\<close>

definition gate_offset :: "idt_entry \<Rightarrow> u32" where
  "gate_offset e = ucast (base_lo e) OR push_bit 16 (ucast (base_hi e))"

text \<open>
  A vector is handled when its gate is present (bit 7 of the flags) and its target is one of
  the stubs; the gates \<open>idt_install\<close> leaves alone are present with target 0.
\<close>

definition gate_is :: "idt_entry \<Rightarrow> u32 \<Rightarrow> bool" where
  "gate_is e a \<longleftrightarrow> gate_offset e = a \<and> i_sel e = 0x08 \<and> always0 e = 0 \<and> i_flags e = 0x8E"

lemma gate_offset_set:
  "gate_offset \<lparr>base_lo = ucast (base AND 0xFFFF), i_sel = sel, always0 = z, i_flags = f,
     base_hi = ucast (drop_bit 16 base AND 0xFFFF)\<rparr> = base"
  unfolding gate_offset_def mask_numerals by (rule bit_word_eqI) (auto simp: bit_simps)

lemma idt_set_gate_is:
  "unat num < length (idt s) \<Longrightarrow> gate_is (idt (idt_set_gate num base 0x08 0x8E s) ! unat num) base"
  by (simp add: idt_set_gate_def gate_is_def gate_offset_set)

lemma idt_set_gates:
  assumes "k + n \<le> 256" "length (idt s) = 256"
  shows "length (idt (fold (\<lambda>i. idt_set_gate (of_nat (k + i)) (f i) 0x08 0x8E) [0..<n] s)) = 256
    \<and> (\<forall>j<256. if k \<le> j \<and> j < k + n
        then gate_is (idt (fold (\<lambda>i. idt_set_gate (of_nat (k + i)) (f i) 0x08 0x8E) [0..<n] s) ! j) (f (j - k))
        else idt (fold (\<lambda>i. idt_set_gate (of_nat (k + i)) (f i) 0x08 0x8E) [0..<n] s) ! j = idt s ! j)"
  using assms(1)
proof (induction n)
  case 0
  then show ?case using assms(2) by auto
next
  case (Suc n)
  let ?t = "fold (\<lambda>i. idt_set_gate (of_nat (k + i)) (f i) 0x08 0x8E) [0..<n] s"
  have len: "length (idt ?t) = 256" using Suc by simp
  have num: "unat (of_nat (k + n) :: u8) = k + n"
    using Suc.prems by (simp only: unat_of_nat) (simp add: take_bit_nat_eq_self)
  have new: "gate_is (idt (idt_set_gate (of_nat (k + n)) (f n) 0x08 0x8E ?t) ! (k + n)) (f n)"
    using idt_set_gate_is [of "of_nat (k + n)" ?t "f n"] num len Suc.prems by simp
  have old: "idt (idt_set_gate (of_nat (k + n)) (f n) 0x08 0x8E ?t) ! j = idt ?t ! j" if "j \<noteq> k + n" for j
    using that num by (simp add: idt_set_gate_def)
  have "length (idt (idt_set_gate (of_nat (k + n)) (f n) 0x08 0x8E ?t)) = 256"
    using len by (simp add: idt_set_gate_def)
  moreover have "if k \<le> j \<and> j < k + Suc n
      then gate_is (idt (idt_set_gate (of_nat (k + n)) (f n) 0x08 0x8E ?t) ! j) (f (j - k))
      else idt (idt_set_gate (of_nat (k + n)) (f n) 0x08 0x8E ?t) ! j = idt s ! j" if "j < 256" for j
    using Suc that new old [of j] by (cases "j = k + n") (auto split: if_splits)
  ultimately show ?case by (simp del: of_nat_add)
qed

lemma pic_remap_out:
  "pic_remap s = s\<lparr>dev_out := dev_out s @ [(0x20, 0x11), (0xA0, 0x11), (0x21, 0x20), (0xA1, 0x28),
     (0x21, 0x04), (0xA1, 0x02), (0x21, 0x01), (0xA1, 0x01), (0x21, 0xFC), (0xA1, 0xFF)]\<rparr>"
  by (simp add: pic_remap_def outb_def)

lemma idt_set_gates_frame:
  "fold (\<lambda>i. idt_set_gate (v i) (f i) sel flg) is s
     = s\<lparr>idt := idt (fold (\<lambda>i. idt_set_gate (v i) (f i) sel flg) is s)\<rparr>"
proof (induction "is" arbitrary: s)
  case Nil
  then show ?case by simp
next
  case (Cons i "is")
  from Cons [of "idt_set_gate (v i) (f i) sel flg s"] show ?case
    by (simp add: idt_set_gate_def)
qed

lemma idt_install_result:
  assumes "length (idt s) = 256"
  shows "\<exists>X. idt_install addr isr irq s = s\<lparr>dev_out := dev_out (pic_remap s), idt := X,
        idtp := \<lparr>ip_limit = 2047, ip_base = addr\<rparr>, idtr := Some \<lparr>ip_limit = 2047, ip_base = addr\<rparr>\<rparr>
    \<and> (\<forall>v<256. gate_is (X ! v) (if v < 20 then isr v else if 32 \<le> v \<and> v < 48 then irq (v - 32) else 0))"
proof -
  let ?g = "\<lambda>k f n s. fold (\<lambda>i. idt_set_gate (of_nat (k + i)) (f i) 0x08 0x8E) [0..<n] s"
  define s0 where "s0 = s\<lparr>idtp := \<lparr>ip_limit = 8 * 256 - 1, ip_base = addr\<rparr>\<rparr>"
  define s1 where "s1 = ?g 0 (\<lambda>i. 0) 256 s0"
  define s2 where "s2 = ?g 0 isr 20 (pic_remap s1)"
  define s3 where "s3 = ?g 32 irq 16 s2"
  have res: "idt_install addr isr irq s = idt_load s3"
    by (simp add: idt_install_def Let_def s0_def s1_def s2_def s3_def del: upt_rec_numeral of_nat_add)
  have l0: "length (idt s0) = 256" using assms by (simp add: s0_def)
  note g1 = idt_set_gates [of 0 256 s0 "\<lambda>i. 0", folded s1_def, OF _ l0]
  then have l1: "length (idt (pic_remap s1)) = 256" by (simp add: pic_remap_out del: upt_rec_numeral)
  note g2 = idt_set_gates [of 0 20 "pic_remap s1" isr, folded s2_def, OF _ l1]
  then have l2: "length (idt s2) = 256" by (simp del: upt_rec_numeral)
  note g3 = idt_set_gates [of 32 16 s2 irq, folded s3_def, OF _ l2]
  have gates: "gate_is (idt s3 ! v) (if v < 20 then isr v else if 32 \<le> v \<and> v < 48 then irq (v - 32) else 0)"
    if "v < 256" for v
    using g1 g2 g3 that by (auto simp: pic_remap_out split: if_splits)
  have f3: "s3 = s2\<lparr>idt := idt s3\<rparr>" and f2: "s2 = (pic_remap s1)\<lparr>idt := idt s2\<rparr>"
    and f1: "s1 = s0\<lparr>idt := idt s1\<rparr>"
    unfolding s3_def s2_def s1_def by (rule idt_set_gates_frame)+
  have "s3 = (pic_remap s1)\<lparr>idt := idt s3\<rparr>" by (subst f3, subst f2) simp
  moreover have "pic_remap s1 = s0\<lparr>dev_out := dev_out (pic_remap s), idt := idt s1\<rparr>"
    by (subst f1) (simp add: pic_remap_out s0_def)
  ultimately have "s3 = s0\<lparr>dev_out := dev_out (pic_remap s), idt := idt s3\<rparr>" by simp
  then obtain X where X: "s3 = s0\<lparr>dev_out := dev_out (pic_remap s), idt := X\<rparr>" by blast
  have "idt s3 = X" by (simp add: X)
  then show ?thesis
    using gates unfolding res by (intro exI [of _ X] conjI) (simp_all add: X idt_load_def s0_def)
qed

section \<open>Properties\<close>

text \<open>
  C30: after \<open>idt_install\<close> the processor finds, for every one of the 256 vectors, a ring-0
  32-bit interrupt gate in the kernel code segment: the exception stub for vectors 0 to 19,
  the IRQ stub for vectors 32 to 47 (where \<open>pic_remap\<close> has moved the IRQs), and target
  address 0 for all others, which are nevertheless marked present.  The table register covers
  the 256 entries and the controllers are programmed with offsets 32 and 40 and the masks
  that let only the timer and the keyboard through.
\<close>

theorem idt_install_gates:
  assumes "length (idt s) = 256"
  shows "(\<forall>v<256. gate_is (idt (idt_install addr isr irq s) ! v)
      (if v < 20 then isr v else if 32 \<le> v \<and> v < 48 then irq (v - 32) else 0))
    \<and> idtr (idt_install addr isr irq s) = Some \<lparr>ip_limit = 2047, ip_base = addr\<rparr>
    \<and> dev_out (idt_install addr isr irq s) = dev_out s @ [(0x20, 0x11), (0xA0, 0x11), (0x21, 32),
        (0xA1, 40), (0x21, 0x04), (0xA1, 0x02), (0x21, 0x01), (0xA1, 0x01), (0x21, 0xFC), (0xA1, 0xFF)]"
proof -
  from idt_install_result [OF assms, of addr isr irq] obtain X where
    X: "idt_install addr isr irq s = s\<lparr>dev_out := dev_out (pic_remap s), idt := X,
        idtp := \<lparr>ip_limit = 2047, ip_base = addr\<rparr>, idtr := Some \<lparr>ip_limit = 2047, ip_base = addr\<rparr>\<rparr>"
    and g: "\<forall>v<256. gate_is (X ! v) (if v < 20 then isr v else if 32 \<le> v \<and> v < 48 then irq (v - 32) else 0)"
    by blast
  show ?thesis unfolding X using g by (simp add: pic_remap_out)
qed

text \<open>The kernel's globals as the loader leaves them: all of \<open>.bss\<close> zero, devices answering 0x20.\<close>

definition bss_intr :: intr where
  "bss_intr = \<lparr>dev_in = (\<lambda>_ _. 0x20), dev_rd = (\<lambda>_. 0), dev_out = [],
     terminal_row = 0, terminal_column = 0, terminal_color = 0, terminal_buffer = (\<lambda>_. 0),
     gdt = replicate 3 \<lparr>limit_low = 0, base_low = 0, base_middle = 0, access = 0, granularity = 0,
       base_high = 0\<rparr>, gp = \<lparr>gp_limit = 0, gp_base = 0\<rparr>, gdtr = None, seg_code = 0, seg_data = 0,
     idt = replicate 256 \<lparr>base_lo = 0, i_sel = 0, always0 = 0, i_flags = 0, base_hi = 0\<rparr>,
     idtp = \<lparr>ip_limit = 0, ip_base = 0\<rparr>, idtr = None, irq_handlers = replicate 16 None,
     timer_ticks = 0\<rparr>"

theorem idt_install_gates_witness:
  "gate_is (idt (idt_install 0x105000 (\<lambda>i. 0x101000 + of_nat i) (\<lambda>i. 0x102000 + of_nat i) bss_intr) ! 33) 0x102001
   \<and> gate_is (idt (idt_install 0x105000 (\<lambda>i. 0x101000 + of_nat i) (\<lambda>i. 0x102000 + of_nat i) bss_intr) ! 128) 0"
proof -
  have "length (idt bss_intr) = 256" by (simp add: bss_intr_def)
  note g = idt_install_gates [OF this, of "0x105000" "\<lambda>i. 0x101000 + of_nat i" "\<lambda>i. 0x102000 + of_nat i",
      THEN conjunct1, rule_format]
  show ?thesis using g [of 33] g [of 128] by simp
qed

end
