(* ===== verification/Ring.thy ===== *)
theory Ring
  imports Prelude
begin

text \<open>
  Circular buffers: the queue stored in an array between a read index \<open>t\<close> and a write index
  \<open>h\<close>, one cell always left free so that \<open>t = h\<close> means empty.  Shared by the keyboard buffer
  and by MicroPython's \<open>ringbuf_t\<close>.
\<close>

definition ring_contents :: "'a list \<Rightarrow> nat \<Rightarrow> nat \<Rightarrow> 'a list" where
  "ring_contents buf t h =
     map (\<lambda>i. buf ! ((t + i) mod length buf)) [0..<(h + length buf - t) mod length buf]"

lemma length_ring_contents: "length (ring_contents buf t h) = (h + length buf - t) mod length buf"
  by (simp add: ring_contents_def)

lemma mod_below_twice: "x < 2 * n \<Longrightarrow> x mod n = (if x < n then x else x - n)" for x :: nat
  by (simp add: mod_if)

lemma ring_distance:
  "t < n \<Longrightarrow> h < n \<Longrightarrow> (h + n - t) mod n = (if t \<le> h then h - t else h + n - t)" for h :: nat
proof -
  assume "t < n" "h < n"
  moreover have "h + n - t = (h - t) + n" if "t \<le> h" using that by simp
  ultimately show ?thesis by (auto simp: mod_if)
qed

lemma ring_succ: "h < n \<Longrightarrow> (h + 1) mod n = (if h + 1 = n then 0 else h + 1)" for h :: nat
  by auto

lemma ring_full_iff:
  fixes t h n :: nat
  assumes "t < n" "h < n"
  shows "(h + 1) mod n = t \<longleftrightarrow> (h + n - t) mod n = n - 1"
  using assms unfolding ring_distance [OF assms] ring_succ [OF assms(2)] by auto

lemma ring_empty_iff: "t < length buf \<Longrightarrow> h < length buf \<Longrightarrow> ring_contents buf t h = [] \<longleftrightarrow> t = h"
  using ring_distance [of t "length buf" h] length_ring_contents [of buf t h]
  by (auto simp flip: length_0_conv split: if_splits)

lemma ring_last_index:
  fixes t h n :: nat
  assumes "t < n" "h < n"
  shows "(t + (h + n - t) mod n) mod n = h"
    and "i < (h + n - t) mod n \<Longrightarrow> (t + i) mod n \<noteq> h"
proof -
  show "(t + (h + n - t) mod n) mod n = h"
    unfolding ring_distance [OF assms] using assms by auto
  show "(t + i) mod n \<noteq> h" if "i < (h + n - t) mod n"
  proof -
    have i: "i < (if t \<le> h then h - t else h + n - t)" using that ring_distance [OF assms] by simp
    then have "t + i < 2 * n" using assms by (simp split: if_splits)
    then show ?thesis unfolding mod_below_twice [OF \<open>t + i < 2 * n\<close>] using i assms by (auto split: if_splits)
  qed
qed

lemma ring_put_distance:
  fixes t h n :: nat
  assumes "t < n" "h < n" "(h + 1) mod n \<noteq> t"
  shows "((h + 1) mod n + n - t) mod n = Suc ((h + n - t) mod n)"
proof -
  have "(h + 1) mod n < n" using assms(1) by (intro mod_less_divisor) simp
  from ring_distance [OF assms(1) this] show ?thesis
    unfolding ring_distance [OF assms(1,2)] using assms ring_succ [OF assms(2)]
    by (auto split: if_splits)
qed

lemma ring_put:
  assumes "t < length buf" "h < length buf" "(h + 1) mod length buf \<noteq> t"
  shows "ring_contents (buf[h := c]) t ((h + 1) mod length buf) = ring_contents buf t h @ [c]"
proof -
  let ?n = "length buf"
  let ?d = "(h + ?n - t) mod ?n"
  have last: "(t + ?d) mod ?n = h" by (rule ring_last_index(1) [OF assms(1,2)])
  have "buf[h := c] ! ((t + i) mod ?n) = buf ! ((t + i) mod ?n)" if "i < ?d" for i
    using ring_last_index(2) [OF assms(1,2) that] by simp
  then have "map (\<lambda>i. buf[h := c] ! ((t + i) mod ?n)) [0..<?d] = map (\<lambda>i. buf ! ((t + i) mod ?n)) [0..<?d]"
    by (intro map_cong) auto
  then show ?thesis
    using ring_put_distance [OF assms] last assms(2)
    by (simp only: ring_contents_def length_list_update upt_Suc_append zero_le) simp
qed

lemma ring_get:
  assumes "t < length buf" "h < length buf" "t \<noteq> h"
  shows "ring_contents buf t h = buf ! t # ring_contents buf ((t + 1) mod length buf) h"
proof -
  let ?n = "length buf"
  have t': "(t + 1) mod ?n < ?n" by (rule mod_less_divisor) (use assms in linarith)
  have len: "(h + ?n - t) mod ?n = Suc ((h + ?n - (t + 1) mod ?n) mod ?n)"
    using assms ring_distance [OF t' assms(2)] ring_distance [OF assms(1,2)] ring_succ [OF assms(1)]
    by (auto split: if_splits)
  have "((t + 1) mod ?n + i) mod ?n = (t + Suc i) mod ?n" for i
    by (simp add: mod_add_left_eq)
  then show ?thesis
    using assms(1) by (simp add: ring_contents_def len map_upt_Suc del: upt_Suc)
qed

end
