(* ===== verification/Keyboard.thy ===== *)
theory Keyboard
  imports Idt Ring
begin

text \<open>
  The keyboard driver \<open>kernel/drivers/keyboard.c\<close>: the scancode state machine run by IRQ 1,
  the 256-cell circular buffer it fills and the reader \<open>keyboard_getc\<close> that drains it.
  The theory shows the buffer is a bounded FIFO (interpretation \<open>kbd\<close>), that the handler
  implements a decoding of scancodes, how the modifiers depend on the scancodes received, and
  that no byte is lost, duplicated or reordered when interrupts hit the reader between any two
  of its accesses to the shared indices.
\<close>

section \<open>Layouts\<close>

definition kbd_us :: "u8 list" where
  "kbd_us =
     [0, 27, 49, 50, 51, 52, 53, 54, 55, 56, 57, 48, 45, 61, 8, 9,
      113, 119, 101, 114, 116, 121, 117, 105, 111, 112, 91, 93, 10, 0, 97, 115,
      100, 102, 103, 104, 106, 107, 108, 59, 39, 96, 0, 92, 122, 120, 99, 118,
      98, 110, 109, 44, 46, 47, 0, 42, 0, 32, 0, 0, 0, 0, 0, 0,
      0, 0, 0, 0, 0, 0, 0, 0, 0, 0, 45, 0, 0, 0, 43] @ replicate 49 0"

definition kbd_us_shift :: "u8 list" where
  "kbd_us_shift =
     [0, 27, 33, 64, 35, 36, 37, 94, 38, 42, 40, 41, 95, 43, 8, 9,
      81, 87, 69, 82, 84, 89, 85, 73, 79, 80, 123, 125, 10, 0, 65, 83,
      68, 70, 71, 72, 74, 75, 76, 58, 34, 126, 0, 124, 90, 88, 67, 86,
      66, 78, 77, 60, 62, 63, 0, 42, 0, 32, 0, 0, 0, 0, 0, 0,
      0, 0, 0, 0, 0, 0, 0, 0, 0, 0, 45, 0, 0, 0, 43] @ replicate 49 0"

section \<open>The circular buffer\<close>

abbreviation (input) KBD_BUFFER_SIZE :: nat where "KBD_BUFFER_SIZE \<equiv> 256"

text \<open>The two \<open>int\<close> indices never leave \<open>0 .. 255\<close> (\<open>kbd_ok\<close>), naturals here.\<close>

record kbd = intr +
  kbd_buffer :: "u8 list"
  kbd_buffer_head :: nat
  kbd_buffer_tail :: nat
  shift_pressed :: bool
  caps_lock :: bool
  ctrl_pressed :: bool
  ext_scancode :: bool

definition kbd_buffer_put :: "u8 \<Rightarrow> 'a kbd_scheme \<Rightarrow> 'a kbd_scheme" where
  "kbd_buffer_put c s =
     (let nxt = (kbd_buffer_head s + 1) mod KBD_BUFFER_SIZE
      in if nxt \<noteq> kbd_buffer_tail s
         then s\<lparr>kbd_buffer := (kbd_buffer s)[kbd_buffer_head s := c], kbd_buffer_head := nxt\<rparr>
         else s)"

text \<open>The argument of \<open>kbd_buffer_puts\<close> is a C string without its NUL.\<close>

fun kbd_buffer_puts :: "u8 list \<Rightarrow> 'a kbd_scheme \<Rightarrow> 'a kbd_scheme" where
  "kbd_buffer_puts [] s = s"
| "kbd_buffer_puts (c # cs) s = (if c = 0 then s else kbd_buffer_puts cs (kbd_buffer_put c s))"

definition keyboard_has_data :: "'a kbd_scheme \<Rightarrow> bool" where
  "keyboard_has_data s \<longleftrightarrow> kbd_buffer_head s \<noteq> kbd_buffer_tail s"

text \<open>
  \<open>hlt\<close> stops the processor until an interrupt has been served; the state it leaves is the
  parameter of the loop.  The two statements after the loop are \<open>keyboard_take\<close>.
\<close>

definition keyboard_take :: "'a kbd_scheme \<Rightarrow> u8 \<times> 'a kbd_scheme" where
  "keyboard_take s =
     (kbd_buffer s ! kbd_buffer_tail s,
      s\<lparr>kbd_buffer_tail := (kbd_buffer_tail s + 1) mod KBD_BUFFER_SIZE\<rparr>)"

partial_function (option) keyboard_getc ::
  "('a kbd_scheme \<Rightarrow> 'a kbd_scheme) \<Rightarrow> 'a kbd_scheme \<Rightarrow> (u8 \<times> 'a kbd_scheme) option" where
  "keyboard_getc hlt s =
     (if \<not> keyboard_has_data s then keyboard_getc hlt (hlt s) else Some (keyboard_take s))"

section \<open>The interrupt handler\<close>

definition ext_bytes :: "u8 \<Rightarrow> 'a kbd_scheme \<Rightarrow> 'a kbd_scheme" where
  "ext_bytes scancode s =
     (if scancode = 0x48 then kbd_buffer_puts [0x1B, 0x5B, 0x41] s
      else if scancode = 0x50 then kbd_buffer_puts [0x1B, 0x5B, 0x42] s
      else if scancode = 0x4D then kbd_buffer_puts [0x1B, 0x5B, 0x43] s
      else if scancode = 0x4B then kbd_buffer_puts [0x1B, 0x5B, 0x44] s
      else if scancode = 0x47 then kbd_buffer_puts [0x1B, 0x5B, 0x48] s
      else if scancode = 0x4F then kbd_buffer_puts [0x1B, 0x5B, 0x46] s
      else if scancode = 0x53 then kbd_buffer_put 127 s
      else s)"

definition plain_bytes :: "u8 \<Rightarrow> 'a kbd_scheme \<Rightarrow> 'a kbd_scheme" where
  "plain_bytes scancode s =
     (let base_c = kbd_us ! unat scancode
      in if base_c = 0 then s
         else if ctrl_pressed s \<and> 97 \<le> base_c \<and> base_c \<le> 122
         then kbd_buffer_put (base_c - 97 + 1) s
         else if ctrl_pressed s \<and> 65 \<le> base_c \<and> base_c \<le> 90
         then kbd_buffer_put (base_c - 65 + 1) s
         else let c = (if 97 \<le> base_c \<and> base_c \<le> 122
                       then (if shift_pressed s \<noteq> caps_lock s then base_c - 97 + 65 else base_c)
                       else (if shift_pressed s then kbd_us_shift ! unat scancode else base_c))
              in if c \<noteq> 0 then kbd_buffer_put c s else s)"

definition keyboard_event :: "u8 \<Rightarrow> 'a kbd_scheme \<Rightarrow> 'a kbd_scheme" where
  "keyboard_event scancode s =
     (if scancode = 0xE0 then s\<lparr>ext_scancode := True\<rparr>
      else if ext_scancode s then
        (let s = s\<lparr>ext_scancode := False\<rparr>
         in if scancode AND 0x80 = 0 then ext_bytes scancode s else s)
      else if scancode AND 0x80 \<noteq> 0 then
        (let released = scancode AND 0x7F
         in if released = 0x2A \<or> released = 0x36 then s\<lparr>shift_pressed := False\<rparr>
            else if released = 0x1D then s\<lparr>ctrl_pressed := False\<rparr>
            else s)
      else if scancode = 0x2A \<or> scancode = 0x36 then s\<lparr>shift_pressed := True\<rparr>
      else if scancode = 0x1D then s\<lparr>ctrl_pressed := True\<rparr>
      else if scancode = 0x3A then s\<lparr>caps_lock := \<not> caps_lock s\<rparr>
      else if scancode = 0x48 then kbd_buffer_puts [0x1B, 0x5B, 0x41] s
      else if scancode = 0x50 then kbd_buffer_puts [0x1B, 0x5B, 0x42] s
      else if scancode = 0x4D then kbd_buffer_puts [0x1B, 0x5B, 0x43] s
      else if scancode = 0x4B then kbd_buffer_puts [0x1B, 0x5B, 0x44] s
      else if scancode < 128 then plain_bytes scancode s
      else s)"

definition keyboard_handler :: "regs \<Rightarrow> 'a kbd_scheme \<Rightarrow> 'a kbd_scheme" where
  "keyboard_handler r s = (let (scancode, s) = inb 0x60 s in keyboard_event scancode s)"

definition keyboard_install :: "'a kbd_scheme \<Rightarrow> 'a kbd_scheme" where
  "keyboard_install s = irq_install_handler 1 Keyboard_handler s"

text \<open>What calling a stored handler does: the parameter of \<open>irq_handler\<close>.\<close>

definition kbd_call :: "handler \<Rightarrow> regs \<Rightarrow> 'a kbd_scheme \<Rightarrow> 'a kbd_scheme" where
  "kbd_call h r s = (case h of Timer_handler \<Rightarrow> timer_handler r s
                     | Keyboard_handler \<Rightarrow> keyboard_handler r s)"

section \<open>The buffer as a queue\<close>

definition kbd_ok :: "'a kbd_scheme \<Rightarrow> bool" where
  "kbd_ok s \<longleftrightarrow> length (kbd_buffer s) = 256 \<and> kbd_buffer_head s < 256 \<and> kbd_buffer_tail s < 256"

definition kbd_contents :: "'a kbd_scheme \<Rightarrow> u8 list" where
  "kbd_contents s = ring_contents (kbd_buffer s) (kbd_buffer_tail s) (kbd_buffer_head s)"

definition kbd_put :: "'a kbd_scheme \<Rightarrow> u8 \<Rightarrow> bool \<times> 'a kbd_scheme" where
  "kbd_put s c =
     ((kbd_buffer_head s + 1) mod KBD_BUFFER_SIZE \<noteq> kbd_buffer_tail s, kbd_buffer_put c s)"

definition kbd_get :: "'a kbd_scheme \<Rightarrow> u8 option \<times> 'a kbd_scheme" where
  "kbd_get s = (if keyboard_has_data s then let (c, s') = keyboard_take s in (Some c, s') else (None, s))"

lemma kbd_contents_bound: "kbd_ok s \<Longrightarrow> length (kbd_contents s) < 256"
  by (simp add: kbd_ok_def kbd_contents_def length_ring_contents)

lemma kbd_full_iff:
  "kbd_ok s \<Longrightarrow> (kbd_buffer_head s + 1) mod KBD_BUFFER_SIZE = kbd_buffer_tail s
     \<longleftrightarrow> length (kbd_contents s) = 255"
  using ring_full_iff [of "kbd_buffer_tail s" 256 "kbd_buffer_head s"]
  by (simp add: kbd_ok_def kbd_contents_def length_ring_contents)

lemma kbd_empty_iff: "kbd_ok s \<Longrightarrow> keyboard_has_data s \<longleftrightarrow> kbd_contents s \<noteq> []"
  by (auto simp: kbd_ok_def kbd_contents_def keyboard_has_data_def ring_empty_iff)

lemma kbd_buffer_put_ok: "kbd_ok s \<Longrightarrow> kbd_ok (kbd_buffer_put c s)"
  by (auto simp: kbd_ok_def kbd_buffer_put_def Let_def)

lemma kbd_buffer_put_contents:
  "kbd_ok s \<Longrightarrow> kbd_contents (kbd_buffer_put c s)
     = kbd_contents s @ (if length (kbd_contents s) < 255 then [c] else [])"
proof -
  assume ok: "kbd_ok s"
  show ?thesis
  proof (cases "(kbd_buffer_head s + 1) mod KBD_BUFFER_SIZE = kbd_buffer_tail s")
    case True
    then show ?thesis using kbd_full_iff [OF ok] by (simp add: kbd_buffer_put_def)
  next
    case False
    then have "length (kbd_contents s) < 255"
      using kbd_full_iff [OF ok] kbd_contents_bound [OF ok] by linarith
    then show ?thesis
      using ring_put [of "kbd_buffer_tail s" "kbd_buffer s" "kbd_buffer_head s" c] ok False
      by (simp add: kbd_ok_def kbd_contents_def kbd_buffer_put_def)
  qed
qed

lemma keyboard_take_contents:
  assumes "kbd_ok s" "keyboard_has_data s"
  shows "kbd_contents s = fst (keyboard_take s) # kbd_contents (snd (keyboard_take s))"
    and "kbd_ok (snd (keyboard_take s))"
  using assms ring_get [of "kbd_buffer_tail s" "kbd_buffer s" "kbd_buffer_head s"]
  by (auto simp: kbd_ok_def kbd_contents_def keyboard_take_def keyboard_has_data_def)

interpretation kbd: bounded_queue kbd_put kbd_get kbd_contents "\<lambda>s. 255" kbd_ok
proof
  fix s :: "'a kbd_scheme" and c
  assume ok: "kbd_ok s"
  show "kbd_ok (snd (kbd_put s c))" using ok by (simp add: kbd_put_def kbd_buffer_put_ok)
  show "fst (kbd_put s c) \<longleftrightarrow> length (kbd_contents s) < 255"
    using kbd_full_iff [OF ok] kbd_contents_bound [OF ok] by (auto simp: kbd_put_def)
  show "kbd_contents (snd (kbd_put s c))
      = kbd_contents s @ (if length (kbd_contents s) < 255 then [c] else [])"
    using ok by (simp add: kbd_put_def kbd_buffer_put_contents)
  show "kbd_ok (snd (kbd_get s))"
    using ok by (simp add: kbd_get_def case_prod_beta Let_def keyboard_take_contents)
  show "fst (kbd_get s) = (case kbd_contents s of [] \<Rightarrow> None | c # _ \<Rightarrow> Some c)"
    using ok keyboard_take_contents(1) [OF ok] kbd_empty_iff [OF ok]
    by (auto simp: kbd_get_def case_prod_beta Let_def split: list.splits)
  show "kbd_contents (snd (kbd_get s)) = tl (kbd_contents s)"
    using ok keyboard_take_contents(1) [OF ok] kbd_empty_iff [OF ok]
    by (auto simp: kbd_get_def case_prod_beta Let_def)
qed simp_all

lemma kbd_buffer_puts_contents:
  "kbd_ok s \<Longrightarrow> 0 \<notin> set cs \<Longrightarrow> kbd_ok (kbd_buffer_puts cs s)
     \<and> kbd_contents (kbd_buffer_puts cs s) = take 255 (kbd_contents s @ cs)"
proof (induction cs arbitrary: s)
  case Nil
  then show ?case using kbd_contents_bound [of s] by simp
next
  case (Cons c cs)
  from Cons.IH [OF kbd_buffer_put_ok [OF Cons.prems(1)], of c] Cons.prems(2)
  show ?case
    using kbd_contents_bound [OF Cons.prems(1)]
    by (auto simp: kbd_buffer_put_contents [OF Cons.prems(1)] take_Cons')
qed

section \<open>Decoding\<close>

text \<open>
  What a scancode means, given the modifiers: the bytes it adds to the queue (\<open>key_bytes\<close>) and
  its effect on the modifiers (\<open>key_mods\<close>).
\<close>

record key_mods =
  m_shift :: bool
  m_caps :: bool
  m_ctrl :: bool
  m_ext :: bool

definition mods_of :: "'a kbd_scheme \<Rightarrow> key_mods" where
  "mods_of s = \<lparr>m_shift = shift_pressed s, m_caps = caps_lock s, m_ctrl = ctrl_pressed s,
     m_ext = ext_scancode s\<rparr>"

definition arrow_keys :: "(u8 \<times> u8 list) list" where
  "arrow_keys = [(0x48, [27, 91, 65]), (0x50, [27, 91, 66]), (0x4D, [27, 91, 67]), (0x4B, [27, 91, 68])]"

definition ext_keys :: "(u8 \<times> u8 list) list" where
  "ext_keys = arrow_keys @ [(0x47, [27, 91, 72]), (0x4F, [27, 91, 70]), (0x53, [127])]"

definition is_lower :: "u8 \<Rightarrow> bool" where
  "is_lower c \<longleftrightarrow> 97 \<le> c \<and> c \<le> 122"

definition char_of_key :: "key_mods \<Rightarrow> u8 \<Rightarrow> u8 \<Rightarrow> u8" where
  "char_of_key m plain shifted =
     (if is_lower plain
      then (if m_ctrl m then plain AND 0x1F else if m_shift m \<noteq> m_caps m then shifted else plain)
      else if m_shift m then shifted else plain)"

definition key_bytes :: "key_mods \<Rightarrow> u8 \<Rightarrow> u8 list" where
  "key_bytes m sc =
     (if 128 \<le> sc then []
      else if m_ext m then (case map_of ext_keys sc of None \<Rightarrow> [] | Some bs \<Rightarrow> bs)
      else case map_of arrow_keys sc of Some bs \<Rightarrow> bs
           | None \<Rightarrow> filter (\<lambda>c. c \<noteq> 0) [char_of_key m (kbd_us ! unat sc) (kbd_us_shift ! unat sc)])"

definition key_mods_step :: "u8 \<Rightarrow> key_mods \<Rightarrow> key_mods" where
  "key_mods_step sc m =
     (if sc = 0xE0 then m\<lparr>m_ext := True\<rparr>
      else if m_ext m then m\<lparr>m_ext := False\<rparr>
      else m\<lparr>m_shift := (if sc \<in> {0x2A, 0x36} then True else if sc \<in> {0xAA, 0xB6} then False else m_shift m),
             m_ctrl := (if sc = 0x1D then True else if sc = 0x9D then False else m_ctrl m),
             m_caps := (m_caps m \<noteq> (sc = 0x3A))\<rparr>)"

text \<open>Statements over all bytes are decided by enumeration.\<close>

lemma all_u8: "list_all (\<lambda>n. P (of_nat n)) [0..<256] \<Longrightarrow> P (x :: u8)"
proof -
  assume "list_all (\<lambda>n. P (of_nat n)) [0..<256]"
  then have "P (of_nat (unat x))"
    using u8_bound [of x] unfolding list_all_iff by (metis atLeastLessThan_iff set_upt zero_le)
  then show "P x" by simp
qed

lemma scancode_release:
  "(sc AND 0x80 = 0) = (sc < (128 :: u8))"
  "\<not> sc < (128 :: u8) \<Longrightarrow> (sc AND 0x7F = 0x2A) = (sc = 0xAA)"
  "\<not> sc < (128 :: u8) \<Longrightarrow> (sc AND 0x7F = 0x36) = (sc = 0xB6)"
  "\<not> sc < (128 :: u8) \<Longrightarrow> (sc AND 0x7F = 0x1D) = (sc = 0x9D)"
proof -
  have "(sc AND 0x80 = 0) = (sc < (128 :: u8))" by (rule all_u8) code_simp
  moreover have "\<not> sc < (128 :: u8) \<longrightarrow> (sc AND 0x7F = 0x2A) = (sc = 0xAA)" by (rule all_u8) code_simp
  moreover have "\<not> sc < (128 :: u8) \<longrightarrow> (sc AND 0x7F = 0x36) = (sc = 0xB6)" by (rule all_u8) code_simp
  moreover have "\<not> sc < (128 :: u8) \<longrightarrow> (sc AND 0x7F = 0x1D) = (sc = 0x9D)" by (rule all_u8) code_simp
  ultimately show "(sc AND 0x80 = 0) = (sc < (128 :: u8))"
    "\<not> sc < (128 :: u8) \<Longrightarrow> (sc AND 0x7F = 0x2A) = (sc = 0xAA)"
    "\<not> sc < (128 :: u8) \<Longrightarrow> (sc AND 0x7F = 0x36) = (sc = 0xB6)"
    "\<not> sc < (128 :: u8) \<Longrightarrow> (sc AND 0x7F = 0x1D) = (sc = 0x9D)" by blast+
qed

definition layout_ok :: "nat \<Rightarrow> bool" where
  "layout_ok n \<longleftrightarrow>
     (let b = kbd_us ! n; h = kbd_us_shift ! n
      in (b = 0 \<longleftrightarrow> h = 0) \<and> (is_lower b \<longrightarrow> h = b - 97 + 65 \<and> b AND 0x1F = b - 97 + 1)
         \<and> \<not> (65 \<le> b \<and> b \<le> 90) \<and> (n \<in> {0x1D, 0x2A, 0x36, 0x3A} \<longrightarrow> b = 0))"

lemma layouts_ok: "n < 128 \<Longrightarrow> layout_ok n"
proof -
  have "list_all layout_ok [0..<128]" by code_simp
  then show "n < 128 \<Longrightarrow> layout_ok n" by (simp add: list_all_iff)
qed

lemma kbd_frames [simp]:
  "mods_of (kbd_buffer_put c s) = mods_of s"
  "mods_of (kbd_buffer_puts cs s) = mods_of s"
  by (simp add: mods_of_def kbd_buffer_put_def Let_def)
    (induction cs arbitrary: s, simp_all add: mods_of_def kbd_buffer_put_def Let_def)

lemma kbd_contents_flags [simp]:
  "kbd_contents (s\<lparr>ext_scancode := b\<rparr>) = kbd_contents s"
  "kbd_contents (s\<lparr>shift_pressed := b\<rparr>) = kbd_contents s"
  "kbd_contents (s\<lparr>ctrl_pressed := b\<rparr>) = kbd_contents s"
  "kbd_contents (s\<lparr>caps_lock := b\<rparr>) = kbd_contents s"
  "kbd_ok (s\<lparr>ext_scancode := b\<rparr>) = kbd_ok s"
  "kbd_ok (s\<lparr>shift_pressed := b\<rparr>) = kbd_ok s"
  "kbd_ok (s\<lparr>ctrl_pressed := b\<rparr>) = kbd_ok s"
  "kbd_ok (s\<lparr>caps_lock := b\<rparr>) = kbd_ok s"
  by (simp_all add: kbd_contents_def kbd_ok_def)

lemma ext_bytes_puts:
  "ext_bytes sc s = kbd_buffer_puts (case map_of ext_keys sc of None \<Rightarrow> [] | Some bs \<Rightarrow> bs) s"
  by (simp add: ext_bytes_def ext_keys_def arrow_keys_def)

lemma plain_bytes_puts:
  assumes "sc < 128"
  shows "plain_bytes sc s = kbd_buffer_puts
    (filter (\<lambda>c. c \<noteq> 0) [char_of_key (mods_of s) (kbd_us ! unat sc) (kbd_us_shift ! unat sc)]) s"
proof -
  have "layout_ok (unat sc)" using assms by (intro layouts_ok) (simp add: word_less_nat_alt)
  then show ?thesis
    by (auto simp: plain_bytes_def char_of_key_def layout_ok_def Let_def mods_of_def is_lower_def)
qed

definition key_flags :: "u8 \<Rightarrow> 'a kbd_scheme \<Rightarrow> 'a kbd_scheme" where
  "key_flags sc s = (let m = key_mods_step sc (mods_of s)
     in s\<lparr>shift_pressed := m_shift m, caps_lock := m_caps m, ctrl_pressed := m_ctrl m,
          ext_scancode := m_ext m\<rparr>)"

lemma key_flags_simps [simp]:
  "kbd_ok (key_flags sc s) = kbd_ok s"
  "kbd_contents (key_flags sc s) = kbd_contents s"
  "mods_of (key_flags sc s) = key_mods_step sc (mods_of s)"
  by (simp_all add: key_flags_def mods_of_def kbd_ok_def kbd_contents_def Let_def)

lemma keyboard_event_ext:
  "sc \<noteq> 0xE0 \<Longrightarrow> ext_scancode s \<Longrightarrow>
     keyboard_event sc s = kbd_buffer_puts (key_bytes (mods_of s) sc) (key_flags sc s)"
  by (cases "sc < 128")
    (simp_all add: keyboard_event_def key_bytes_def key_flags_def key_mods_step_def mods_of_def
          scancode_release(1) ext_bytes_puts not_less Let_def)

lemma ext_scancode_clear: "\<not> ext_scancode s \<Longrightarrow> s\<lparr>ext_scancode := False\<rparr> = s"
  by (cases s) simp

lemma keyboard_event_break:
  assumes "sc \<noteq> 0xE0" "\<not> ext_scancode s" "\<not> sc < 128"
  shows "keyboard_event sc s = kbd_buffer_puts (key_bytes (mods_of s) sc) (key_flags sc s)"
proof -
  have "sc \<noteq> 0x2A" "sc \<noteq> 0x36" "sc \<noteq> 0x1D" "sc \<noteq> 0x3A" using assms(3) by auto
  with assms show ?thesis
    unfolding keyboard_event_def Let_def scancode_release(1) scancode_release(2-4) [OF assms(3)]
    by (simp add: key_bytes_def key_flags_def key_mods_step_def mods_of_def not_less ext_scancode_clear)
qed

lemma modifier_bytes:
  assumes "sc \<in> {0x1D, 0x2A, 0x36, 0x3A}" "\<not> m_ext m"
  shows "key_bytes m sc = []"
proof -
  have sc: "sc < 128" "unat sc \<in> {0x1D, 0x2A, 0x36, 0x3A}" using assms(1) by auto
  then have "layout_ok (unat sc)" by (intro layouts_ok) auto
  then have "kbd_us ! unat sc = 0" "kbd_us_shift ! unat sc = 0"
    using sc(2) by (auto simp: layout_ok_def Let_def)
  then have "char_of_key m (kbd_us ! unat sc) (kbd_us_shift ! unat sc) = 0"
    by (simp add: char_of_key_def is_lower_def)
  moreover have "map_of arrow_keys sc = None" using assms(1) by (auto simp: arrow_keys_def)
  ultimately show ?thesis using assms(2) sc(1) by (simp add: key_bytes_def not_le [symmetric])
qed

lemma keyboard_event_modifier:
  assumes "\<not> ext_scancode s" "sc \<in> {0x1D, 0x2A, 0x36, 0x3A}"
  shows "keyboard_event sc s = kbd_buffer_puts (key_bytes (mods_of s) sc) (key_flags sc s)"
proof -
  have "key_bytes (mods_of s) sc = []"
    using assms by (intro modifier_bytes) (simp_all add: mods_of_def)
  moreover have "keyboard_event sc s = key_flags sc s"
    using assms by (elim insertE emptyE)
      (simp_all add: keyboard_event_def key_flags_def key_mods_step_def mods_of_def ext_scancode_clear)
  ultimately show ?thesis by simp
qed

lemma keyboard_event_make:
  assumes "\<not> ext_scancode s" "sc < 128" "sc \<notin> {0x1D, 0x2A, 0x36, 0x3A}"
  shows "keyboard_event sc s = kbd_buffer_puts (key_bytes (mods_of s) sc) (key_flags sc s)"
proof -
  have "sc \<noteq> 0xE0" "sc \<noteq> 0xAA" "sc \<noteq> 0xB6" "sc \<noteq> 0x9D" using assms(2) by auto
  with assms have flags: "key_flags sc s = s"
    by (simp add: key_flags_def key_mods_step_def mods_of_def ext_scancode_clear)
  have ev: "keyboard_event sc s = (case map_of arrow_keys sc of Some bs \<Rightarrow> kbd_buffer_puts bs s
      | None \<Rightarrow> plain_bytes sc s)"
    using assms \<open>sc \<noteq> 0xE0\<close> by (simp add: keyboard_event_def scancode_release(1) arrow_keys_def)
  have kb: "key_bytes (mods_of s) sc = (case map_of arrow_keys sc of Some bs \<Rightarrow> bs
      | None \<Rightarrow> filter (\<lambda>c. c \<noteq> 0) [char_of_key (mods_of s) (kbd_us ! unat sc) (kbd_us_shift ! unat sc)])"
    using assms(1,2) unfolding key_bytes_def by (simp add: mods_of_def not_le [symmetric])
  show ?thesis
    unfolding ev kb flags plain_bytes_puts [OF assms(2)] by (simp split: option.split)
qed

lemma keyboard_event_puts:
  "keyboard_event sc s = kbd_buffer_puts (key_bytes (mods_of s) sc) (key_flags sc s)"
proof (cases "sc = 0xE0")
  case True
  then show ?thesis
    by (simp add: keyboard_event_def key_bytes_def key_flags_def key_mods_step_def mods_of_def)
next
  case sc: False
  show ?thesis
  proof (cases "ext_scancode s")
    case True
    with sc show ?thesis by (rule keyboard_event_ext)
  next
    case False
    with sc show ?thesis
      by (cases "sc < 128"; cases "sc \<in> {0x1D, 0x2A, 0x36, 0x3A}")
        (rule keyboard_event_modifier keyboard_event_make keyboard_event_break; assumption)+
  qed
qed

lemma key_bytes_no_nul: "0 \<notin> set (key_bytes m sc)"
  by (auto simp: key_bytes_def ext_keys_def arrow_keys_def split: option.splits if_splits)

lemma keyboard_event_queue:
  assumes "kbd_ok s"
  shows "kbd_ok (keyboard_event sc s)"
    and "kbd_contents (keyboard_event sc s) = take 255 (kbd_contents s @ key_bytes (mods_of s) sc)"
    and "mods_of (keyboard_event sc s) = key_mods_step sc (mods_of s)"
  using kbd_buffer_puts_contents [of "key_flags sc s" "key_bytes (mods_of s) sc"] assms
  by (simp_all add: keyboard_event_puts key_bytes_no_nul)

section \<open>Reader and interrupts\<close>

text \<open>
  A run of the system between boot and some moment: \<open>kb\<close> is the driver's memory, \<open>pc\<close> where
  the reader stands inside \<open>keyboard_getc\<close>, \<open>accepted\<close> the bytes the handler found room for
  and \<open>delivered\<close> the bytes the reader has returned.  The gates are interrupt gates, so the
  handler is not interrupted itself; it may run between any two memory accesses of the reader.
\<close>

datatype reader = Waiting | Polled | Loaded u8

record kbd_run =
  kb :: kbd
  pc :: reader
  accepted :: "u8 list"
  delivered :: "u8 list"

inductive kbd_step :: "kbd_run \<Rightarrow> kbd_run \<Rightarrow> bool" where
  irq: "kbd_step r (r\<lparr>kb := keyboard_event sc (kb r),
          accepted := accepted r @ take (255 - length (kbd_contents (kb r))) (key_bytes (mods_of (kb r)) sc)\<rparr>)"
| poll: "pc r = Waiting \<Longrightarrow> keyboard_has_data (kb r) \<Longrightarrow> kbd_step r (r\<lparr>pc := Polled\<rparr>)"
| load: "pc r = Polled \<Longrightarrow>
     kbd_step r (r\<lparr>pc := Loaded (kbd_buffer (kb r) ! kbd_buffer_tail (kb r))\<rparr>)"
| advance: "pc r = Loaded c \<Longrightarrow>
     kbd_step r (r\<lparr>pc := Waiting,
       kb := kb r\<lparr>kbd_buffer_tail := (kbd_buffer_tail (kb r) + 1) mod KBD_BUFFER_SIZE\<rparr>,
       delivered := delivered r @ [c]\<rparr>)"

inductive kbd_reach :: "kbd_run \<Rightarrow> kbd_run \<Rightarrow> bool" for r0 where
  start: "kbd_reach r0 r0"
| next_step: "kbd_reach r0 r \<Longrightarrow> kbd_step r r' \<Longrightarrow> kbd_reach r0 r'"

definition kbd_run_ok :: "kbd_run \<Rightarrow> bool" where
  "kbd_run_ok r \<longleftrightarrow> kbd_ok (kb r) \<and> accepted r = delivered r @ kbd_contents (kb r)
     \<and> (pc r \<noteq> Waiting \<longrightarrow> kbd_contents (kb r) \<noteq> [])
     \<and> (\<forall>c. pc r = Loaded c \<longrightarrow> hd (kbd_contents (kb r)) = c)"

lemma kbd_step_ok:
  assumes "kbd_step r r'" "kbd_run_ok r"
  shows "kbd_run_ok r'"
  using assms(1)
proof (cases rule: kbd_step.cases)
  case (irq sc)
  have ok: "kbd_ok (kb r)" using assms(2) by (simp add: kbd_run_ok_def)
  note ev = keyboard_event_queue [OF ok, of sc]
  have "take 255 (kbd_contents (kb r)) = kbd_contents (kb r)"
    using kbd_contents_bound [OF ok] by simp
  then show ?thesis
    using irq assms(2) ev by (auto simp: kbd_run_ok_def hd_append)
next
  case poll
  then show ?thesis using assms(2) kbd_empty_iff [of "kb r"] by (simp add: kbd_run_ok_def)
next
  case load
  then have "keyboard_has_data (kb r)" "kbd_ok (kb r)"
    using assms(2) kbd_empty_iff [of "kb r"] by (auto simp: kbd_run_ok_def)
  from keyboard_take_contents(1) [OF this(2,1)] show ?thesis
    using load assms(2) by (simp add: kbd_run_ok_def keyboard_take_def)
next
  case (advance c)
  then have "keyboard_has_data (kb r)" "kbd_ok (kb r)"
    using assms(2) kbd_empty_iff [of "kb r"] by (auto simp: kbd_run_ok_def)
  from keyboard_take_contents [OF this(2,1)] show ?thesis
    using advance assms(2) by (auto simp: kbd_run_ok_def keyboard_take_def)
qed

lemma kbd_reach_ok: "kbd_reach r0 r \<Longrightarrow> kbd_run_ok r0 \<Longrightarrow> kbd_run_ok r"
  by (induction rule: kbd_reach.induct) (auto intro: kbd_step_ok)

section \<open>Modifiers as a function of the scancodes received\<close>

text \<open>The scancodes that are neither the prefix \<open>E0\<close> nor prefixed by it.\<close>

fun plain_codes :: "bool \<Rightarrow> u8 list \<Rightarrow> u8 list" where
  "plain_codes e [] = []"
| "plain_codes e (c # cs) =
     (if c = 0xE0 then plain_codes True cs
      else if e then plain_codes False cs else c # plain_codes False cs)"

fun last_is :: "u8 set \<Rightarrow> u8 set \<Rightarrow> bool \<Rightarrow> u8 list \<Rightarrow> bool" where
  "last_is on off b [] = b"
| "last_is on off b (c # cs) = last_is on off (if c \<in> on then True else if c \<in> off then False else b) cs"

lemma last_is_snoc:
  "last_is on off b (cs @ [c]) = (if c \<in> on then True else if c \<in> off then False else last_is on off b cs)"
  by (induction cs arbitrary: b) auto

lemma key_mods_fold:
  "fold key_mods_step scs m =
     (let ps = plain_codes (m_ext m) scs in
      \<lparr>m_shift = last_is {0x2A, 0x36} {0xAA, 0xB6} (m_shift m) ps,
       m_caps = (m_caps m \<noteq> odd (count_list ps 0x3A)),
       m_ctrl = last_is {0x1D} {0x9D} (m_ctrl m) ps,
       m_ext = m_ext (fold key_mods_step scs m)\<rparr>)"
proof (induction scs arbitrary: m)
  case Nil
  then show ?case by (simp add: Let_def)
next
  case (Cons sc scs)
  show ?case
    by (simp only: fold_Cons comp_apply, subst Cons.IH, cases m)
      (auto simp add: key_mods_step_def Let_def)
qed

lemma keyboard_events_mods:
  "kbd_ok s \<Longrightarrow> mods_of (fold keyboard_event scs s) = fold key_mods_step scs (mods_of s)"
  by (induction scs arbitrary: s) (auto simp: keyboard_event_queue)

section \<open>Properties\<close>

text \<open>
  C12: handling one scancode appends to the queue exactly the bytes the scancode decodes to
  under the modifiers held (letters by Shift xor Caps Lock, Ctrl + letter as a control code,
  arrows and the extended keys as escape sequences), cut at the 255 bytes the buffer can hold,
  moves the modifiers by \<open>key_mods_step\<close> and keeps the buffer well formed.
\<close>

theorem keyboard_event_refines:
  assumes "kbd_ok s"
  shows "kbd_ok (keyboard_event sc s)
    \<and> kbd_contents (keyboard_event sc s) = take 255 (kbd_contents s @ key_bytes (mods_of s) sc)
    \<and> mods_of (keyboard_event sc s) = key_mods_step sc (mods_of s)"
  using keyboard_event_queue [OF assms] by simp

definition bss_kbd :: kbd where
  "bss_kbd = intr.extend bss_intr
     \<lparr>kbd_buffer = replicate 256 0, kbd_buffer_head = 0, kbd_buffer_tail = 0, shift_pressed = False,
      caps_lock = False, ctrl_pressed = False, ext_scancode = False\<rparr>"

lemma bss_kbd_ok [simp]: "kbd_ok bss_kbd" "kbd_contents bss_kbd = []"
  by (simp_all add: bss_kbd_def kbd_ok_def kbd_contents_def intr.defs ring_contents_def)

theorem keyboard_event_refines_witness:
  "kbd_contents (keyboard_event 0x1E (bss_kbd\<lparr>shift_pressed := True\<rparr>)) = [65]"
proof -
  have "mods_of (bss_kbd\<lparr>shift_pressed := True\<rparr>) = \<lparr>m_shift = True, m_caps = False, m_ctrl = False, m_ext = False\<rparr>"
    by (simp add: mods_of_def bss_kbd_def intr.defs)
  moreover have "key_bytes \<lparr>m_shift = True, m_caps = False, m_ctrl = False, m_ext = False\<rparr> 0x1E = [65]"
    by code_simp
  ultimately show ?thesis
    using keyboard_event_refines [of "bss_kbd\<lparr>shift_pressed := True\<rparr>" "0x1E"] by simp
qed

text \<open>
  For every sequence of puts and gets, the bytes queued at first followed by the bytes
  accepted are the bytes returned followed by the bytes still queued.
\<close>

theorem kbd_queue_fifo:
  assumes "kbd_ok s" "queue_run kbd_put kbd_get s ops = (ins, outs, t)"
  shows "kbd_contents s @ ins = outs @ kbd_contents t \<and> kbd_ok t"
  using kbd.run_fifo [OF assms(1), of ops] kbd.run_invar [OF assms(1), of ops] assms(2) by simp

theorem kbd_queue_fifo_witness:
  "fst (snd (queue_run kbd_put kbd_get bss_kbd [Put 7, Put 9, Get, Get, Get])) = [7, 9]"
proof -
  let ?r = "queue_run kbd_put kbd_get bss_kbd [Put 7, Put 9, Get, Get, Get]"
  have "?r = (fst ?r, fst (snd ?r), snd (snd ?r))" by simp
  from kbd_queue_fifo [OF bss_kbd_ok(1) this]
  have "fst ?r = fst (snd ?r) @ kbd_contents (snd (snd ?r))" by simp
  moreover have "fst ?r = [7, 9]" "kbd_contents (snd (snd ?r)) = []"
    by (simp_all add: kbd_put_def kbd_get_def kbd_buffer_put_def keyboard_take_def keyboard_has_data_def
        bss_kbd_def intr.defs kbd_contents_def ring_contents_def)
  ultimately show ?thesis by simp
qed

text \<open>
  C7: however interrupts interleave with the three accesses of \<open>keyboard_getc\<close> (poll the
  indices, load the byte, advance the tail), the bytes delivered to the reader followed by the
  bytes still queued are the bytes the handler accepted, in order: none is lost, duplicated,
  reordered or overwritten between the load and the advance; and the buffer never holds more
  than 255 bytes.
\<close>

theorem kbd_no_loss_under_interrupts:
  assumes "kbd_reach \<lparr>kb = k, pc = Waiting, accepted = [], delivered = []\<rparr> r"
    and "kbd_ok k" "kbd_contents k = []"
  shows "accepted r = delivered r @ kbd_contents (kb r) \<and> length (kbd_contents (kb r)) \<le> 255
    \<and> (\<forall>c. pc r = Loaded c \<longrightarrow> delivered r @ [c] = take (Suc (length (delivered r))) (accepted r))"
proof -
  have "kbd_run_ok r" using kbd_reach_ok [OF assms(1)] assms(2,3) by (simp add: kbd_run_ok_def)
  then have ok: "kbd_ok (kb r)" and acc: "accepted r = delivered r @ kbd_contents (kb r)"
    and ld: "\<And>c. pc r = Loaded c \<Longrightarrow> kbd_contents (kb r) \<noteq> [] \<and> hd (kbd_contents (kb r)) = c"
    by (simp_all add: kbd_run_ok_def)
  have "delivered r @ [c] = take (Suc (length (delivered r))) (accepted r)" if "pc r = Loaded c" for c
    using ld [OF that] by (cases "kbd_contents (kb r)") (simp_all add: acc)
  then show ?thesis
    using kbd_contents_bound [OF ok] acc by simp
qed

theorem kbd_no_loss_under_interrupts_witness:
  "\<exists>r. kbd_reach \<lparr>kb = bss_kbd, pc = Waiting, accepted = [], delivered = []\<rparr> r
     \<and> accepted r = [97] \<and> delivered r @ kbd_contents (kb r) = [97]"
proof -
  let ?r0 = "\<lparr>kb = bss_kbd, pc = Waiting, accepted = [], delivered = []\<rparr>"
  let ?r1 = "\<lparr>kb = keyboard_event 0x1E bss_kbd, pc = Waiting, accepted = [97], delivered = []\<rparr>"
  have "mods_of bss_kbd = \<lparr>m_shift = False, m_caps = False, m_ctrl = False, m_ext = False\<rparr>"
    by (simp add: mods_of_def bss_kbd_def intr.defs)
  moreover have "key_bytes \<lparr>m_shift = False, m_caps = False, m_ctrl = False, m_ext = False\<rparr> 0x1E = [97]"
    by code_simp
  ultimately have "kbd_step ?r0 ?r1"
    using kbd_step.irq [of ?r0 "0x1E"] by simp
  then have reach: "kbd_reach ?r0 ?r1"
    by (rule kbd_reach.next_step [OF kbd_reach.start])
  from kbd_no_loss_under_interrupts [OF reach] have "[97] = delivered ?r1 @ kbd_contents (kb ?r1)"
    by simp
  then show ?thesis using reach by (intro exI [of _ ?r1] conjI) simp_all
qed

text \<open>
  After any sequence of scancodes, Shift is down exactly when the last Shift make or break
  code (either Shift key, unprefixed) was a make code, Ctrl likewise, and Caps Lock is on when
  its key was pressed an odd number of times; prefixed codes never touch a modifier.
\<close>

theorem keyboard_modifiers_history:
  assumes "kbd_ok s" "\<not> ext_scancode s"
  shows "shift_pressed (fold keyboard_event scs s)
      = last_is {0x2A, 0x36} {0xAA, 0xB6} (shift_pressed s) (plain_codes False scs)
    \<and> ctrl_pressed (fold keyboard_event scs s)
      = last_is {0x1D} {0x9D} (ctrl_pressed s) (plain_codes False scs)
    \<and> caps_lock (fold keyboard_event scs s)
      = (caps_lock s \<noteq> odd (count_list (plain_codes False scs) 0x3A))"
proof -
  have "mods_of (fold keyboard_event scs s) = fold key_mods_step scs (mods_of s)"
    by (rule keyboard_events_mods [OF assms(1)])
  then show ?thesis
    using assms(2) by (subst (asm) key_mods_fold) (simp add: mods_of_def Let_def)
qed

theorem keyboard_modifiers_history_witness:
  "\<not> shift_pressed (fold keyboard_event [0x2A, 0x36, 0xE0, 0x2A, 0xAA] bss_kbd)"
proof -
  have "\<not> ext_scancode bss_kbd" "\<not> shift_pressed bss_kbd" by (simp_all add: bss_kbd_def intr.defs)
  then show ?thesis
    using keyboard_modifiers_history [OF bss_kbd_ok(1), of "[0x2A, 0x36, 0xE0, 0x2A, 0xAA]"] by simp
qed

text \<open>
  C31: once the timer and the keyboard are installed, an interrupt runs exactly the handler of
  its line and is acknowledged: the timer interrupt only advances the tick count (modulo 2^32),
  the keyboard interrupt reads one scancode and processes it, any other line runs nothing; in
  every case the end-of-interrupt byte goes to the master controller last, after one to the
  slave controller when the interrupt came from there.
\<close>

theorem irq_dispatch_and_eoi:
  assumes "length (irq_handlers s) = 16" "\<forall>i\<in>{2..<16}. irq_handlers s ! i = None"
    and "int_no r = 32 + of_nat n" "n < 16" "t = keyboard_install (timer_install s)"
  shows "irq_handler kbd_call (Some r) t =
    (let t = (if n = 0 then t\<lparr>timer_ticks := timer_ticks t + 1\<rparr>
              else if n = 1 then keyboard_event (fst (inb 0x60 t)) (snd (inb 0x60 t)) else t);
         t = (if 8 \<le> n then outb 0xA0 0x20 t else t)
     in outb 0x20 0x20 t)"
proof -
  have no: "unat (int_no r) = 32 + n"
    using assms(3,4) unat_of_nat_small [of n] by (simp add: unat_add_small)
  then have line: "unat (int_no r - 32) = n" by (simp add: assms(3) unat_of_nat_small assms(4) less_trans [OF assms(4)])
  have tab: "irq_handlers t = (irq_handlers s)[0 := Some Timer_handler, 1 := Some Keyboard_handler]"
    by (simp add: assms(5) keyboard_install_def timer_install_def irq_install_handler_def outb_def Let_def)
  have h: "irq_handlers t ! n = (if n = 0 then Some Timer_handler
      else if n = 1 then Some Keyboard_handler else None)"
    using assms(1,2,4) by (simp add: tab nth_list_update)
  have "32 \<le> int_no r" "int_no r < 48" "40 \<le> int_no r \<longleftrightarrow> 8 \<le> n"
    using no assms(4) by (simp_all add: word_le_nat_alt word_less_nat_alt)
  then show ?thesis
    by (simp add: irq_handler_def line h kbd_call_def timer_handler_def keyboard_handler_def
        case_prod_beta Let_def)
qed

theorem irq_dispatch_and_eoi_witness:
  "\<exists>r. dev_out (irq_handler kbd_call (Some r) (keyboard_install (timer_install bss_kbd)))
      = [(0x43, 0x36), (0x40, 0xA9), (0x40, 0x04), (0xA0, 0x20), (0x20, 0x20)]"
proof -
  define r :: regs where "r = \<lparr>r_ds = 0, r_edi = 0, r_esi = 0, r_ebp = 0, r_esp = 0, r_ebx = 0, r_edx = 0,
     r_ecx = 0, r_eax = 0, int_no = 32 + of_nat 12, err_code = 0, r_eip = 0, r_cs = 0, r_eflags = 0,
     r_useresp = 0, r_ss = 0\<rparr>"
  have "length (irq_handlers bss_kbd) = 16" "\<forall>i\<in>{2..<16}. irq_handlers bss_kbd ! i = None"
    by (simp_all add: bss_kbd_def bss_intr_def intr.defs)
  moreover have "int_no r = 32 + of_nat 12" by (simp add: r_def)
  ultimately have "irq_handler kbd_call (Some r) (keyboard_install (timer_install bss_kbd))
      = outb 0x20 0x20 (outb 0xA0 0x20 (keyboard_install (timer_install bss_kbd)))"
    using irq_dispatch_and_eoi [of bss_kbd r 12] by simp
  then show ?thesis
    by (intro exI [of _ r])
      (simp add: outb_def keyboard_install_def timer_install_def irq_install_handler_def bss_kbd_def
        bss_intr_def intr.defs)
qed

end
