(* ===== verification/Initrd.thy ===== *)
theory Initrd
  imports Libc
begin

text \<open>
  The initial RAM disk: the builder \<open>tools/mkinitrd.py\<close> and the reader
  \<open>kernel/initrd.c\<close>.  The image is a count, one 36-byte header per file (32 bytes of name,
  32-bit size) and the file contents.  The round trip shows that the reader, working on raw
  pointers into the image the builder wrote, finds exactly the files put in.
\<close>

section \<open>The builder\<close>

text \<open>
  A file is its base name (code points) and its bytes.  \<open>encode('ascii')\<close> and
  \<open>struct.pack('<I')\<close> raise on values out of range: \<open>None\<close>.
\<close>

type_synonym host_file = "nat list \<times> u8 list"

definition encode_name :: "nat list \<Rightarrow> u8 list option" where
  "encode_name name = (if list_all (\<lambda>c. c < 128) name then Some (take 31 (map of_nat name)) else None)"

definition pad_name :: "u8 list \<Rightarrow> u8 list" where
  "pad_name bs = bs @ replicate (32 - length bs) 0"

fun replace_crlf :: "u8 list \<Rightarrow> u8 list" where
  "replace_crlf (a # b # bs) =
     (if a = 13 \<and> b = 10 then 10 # replace_crlf bs else a # replace_crlf (b # bs))"
| "replace_crlf bs = bs"

definition file_data :: "u8 list \<Rightarrow> u8 list" where
  "file_data raw = (let data = replace_crlf raw
     in if data \<noteq> [] \<and> last data = 10 then data else data @ [10])"

definition pack_u32 :: "nat \<Rightarrow> u8 list option" where
  "pack_u32 n = (if n < 4294967296 then Some (le32 n) else None)"

fun initrd_parts :: "host_file list \<Rightarrow> (u8 list \<times> u8 list) option" where
  "initrd_parts [] = Some ([], [])"
| "initrd_parts ((name, raw) # fs) =
     Option.bind (encode_name name) (\<lambda>bs.
     Option.bind (pack_u32 (length (file_data raw))) (\<lambda>sz.
     Option.bind (initrd_parts fs) (\<lambda>(hs, ds).
       Some (pad_name bs @ sz @ hs, file_data raw @ ds))))"

definition make_initrd :: "host_file list \<Rightarrow> u8 list option" where
  "make_initrd files =
     Option.bind (pack_u32 (length files)) (\<lambda>cnt.
     Option.bind (initrd_parts files) (\<lambda>(hs, ds). Some (cnt @ hs @ ds)))"

section \<open>The reader\<close>

record ramdisk =
  n_files :: u32
  initrd_base :: u32

definition initrd_init :: "mem \<Rightarrow> u32 \<Rightarrow> ramdisk \<Rightarrow> ramdisk" where
  "initrd_init m location d = d\<lparr>initrd_base := location, n_files := load_u32 m location\<rparr>"

text \<open>
  The loop of \<open>initrd_get_file\<close>; the result is the pointer returned (0 is NULL) and the
  value \<open>*size\<close> holds on return.
\<close>

fun initrd_scan :: "nat \<Rightarrow> mem \<Rightarrow> u32 \<Rightarrow> u32 \<Rightarrow> u32 \<Rightarrow> u32 \<Rightarrow> u32 \<times> u32" where
  "initrd_scan 0 m name header_ptr data_ptr sz = (0, sz)"
| "initrd_scan (Suc k) m name header_ptr data_ptr sz =
     (let fsize = load_u32 m (header_ptr + 32)
      in if strncmp m header_ptr name 32 = 0 then (data_ptr, fsize)
         else initrd_scan k m name (header_ptr + 36) (data_ptr + fsize) sz)"

definition initrd_get_file :: "mem \<Rightarrow> u32 \<Rightarrow> u32 \<Rightarrow> ramdisk \<Rightarrow> u32 \<times> u32" where
  "initrd_get_file m name sz d =
     (if initrd_base d = 0 \<or> n_files d = 0 \<or> name = 0 then (0, sz)
      else initrd_scan (unat (n_files d)) m name (initrd_base d + 4)
             (initrd_base d + 4 + n_files d * 36) sz)"

section \<open>Reading back what was built\<close>

lemma load_le32:
  assumes "bytes_at m a 4 = le32 n" "n < 4294967296"
  shows "load_u32 m a = of_nat n"
proof -
  have b: "m a = of_nat n" "m (a + 1) = of_nat (n div 256)" "m (a + 2) = of_nat (n div 65536)"
    "m (a + 3) = of_nat (n div 16777216)"
    using assms(1) by (simp_all add: bytes_at_def le32_def upt_rec)
  have u: "unat (ucast (of_nat k :: u8) :: u32) = k mod 256" for k
    by (simp add: unsigned_ucast_eq unat_of_nat take_bit_eq_mod)
  have n: "n = n mod 256 + 256 * (n div 256 mod 256) + 65536 * (n div 65536 mod 256)
      + 16777216 * (n div 16777216 mod 256)"
  proof -
    have "n div 65536 = n div 256 div 256" "n div 16777216 = n div 65536 div 256"
      "n div 16777216 mod 256 = n div 16777216"
      using assms(2) by (simp_all add: div_mult2_eq [symmetric])
    then show ?thesis
      using div_mult_mod_eq [of n 256] div_mult_mod_eq [of "n div 256" 256]
        div_mult_mod_eq [of "n div 65536" 256] by linarith
  qed
  have w: "ucast (of_nat k :: u8) = (of_nat (k mod 256) :: u32)" for k
    by (rule word_unat_eq_iff [THEN iffD2]) (simp add: u unat_of_nat take_bit_nat_eq_self)
  have "(of_nat n :: u32) = of_nat (n mod 256 + 256 * (n div 256 mod 256) + 65536 * (n div 65536 mod 256)
      + 16777216 * (n div 16777216 mod 256))"
    using n by (rule arg_cong)
  then show ?thesis unfolding load_u32_def b w by simp
qed

lemma encode_name_facts:
  assumes "encode_name name = Some bs" "0 \<notin> set name"
  shows "length bs \<le> 31" "0 \<notin> set bs"
proof -
  show "length bs \<le> 31" using assms by (auto simp: encode_name_def split: if_splits)
  have "of_nat c \<noteq> (0 :: u8)" if "c \<in> set name" for c
  proof -
    have "c < 128" "c \<noteq> 0"
      using that assms by (auto simp: encode_name_def list_all_iff intro!: gr0I split: if_splits)
    then have "unat (of_nat c :: u8) \<noteq> 0" by (simp add: unat_of_nat take_bit_nat_eq_self)
    then show ?thesis by auto
  qed
  then show "0 \<notin> set bs" using assms(1) by (auto simp: encode_name_def split: if_splits dest!: in_set_takeD)
qed

lemma padded_cstr:
  assumes "bytes_at m a 32 = pad_name bs" "length bs \<le> 31" "0 \<notin> set bs"
  shows "cstr_at m a bs"
proof -
  have "m (a + of_nat i) = pad_name bs ! i" if "i < 32" for i
    using nth_bytes_at [of i 32 m a] that assms(1) by simp
  then show ?thesis
    using assms(2,3) by (auto simp: cstr_at_def pad_name_def nth_append intro!: nth_equalityI)
qed

lemma str_diff_take_32:
  assumes "0 \<notin> set bs" "0 \<notin> set key" "length bs \<le> 31"
  shows "str_diff (take 32 bs) (take 32 key) = 0 \<longleftrightarrow> bs = key"
proof -
  have "str_diff (take 32 bs) (take 32 key) = 0 \<longleftrightarrow> take 32 bs = take 32 key"
    using assms(1,2) by (intro str_diff_0_iff) (auto dest: in_set_takeD)
  also have "\<dots> \<longleftrightarrow> bs = key"
  proof
    assume eq: "take 32 bs = take 32 key"
    then have "length (take 32 key) \<le> 31" using assms(3) by (metis length_take min.coboundedI1 min.commute)
    then have "length key \<le> 31" by simp
    with eq assms(3) show "bs = key" by simp
  qed simp
  finally show ?thesis .
qed

text \<open>The entry the reader should return, with the offset of its contents in the data segment.\<close>

fun find_file :: "host_file list \<Rightarrow> u8 list \<Rightarrow> (nat \<times> u8 list) option" where
  "find_file [] key = None"
| "find_file ((name, raw) # fs) key =
     (if encode_name name = Some key then Some (0, file_data raw)
      else map_option (\<lambda>(off, d). (length (file_data raw) + off, d)) (find_file fs key))"

lemma initrd_scan_finds:
  assumes "initrd_parts fs = Some (hs, ds)" "bytes_at m hp (length hs) = hs"
    and "cstr_at m name key" "\<forall>(n, _) \<in> set fs. 0 \<notin> set n"
  shows "initrd_scan (length fs) m name hp dp sz =
    (case find_file fs key of None \<Rightarrow> (0, sz)
     | Some (off, d) \<Rightarrow> (dp + of_nat off, of_nat (length d)))"
  using assms
proof (induction fs arbitrary: hs ds hp dp)
  case Nil
  then show ?case by simp
next
  case (Cons f fs)
  obtain n raw where f: "f = (n, raw)" by (cases f)
  from Cons.prems(1) obtain bs hs' ds' where bs: "encode_name n = Some bs"
    and len: "length (file_data raw) < 4294967296" and parts: "initrd_parts fs = Some (hs', ds')"
    and hs: "hs = pad_name bs @ le32 (length (file_data raw)) @ hs'"
    by (auto simp: f pack_u32_def bind_eq_Some_conv split: if_splits)
  have nz: "length bs \<le> 31" "0 \<notin> set bs"
    using encode_name_facts [OF bs] Cons.prems(4) by (auto simp: f)
  have l32: "length (pad_name bs) = 32" using nz(1) by (simp add: pad_name_def)
  have l4: "length (le32 k) = 4" for k by (simp add: le32_def)
  have "length hs = 32 + (4 + length hs')" using l32 l4 by (simp add: hs)
  then have "bytes_at m hp 32 @ bytes_at m (hp + of_nat 32) 4 @ bytes_at m (hp + of_nat 32 + of_nat 4) (length hs')
      = pad_name bs @ le32 (length (file_data raw)) @ hs'"
    using Cons.prems(2) unfolding hs by (simp only: bytes_at_add)
  then have b: "bytes_at m hp 32 = pad_name bs" "bytes_at m (hp + 32) 4 = le32 (length (file_data raw))"
    "bytes_at m (hp + 36) (length hs') = hs'"
    using l32 l4 by (simp_all add: append_eq_append_conv add.assoc)
  have size: "load_u32 m (hp + 32) = of_nat (length (file_data raw))"
    by (rule load_le32 [OF b(2) len])
  have "strncmp m hp name 32 = str_diff (take 32 bs) (take 32 key)"
    using strncmp_loop_diff [OF padded_cstr [OF b(1) nz] Cons.prems(3)] by (simp add: strncmp_def)
  then have cmp: "strncmp m hp name 32 = 0 \<longleftrightarrow> bs = key"
    using str_diff_take_32 [OF nz(2) _ nz(1)] Cons.prems(3) by (auto simp: cstr_at_def)
  have "initrd_scan (length fs) m name (hp + 36) (dp + of_nat (length (file_data raw))) sz =
      (case find_file fs key of None \<Rightarrow> (0, sz)
       | Some (off, d) \<Rightarrow> (dp + of_nat (length (file_data raw)) + of_nat off, of_nat (length d)))"
    using Cons.prems(4) by (intro Cons.IH [OF parts b(3) Cons.prems(3)]) auto
  then show ?case
    by (auto simp: f bs size cmp Let_def add.assoc split: option.splits)
qed

lemma find_file_data:
  assumes "initrd_parts fs = Some (hs, ds)" "find_file fs key = Some (off, d)"
  shows "off + length d \<le> length ds \<and> take (length d) (drop off ds) = d \<and> d \<noteq> []"
  using assms
proof (induction fs arbitrary: hs ds off)
  case Nil
  then show ?case by simp
next
  case (Cons f fs)
  obtain n raw where f: "f = (n, raw)" by (cases f)
  from Cons.prems(1) obtain hs' ds' where parts: "initrd_parts fs = Some (hs', ds')"
    and ds: "ds = file_data raw @ ds'"
    by (auto simp: f pack_u32_def bind_eq_Some_conv split: if_splits)
  show ?case
  proof (cases "encode_name n = Some key")
    case True
    then show ?thesis using Cons.prems(2) by (auto simp: f ds file_data_def Let_def split: if_splits)
  next
    case False
    then obtain off' where "find_file fs key = Some (off', d)" "off = length (file_data raw) + off'"
      using Cons.prems(2) by (auto simp: f)
    then show ?thesis using Cons.IH [OF parts] by (simp add: ds)
  qed
qed

lemma initrd_parts_length:
  "initrd_parts fs = Some (hs, ds) \<Longrightarrow> length hs = 36 * length fs"
proof (induction fs arbitrary: hs ds)
  case Nil
  then show ?case by simp
next
  case (Cons f fs)
  obtain n raw where f: "f = (n, raw)" by (cases f)
  from Cons.prems obtain bs sz hs' ds' where "encode_name n = Some bs" "sz = le32 (length (file_data raw))"
    "initrd_parts fs = Some (hs', ds')" "hs = pad_name bs @ sz @ hs'"
    by (auto simp: f pack_u32_def bind_eq_Some_conv split: if_splits)
  moreover have "length bs \<le> 31"
    using \<open>encode_name n = Some bs\<close> by (auto simp: encode_name_def split: if_splits)
  ultimately show ?case using Cons.IH by (simp add: pad_name_def le32_def)
qed

lemma bytes_at_slice:
  "off + k \<le> n \<Longrightarrow> bytes_at m (a + of_nat off) k = take k (drop off (bytes_at m a n))"
  by (rule nth_equalityI) (simp_all add: add.assoc)

section \<open>Properties\<close>

text \<open>
  C8: round trip of the RAM disk.  When the image \<open>mkinitrd.py\<close> built lies in memory at
  the address given to \<open>initrd_init\<close>, \<open>initrd_get_file\<close> called with a C string returns,
  for the first file whose stored name (the first 31 characters of its base name) is that string,
  a pointer to exactly that file's contents (line ends normalised, newline-terminated) and
  their length; when no stored name matches it returns NULL and leaves \<open>*size\<close> alone.
\<close>

theorem initrd_roundtrip:
  assumes "make_initrd files = Some img" "bytes_at m base (length img) = img"
    and "0 < unat base" "unat base + length img \<le> 2 ^ 32"
    and "cstr_at m name key" "name \<noteq> 0" "\<forall>(n, _) \<in> set files. 0 \<notin> set n"
  shows "case find_file files key of
      None \<Rightarrow> initrd_get_file m name sz (initrd_init m base d) = (0, sz)
    | Some (off, contents) \<Rightarrow>
        (\<exists>p. initrd_get_file m name sz (initrd_init m base d) = (p, of_nat (length contents))
          \<and> p \<noteq> 0 \<and> bytes_at m p (length contents) = contents)"
proof -
  from assms(1) obtain hs ds where parts: "initrd_parts files = Some (hs, ds)"
    and img: "img = le32 (length files) @ hs @ ds" and cnt: "length files < 4294967296"
    by (auto simp: make_initrd_def pack_u32_def bind_eq_Some_conv split: if_splits)
  have hs: "length hs = 36 * length files" by (rule initrd_parts_length [OF parts])
  have l4: "length (le32 k) = 4" for k by (simp add: le32_def)
  have "length img = 4 + (length hs + length ds)" by (simp add: img l4)
  then have "bytes_at m base 4 @ bytes_at m (base + of_nat 4) (length hs)
      @ bytes_at m (base + of_nat 4 + of_nat (length hs)) (length ds) = le32 (length files) @ hs @ ds"
    using assms(2) unfolding img by (simp only: bytes_at_add)
  then have b: "bytes_at m base 4 = le32 (length files)" "bytes_at m (base + 4) (length hs) = hs"
    "bytes_at m (base + 4 + of_nat (length hs)) (length ds) = ds"
    using l4 by (simp_all add: append_eq_append_conv)
  have n: "load_u32 m base = of_nat (length files)" by (rule load_le32 [OF b(1) cnt])
  have dp: "base + 4 + (of_nat (length files) * 36 :: u32) = base + 4 + of_nat (length hs)"
    by (simp add: hs mult.commute)
  let ?dp = "base + 4 + of_nat (length hs)"
  have get: "initrd_get_file m name sz (initrd_init m base d)
      = initrd_scan (length files) m name (base + 4) ?dp sz"
  proof (cases files)
    case Nil
    then show ?thesis by (simp add: initrd_get_file_def initrd_init_def n)
  next
    case (Cons f fs)
    then have "(of_nat (length files) :: u32) \<noteq> 0"
      using cnt unat_of_nat_small [OF cnt] by (metis length_0_conv list.distinct(1) unat_0)
    moreover have "base \<noteq> 0" using assms(3) by auto
    ultimately show ?thesis
      using assms(6) by (simp add: initrd_get_file_def initrd_init_def n dp unat_of_nat_small cnt)
  qed
  note scan = initrd_scan_finds [OF parts b(2) assms(5,7), of ?dp sz]
  show ?thesis
  proof (cases "find_file files key")
    case None
    then show ?thesis using scan by (simp add: get)
  next
    case (Some r)
    then obtain off c where r: "find_file files key = Some (off, c)" by (cases r) auto
    note fd = find_file_data [OF parts r]
    have "bytes_at m (?dp + of_nat off) (length c) = c"
      using bytes_at_slice [of off "length c" "length ds" m ?dp] fd b(3) by simp
    moreover have "?dp + of_nat off \<noteq> 0"
    proof -
      have "?dp + of_nat off = base + of_nat (4 + length hs + off)" by simp
      moreover have "unat base + (4 + length hs + off) < 4294967296"
        using fd assms(4) by (cases c) (simp_all add: img l4)
      ultimately have "unat (?dp + of_nat off) = unat base + (4 + length hs + off)"
        by (simp only: unat_add_small unat_of_nat_small)
      then show ?thesis using assms(3) by auto
    qed
    ultimately show ?thesis using scan by (simp add: get r)
  qed
qed

theorem initrd_roundtrip_witness:
  "\<exists>img p. make_initrd [([97], [104, 13, 10]), ([98], [105])] = Some img
     \<and> initrd_get_file (store_bytes (store_bytes (\<lambda>_. 0) 0x1000 img) 0x10 [98, 0]) 0x10 0
         (initrd_init (store_bytes (store_bytes (\<lambda>_. 0) 0x1000 img) 0x10 [98, 0]) 0x1000
           \<lparr>n_files = 0, initrd_base = 0\<rparr>) = (p, 2)
     \<and> bytes_at (store_bytes (store_bytes (\<lambda>_. 0) 0x1000 img) 0x10 [98, 0]) p 2 = [105, 10]"
proof -
  let ?fs = "[([97], [104, 13, 10]), ([98], [105])] :: host_file list"
  define img where "img = the (make_initrd ?fs)"
  have img: "make_initrd ?fs = Some img" "length img = 80"
    unfolding img_def
    by (simp_all add: make_initrd_def pack_u32_def encode_name_def pad_name_def file_data_def le32_def)
  define m where "m = store_bytes (store_bytes (\<lambda>_. 0) 0x1000 img) 0x10 [98, 0]"
  have name: "cstr_at m 0x10 [98]"
    by (simp add: m_def cstr_at_def bytes_at_def store_bytes_def in_region_def upt_rec)
  have "store_bytes (\<lambda>_. 0) 0x1000 img (0x1000 + of_nat i) = m (0x1000 + of_nat i)" if "i < 80" for i
  proof -
    have "(0x1000 + of_nat i - 0x10 :: u32) = of_nat (4080 + i)" by simp
    then have "unat (0x1000 + of_nat i - 0x10 :: u32) = 4080 + i"
      using that by (simp only: unat_of_nat_small)
    then show ?thesis by (simp add: m_def store_bytes_def in_region_def)
  qed
  then have "bytes_at m 0x1000 80 = bytes_at (store_bytes (\<lambda>_. 0) 0x1000 img) 0x1000 80"
    by (intro bytes_at_cong) (rule sym)
  then have at: "bytes_at m 0x1000 (length img) = img"
    using bytes_at_store_bytes [of img "\<lambda>_. 0" "0x1000"] img(2) by simp
  have ff: "find_file ?fs [98] = Some (2, [105, 10])"
    by (simp add: encode_name_def file_data_def)
  have "\<exists>p. initrd_get_file m 0x10 0 (initrd_init m 0x1000 \<lparr>n_files = 0, initrd_base = 0\<rparr>)
      = (p, of_nat (length [105, 10 :: u8])) \<and> p \<noteq> 0 \<and> bytes_at m p (length [105, 10 :: u8]) = [105, 10]"
    using initrd_roundtrip [OF img(1) at _ _ name, of 0 "\<lparr>n_files = 0, initrd_base = 0\<rparr>"]
    unfolding ff img(2) by simp
  then show ?thesis using img(1) unfolding m_def by (auto simp: numeral_2_eq_2)
qed

end
