(* ===== verification/Hal.thy ===== *)
theory Hal
  imports Keyboard "HOL-Library.Monad_Syntax"
begin

text \<open>
  The host layer between the kernel and MicroPython, \<open>kernel/python/nexus_hal.c\<close> and
  \<open>mphalport.h\<close>: character input from keyboard or serial line, console output, the tick
  clock, and the line editor with its command history that feeds the interpreter loop.

  An \<open>option\<close> result is \<open>None\<close> where the code waits for a device for ever; an access
  outside an array is the value \<open>Out_of_bounds\<close>, so that its absence is a theorem.
\<close>

datatype 'a access = Ok 'a | Out_of_bounds

abbreviation (input) HISTORY_SIZE :: nat where "HISTORY_SIZE \<equiv> 10"

record hal = kbd +
  cmd_history :: "u8 list list"
  history_count :: nat
  history_current :: nat

section \<open>Characters and time\<close>

text \<open>The result is the \<open>int\<close> of the C function: a keyboard byte unsigned, a serial one signed.\<close>

partial_function (option) mp_hal_stdin_rx_chr ::
  "('a kbd_scheme \<Rightarrow> 'a kbd_scheme) \<Rightarrow> 'a kbd_scheme \<Rightarrow> (int \<times> 'a kbd_scheme) option" where
  "mp_hal_stdin_rx_chr hlt s =
     (if keyboard_has_data s then do { (c, s) \<leftarrow> keyboard_getc hlt s; Some (uint c, s) }
      else let (v, s) = serial_has_data s
           in if v \<noteq> 0 then do { (c, s) \<leftarrow> serial_getc s; Some (if c = 13 then 10 else sint c, s) }
              else mp_hal_stdin_rx_chr hlt (hlt s))"

definition mp_hal_stdout_tx_strn :: "u8 list \<Rightarrow> 'a vga_scheme \<Rightarrow> (nat \<times> 'a vga_scheme) option" where
  "mp_hal_stdout_tx_strn str s = do { s \<leftarrow> terminal_write str s; Some (length str, s) }"

fun mp_hal_stdout_tx_strn_cooked :: "u8 list \<Rightarrow> 'a vga_scheme \<Rightarrow> 'a vga_scheme option" where
  "mp_hal_stdout_tx_strn_cooked [] s = Some s"
| "mp_hal_stdout_tx_strn_cooked (c # cs) s = do {
     s \<leftarrow> (if c = 10 then terminal_putchar 13 s else Some s);
     s \<leftarrow> terminal_putchar c s;
     mp_hal_stdout_tx_strn_cooked cs s }"

definition mp_hal_ticks_ms :: "'a intr_scheme \<Rightarrow> u32" where
  "mp_hal_ticks_ms s = timer_get_ticks s"

partial_function (option) delay_loop ::
  "('a intr_scheme \<Rightarrow> 'a intr_scheme) \<Rightarrow> u32 \<Rightarrow> u32 \<Rightarrow> 'a intr_scheme \<Rightarrow> 'a intr_scheme option" where
  "delay_loop hlt start ms s =
     (if timer_get_ticks s - start < ms then delay_loop hlt start ms (hlt s) else Some s)"

definition mp_hal_delay_ms ::
  "('a intr_scheme \<Rightarrow> 'a intr_scheme) \<Rightarrow> u32 \<Rightarrow> 'a intr_scheme \<Rightarrow> 'a intr_scheme option" where
  "mp_hal_delay_ms hlt ms s = delay_loop hlt (timer_get_ticks s) ms s"

section \<open>The line editor\<close>

text \<open>The locals of \<open>nexus_readline\<close>; \<open>line\<close> is the caller's array.\<close>

record editor =
  line :: "u8 list"
  pos :: nat
  esc_state :: nat
  h_ptr :: nat

fun erase_line :: "nat \<Rightarrow> 'a vga_scheme \<Rightarrow> 'a vga_scheme option" where
  "erase_line 0 s = Some s"
| "erase_line (Suc i) s = do { s \<leftarrow> terminal_putchar 8 s; erase_line i s }"

text \<open>The copy loop of a recalled entry; the first argument is the rest of \<open>cmd_history[h_ptr]\<close>.\<close>

fun recall_entry ::
  "u8 list \<Rightarrow> u8 list \<Rightarrow> nat \<Rightarrow> 'a vga_scheme \<Rightarrow> (u8 list \<times> nat \<times> 'a vga_scheme) access option" where
  "recall_entry [] l i s = Some Out_of_bounds"
| "recall_entry (c # cs) l i s =
     (if c = 0 then Some (Ok (l, i, s))
      else if i < length l then do { s \<leftarrow> terminal_putchar c s; recall_entry cs (l[i := c]) (Suc i) s }
      else Some Out_of_bounds)"

definition show_history ::
  "nat \<Rightarrow> editor \<Rightarrow> 'a hal_scheme \<Rightarrow> (bool \<times> editor \<times> 'a hal_scheme) access option" where
  "show_history h e s = do {
     r \<leftarrow> recall_entry (cmd_history s ! h) (line e) 0 s;
     Some (case r of Out_of_bounds \<Rightarrow> Out_of_bounds
           | Ok (l, i, s) \<Rightarrow> Ok (False, e\<lparr>line := l, pos := i, esc_state := 0, h_ptr := h\<rparr>, s)) }"

text \<open>One iteration of the editor's loop on the character read; \<open>True\<close> is the \<open>break\<close>.\<close>

definition readline_char ::
  "u8 \<Rightarrow> editor \<Rightarrow> 'a hal_scheme \<Rightarrow> (bool \<times> editor \<times> 'a hal_scheme) access option" where
  "readline_char c e s =
     (if esc_state e = 0 then
        if c = 0x1B then Some (Ok (False, e\<lparr>esc_state := 1\<rparr>, s))
        else if c = 10 \<or> c = 13 then
          (if pos e < length (line e) then do {
             s \<leftarrow> terminal_putchar 10 s;
             Some (Ok (True, e\<lparr>line := (line e)[pos e := 0]\<rparr>, s)) }
           else Some Out_of_bounds)
        else if (c = 8 \<or> c = 127) \<and> 0 < pos e then do {
          s \<leftarrow> terminal_putchar 8 s;
          Some (Ok (False, e\<lparr>pos := pos e - 1\<rparr>, s)) }
        else if 32 \<le> c \<and> c \<le> 126 then
          (if pos e < length (line e) then do {
             s \<leftarrow> terminal_putchar c s;
             Some (Ok (False, e\<lparr>line := (line e)[pos e := c], pos := pos e + 1\<rparr>, s)) }
           else Some Out_of_bounds)
        else Some (Ok (False, e, s))
      else if esc_state e = 1 then
        Some (Ok (False, e\<lparr>esc_state := (if c = 0x5B then 2 else 0)\<rparr>, s))
      else if c = 0x41 then
        (if 0 < history_count s then do {
           s \<leftarrow> erase_line (pos e) s;
           show_history ((h_ptr e + HISTORY_SIZE - 1) mod HISTORY_SIZE) e s }
         else Some (Ok (False, e\<lparr>esc_state := 0\<rparr>, s)))
      else if c = 0x42 then do {
        s \<leftarrow> erase_line (pos e) s;
        if 0 < history_count s then show_history ((h_ptr e + 1) mod HISTORY_SIZE) e s
        else Some (Ok (False, e\<lparr>pos := 0, esc_state := 0\<rparr>, s)) }
      else Some (Ok (False, e\<lparr>esc_state := 0\<rparr>, s)))"

partial_function (option) readline_loop ::
  "('a hal_scheme \<Rightarrow> (int \<times> 'a hal_scheme) option) \<Rightarrow> int \<Rightarrow> editor \<Rightarrow> 'a hal_scheme
    \<Rightarrow> (editor \<times> 'a hal_scheme) access option" where
  "readline_loop rx max_len e s =
     (if int (pos e) < max_len - 1 then do {
        (c, s) \<leftarrow> rx s;
        r \<leftarrow> readline_char (word_of_int c) e s;
        (case r of Out_of_bounds \<Rightarrow> Some Out_of_bounds
         | Ok (stop, e, s) \<Rightarrow> if stop then Some (Ok (e, s)) else readline_loop rx max_len e s) }
      else Some (Ok (e, s)))"

definition add_history :: "editor \<Rightarrow> 'a hal_scheme \<Rightarrow> (u8 list \<times> 'a hal_scheme) access" where
  "add_history e s =
     (if pos e = 0 then Ok (line e, s)
      else if length (line e) < 256 then Out_of_bounds
      else Ok (line e, s\<lparr>cmd_history := (cmd_history s)[history_current s := take 256 (line e)],
             history_current := (history_current s + 1) mod HISTORY_SIZE,
             history_count := (if history_count s < HISTORY_SIZE then history_count s + 1
                               else history_count s)\<rparr>))"

definition nexus_readline ::
  "('a hal_scheme \<Rightarrow> (int \<times> 'a hal_scheme) option) \<Rightarrow> u8 list \<Rightarrow> int \<Rightarrow> 'a hal_scheme
    \<Rightarrow> (u8 list \<times> 'a hal_scheme) access option" where
  "nexus_readline rx buf max_len s = do {
     r \<leftarrow> readline_loop rx max_len \<lparr>line = buf, pos = 0, esc_state = 0, h_ptr = history_current s\<rparr> s;
     Some (case r of Out_of_bounds \<Rightarrow> Out_of_bounds | Ok (e, s) \<Rightarrow> add_history e s) }"

section \<open>The interpreter loop\<close>

text \<open>
  One turn of the loop in \<open>start_nexus_python\<close>: prompt, read a line, hand it with a newline to
  the interpreter.  \<open>exec\<close> is the MicroPython call that parses and runs the buffer,
  \<open>exec_buf\<close> has 260 bytes; \<open>copy_line\<close> is its copy loop.
\<close>

fun copy_line :: "u8 list \<Rightarrow> u8 list \<Rightarrow> u8 list access" where
  "copy_line [] buf = Out_of_bounds"
| "copy_line (c # cs) buf = (if c = 0 then Ok buf else copy_line cs (buf @ [c]))"

definition repl_turn ::
  "('a hal_scheme \<Rightarrow> (int \<times> 'a hal_scheme) option) \<Rightarrow> (u8 list \<Rightarrow> 'a hal_scheme \<Rightarrow> 'a hal_scheme option)
    \<Rightarrow> u8 list \<Rightarrow> 'a hal_scheme \<Rightarrow> (u8 list \<times> 'a hal_scheme) access option" where
  "repl_turn rx exec buf s = do {
     s \<leftarrow> terminal_writestring [62, 62, 62, 32] s;
     r \<leftarrow> nexus_readline rx buf 256 s;
     (case r of Out_of_bounds \<Rightarrow> Some Out_of_bounds
      | Ok (l, s) \<Rightarrow>
          if l ! 0 = 0 then Some (Ok (l, s))
          else (case copy_line l [] of Out_of_bounds \<Rightarrow> Some Out_of_bounds
                | Ok b \<Rightarrow> do { s \<leftarrow> exec (b @ [10, 0]) s; Some (Ok (l, s)) })) }"

section \<open>The console keeps everything else\<close>

definition con_ready :: "'a vga_scheme \<Rightarrow> bool" where
  "con_ready s \<longleftrightarrow> vga_ok s \<and> uart_live s"

lemma terminal_place_more: "vga.more (terminal_place c s) = vga.more s"
  by (simp add: terminal_place_def terminal_putentryat_def Let_def)

lemma putchar_ready:
  assumes "con_ready s"
  shows "\<exists>s'. terminal_putchar c s = Some s' \<and> con_ready s' \<and> vga.more s' = vga.more s"
proof -
  obtain i where i: "dev_rd s 0x3FD \<le> i" "dev_in s 0x3FD i AND 0x20 \<noteq> 0"
    using assms unfolding con_ready_def uart_live_def by blast
  from serial_wait_empty_returns [OF i(2,1)] obtain k
    where k: "serial_wait_empty s = Some (s\<lparr>dev_rd := (dev_rd s)(0x3FD := k)\<rparr>)" ..
  obtain s' where s': "terminal_putchar c s = Some s'" "vga_ok s'" "uart_live s'"
    using terminal_putchar_effect [of s c] assms unfolding con_ready_def by blast
  have "vga.more s' = vga.more s"
    using s'(1) by (auto simp: terminal_putchar_def k Let_def update_cursor_def outb_def
        terminal_scroll_if_full_def terminal_scroll_def terminal_place_more)
  then show ?thesis using s' by (simp add: con_ready_def)
qed

lemma vga_more_kbd:
  assumes "vga.more s' = vga.more (s :: 'a kbd_scheme)"
  shows "kbd_contents s' = kbd_contents s" "kbd_ok s' = kbd_ok s" "keyboard_has_data s' = keyboard_has_data s"
  using assms by (cases s, cases s', simp add: kbd_contents_def kbd_ok_def keyboard_has_data_def)+

definition hist_same :: "'a hal_scheme \<Rightarrow> 'a hal_scheme \<Rightarrow> bool" where
  "hist_same s s' \<longleftrightarrow> cmd_history s' = cmd_history s \<and> history_count s' = history_count s
     \<and> history_current s' = history_current s"

lemma vga_more_hist: "vga.more s' = vga.more (s :: 'a hal_scheme) \<Longrightarrow> hist_same s s'"
  by (cases s, cases s', simp add: hist_same_def)

lemma hist_same_trans: "hist_same s t \<Longrightarrow> hist_same t u \<Longrightarrow> hist_same s u"
  by (simp add: hist_same_def)

lemma erase_line_ready:
  "con_ready s \<Longrightarrow> \<exists>s'. erase_line n s = Some s' \<and> con_ready s' \<and> vga.more s' = vga.more s"
proof (induction n arbitrary: s)
  case 0
  then show ?case by simp
next
  case (Suc n)
  from putchar_ready [OF Suc.prems, of 8] obtain t
    where t: "terminal_putchar 8 s = Some t" "con_ready t" "vga.more t = vga.more s" by blast
  from Suc.IH [OF t(2)] show ?case using t by auto
qed

text \<open>Recalling a stored C string writes it at the current position, whatever follows it.\<close>

lemma recall_entry_ready:
  "con_ready s \<Longrightarrow> 0 \<notin> set xs \<Longrightarrow> i + length xs \<le> length l \<Longrightarrow>
     \<exists>s'. recall_entry (xs @ 0 # ys) l i s
        = Some (Ok (take i l @ xs @ drop (i + length xs) l, i + length xs, s'))
       \<and> con_ready s' \<and> vga.more s' = vga.more s"
proof (induction xs arbitrary: s l i)
  case Nil
  then show ?case by simp
next
  case (Cons x xs)
  from putchar_ready [OF Cons.prems(1), of x] obtain t
    where t: "terminal_putchar x s = Some t" "con_ready t" "vga.more t = vga.more s" by blast
  have "take (Suc i) (l[i := x]) = take i l @ [x]"
    using Cons.prems(3) by (simp add: take_Suc_conv_app_nth)
  then show ?case
    using Cons.IH [OF t(2), of "Suc i" "l[i := x]"] Cons.prems t by auto
qed

section \<open>Memory safety of the editor\<close>

definition hist_ok :: "'a hal_scheme \<Rightarrow> bool" where
  "hist_ok s \<longleftrightarrow> length (cmd_history s) = 10 \<and> history_current s < 10 \<and> history_count s \<le> 10
     \<and> (\<forall>row \<in> set (cmd_history s). length row = 256 \<and> row ! 255 = 0)"

definition edit_ok :: "editor \<Rightarrow> bool" where
  "edit_ok e \<longleftrightarrow> length (line e) = 256 \<and> line e ! 255 = 0 \<and> pos e \<le> 255 \<and> h_ptr e < 10"

lemma hist_same_ok: "hist_same s s' \<Longrightarrow> hist_ok s' = hist_ok s"
  by (simp add: hist_same_def hist_ok_def)

lemma row_split:
  assumes "length row = 256" "row ! 255 = (0 :: u8)"
  obtains xs ys where "row = xs @ 0 # ys" "0 \<notin> set xs" "length xs \<le> 255"
proof -
  have "(0 :: u8) \<in> set row" using assms nth_mem [of 255 row] by simp
  from split_list_first [OF this] obtain xs ys where "row = xs @ 0 # ys" "0 \<notin> set xs" by blast
  moreover from this have "length xs \<le> 255" using assms(1) by simp
  ultimately show ?thesis by (rule that)
qed

lemma show_history_safe:
  assumes "con_ready s" "hist_ok s" "edit_ok e" "h < 10"
  shows "\<exists>e' s'. show_history h e s = Some (Ok (False, e', s')) \<and> edit_ok e' \<and> con_ready s' \<and> hist_same s s'"
proof -
  have row: "length (cmd_history s ! h) = 256" "cmd_history s ! h ! 255 = 0"
    using assms(2,4) by (simp_all add: hist_ok_def)
  obtain xs ys where xs: "cmd_history s ! h = xs @ 0 # ys" "0 \<notin> set xs" "length xs \<le> 255"
    by (rule row_split [OF row])
  have e: "length (line e) = 256" "line e ! 255 = 0" using assms(3) by (simp_all add: edit_ok_def)
  from recall_entry_ready [OF assms(1) xs(2), of 0 "line e" ys] xs(3) e(1)
  obtain s' where s': "recall_entry (cmd_history s ! h) (line e) 0 s
      = Some (Ok (xs @ drop (length xs) (line e), length xs, s'))" "con_ready s'" "vga.more s' = vga.more s"
    by (auto simp: xs(1))
  have "edit_ok (e\<lparr>line := xs @ drop (length xs) (line e), pos := length xs, esc_state := 0, h_ptr := h\<rparr>)"
    using xs(3) e assms(4) by (auto simp: edit_ok_def nth_append)
  then show ?thesis using s' by (auto simp: show_history_def intro: vga_more_hist)
qed

lemma readline_char_safe:
  assumes "con_ready s" "hist_ok s" "edit_ok e" "pos e < 255"
  shows "\<exists>stop e' s'. readline_char c e s = Some (Ok (stop, e', s'))
    \<and> edit_ok e' \<and> con_ready s' \<and> hist_same s s'"
proof -
  have e: "pos e < length (line e)" "h_ptr e < 10" using assms(3,4) by (simp_all add: edit_ok_def)
  have upd: "edit_ok (e\<lparr>line := (line e)[pos e := v], pos := p\<rparr>)" "edit_ok (e\<lparr>line := (line e)[pos e := v]\<rparr>)"
    "edit_ok (e\<lparr>pos := p\<rparr>)" if "p \<le> 255" for v p
    using assms(3,4) that by (auto simp: edit_ok_def)
  have esc: "edit_ok (e\<lparr>esc_state := k\<rparr>)" "edit_ok (e\<lparr>pos := 0, esc_state := k\<rparr>)" for k
    using assms(3) by (simp_all add: edit_ok_def)
  note same = hist_same_def [of s s]
  have put: "\<exists>s'. terminal_putchar x s = Some s' \<and> con_ready s' \<and> hist_same s s'" for x
    using putchar_ready [OF assms(1)] vga_more_hist by blast
  from erase_line_ready [OF assms(1), of "pos e"] obtain t
    where t: "erase_line (pos e) s = Some t" "con_ready t" "hist_same s t" using vga_more_hist by blast
  have t_ok: "hist_ok t" "history_count t = history_count s"
    using t(3) assms(2) by (simp_all add: hist_same_ok) (simp add: hist_same_def)
  have recall: "\<exists>e' s'. show_history h e t = Some (Ok (False, e', s')) \<and> edit_ok e' \<and> con_ready s' \<and> hist_same s s'"
    if "h < 10" for h
    using show_history_safe [OF t(2) t_ok(1) assms(3) that] hist_same_trans [OF t(3)] by blast
  note e_ok = upd esc assms(1,3) same
  consider (esc) "esc_state e = 0" "c = 0x1B" | (enter) "esc_state e = 0" "c = 10 \<or> c = 13"
    | (rub) "esc_state e = 0" "c = 8 \<or> c = 127" "0 < pos e"
    | (char) "esc_state e = 0" "32 \<le> c" "c \<le> 126" "c \<noteq> 0x1B" "\<not> (c = 10 \<or> c = 13)" "\<not> ((c = 8 \<or> c = 127) \<and> 0 < pos e)"
    | (ignored) "esc_state e = 0" "c \<noteq> 0x1B" "\<not> (c = 10 \<or> c = 13)" "\<not> ((c = 8 \<or> c = 127) \<and> 0 < pos e)"
        "\<not> (32 \<le> c \<and> c \<le> 126)"
    | (bracket) "esc_state e = 1"
    | (up) "esc_state e \<noteq> 0" "esc_state e \<noteq> 1" "c = 0x41" | (down) "esc_state e \<noteq> 0" "esc_state e \<noteq> 1" "c = 0x42"
    | (other) "esc_state e \<noteq> 0" "esc_state e \<noteq> 1" "c \<noteq> 0x41" "c \<noteq> 0x42"
    by argo
  then show ?thesis
  proof cases
    case enter
    then show ?thesis using put [of 10] e(1) upd(2) [of "pos e"] assms(4) by (auto simp: readline_char_def)
  next
    case rub
    then show ?thesis using put [of 8] upd(3) [of "pos e - 1"] assms(4) by (auto simp: readline_char_def)
  next
    case char
    then show ?thesis using put [of c] e(1) upd(1) [of "pos e + 1" c] assms(4)
      by (simp only: readline_char_def if_True if_False simp_thms) auto
  next
    case up
    then show ?thesis using t t_ok recall [of "(h_ptr e + HISTORY_SIZE - 1) mod HISTORY_SIZE"] e_ok
      by (cases "0 < history_count s") (simp_all add: readline_char_def, blast+)
  next
    case down
    then show ?thesis using t t_ok recall [of "(h_ptr e + 1) mod HISTORY_SIZE"] e_ok
      by (cases "0 < history_count s") (simp_all add: readline_char_def, blast+)
  next
    case ignored
    have "readline_char c e s = Some (Ok (False, e, s))"
      by (subst readline_char_def) (simp only: ignored if_True if_False refl simp_thms)
    then show ?thesis using e_ok by auto
  qed (use e_ok in \<open>auto simp: readline_char_def\<close>)
qed

definition input_keeps :: "('a hal_scheme \<Rightarrow> (int \<times> 'a hal_scheme) option) \<Rightarrow> bool" where
  "input_keeps rx \<longleftrightarrow>
     (\<forall>s c s'. con_ready s \<longrightarrow> rx s = Some (c, s') \<longrightarrow> con_ready s' \<and> hist_same s s')"

lemmas readline_loop_induct = readline_loop.raw_induct [rotated, consumes 1, case_names step]

lemmas stdin_induct = mp_hal_stdin_rx_chr.raw_induct [rotated, consumes 1, case_names step]

lemmas serial_wait_data_induct = serial_wait_data.raw_induct [rotated, consumes 1, case_names step]

lemma readline_loop_safe:
  "readline_loop rx m e s = Some r \<Longrightarrow> input_keeps rx \<Longrightarrow> m = 256 \<Longrightarrow> con_ready s \<Longrightarrow> hist_ok s \<Longrightarrow> edit_ok e \<Longrightarrow>
     \<exists>e' s'. r = Ok (e', s') \<and> edit_ok e' \<and> con_ready s' \<and> hist_same s s'"
proof (induction rule: readline_loop_induct)
  case (step self rx m e s r)
  show ?case
  proof (cases "int (pos e) < m - 1")
    case False
    then show ?thesis using step by (auto simp: hist_same_def)
  next
    case True
    then obtain c t where c: "rx s = Some (c, t)"
      using step.hyps by (auto simp: bind_eq_Some_conv)
    then have t: "con_ready t" "hist_same s t" "hist_ok t"
      using step.prems(1,3,4) hist_same_ok [of s t] unfolding input_keeps_def by blast+
    obtain stop e' s' where r: "readline_char (word_of_int c) e t = Some (Ok (stop, e', s'))"
      "edit_ok e'" "con_ready s'" "hist_same t s'"
      using readline_char_safe [OF t(1,3) step.prems(5), of "word_of_int c"] True step.prems(2) by auto
    have hs: "hist_same s s'" "hist_ok s'"
      using hist_same_trans [OF t(2) r(4)] hist_same_ok [OF r(4)] t(3) by auto
    show ?thesis
    proof (cases stop)
      case True
      then show ?thesis using step.hyps \<open>int (pos e) < m - 1\<close> r hs by (auto simp: c)
    next
      case False
      then have "self rx m e' s' = Some r"
        using step.hyps \<open>int (pos e) < m - 1\<close> r by (simp add: c)
      from step.IH [OF this step.prems(1,2) r(3) hs(2) r(2)] show ?thesis
        using hist_same_trans [OF hs(1)] by blast
    qed
  qed
qed

lemma nexus_readline_safe:
  assumes "nexus_readline rx buf 256 s = Some r"
    and "input_keeps rx" "con_ready s" "hist_ok s" "length buf = 256" "buf ! 255 = 0"
  shows "\<exists>l s'. r = Ok (l, s') \<and> length l = 256 \<and> l ! 255 = 0 \<and> con_ready s' \<and> hist_ok s'"
proof -
  let ?e = "\<lparr>line = buf, pos = 0, esc_state = 0, h_ptr = history_current s\<rparr>"
  have e: "edit_ok ?e" using assms by (simp add: edit_ok_def hist_ok_def)
  obtain q where q: "readline_loop rx 256 ?e s = Some q"
    using assms(1) by (auto simp: nexus_readline_def bind_eq_Some_conv)
  from readline_loop_safe [OF q assms(2) refl assms(3,4) e] obtain e' s' where
    q': "q = Ok (e', s')" "edit_ok e'" "con_ready s'" "hist_same s s'" by blast
  have h: "hist_ok s'" using hist_same_ok [OF q'(4)] assms(4) by simp
  have r: "r = add_history e' s'" using assms(1) q q'(1) by (simp add: nexus_readline_def)
  have len: "length (line e') = 256" "line e' ! 255 = 0" using q'(2) by (simp_all add: edit_ok_def)
  show ?thesis
  proof (cases "pos e' = 0")
    case True
    then show ?thesis using r len q'(3) h by (simp add: add_history_def)
  next
    case False
    let ?t = "s'\<lparr>cmd_history := (cmd_history s')[history_current s' := line e'],
        history_current := (history_current s' + 1) mod HISTORY_SIZE,
        history_count := (if history_count s' < HISTORY_SIZE then history_count s' + 1 else history_count s')\<rparr>"
    have "hist_ok ?t"
      using h len by (auto simp: hist_ok_def dest!: set_update_subset_insert [THEN subsetD])
    moreover have "con_ready ?t" using q'(3) by (simp add: con_ready_def vga_ok_def uart_live_def)
    moreover have "r = Ok (line e', ?t)" using False r len by (simp add: add_history_def)
    ultimately show ?thesis using len by blast
  qed
qed

section \<open>The real input source\<close>

definition halt_keeps :: "('a hal_scheme \<Rightarrow> 'a hal_scheme) \<Rightarrow> bool" where
  "halt_keeps hlt \<longleftrightarrow> (\<forall>s. con_ready s \<longrightarrow> con_ready (hlt s) \<and> hist_same s (hlt s))"

definition machine_same :: "'a machine_scheme \<Rightarrow> 'a machine_scheme \<Rightarrow> bool" where
  "machine_same s s' \<longleftrightarrow> dev_in s' = dev_in s \<and> machine.more s' = machine.more s"

lemma machine_same_trans: "machine_same s t \<Longrightarrow> machine_same t u \<Longrightarrow> machine_same s u"
  by (simp add: machine_same_def)

lemma machine_same_inb: "machine_same s (snd (inb p s))"
  by (simp add: machine_same_def inb_def)

lemma machine_same_hal:
  "machine_same s (s' :: 'a hal_scheme) \<Longrightarrow> con_ready s' = con_ready s \<and> hist_same s s'
     \<and> kbd_contents s' = kbd_contents s \<and> kbd_ok s' = kbd_ok s"
  by (cases s, cases s')
    (simp add: machine_same_def con_ready_def vga_ok_def uart_live_def hist_same_def kbd_contents_def kbd_ok_def)

lemma serial_wait_data_same: "serial_wait_data s = Some s' \<Longrightarrow> machine_same s s'"
proof (induction rule: serial_wait_data_induct)
  case (step self s s')
  have "machine_same s (snd (serial_has_data s))"
    using machine_same_inb [of s "COM1_PORT + 5"] by (simp add: serial_has_data_def case_prod_beta)
  then show ?case
    using step.hyps step.IH [of "snd (serial_has_data s)" s'] machine_same_trans
    by (auto simp: case_prod_beta Let_def split: if_splits)
qed

lemma serial_getc_same: "serial_getc s = Some (c, s') \<Longrightarrow> machine_same s s'"
proof -
  assume "serial_getc s = Some (c, s')"
  then obtain t where "serial_wait_data s = Some t" "s' = snd (inb COM1_PORT t)"
    by (auto simp: serial_getc_def)
  then show ?thesis
    using machine_same_trans [OF serial_wait_data_same machine_same_inb] by blast
qed

lemma keyboard_getc_now: "keyboard_has_data s \<Longrightarrow> keyboard_getc hlt s = Some (keyboard_take s)"
  by (simp add: keyboard_getc.simps [of hlt s])

lemma keyboard_take_same:
  "con_ready s \<Longrightarrow> con_ready (snd (keyboard_take s)) \<and> hist_same s (snd (keyboard_take s))"
  by (simp add: keyboard_take_def con_ready_def vga_ok_def uart_live_def hist_same_def)

lemma stdin_keeps: "halt_keeps hlt \<Longrightarrow> input_keeps (mp_hal_stdin_rx_chr hlt)"
proof -
  have "mp_hal_stdin_rx_chr hlt s = Some y \<Longrightarrow> halt_keeps hlt \<longrightarrow> con_ready s \<longrightarrow>
      con_ready (snd y) \<and> hist_same s (snd y)" for hlt :: "'a hal_scheme \<Rightarrow> 'a hal_scheme" and s y
  proof (induction rule: stdin_induct)
    case (step self hlt s y)
    show ?case
    proof (cases "keyboard_has_data s")
      case True
      then show ?thesis using step.hyps keyboard_take_same [of s] by (auto simp: keyboard_getc_now case_prod_beta)
    next
      case False
      let ?t = "snd (serial_has_data s)"
      have t: "machine_same s ?t"
        using machine_same_inb [of s "COM1_PORT + 5"] by (simp add: serial_has_data_def case_prod_beta)
      show ?thesis
      proof (cases "fst (serial_has_data s) = 0")
        case True
        then have "self hlt (hlt ?t) = Some y" using step.hyps False by (simp add: case_prod_beta Let_def)
        from step.IH [OF this] show ?thesis
          using machine_same_hal [OF t] unfolding halt_keeps_def by (meson hist_same_trans)
      next
        case ne: False
        then obtain c u where "serial_getc ?t = Some (c, u)" "snd y = u"
          using step.hyps False by (auto simp: case_prod_beta Let_def bind_eq_Some_conv)
        then show ?thesis
          using machine_same_hal [OF machine_same_trans [OF t serial_getc_same]] by auto
      qed
    qed
  qed
  then show "halt_keeps hlt \<Longrightarrow> input_keeps (mp_hal_stdin_rx_chr hlt)"
    unfolding input_keeps_def by fastforce
qed

section \<open>Lines typed on the keyboard\<close>

text \<open>What the editor makes of a character: rubout, a printable character, or nothing.\<close>

definition edit_step :: "u8 list \<Rightarrow> u8 \<Rightarrow> u8 list" where
  "edit_step t c = (if c = 8 \<or> c = 127 then butlast t else if 32 \<le> c \<and> c \<le> 126 then t @ [c] else t)"

definition typed :: "u8 list \<Rightarrow> u8 list" where
  "typed cs = foldl edit_step [] cs"

definition c_string :: "u8 list \<Rightarrow> u8 list" where
  "c_string l = takeWhile (\<lambda>c. c \<noteq> 0) l"

lemma edit_step_props:
  "length (edit_step t c) \<le> Suc (length t)" "0 \<notin> set t \<Longrightarrow> 0 \<notin> set (edit_step t c)"
  by (auto simp: edit_step_def dest: in_set_butlastD)

lemma typed_props: "length (typed cs) \<le> length cs" "0 \<notin> set (typed cs)"
proof -
  have "length (foldl edit_step t cs) \<le> length t + length cs" for t
  proof (induction cs arbitrary: t)
    case (Cons c cs)
    from Cons [of "edit_step t c"] edit_step_props(1) [of t c] show ?case by simp
  qed simp
  then show "length (typed cs) \<le> length cs" by (metis add_0 list.size(3) typed_def)
  have "0 \<notin> set t \<Longrightarrow> 0 \<notin> set (foldl edit_step t cs)" for t
    by (induction cs arbitrary: t) (auto simp: edit_step_props)
  then show "0 \<notin> set (typed cs)" by (simp add: typed_def)
qed

lemma c_string_append: "0 \<notin> set xs \<Longrightarrow> c_string (xs @ 0 # ys) = xs"
  by (induction xs) (auto simp: c_string_def)

lemma stdin_queued:
  assumes "con_ready (s :: 'a hal_scheme)" "kbd_ok s" "kbd_contents s = c # cs"
  shows "\<exists>t. mp_hal_stdin_rx_chr hlt s = Some (uint c, t) \<and> con_ready t \<and> kbd_ok t
    \<and> kbd_contents t = cs \<and> hist_same s t"
proof -
  have d: "keyboard_has_data s" using kbd_empty_iff [OF assms(2)] assms(3) by simp
  note take = keyboard_take_contents [OF assms(2) d]
  have "mp_hal_stdin_rx_chr hlt s = Some (uint (fst (keyboard_take s)), snd (keyboard_take s))"
    by (simp add: mp_hal_stdin_rx_chr.simps [of hlt s] d keyboard_getc_now case_prod_beta)
  then show ?thesis using take assms(3) keyboard_take_same [OF assms(1)] by auto
qed

text \<open>One iteration on a queued character.\<close>

lemma readline_loop_key:
  assumes "con_ready (s :: 'a hal_scheme)" "kbd_ok s" "kbd_contents s = c # cs" "pos e < 255"
    and "\<And>t :: 'a hal_scheme. con_ready t \<Longrightarrow> hist_same s t \<Longrightarrow>
      \<exists>s'. readline_char c e t = Some (Ok (False, e', s')) \<and> con_ready s' \<and> vga.more s' = vga.more t"
  shows "\<exists>s'. readline_loop (mp_hal_stdin_rx_chr hlt) 256 e s = readline_loop (mp_hal_stdin_rx_chr hlt) 256 e' s'
    \<and> con_ready s' \<and> kbd_ok s' \<and> kbd_contents s' = cs \<and> hist_same s s'"
proof -
  from stdin_queued [OF assms(1-3), of hlt] obtain t where
    t: "mp_hal_stdin_rx_chr hlt s = Some (uint c, t)" "con_ready t" "kbd_ok t" "kbd_contents t = cs" "hist_same s t"
    by blast
  from assms(5) [OF t(2,5)] obtain s' where
    s': "readline_char c e t = Some (Ok (False, e', s'))" "con_ready s'" "vga.more s' = vga.more t" by blast
  have "readline_loop (mp_hal_stdin_rx_chr hlt) 256 e s = readline_loop (mp_hal_stdin_rx_chr hlt) 256 e' s'"
    using assms(4) by (subst readline_loop.simps) (simp add: t(1) s'(1))
  then show ?thesis
    using s' t vga_more_kbd [OF s'(3)] hist_same_trans [OF t(5) vga_more_hist [OF s'(3)]] by auto
qed

lemma readline_char_plain:
  assumes "esc_state e = 0" "c \<notin> {27, 10, 13}" "pos e < 255" "length (line e) = 256" "con_ready t"
  shows "\<exists>s'. readline_char c e t = Some (Ok (False,
      e\<lparr>line := (if 32 \<le> c \<and> c \<le> 126 then (line e)[pos e := c] else line e),
        pos := length (edit_step (take (pos e) (line e)) c)\<rparr>, s'))
    \<and> con_ready s' \<and> vga.more s' = vga.more t"
proof -
  have len: "length (take (pos e) (line e)) = pos e" using assms(3,4) by simp
  consider (rub) "c = 8 \<or> c = 127" "pos e \<noteq> 0" | (rub0) "c = 8 \<or> c = 127" "pos e = 0"
    | (char) "\<not> (c = 8 \<or> c = 127)" "32 \<le> c \<and> c \<le> 126" | (none) "\<not> (c = 8 \<or> c = 127)" "\<not> (32 \<le> c \<and> c \<le> 126)"
    by argo
  then show ?thesis
  proof cases
    case rub
    then show ?thesis
      using putchar_ready [OF assms(5), of 8] assms(1,3,4) len by (auto simp: readline_char_def edit_step_def)
  next
    case rub0
    then show ?thesis
      using assms(1,5) by (cases e) (auto simp: readline_char_def edit_step_def)
  next
    case char
    then show ?thesis
      using putchar_ready [OF assms(5), of c] assms len by (auto simp: readline_char_def edit_step_def)
  next
    case none
    have "readline_char c e t = Some (Ok (False, e, t))"
      using assms(1,2) none(1) by (subst readline_char_def) (simp add: none(2))
    moreover have "edit_step (take (pos e) (line e)) c = take (pos e) (line e)"
      by (simp only: edit_step_def none if_False)
    ultimately show ?thesis using assms(5) len by (cases e) (simp add: none(2))
  qed
qed

lemma readline_loop_chars:
  assumes "con_ready (s :: 'a hal_scheme)" "kbd_ok s" "kbd_contents s = cs @ rest" "\<forall>c \<in> set cs. c \<notin> {27, 10, 13}"
    and "esc_state e = 0" "pos e + length cs \<le> 255" "length (line e) = 256"
  shows "\<exists>e' s'. readline_loop (mp_hal_stdin_rx_chr hlt) 256 e s = readline_loop (mp_hal_stdin_rx_chr hlt) 256 e' s'
    \<and> con_ready s' \<and> kbd_ok s' \<and> kbd_contents s' = rest \<and> hist_same s s'
    \<and> esc_state e' = 0 \<and> h_ptr e' = h_ptr e \<and> length (line e') = 256 \<and> line e' ! 255 = line e ! 255
    \<and> take (pos e') (line e') = foldl edit_step (take (pos e) (line e)) cs
    \<and> pos e' \<le> pos e + length cs"
  using assms
proof (induction cs arbitrary: s e)
  case Nil
  then show ?case by (intro exI [of _ e] exI [of _ s]) (simp add: hist_same_def)
next
  case (Cons c cs)
  let ?t = "take (pos e) (line e)"
  let ?e = "e\<lparr>line := (if 32 \<le> c \<and> c \<le> 126 then (line e)[pos e := c] else line e),
        pos := length (edit_step ?t c)\<rparr>"
  have lt: "pos e < 255" using Cons.prems(6) by simp
  have len: "length ?t = pos e" using Cons.prems(7) lt by simp
  have c: "c \<notin> {27, 10, 13}" using Cons.prems(4) by simp
  have "\<exists>s'. readline_loop (mp_hal_stdin_rx_chr hlt) 256 e s = readline_loop (mp_hal_stdin_rx_chr hlt) 256 ?e s'
    \<and> con_ready s' \<and> kbd_ok s' \<and> kbd_contents s' = cs @ rest \<and> hist_same s s'"
  proof (rule readline_loop_key [OF Cons.prems(1,2) _ lt])
    show "kbd_contents s = c # (cs @ rest)" using Cons.prems(3) by simp
    show "\<exists>s'. readline_char c e t = Some (Ok (False, ?e, s')) \<and> con_ready s' \<and> vga.more s' = vga.more t"
      if "con_ready t" for t :: "'a hal_scheme"
      using that by (rule readline_char_plain [OF Cons.prems(5) c lt Cons.prems(7)])
  qed
  then obtain s1 where s1: "readline_loop (mp_hal_stdin_rx_chr hlt) 256 e s = readline_loop (mp_hal_stdin_rx_chr hlt) 256 ?e s1"
    "con_ready s1" "kbd_ok s1" "kbd_contents s1 = cs @ rest" "hist_same s s1" by blast
  have le: "length (edit_step ?t c) \<le> Suc (pos e)" using edit_step_props(1) [of ?t c] len by simp
  have tk: "take (length (edit_step ?t c)) (line ?e) = edit_step ?t c"
    using lt Cons.prems(7) len
    by (auto simp: edit_step_def take_Suc_conv_app_nth butlast_take)
  have "\<exists>e' s'. readline_loop (mp_hal_stdin_rx_chr hlt) 256 ?e s1 = readline_loop (mp_hal_stdin_rx_chr hlt) 256 e' s'
    \<and> con_ready s' \<and> kbd_ok s' \<and> kbd_contents s' = rest \<and> hist_same s1 s'
    \<and> esc_state e' = 0 \<and> h_ptr e' = h_ptr ?e \<and> length (line e') = 256 \<and> line e' ! 255 = line ?e ! 255
    \<and> take (pos e') (line e') = foldl edit_step (take (pos ?e) (line ?e)) cs
    \<and> pos e' \<le> pos ?e + length cs"
    using Cons.prems(4-7) le by (intro Cons.IH [OF s1(2-4)]) auto
  then obtain e' s' where e': "readline_loop (mp_hal_stdin_rx_chr hlt) 256 ?e s1 = readline_loop (mp_hal_stdin_rx_chr hlt) 256 e' s'"
    "con_ready s'" "kbd_ok s'" "kbd_contents s' = rest" "hist_same s1 s'" "esc_state e' = 0" "h_ptr e' = h_ptr e"
    "length (line e') = 256" "line e' ! 255 = line ?e ! 255"
    "take (pos e') (line e') = foldl edit_step (edit_step ?t c) cs" "pos e' \<le> length (edit_step ?t c) + length cs"
    using tk by auto
  have "line ?e ! 255 = line e ! 255" using lt by auto
  then show ?case
    using e' s1(1) hist_same_trans [OF s1(5) e'(5)] le by (intro exI [of _ e'] exI [of _ s']) auto
qed

lemma readline_loop_enter:
  assumes "con_ready (s :: 'a hal_scheme)" "kbd_ok s" "kbd_contents s = 10 # rest" "pos e < 255"
    and "esc_state e = 0" "length (line e) = 256"
  shows "\<exists>s'. readline_loop (mp_hal_stdin_rx_chr hlt) 256 e s = Some (Ok (e\<lparr>line := (line e)[pos e := 0]\<rparr>, s'))
    \<and> con_ready s' \<and> kbd_ok s' \<and> kbd_contents s' = rest \<and> hist_same s s'"
proof -
  from stdin_queued [OF assms(1-3), of hlt] obtain t where
    t: "mp_hal_stdin_rx_chr hlt s = Some (10, t)" "con_ready t" "kbd_ok t" "kbd_contents t = rest" "hist_same s t"
    by auto
  from putchar_ready [OF t(2), of 10] obtain s' where
    s': "terminal_putchar 10 t = Some s'" "con_ready s'" "vga.more s' = vga.more t" by blast
  have "readline_loop (mp_hal_stdin_rx_chr hlt) 256 e s = Some (Ok (e\<lparr>line := (line e)[pos e := 0]\<rparr>, s'))"
    using assms(4-6) by (subst readline_loop.simps) (simp add: t(1) readline_char_def s'(1))
  then show ?thesis
    using s' t vga_more_kbd [OF s'(3)] hist_same_trans [OF t(5) vga_more_hist [OF s'(3)]] by auto
qed

lemma nexus_readline_line:
  assumes "readline_loop rx 256 \<lparr>line = buf, pos = 0, esc_state = 0, h_ptr = history_current s\<rparr> s = Some (Ok (e, t))"
    and "length (line e) = 256" "con_ready t" "kbd_ok t"
  shows "\<exists>s'. nexus_readline rx buf 256 s = Some (Ok (line e, s')) \<and> con_ready s' \<and> kbd_ok s'
    \<and> kbd_contents s' = kbd_contents t
    \<and> cmd_history s' = (if pos e = 0 then cmd_history t else (cmd_history t)[history_current t := line e])
    \<and> history_current s' = (if pos e = 0 then history_current t else (history_current t + 1) mod HISTORY_SIZE)
    \<and> history_count s' = (if pos e = 0 \<or> HISTORY_SIZE \<le> history_count t then history_count t else history_count t + 1)"
proof (cases "pos e = 0")
  case True
  then show ?thesis using assms by (simp add: nexus_readline_def add_history_def)
next
  case False
  have "con_ready (t\<lparr>cmd_history := h, history_current := k, history_count := n\<rparr>) = con_ready t"
    "kbd_ok (t\<lparr>cmd_history := h, history_current := k, history_count := n\<rparr>) = kbd_ok t"
    "kbd_contents (t\<lparr>cmd_history := h, history_current := k, history_count := n\<rparr>) = kbd_contents t" for h k n
    by (simp_all add: con_ready_def vga_ok_def uart_live_def kbd_ok_def kbd_contents_def)
  then show ?thesis using assms False by (simp add: nexus_readline_def add_history_def)
qed

lemma readline_typed:
  assumes "con_ready (s :: 'a hal_scheme)" "kbd_ok s" "kbd_contents s = cs @ 10 # rest"
    and "\<forall>c \<in> set cs. c \<notin> {27, 10, 13}" "length buf = 256"
  shows "\<exists>l s'. nexus_readline (mp_hal_stdin_rx_chr hlt) buf 256 s = Some (Ok (l, s'))
    \<and> (\<exists>ys. l = typed cs @ 0 # ys) \<and> length l = 256 \<and> l ! 255 = buf ! 255 \<and> con_ready s' \<and> kbd_ok s' \<and> kbd_contents s' = rest
    \<and> cmd_history s' = (if typed cs = [] then cmd_history s else (cmd_history s)[history_current s := l])
    \<and> history_current s' = (if typed cs = [] then history_current s else (history_current s + 1) mod HISTORY_SIZE)
    \<and> history_count s' = (if typed cs = [] \<or> HISTORY_SIZE \<le> history_count s then history_count s else history_count s + 1)"
proof -
  let ?rx = "mp_hal_stdin_rx_chr hlt"
  let ?e = "\<lparr>line = buf, pos = 0, esc_state = 0, h_ptr = history_current s\<rparr>"
  have short: "length cs \<le> 254" using kbd_contents_bound [OF assms(2)] assms(3) by simp
  have len: "length (line ?e) = 256" "esc_state ?e = 0" "pos ?e + length cs \<le> 255"
    using assms(5) short by simp_all
  from readline_loop_chars [OF assms(1-4) len(2,3,1), of hlt] obtain e t where
    e: "readline_loop ?rx 256 ?e s = readline_loop ?rx 256 e t" "con_ready t" "kbd_ok t"
      "kbd_contents t = 10 # rest" "hist_same s t" "esc_state e = 0" "length (line e) = 256"
      "line e ! 255 = buf ! 255" "take (pos e) (line e) = typed cs" "pos e \<le> 255"
    using short by (auto simp: typed_def)
  have pos: "pos e = length (typed cs)" "pos e < 255"
    using e(7,10) typed_props(1) [of cs] short unfolding e(9) [symmetric] by simp_all
  from readline_loop_enter [OF e(2-4) pos(2) e(6,7), of hlt] obtain u where
    u: "readline_loop ?rx 256 ?e s = Some (Ok (e\<lparr>line := (line e)[pos e := 0]\<rparr>, u))"
      "con_ready u" "kbd_ok u" "kbd_contents u = rest" "hist_same t u" using e(1) by auto
  let ?l = "(line e)[pos e := 0]"
  have l: "?l = typed cs @ 0 # drop (Suc (pos e)) (line e)"
    using e(9) pos(2) e(7) by (simp add: upd_conv_take_nth_drop)
  have "hist_same s u" by (rule hist_same_trans [OF e(5) u(5)])
  moreover have "?l ! 255 = buf ! 255" using pos(2) e(8) by simp
  moreover have "\<exists>ys. ?l = typed cs @ 0 # ys" using l by blast
  moreover have "length ?l = 256" using e(7) by simp
  moreover from nexus_readline_line [OF u(1) _ u(2,3)] e(7) u(4) obtain v where
    "nexus_readline ?rx buf 256 s = Some (Ok (?l, v))" "con_ready v" "kbd_ok v" "kbd_contents v = rest"
    "cmd_history v = (if pos e = 0 then cmd_history u else (cmd_history u)[history_current u := ?l])"
    "history_current v = (if pos e = 0 then history_current u else (history_current u + 1) mod HISTORY_SIZE)"
    "history_count v = (if pos e = 0 \<or> HISTORY_SIZE \<le> history_count u then history_count u else history_count u + 1)"
    by auto
  moreover have "pos e = 0 \<longleftrightarrow> typed cs = []" using pos(1) by simp
  ultimately show ?thesis
    unfolding hist_same_def by - (rule exI [of _ ?l], rule exI [of _ v], simp)
qed

lemma readline_loop_up:
  assumes "con_ready (s :: 'a hal_scheme)" "kbd_ok s" "kbd_contents s = 27 # 91 # 65 # rest"
    and "esc_state e = 0" "pos e = 0" "length (line e) = 256" "0 < history_count s"
    and "cmd_history s ! ((h_ptr e + HISTORY_SIZE - 1) mod HISTORY_SIZE) = xs @ 0 # ys" "0 \<notin> set xs" "length xs \<le> 254"
  shows "\<exists>e' s'. readline_loop (mp_hal_stdin_rx_chr hlt) 256 e s = readline_loop (mp_hal_stdin_rx_chr hlt) 256 e' s'
    \<and> con_ready s' \<and> kbd_ok s' \<and> kbd_contents s' = rest \<and> hist_same s s' \<and> esc_state e' = 0
    \<and> length (line e') = 256 \<and> take (pos e') (line e') = xs \<and> pos e' = length xs"
proof -
  let ?rx = "mp_hal_stdin_rx_chr hlt"
  let ?h = "(h_ptr e + HISTORY_SIZE - 1) mod HISTORY_SIZE"
  let ?e1 = "e\<lparr>esc_state := 1\<rparr>" and ?e2 = "e\<lparr>esc_state := 2\<rparr>"
  let ?e3 = "e\<lparr>line := xs @ drop (length xs) (line e), pos := length xs, esc_state := 0, h_ptr := ?h\<rparr>"
  have lt: "pos e < 255" "pos ?e1 < 255" "pos ?e2 < 255" using assms(5) by simp_all
  have "\<exists>s'. readline_loop ?rx 256 e s = readline_loop ?rx 256 ?e1 s'
      \<and> con_ready s' \<and> kbd_ok s' \<and> kbd_contents s' = 91 # 65 # rest \<and> hist_same s s'"
    using assms(4) by (intro readline_loop_key [OF assms(1-3) lt(1)]) (simp add: readline_char_def)
  then obtain s1 where s1: "readline_loop ?rx 256 e s = readline_loop ?rx 256 ?e1 s1"
    "con_ready s1" "kbd_ok s1" "kbd_contents s1 = 91 # 65 # rest" "hist_same s s1" by blast
  have "\<exists>s'. readline_loop ?rx 256 ?e1 s1 = readline_loop ?rx 256 ?e2 s'
      \<and> con_ready s' \<and> kbd_ok s' \<and> kbd_contents s' = 65 # rest \<and> hist_same s1 s'"
    by (intro readline_loop_key [OF s1(2-4) lt(2)]) (simp add: readline_char_def)
  then obtain s2 where s2: "readline_loop ?rx 256 ?e1 s1 = readline_loop ?rx 256 ?e2 s2"
    "con_ready s2" "kbd_ok s2" "kbd_contents s2 = 65 # rest" "hist_same s1 s2" by blast
  have same: "hist_same s s2" by (rule hist_same_trans [OF s1(5) s2(5)])
  have "\<exists>s'. readline_loop ?rx 256 ?e2 s2 = readline_loop ?rx 256 ?e3 s'
      \<and> con_ready s' \<and> kbd_ok s' \<and> kbd_contents s' = rest \<and> hist_same s2 s'"
  proof (rule readline_loop_key [OF s2(2-4) lt(3)])
    fix t :: "'a hal_scheme"
    assume t: "con_ready t" "hist_same s2 t"
    have h: "history_count t = history_count s" "cmd_history t = cmd_history s"
      using same t(2) by (simp_all add: hist_same_def)
    show "\<exists>s'. readline_char 65 ?e2 t = Some (Ok (False, ?e3, s')) \<and> con_ready s' \<and> vga.more s' = vga.more t"
      using recall_entry_ready [OF t(1) assms(9), of 0 "line e" ys] assms(5-8,10)
      by (auto simp: readline_char_def show_history_def h)
  qed
  then obtain s3 where s3: "readline_loop ?rx 256 ?e2 s2 = readline_loop ?rx 256 ?e3 s3"
    "con_ready s3" "kbd_ok s3" "kbd_contents s3 = rest" "hist_same s2 s3" by blast
  show ?thesis
    using s1(1) s2(1) s3 hist_same_trans [OF same s3(5)] assms(6,10)
    by (intro exI [of _ ?e3] exI [of _ s3]) simp
qed

lemma readline_recalled:
  assumes "con_ready (s :: 'a hal_scheme)" "kbd_ok s" "kbd_contents s = 27 # 91 # 65 # 10 # rest" "length buf = 256"
    and "0 < history_count s" "history_current s < 10"
    and "cmd_history s ! ((history_current s + 9) mod HISTORY_SIZE) = xs @ 0 # ys" "0 \<notin> set xs" "length xs \<le> 254"
  shows "\<exists>l s'. nexus_readline (mp_hal_stdin_rx_chr hlt) buf 256 s = Some (Ok (l, s'))
    \<and> (\<exists>ys. l = xs @ 0 # ys) \<and> kbd_contents s' = rest"
proof -
  let ?rx = "mp_hal_stdin_rx_chr hlt"
  let ?e = "\<lparr>line = buf, pos = 0, esc_state = 0, h_ptr = history_current s\<rparr>"
  have init: "esc_state ?e = 0" "pos ?e = 0" "length (line ?e) = 256"
    "cmd_history s ! ((h_ptr ?e + HISTORY_SIZE - 1) mod HISTORY_SIZE) = xs @ 0 # ys"
    using assms(4,7) by (simp_all add: add.commute)
  from readline_loop_up [OF assms(1-3) init(1-3) assms(5) init(4) assms(8,9), of hlt] obtain e t where
    e: "readline_loop ?rx 256 ?e s = readline_loop ?rx 256 e t" "con_ready t" "kbd_ok t" "kbd_contents t = 10 # rest"
      "esc_state e = 0" "length (line e) = 256" "take (pos e) (line e) = xs" "pos e = length xs" by blast
  have lt: "pos e < 255" using e(8) assms(9) by simp
  from readline_loop_enter [OF e(2-4) lt e(5,6), of hlt] obtain u where
    u: "readline_loop ?rx 256 ?e s = Some (Ok (e\<lparr>line := (line e)[pos e := 0]\<rparr>, u))"
      "con_ready u" "kbd_ok u" "kbd_contents u = rest" using e(1) by auto
  have "(line e)[pos e := 0] = xs @ 0 # drop (Suc (pos e)) (line e)"
    using e(6,7) lt by (simp add: upd_conv_take_nth_drop)
  moreover from nexus_readline_line [OF u(1) _ u(2,3)] e(6) u(4) obtain v where
    "nexus_readline ?rx buf 256 s = Some (Ok ((line e)[pos e := 0], v))" "kbd_contents v = rest"
    by auto
  ultimately show ?thesis by blast
qed

lemma readline_full_line:
  assumes "con_ready (s :: 'a hal_scheme)" "kbd_ok s" "kbd_contents s = cs" "length cs = 255"
    and "\<forall>c \<in> set cs. 32 \<le> c \<and> c \<le> 126" "length buf = 256"
  shows "\<exists>s'. nexus_readline (mp_hal_stdin_rx_chr hlt) buf 256 s = Some (Ok (cs @ [buf ! 255], s'))
    \<and> kbd_contents s' = [] \<and> cmd_history s' = (cmd_history s)[history_current s := cs @ [buf ! 255]]"
proof -
  let ?rx = "mp_hal_stdin_rx_chr hlt"
  let ?e = "\<lparr>line = buf, pos = 0, esc_state = 0, h_ptr = history_current s\<rparr>"
  have all: "foldl edit_step t cs = t @ cs" for t
    using assms(5)
  proof (induction cs arbitrary: t)
    case (Cons c cs)
    then have "c \<noteq> 8" "c \<noteq> 127" by auto
    then show ?case using Cons by (simp add: edit_step_def)
  qed simp
  have plain: "\<forall>c \<in> set cs. c \<notin> {27, 10, 13}" using assms(5) by auto
  have len: "length (line ?e) = 256" "esc_state ?e = 0" "pos ?e + length cs \<le> 255" "kbd_contents s = cs @ []"
    using assms(3,4,6) by simp_all
  from readline_loop_chars [OF assms(1,2) len(4) plain len(2,3,1), of hlt] obtain e t where
    e: "readline_loop ?rx 256 ?e s = readline_loop ?rx 256 e t" "con_ready t" "kbd_ok t" "kbd_contents t = []"
      "hist_same s t" "length (line e) = 256" "line e ! 255 = buf ! 255" "take (pos e) (line e) = cs" "pos e \<le> 255"
    using assms(4) by (auto simp: all)
  have pos: "pos e = 255" using e(6,9) assms(4) unfolding e(8) [symmetric] by simp
  then have "readline_loop ?rx 256 ?e s = Some (Ok (e, t))"
    using e(1) by (simp add: readline_loop.simps [of ?rx 256 e t])
  from nexus_readline_line [OF this e(6,2,3)] obtain s' where
    s': "nexus_readline ?rx buf 256 s = Some (Ok (line e, s'))" "kbd_contents s' = []"
      "cmd_history s' = (cmd_history t)[history_current t := line e]" using pos e(4) by auto
  have "line e = take 255 (line e) @ [line e ! 255]"
    using take_Suc_conv_app_nth [of 255 "line e"] e(6) by simp
  then have "line e = cs @ [buf ! 255]" using e(7,8) pos by simp
  then show ?thesis using s' e(5) by (simp add: hist_same_def)
qed

lemma terminal_write_ready:
  "con_ready s \<Longrightarrow> \<exists>s'. terminal_write cs s = Some s' \<and> con_ready s' \<and> vga.more s' = vga.more s"
proof (induction cs arbitrary: s)
  case Nil
  then show ?case by simp
next
  case (Cons c cs)
  from putchar_ready [OF Cons.prems, of c] obtain t
    where t: "terminal_putchar c s = Some t" "con_ready t" "vga.more t = vga.more s" by blast
  from Cons.IH [OF t(2)] show ?case using t by auto
qed

lemma copy_line_unterminated: "0 \<notin> set l \<Longrightarrow> copy_line l b = Out_of_bounds"
  by (induction l arbitrary: b) auto

lemma delay_loop_returns:
  assumes "\<And>s. timer_ticks (hlt s) = timer_ticks s + 1" "k \<le> unat ms"
  shows "delay_loop hlt (timer_ticks s) ms ((hlt ^^ k) s) = Some ((hlt ^^ unat ms) s)"
  using assms(2)
proof (induction "unat ms - k" arbitrary: k)
  case 0
  have ticks: "timer_ticks ((hlt ^^ k) s) = timer_ticks s + of_nat k" for k
    by (induction k) (simp_all add: assms(1))
  have "k = unat ms" using 0 by simp
  then have "\<not> (of_nat k :: u32) < ms" by simp
  then show ?case
    using 0 by (subst delay_loop.simps) (simp add: timer_get_ticks_def ticks)
next
  case (Suc d)
  have ticks: "timer_ticks ((hlt ^^ k) s) = timer_ticks s + of_nat k" for k
    by (induction k) (simp_all add: assms(1))
  have "k < unat ms" using Suc.hyps(2) by linarith
  then have "(of_nat k :: u32) < ms"
    using unat_of_nat_small [of k] u32_bound [of ms] by (simp add: word_less_nat_alt)
  moreover have "delay_loop hlt (timer_ticks s) ms ((hlt ^^ Suc k) s) = Some ((hlt ^^ unat ms) s)"
    using Suc by (intro Suc.hyps(1)) linarith+
  ultimately show ?case
    by (subst delay_loop.simps) (simp add: timer_get_ticks_def ticks)
qed

text \<open>A machine just booted, with bytes waiting in the keyboard buffer; \<open>hlt\<close> that serves nothing.\<close>

definition bss_hal :: "u8 list \<Rightarrow> hal" where
  "bss_hal cs = kbd.extend (bss_kbd\<lparr>kbd_buffer := cs @ replicate (256 - length cs) 0, kbd_buffer_head := length cs\<rparr>)
     \<lparr>cmd_history = replicate 10 (replicate 256 0), history_count = 0, history_current = 0\<rparr>"

lemma bss_hal_ready:
  "con_ready (bss_hal cs)" "hist_ok (bss_hal cs)" "length (cmd_history (bss_hal cs)) = 10"
  "history_current (bss_hal cs) = 0"
  by (simp_all add: bss_hal_def bss_kbd_def bss_intr_def kbd.defs intr.defs con_ready_def vga_ok_def
      uart_live_def hist_ok_def) auto

lemma bss_hal_queue:
  assumes "length cs < 256"
  shows "kbd_ok (bss_hal cs)" "kbd_contents (bss_hal cs) = cs"
proof -
  have f: "kbd_buffer (bss_hal cs) = cs @ replicate (256 - length cs) 0"
    "kbd_buffer_head (bss_hal cs) = length cs" "kbd_buffer_tail (bss_hal cs) = 0"
    by (simp_all add: bss_hal_def bss_kbd_def kbd.defs intr.defs)
  then show "kbd_ok (bss_hal cs)" using assms by (simp add: kbd_ok_def)
  have "map (\<lambda>i. (cs @ replicate (256 - length cs) 0) ! (i mod 256)) [0..<length cs] = cs"
    using assms by (intro nth_equalityI) (simp_all add: nth_append)
  then show "kbd_contents (bss_hal cs) = cs"
    using assms by (simp add: kbd_contents_def ring_contents_def f)
qed

lemma halt_keeps_id: "halt_keeps (\<lambda>s. s)"
  by (simp add: halt_keeps_def hist_same_def)

section \<open>Properties\<close>



text \<open>
  C9: typing a line: when the keyboard queue holds plain characters and then Enter, the editor
  returns with the buffer holding, as a C string, what the characters type (printable ones in
  order, each Backspace or Delete removing the last), consumes exactly those keys, and stores
  the line as the newest history entry unless it is empty.
\<close>

theorem readline_returns_typed_line:
  assumes "con_ready s" "kbd_ok s" "kbd_contents s = cs @ 10 # rest"
    and "\<forall>c \<in> set cs. c \<notin> {27, 10, 13}" "length buf = 256"
  shows "\<exists>l s'. nexus_readline (mp_hal_stdin_rx_chr hlt) buf 256 s = Some (Ok (l, s'))
    \<and> c_string l = typed cs \<and> kbd_contents s' = rest
    \<and> cmd_history s' = (if typed cs = [] then cmd_history s else (cmd_history s)[history_current s := l])"
proof -
  from readline_typed [OF assms, of hlt] obtain l s' ys where
    l: "nexus_readline (mp_hal_stdin_rx_chr hlt) buf 256 s = Some (Ok (l, s'))" "l = typed cs @ 0 # ys"
      "kbd_contents s' = rest"
      "cmd_history s' = (if typed cs = [] then cmd_history s else (cmd_history s)[history_current s := l])"
    by blast
  then show ?thesis using c_string_append [OF typed_props(2), of cs ys] by auto
qed

theorem readline_returns_typed_line_witness:
  "\<exists>l s'. nexus_readline (mp_hal_stdin_rx_chr (\<lambda>s. s)) (replicate 256 7) 256 (bss_hal [97, 98, 8, 99, 10]) = Some (Ok (l, s'))
    \<and> c_string l = [97, 99]"
proof -
  have q: "kbd_ok (bss_hal [97, 98, 8, 99, 10])" "kbd_contents (bss_hal [97, 98, 8, 99, 10]) = [97, 98, 8, 99] @ 10 # []"
    using bss_hal_queue [of "[97, 98, 8, 99, 10]"] by simp_all
  have "typed [97, 98, 8, 99] = [97, 99]" by (simp add: typed_def edit_step_def)
  then show ?thesis
    using readline_returns_typed_line [OF bss_hal_ready(1) q, of "replicate 256 7" "\<lambda>s. s"] by auto
qed

text \<open>
  Recalling history: a non-empty line typed and entered, followed by the Up key and Enter,
  makes the next call return the same line.
\<close>

theorem readline_up_recalls_last_line:
  assumes "con_ready s" "kbd_ok s" "kbd_contents s = cs @ 10 # 27 # 91 # 65 # 10 # rest"
    and "\<forall>c \<in> set cs. c \<notin> {27, 10, 13}" "typed cs \<noteq> []" "length buf = 256"
    and "length (cmd_history s) = 10" "history_current s < 10"
  shows "\<exists>l s' l' s''. nexus_readline (mp_hal_stdin_rx_chr hlt) buf 256 s = Some (Ok (l, s'))
    \<and> nexus_readline (mp_hal_stdin_rx_chr hlt) l 256 s' = Some (Ok (l', s''))
    \<and> c_string l = typed cs \<and> c_string l' = typed cs \<and> kbd_contents s'' = rest"
proof -
  from readline_typed [OF assms(1-4,6), of hlt] obtain l s' ys where
    l: "nexus_readline (mp_hal_stdin_rx_chr hlt) buf 256 s = Some (Ok (l, s'))" "l = typed cs @ 0 # ys" "length l = 256"
      "con_ready s'" "kbd_ok s'" "kbd_contents s' = 27 # 91 # 65 # 10 # rest"
      "cmd_history s' = (cmd_history s)[history_current s := l]"
      "history_current s' = (history_current s + 1) mod HISTORY_SIZE"
      "history_count s' = (if HISTORY_SIZE \<le> history_count s then history_count s else history_count s + 1)"
    using assms(5) by auto
  have "length cs \<le> 250" using kbd_contents_bound [OF assms(2)] assms(3) by simp
  then have short: "length (typed cs) \<le> 254" using typed_props(1) [of cs] by simp
  have cur: "(history_current s' + 9) mod HISTORY_SIZE = history_current s"
    using assms(8) unfolding l(8) by presburger
  have row: "cmd_history s' ! ((history_current s' + 9) mod HISTORY_SIZE) = typed cs @ 0 # ys"
    unfolding cur using assms(7,8) by (simp add: l(7) l(2))
  have bounds: "0 < history_count s'" "history_current s' < 10" using l(8,9) by auto
  from readline_recalled [OF l(4-6,3) bounds row typed_props(2) short, of hlt] obtain l' s'' zs where
    "nexus_readline (mp_hal_stdin_rx_chr hlt) l 256 s' = Some (Ok (l', s''))" "l' = typed cs @ 0 # zs"
    "kbd_contents s'' = rest" by blast
  then show ?thesis using l(1,2) c_string_append [OF typed_props(2)] by blast
qed

theorem readline_up_recalls_last_line_witness:
  "\<exists>l s' l' s''. nexus_readline (mp_hal_stdin_rx_chr (\<lambda>s. s)) (replicate 256 7) 256 (bss_hal [104, 105, 10, 27, 91, 65, 10]) = Some (Ok (l, s'))
    \<and> nexus_readline (mp_hal_stdin_rx_chr (\<lambda>s. s)) l 256 s' = Some (Ok (l', s'')) \<and> c_string l' = [104, 105]"
proof -
  let ?q = "[104, 105, 10, 27, 91, 65, 10] :: u8 list"
  have q: "kbd_ok (bss_hal ?q)" "kbd_contents (bss_hal ?q) = [104, 105] @ 10 # 27 # 91 # 65 # 10 # []"
    using bss_hal_queue [of ?q] by simp_all
  have "typed [104, 105] = [104, 105]" by (simp add: typed_def edit_step_def)
  then show ?thesis
    using readline_up_recalls_last_line [OF bss_hal_ready(1) q, of "replicate 256 7" "\<lambda>s. s"]
    by (auto simp: bss_hal_ready)
qed

text \<open>
  \<open>mp_hal_delay_ms\<close> returns after exactly \<open>ms\<close> timer interrupts, also when the 32-bit
  tick counter wraps around during the wait.
\<close>

theorem delay_ms_returns:
  assumes "\<And>s. timer_ticks (hlt s) = timer_ticks s + 1"
  shows "mp_hal_delay_ms hlt ms s = Some ((hlt ^^ unat ms) s)"
  using delay_loop_returns [OF assms, of 0 ms s] by (simp add: mp_hal_delay_ms_def timer_get_ticks_def)

theorem delay_ms_returns_witness:
  "mp_hal_delay_ms (\<lambda>s. s\<lparr>timer_ticks := timer_ticks s + 1\<rparr>) 3 (bss_intr\<lparr>timer_ticks := - 2\<rparr>)
     = Some (((\<lambda>s. s\<lparr>timer_ticks := timer_ticks s + 1\<rparr>) ^^ 3) (bss_intr\<lparr>timer_ticks := - 2\<rparr>))"
  using delay_ms_returns [of "\<lambda>s. s\<lparr>timer_ticks := timer_ticks s + 1\<rparr>" 3 "bss_intr\<lparr>timer_ticks := - 2\<rparr>"]
  by simp

text \<open>
  C27: the editor leaves its loop when the line is full without writing a NUL.  With 255
  printable characters typed and a last buffer byte that is not 0 (the array of
  \<open>start_nexus_python\<close> is never initialised), the line and its history entry have no
  terminator and the interpreter loop runs off the end of \<open>line\<close>.
\<close>

theorem repl_full_line_overruns:
  assumes "con_ready s" "kbd_ok s" "kbd_contents s = cs" "length cs = 255"
    and "\<forall>c \<in> set cs. 32 \<le> c \<and> c \<le> 126" "length buf = 256" "buf ! 255 \<noteq> 0"
  shows "repl_turn (mp_hal_stdin_rx_chr hlt) exec buf s = Some Out_of_bounds"
proof -
  from terminal_write_ready [OF assms(1), of "[62, 62, 62, 32]"] obtain t where
    t: "terminal_writestring [62, 62, 62, 32] s = Some t" "con_ready t" "vga.more t = vga.more s"
    by (auto simp: terminal_writestring_def)
  have q: "kbd_ok t" "kbd_contents t = cs" using vga_more_kbd [OF t(3)] assms(2,3) by simp_all
  have nz: "0 \<notin> set (cs @ [buf ! 255])" using assms(5,7) by auto
  have "(cs @ [buf ! 255]) ! 0 \<noteq> 0"
    using nz nth_mem [of 0 "cs @ [buf ! 255]"] assms(4) by (metis add_gr_0 length_append length_Cons zero_less_Suc)
  then show ?thesis
    using readline_full_line [OF t(2) q assms(4-6), of hlt] copy_line_unterminated [OF nz, of "[]"]
    by (auto simp: repl_turn_def t(1))
qed

theorem repl_full_line_overruns_witness:
  "repl_turn (mp_hal_stdin_rx_chr (\<lambda>s. s)) (\<lambda>b s. Some s) (replicate 256 1) (bss_hal (replicate 255 97))
     = Some Out_of_bounds"
  by (rule repl_full_line_overruns [OF bss_hal_ready(1) bss_hal_queue]) simp_all

end
