(* ===== verification/Kernel.thy ===== *)
theory Kernel
  imports Hal Bump Initrd
begin

text \<open>
  The boot sequence \<open>kernel_main\<close> of \<open>kernel/kernel.c\<close>: all drivers brought up in order,
  the RAM disk found through the multiboot information, then the Python layer.  The state is
  every global of the kernel.  Addresses fixed by the linker, the memory the boot loader
  prepared and \<open>start_nexus_python\<close> are parameters; \<open>None\<close> is a serial port that never
  becomes ready.
\<close>

record kernel = hal +
  kheap :: heap
  kdisk :: ramdisk
  iflag :: bool

record multiboot_info =
  mb_flags :: u32
  mem_lower :: u32
  mem_upper :: u32
  boot_device :: u32
  cmdline :: u32
  mods_count :: u32
  mods_addr :: u32

record multiboot_module =
  mod_start :: u32
  mod_end :: u32
  mod_string :: u32
  mod_reserved :: u32

definition load_multiboot_info :: "mem \<Rightarrow> u32 \<Rightarrow> multiboot_info" where
  "load_multiboot_info m p =
     \<lparr>mb_flags = load_u32 m p, mem_lower = load_u32 m (p + 4), mem_upper = load_u32 m (p + 8),
      boot_device = load_u32 m (p + 12), cmdline = load_u32 m (p + 16),
      mods_count = load_u32 m (p + 20), mods_addr = load_u32 m (p + 24)\<rparr>"

definition load_multiboot_module :: "mem \<Rightarrow> u32 \<Rightarrow> multiboot_module" where
  "load_multiboot_module m p =
     \<lparr>mod_start = load_u32 m p, mod_end = load_u32 m (p + 4), mod_string = load_u32 m (p + 8),
      mod_reserved = load_u32 m (p + 12)\<rparr>"

text \<open>Where the linker put the tables and stubs.\<close>

record layout =
  gdt_addr :: u32
  idt_addr :: u32
  isr_stub :: "nat \<Rightarrow> u32"
  irq_stub :: "nat \<Rightarrow> u32"

definition serial_line :: "string \<Rightarrow> 'a machine_scheme \<Rightarrow> 'a machine_scheme option" where
  "serial_line msg s = write_serial_string (map of_char msg @ [10]) s"

definition screen_line :: "string \<Rightarrow> 'a vga_scheme \<Rightarrow> 'a vga_scheme option" where
  "screen_line msg s = terminal_writestring (map of_char msg @ [10]) s"

definition boot_drivers :: "layout \<Rightarrow> mem \<Rightarrow> u32 \<Rightarrow> u32 \<Rightarrow> 'a kernel_scheme \<Rightarrow> 'a kernel_scheme option" where
  "boot_drivers lay m magic mbi s = do {
     let s = init_serial (terminal_initialize s);
     s \<leftarrow> serial_line ''SERIAL: Nexus OS Kernel Booting...'' s;
     s \<leftarrow> (if magic \<noteq> 0x2BADB002 then serial_line ''SERIAL: Error - Invalid Multiboot Magic'' s else Some s);
     s \<leftarrow> gdt_install (gdt_addr lay) s;
     s \<leftarrow> serial_line ''SERIAL: GDT Installed'' s;
     let s = s\<lparr>kheap := mem_initialize 0x200000 (4 * 1024 * 1024) (kheap s)\<rparr>;
     s \<leftarrow> serial_line ''SERIAL: Memory Initialized'' s;
     let info = load_multiboot_info m mbi;
     s \<leftarrow> (if 0 < mods_count info then do {
             let s = s\<lparr>kdisk := initrd_init m (mod_start (load_multiboot_module m (mods_addr info))) (kdisk s)\<rparr>;
             serial_line ''SERIAL: InitRD Initialized'' s }
           else serial_line ''SERIAL: No InitRD found!'' s);
     let s = idt_install (idt_addr lay) (isr_stub lay) (irq_stub lay) s;
     s \<leftarrow> serial_line ''SERIAL: IDT Installed'' s;
     let s = timer_install s;
     s \<leftarrow> serial_line ''SERIAL: Timer Installed'' s;
     let s = keyboard_install s;
     s \<leftarrow> serial_line ''SERIAL: Keyboard Installed'' s;
     Some (s\<lparr>iflag := True\<rparr>) }"

definition boot_banner :: "'a kernel_scheme \<Rightarrow> 'a kernel_scheme option" where
  "boot_banner s = do {
     s \<leftarrow> serial_line ''SERIAL: Interrupts Enabled'' s;
     s \<leftarrow> screen_line '' Nexus OS Kernel v0.1.0'' s;
     s \<leftarrow> screen_line '' ----------------------'' s;
     s \<leftarrow> serial_line ''SERIAL: Terminal Initialized'' s;
     let s = terminal_setcolor (vga_entry_color VGA_COLOR_WHITE VGA_COLOR_BLACK) s;
     s \<leftarrow> screen_line '' Core initialized successfully.'' s;
     s \<leftarrow> screen_line '' WSL Build System Active.'' s;
     s \<leftarrow> terminal_writestring (10 # map of_char '' Starting Nexus Project Layer...'' @ [10]) s;
     screen_line '' Initializing Python Environment...'' s }"

definition kernel_main ::
  "layout \<Rightarrow> mem \<Rightarrow> ('a kernel_scheme \<Rightarrow> 'a kernel_scheme option) \<Rightarrow> u32 \<Rightarrow> u32 \<Rightarrow> 'a kernel_scheme
    \<Rightarrow> 'a kernel_scheme option" where
  "kernel_main lay m start_nexus_python magic mbi s = do {
     s \<leftarrow> boot_drivers lay m magic mbi s;
     s \<leftarrow> boot_banner s;
     s \<leftarrow> start_nexus_python s;
     serial_line ''SERIAL: Core Initialized Successful'' s }"

section \<open>What boot establishes\<close>

text \<open>Serial output changes nothing but the device record.\<close>

lemma write_serial_string_live:
  assumes "uart_live s" "0 \<notin> set cs"
  shows "\<exists>s'. write_serial_string cs s = Some s' \<and> uart_live s' \<and> machine_same s s' \<and> com1_sent s' = com1_sent s @ cs"
  using assms
proof (induction cs arbitrary: s)
  case Nil
  then show ?case by (simp add: machine_same_def)
next
  case (Cons c cs)
  from write_serial_live [OF Cons.prems(1), of c] obtain k where
    k: "write_serial c s = Some (s\<lparr>dev_rd := (dev_rd s)(0x3FD := k), dev_out := dev_out s @ [(COM1_PORT, c)]\<rparr>)" ..
  let ?t = "s\<lparr>dev_rd := (dev_rd s)(0x3FD := k), dev_out := dev_out s @ [(COM1_PORT, c)]\<rparr>"
  have t: "uart_live ?t" "machine_same s ?t" "com1_sent ?t = com1_sent s @ [c]"
    using Cons.prems(1) by (simp_all add: uart_live_def machine_same_def com1_sent_def)
  have "0 \<notin> set cs" using Cons.prems(2) by simp
  from Cons.IH [OF t(1) this] obtain s' where
    "write_serial_string cs ?t = Some s'" "uart_live s'" "machine_same ?t s'" "com1_sent s' = com1_sent ?t @ cs" by blast
  then show ?case using t Cons.prems(2) machine_same_trans [OF t(2)] by (auto simp: k)
qed

definition log_line :: "string \<Rightarrow> u8 list" where
  "log_line msg = map of_char msg @ [10]"

definition c_text :: "string \<Rightarrow> bool" where
  "c_text msg \<longleftrightarrow> (0 :: u8) \<notin> set (map of_char msg)"

lemma serial_line_live:
  assumes "uart_live s" "c_text msg"
  shows "\<exists>s'. serial_line msg s = Some s' \<and> uart_live s' \<and> machine_same s s'
    \<and> com1_sent s' = com1_sent s @ log_line msg"
  using write_serial_string_live [OF assms(1), of "map of_char msg @ [10]"] assms(2)
  by (simp add: serial_line_def log_line_def c_text_def)

lemma machine_same_kernel:
  "machine_same s (s' :: 'a kernel_scheme) \<Longrightarrow>
     terminal_row s' = terminal_row s \<and> terminal_column s' = terminal_column s
     \<and> gdt s' = gdt s \<and> gdtr s' = gdtr s \<and> seg_code s' = seg_code s \<and> seg_data s' = seg_data s
     \<and> idt s' = idt s \<and> idtr s' = idtr s \<and> irq_handlers s' = irq_handlers s \<and> timer_ticks s' = timer_ticks s
     \<and> kbd_contents s' = kbd_contents s \<and> kbd_ok s' = kbd_ok s \<and> cmd_history s' = cmd_history s
     \<and> kheap s' = kheap s \<and> kdisk s' = kdisk s \<and> iflag s' = iflag s"
  by (cases s, cases s') (simp add: machine_same_def kbd_contents_def kbd_ok_def)

lemma vga_more_kernel:
  "vga.more s' = vga.more (s :: 'a kernel_scheme) \<Longrightarrow>
     gdt s' = gdt s \<and> gdtr s' = gdtr s \<and> seg_code s' = seg_code s \<and> seg_data s' = seg_data s
     \<and> idt s' = idt s \<and> idtr s' = idtr s \<and> irq_handlers s' = irq_handlers s \<and> timer_ticks s' = timer_ticks s
     \<and> kbd_contents s' = kbd_contents s \<and> kbd_ok s' = kbd_ok s \<and> cmd_history s' = cmd_history s
     \<and> kheap s' = kheap s \<and> kdisk s' = kdisk s \<and> iflag s' = iflag s"
  by (cases s, cases s') (simp add: kbd_contents_def kbd_ok_def)

text \<open>
  The state of the drivers, apart from the console: what \<open>drivers_up\<close> asks for survives
  every later write to the serial line and to the screen.
\<close>

definition gdt_up :: "layout \<Rightarrow> 'a segments_scheme \<Rightarrow> bool" where
  "gdt_up lay s \<longleftrightarrow>
     length (gdt s) = 3 \<and> gate_limit (gdt s ! 1) = 0xFFFFF \<and> access (gdt s ! 1) = 0x9A
     \<and> gate_limit (gdt s ! 2) = 0xFFFFF \<and> access (gdt s ! 2) = 0x92
     \<and> gdtr s = Some \<lparr>gp_limit = 23, gp_base = gdt_addr lay\<rparr> \<and> seg_code s = 8 \<and> seg_data s = 16"

definition heap_up :: "heap \<Rightarrow> bool" where
  "heap_up h \<longleftrightarrow> heap_invar h \<and> heap_pool h = {0x200000 ..< 0x600000} \<and> heap_taken h = {}"

definition drivers_up :: "layout \<Rightarrow> 'a kernel_scheme \<Rightarrow> bool" where
  "drivers_up lay s \<longleftrightarrow> gdt_up lay s
     \<and> (\<forall>v<256. gate_is (idt s ! v) (if v < 20 then isr_stub lay v
                                     else if 32 \<le> v \<and> v < 48 then irq_stub lay (v - 32) else 0))
     \<and> idtr s = Some \<lparr>ip_limit = 2047, ip_base = idt_addr lay\<rparr>
     \<and> irq_handlers s = [Some Timer_handler, Some Keyboard_handler] @ replicate 14 None
     \<and> heap_up (kheap s)"

lemma drivers_up_cong:
  "drivers_up lay s \<Longrightarrow> machine_same s s' \<Longrightarrow> drivers_up lay s'"
  "drivers_up lay s \<Longrightarrow> vga.more s' = vga.more s \<Longrightarrow> drivers_up lay s'"
  using machine_same_kernel [of s s'] vga_more_kernel [of s' s] by (auto simp: drivers_up_def gdt_up_def)

lemma boot_console:
  "uart_live s \<Longrightarrow> con_ready (init_serial (terminal_initialize s)) \<and> vga.more (init_serial (terminal_initialize s)) = vga.more s
     \<and> com1_sent (init_serial (terminal_initialize s)) = com1_sent s @ [3]"
  using terminal_initialize_ok [of s]
  by (simp add: con_ready_def vga_ok_def uart_live_def init_serial_def terminal_initialize_def terminal_clear_def
      update_cursor_def outb_def com1_sent_def Let_def)

lemma kernel_tables_more:
  "vga.more s' = vga.more (s :: 'a kernel_scheme) \<Longrightarrow>
     length (gdt s') = length (gdt s) \<and> length (idt s') = length (idt s) \<and> irq_handlers s' = irq_handlers s"
  using vga_more_kernel [of s' s] by simp

definition boot_log :: "bool \<Rightarrow> bool \<Rightarrow> u8 list" where
  "boot_log magic_ok disk = concat (map log_line
     ([''SERIAL: Nexus OS Kernel Booting...'']
      @ (if magic_ok then [] else [''SERIAL: Error - Invalid Multiboot Magic''])
      @ [''SERIAL: GDT Installed'', ''SERIAL: Memory Initialized'']
      @ [if disk then ''SERIAL: InitRD Initialized'' else ''SERIAL: No InitRD found!'']
      @ [''SERIAL: IDT Installed'', ''SERIAL: Timer Installed'', ''SERIAL: Keyboard Installed'']))"

definition step_ok :: "u8 list \<Rightarrow> 'a kernel_scheme \<Rightarrow> 'a kernel_scheme option \<Rightarrow> bool" where
  "step_ok out s r \<longleftrightarrow> (\<exists>s'. r = Some s' \<and> uart_live s' \<and> machine_same s s' \<and> com1_sent s' = com1_sent s @ out)"

lemma serial_line_step: "uart_live s \<Longrightarrow> c_text msg \<Longrightarrow> step_ok (log_line msg) s (serial_line msg s)"
  using serial_line_live by (auto simp: step_ok_def)

text \<open>The drivers' states are set by operations that leave the serial record of the others alone.\<close>

lemma driver_records [simp]:
  "uart_live (s\<lparr>kheap := h\<rparr>) = uart_live s" "com1_sent (s\<lparr>kheap := h\<rparr>) = com1_sent s"
  "uart_live (s\<lparr>kdisk := d\<rparr>) = uart_live s" "com1_sent (s\<lparr>kdisk := d\<rparr>) = com1_sent s"
  "uart_live (s\<lparr>iflag := b\<rparr>) = uart_live s" "com1_sent (s\<lparr>iflag := b\<rparr>) = com1_sent s"
  "uart_live (timer_install t) = uart_live t" "com1_sent (timer_install t) = com1_sent t"
  "uart_live (keyboard_install u) = uart_live u" "com1_sent (keyboard_install u) = com1_sent u"
  by (simp_all add: uart_live_def com1_sent_def timer_install_def keyboard_install_def
      irq_install_handler_def outb_def Let_def)

lemma idt_install_serial [simp]:
  assumes "length (idt s) = 256"
  shows "uart_live (idt_install addr isr irq s) = uart_live s" "com1_sent (idt_install addr isr irq s) = com1_sent s"
  using idt_install_result [OF assms, of addr isr irq]
  by (auto simp: uart_live_def com1_sent_def pic_remap_out)

lemma install_handlers:
  "length (irq_handlers s) = 16 \<Longrightarrow> \<forall>i\<in>{2..<16}. irq_handlers s ! i = None \<Longrightarrow>
     irq_handlers (keyboard_install (timer_install s)) = [Some Timer_handler, Some Keyboard_handler] @ replicate 14 None"
  by (intro nth_equalityI)
    (auto simp: keyboard_install_def timer_install_def irq_install_handler_def outb_def Let_def
      nth_append nth_Cons nth_list_update split: nat.split)

lemma kernel_heap_up: "heap_up (mem_initialize 0x200000 0x400000 h)"
  by (simp add: heap_up_def heap_invar_def heap_pool_def heap_taken_def mem_initialize_def)

lemma gdt_step:
  assumes "uart_live s" "length (gdt s) = 3"
  shows "\<exists>t. gdt_install (gdt_addr lay) s = Some t \<and> uart_live t \<and> com1_sent t = com1_sent s
    \<and> gdt_up lay t \<and> idt t = idt s \<and> irq_handlers t = irq_handlers s \<and> kdisk t = kdisk (s :: 'a kernel_scheme)
    \<and> kbd_contents t = kbd_contents s \<and> kbd_ok t = kbd_ok s \<and> con_ready t = con_ready s"
  using assms
  by (simp add: gdt_install_result gdt_up_def gate_limit_def uart_live_def com1_sent_def kbd_contents_def
      kbd_ok_def con_ready_def vga_ok_def)

definition idt_up :: "layout \<Rightarrow> 'a intr_scheme \<Rightarrow> bool" where
  "idt_up lay s \<longleftrightarrow>
     (\<forall>v<256. gate_is (idt s ! v) (if v < 20 then isr_stub lay v
                                   else if 32 \<le> v \<and> v < 48 then irq_stub lay (v - 32) else 0))
     \<and> idtr s = Some \<lparr>ip_limit = 2047, ip_base = idt_addr lay\<rparr>"

lemma idt_step:
  fixes s :: "'a kernel_scheme"
  assumes "length (idt s) = 256"
  shows "let t = idt_install (idt_addr lay) (isr_stub lay) (irq_stub lay) s in
    idt_up lay t \<and> gdt_up lay t = gdt_up lay s \<and> irq_handlers t = irq_handlers s \<and> kdisk t = kdisk s
    \<and> kheap t = kheap s \<and> kbd_contents t = kbd_contents s \<and> kbd_ok t = kbd_ok s \<and> con_ready t = con_ready s"
proof -
  from idt_install_result [OF assms, of "idt_addr lay" "isr_stub lay" "irq_stub lay"] obtain X where
    X: "idt_install (idt_addr lay) (isr_stub lay) (irq_stub lay) s = s\<lparr>dev_out := dev_out (pic_remap s), idt := X,
        idtp := \<lparr>ip_limit = 2047, ip_base = idt_addr lay\<rparr>, idtr := Some \<lparr>ip_limit = 2047, ip_base = idt_addr lay\<rparr>\<rparr>"
    and g: "\<forall>v<256. gate_is (X ! v) (if v < 20 then isr_stub lay v else if 32 \<le> v \<and> v < 48 then irq_stub lay (v - 32) else 0)"
    by blast
  show ?thesis unfolding X using g
    by (simp add: Let_def idt_up_def gdt_up_def kbd_contents_def kbd_ok_def con_ready_def vga_ok_def uart_live_def)
qed

lemma handlers_frame:
  "idt_up lay (timer_install s) = idt_up lay s" "gdt_up lay (timer_install s) = gdt_up lay s"
  "kdisk (timer_install s) = kdisk s" "kheap (timer_install s) = kheap s"
  "kbd_contents (timer_install s) = kbd_contents s" "kbd_ok (timer_install s) = kbd_ok s"
  "con_ready (timer_install s) = con_ready (s :: 'a kernel_scheme)"
  "idt_up lay (keyboard_install s) = idt_up lay s" "gdt_up lay (keyboard_install s) = gdt_up lay s"
  "kdisk (keyboard_install s) = kdisk s" "kheap (keyboard_install s) = kheap s"
  "kbd_contents (keyboard_install s) = kbd_contents s" "kbd_ok (keyboard_install s) = kbd_ok s"
  "con_ready (keyboard_install s) = con_ready s"
  by (simp_all add: idt_up_def gdt_up_def timer_install_def keyboard_install_def irq_install_handler_def
      kbd_contents_def kbd_ok_def con_ready_def vga_ok_def uart_live_def outb_def Let_def)

lemma machine_same_tables:
  "machine_same s (s' :: 'a kernel_scheme) \<Longrightarrow> gdt_up lay s' = gdt_up lay s \<and> idt_up lay s' = idt_up lay s"
  using machine_same_kernel [of s s'] by (simp add: gdt_up_def idt_up_def)

lemma two_handlers:
  "(replicate 16 None)[0 := Some Timer_handler, Suc 0 := Some Keyboard_handler]
     = [Some Timer_handler, Some Keyboard_handler] @ replicate 14 None"
  by code_simp

lemma boot_drivers_up:
  assumes "uart_live s" "length (gdt s) = 3" "length (idt s) = 256" "irq_handlers s = replicate 16 None"
  shows "\<exists>t. boot_drivers lay m magic mbi s = Some t \<and> con_ready t \<and> drivers_up lay t \<and> iflag t
    \<and> kdisk t = (let info = load_multiboot_info m mbi in
         if 0 < mods_count info then initrd_init m (mod_start (load_multiboot_module m (mods_addr info))) (kdisk s)
         else kdisk s)
    \<and> kbd_contents t = kbd_contents s \<and> kbd_ok t = kbd_ok s
    \<and> com1_sent t = com1_sent s @ 3 # boot_log (magic = 0x2BADB002) (0 < mods_count (load_multiboot_info m mbi))"
proof -
  note line = serial_line_live [unfolded c_text_def]
  define s0 where "s0 = init_serial (terminal_initialize s)"
  have s0: "con_ready s0" "vga.more s0 = vga.more s" "com1_sent s0 = com1_sent s @ [3]"
    using boot_console [OF assms(1)] by (simp_all add: s0_def)
  have u0: "uart_live s0" using s0(1) by (simp add: con_ready_def)
  obtain s1 where s1: "serial_line ''SERIAL: Nexus OS Kernel Booting...'' s0 = Some s1" "uart_live s1" "machine_same s0 s1"
    "com1_sent s1 = com1_sent s0 @ log_line ''SERIAL: Nexus OS Kernel Booting...''"
    using line [OF u0, of "''SERIAL: Nexus OS Kernel Booting...''"] by auto
  define mline where "mline = (if magic \<noteq> 0x2BADB002 then serial_line ''SERIAL: Error - Invalid Multiboot Magic'' s1 else Some s1)"
  obtain s2 where s2: "mline = Some s2" "uart_live s2" "machine_same s1 s2"
    "com1_sent s2 = com1_sent s1 @ (if magic = 0x2BADB002 then [] else log_line ''SERIAL: Error - Invalid Multiboot Magic'')"
    using line [OF s1(2), of "''SERIAL: Error - Invalid Multiboot Magic''"] s1(2)
    by (cases "magic = 0x2BADB002") (auto simp: mline_def machine_same_def)
  have m02: "machine_same s0 s2" by (rule machine_same_trans [OF s1(3) s2(3)])
  have f0: "gdt s0 = gdt s" "idt s0 = idt s" "irq_handlers s0 = irq_handlers s" "kdisk s0 = kdisk s"
    "kbd_contents s0 = kbd_contents s" "kbd_ok s0 = kbd_ok s"
    using vga_more_kernel [OF s0(2)] by simp_all
  have f2: "gdt s2 = gdt s" "idt s2 = idt s" "irq_handlers s2 = irq_handlers s" "kdisk s2 = kdisk s"
    "kbd_contents s2 = kbd_contents s" "kbd_ok s2 = kbd_ok s" "con_ready s2"
    using machine_same_kernel [OF m02] machine_same_hal [OF m02] f0 s0(1) by simp_all
  obtain s3 where s3: "gdt_install (gdt_addr lay) s2 = Some s3" "uart_live s3" "com1_sent s3 = com1_sent s2"
    "gdt_up lay s3" "idt s3 = idt s" "irq_handlers s3 = irq_handlers s" "kdisk s3 = kdisk s"
    "kbd_contents s3 = kbd_contents s" "kbd_ok s3 = kbd_ok s" "con_ready s3"
    using gdt_step [of s2 lay] s2(2) assms(2) f2 by auto
  obtain s4 where s4: "serial_line ''SERIAL: GDT Installed'' s3 = Some s4" "uart_live s4" "machine_same s3 s4"
    "com1_sent s4 = com1_sent s3 @ log_line ''SERIAL: GDT Installed''"
    using line [OF s3(2), of "''SERIAL: GDT Installed''"] by auto
  define s5 where "s5 = s4\<lparr>kheap := mem_initialize 0x200000 (4 * 1024 * 1024) (kheap s4)\<rparr>"
  have u5: "uart_live s5" "com1_sent s5 = com1_sent s4" using s4(2) by (simp_all add: s5_def)
  obtain s6 where s6: "serial_line ''SERIAL: Memory Initialized'' s5 = Some s6" "uart_live s6" "machine_same s5 s6"
    "com1_sent s6 = com1_sent s5 @ log_line ''SERIAL: Memory Initialized''"
    using line [OF u5(1), of "''SERIAL: Memory Initialized''"] by auto
  have f5: "gdt_up lay s5" "idt s5 = idt s" "irq_handlers s5 = irq_handlers s" "kdisk s5 = kdisk s"
    "kbd_contents s5 = kbd_contents s" "kbd_ok s5 = kbd_ok s" "con_ready s5" "heap_up (kheap s5)"
    using machine_same_kernel [OF s4(3)] machine_same_hal [OF s4(3)] s3
    by (simp_all add: s5_def gdt_up_def con_ready_def vga_ok_def uart_live_def kbd_contents_def kbd_ok_def kernel_heap_up)
  have f6: "gdt_up lay s6" "idt s6 = idt s" "irq_handlers s6 = irq_handlers s" "kdisk s6 = kdisk s"
    "kbd_contents s6 = kbd_contents s" "kbd_ok s6 = kbd_ok s" "con_ready s6" "heap_up (kheap s6)"
    using machine_same_kernel [OF s6(3)] machine_same_hal [OF s6(3)] f5 by (simp_all add: gdt_up_def)
  let ?info = "load_multiboot_info m mbi"
  let ?disk = "if 0 < mods_count ?info then initrd_init m (mod_start (load_multiboot_module m (mods_addr ?info))) (kdisk s) else kdisk s"
  let ?msg = "if 0 < mods_count ?info then ''SERIAL: InitRD Initialized'' else ''SERIAL: No InitRD found!''"
  have msg_text: "(0 :: u8) \<notin> set (map of_char ?msg)" by (cases "0 < mods_count ?info") simp_all
  define s6' where "s6' = s6\<lparr>kdisk := ?disk\<rparr>"
  have u6: "uart_live s6'" "com1_sent s6' = com1_sent s6" using s6(2) by (simp_all add: s6'_def)
  have s6_id: "\<not> 0 < mods_count ?info \<Longrightarrow> s6' = s6" using f6(4) by (simp add: s6'_def)
  obtain s7 where s7: "serial_line ?msg s6' = Some s7" "uart_live s7" "machine_same s6' s7"
    "com1_sent s7 = com1_sent s6' @ log_line ?msg"
    using line [OF u6(1) msg_text] by blast
  have disk: "(if 0 < mods_count ?info then do {
             let s = s6\<lparr>kdisk := initrd_init m (mod_start (load_multiboot_module m (mods_addr ?info))) (kdisk s6)\<rparr>;
             serial_line ''SERIAL: InitRD Initialized'' s }
           else serial_line ''SERIAL: No InitRD found!'' s6) = Some s7"
  proof (cases "0 < mods_count ?info")
    case True
    then show ?thesis using s7(1) f6(4) by (simp add: s6'_def)
  next
    case False
    then show ?thesis using s7(1) s6_id [OF False] by simp
  qed
  have f7: "gdt_up lay s7" "idt s7 = idt s" "irq_handlers s7 = irq_handlers s" "kdisk s7 = ?disk"
    "kbd_contents s7 = kbd_contents s" "kbd_ok s7 = kbd_ok s" "con_ready s7" "heap_up (kheap s7)"
    using machine_same_kernel [OF s7(3)] machine_same_hal [OF s7(3)] f6
    by (simp_all add: s6'_def gdt_up_def con_ready_def vga_ok_def uart_live_def kbd_contents_def kbd_ok_def)
  define s8 where "s8 = idt_install (idt_addr lay) (isr_stub lay) (irq_stub lay) s7"
  have l7: "length (idt s7) = 256" using f7(2) assms(3) by simp
  have u8: "uart_live s8" "com1_sent s8 = com1_sent s7" using s7(2) l7 by (simp_all add: s8_def)
  have f8: "gdt_up lay s8" "idt_up lay s8" "irq_handlers s8 = irq_handlers s" "kdisk s8 = ?disk"
    "kbd_contents s8 = kbd_contents s" "kbd_ok s8 = kbd_ok s" "con_ready s8" "heap_up (kheap s8)"
    using idt_step [OF l7, of lay, unfolded Let_def, folded s8_def] f7 by simp_all
  obtain s9 where s9: "serial_line ''SERIAL: IDT Installed'' s8 = Some s9" "uart_live s9" "machine_same s8 s9"
    "com1_sent s9 = com1_sent s8 @ log_line ''SERIAL: IDT Installed''"
    using line [OF u8(1), of "''SERIAL: IDT Installed''"] by auto
  define s10 where "s10 = timer_install s9"
  have u10: "uart_live s10" "com1_sent s10 = com1_sent s9" using s9(2) by (simp_all add: s10_def)
  obtain s11 where s11: "serial_line ''SERIAL: Timer Installed'' s10 = Some s11" "uart_live s11" "machine_same s10 s11"
    "com1_sent s11 = com1_sent s10 @ log_line ''SERIAL: Timer Installed''"
    using line [OF u10(1), of "''SERIAL: Timer Installed''"] by auto
  define s12 where "s12 = keyboard_install s11"
  have u12: "uart_live s12" "com1_sent s12 = com1_sent s11" using s11(2) by (simp_all add: s12_def)
  obtain s13 where s13: "serial_line ''SERIAL: Keyboard Installed'' s12 = Some s13" "uart_live s13" "machine_same s12 s13"
    "com1_sent s13 = com1_sent s12 @ log_line ''SERIAL: Keyboard Installed''"
    using line [OF u12(1), of "''SERIAL: Keyboard Installed''"] by auto
  have f9: "gdt_up lay s9" "idt_up lay s9" "irq_handlers s9 = irq_handlers s" "kdisk s9 = ?disk"
    "kbd_contents s9 = kbd_contents s" "kbd_ok s9 = kbd_ok s" "con_ready s9" "heap_up (kheap s9)"
    using machine_same_kernel [OF s9(3)] machine_same_hal [OF s9(3)] machine_same_tables [OF s9(3)] f8 by simp_all
  have h10: "irq_handlers s10 = (irq_handlers s)[0 := Some Timer_handler]"
    using f9(3) by (simp add: s10_def timer_install_def irq_install_handler_def outb_def Let_def)
  have f11: "gdt_up lay s11" "idt_up lay s11" "irq_handlers s11 = (irq_handlers s)[0 := Some Timer_handler]" "kdisk s11 = ?disk"
    "kbd_contents s11 = kbd_contents s" "kbd_ok s11 = kbd_ok s" "con_ready s11" "heap_up (kheap s11)"
    using machine_same_kernel [OF s11(3)] machine_same_hal [OF s11(3)] machine_same_tables [OF s11(3)] f9 h10
    by (simp_all add: s10_def handlers_frame)
  have h12: "irq_handlers s12 = (irq_handlers s)[0 := Some Timer_handler, 1 := Some Keyboard_handler]"
    using f11(3) by (simp add: s12_def keyboard_install_def irq_install_handler_def)
  have f13: "gdt_up lay s13" "idt_up lay s13" "irq_handlers s13 = (irq_handlers s)[0 := Some Timer_handler, 1 := Some Keyboard_handler]"
    "kdisk s13 = ?disk" "kbd_contents s13 = kbd_contents s" "kbd_ok s13 = kbd_ok s" "con_ready s13" "heap_up (kheap s13)"
    using machine_same_kernel [OF s13(3)] machine_same_hal [OF s13(3)] machine_same_tables [OF s13(3)] f11 h12
    by (simp_all add: s12_def handlers_frame)
  let ?t = "s13\<lparr>iflag := True\<rparr>"
  have run: "boot_drivers lay m magic mbi s = Some ?t"
    unfolding boot_drivers_def Let_def s0_def [symmetric] s1(1) bind.bind_lunit mline_def [symmetric] s2(1) s3(1) s4(1)
      s5_def [symmetric] s6(1) disk [unfolded Let_def] s8_def [symmetric] s9(1) s10_def [symmetric] s11(1)
      s12_def [symmetric] s13(1) by simp
  have "drivers_up lay ?t"
    using f13 by (simp add: drivers_up_def gdt_up_def idt_up_def assms(4) two_handlers)
  moreover have "con_ready ?t" using f13(7) by (simp add: con_ready_def vga_ok_def uart_live_def)
  moreover have "kbd_contents ?t = kbd_contents s" "kbd_ok ?t = kbd_ok s"
    using f13(5,6) by (simp_all add: kbd_contents_def kbd_ok_def)
  moreover have "com1_sent ?t = com1_sent s @ 3 # boot_log (magic = 0x2BADB002) (0 < mods_count ?info)"
    using s0(3) s1(4) s2(4) s3(3) s4(4) u5(2) s6(4) u6(2) s7(4) u8(2) s9(4) u10(2) s11(4) u12(2) s13(4)
    by (simp add: boot_log_def)
  ultimately show ?thesis using run f13(4) by (simp add: Let_def)
qed

definition keeps_drivers :: "'a vga_scheme \<Rightarrow> 'a vga_scheme option \<Rightarrow> bool" where
  "keeps_drivers s r \<longleftrightarrow> (\<exists>s'. r = Some s' \<and> con_ready s' \<and> vga.more s' = vga.more s)"

lemma keeps_bind:
  assumes "keeps_drivers s r" "\<And>t. con_ready t \<Longrightarrow> keeps_drivers t (f t)"
  shows "keeps_drivers s (r \<bind> f)"
proof -
  from assms(1) obtain t where t: "r = Some t" "con_ready t" "vga.more t = vga.more s"
    by (auto simp: keeps_drivers_def)
  with assms(2) [OF t(2)] show ?thesis by (auto simp: keeps_drivers_def)
qed

lemma keeps_serial:
  assumes "con_ready s" "c_text msg"
  shows "keeps_drivers s (serial_line msg s)"
proof -
  have "uart_live s" using assms(1) by (simp add: con_ready_def)
  from serial_line_live [OF this assms(2)] obtain t where
    t: "serial_line msg s = Some t" "uart_live t" "machine_same s t" by blast
  then have "con_ready t \<and> vga.more t = vga.more s"
    using assms(1) by (cases s, cases t) (simp add: machine_same_def con_ready_def vga_ok_def)
  then show ?thesis using t(1) by (simp add: keeps_drivers_def)
qed

lemma keeps_writestring: "con_ready s \<Longrightarrow> keeps_drivers s (terminal_writestring cs s)"
  using terminal_write_ready [of s] by (auto simp: keeps_drivers_def terminal_writestring_def)

lemma keeps_writestring_color:
  assumes "con_ready s"
  shows "keeps_drivers s (terminal_writestring cs (terminal_setcolor c s))"
proof -
  have "con_ready (terminal_setcolor c s)" "vga.more (terminal_setcolor c s) = vga.more s"
    using assms by (simp_all add: terminal_setcolor_def con_ready_def vga_ok_def uart_live_def)
  then show ?thesis
    using keeps_writestring [of "terminal_setcolor c s" cs] by (simp add: keeps_drivers_def)
qed

lemma boot_banner_keeps: "con_ready s \<Longrightarrow> keeps_drivers s (boot_banner s)"
  unfolding boot_banner_def Let_def screen_line_def
  by (intro keeps_bind keeps_serial keeps_writestring keeps_writestring_color) (simp_all add: c_text_def)

section \<open>Properties\<close>


definition bss_kernel :: kernel where
  "bss_kernel = hal.extend (bss_hal []) \<lparr>kheap = heap_reset, kdisk = \<lparr>n_files = 0, initrd_base = 0\<rparr>, iflag = False\<rparr>"


end
