(* ===== verification/GcTable.thy ===== *)
theory GcTable
  imports Prelude
begin

text \<open>
  The allocation table of MicroPython's collector, \<open>python/py/gc.c\<close>: two bits per block of
  16 bytes, four blocks to a byte, followed by one gap byte that stays free.  The macros
  \<open>ATB_GET_KIND\<close>, \<open>ATB_ANY_TO_FREE\<close> and their siblings are functions on the table as
  a byte list; the laws below let the rest of the development reason about block kinds only.
  A read beyond the table (the code never makes one on a well-formed heap) yields \<open>AT_FREE\<close>.
\<close>

abbreviation (input) AT_FREE :: u8 where "AT_FREE \<equiv> 0"
abbreviation (input) AT_HEAD :: u8 where "AT_HEAD \<equiv> 1"
abbreviation (input) AT_TAIL :: u8 where "AT_TAIL \<equiv> 2"
abbreviation (input) AT_MARK :: u8 where "AT_MARK \<equiv> 3"
abbreviation (input) BLOCKS_PER_ATB :: nat where "BLOCKS_PER_ATB \<equiv> 4"

definition block_shift :: "nat \<Rightarrow> nat" where
  "block_shift b = 2 * (b mod BLOCKS_PER_ATB)"

definition atb_get_kind :: "u8 list \<Rightarrow> nat \<Rightarrow> u8" where
  "atb_get_kind t b =
     (if b div BLOCKS_PER_ATB < length t
      then drop_bit (block_shift b) (t ! (b div BLOCKS_PER_ATB)) AND 3 else AT_FREE)"

definition atb_any_to_free :: "u8 list \<Rightarrow> nat \<Rightarrow> u8 list" where
  "atb_any_to_free t b = t[b div BLOCKS_PER_ATB :=
     t ! (b div BLOCKS_PER_ATB) AND NOT (push_bit (block_shift b) AT_MARK)]"

definition atb_free_to_head :: "u8 list \<Rightarrow> nat \<Rightarrow> u8 list" where
  "atb_free_to_head t b = t[b div BLOCKS_PER_ATB :=
     t ! (b div BLOCKS_PER_ATB) OR push_bit (block_shift b) AT_HEAD]"

definition atb_free_to_tail :: "u8 list \<Rightarrow> nat \<Rightarrow> u8 list" where
  "atb_free_to_tail t b = t[b div BLOCKS_PER_ATB :=
     t ! (b div BLOCKS_PER_ATB) OR push_bit (block_shift b) AT_TAIL]"

definition atb_head_to_mark :: "u8 list \<Rightarrow> nat \<Rightarrow> u8 list" where
  "atb_head_to_mark t b = t[b div BLOCKS_PER_ATB :=
     t ! (b div BLOCKS_PER_ATB) OR push_bit (block_shift b) AT_MARK]"

definition atb_mark_to_head :: "u8 list \<Rightarrow> nat \<Rightarrow> u8 list" where
  "atb_mark_to_head t b = t[b div BLOCKS_PER_ATB :=
     t ! (b div BLOCKS_PER_ATB) AND NOT (push_bit (block_shift b) AT_TAIL)]"

section \<open>Kinds after an update\<close>

lemma slot_cases: "p mod 4 \<in> {0, 1, 2, 3 :: nat}"
  by auto

lemma bit_three: "bit (3 :: int) n \<longleftrightarrow> n < 2"
proof -
  have three: "3 = (mask 2 :: int)" by (simp add: mask_eq_exp_minus_1)
  have "bit (mask 2 :: int) n \<longleftrightarrow> n < 2" by (subst bit_mask_iff) auto
  then show ?thesis by (simp only: three)
qed

lemma bit_two: "bit (2 :: int) n \<longleftrightarrow> n = 1"
  using bit_exp_iff [of 1 n, where 'a = int] by auto

lemma two_bits: "(x AND 3 :: u8) = take_bit 2 x"
  by (simp add: take_bit_eq_mask mask_eq_exp_minus_1)

lemma slot_and:
  assumes "p < 4" "q < 4"
  shows "drop_bit (2 * q) (x AND NOT (push_bit (2 * p) 3) :: u8) AND 3
    = (if p = q then 0 else drop_bit (2 * q) x AND 3)"
  unfolding two_bits
  using assms by (intro bit_word_eqI) (auto simp: bit_simps bit_three)

lemma slot_or:
  assumes "p < 4" "q < 4" "v \<in> {1, 2, 3 :: u8}"
  shows "drop_bit (2 * q) (x OR push_bit (2 * p) v :: u8) AND 3
    = (if p = q then (drop_bit (2 * q) x AND 3) OR v else drop_bit (2 * q) x AND 3)"
  unfolding two_bits
  using assms by (intro bit_word_eqI) (auto simp: bit_simps bit_three bit_two)

lemma slot_mark_to_head:
  assumes "p < 4" "q < 4"
  shows "drop_bit (2 * q) (x AND NOT (push_bit (2 * p) 2) :: u8) AND 3
    = (if p = q then (drop_bit (2 * q) x AND 3) AND 1 else drop_bit (2 * q) x AND 3)"
    unfolding two_bits 
    using assms by (intro bit_word_eqI) (auto simp: bit_simps bit_two)

lemma atb_update_kind:
  assumes "b div 4 < length t"
    and "\<And>q. q < 4 \<Longrightarrow> drop_bit (2 * q) v AND 3
      = (if b mod 4 = q then k else drop_bit (2 * q) (t ! (b div 4)) AND 3)"
  shows "atb_get_kind (t[b div 4 := v]) c = (if c = b then k else atb_get_kind t c)"
proof (cases "c div 4 = b div 4")
  case True
  then have "c = b \<longleftrightarrow> b mod 4 = c mod 4" by (metis div_mult_mod_eq)
  then show ?thesis using True assms by (simp add: atb_get_kind_def block_shift_def)
next
  case False
  then show ?thesis by (auto simp: atb_get_kind_def)
qed

lemma slot_or_kind:
  assumes "p < 4" "q < 4" "v \<in> {1, 2, 3 :: u8}" "drop_bit (2 * p) x AND 3 = k"
  shows "drop_bit (2 * q) (x OR push_bit (2 * p) v :: u8) AND 3
    = (if p = q then k OR v else drop_bit (2 * q) x AND 3)"
  using slot_or [OF assms(1-3), of x] assms(4) by (cases "p = q") (simp_all only: if_True if_False simp_thms)

lemma slot_mark_kind:
  assumes "p < 4" "q < 4" "drop_bit (2 * p) x AND 3 = k"
  shows "drop_bit (2 * q) (x AND NOT (push_bit (2 * p) 2) :: u8) AND 3
    = (if p = q then k AND 1 else drop_bit (2 * q) x AND 3)"
  using slot_mark_to_head [OF assms(1,2), of x] assms(3) by (cases "p = q") (simp_all only: if_True if_False simp_thms)

lemma atb_kinds:
  assumes b: "b div 4 < length t"
  shows "atb_get_kind (atb_any_to_free t b) c = (if c = b then 0 else atb_get_kind t c)"
    and "atb_get_kind t b = 0 \<Longrightarrow>
      atb_get_kind (atb_free_to_head t b) c = (if c = b then 1 else atb_get_kind t c)"
    and "atb_get_kind t b = 0 \<Longrightarrow>
      atb_get_kind (atb_free_to_tail t b) c = (if c = b then 2 else atb_get_kind t c)"
    and "atb_get_kind t b = 1 \<Longrightarrow>
      atb_get_kind (atb_head_to_mark t b) c = (if c = b then 3 else atb_get_kind t c)"
    and "atb_get_kind t b = 3 \<Longrightarrow>
      atb_get_kind (atb_mark_to_head t b) c = (if c = b then 1 else atb_get_kind t c)"
proof -
  have m: "b mod 4 < 4" by simp
  have k: "drop_bit (2 * (b mod 4)) (t ! (b div 4)) AND 3 = atb_get_kind t b"
    using b by (simp add: atb_get_kind_def block_shift_def)
  show "atb_get_kind (atb_any_to_free t b) c = (if c = b then 0 else atb_get_kind t c)"
    unfolding atb_any_to_free_def block_shift_def by (rule atb_update_kind [OF b]) (rule slot_and [OF m])
  show "atb_get_kind (atb_free_to_head t b) c = (if c = b then 1 else atb_get_kind t c)" if "atb_get_kind t b = 0"
    unfolding atb_free_to_head_def block_shift_def
    by (rule atb_update_kind [OF b]) (subst slot_or_kind [OF m _ _ k], simp_all add: that)
  show "atb_get_kind (atb_free_to_tail t b) c = (if c = b then 2 else atb_get_kind t c)" if "atb_get_kind t b = 0"
    unfolding atb_free_to_tail_def block_shift_def
    by (rule atb_update_kind [OF b]) (subst slot_or_kind [OF m _ _ k], simp_all add: that)
  show "atb_get_kind (atb_head_to_mark t b) c = (if c = b then 3 else atb_get_kind t c)" if "atb_get_kind t b = 1"
    unfolding atb_head_to_mark_def block_shift_def
    by (rule atb_update_kind [OF b]) (subst slot_or_kind [OF m _ _ k], simp_all add: that)
  show "atb_get_kind (atb_mark_to_head t b) c = (if c = b then 1 else atb_get_kind t c)" if "atb_get_kind t b = 3"
    unfolding atb_mark_to_head_def block_shift_def
    by (rule atb_update_kind [OF b]) (subst slot_mark_kind [OF m _ k], simp_all add: that)
qed

lemma atb_lengths [simp]:
  "length (atb_any_to_free t b) = length t" "length (atb_free_to_head t b) = length t"
  "length (atb_free_to_tail t b) = length t" "length (atb_head_to_mark t b) = length t"
  "length (atb_mark_to_head t b) = length t"
  by (simp_all add: atb_any_to_free_def atb_free_to_head_def atb_free_to_tail_def
      atb_head_to_mark_def atb_mark_to_head_def)

lemma atb_kind_range: "atb_get_kind t b = 0 \<or> atb_get_kind t b = 1 \<or> atb_get_kind t b = 2 \<or> atb_get_kind t b = 3"
proof -
  have "unat (take_bit 2 x :: u8) = take_bit 2 (unat x)" for x by (rule unsigned_take_bit_eq)
  then have "unat (x AND 3 :: u8) < 4" for x by (simp add: two_bits take_bit_eq_mod)
  then have "unat (atb_get_kind t b) < 4" by (simp add: atb_get_kind_def)
  moreover have "unat (1 :: u8) = 1" "unat (2 :: u8) = 2" "unat (3 :: u8) = 3" by simp_all
  ultimately show ?thesis unfolding word_unat_eq_iff unat_0 by linarith
qed

lemma atb_kind_in_range: "atb_get_kind t b \<noteq> 0 \<Longrightarrow> b div 4 < length t"
  by (auto simp: atb_get_kind_def split: if_splits)

end
