(* ===== verification/Gc.thy ===== *)
theory Gc
  imports GcTable Libc
begin

text \<open>
  MicroPython's mark-and-sweep heap, \<open>python/py/gc.c\<close>, as this kernel configures it: one
  area, no finalisers, conservative clearing, a mark stack of 64 entries.  Pointers are 32-bit
  addresses into the flat memory \<open>gc_mem\<close>; block numbers and table indices are naturals.  The
  allocation table is kept apart from the memory the objects live in: \<open>gc_init_layout\<close>
  shows the two regions are disjoint.  \<open>None\<close> is a failed \<open>assert\<close>, which stops the kernel.
\<close>

abbreviation (input) BYTES_PER_BLOCK :: nat where "BYTES_PER_BLOCK \<equiv> 16"
abbreviation (input) ALLOC_TABLE_GAP_BYTE :: nat where "ALLOC_TABLE_GAP_BYTE \<equiv> 1"
abbreviation (input) MICROPY_ALLOC_GC_STACK_SIZE :: nat where "MICROPY_ALLOC_GC_STACK_SIZE \<equiv> 64"

record gc_area =
  gc_alloc_table :: "u8 list"
  gc_alloc_table_start :: u32
  gc_alloc_table_byte_len :: nat
  gc_pool_start :: u32
  gc_pool_end :: u32
  gc_last_free_atb_index :: nat
  gc_last_used_block :: nat

record gc_state =
  gc_area :: gc_area
  gc_mem :: mem
  gc_stack_overflow :: bool
  gc_lock_depth :: u16
  gc_auto_collect :: bool

definition total_blocks :: "gc_area \<Rightarrow> nat" where
  "total_blocks a = gc_alloc_table_byte_len a * BLOCKS_PER_ATB"

definition ptr_from_block :: "gc_area \<Rightarrow> nat \<Rightarrow> u32" where
  "ptr_from_block a b = of_nat (b * BYTES_PER_BLOCK) + gc_pool_start a"

definition block_from_ptr :: "gc_area \<Rightarrow> u32 \<Rightarrow> nat" where
  "block_from_ptr a p = unat (p - gc_pool_start a) div BYTES_PER_BLOCK"

definition verify_ptr :: "gc_area \<Rightarrow> u32 \<Rightarrow> bool" where
  "verify_ptr a p \<longleftrightarrow> p AND (16 - 1) = 0 \<and> gc_pool_start a \<le> p \<and> p < gc_pool_end a"

section \<open>Set-up and locking\<close>

definition gc_setup_area :: "u32 \<Rightarrow> u32 \<Rightarrow> gc_area" where
  "gc_setup_area start end_ptr =
     (let total_byte_len = unat (end_ptr - start);
          byte_len = (total_byte_len - ALLOC_TABLE_GAP_BYTE) div (1 + 8 div 2 * BYTES_PER_BLOCK);
          pool_block_len = byte_len * BLOCKS_PER_ATB
      in \<lparr>gc_alloc_table = replicate (byte_len + ALLOC_TABLE_GAP_BYTE) 0,
          gc_alloc_table_start = start, gc_alloc_table_byte_len = byte_len,
          gc_pool_start = end_ptr - of_nat (pool_block_len * BYTES_PER_BLOCK), gc_pool_end = end_ptr,
          gc_last_free_atb_index = 0, gc_last_used_block = 0\<rparr>)"

definition gc_init :: "u32 \<Rightarrow> u32 \<Rightarrow> gc_state \<Rightarrow> gc_state" where
  "gc_init start end_ptr s =
     s\<lparr>gc_area := gc_setup_area start (end_ptr AND NOT 15), gc_lock_depth := 0, gc_auto_collect := True\<rparr>"

definition gc_lock :: "gc_state \<Rightarrow> gc_state" where
  "gc_lock s = s\<lparr>gc_lock_depth := gc_lock_depth s + 1\<rparr>"

definition gc_unlock :: "gc_state \<Rightarrow> gc_state" where
  "gc_unlock s = s\<lparr>gc_lock_depth := gc_lock_depth s - 1\<rparr>"

definition gc_is_locked :: "gc_state \<Rightarrow> bool" where
  "gc_is_locked s \<longleftrightarrow> gc_lock_depth s \<noteq> 0"

section \<open>Marking\<close>

text \<open>\<open>chain_end t b\<close>: the first block from \<open>b\<close> on that is not a tail.\<close>

function chain_end :: "u8 list \<Rightarrow> nat \<Rightarrow> nat" where
  "chain_end t b = (if atb_get_kind t b = AT_TAIL then chain_end t (b + 1) else b)"
  by auto
termination
proof (relation "measure (\<lambda>(t, b). 4 * length t - b)")
  fix t b
  assume "atb_get_kind t b = AT_TAIL"
  then have "b div 4 < length t" by (intro atb_kind_in_range) simp
  then show "((t, b + 1), t, b) \<in> measure (\<lambda>(t, b). 4 * length t - b)" by auto
qed simp

declare chain_end.simps [simp del]

definition chain_len :: "u8 list \<Rightarrow> nat \<Rightarrow> nat" where
  "chain_len t b = chain_end t (b + 1) - b"

definition block_words :: "gc_area \<Rightarrow> mem \<Rightarrow> u8 list \<Rightarrow> nat \<Rightarrow> u32 list" where
  "block_words a m t b =
     map (\<lambda>i. load_u32 m (ptr_from_block a b + 4 * of_nat i)) [0..<chain_len t b * BYTES_PER_BLOCK div 4]"

text \<open>
  The loop state: the table, the mark stack (top first) and the overflow flag.  One child
  pointer; then all words of a block; then the loop that pops the stack.
\<close>

type_synonym mark_state = "u8 list \<times> nat list \<times> bool"

definition mark_child :: "gc_area \<Rightarrow> u32 \<Rightarrow> mark_state \<Rightarrow> mark_state" where
  "mark_child a ptr st = (case st of (t, stack, ov) \<Rightarrow>
     if \<not> verify_ptr a ptr then st
     else let b = block_from_ptr a ptr
          in if atb_get_kind t b \<noteq> AT_HEAD then st
             else if length stack < MICROPY_ALLOC_GC_STACK_SIZE
                  then (atb_head_to_mark t b, b # stack, ov)
                  else (atb_head_to_mark t b, stack, True))"

definition mark_children :: "gc_area \<Rightarrow> mem \<Rightarrow> nat \<Rightarrow> mark_state \<Rightarrow> mark_state" where
  "mark_children a m b st = fold (mark_child a) (block_words a m (fst st) b) st"

definition heads :: "u8 list \<Rightarrow> nat set" where
  "heads t = {b. atb_get_kind t b = AT_HEAD}"

lemma finite_heads [simp]: "finite (heads t)"
proof (rule finite_subset)
  show "heads t \<subseteq> {..<4 * length t}"
  proof
    fix b
    assume "b \<in> heads t"
    then have "b div 4 < length t" by (intro atb_kind_in_range) (simp add: heads_def)
    then show "b \<in> {..<4 * length t}" by auto
  qed
qed simp

text \<open>Every push takes a head away: the measure by which marking ends.\<close>

definition mark_measure :: "mark_state \<Rightarrow> nat" where
  "mark_measure st = (case st of (t, stack, ov) \<Rightarrow> 2 * card (heads t) + length stack)"

lemma heads_mark:
  "atb_get_kind t b = 1 \<Longrightarrow> heads (atb_head_to_mark t b) = heads t - {b}"
  using atb_kinds(4) [of b t] atb_kind_in_range [of t b] by (auto simp: heads_def split: if_splits)

lemma card_heads_mark:
  "atb_get_kind t b = 1 \<Longrightarrow> Suc (card (heads (atb_head_to_mark t b))) = card (heads t)"
  unfolding heads_mark by (rule card.remove [OF finite_heads, symmetric]) (simp add: heads_def)

lemma mark_child_measure: "mark_measure (mark_child a p st) \<le> mark_measure st"
proof (cases st)
  case (fields t stack ov)
  then show ?thesis
    using card_heads_mark [of t "block_from_ptr a p"] by (auto simp: mark_measure_def mark_child_def Let_def)
qed

lemma mark_children_measure: "mark_measure (mark_children a m b st) \<le> mark_measure st"
proof -
  have "mark_measure (fold (mark_child a) ws st) \<le> mark_measure st" for ws
  proof (induction ws arbitrary: st)
    case (Cons w ws)
    from Cons [of "mark_child a w st"] mark_child_measure [of a w st] show ?case by simp
  qed simp
  then show ?thesis by (simp add: mark_children_def)
qed

function mark_loop :: "gc_area \<Rightarrow> mem \<Rightarrow> nat \<Rightarrow> mark_state \<Rightarrow> u8 list \<times> bool" where
  "mark_loop a m b st =
     (let st' = mark_children a m b st; t = fst st'; stack = fst (snd st'); ov = snd (snd st')
      in if stack = [] then (t, ov) else mark_loop a m (hd stack) (t, tl stack, ov))"
  by auto
termination
proof (relation "measure (\<lambda>(a, m, b, st). mark_measure st)")
  fix a m b st and st' :: mark_state and t stack ov
  assume st': "st' = mark_children a m b st" "t = fst st'" "stack = fst (snd st')" "ov = snd (snd st')"
    and ne: "stack \<noteq> []"
  then have "mark_measure (t, stack, ov) \<le> mark_measure st"
    using mark_children_measure [of a m b st] by simp
  moreover have "mark_measure (t, tl stack, ov) < mark_measure (t, stack, ov)"
    using ne by (cases stack) (simp_all add: mark_measure_def)
  ultimately show "((a, m, hd stack, t, tl stack, ov), a, m, b, st) \<in> measure (\<lambda>(a, m, b, st). mark_measure st)"
    by simp
qed simp

declare mark_loop.simps [simp del]

definition gc_mark_subtree :: "gc_area \<Rightarrow> mem \<Rightarrow> nat \<Rightarrow> u8 list \<times> bool \<Rightarrow> u8 list \<times> bool" where
  "gc_mark_subtree a m b tv = mark_loop a m b (fst tv, [], snd tv)"

text \<open>
  The pass over the whole heap and the loop that repeats it while the stack overflowed.  Each
  overflow has marked a block, so the loop ends.
\<close>

definition rescan :: "gc_area \<Rightarrow> mem \<Rightarrow> u8 list \<Rightarrow> u8 list \<times> bool" where
  "rescan a m t =
     fold (\<lambda>b tv. if atb_get_kind (fst tv) b = AT_MARK then gc_mark_subtree a m b tv else tv)
       [0..<total_blocks a] (t, False)"

text \<open>Marking never adds heads, and setting the flag costs one.\<close>

definition mark_progress :: "u8 list \<times> bool \<Rightarrow> u8 list \<times> bool \<Rightarrow> bool" where
  "mark_progress tv tv' \<longleftrightarrow> card (heads (fst tv')) \<le> card (heads (fst tv)) \<and> (snd tv \<longrightarrow> snd tv')
     \<and> (snd tv' \<longrightarrow> snd tv \<or> card (heads (fst tv')) < card (heads (fst tv)))"

lemma mark_progress_refl: "mark_progress tv tv"
  by (simp add: mark_progress_def)

lemma mark_progress_trans: "mark_progress tv tv' \<Longrightarrow> mark_progress tv' tv'' \<Longrightarrow> mark_progress tv tv''"
  by (auto simp: mark_progress_def)

lemma mark_children_progress:
  "mark_progress (fst st, snd (snd st)) (fst (mark_children a m b st), snd (snd (mark_children a m b st)))"
proof -
  have step: "mark_progress (fst st, snd (snd st)) (fst (mark_child a w st), snd (snd (mark_child a w st)))" for w st
  proof (cases st)
    case (fields t stack ov)
    then show ?thesis
      using card_heads_mark [of t "block_from_ptr a w"] by (auto simp: mark_progress_def mark_child_def Let_def)
  qed
  have "mark_progress (fst st, snd (snd st)) (fst (fold (mark_child a) ws st), snd (snd (fold (mark_child a) ws st)))" for ws
  proof (induction ws arbitrary: st)
    case (Cons w ws)
    from mark_progress_trans [OF step [of st w] Cons [of "mark_child a w st"]] show ?case by simp
  qed (simp add: mark_progress_refl)
  then show ?thesis by (simp add: mark_children_def)
qed

lemma mark_loop_progress: "mark_progress (fst st, snd (snd st)) (mark_loop a m b st)"
proof (induction a m b st rule: mark_loop.induct)
  case (1 a m b st)
  let ?st = "mark_children a m b st"
  note c = mark_children_progress [of st a m b]
  show ?case
  proof (cases "fst (snd ?st) = []")
    case True
    then show ?thesis using c by (simp add: mark_loop.simps [of a m b st] Let_def)
  next
    case False
    have "mark_progress (fst ?st, snd (snd ?st)) (mark_loop a m (hd (fst (snd ?st))) (fst ?st, tl (fst (snd ?st)), snd (snd ?st)))"
      using 1 [OF refl refl refl refl False] by simp
    from mark_progress_trans [OF c this] show ?thesis
      using False by (simp add: mark_loop.simps [of a m b st] Let_def)
  qed
qed

lemma mark_subtree_progress: "mark_progress tv (gc_mark_subtree a m b tv)"
  using mark_loop_progress [of "(fst tv, [], snd tv)" a m b] by (simp add: gc_mark_subtree_def)

lemma rescan_progress: "mark_progress (t, False) (rescan a m t)"
proof -
  have "mark_progress tv (fold (\<lambda>b tv. if atb_get_kind (fst tv) b = AT_MARK then gc_mark_subtree a m b tv else tv) bs tv)"
    for bs tv
  proof (induction bs arbitrary: tv)
    case (Cons b bs)
    from Cons [of tv] mark_progress_trans [OF mark_subtree_progress Cons [of "gc_mark_subtree a m b tv"]]
    show ?case by simp
  qed (simp add: mark_progress_refl)
  then show ?thesis by (simp add: rescan_def)
qed

function deal_with_overflow :: "gc_area \<Rightarrow> mem \<Rightarrow> u8 list \<times> bool \<Rightarrow> u8 list \<times> bool" where
  "deal_with_overflow a m tv =
     (if snd tv then deal_with_overflow a m (rescan a m (fst tv)) else tv)"
  by auto
termination
proof (relation "measure (\<lambda>(a, m, tv). 2 * card (heads (fst tv)) + (if snd tv then 1 else 0))")
  fix a m and tv :: "u8 list \<times> bool"
  assume "snd tv"
  then show "((a, m, rescan a m (fst tv)), a, m, tv)
      \<in> measure (\<lambda>(a, m, tv). 2 * card (heads (fst tv)) + (if snd tv then 1 else 0))"
    using rescan_progress [of "fst tv" a m] by (auto simp: mark_progress_def)
qed simp

declare deal_with_overflow.simps [simp del]

definition set_table :: "u8 list \<Rightarrow> gc_state \<Rightarrow> gc_state" where
  "set_table t s = s\<lparr>gc_area := (gc_area s)\<lparr>gc_alloc_table := t\<rparr>\<rparr>"

definition gc_deal_with_stack_overflow :: "gc_state \<Rightarrow> gc_state" where
  "gc_deal_with_stack_overflow s =
     (let tv = deal_with_overflow (gc_area s) (gc_mem s) (gc_alloc_table (gc_area s), gc_stack_overflow s)
      in set_table (fst tv) (s\<lparr>gc_stack_overflow := snd tv\<rparr>))"

section \<open>Collection\<close>

text \<open>\<open>gc_sweep\<close>: the fold carries the table, \<open>free_tail\<close> and \<open>last_used_block\<close>.\<close>

definition sweep_block :: "nat \<Rightarrow> u8 list \<times> bool \<times> nat \<Rightarrow> u8 list \<times> bool \<times> nat" where
  "sweep_block b st = (case st of (t, free_tail, last_used) \<Rightarrow>
     let k = atb_get_kind t b
     in if k = AT_HEAD then (atb_any_to_free t b, True, last_used)
        else if k = AT_TAIL then
          (if free_tail then (atb_any_to_free t b, free_tail, last_used) else (t, free_tail, b))
        else if k = AT_MARK then (atb_mark_to_head t b, False, b)
        else st)"

definition gc_sweep :: "gc_state \<Rightarrow> gc_state" where
  "gc_sweep s =
     (let a = gc_area s;
          end_block = (if gc_last_used_block a < total_blocks a then gc_last_used_block a + 1 else total_blocks a);
          st = fold sweep_block [0..<end_block] (gc_alloc_table a, False, 0)
      in s\<lparr>gc_area := a\<lparr>gc_alloc_table := fst st, gc_last_used_block := snd (snd st)\<rparr>\<rparr>)"

definition collect_root_word :: "gc_area \<Rightarrow> mem \<Rightarrow> u32 \<Rightarrow> u8 list \<times> bool \<Rightarrow> u8 list \<times> bool" where
  "collect_root_word a m ptr tv =
     (if \<not> verify_ptr a ptr then tv
      else let b = block_from_ptr a ptr
           in if atb_get_kind (fst tv) b = AT_HEAD
              then gc_mark_subtree a m b (atb_head_to_mark (fst tv) b, snd tv) else tv)"

definition gc_collect_root :: "u32 \<Rightarrow> nat \<Rightarrow> gc_state \<Rightarrow> gc_state" where
  "gc_collect_root ptrs len s =
     (let tv = fold (\<lambda>i. collect_root_word (gc_area s) (gc_mem s) (load_u32 (gc_mem s) (ptrs + 4 * of_nat i)))
                 [0..<len] (gc_alloc_table (gc_area s), gc_stack_overflow s)
      in set_table (fst tv) (s\<lparr>gc_stack_overflow := snd tv\<rparr>))"

text \<open>
  The roots: the words of \<open>mp_state_ctx\<close> between \<open>dict_locals\<close> and \<open>qstr_last_chunk\<close>, and the
  C stack from the stack pointer up to \<open>stack_top\<close> (which holds the saved registers too).
\<close>

record gc_roots =
  ctx_ptrs :: u32
  ctx_len :: nat
  root_sp :: u32
  root_stack_top :: u32

definition gc_collect_start :: "gc_roots \<Rightarrow> gc_state \<Rightarrow> gc_state" where
  "gc_collect_start r s =
     gc_collect_root (ctx_ptrs r) (ctx_len r) (s\<lparr>gc_lock_depth := gc_lock_depth s + 1, gc_stack_overflow := False\<rparr>)"

definition gc_collect_end :: "gc_state \<Rightarrow> gc_state" where
  "gc_collect_end s =
     (let s = gc_sweep (gc_deal_with_stack_overflow s)
      in s\<lparr>gc_area := (gc_area s)\<lparr>gc_last_free_atb_index := 0\<rparr>, gc_lock_depth := gc_lock_depth s - 1\<rparr>)"

definition gc_collect :: "gc_roots \<Rightarrow> gc_state \<Rightarrow> gc_state" where
  "gc_collect r s =
     (let s = gc_collect_start r s;
          s = (if root_sp r < root_stack_top r
               then gc_collect_root (root_sp r) (unat (root_stack_top r - root_sp r) div 4) s else s)
      in gc_collect_end s)"

definition gc_sweep_all :: "gc_state \<Rightarrow> gc_state" where
  "gc_sweep_all s = gc_collect_end (s\<lparr>gc_lock_depth := gc_lock_depth s + 1, gc_stack_overflow := False\<rparr>)"

section \<open>Allocation\<close>

text \<open>
  The search of \<open>gc_alloc\<close> for \<open>n_blocks\<close> free blocks in a row: four tests per table byte,
  \<open>n_free\<close> the length of the current run.  A hit is the last block of the run and \<open>n_free\<close>.
\<close>

fun scan_slots :: "nat \<Rightarrow> nat \<Rightarrow> u8 \<Rightarrow> nat list \<Rightarrow> nat \<Rightarrow> (nat \<times> nat) + nat" where
  "scan_slots n_blocks i a [] n_free = Inr n_free"
| "scan_slots n_blocks i a (k # ks) n_free =
     (if a AND push_bit (2 * k) 3 = 0 then
        (if n_blocks \<le> n_free + 1 then Inl (i * BLOCKS_PER_ATB + k, n_free + 1)
         else scan_slots n_blocks i a ks (n_free + 1))
      else scan_slots n_blocks i a ks 0)"

fun scan_table :: "nat \<Rightarrow> nat \<Rightarrow> u8 list \<Rightarrow> nat \<Rightarrow> (nat \<times> nat) option" where
  "scan_table n_blocks i [] n_free = None"
| "scan_table n_blocks i (a # as) n_free =
     (case scan_slots n_blocks i a [0, 1, 2, 3] n_free of
        Inl hit \<Rightarrow> Some hit
      | Inr n_free \<Rightarrow> scan_table n_blocks (i + 1) as n_free)"

definition find_free :: "gc_area \<Rightarrow> nat \<Rightarrow> (nat \<times> nat) option" where
  "find_free a n_blocks =
     scan_table n_blocks (gc_last_free_atb_index a)
       (drop (gc_last_free_atb_index a) (take (gc_alloc_table_byte_len a) (gc_alloc_table a))) 0"

definition blocks_for :: "u32 \<Rightarrow> nat" where
  "blocks_for n_bytes = unat ((n_bytes + 16 - 1) AND NOT (16 - 1)) div BYTES_PER_BLOCK"

text \<open>From the label \<open>found\<close> on.\<close>

definition take_blocks :: "nat \<Rightarrow> nat \<Rightarrow> gc_state \<Rightarrow> u32 \<times> gc_state" where
  "take_blocks i n_free s =
     (let a = gc_area s;
          end_block = i;
          start_block = i + 1 - n_free;
          free_index = (if n_free = 1 then (i + 1) div BLOCKS_PER_ATB else gc_last_free_atb_index a);
          t = atb_free_to_head (gc_alloc_table a) start_block;
          t = fold (\<lambda>bl t. atb_free_to_tail t bl) [start_block + 1..<end_block + 1] t;
          ret_ptr = gc_pool_start a + of_nat (start_block * BYTES_PER_BLOCK)
      in (ret_ptr,
          s\<lparr>gc_area := a\<lparr>gc_alloc_table := t, gc_last_free_atb_index := free_index,
               gc_last_used_block := max (gc_last_used_block a) end_block\<rparr>,
            gc_mem := fst (memset (gc_mem s) ret_ptr 0 (of_nat ((end_block - start_block + 1) * BYTES_PER_BLOCK)))\<rparr>))"

text \<open>\<open>collect\<close> is \<open>gc_collect\<close> with the roots of the moment.\<close>

definition gc_alloc :: "(gc_state \<Rightarrow> gc_state) \<Rightarrow> gc_state \<Rightarrow> u32 \<Rightarrow> u32 \<times> gc_state" where
  "gc_alloc collect s n_bytes =
     (let n_blocks = blocks_for n_bytes
      in if n_blocks = 0 then (0, s)
         else if 0 < gc_lock_depth s then (0, s)
         else case find_free (gc_area s) n_blocks of
           Some (i, n_free) \<Rightarrow> take_blocks i n_free s
         | None \<Rightarrow>
             if \<not> gc_auto_collect s then (0, s)
             else let s = collect s
                  in case find_free (gc_area s) n_blocks of
                       Some (i, n_free) \<Rightarrow> take_blocks i n_free s
                     | None \<Rightarrow> (0, s))"

section \<open>Freeing and resizing\<close>

text \<open>The \<open>do\<close> loop of \<open>gc_free\<close>: the block itself, then its tail blocks.\<close>

function free_chain :: "u8 list \<Rightarrow> nat \<Rightarrow> u8 list" where
  "free_chain t b =
     (let t = atb_any_to_free t b
      in if atb_get_kind t (b + 1) = AT_TAIL then free_chain t (b + 1) else t)"
  by auto
termination
proof (relation "measure (\<lambda>(t, b). 4 * length t - b)")
  fix t t' :: "u8 list" and b :: nat
  assume "t' = atb_any_to_free t b" "atb_get_kind t' (b + 1) = AT_TAIL"
  then have "(b + 1) div 4 < length t'" "length t' = length t"
    using atb_kind_in_range [of t' "b + 1"] by simp_all
  then show "((t', b + 1), t, b) \<in> measure (\<lambda>(t, b). 4 * length t - b)" by auto
qed simp

declare free_chain.simps [simp del]

definition gc_free :: "gc_state \<Rightarrow> u32 \<Rightarrow> gc_state option" where
  "gc_free s ptr =
     (if 0 < gc_lock_depth s then Some s
      else if ptr = 0 then Some s
      else if \<not> verify_ptr (gc_area s) ptr then None
      else
        let a = gc_area s; b = block_from_ptr a ptr
        in if atb_get_kind (gc_alloc_table a) b \<noteq> AT_HEAD then None
           else Some (s\<lparr>gc_area := a\<lparr>
             gc_last_free_atb_index :=
               (if b div BLOCKS_PER_ATB < gc_last_free_atb_index a then b div BLOCKS_PER_ATB
                else gc_last_free_atb_index a),
             gc_alloc_table := free_chain (gc_alloc_table a) b\<rparr>\<rparr>))"

definition gc_nbytes :: "gc_state \<Rightarrow> u32 \<Rightarrow> nat" where
  "gc_nbytes s ptr =
     (let a = gc_area s; b = block_from_ptr a ptr
      in if verify_ptr a ptr \<and> atb_get_kind (gc_alloc_table a) b = AT_HEAD
         then chain_len (gc_alloc_table a) b * BYTES_PER_BLOCK else 0)"

text \<open>The counting loop of \<open>gc_realloc\<close>, over the blocks that follow the head.\<close>

fun count_blocks :: "u8 list \<Rightarrow> nat \<Rightarrow> nat list \<Rightarrow> nat \<Rightarrow> nat \<Rightarrow> nat \<times> nat" where
  "count_blocks t new_blocks [] n_blocks n_free = (n_blocks, n_free)"
| "count_blocks t new_blocks (bl # bls) n_blocks n_free =
     (if atb_get_kind t bl = AT_TAIL then count_blocks t new_blocks bls (n_blocks + 1) n_free
      else if atb_get_kind t bl = AT_FREE then
        (if new_blocks \<le> n_blocks + (n_free + 1) then (n_blocks, n_free + 1)
         else count_blocks t new_blocks bls n_blocks (n_free + 1))
      else (n_blocks, n_free))"

definition shrink_blocks :: "nat \<Rightarrow> nat \<Rightarrow> nat \<Rightarrow> gc_state \<Rightarrow> gc_state" where
  "shrink_blocks b new_blocks n_blocks s =
     (let a = gc_area s;
          t = fold (\<lambda>bl t. atb_any_to_free t bl) [b + new_blocks..<b + n_blocks] (gc_alloc_table a)
      in s\<lparr>gc_area := a\<lparr>gc_alloc_table := t,
           gc_last_free_atb_index :=
             (if (b + new_blocks) div BLOCKS_PER_ATB < gc_last_free_atb_index a
              then (b + new_blocks) div BLOCKS_PER_ATB else gc_last_free_atb_index a)\<rparr>\<rparr>)"

definition grow_blocks :: "u32 \<Rightarrow> nat \<Rightarrow> nat \<Rightarrow> nat \<Rightarrow> gc_state \<Rightarrow> gc_state" where
  "grow_blocks ptr b new_blocks n_blocks s =
     (let a = gc_area s;
          t = fold (\<lambda>bl t. atb_free_to_tail t bl) [b + n_blocks..<b + new_blocks] (gc_alloc_table a)
      in s\<lparr>gc_area := a\<lparr>gc_alloc_table := t, gc_last_used_block := max (gc_last_used_block a) (b + new_blocks)\<rparr>,
           gc_mem := fst (memset (gc_mem s) (ptr + of_nat (n_blocks * BYTES_PER_BLOCK)) 0
             (of_nat ((new_blocks - n_blocks) * BYTES_PER_BLOCK)))\<rparr>)"

definition gc_realloc ::
  "(gc_state \<Rightarrow> gc_state) \<Rightarrow> gc_state \<Rightarrow> u32 \<Rightarrow> u32 \<Rightarrow> bool \<Rightarrow> (u32 \<times> gc_state) option" where
  "gc_realloc collect s ptr n_bytes allow_move =
     (if ptr = 0 then Some (gc_alloc collect s n_bytes)
      else if n_bytes = 0 then map_option (Pair 0) (gc_free s ptr)
      else if 0 < gc_lock_depth s then Some (0, s)
      else if \<not> verify_ptr (gc_area s) ptr then None
      else
        let a = gc_area s; b = block_from_ptr a ptr; t = gc_alloc_table a
        in if atb_get_kind t b \<noteq> AT_HEAD then None
           else
             let new_blocks = unat ((n_bytes + 16 - 1) div 16);
                 (n_blocks, n_free) = count_blocks t new_blocks [b + 1..<total_blocks a] 1 0
             in if new_blocks = n_blocks then Some (ptr, s)
                else if new_blocks < n_blocks then Some (ptr, shrink_blocks b new_blocks n_blocks s)
                else if new_blocks \<le> n_blocks + n_free then Some (ptr, grow_blocks ptr b new_blocks n_blocks s)
                else if \<not> allow_move then Some (0, s)
                else
                  let (ptr_out, s) = gc_alloc collect s n_bytes
                  in if ptr_out = 0 then Some (0, s)
                     else
                       let s = s\<lparr>gc_mem := fst (memcpy (gc_mem s) ptr_out ptr (of_nat (n_blocks * BYTES_PER_BLOCK)))\<rparr>
                       in map_option (Pair ptr_out) (gc_free s ptr))"

section \<open>Statistics\<close>

record gc_info_t =
  info_total :: nat
  info_used :: nat
  info_free :: nat
  info_max_free :: nat
  info_num_1block :: nat
  info_num_2block :: nat
  info_max_block :: nat

text \<open>One turn of the loop of \<open>gc_info\<close>, \<open>len\<close> and \<open>len_free\<close> being its run lengths.\<close>

definition info_step :: "gc_area \<Rightarrow> nat \<Rightarrow> gc_info_t \<times> nat \<times> nat \<Rightarrow> gc_info_t \<times> nat \<times> nat" where
  "info_step a b st = (case st of (info, len, len_free) \<Rightarrow>
     let t = gc_alloc_table a;
         kind = atb_get_kind t b;
         (info, len, len_free) =
           (if kind = AT_FREE then (info\<lparr>info_free := info_free info + 1\<rparr>, 0, len_free + 1)
            else if kind = AT_HEAD then (info\<lparr>info_used := info_used info + 1\<rparr>, 1, len_free)
            else if kind = AT_TAIL then (info\<lparr>info_used := info_used info + 1\<rparr>, len + 1, len_free)
            else (info, len, len_free));
         finish = (b + 1 = total_blocks a);
         kind = (if finish then kind else atb_get_kind t (b + 1))
     in if finish \<or> kind = AT_FREE \<or> kind = AT_HEAD then
          let info = (if len = 1 then info\<lparr>info_num_1block := info_num_1block info + 1\<rparr>
                      else if len = 2 then info\<lparr>info_num_2block := info_num_2block info + 1\<rparr> else info);
              info = (if info_max_block info < len then info\<lparr>info_max_block := len\<rparr> else info)
          in if finish \<or> kind = AT_HEAD then
               ((if info_max_free info < len_free then info\<lparr>info_max_free := len_free\<rparr> else info), len, 0)
             else (info, len, len_free)
        else (info, len, len_free))"

definition gc_info :: "gc_state \<Rightarrow> gc_info_t" where
  "gc_info s =
     (let a = gc_area s;
          zero = \<lparr>info_total = unat (gc_pool_end a - gc_pool_start a), info_used = 0, info_free = 0, info_max_free = 0,
                  info_num_1block = 0, info_num_2block = 0, info_max_block = 0\<rparr>;
          info = fst (fold (info_step a) [0..<total_blocks a] (zero, 0, 0))
      in info\<lparr>info_used := info_used info * BYTES_PER_BLOCK, info_free := info_free info * BYTES_PER_BLOCK\<rparr>)"

end
