(* ===== verification/GcHeap.thy ===== *)
theory GcHeap
  imports Gc
begin

text \<open>
  The heap invariant \<open>gc_ok\<close> of the collector, the passage between blocks and pointers, chains of
  blocks, and what the search for a run of free blocks finds.
\<close>

abbreviation gc_kind :: "gc_state \<Rightarrow> nat \<Rightarrow> u8" where
  "gc_kind s b \<equiv> atb_get_kind (gc_alloc_table (gc_area s)) b"

text \<open>The pool is a range of whole, aligned blocks that does not wrap around.\<close>

definition layout_ok :: "gc_area \<Rightarrow> bool" where
  "layout_ok a \<longleftrightarrow> length (gc_alloc_table a) = gc_alloc_table_byte_len a + 1
     \<and> unat (gc_pool_start a) + total_blocks a * 16 = unat (gc_pool_end a)
     \<and> 0 < unat (gc_pool_start a) \<and> unat (gc_pool_start a) mod 16 = 0"

text \<open>
  \<open>kinds_ok\<close>: blocks beyond the heap are free (the gap byte), every tail follows a block of its
  chain, no block below the search index is free, none above the sweep bound is in use.
\<close>

definition kinds_ok :: "gc_area \<Rightarrow> bool" where
  "kinds_ok a \<longleftrightarrow> (let k = atb_get_kind (gc_alloc_table a) in
     (\<forall>b. total_blocks a \<le> b \<longrightarrow> k b = AT_FREE)
     \<and> (\<forall>b. k b = AT_TAIL \<longrightarrow> 0 < b \<and> k (b - 1) \<noteq> AT_FREE)
     \<and> gc_last_free_atb_index a \<le> gc_alloc_table_byte_len a
     \<and> (\<forall>b < 4 * gc_last_free_atb_index a. k b \<noteq> AT_FREE)
     \<and> (\<forall>b. k b \<noteq> AT_FREE \<longrightarrow> b \<le> gc_last_used_block a))"

definition gc_ok :: "gc_state \<Rightarrow> bool" where
  "gc_ok s \<longleftrightarrow> layout_ok (gc_area s) \<and> kinds_ok (gc_area s) \<and> (\<forall>b. gc_kind s b \<noteq> AT_MARK)"

lemma kinds_okD:
  assumes "kinds_ok a"
  shows "total_blocks a \<le> b \<Longrightarrow> atb_get_kind (gc_alloc_table a) b = 0"
    and "atb_get_kind (gc_alloc_table a) b = 2 \<Longrightarrow> 0 < b \<and> atb_get_kind (gc_alloc_table a) (b - 1) \<noteq> 0"
    and "gc_last_free_atb_index a \<le> gc_alloc_table_byte_len a"
    and "b < 4 * gc_last_free_atb_index a \<Longrightarrow> atb_get_kind (gc_alloc_table a) b \<noteq> 0"
    and "atb_get_kind (gc_alloc_table a) b \<noteq> 0 \<Longrightarrow> b \<le> gc_last_used_block a"
  using assms by (auto simp: kinds_ok_def Let_def)

lemma used_in_pool: "kinds_ok a \<Longrightarrow> atb_get_kind (gc_alloc_table a) b \<noteq> 0 \<Longrightarrow> b < total_blocks a"
  using kinds_okD(1) [of a b] by (cases "total_blocks a \<le> b") auto

lemma table_slot: "layout_ok a \<Longrightarrow> b < total_blocks a \<Longrightarrow> b div 4 < length (gc_alloc_table a)"
  by (auto simp: layout_ok_def total_blocks_def)

section \<open>Blocks and pointers\<close>

lemma ptr_from_block_unat:
  assumes "layout_ok a" "b \<le> total_blocks a"
  shows "unat (ptr_from_block a b) = (unat (gc_pool_start a) + b * 16) mod 2 ^ 32"
    and "b < total_blocks a \<Longrightarrow> unat (ptr_from_block a b) = unat (gc_pool_start a) + b * 16"
proof -
  have le: "unat (gc_pool_start a) + b * 16 \<le> unat (gc_pool_end a)"
    using assms by (simp add: layout_ok_def)
  then have "b * 16 < 4294967296" using u32_bound [of "gc_pool_end a"] by linarith
  then have u: "unat (of_nat (b * 16) :: u32) = b * 16" by (rule unat_of_nat_small)
  have plus: "unat (x + y :: u32) = (unat x + unat y) mod 2 ^ 32" for x y
    by (simp add: unat_word_ariths)
  show mod: "unat (ptr_from_block a b) = (unat (gc_pool_start a) + b * 16) mod 2 ^ 32"
    unfolding ptr_from_block_def plus u by (simp only: add.commute)
  show "unat (ptr_from_block a b) = unat (gc_pool_start a) + b * 16" if "b < total_blocks a"
  proof -
    have "unat (gc_pool_start a) + b * 16 < unat (gc_pool_end a)"
      using that assms(1) by (simp add: layout_ok_def)
    also have "\<dots> < 2 ^ 32" by simp
    finally have "unat (gc_pool_start a) + b * 16 < 2 ^ 32" .
    then show ?thesis unfolding mod by (rule mod_less)
  qed
qed

lemma verify_ptr_block:
  assumes "layout_ok a" "verify_ptr a p"
  shows "block_from_ptr a p < total_blocks a" "ptr_from_block a (block_from_ptr a p) = p"
proof -
  have le: "unat (gc_pool_start a) \<le> unat p" "unat p < unat (gc_pool_end a)"
    using assms(2) by (simp_all add: verify_ptr_def word_le_nat_alt word_less_nat_alt)
  then have d: "unat (p - gc_pool_start a) = unat p - unat (gc_pool_start a)" by (simp add: unat_sub_le)
  have "unat (p AND 15) = unat p mod 16"
  proof -
    have "p AND 15 = take_bit 4 p" by (simp add: take_bit_eq_mask mask_eq_exp_minus_1)
    moreover have "unat (take_bit 4 p) = take_bit 4 (unat p)" by (rule unsigned_take_bit_eq)
    ultimately show ?thesis by (simp add: take_bit_eq_mod)
  qed
  moreover have "p AND 15 = 0" using assms(2) by (simp add: verify_ptr_def)
  ultimately have m: "unat p mod 16 = 0" by (metis unat_0)
  have pool: "unat (gc_pool_start a) + total_blocks a * 16 = unat (gc_pool_end a)" "unat (gc_pool_start a) mod 16 = 0"
    using assms(1) by (simp_all add: layout_ok_def)
  have "16 dvd unat p" "16 dvd unat (gc_pool_start a)" using m pool(2) by (simp_all add: dvd_eq_mod_eq_0)
  then have "16 dvd unat p - unat (gc_pool_start a)" by (rule dvd_diff_nat)
  then have b: "block_from_ptr a p * 16 = unat p - unat (gc_pool_start a)"
    by (simp add: block_from_ptr_def d)
  then show "block_from_ptr a p < total_blocks a" using le pool by linarith
  then have "unat (ptr_from_block a (block_from_ptr a p)) = unat p"
    using ptr_from_block_unat(2) [OF assms(1), of "block_from_ptr a p"] b le by simp
  then show "ptr_from_block a (block_from_ptr a p) = p" by (simp only: word_unat_eq_iff)
qed

lemma block_ptr:
  assumes "layout_ok a" "b < total_blocks a"
  shows "verify_ptr a (ptr_from_block a b)" "block_from_ptr a (ptr_from_block a b) = b" "ptr_from_block a b \<noteq> 0"
proof -
  let ?p = "ptr_from_block a b"
  have u: "unat ?p = unat (gc_pool_start a) + b * 16"
    using ptr_from_block_unat(2) [OF assms(1) _ assms(2)] assms(2) by simp
  have pool: "unat (gc_pool_start a) + total_blocks a * 16 = unat (gc_pool_end a)" "unat (gc_pool_start a) mod 16 = 0"
    "0 < unat (gc_pool_start a)"
    using assms(1) by (simp_all add: layout_ok_def)
  have "?p AND 15 = take_bit 4 ?p" by (simp add: take_bit_eq_mask mask_eq_exp_minus_1)
  moreover have "unat (take_bit 4 ?p) = take_bit 4 (unat ?p)" by (rule unsigned_take_bit_eq)
  ultimately have "unat (?p AND 15) = unat ?p mod 16" by (simp add: take_bit_eq_mod)
  then have "unat (?p AND 15) = 0" using u pool(2) by simp
  then have "?p AND 15 = 0" by (simp only: word_unat_eq_iff unat_0)
  then show "verify_ptr a ?p"
    using u pool assms(2) by (simp add: verify_ptr_def word_le_nat_alt word_less_nat_alt)
  have "unat (?p - gc_pool_start a) = b * 16" using u by (simp add: unat_sub_le)
  then show "block_from_ptr a ?p = b" by (simp add: block_from_ptr_def)
  have "unat ?p \<noteq> 0" using u pool(3) by simp
  then show "?p \<noteq> 0" by auto
qed

section \<open>Chains\<close>

lemma chain_end_spec:
  "b \<le> chain_end t b \<and> (\<forall>c. b \<le> c \<and> c < chain_end t b \<longrightarrow> atb_get_kind t c = 2)
     \<and> atb_get_kind t (chain_end t b) \<noteq> 2"
proof (induction t b rule: chain_end.induct)
  case (1 t b)
  show ?case
  proof (cases "atb_get_kind t b = 2")
    case True
    then have e: "chain_end t b = chain_end t (b + 1)" by (subst chain_end.simps) simp
    have "atb_get_kind t c = 2" if "b \<le> c" "c < chain_end t b" for c
      using 1 [OF True] that True by (cases "c = b") (auto simp: e)
    then show ?thesis using 1 [OF True] by (simp add: e)
  next
    case False
    then have "chain_end t b = b" by (subst chain_end.simps) simp
    with False show ?thesis by auto
  qed
qed

lemma chain_end_unique:
  assumes "b \<le> e" "\<And>c. b \<le> c \<Longrightarrow> c < e \<Longrightarrow> atb_get_kind t c = 2" "atb_get_kind t e \<noteq> 2"
  shows "chain_end t b = e"
proof (rule antisym)
  show "chain_end t b \<le> e"
    using chain_end_spec [of b t] assms(1,3) by (meson leI)
  show "e \<le> chain_end t b"
    using chain_end_spec [of b t] assms(2) by (meson leI)
qed

lemma chain_end_cong:
  "(\<And>c. atb_get_kind t' c = 2 \<longleftrightarrow> atb_get_kind t c = 2) \<Longrightarrow> chain_end t' b = chain_end t b"
  using chain_end_spec [of b t] by (intro chain_end_unique) auto

lemma chain_len_pos: "0 < chain_len t b"
  using chain_end_spec [of "b + 1" t] by (simp add: chain_len_def)

lemma chain_in_heap:
  assumes "kinds_ok a" "atb_get_kind (gc_alloc_table a) b \<noteq> 0"
  shows "b + chain_len (gc_alloc_table a) b \<le> total_blocks a"
proof -
  let ?t = "gc_alloc_table a"
  have e: "b + chain_len ?t b = chain_end ?t (b + 1)"
    using chain_end_spec [of "b + 1" ?t] by (simp add: chain_len_def)
  show ?thesis
  proof (cases "chain_end ?t (b + 1) = b + 1")
    case True
    then show ?thesis using used_in_pool [OF assms] e by simp
  next
    case False
    then have "atb_get_kind ?t (chain_end ?t (b + 1) - 1) = 2"
      using chain_end_spec [of "b + 1" ?t] by auto
    then have "chain_end ?t (b + 1) - 1 < total_blocks a" by (intro used_in_pool [OF assms(1)]) simp
    then show ?thesis using e by simp
  qed
qed

section \<open>The search for free blocks\<close>

text \<open>The search over bytes and masks is a linear scan over blocks.\<close>

fun scan_lin :: "(nat \<Rightarrow> bool) \<Rightarrow> nat \<Rightarrow> nat list \<Rightarrow> nat \<Rightarrow> (nat \<times> nat) option" where
  "scan_lin f n [] n_free = None"
| "scan_lin f n (b # bs) n_free =
     (if f b then (if n \<le> n_free + 1 then Some (b, n_free + 1) else scan_lin f n bs (n_free + 1))
      else scan_lin f n bs 0)"

lemma scan_slots_lin:
  "(\<And>k. k \<in> set ks \<Longrightarrow> f (4 * i + k) \<longleftrightarrow> a AND push_bit (2 * k) 3 = 0) \<Longrightarrow>
     scan_lin f n (map (\<lambda>k. 4 * i + k) ks @ rest) nf
       = (case scan_slots n i a ks nf of Inl hit \<Rightarrow> Some hit | Inr nf' \<Rightarrow> scan_lin f n rest nf')"
  by (induction ks arbitrary: nf) (auto simp: mult.commute)

lemma slot_free:
  assumes "k < 4"
  shows "drop_bit (2 * k) a AND 3 = (0 :: u8) \<longleftrightarrow> a AND push_bit (2 * k) 3 = 0"
proof
  have "drop_bit (2 * k) (a AND push_bit (2 * k) 3) = drop_bit (2 * k) a AND 3"
    unfolding two_bits using assms by (intro bit_word_eqI) (auto simp: bit_simps bit_three)
  then show "drop_bit (2 * k) a AND 3 = 0" if "a AND push_bit (2 * k) 3 = 0" using that by simp
  have "push_bit (2 * k) (drop_bit (2 * k) a AND 3) = a AND push_bit (2 * k) 3"
    unfolding two_bits using assms by (intro bit_word_eqI) (auto simp: bit_simps bit_three)
  then show "a AND push_bit (2 * k) 3 = 0" if "drop_bit (2 * k) a AND 3 = 0" using that by simp
qed

lemma scan_table_lin:
  "(\<And>j k. j < length as \<Longrightarrow> k < 4 \<Longrightarrow> f (4 * (i + j) + k) \<longleftrightarrow> (as ! j) AND push_bit (2 * k) 3 = 0) \<Longrightarrow>
     scan_table n i as nf = scan_lin f n [4 * i..<4 * (i + length as)] nf"
proof (induction as arbitrary: i nf)
  case Nil
  then show ?case by simp
next
  case (Cons a as)
  have "[4 * i..<4 * (i + length (a # as))] = map (\<lambda>k. 4 * i + k) [0, 1, 2, 3] @ [4 * (i + 1)..<4 * (i + 1 + length as)]"
    using upt_add_eq_append [of "4 * i" "4 * i + 4" "4 * length as"] by (simp add: upt_rec algebra_simps)
  moreover have "scan_lin f n (map (\<lambda>k. 4 * i + k) [0, 1, 2, 3] @ rest) nf
      = (case scan_slots n i a [0, 1, 2, 3] nf of Inl hit \<Rightarrow> Some hit | Inr nf' \<Rightarrow> scan_lin f n rest nf')" for rest
  proof (rule scan_slots_lin)
    show "f (4 * i + k) \<longleftrightarrow> a AND push_bit (2 * k) 3 = 0" if "k \<in> set [0, 1, 2, 3]" for k
      using Cons.prems [of 0 k] that by auto
  qed
  moreover have "scan_table n (i + 1) as nf' = scan_lin f n [4 * (i + 1)..<4 * (i + 1 + length as)] nf'" for nf'
  proof (rule Cons.IH)
    show "f (4 * (i + 1 + j) + k) \<longleftrightarrow> (as ! j) AND push_bit (2 * k) 3 = 0" if "j < length as" "k < 4" for j k
      using Cons.prems [of "Suc j" k] that by simp
  qed
  ultimately show ?case by (simp split: sum.split)
qed

lemma scan_lin_sound:
  "scan_lin f n [b..<m] nf = Some (e, k) \<Longrightarrow> nf < n \<Longrightarrow> nf \<le> b \<Longrightarrow> (\<And>j. b - nf \<le> j \<Longrightarrow> j < b \<Longrightarrow> f j) \<Longrightarrow>
     k = n \<and> n \<le> e + 1 \<and> b \<le> e \<and> e < m \<and> (\<forall>j. e + 1 - n \<le> j \<and> j \<le> e \<longrightarrow> f j)"
proof (induction "m - b" arbitrary: b nf)
  case 0
  then show ?case by simp
next
  case (Suc d)
  then have b: "[b..<m] = b # [b + 1..<m]" "d = m - (b + 1)" by (simp_all add: upt_conv_Cons)
  show ?case
  proof (cases "f b")
    case False
    then have "scan_lin f n [b + 1..<m] 0 = Some (e, k)" using Suc.prems(1) b(1) by simp
    from Suc.hyps(1) [OF b(2) this] Suc.prems(2) show ?thesis by auto
  next
    case True
    show ?thesis
    proof (cases "n \<le> nf + 1")
      case True
      then show ?thesis
        using Suc.prems \<open>f b\<close> b(1) Suc.hyps(2) by (auto simp: le_Suc_eq le_less_Suc_eq) (metis le_neq_implies_less)
    next
      case False
      then have "scan_lin f n [b + 1..<m] (nf + 1) = Some (e, k)" using Suc.prems(1) b(1) True by simp
      moreover have "f j" if "b + 1 - (nf + 1) \<le> j" "j < b + 1" for j
        using that Suc.prems(4) [of j] True by (cases "j = b") auto
      ultimately show ?thesis
        using Suc.hyps(1) [OF b(2), of "nf + 1"] False Suc.prems(3) by auto
    qed
  qed
qed

lemma scan_lin_complete:
  "scan_lin f n [b..<m] nf = None \<Longrightarrow> nf < n \<Longrightarrow> nf \<le> b \<Longrightarrow> b - nf \<le> j \<Longrightarrow> j + n \<le> m \<Longrightarrow>
     \<exists>i. j \<le> i \<and> i < j + n \<and> \<not> f i"
proof (induction "m - b" arbitrary: b nf)
  case 0
  then show ?case by simp
next
  case (Suc d)
  then have b: "[b..<m] = b # [b + 1..<m]" "d = m - (b + 1)" by (simp_all add: upt_conv_Cons)
  show ?case
  proof (cases "f b")
    case True
    then have "\<not> n \<le> nf + 1" "scan_lin f n [b + 1..<m] (nf + 1) = None"
      using Suc.prems(1) b(1) by (auto split: if_splits)
    then show ?thesis using Suc.hyps(1) [OF b(2), of "nf + 1"] Suc.prems by auto
  next
    case False
    then have none: "scan_lin f n [b + 1..<m] 0 = None" using Suc.prems(1) b(1) by simp
    show ?thesis
    proof (cases "j \<le> b")
      case True
      then show ?thesis using False Suc.prems by (intro exI [of _ b]) auto
    next
      case False
      then show ?thesis using Suc.hyps(1) [OF b(2) none] Suc.prems by auto
    qed
  qed
qed

lemma scan_lin_first:
  "scan_lin f 1 [b..<m] 0 = Some (e, k) \<Longrightarrow> b \<le> j \<Longrightarrow> j < e \<Longrightarrow> \<not> f j"
proof (induction "m - b" arbitrary: b)
  case 0
  then show ?case by simp
next
  case (Suc d)
  then have b: "[b..<m] = b # [b + 1..<m]" "d = m - (b + 1)" by (simp_all add: upt_conv_Cons)
  show ?case
  proof (cases "f b")
    case True
    then show ?thesis using Suc.prems b(1) by simp
  next
    case False
    then have "scan_lin f 1 [b + 1..<m] 0 = Some (e, k)" using Suc.prems(1) b(1) by simp
    with Suc.hyps(1) [OF b(2) this] Suc.prems(2,3) False show ?thesis by (cases "j = b") auto
  qed
qed

lemma find_free_lin:
  assumes "layout_ok a" "kinds_ok a"
  shows "find_free a n
    = scan_lin (\<lambda>b. atb_get_kind (gc_alloc_table a) b = 0) n [4 * gc_last_free_atb_index a..<total_blocks a] 0"
proof -
  let ?i = "gc_last_free_atb_index a" and ?t = "gc_alloc_table a"
  let ?as = "drop ?i (take (gc_alloc_table_byte_len a) ?t)"
  have len: "?i + length ?as = gc_alloc_table_byte_len a"
    using kinds_okD(3) [OF assms(2)] assms(1) by (simp add: layout_ok_def)
  have "scan_table n ?i ?as 0 = scan_lin (\<lambda>b. atb_get_kind ?t b = 0) n [4 * ?i..<4 * (?i + length ?as)] 0"
  proof (rule scan_table_lin)
    show "atb_get_kind ?t (4 * (?i + j) + k) = 0 \<longleftrightarrow> (?as ! j) AND push_bit (2 * k) 3 = 0"
      if "j < length ?as" "k < 4" for j k
    proof -
      have "?i + j < gc_alloc_table_byte_len a" using that(1) len by linarith
      then have "?as ! j = ?t ! (?i + j)" "?i + j < length ?t"
        using assms(1) by (simp_all add: layout_ok_def)
      moreover have "(4 * (?i + j) + k) div 4 = ?i + j" "(4 * (?i + j) + k) mod 4 = k"
        using that(2) by presburger+
      ultimately show ?thesis
        using slot_free [OF that(2), of "?t ! (?i + j)"] by (simp only: atb_get_kind_def block_shift_def if_True)
    qed
  qed
  then show ?thesis unfolding find_free_def len by (simp add: total_blocks_def mult.commute)
qed

text \<open>What a hit and a miss of the search mean for the heap.\<close>

lemma find_free_hit:
  assumes "layout_ok a" "kinds_ok a" "find_free a n = Some (e, k)" "0 < n"
  shows "k = n" "n \<le> e + 1" "e < total_blocks a"
    and "\<And>b. e + 1 - n \<le> b \<Longrightarrow> b \<le> e \<Longrightarrow> atb_get_kind (gc_alloc_table a) b = 0"
    and "n = 1 \<Longrightarrow> b < e \<Longrightarrow> atb_get_kind (gc_alloc_table a) b \<noteq> 0"
proof -
  note hit = assms(3) [unfolded find_free_lin [OF assms(1,2)]]
  have "k = n \<and> n \<le> e + 1 \<and> 4 * gc_last_free_atb_index a \<le> e \<and> e < total_blocks a
      \<and> (\<forall>j. e + 1 - n \<le> j \<and> j \<le> e \<longrightarrow> atb_get_kind (gc_alloc_table a) j = 0)"
    using assms(4) by (intro scan_lin_sound [OF hit]) auto
  then show "k = n" "n \<le> e + 1" "e < total_blocks a"
    "\<And>b. e + 1 - n \<le> b \<Longrightarrow> b \<le> e \<Longrightarrow> atb_get_kind (gc_alloc_table a) b = 0" by auto
  show "atb_get_kind (gc_alloc_table a) b \<noteq> 0" if "n = 1" "b < e"
    using scan_lin_first [of _ "4 * gc_last_free_atb_index a" "total_blocks a" e k b]
      kinds_okD(4) [OF assms(2), of b] hit that by (cases "b < 4 * gc_last_free_atb_index a") auto
qed

lemma find_free_miss:
  assumes "layout_ok a" "kinds_ok a" "find_free a n = None" "0 < n" "b + n \<le> total_blocks a"
  shows "\<exists>i. b \<le> i \<and> i < b + n \<and> atb_get_kind (gc_alloc_table a) i \<noteq> 0"
proof (cases "b < 4 * gc_last_free_atb_index a")
  case True
  then show ?thesis using kinds_okD(4) [OF assms(2) True] assms(4) by (intro exI [of _ b]) simp
next
  case False
  then show ?thesis
    using scan_lin_complete [OF assms(3) [unfolded find_free_lin [OF assms(1,2)]], of b] assms(4,5) by auto
qed

end
