(* ===== verification/GcMark.thy ===== *)
theory GcMark
  imports GcHeap
begin

text \<open>
  Marking and sweeping: with a mark stack of 64 entries that may overflow and be made up for by
  rescans, the blocks marked are exactly the heads reachable from the roots, and the sweep frees
  exactly the chains of the others.
\<close>

section \<open>The object graph\<close>

text \<open>
  \<open>targets a t ws\<close>: the allocated chains the words \<open>ws\<close> point to (at their heads).
  \<open>gc_reach a m t ws\<close>: the heads reached from the root words \<open>ws\<close> through the words stored
  in the blocks of every reached chain.
\<close>

definition targets :: "gc_area \<Rightarrow> u8 list \<Rightarrow> u32 list \<Rightarrow> nat set" where
  "targets a t ws = {c. \<exists>w \<in> set ws. verify_ptr a w \<and> c = block_from_ptr a w \<and> atb_get_kind t c = AT_HEAD}"

inductive_set gc_reach :: "gc_area \<Rightarrow> mem \<Rightarrow> u8 list \<Rightarrow> u32 list \<Rightarrow> nat set"
  for a :: gc_area and m :: mem and t :: "u8 list" and ws :: "u32 list" where
  root: "c \<in> targets a t ws \<Longrightarrow> c \<in> gc_reach a m t ws"
| step: "b \<in> gc_reach a m t ws \<Longrightarrow> c \<in> targets a t (block_words a m t b) \<Longrightarrow> c \<in> gc_reach a m t ws"

text \<open>\<open>marked_by t0 M t\<close>: \<open>t\<close> is \<open>t0\<close> with the heads in \<open>M\<close> marked.\<close>

definition marked_by :: "u8 list \<Rightarrow> nat set \<Rightarrow> u8 list \<Rightarrow> bool" where
  "marked_by t0 M t \<longleftrightarrow> length t = length t0 \<and> (\<forall>c \<in> M. atb_get_kind t0 c = AT_HEAD)
     \<and> (\<forall>c. atb_get_kind t c = (if c \<in> M then AT_MARK else atb_get_kind t0 c))"

lemma marked_byD:
  assumes "marked_by t0 M t"
  shows "atb_get_kind t c = (if c \<in> M then 3 else atb_get_kind t0 c)" "c \<in> M \<Longrightarrow> atb_get_kind t0 c = 1"
    "length t = length t0"
  using assms by (auto simp: marked_by_def)

lemma marked_by_empty: "marked_by t {} t"
  by (simp add: marked_by_def)

lemma block_words_marked:
  assumes "marked_by t0 M t"
  shows "block_words a m t b = block_words a m t0 b"
proof -
  have "chain_end t b = chain_end t0 b" for b
    using marked_byD(1,2) [OF assms] by (intro chain_end_cong) auto
  then show ?thesis by (simp add: block_words_def chain_len_def)
qed

lemma marked_by_insert:
  assumes "marked_by t0 M t" "atb_get_kind t c = 1"
  shows "marked_by t0 (insert c M) (atb_head_to_mark t c)"
proof -
  have "atb_get_kind (atb_head_to_mark t c) d = (if d = c then 3 else atb_get_kind t d)" for d
    using atb_kinds(4) [OF _ assms(2)] atb_kind_in_range [of t c] assms(2) by simp
  then show ?thesis using assms by (auto simp: marked_by_def split: if_splits)
qed

section \<open>One chain and its descendants\<close>

text \<open>Scanning words marks their targets; what is not pushed leaves the overflow flag set.\<close>

definition scanned :: "nat set \<Rightarrow> nat set \<Rightarrow> mark_state \<Rightarrow> mark_state \<Rightarrow> bool" where
  "scanned M N st st' \<longleftrightarrow> set (fst (snd st)) \<subseteq> set (fst (snd st')) \<and> set (fst (snd st')) \<subseteq> set (fst (snd st)) \<union> N
     \<and> (snd (snd st) \<longrightarrow> snd (snd st')) \<and> (\<not> snd (snd st') \<longrightarrow> N - M \<subseteq> set (fst (snd st')))"

lemma mark_child_scan:
  assumes "marked_by t0 M (fst st)"
  shows "marked_by t0 (M \<union> targets a t0 [w]) (fst (mark_child a w st)) \<and> scanned M (targets a t0 [w]) st (mark_child a w st)"
proof (cases st)
  case (fields t stack ov)
  let ?c = "block_from_ptr a w"
  have t: "marked_by t0 M t" using assms fields by simp
  show ?thesis
  proof (cases "verify_ptr a w \<and> atb_get_kind t ?c = 1")
    case False
    then have "targets a t0 [w] \<subseteq> M"
      using marked_byD(1) [OF t, of ?c] by (auto simp: targets_def split: if_splits)
    then have "M \<union> targets a t0 [w] = M" by blast
    moreover have "mark_child a w st = st" using False by (auto simp: mark_child_def fields Let_def)
    ultimately show ?thesis using assms \<open>targets a t0 [w] \<subseteq> M\<close> by (simp add: scanned_def Diff_eq_empty_iff [THEN iffD2])
  next
    case True
    then have "atb_get_kind t0 ?c = 1" using marked_byD(1) [OF t, of ?c] by (auto split: if_splits)
    then have tg: "targets a t0 [w] = {?c}" using True by (auto simp: targets_def)
    have "mark_child a w st = (if length stack < 64 then (atb_head_to_mark t ?c, ?c # stack, ov) else (atb_head_to_mark t ?c, stack, True))"
      using True by (simp add: mark_child_def fields Let_def)
    moreover have "marked_by t0 (M \<union> {?c}) (atb_head_to_mark t ?c)"
      using marked_by_insert [OF t, of ?c] True by simp
    ultimately show ?thesis by (auto simp: tg scanned_def fields)
  qed
qed

lemma targets_Cons: "targets a t (w # ws) = targets a t [w] \<union> targets a t ws"
  by (auto simp: targets_def)

lemma targets_heads: "c \<in> targets a t ws \<Longrightarrow> atb_get_kind t c = 1"
  by (auto simp: targets_def)

lemma scannedD:
  assumes "scanned M N st st'"
  shows "set (fst (snd st)) \<subseteq> set (fst (snd st'))" "set (fst (snd st')) \<subseteq> set (fst (snd st)) \<union> N"
    "snd (snd st) \<Longrightarrow> snd (snd st')" "\<not> snd (snd st') \<Longrightarrow> N - M \<subseteq> set (fst (snd st'))"
  using assms by (simp_all add: scanned_def)

lemma scanned_trans:
  assumes "scanned M N st st'" "scanned (M \<union> N) K st' st''"
  shows "scanned M (N \<union> K) st st''"
  unfolding scanned_def
proof (intro conjI impI)
  show "set (fst (snd st)) \<subseteq> set (fst (snd st''))" using scannedD(1) [OF assms(1)] scannedD(1) [OF assms(2)] by (rule subset_trans)
  show "set (fst (snd st'')) \<subseteq> set (fst (snd st)) \<union> (N \<union> K)"
    using scannedD(2) [OF assms(1)] scannedD(2) [OF assms(2)] by blast
  show "snd (snd st) \<Longrightarrow> snd (snd st'')" using scannedD(3) [OF assms(1)] scannedD(3) [OF assms(2)] by simp
  assume ov: "\<not> snd (snd st'')"
  then have "\<not> snd (snd st')" using scannedD(3) [OF assms(2)] by blast
  then show "N \<union> K - M \<subseteq> set (fst (snd st''))"
    using scannedD(4) [OF assms(1)] scannedD(4) [OF assms(2) ov] scannedD(1) [OF assms(2)] by blast
qed

lemma scan_words:
  assumes "marked_by t0 M (fst st)"
  shows "marked_by t0 (M \<union> targets a t0 ws) (fst (fold (mark_child a) ws st))
    \<and> scanned M (targets a t0 ws) st (fold (mark_child a) ws st)"
  using assms
proof (induction ws arbitrary: M st)
  case Nil
  then show ?case by (simp add: targets_def scanned_def)
next
  case (Cons w ws)
  let ?st = "mark_child a w st" and ?N = "targets a t0 [w]"
  note one = mark_child_scan [OF Cons.prems, of a w]
  note rest = Cons.IH [OF conjunct1 [OF one]]
  have "scanned M (?N \<union> targets a t0 ws) st (fold (mark_child a) ws ?st)"
    by (rule scanned_trans [OF conjunct2 [OF one] conjunct2 [OF rest]])
  then show ?case using conjunct1 [OF rest] unfolding targets_Cons [of a t0 w ws] fold_Cons comp_apply Un_assoc by blast
qed

abbreviation children :: "gc_area \<Rightarrow> mem \<Rightarrow> u8 list \<Rightarrow> nat \<Rightarrow> nat set" where
  "children a m t b \<equiv> targets a t (block_words a m t b)"

lemma mark_children_scan:
  assumes "marked_by t0 M (fst st)"
  shows "marked_by t0 (M \<union> children a m t0 b) (fst (mark_children a m b st))"
    "scanned M (children a m t0 b) st (mark_children a m b st)"
  using scan_words [OF assms, of a "block_words a m t0 b"]
  by (simp_all add: mark_children_def block_words_marked [OF assms])

text \<open>
  \<open>grown ch M M' P ov ov'\<close>: the marks have grown from \<open>M\<close> to \<open>M'\<close>, only along the edges \<open>ch\<close>,
  and unless the stack overflowed the children of all of \<open>P\<close> and of all new ones are marked.
\<close>

definition grown :: "(nat \<Rightarrow> nat set) \<Rightarrow> nat set \<Rightarrow> nat set \<Rightarrow> nat set \<Rightarrow> bool \<Rightarrow> bool \<Rightarrow> bool" where
  "grown ch M M' P ov ov' \<longleftrightarrow> M \<subseteq> M'
     \<and> (\<forall>R. M \<subseteq> R \<and> (\<forall>x \<in> R. ch x \<subseteq> R) \<longrightarrow> M' \<subseteq> R)
     \<and> (ov \<longrightarrow> ov') \<and> (\<not> ov' \<longrightarrow> (\<forall>x \<in> P \<union> (M' - M). ch x \<subseteq> M'))"

lemma grownI:
  assumes "M \<subseteq> M'" "\<And>R. M \<subseteq> R \<Longrightarrow> (\<And>x. x \<in> R \<Longrightarrow> ch x \<subseteq> R) \<Longrightarrow> M' \<subseteq> R" "ov \<Longrightarrow> ov'"
    "\<And>x. \<not> ov' \<Longrightarrow> x \<in> P \<union> (M' - M) \<Longrightarrow> ch x \<subseteq> M'"
  shows "grown ch M M' P ov ov'"
  using assms by (simp add: grown_def)

lemma grownD:
  assumes "grown ch M M' P ov ov'"
  shows "M \<subseteq> M'" "M \<subseteq> R \<Longrightarrow> (\<And>x. x \<in> R \<Longrightarrow> ch x \<subseteq> R) \<Longrightarrow> M' \<subseteq> R" "ov \<Longrightarrow> ov'"
    "\<not> ov' \<Longrightarrow> x \<in> P \<union> (M' - M) \<Longrightarrow> ch x \<subseteq> M'"
  using assms by (simp_all add: grown_def)

lemma grown_trans:
  assumes "grown ch M M' P ov ov'" "grown ch M' M'' Q ov' ov''"
  shows "grown ch M M'' (P \<union> Q) ov ov''"
proof (rule grownI)
  show "M \<subseteq> M''" using grownD(1) [OF assms(1)] grownD(1) [OF assms(2)] by (rule subset_trans)
  show "M'' \<subseteq> R" if "M \<subseteq> R" "\<And>x. x \<in> R \<Longrightarrow> ch x \<subseteq> R" for R
    using grownD(2) [OF assms(2) grownD(2) [OF assms(1) that]] that(2) by blast
  show "ov''" if "ov" by (rule grownD(3) [OF assms(2) grownD(3) [OF assms(1) that]])
  show "ch x \<subseteq> M''" if ov: "\<not> ov''" and x: "x \<in> P \<union> Q \<union> (M'' - M)" for x
  proof -
    have "\<not> ov'" using grownD(3) [OF assms(2)] ov by blast
    then have "ch x \<subseteq> M'" if "x \<in> P \<union> (M' - M)" using grownD(4) [OF assms(1) _ that] by simp
    moreover have "ch x \<subseteq> M''" if "x \<in> Q \<union> (M'' - M')" using grownD(4) [OF assms(2) ov that] .
    moreover have "x \<in> P \<union> (M' - M) \<or> x \<in> Q \<union> (M'' - M')" using x by blast
    ultimately show ?thesis using grownD(1) [OF assms(2)] by blast
  qed
qed

lemma grown_mono: "grown ch M M' P ov ov' \<Longrightarrow> Q \<subseteq> P \<Longrightarrow> grown ch M M' Q ov ov'"
  by (rule grownI) (blast dest: grownD)+

lemma grown_refl: "grown ch M M {} ov ov"
  by (simp add: grown_def)

text \<open>Scanning one chain \<open>b\<close> that is itself marked, \<open>S\<close> and \<open>S'\<close> being the stacked blocks.\<close>

lemma grown_scan:
  assumes "b \<in> M" "S \<subseteq> S'" "ov \<Longrightarrow> ov'" "\<not> ov' \<Longrightarrow> ch b - M \<subseteq> S'" "grown ch (M \<union> ch b) M' S' ov' ov''"
  shows "grown ch M M' (insert b S) ov ov''"
proof (rule grownI)
  have C: "M \<union> ch b \<subseteq> M'" by (rule grownD(1) [OF assms(5)])
  then show "M \<subseteq> M'" by blast
  show "M' \<subseteq> R" if "M \<subseteq> R" "\<And>x. x \<in> R \<Longrightarrow> ch x \<subseteq> R" for R
    using that(1) that(2) [of b] assms(1) by (intro grownD(2) [OF assms(5)] that(2)) auto
  show "ov''" if "ov" by (rule grownD(3) [OF assms(5) assms(3) [OF that]])
  show "ch x \<subseteq> M'" if ov: "\<not> ov''" and x: "x \<in> insert b S \<union> (M' - M)" for x
  proof (cases "x = b")
    case True
    then show ?thesis using C by blast
  next
    case False
    have "\<not> ov'" using grownD(3) [OF assms(5)] ov by blast
    then have "x \<in> S' \<union> (M' - (M \<union> ch b))" using x False assms(2,4) by blast
    then show ?thesis by (rule grownD(4) [OF assms(5) ov])
  qed
qed

lemma grown_stop: "grown ch M M {} ov ov"
  by (rule grownI) simp_all

lemma mark_loop_grown:
  assumes "marked_by t0 M (fst st)" "b \<in> M" "set (fst (snd st)) \<subseteq> M"
  shows "\<exists>M'. marked_by t0 M' (fst (mark_loop a m b st))
    \<and> grown (children a m t0) M M' (insert b (set (fst (snd st)))) (snd (snd st)) (snd (mark_loop a m b st))"
  using assms
proof (induction a m b st arbitrary: M rule: mark_loop.induct)
  case (1 a m b st)
  let ?st = "mark_children a m b st" and ?C = "children a m t0 b"
  note ch = mark_children_scan [OF 1(2), of a m b]
  note sc = scannedD [OF ch(2)]
  show ?case
  proof (cases "fst (snd ?st) = []")
    case True
    then have run: "mark_loop a m b st = (fst ?st, snd (snd ?st))"
      by (simp add: mark_loop.simps [of a m b st] Let_def)
    have "grown (children a m t0) (M \<union> ?C) (M \<union> ?C) {} (snd (snd ?st)) (snd (snd ?st))" by (rule grown_stop)
    then have "grown (children a m t0) M (M \<union> ?C) (insert b (set (fst (snd st)))) (snd (snd st)) (snd (snd ?st))"
      using sc True by (intro grown_scan [OF 1(3), where S' = "{}"]) auto
    then show ?thesis using ch(1) unfolding run by auto
  next
    case False
    let ?h = "hd (fst (snd ?st))" and ?rest = "(fst ?st, tl (fst (snd ?st)), snd (snd ?st))"
    have run: "mark_loop a m b st = mark_loop a m ?h ?rest"
      using False by (simp add: mark_loop.simps [of a m b st] Let_def)
    have hd: "insert ?h (set (tl (fst (snd ?st)))) = set (fst (snd ?st))"
      using False by (cases "fst (snd ?st)") simp_all
    have sub: "set (fst (snd ?st)) \<subseteq> M \<union> ?C" using sc(2) 1(4) by blast
    have "?h \<in> M \<union> ?C" "set (fst (snd ?rest)) \<subseteq> M \<union> ?C" using sub hd by auto
    with 1(1) [OF refl refl refl refl False, of "M \<union> ?C"] ch(1)
    obtain M' where M': "marked_by t0 M' (fst (mark_loop a m ?h ?rest))"
      "grown (children a m t0) (M \<union> ?C) M' (set (fst (snd ?st))) (snd (snd ?st)) (snd (mark_loop a m ?h ?rest))"
      using hd by auto
    from grown_scan [OF 1(3) sc(1) _ sc(4) M'(2)] sc(3)
    have "grown (children a m t0) M M' (insert b (set (fst (snd st)))) (snd (snd st)) (snd (mark_loop a m ?h ?rest))" .
    then show ?thesis using M'(1) unfolding run by blast
  qed
qed

lemma mark_subtree_grown:
  assumes "marked_by t0 M (fst tv)" "b \<in> M"
  shows "\<exists>M'. marked_by t0 M' (fst (gc_mark_subtree a m b tv))
    \<and> grown (children a m t0) M M' {b} (snd tv) (snd (gc_mark_subtree a m b tv))"
  using mark_loop_grown [of t0 M "(fst tv, [], snd tv)" b a m] assms by (simp add: gc_mark_subtree_def)

section \<open>Roots and overflow\<close>

lemma root_word_grown:
  assumes "marked_by t0 M (fst tv)"
  shows "\<exists>M'. marked_by t0 M' (fst (collect_root_word a m w tv))
    \<and> grown (children a m t0) (M \<union> targets a t0 [w]) M' (targets a t0 [w] - M) (snd tv) (snd (collect_root_word a m w tv))"
proof (cases "verify_ptr a w \<and> atb_get_kind (fst tv) (block_from_ptr a w) = 1")
  case False
  then have same: "collect_root_word a m w tv = tv" by (auto simp: collect_root_word_def Let_def)
  have "targets a t0 [w] \<subseteq> M"
    using False marked_byD(1) [OF assms, of "block_from_ptr a w"] by (auto simp: targets_def split: if_splits)
  then have none: "M \<union> targets a t0 [w] = M" "targets a t0 [w] - M = {}" by blast+
  have "grown (children a m t0) (M \<union> targets a t0 [w]) M (targets a t0 [w] - M) (snd tv) (snd tv)"
    unfolding none by (rule grown_stop)
  then show ?thesis using assms unfolding same by blast
next
  case True
  let ?c = "block_from_ptr a w" and ?tv = "(atb_head_to_mark (fst tv) (block_from_ptr a w), snd tv)"
  have run: "collect_root_word a m w tv = gc_mark_subtree a m ?c ?tv"
    using True by (simp add: collect_root_word_def Let_def)
  have "atb_get_kind t0 ?c = 1" using True marked_byD(1) [OF assms, of ?c] by (auto split: if_splits)
  then have tg: "M \<union> targets a t0 [w] = insert ?c M" "targets a t0 [w] - M \<subseteq> {?c}" using True by (auto simp: targets_def)
  have "marked_by t0 (insert ?c M) (fst ?tv)" using marked_by_insert [OF assms] True by simp
  from mark_subtree_grown [OF this, of ?c a m] obtain M' where M':
    "marked_by t0 M' (fst (gc_mark_subtree a m ?c ?tv))"
    "grown (children a m t0) (insert ?c M) M' {?c} (snd tv) (snd (gc_mark_subtree a m ?c ?tv))" by auto
  from grown_mono [OF M'(2) tg(2)] show ?thesis using M'(1) unfolding run tg(1) by blast
qed

text \<open>
  \<open>rooted a m t0 ws M tv\<close>: the state after the root words \<open>ws\<close>: their targets are marked, only
  reachable blocks are, and all children are unless the stack has overflowed.
\<close>

definition rooted :: "gc_area \<Rightarrow> mem \<Rightarrow> u8 list \<Rightarrow> u32 list \<Rightarrow> nat set \<Rightarrow> u8 list \<times> bool \<Rightarrow> bool" where
  "rooted a m t0 ws M tv \<longleftrightarrow> marked_by t0 M (fst tv) \<and> targets a t0 ws \<subseteq> M \<and> M \<subseteq> gc_reach a m t0 ws
     \<and> (\<not> snd tv \<longrightarrow> (\<forall>x \<in> M. children a m t0 x \<subseteq> M))"

lemma rootedD:
  assumes "rooted a m t0 ws M tv"
  shows "marked_by t0 M (fst tv)" "targets a t0 ws \<subseteq> M" "M \<subseteq> gc_reach a m t0 ws"
    "\<not> snd tv \<Longrightarrow> x \<in> M \<Longrightarrow> children a m t0 x \<subseteq> M"
  using assms unfolding rooted_def by blast+

lemma reach_closed: "x \<in> gc_reach a m t0 ws \<Longrightarrow> children a m t0 x \<subseteq> gc_reach a m t0 ws"
  by (auto intro: gc_reach.step)

lemma targets_mono: "set ws \<subseteq> set vs \<Longrightarrow> targets a t ws \<subseteq> targets a t vs"
  by (auto simp: targets_def)

lemma reach_mono: "set ws \<subseteq> set vs \<Longrightarrow> gc_reach a m t0 ws \<subseteq> gc_reach a m t0 vs"
proof
  fix x
  assume sub: "set ws \<subseteq> set vs" and x: "x \<in> gc_reach a m t0 ws"
  from x show "x \<in> gc_reach a m t0 vs"
  proof induction
    case (root c)
    then show ?case using targets_mono [OF sub] by (intro gc_reach.root) blast
  next
    case (step b c)
    from step.IH step.hyps(2) show ?case by (rule gc_reach.step)
  qed
qed

lemma root_word_rooted:
  assumes "rooted a m t0 ws M tv"
  shows "\<exists>M'. rooted a m t0 (ws @ [w]) M' (collect_root_word a m w tv)"
proof -
  let ?tv = "collect_root_word a m w tv" and ?T = "targets a t0 [w]" and ?vs = "ws @ [w]"
  note r = rootedD [OF assms]
  from root_word_grown [OF r(1), of a m w] obtain M' where M': "marked_by t0 M' (fst ?tv)"
    "grown (children a m t0) (M \<union> ?T) M' (?T - M) (snd tv) (snd ?tv)" by blast
  have tg: "targets a t0 ?vs = targets a t0 ws \<union> ?T" by (auto simp: targets_def)
  have sub: "M \<union> ?T \<subseteq> M'" by (rule grownD(1) [OF M'(2)])
  have "?T \<subseteq> gc_reach a m t0 ?vs" using tg by (blast intro: gc_reach.root)
  moreover have "M \<subseteq> gc_reach a m t0 ?vs" using r(3) reach_mono [of ws ?vs a m t0] by auto
  ultimately have "M' \<subseteq> gc_reach a m t0 ?vs"
    using grownD(2) [OF M'(2), of "gc_reach a m t0 ?vs"] reach_closed [of _ a m t0 ?vs] by blast
  moreover have "children a m t0 x \<subseteq> M'" if ov: "\<not> snd ?tv" and x: "x \<in> M'" for x
  proof (cases "x \<in> M")
    case True
    have "\<not> snd tv" using grownD(3) [OF M'(2)] ov by blast
    from r(4) [OF this True] show ?thesis using sub by blast
  next
    case False
    then have "x \<in> (?T - M) \<union> (M' - (M \<union> ?T))" using x by blast
    then show ?thesis by (rule grownD(4) [OF M'(2) ov])
  qed
  ultimately show ?thesis
    unfolding rooted_def tg using M'(1) r(2) sub by (intro exI [of _ M']) blast
qed

lemma root_words_rooted:
  "rooted a m t0 ws M tv \<Longrightarrow> \<exists>M'. rooted a m t0 (ws @ map f is) M' (fold (\<lambda>i. collect_root_word a m (f i)) is tv)"
proof (induction "is" arbitrary: ws M tv)
  case Nil
  then show ?case by auto
next
  case (Cons i "is")
  from root_word_rooted [OF Cons.prems, of "f i"] obtain M' where
    "rooted a m t0 (ws @ [f i]) M' (collect_root_word a m (f i) tv)" ..
  from Cons.IH [OF this] show ?case by simp
qed


text \<open>The rescan: a pass that does not overflow leaves no marked block with an unmarked child.\<close>

lemma rescan_grown:
  assumes "\<And>c. atb_get_kind t0 c \<noteq> 3" "marked_by t0 M (fst tv)"
  shows "\<exists>M'. marked_by t0 M' (fst (fold (\<lambda>b tv. if atb_get_kind (fst tv) b = AT_MARK then gc_mark_subtree a m b tv else tv) bs tv))
    \<and> grown (children a m t0) M M' (M \<inter> set bs) (snd tv)
        (snd (fold (\<lambda>b tv. if atb_get_kind (fst tv) b = AT_MARK then gc_mark_subtree a m b tv else tv) bs tv))"
  using assms(2)
proof (induction bs arbitrary: M tv)
  case Nil
  have "M \<inter> set [] = {}" by simp
  then show ?case using Nil grown_stop [of "children a m t0" M "snd tv"] by auto
next
  case (Cons b bs)
  let ?ch = "children a m t0"
  let ?tv = "if atb_get_kind (fst tv) b = 3 then gc_mark_subtree a m b tv else tv"
  have "\<exists>M1. marked_by t0 M1 (fst ?tv) \<and> grown ?ch M M1 (M \<inter> {b}) (snd tv) (snd ?tv)"
  proof (cases "b \<in> M")
    case True
    then have "?tv = gc_mark_subtree a m b tv" using marked_byD(1) [OF Cons.prems, of b] by simp
    moreover have "M \<inter> {b} = {b}" using True by blast
    ultimately show ?thesis using mark_subtree_grown [OF Cons.prems True, of a m] by simp
  next
    case False
    then have none: "M \<inter> {b} = {}" by blast
    have same: "?tv = tv" using False assms(1) [of b] marked_byD(1) [OF Cons.prems, of b] by simp
    show ?thesis unfolding none same using Cons.prems grown_stop by blast
  qed
  then obtain M1 where M1: "marked_by t0 M1 (fst ?tv)" "grown ?ch M M1 (M \<inter> {b}) (snd tv) (snd ?tv)" by blast
  let ?f = "fold (\<lambda>b tv. if atb_get_kind (fst tv) b = 3 then gc_mark_subtree a m b tv else tv) bs ?tv"
  from Cons.IH [OF M1(1)] obtain M' where M': "marked_by t0 M' (fst ?f)"
    "grown ?ch M1 M' (M1 \<inter> set bs) (snd ?tv) (snd ?f)" by blast
  have "M \<inter> set (b # bs) \<subseteq> (M \<inter> {b}) \<union> (M1 \<inter> set bs)" using grownD(1) [OF M1(2)] by auto
  from grown_mono [OF grown_trans [OF M1(2) M'(2)] this] M'(1) show ?case
    unfolding fold_Cons comp_apply by blast
qed

lemma rescan_rooted:
  assumes "\<And>c. atb_get_kind t0 c \<noteq> 3" "\<And>b. atb_get_kind t0 b \<noteq> 0 \<Longrightarrow> b < total_blocks a" "rooted a m t0 ws M (t, ov)"
  shows "\<exists>M'. rooted a m t0 ws M' (rescan a m t)"
proof -
  note r = rootedD [OF assms(3)]
  have "marked_by t0 M (fst (t, False))" using r(1) by simp
  from rescan_grown [OF assms(1) this, of a m "[0..<total_blocks a]"] obtain M' where
    M': "marked_by t0 M' (fst (rescan a m t))"
      "grown (children a m t0) M M' (M \<inter> {0..<total_blocks a}) False (snd (rescan a m t))"
    by (auto simp: rescan_def)
  have "M \<subseteq> {0..<total_blocks a}"
    using marked_byD(2) [OF r(1)] assms(2) by fastforce
  then have "M \<inter> {0..<total_blocks a} = M" by blast
  with M'(2) have g: "grown (children a m t0) M M' M False (snd (rescan a m t))" by simp
  have sub: "M \<subseteq> M'" by (rule grownD(1) [OF g])
  have "M' \<subseteq> gc_reach a m t0 ws" using r(3) reach_closed by (intro grownD(2) [OF g])
  moreover have "children a m t0 x \<subseteq> M'" if "\<not> snd (rescan a m t)" "x \<in> M'" for x
    using that(2) by (intro grownD(4) [OF g that(1)]) blast
  ultimately show ?thesis
    unfolding rooted_def using M'(1) r(2) sub by (intro exI [of _ M']) blast
qed

lemma overflow_rooted:
  assumes "\<And>c. atb_get_kind t0 c \<noteq> 3" "\<And>b. atb_get_kind t0 b \<noteq> 0 \<Longrightarrow> b < total_blocks a"
  shows "rooted a m t0 ws M tv \<Longrightarrow> \<exists>M'. rooted a m t0 ws M' (deal_with_overflow a m tv) \<and> \<not> snd (deal_with_overflow a m tv)"
  using assms
proof (induction a m tv arbitrary: M rule: deal_with_overflow.induct)
  case (1 a m tv)
  show ?case
  proof (cases "snd tv")
    case False
    then show ?thesis using 1(2) by (subst deal_with_overflow.simps) (auto simp: deal_with_overflow.simps [of a m tv])
  next
    case True
    then have run: "deal_with_overflow a m tv = deal_with_overflow a m (rescan a m (fst tv))"
      by (subst deal_with_overflow.simps) simp
    have "rooted a m t0 ws M (fst tv, snd tv)" using 1(2) by simp
    from rescan_rooted [OF 1(3,4) this] obtain M1 where "rooted a m t0 ws M1 (rescan a m (fst tv))" ..
    from 1(1) [OF True this 1(3,4)] show ?thesis unfolding run .
  qed
qed

lemma rooted_final:
  assumes "rooted a m t0 ws M tv" "\<not> snd tv"
  shows "M = gc_reach a m t0 ws"
proof (rule antisym)
  show "M \<subseteq> gc_reach a m t0 ws" by (rule rootedD(3) [OF assms(1)])
  show "gc_reach a m t0 ws \<subseteq> M"
  proof
    fix x
    assume "x \<in> gc_reach a m t0 ws"
    then show "x \<in> M"
    proof induction
      case (root c)
      then show ?case using rootedD(2) [OF assms(1)] by blast
    next
      case (step b c)
      then show ?case using rootedD(4) [OF assms] by blast
    qed
  qed
qed

end
