(* ===== verification/GcAlloc.thy ===== *)
theory GcAlloc
  imports GcHeap Interfaces
begin

text \<open>
  What \<open>gc_alloc\<close> does to the heap, the heap as an \<open>allocator\<close>, and that set-up establishes the
  invariant.
\<close>

section \<open>Allocation\<close>

lemma fold_to_tail:
  "(\<And>b. b \<in> set bs \<Longrightarrow> atb_get_kind t b = 0 \<and> b div 4 < length t) \<Longrightarrow> distinct bs \<Longrightarrow>
     length (fold (\<lambda>b t. atb_free_to_tail t b) bs t) = length t
     \<and> atb_get_kind (fold (\<lambda>b t. atb_free_to_tail t b) bs t) c = (if c \<in> set bs then 2 else atb_get_kind t c)"
proof (induction bs arbitrary: t)
  case Nil
  then show ?case by simp
next
  case (Cons b bs)
  have b: "atb_get_kind t b = 0" "b div 4 < length t" using Cons.prems(1) [of b] by simp_all
  have "atb_get_kind (atb_free_to_tail t b) d = 0 \<and> d div 4 < length (atb_free_to_tail t b)" if "d \<in> set bs" for d
    using Cons.prems(1) [of d] Cons.prems(2) that atb_kinds(3) [OF b(2,1), of d] by auto
  from Cons.IH [OF this] Cons.prems(2) atb_kinds(3) [OF b(2,1), of c] show ?case by auto
qed

lemma fold_to_free:
  "(\<And>b. b \<in> set bs \<Longrightarrow> b div 4 < length t) \<Longrightarrow>
     length (fold (\<lambda>b t. atb_any_to_free t b) bs t) = length t
     \<and> atb_get_kind (fold (\<lambda>b t. atb_any_to_free t b) bs t) c = (if c \<in> set bs then 0 else atb_get_kind t c)"
proof (induction bs arbitrary: t)
  case Nil
  then show ?case by simp
next
  case (Cons b bs)
  have b: "b div 4 < length t" using Cons.prems(1) [of b] by simp
  from Cons.IH [of "atb_any_to_free t b"] Cons.prems atb_kinds(1) [OF b, of c] show ?case by auto
qed

definition region_zeroed :: "mem \<Rightarrow> u32 \<Rightarrow> nat \<Rightarrow> mem" where
  "region_zeroed m p n = (\<lambda>x. if in_region x p n then 0 else m x)"

lemma memset_zero: "n < 4294967296 \<Longrightarrow> fst (memset m p 0 (of_nat n)) = region_zeroed m p n"
  by (simp add: memset_def memset_loop_spec unat_of_nat_small region_zeroed_def fun_eq_iff)

text \<open>
  \<open>allocated s start n s'\<close>: the \<open>n\<close> blocks from \<open>start\<close> on were free and are now one chain, their
  memory is zero, and nothing else has changed.
\<close>

definition allocated :: "gc_state \<Rightarrow> nat \<Rightarrow> nat \<Rightarrow> gc_state \<Rightarrow> bool" where
  "allocated s start n s' \<longleftrightarrow>
     start + n \<le> total_blocks (gc_area s)
     \<and> (\<forall>b. start \<le> b \<and> b < start + n \<longrightarrow> gc_kind s b = AT_FREE)
     \<and> (\<forall>b. gc_kind s' b = (if b = start then AT_HEAD else if start < b \<and> b < start + n then AT_TAIL
                             else gc_kind s b))
     \<and> gc_mem s' = region_zeroed (gc_mem s) (ptr_from_block (gc_area s) start) (n * 16)
     \<and> gc_pool_start (gc_area s') = gc_pool_start (gc_area s) \<and> gc_pool_end (gc_area s') = gc_pool_end (gc_area s)
     \<and> gc_alloc_table_byte_len (gc_area s') = gc_alloc_table_byte_len (gc_area s)
     \<and> gc_lock_depth s' = gc_lock_depth s \<and> gc_auto_collect s' = gc_auto_collect s"

lemma take_blocks_allocated:
  assumes "gc_ok s" "find_free (gc_area s) n = Some (e, k)" "0 < n" "take_blocks e k s = (p, s')"
  shows "p = ptr_from_block (gc_area s) (e + 1 - n)" "allocated s (e + 1 - n) n s'" "gc_ok s'"
proof -
  let ?a = "gc_area s" and ?t = "gc_alloc_table (gc_area s)" and ?b = "e + 1 - n"
  have lay: "layout_ok ?a" and kin: "kinds_ok ?a" and nomark: "\<forall>b. gc_kind s b \<noteq> 3"
    using assms(1) by (simp_all add: gc_ok_def)
  note hit = find_free_hit [OF lay kin assms(2,3)]
  have k: "k = n" by (rule hit(1))
  have be: "?b \<le> e" "?b + n = e + 1" "e < total_blocks ?a" using hit(2,3) assms(3) by auto
  have slot: "b div 4 < length ?t" if "b \<le> e" for b
    using that be(3) by (intro table_slot [OF lay]) linarith
  let ?t1 = "atb_free_to_head ?t ?b"
  let ?t2 = "fold (\<lambda>bl t. atb_free_to_tail t bl) [?b + 1..<e + 1] ?t1"
  have k1: "atb_get_kind ?t1 c = (if c = ?b then 1 else atb_get_kind ?t c)" for c
    using atb_kinds(2) [OF slot [OF be(1)] hit(4)] be(1) by simp
  have t2: "length ?t2 = length ?t1 \<and> atb_get_kind ?t2 c = (if c \<in> set [?b + 1..<e + 1] then 2 else atb_get_kind ?t1 c)" for c
  proof (rule fold_to_tail)
    show "atb_get_kind ?t1 b = 0 \<and> b div 4 < length ?t1" if "b \<in> set [?b + 1..<e + 1]" for b
      using that hit(4) [of b] slot [of b] unfolding k1 by auto
  qed simp
  have k2: "atb_get_kind ?t2 c = (if c = ?b then 1 else if ?b < c \<and> c < ?b + n then 2 else atb_get_kind ?t c)" for c
    using t2 [of c] k1 [of c] be by auto
  have st: "p = gc_pool_start ?a + of_nat (?b * 16)"
    "s' = s\<lparr>gc_area := ?a\<lparr>gc_alloc_table := ?t2,
        gc_last_free_atb_index := (if n = 1 then (e + 1) div 4 else gc_last_free_atb_index ?a),
        gc_last_used_block := max (gc_last_used_block ?a) e\<rparr>,
      gc_mem := fst (memset (gc_mem s) p 0 (of_nat ((e - ?b + 1) * 16)))\<rparr>"
    using assms(4) unfolding k take_blocks_def Let_def by auto
  show p: "p = ptr_from_block ?a ?b" by (simp add: st(1) ptr_from_block_def add.commute)
  have nb: "e - ?b + 1 = n" using be by linarith
  have "n * 16 \<le> unat (gc_pool_end ?a)"
    using lay be mult_le_mono1 [of n "total_blocks ?a" 16] by (simp add: layout_ok_def)
  then have "n * 16 < 4294967296" using u32_bound [of "gc_pool_end ?a"] by linarith
  moreover have g: "gc_mem s' = fst (memset (gc_mem s) p 0 (of_nat ((e - ?b + 1) * 16)))" by (simp add: st(2))
  ultimately have mem: "gc_mem s' = region_zeroed (gc_mem s) (ptr_from_block ?a ?b) (n * 16)"
    unfolding g nb p by (intro memset_zero)
  have kinds: "gc_kind s' b = (if b = ?b then 1 else if ?b < b \<and> b < ?b + n then 2 else gc_kind s b)" for b
    using k2 [of b] by (simp add: st(2))
  show al: "allocated s ?b n s'"
    unfolding allocated_def using be hit(4) kinds mem by (auto simp: st(2))
  have lay': "layout_ok (gc_area s')"
    using lay t2 [of 0] by (simp add: st(2) layout_ok_def total_blocks_def)
  have tot: "total_blocks (gc_area s') = total_blocks ?a" by (simp add: st(2) total_blocks_def)
  have "kinds_ok (gc_area s')"
    unfolding kinds_ok_def Let_def
  proof (intro conjI allI impI)
    show "gc_kind s' b = 0" if "total_blocks (gc_area s') \<le> b" for b
      using kinds kinds_okD(1) [OF kin, of b] that be tot by auto
    show "0 < b" "gc_kind s' (b - 1) \<noteq> 0" if "gc_kind s' b = 2" for b
      using kinds [of b] kinds [of "b - 1"] kinds_okD(2) [OF kin, of b] hit(4) [of b] hit(4) [of "b - 1"] that be
      by (auto split: if_splits)
    show "gc_last_free_atb_index (gc_area s') \<le> gc_alloc_table_byte_len (gc_area s')"
      using kinds_okD(3) [OF kin] be(3) by (auto simp: st(2) total_blocks_def)
    show "gc_kind s' b \<noteq> 0" if "b < 4 * gc_last_free_atb_index (gc_area s')" for b
      using that kinds [of b] kinds_okD(4) [OF kin, of b] hit(5) [of b] be
      by (cases "n = 1"; cases "b = e") (auto simp: st(2))
    show "b \<le> gc_last_used_block (gc_area s')" if "gc_kind s' b \<noteq> 0" for b
      using that kinds [of b] kinds_okD(5) [OF kin, of b] be by (auto simp: st(2) split: if_splits)
  qed
  then show "gc_ok s'" using lay' nomark kinds by (auto simp: gc_ok_def)
qed

lemma blocks_for_spec:
  "blocks_for n = (if unat n + 15 < 4294967296 then (unat n + 15) div 16 else 0)"
proof -
  have "(n + 16 - 1) AND NOT (16 - 1) = (n + 15) AND NOT (mask 4)" by (simp add: mask_eq_exp_minus_1 add.commute)
  then have "blocks_for n = unat ((n + 15) AND NOT (mask 4)) div 16" unfolding blocks_for_def by simp
  also have "\<dots> = unat (n + 15) div 16" unfolding unat_and_not_mask by simp
  finally have b: "blocks_for n = unat (n + 15) div 16" .
  have "unat (n + 15) = (unat n + 15) mod 4294967296" by (simp add: unat_word_ariths)
  moreover have "(unat n + 15) mod 4294967296 = unat n + 15 - 4294967296" if "\<not> unat n + 15 < 4294967296"
  proof -
    have "unat n + 15 - 4294967296 < 4294967296" using u32_bound [of n] by linarith
    moreover have "(unat n + 15) mod 4294967296 = (unat n + 15 - 4294967296) mod 4294967296"
      using that by (intro le_mod_geq) simp
    ultimately show ?thesis by (simp only: mod_less)
  qed
  moreover have "unat n + 15 - 4294967296 < 16" using u32_bound [of n] by linarith
  ultimately show ?thesis by (auto simp: b)
qed

lemma gc_alloc_cases:
  assumes "gc_ok s" "gc_ok (collect s)" "gc_alloc collect s n = (p, s')"
  shows "gc_ok s' \<and> (p = 0 \<longrightarrow> s' = s \<or> s' = collect s)
    \<and> (p \<noteq> 0 \<longrightarrow> 0 < blocks_for n \<and> (\<exists>s0 start. (s0 = s \<or> s0 = collect s \<and> find_free (gc_area s) (blocks_for n) = None \<and> gc_auto_collect s)
         \<and> allocated s0 start (blocks_for n) s'
         \<and> p = ptr_from_block (gc_area s0) start))"
proof -
  have hit: "gc_ok s' \<and> allocated t (fst h + 1 - blocks_for n) (blocks_for n) s'
      \<and> p = ptr_from_block (gc_area t) (fst h + 1 - blocks_for n) \<and> p \<noteq> 0"
    if "gc_ok t" "0 < blocks_for n" "find_free (gc_area t) (blocks_for n) = Some h" "take_blocks (fst h) (snd h) t = (p, s')" for t h
  proof -
    have h: "find_free (gc_area t) (blocks_for n) = Some (fst h, snd h)" using that(3) by simp
    note tb = take_blocks_allocated [OF that(1) h that(2,4)]
    have "fst h + 1 - blocks_for n < total_blocks (gc_area t)"
      using tb(2) that(2) by (simp add: allocated_def)
    then have "p \<noteq> 0" using block_ptr(3) [of "gc_area t"] that(1) tb(1) by (simp add: gc_ok_def)
    then show ?thesis using tb by simp
  qed
  show ?thesis
  proof (cases "blocks_for n = 0 \<or> 0 < gc_lock_depth s")
    case True
    then show ?thesis using assms by (auto simp: gc_alloc_def Let_def split: if_splits)
  next
    case False
    then have n: "0 < blocks_for n" "\<not> 0 < gc_lock_depth s" by simp_all
    show ?thesis
    proof (cases "find_free (gc_area s) (blocks_for n)")
      case (Some h)
      then have "take_blocks (fst h) (snd h) s = (p, s')"
        using assms(3) n by (simp add: gc_alloc_def Let_def split: prod.splits)
      from hit [OF assms(1) n(1) Some this] n(1) show ?thesis by blast
    next
      case None
      show ?thesis
      proof (cases "gc_auto_collect s")
        case False
        then show ?thesis using assms n None by (simp add: gc_alloc_def Let_def)
      next
        case auto: True
        show ?thesis
        proof (cases "find_free (gc_area (collect s)) (blocks_for n)")
          case None2: None
          then show ?thesis using assms n None auto by (simp add: gc_alloc_def Let_def)
        next
          case (Some h)
          then have "take_blocks (fst h) (snd h) (collect s) = (p, s')"
            using assms(3) n None auto by (simp add: gc_alloc_def Let_def split: prod.splits)
          from hit [OF assms(2) n(1) Some this] n(1) None auto show ?thesis by blast
        qed
      qed
    qed
  qed
qed


lemma gc_alloc_miss:
  assumes "gc_ok s" "gc_alloc collect s n = (0, s')" "\<not> gc_is_locked s" "0 < blocks_for n"
  shows "find_free (gc_area s) (blocks_for n) = None
    \<and> (gc_auto_collect s \<longrightarrow> gc_ok (collect s) \<longrightarrow> s' = collect s \<and> find_free (gc_area (collect s)) (blocks_for n) = None)"
proof -
  have hit: "fst (take_blocks e k t) \<noteq> 0" if "gc_ok t" "find_free (gc_area t) (blocks_for n) = Some (e, k)" for t e k
  proof -
    obtain p t' where tb: "take_blocks e k t = (p, t')" by fastforce
    note r = take_blocks_allocated [OF that assms(4) tb]
    have "e + 1 - blocks_for n < total_blocks (gc_area t)"
      using r(2) assms(4) by (simp add: allocated_def)
    then show ?thesis using block_ptr(3) [of "gc_area t"] that(1) r(1) tb by (simp add: gc_ok_def)
  qed
  have unlocked: "\<not> 0 < gc_lock_depth s" using assms(3) by (simp add: gc_is_locked_def)
  have none: "find_free (gc_area s) (blocks_for n) = None"
  proof (cases "find_free (gc_area s) (blocks_for n)")
    case (Some h)
    then show ?thesis
      using hit [OF assms(1), of "fst h" "snd h"] assms(2,4) unlocked by (simp add: gc_alloc_def Let_def split: prod.splits)
  qed
  show ?thesis
  proof (intro conjI impI none)
    assume auto: "gc_auto_collect s" and ok: "gc_ok (collect s)"
    show none2: "find_free (gc_area (collect s)) (blocks_for n) = None"
    proof (cases "find_free (gc_area (collect s)) (blocks_for n)")
      case (Some h)
      then show ?thesis
        using hit [OF ok, of "fst h" "snd h"] assms(2,4) unlocked none auto
        by (simp add: gc_alloc_def Let_def split: prod.splits)
    qed
    show "s' = collect s" using assms(2,4) unlocked none none2 auto by (simp add: gc_alloc_def Let_def)
  qed
qed

section \<open>The collector's heap as an allocator\<close>

definition gc_pool :: "gc_state \<Rightarrow> nat set" where
  "gc_pool s = {unat (gc_pool_start (gc_area s)) ..< unat (gc_pool_end (gc_area s))}"

definition gc_taken :: "gc_state \<Rightarrow> nat set" where
  "gc_taken s = {x. \<exists>b. gc_kind s b \<noteq> AT_FREE
     \<and> unat (gc_pool_start (gc_area s)) + b * 16 \<le> x \<and> x < unat (gc_pool_start (gc_area s)) + b * 16 + 16}"

definition manual_heap :: "gc_state \<Rightarrow> bool" where
  "manual_heap s \<longleftrightarrow> gc_ok s \<and> \<not> gc_auto_collect s"

lemma blocks_for_le: "0 < blocks_for n \<Longrightarrow> unat n \<le> blocks_for n * 16"
  by (auto simp: blocks_for_spec split: if_splits)

lemma manual_alloc:
  assumes "manual_heap s"
  obtains "fst (gc_alloc collect s n) = 0" "snd (gc_alloc collect s n) = s"
  | start where "fst (gc_alloc collect s n) \<noteq> 0" "manual_heap (snd (gc_alloc collect s n))" "0 < blocks_for n"
      "allocated s start (blocks_for n) (snd (gc_alloc collect s n))"
      "fst (gc_alloc collect s n) = ptr_from_block (gc_area s) start"
proof -
  have s: "gc_ok s" "\<not> gc_auto_collect s" using assms by (simp_all add: manual_heap_def)
  have eq: "gc_alloc collect s n = gc_alloc id s n"
    using s(2) by (simp add: gc_alloc_def Let_def split: option.splits)
  obtain p s' where ps: "gc_alloc id s n = (p, s')" by fastforce
  have ok: "gc_ok (id s)" using s(1) by simp
  note c = gc_alloc_cases [OF s(1) ok ps]
  show ?thesis
  proof (cases "p = 0")
    case True
    then show ?thesis using that(1) c ps eq by simp
  next
    case False
    then obtain start where "0 < blocks_for n" "allocated s start (blocks_for n) s'" "p = ptr_from_block (gc_area s) start"
      using c by auto
    moreover have "manual_heap s'" using calculation(2) c s(2) by (simp add: manual_heap_def allocated_def)
    ultimately show ?thesis using that(2) [of start] False ps eq by simp
  qed
qed

lemma allocated_bytes:
  assumes "gc_ok s" "allocated s start (blocks_for n) s'" "0 < blocks_for n"
  shows "addrs (ptr_from_block (gc_area s) start) n \<subseteq> gc_pool s - gc_taken s"
    "gc_taken s \<union> addrs (ptr_from_block (gc_area s) start) n \<subseteq> gc_taken s'" "gc_pool s' = gc_pool s"
proof -
  let ?a = "gc_area s"
  have lay: "layout_ok ?a" using assms(1) by (simp add: gc_ok_def)
  have al: "start + blocks_for n \<le> total_blocks ?a"
    "\<And>b. start \<le> b \<Longrightarrow> b < start + blocks_for n \<Longrightarrow> gc_kind s b = 0"
    "\<And>b. start \<le> b \<Longrightarrow> b < start + blocks_for n \<Longrightarrow> gc_kind s' b \<noteq> 0"
    "\<And>b. gc_kind s b \<noteq> 0 \<Longrightarrow> gc_kind s' b \<noteq> 0"
    "gc_pool_start (gc_area s') = gc_pool_start ?a" "gc_pool_end (gc_area s') = gc_pool_end ?a"
    using assms(2) by (auto simp: allocated_def)
  have p: "unat (ptr_from_block ?a start) = unat (gc_pool_start ?a) + start * 16"
    using ptr_from_block_unat(2) [OF lay] al(1) assms(3) by simp
  have len: "unat n \<le> blocks_for n * 16" by (rule blocks_for_le [OF assms(3)])
  have blk: "\<exists>b. start \<le> b \<and> b < start + blocks_for n \<and> unat (gc_pool_start ?a) + b * 16 \<le> x
      \<and> x < unat (gc_pool_start ?a) + b * 16 + 16" if "x \<in> addrs (ptr_from_block ?a start) n" for x
    using that p len by (intro exI [of _ "(x - unat (gc_pool_start ?a)) div 16"]) (auto simp: addrs_def)
  have pe: "unat (gc_pool_start ?a) + total_blocks ?a * 16 = unat (gc_pool_end ?a)"
    using lay by (simp add: layout_ok_def)
  show "addrs (ptr_from_block ?a start) n \<subseteq> gc_pool s - gc_taken s"
  proof
    fix x
    assume "x \<in> addrs (ptr_from_block ?a start) n"
    from blk [OF this] obtain b where b: "start \<le> b" "b < start + blocks_for n"
      "unat (gc_pool_start ?a) + b * 16 \<le> x" "x < unat (gc_pool_start ?a) + b * 16 + 16" by blast
    have "x \<in> gc_pool s" using b al(1) pe by (auto simp: gc_pool_def)
    moreover have "x \<notin> gc_taken s"
    proof
      assume "x \<in> gc_taken s"
      then obtain c where c: "gc_kind s c \<noteq> 0" "unat (gc_pool_start ?a) + c * 16 \<le> x"
        "x < unat (gc_pool_start ?a) + c * 16 + 16" by (auto simp: gc_taken_def)
      with b have "c = b" by linarith
      then show False using c(1) al(2) b by simp
    qed
    ultimately show "x \<in> gc_pool s - gc_taken s" by simp
  qed
  show "gc_taken s \<union> addrs (ptr_from_block ?a start) n \<subseteq> gc_taken s'"
  proof
    fix x
    assume "x \<in> gc_taken s \<union> addrs (ptr_from_block ?a start) n"
    then show "x \<in> gc_taken s'"
    proof
      assume "x \<in> gc_taken s"
      then show ?thesis using al(4,5) by (auto simp: gc_taken_def)
    next
      assume "x \<in> addrs (ptr_from_block ?a start) n"
      from blk [OF this] show ?thesis using al(3,5) by (auto simp: gc_taken_def)
    qed
  qed
  show "gc_pool s' = gc_pool s" using al(5,6) by (simp add: gc_pool_def)
qed

interpretation gcheap: allocator "gc_alloc collect" manual_heap gc_pool gc_taken "\<lambda>s n. True" for collect
proof
  fix s :: gc_state and n :: u32
  assume inv: "manual_heap s"
  then have ok: "gc_ok s" by (simp add: manual_heap_def)
  show "manual_heap (snd (gc_alloc collect s n))"
    using manual_alloc [OF inv, of collect n] inv by metis
  show "addrs (fst (gc_alloc collect s n)) n \<subseteq> gc_pool s - gc_taken s" if "fst (gc_alloc collect s n) \<noteq> 0"
    using manual_alloc [OF inv, of collect n] allocated_bytes(1) [OF ok] that by metis
  show "gc_taken s \<union> (if fst (gc_alloc collect s n) = 0 then {} else addrs (fst (gc_alloc collect s n)) n)
      \<subseteq> gc_taken (snd (gc_alloc collect s n))"
    by (rule manual_alloc [OF inv, of collect n]) (auto dest: allocated_bytes(2) [OF ok])
  show "gc_pool (snd (gc_alloc collect s n)) = gc_pool s"
    by (rule manual_alloc [OF inv, of collect n]) (auto dest: allocated_bytes(3) [OF ok])
qed simp_all

section \<open>Set-up\<close>

lemma setup_fields:
  assumes "start \<le> end_ptr" "0 < unat end_ptr - unat start"
  shows "gc_alloc_table_byte_len (gc_setup_area start end_ptr) = (unat end_ptr - unat start - 1) div 65"
    "unat (gc_pool_start (gc_setup_area start end_ptr)) = unat end_ptr - (unat end_ptr - unat start - 1) div 65 * 64"
proof -
  have d: "unat (end_ptr - start) = unat end_ptr - unat start" using assms(1) by (simp add: unat_sub)
  show len: "gc_alloc_table_byte_len (gc_setup_area start end_ptr) = (unat end_ptr - unat start - 1) div 65"
    by (simp add: gc_setup_area_def Let_def d)
  let ?l = "(unat end_ptr - unat start - 1) div 65"
  have "?l * 65 \<le> unat end_ptr - unat start - 1" by (rule div_times_less_eq_dividend)
  then have le: "?l * 64 \<le> unat end_ptr" by linarith
  then have "?l * 64 < 4294967296" using u32_bound [of end_ptr] by linarith
  then have u: "unat (of_nat (?l * 64) :: u32) = ?l * 64" by (rule unat_of_nat_small)
  have p: "gc_pool_start (gc_setup_area start end_ptr) = end_ptr - of_nat (?l * 64)"
    by (simp add: gc_setup_area_def Let_def d mult.assoc)
  show "unat (gc_pool_start (gc_setup_area start end_ptr)) = unat end_ptr - ?l * 64"
    unfolding p using le u by (subst unat_sub) (simp_all add: word_le_nat_alt)
qed

lemma empty_table: "atb_get_kind (replicate n 0) b = 0"
  by (simp add: atb_get_kind_def)

lemma align_end: "unat (e AND NOT 15 :: u32) = unat e div 16 * 16" "unat (e AND NOT 15 :: u32) mod 16 = 0"
proof -
  have "e AND NOT 15 = e AND NOT (mask 4)" by (simp add: mask_eq_exp_minus_1)
  then show "unat (e AND NOT 15) = unat e div 16 * 16" by (simp only: unat_and_not_mask) simp
  then show "unat (e AND NOT 15) mod 16 = 0" by simp
qed

lemma gc_init_ok:
  assumes "unat start < unat (end_ptr AND NOT 15)"
  shows "gc_ok (gc_init start end_ptr s)"
proof -
  let ?e = "end_ptr AND NOT 15" and ?a = "gc_setup_area start (end_ptr AND NOT 15)"
  let ?l = "(unat ?e - unat start - 1) div 65"
  have st: "start \<le> ?e" "0 < unat ?e - unat start" using assms by (simp_all add: word_le_nat_alt)
  note f = setup_fields [OF st]
  have "?l * 65 \<le> unat ?e - unat start - 1" by (rule div_times_less_eq_dividend)
  then have le: "?l * 64 < unat ?e" using st by linarith
  have tab: "gc_alloc_table ?a = replicate (?l + 1) 0" using f(1) by (simp add: gc_setup_area_def Let_def)
  have m: "(unat ?e - ?l * 64) mod 16 = 0"
  proof -
    have "16 dvd unat ?e" using align_end(2) [of end_ptr] by (simp only: dvd_eq_mod_eq_0)
    then have "16 dvd unat ?e - ?l * 64" by (intro dvd_diff_nat) simp_all
    then show ?thesis by (simp only: dvd_eq_mod_eq_0)
  qed
  have misc: "gc_pool_end ?a = ?e" "gc_last_free_atb_index ?a = 0" "gc_last_used_block ?a = 0"
    by (simp_all add: gc_setup_area_def Let_def)
  have "layout_ok ?a"
    unfolding layout_ok_def total_blocks_def f misc tab using le m by simp
  moreover have k0: "atb_get_kind (gc_alloc_table ?a) b = 0" for b unfolding tab by (rule empty_table)
  then have "kinds_ok ?a" using misc by (simp add: kinds_ok_def Let_def)
  ultimately show ?thesis using k0 by (simp add: gc_init_def gc_ok_def)
qed

end
