(* ===== verification/GcResize.thy ===== *)
theory GcResize
  imports GcAlloc
begin

text \<open>
  What \<open>gc_free\<close> and \<open>gc_realloc\<close> do to chains of blocks and to the bytes in them.
\<close>

section \<open>Freeing\<close>

lemma free_chain_kinds:
  "b div 4 < length t \<Longrightarrow> length (free_chain t b) = length t
     \<and> atb_get_kind (free_chain t b) c = (if b \<le> c \<and> c < chain_end t (b + 1) then 0 else atb_get_kind t c)"
proof (induction t b rule: free_chain.induct)
  case (1 t b)
  let ?t = "atb_any_to_free t b"
  have k: "atb_get_kind ?t d = (if d = b then 0 else atb_get_kind t d)" for d
    using atb_kinds(1) [OF 1(2)] .
  have ge: "b + 1 \<le> chain_end t (b + 1)" using chain_end_spec [of "b + 1" t] by simp
  show ?case
  proof (cases "atb_get_kind ?t (b + 1) = 2")
    case False
    then have "atb_get_kind t (b + 1) \<noteq> 2" using k [of "b + 1"] by simp
    then have "chain_end t (b + 1) = b + 1" by (intro chain_end_unique) auto
    moreover have "free_chain t b = ?t" using False by (subst free_chain.simps) (simp add: Let_def)
    ultimately show ?thesis using k [of c] by auto
  next
    case True
    then have tail: "atb_get_kind t (b + 1) = 2" using k [of "b + 1"] by simp
    have step: "free_chain t b = free_chain ?t (b + 1)" using True by (subst free_chain.simps) (simp add: Let_def)
    have "(b + 1) div 4 < length ?t" using atb_kind_in_range [of ?t "b + 1"] True by simp
    from 1(1) [OF refl True this] have ih: "length (free_chain ?t (b + 1)) = length ?t"
      "atb_get_kind (free_chain ?t (b + 1)) c
        = (if b + 1 \<le> c \<and> c < chain_end ?t (b + 1 + 1) then 0 else atb_get_kind ?t c)" by simp_all
    have "chain_end ?t (b + 1 + 1) = chain_end t (b + 1 + 1)"
      using chain_end_spec [of "b + 1 + 1" t] k by (intro chain_end_unique) auto
    also have "\<dots> = chain_end t (b + 1)" using tail by (subst (2) chain_end.simps) simp
    finally show ?thesis using ih k [of c] ge step by auto
  qed
qed

text \<open>
  Freeing a set of blocks that ends at the end of a chain keeps the heap well formed, as long as
  the search index does not pass a freed block.
\<close>

lemma gc_ok_freed:
  assumes "gc_ok s" "\<And>c. gc_kind s' c = (if lo \<le> c \<and> c < hi then 0 else gc_kind s c)" "gc_kind s hi \<noteq> 2"
    and "gc_area s' = (gc_area s)\<lparr>gc_alloc_table := t', gc_last_free_atb_index := i\<rparr>"
    and "length t' = length (gc_alloc_table (gc_area s))" "i \<le> gc_last_free_atb_index (gc_area s)" "4 * i \<le> lo"
  shows "gc_ok s'"
proof -
  have lay: "layout_ok (gc_area s)" and kin: "kinds_ok (gc_area s)" and nomark: "\<forall>b. gc_kind s b \<noteq> 3"
    using assms(1) by (simp_all add: gc_ok_def)
  have f: "total_blocks (gc_area s') = total_blocks (gc_area s)" "gc_last_used_block (gc_area s') = gc_last_used_block (gc_area s)"
    "gc_alloc_table_byte_len (gc_area s') = gc_alloc_table_byte_len (gc_area s)" "gc_last_free_atb_index (gc_area s') = i"
    by (simp_all add: assms(4) total_blocks_def)
  have "layout_ok (gc_area s')" using lay assms(5) by (simp add: assms(4) layout_ok_def total_blocks_def)
  moreover have "kinds_ok (gc_area s')"
    unfolding kinds_ok_def Let_def f
  proof (intro conjI allI impI)
    show "gc_kind s' b = 0" if "total_blocks (gc_area s) \<le> b" for b
      using assms(2) [of b] kinds_okD(1) [OF kin that] by simp
    show "0 < b" "gc_kind s' (b - 1) \<noteq> 0" if "gc_kind s' b = 2" for b
    proof -
      have b: "gc_kind s b = 2" "\<not> (lo \<le> b \<and> b < hi)" using that assms(2) [of b] by (auto split: if_splits)
      with assms(3) have "b \<noteq> hi" by auto
      then show "0 < b" "gc_kind s' (b - 1) \<noteq> 0"
        using kinds_okD(2) [OF kin b(1)] assms(2) [of "b - 1"] b(2) by auto
    qed
    show "i \<le> gc_alloc_table_byte_len (gc_area s)" using assms(6) kinds_okD(3) [OF kin] by simp
    show "gc_kind s' b \<noteq> 0" if "b < 4 * i" for b
      using kinds_okD(4) [OF kin, of b] assms(2) [of b] assms(6,7) that by auto
    show "b \<le> gc_last_used_block (gc_area s)" if "gc_kind s' b \<noteq> 0" for b
      using kinds_okD(5) [OF kin, of b] assms(2) [of b] that by (auto split: if_splits)
  qed
  ultimately show ?thesis using nomark assms(2) by (auto simp: gc_ok_def)
qed

text \<open>\<open>freed s lo hi s'\<close>: the blocks from \<open>lo\<close> up to \<open>hi\<close> are free, all else is as before.\<close>

definition freed :: "gc_state \<Rightarrow> nat \<Rightarrow> nat \<Rightarrow> gc_state \<Rightarrow> bool" where
  "freed s lo hi s' \<longleftrightarrow>
     (\<forall>c. gc_kind s' c = (if lo \<le> c \<and> c < hi then AT_FREE else gc_kind s c))
     \<and> gc_mem s' = gc_mem s \<and> gc_lock_depth s' = gc_lock_depth s \<and> gc_auto_collect s' = gc_auto_collect s
     \<and> gc_pool_start (gc_area s') = gc_pool_start (gc_area s) \<and> gc_pool_end (gc_area s') = gc_pool_end (gc_area s)
     \<and> gc_alloc_table_byte_len (gc_area s') = gc_alloc_table_byte_len (gc_area s)"

lemma gc_free_head:
  assumes "gc_ok s" "\<not> gc_is_locked s" "gc_kind s b = 1"
  shows "\<exists>s'. gc_free s (ptr_from_block (gc_area s) b) = Some s' \<and> gc_ok s'
    \<and> freed s b (b + chain_len (gc_alloc_table (gc_area s)) b) s'"
proof -
  let ?a = "gc_area s" and ?t = "gc_alloc_table (gc_area s)"
  have lay: "layout_ok ?a" and kin: "kinds_ok ?a" using assms(1) by (simp_all add: gc_ok_def)
  have bt: "b < total_blocks ?a" using used_in_pool [OF kin] assms(3) by simp
  note bp = block_ptr [OF lay bt]
  define s' where "s' = s\<lparr>gc_area := ?a\<lparr>
      gc_last_free_atb_index := (if b div 4 < gc_last_free_atb_index ?a then b div 4 else gc_last_free_atb_index ?a),
      gc_alloc_table := free_chain ?t b\<rparr>\<rparr>"
  have run: "gc_free s (ptr_from_block ?a b) = Some s'"
    using assms(2,3) bp by (simp add: gc_free_def gc_is_locked_def Let_def s'_def)
  have e: "b + chain_len ?t b = chain_end ?t (b + 1)"
    using chain_end_spec [of "b + 1" ?t] by (simp add: chain_len_def)
  note fc = free_chain_kinds [OF table_slot [OF lay bt]]
  have kinds: "gc_kind s' c = (if b \<le> c \<and> c < b + chain_len ?t b then 0 else gc_kind s c)" for c
    using fc [of c] unfolding e by (simp add: s'_def)
  have "gc_ok s'"
  proof (rule gc_ok_freed [OF assms(1) kinds])
    show "gc_kind s (b + chain_len ?t b) \<noteq> 2" unfolding e using chain_end_spec [of "b + 1" ?t] by simp
    show "gc_area s' = ?a\<lparr>gc_alloc_table := free_chain ?t b, gc_last_free_atb_index :=
        (if b div 4 < gc_last_free_atb_index ?a then b div 4 else gc_last_free_atb_index ?a)\<rparr>"
      by (simp add: s'_def)
    show "length (free_chain ?t b) = length ?t" using fc by simp
  qed auto
  moreover have "freed s b (b + chain_len ?t b) s'"
    unfolding freed_def using kinds by (simp add: s'_def)
  ultimately show ?thesis using run by blast
qed


section \<open>Resizing\<close>

text \<open>The counting loop finds the length of the chain and some of the free blocks behind it.\<close>

lemma count_free:
  assumes "\<And>c. atb_get_kind t c = 2 \<Longrightarrow> 0 < c \<and> atb_get_kind t (c - 1) \<noteq> 0"
  shows "atb_get_kind t c \<noteq> 2 \<Longrightarrow>
    \<exists>f'. count_blocks t new [c..<m] n f = (n, f + f') \<and> (0 < f' \<longrightarrow> c + f' \<le> m) \<and> (\<forall>d. c \<le> d \<and> d < c + f' \<longrightarrow> atb_get_kind t d = 0)"
proof (induction "m - c" arbitrary: c f)
  case 0
  then show ?case by (intro exI [of _ 0]) auto
next
  case (Suc k)
  then have l: "[c..<m] = c # [c + 1..<m]" "k = m - (c + 1)" "c < m" by (simp_all add: upt_conv_Cons)
  show ?case
  proof (cases "atb_get_kind t c = 0 \<and> \<not> new \<le> n + (f + 1)")
    case False
    then show ?thesis
      using Suc.prems l by (intro exI [of _ "if atb_get_kind t c = 0 then 1 else 0"]) (auto simp: le_less_Suc_eq)
  next
    case True
    have "atb_get_kind t (c + 1) \<noteq> 2" using assms [of "c + 1"] True by auto
    from Suc.hyps(1) [OF l(2) this, of "f + 1"] obtain f' where f':
      "count_blocks t new [c + 1..<m] n (f + 1) = (n, f + 1 + f')" "0 < f' \<longrightarrow> c + 1 + f' \<le> m"
      "\<forall>d. c + 1 \<le> d \<and> d < c + 1 + f' \<longrightarrow> atb_get_kind t d = 0" by blast
    have "atb_get_kind t d = 0" if "c \<le> d" "d < c + (f' + 1)" for d
      using f'(3) True that by (cases "d = c") auto
    then show ?thesis using f' True l by (intro exI [of _ "f' + 1"]) auto
  qed
qed

lemma count_tails:
  "c \<le> e \<Longrightarrow> e \<le> m \<Longrightarrow> (\<And>d. c \<le> d \<Longrightarrow> d < e \<Longrightarrow> atb_get_kind t d = 2) \<Longrightarrow>
     count_blocks t new [c..<m] n f = count_blocks t new [e..<m] (n + (e - c)) f"
proof (induction "e - c" arbitrary: c n)
  case 0
  then show ?case by simp
next
  case (Suc k)
  then have "[c..<m] = c # [c + 1..<m]" by (simp add: upt_conv_Cons)
  moreover have "atb_get_kind t c = 2" using Suc.prems(3) [of c] Suc(2) by simp
  ultimately have "count_blocks t new [c..<m] n f = count_blocks t new [c + 1..<m] (n + 1) f" by simp
  also have "\<dots> = count_blocks t new [e..<m] (n + 1 + (e - (c + 1))) f"
    using Suc.prems Suc(2) by (intro Suc.hyps(1)) auto
  also have "n + 1 + (e - (c + 1)) = n + (e - c)" using Suc(2) by simp
  finally show ?case .
qed

lemma count_blocks_chain:
  assumes "kinds_ok a" "atb_get_kind (gc_alloc_table a) b = 1"
  shows "\<exists>f. count_blocks (gc_alloc_table a) new [b + 1..<total_blocks a] 1 0 = (chain_len (gc_alloc_table a) b, f)
     \<and> (0 < f \<longrightarrow> b + chain_len (gc_alloc_table a) b + f \<le> total_blocks a)
     \<and> (\<forall>d. b + chain_len (gc_alloc_table a) b \<le> d \<and> d < b + chain_len (gc_alloc_table a) b + f
           \<longrightarrow> atb_get_kind (gc_alloc_table a) d = 0)"
proof -
  let ?t = "gc_alloc_table a"
  have e: "b + chain_len ?t b = chain_end ?t (b + 1)" and ge: "b + 1 \<le> chain_end ?t (b + 1)"
    using chain_end_spec [of "b + 1" ?t] by (simp_all add: chain_len_def)
  have le: "chain_end ?t (b + 1) \<le> total_blocks a" using chain_in_heap [OF assms(1), of b] assms(2) e by simp
  have "count_blocks ?t new [b + 1..<total_blocks a] 1 0
      = count_blocks ?t new [chain_end ?t (b + 1)..<total_blocks a] (1 + (chain_end ?t (b + 1) - (b + 1))) 0"
    using chain_end_spec [of "b + 1" ?t] by (intro count_tails ge le) auto
  moreover have "1 + (chain_end ?t (b + 1) - (b + 1)) = chain_len ?t b" using e ge by linarith
  moreover have "atb_get_kind ?t (chain_end ?t (b + 1)) \<noteq> 2" using chain_end_spec [of "b + 1" ?t] by simp
  from count_free [OF kinds_okD(2) [OF assms(1)] this]
  obtain f where "count_blocks ?t new [chain_end ?t (b + 1)..<total_blocks a] (chain_len ?t b) 0 = (chain_len ?t b, 0 + f)"
    "0 < f \<longrightarrow> chain_end ?t (b + 1) + f \<le> total_blocks a"
    "\<forall>d. chain_end ?t (b + 1) \<le> d \<and> d < chain_end ?t (b + 1) + f \<longrightarrow> atb_get_kind ?t d = 0" by metis
  ultimately show ?thesis unfolding e by (intro exI [of _ f]) simp
qed

lemma shrink_blocks_freed:
  assumes "gc_ok s" "gc_kind s b = 1" "new < chain_len (gc_alloc_table (gc_area s)) b"
  shows "gc_ok (shrink_blocks b new (chain_len (gc_alloc_table (gc_area s)) b) s)"
    "freed s (b + new) (b + chain_len (gc_alloc_table (gc_area s)) b)
       (shrink_blocks b new (chain_len (gc_alloc_table (gc_area s)) b) s)"
proof -
  let ?a = "gc_area s" and ?t = "gc_alloc_table (gc_area s)"
  let ?n = "chain_len ?t b"
  let ?s' = "shrink_blocks b new ?n s"
  have lay: "layout_ok ?a" and kin: "kinds_ok ?a" using assms(1) by (simp_all add: gc_ok_def)
  have le: "b + ?n \<le> total_blocks ?a" using chain_in_heap [OF kin, of b] assms(2) by simp
  let ?f = "fold (\<lambda>bl t. atb_any_to_free t bl) [b + new..<b + ?n] ?t"
  have fk: "length ?f = length ?t \<and> atb_get_kind ?f c = (if c \<in> set [b + new..<b + ?n] then 0 else atb_get_kind ?t c)" for c
    using table_slot [OF lay] le by (intro fold_to_free) auto
  have area: "gc_area ?s' = ?a\<lparr>gc_alloc_table := ?f, gc_last_free_atb_index :=
      (if (b + new) div 4 < gc_last_free_atb_index ?a then (b + new) div 4 else gc_last_free_atb_index ?a)\<rparr>"
    by (simp add: shrink_blocks_def Let_def)
  have kinds: "gc_kind ?s' c = (if b + new \<le> c \<and> c < b + ?n then 0 else gc_kind s c)" for c
    using fk [of c] by (simp add: area)
  show "gc_ok ?s'"
  proof (rule gc_ok_freed [OF assms(1) kinds])
    show "gc_kind s (b + ?n) \<noteq> 2" using chain_end_spec [of "b + 1" ?t] by (simp add: chain_len_def)
    show "length ?f = length ?t" using fk by simp
    show "gc_area ?s' = ?a\<lparr>gc_alloc_table := ?f, gc_last_free_atb_index :=
      (if (b + new) div 4 < gc_last_free_atb_index ?a then (b + new) div 4 else gc_last_free_atb_index ?a)\<rparr>" by (rule area)
  qed auto
  show "freed s (b + new) (b + ?n) ?s'"
    unfolding freed_def using kinds by (simp add: shrink_blocks_def Let_def)
qed

text \<open>\<open>extended s b n n' s'\<close>: the chain of \<open>n\<close> blocks at \<open>b\<close> now has \<open>n'\<close>, the new ones zeroed.\<close>

definition extended :: "gc_state \<Rightarrow> nat \<Rightarrow> nat \<Rightarrow> nat \<Rightarrow> gc_state \<Rightarrow> bool" where
  "extended s b n n' s' \<longleftrightarrow> b + n' \<le> total_blocks (gc_area s)
     \<and> (\<forall>c. gc_kind s' c = (if b + n \<le> c \<and> c < b + n' then AT_TAIL else gc_kind s c))
     \<and> (\<forall>c. b + n \<le> c \<and> c < b + n' \<longrightarrow> gc_kind s c = AT_FREE)
     \<and> gc_mem s' = region_zeroed (gc_mem s) (ptr_from_block (gc_area s) (b + n)) ((n' - n) * 16)
     \<and> gc_lock_depth s' = gc_lock_depth s \<and> gc_auto_collect s' = gc_auto_collect s
     \<and> gc_pool_start (gc_area s') = gc_pool_start (gc_area s) \<and> gc_pool_end (gc_area s') = gc_pool_end (gc_area s)
     \<and> gc_alloc_table_byte_len (gc_area s') = gc_alloc_table_byte_len (gc_area s)"

lemma grow_blocks_extended:
  assumes "gc_ok s" "gc_kind s b = 1" "n = chain_len (gc_alloc_table (gc_area s)) b" "n < new"
    and "b + new \<le> total_blocks (gc_area s)"
    and "\<And>c. b + n \<le> c \<Longrightarrow> c < b + new \<Longrightarrow> gc_kind s c = 0"
  shows "gc_ok (grow_blocks (ptr_from_block (gc_area s) b) b new n s)"
    "extended s b n new (grow_blocks (ptr_from_block (gc_area s) b) b new n s)"
proof -
  let ?a = "gc_area s" and ?t = "gc_alloc_table (gc_area s)"
  let ?s' = "grow_blocks (ptr_from_block ?a b) b new n s"
  have lay: "layout_ok ?a" and kin: "kinds_ok ?a" and nomark: "\<forall>b. gc_kind s b \<noteq> 3"
    using assms(1) by (simp_all add: gc_ok_def)
  let ?f = "fold (\<lambda>bl t. atb_free_to_tail t bl) [b + n..<b + new] ?t"
  have fk: "length ?f = length ?t \<and> atb_get_kind ?f c = (if c \<in> set [b + n..<b + new] then 2 else atb_get_kind ?t c)" for c
    using table_slot [OF lay] assms(5,6) by (intro fold_to_tail) auto
  have area: "gc_area ?s' = ?a\<lparr>gc_alloc_table := ?f, gc_last_used_block := max (gc_last_used_block ?a) (b + new)\<rparr>"
    by (simp add: grow_blocks_def Let_def)
  have kinds: "gc_kind ?s' c = (if b + n \<le> c \<and> c < b + new then 2 else gc_kind s c)" for c
    using fk [of c] by (simp add: area)
  have tot: "total_blocks (gc_area ?s') = total_blocks ?a" by (simp add: area total_blocks_def)
  have last: "gc_kind s (b + n - 1) \<noteq> 0" "0 < n"
  proof -
    show n: "0 < n" unfolding assms(3) by (rule chain_len_pos)
    show "gc_kind s (b + n - 1) \<noteq> 0"
    proof (cases "n = 1")
      case True
      then show ?thesis using assms(2) by simp
    next
      case False
      then have "gc_kind s (b + n - 1) = 2"
        using chain_end_spec [of "b + 1" ?t] n unfolding assms(3) chain_len_def by auto
      then show ?thesis by simp
    qed
  qed
  have lay': "layout_ok (gc_area ?s')" using lay fk by (simp add: area layout_ok_def total_blocks_def)
  have "kinds_ok (gc_area ?s')"
    unfolding kinds_ok_def Let_def tot
  proof (intro conjI allI impI)
    show "gc_kind ?s' c = 0" if "total_blocks ?a \<le> c" for c
      using kinds [of c] kinds_okD(1) [OF kin that] that assms(5) by auto
    show "0 < c" "gc_kind ?s' (c - 1) \<noteq> 0" if "gc_kind ?s' c = 2" for c
    proof -
      have "0 < c \<and> gc_kind ?s' (c - 1) \<noteq> 0"
      proof (cases "b + n \<le> c \<and> c < b + new")
        case True
        then show ?thesis using kinds [of "c - 1"] last by (cases "c = b + n") auto
      next
        case False
        then have "gc_kind s c = 2" using that kinds [of c] by argo
        from kinds_okD(2) [OF kin this] show ?thesis using kinds [of "c - 1"] by auto
      qed
      then show "0 < c" "gc_kind ?s' (c - 1) \<noteq> 0" by simp_all
    qed
    show "gc_last_free_atb_index (gc_area ?s') \<le> gc_alloc_table_byte_len (gc_area ?s')"
      using kinds_okD(3) [OF kin] by (simp add: area)
    show "gc_kind ?s' c \<noteq> 0" if "c < 4 * gc_last_free_atb_index (gc_area ?s')" for c
      using kinds [of c] kinds_okD(4) [OF kin, of c] that by (simp add: area)
    show "c \<le> gc_last_used_block (gc_area ?s')" if "gc_kind ?s' c \<noteq> 0" for c
      using kinds [of c] kinds_okD(5) [OF kin, of c] that by (auto simp: area split: if_splits)
  qed
  then show "gc_ok ?s'" using lay' nomark kinds by (auto simp: gc_ok_def)
  have "(new - n) * 16 \<le> total_blocks ?a * 16" using assms(5) by simp
  also have "\<dots> \<le> unat (gc_pool_end ?a)" using lay by (simp add: layout_ok_def)
  finally have "(new - n) * 16 \<le> unat (gc_pool_end ?a)" .
  then have small: "(new - n) * 16 < 4294967296" using u32_bound [of "gc_pool_end ?a"] by linarith
  have "ptr_from_block ?a b + of_nat (n * 16) = ptr_from_block ?a (b + n)"
    by (simp add: ptr_from_block_def algebra_simps)
  then have "gc_mem ?s' = region_zeroed (gc_mem s) (ptr_from_block ?a (b + n)) ((new - n) * 16)"
    unfolding memset_zero [OF small, symmetric] by (simp add: grow_blocks_def Let_def)
  then show "extended s b n new ?s'"
    unfolding extended_def using kinds assms(5,6) by (simp add: area) (simp add: grow_blocks_def Let_def)
qed

text \<open>Byte \<open>i\<close> of the chain at block \<open>b\<close>; bytes beyond the first 16 lie in the tail blocks.\<close>

definition chain_byte :: "gc_state \<Rightarrow> nat \<Rightarrow> nat \<Rightarrow> u8" where
  "chain_byte s b i = gc_mem s (ptr_from_block (gc_area s) b + of_nat i)"

lemma ptr_from_block_add: "ptr_from_block a b + of_nat (16 * k + j) = ptr_from_block a (b + k) + of_nat j"
  by (simp add: ptr_from_block_def algebra_simps)

lemma chain_byte_block: "chain_byte s b i = chain_byte s (b + i div 16) (i mod 16)"
  using ptr_from_block_add [of "gc_area s" b "i div 16" "i mod 16"] by (simp add: chain_byte_def)

lemma in_blocks:
  assumes "layout_ok a" "c < total_blocks a" "start + n \<le> total_blocks a" "j < 16"
  shows "in_region (ptr_from_block a c + of_nat j) (ptr_from_block a start) (n * 16) \<longleftrightarrow> start \<le> c \<and> c < start + n"
proof -
  have e: "unat (gc_pool_start a) + total_blocks a * 16 = unat (gc_pool_end a)" "unat (gc_pool_end a) < 4294967296"
    using assms(1) u32_bound [of "gc_pool_end a"] by (simp_all add: layout_ok_def)
  show ?thesis
  proof (cases "start \<le> c")
    case True
    then have "ptr_from_block a c + of_nat j = ptr_from_block a start + of_nat (16 * (c - start) + j)"
      using ptr_from_block_add [of a start "c - start" j] by simp
    moreover have "16 * (c - start) + j < 4294967296" using e assms(2,4) by linarith
    ultimately have "in_region (ptr_from_block a c + of_nat j) (ptr_from_block a start) (n * 16) \<longleftrightarrow> 16 * (c - start) + j < n * 16"
      by (simp only: in_region_offset)
    then show ?thesis using True assms(4) by auto
  next
    case False
    let ?k = "16 * (start - c) - j"
    have k: "0 < ?k" "?k \<le> start * 16" using False assms(4) by linarith+
    have "start * 16 < 4294967296" using e assms(3) by linarith
    then have kb: "?k < 4294967296" using k(2) by linarith
    have "ptr_from_block a start = ptr_from_block a c + of_nat (16 * (start - c))"
      using ptr_from_block_add [of a c "start - c" 0] False by simp
    also have "\<dots> = ptr_from_block a c + of_nat j + of_nat ?k"
      using False assms(4) by (simp add: of_nat_diff)
    finally have "ptr_from_block a c + of_nat j - ptr_from_block a start = - of_nat ?k" by simp
    moreover have "unat (- of_nat ?k :: u32) = 4294967296 - ?k"
    proof -
      have "unat (of_nat ?k :: u32) = ?k" using kb by (rule unat_of_nat_small)
      then show ?thesis using k(1) unat_sub_wrap [of 0 "of_nat ?k :: u32"] by simp
    qed
    ultimately have "in_region (ptr_from_block a c + of_nat j) (ptr_from_block a start) (n * 16) \<longleftrightarrow> 4294967296 - ?k < n * 16"
      by (simp add: in_region_def)
    moreover have "\<not> 4294967296 - ?k < n * 16" using e k(2) assms(3) by linarith
    ultimately show ?thesis using False by simp
  qed
qed

text \<open>Allocation, freeing and growth as seen through the bytes of the blocks.\<close>

lemma zeroed_byte:
  assumes "layout_ok (gc_area s)" "gc_mem s' = region_zeroed (gc_mem s) (ptr_from_block (gc_area s) start) (n * 16)"
    "gc_pool_start (gc_area s') = gc_pool_start (gc_area s)"
    "c < total_blocks (gc_area s)" "start + n \<le> total_blocks (gc_area s)" "j < 16"
  shows "chain_byte s' c j = (if start \<le> c \<and> c < start + n then 0 else chain_byte s c j)"
  using in_blocks [OF assms(1,4,5,6)] assms(3)
  by (simp add: chain_byte_def assms(2) region_zeroed_def ptr_from_block_def)

lemma same_bytes: "gc_mem s' = gc_mem s \<Longrightarrow> gc_pool_start (gc_area s') = gc_pool_start (gc_area s) \<Longrightarrow> chain_byte s' c j = chain_byte s c j"
  by (simp add: chain_byte_def ptr_from_block_def)

text \<open>
  \<open>keeps s s' b n\<close>: every block in use in \<open>s\<close> outside the \<open>n\<close> blocks at \<open>b\<close> has the same kind and
  the same bytes in \<open>s'\<close>.
\<close>

definition keeps :: "gc_state \<Rightarrow> gc_state \<Rightarrow> nat \<Rightarrow> nat \<Rightarrow> bool" where
  "keeps s s' b n \<longleftrightarrow> (\<forall>c. gc_kind s c \<noteq> AT_FREE \<and> \<not> (b \<le> c \<and> c < b + n)
     \<longrightarrow> gc_kind s' c = gc_kind s c \<and> (\<forall>j<16. chain_byte s' c j = chain_byte s c j))"

text \<open>
  \<open>resized s0 s' b n b' n'\<close>: the chain of \<open>n\<close> blocks at \<open>b\<close> has become the chain of \<open>n'\<close> blocks at
  \<open>b'\<close> with the bytes common to both kept and the new ones zero; all other blocks and the pool are kept.
\<close>

definition resized :: "gc_state \<Rightarrow> gc_state \<Rightarrow> nat \<Rightarrow> nat \<Rightarrow> nat \<Rightarrow> nat \<Rightarrow> bool" where
  "resized s0 s' b n b' n' \<longleftrightarrow> gc_kind s' b' = AT_HEAD \<and> chain_len (gc_alloc_table (gc_area s')) b' = n'
     \<and> (\<forall>i < n' * 16. chain_byte s' b' i = (if i < n * 16 then chain_byte s0 b i else 0))
     \<and> keeps s0 s' b n
     \<and> gc_pool_start (gc_area s') = gc_pool_start (gc_area s0) \<and> gc_pool_end (gc_area s') = gc_pool_end (gc_area s0)
     \<and> gc_alloc_table_byte_len (gc_area s') = gc_alloc_table_byte_len (gc_area s0)"

lemma chain_len_unique:
  assumes "0 < n" "\<And>c. b < c \<Longrightarrow> c < b + n \<Longrightarrow> atb_get_kind t c = 2" "atb_get_kind t (b + n) \<noteq> 2"
  shows "chain_len t b = n"
  using chain_end_unique [of "b + 1" "b + n" t] assms by (simp add: chain_len_def)

lemma chain_tails:
  "b < c \<Longrightarrow> c < b + chain_len t b \<Longrightarrow> atb_get_kind t c = 2" "atb_get_kind t (b + chain_len t b) \<noteq> 2"
  using chain_end_spec [of "b + 1" t] by (auto simp: chain_len_def)

lemma freed_resized:
  assumes "gc_ok s" "gc_kind s b = 1" "freed s (b + new) (b + n) s'" "n = chain_len (gc_alloc_table (gc_area s)) b"
    "0 < new" "new \<le> n"
  shows "resized s s' b n b new"
proof -
  have k: "gc_kind s' c = (if b + new \<le> c \<and> c < b + n then 0 else gc_kind s c)" for c
    using assms(3) by (simp add: freed_def)
  have bytes: "chain_byte s' c j = chain_byte s c j" for c j
    using assms(3) by (intro same_bytes) (simp_all add: freed_def)
  have "chain_len (gc_alloc_table (gc_area s')) b = new"
  proof (rule chain_len_unique [OF assms(5)])
    show "gc_kind s' c = 2" if "b < c" "c < b + new" for c
      using chain_tails(1) [of b c "gc_alloc_table (gc_area s)"] that assms(4,6) k [of c] by simp
    show "gc_kind s' (b + new) \<noteq> 2"
      using chain_tails(2) [of "gc_alloc_table (gc_area s)" b] assms(4,6) k [of "b + new"] by (cases "new = n") auto
  qed
  then show ?thesis using k [of b] assms(2,5,6) k bytes assms(3) by (auto simp: resized_def keeps_def freed_def)
qed

lemma extended_resized:
  assumes "gc_ok s" "gc_kind s b = 1" "extended s b n new s'" "n = chain_len (gc_alloc_table (gc_area s)) b" "n < new"
  shows "resized s s' b n b new"
proof -
  let ?t = "gc_alloc_table (gc_area s)"
  have lay: "layout_ok (gc_area s)" and kin: "kinds_ok (gc_area s)" using assms(1) by (simp_all add: gc_ok_def)
  have n: "0 < n" unfolding assms(4) by (rule chain_len_pos)
  have x: "b + new \<le> total_blocks (gc_area s)"
    "\<And>c. gc_kind s' c = (if b + n \<le> c \<and> c < b + new then 2 else gc_kind s c)"
    "\<And>c. b + n \<le> c \<Longrightarrow> c < b + new \<Longrightarrow> gc_kind s c = 0"
    "gc_mem s' = region_zeroed (gc_mem s) (ptr_from_block (gc_area s) (b + n)) ((new - n) * 16)"
    "gc_pool_start (gc_area s') = gc_pool_start (gc_area s)"
    using assms(3) by (auto simp: extended_def)
  have bytes: "chain_byte s' c j = (if b + n \<le> c \<and> c < b + new then 0 else chain_byte s c j)"
    if "c < total_blocks (gc_area s)" "j < 16" for c j
    using zeroed_byte [OF lay x(4,5) that(1) _ that(2)] x(1) assms(5) by simp
  have "chain_len (gc_alloc_table (gc_area s')) b = new"
  proof (rule chain_len_unique)
    show "gc_kind s' c = 2" if "b < c" "c < b + new" for c
      using chain_tails(1) [of b c ?t] that assms(4) x(2) [of c] by auto
    have "gc_kind s (b + new) \<noteq> 2"
    proof
      assume "gc_kind s (b + new) = 2"
      moreover have "b + n \<le> b + new - 1" "b + new - 1 < b + new" using assms(5) by linarith+
      ultimately show False using kinds_okD(2) [OF kin, of "b + new"] x(3) [of "b + new - 1"] by simp
    qed
    then show "gc_kind s' (b + new) \<noteq> 2" using x(2) [of "b + new"] by simp
  qed (use assms(5) in simp)
  moreover have "chain_byte s' b i = (if i < n * 16 then chain_byte s b i else 0)" if "i < new * 16" for i
  proof -
    have "b + i div 16 < total_blocks (gc_area s)" using that x(1) by linarith
    from bytes [OF this, of "i mod 16"] chain_byte_block [of s' b i] chain_byte_block [of s b i]
    show ?thesis using that by (simp add: less_mult_imp_div_less div_less_iff_less_mult) linarith
  qed
  moreover have "keeps s s' b n"
    using bytes used_in_pool [OF kin] x(2,3) by (auto simp: keeps_def)
  ultimately show ?thesis using x(2) [of b] assms(2) n assms(3) by (simp add: resized_def extended_def)
qed


text \<open>A collection that keeps the chain at \<open>b\<close>: same blocks, same pool, no byte written.\<close>

definition chain_survives :: "gc_state \<Rightarrow> gc_state \<Rightarrow> nat \<Rightarrow> bool" where
  "chain_survives s s' b \<longleftrightarrow> gc_kind s' b = AT_HEAD
     \<and> chain_len (gc_alloc_table (gc_area s')) b = chain_len (gc_alloc_table (gc_area s)) b
     \<and> gc_mem s' = gc_mem s \<and> gc_lock_depth s' = gc_lock_depth s \<and> gc_pool_start (gc_area s') = gc_pool_start (gc_area s)"

text \<open>Moving: a fresh chain, the copy of the old bytes, the release of the old chain.\<close>

lemma allocated_keeps_chain:
  assumes "gc_ok s0" "gc_kind s0 b = 1" "allocated s0 start new s1" "n = chain_len (gc_alloc_table (gc_area s0)) b" "0 < new"
  shows "gc_kind s1 b = 1" "chain_len (gc_alloc_table (gc_area s1)) b = n" "start + new \<le> b \<or> b + n \<le> start"
proof -
  have kin: "kinds_ok (gc_area s0)" using assms(1) by (simp add: gc_ok_def)
  have n: "0 < n" unfolding assms(4) by (rule chain_len_pos)
  have x: "\<And>c. gc_kind s1 c = (if c = start then 1 else if start < c \<and> c < start + new then 2 else gc_kind s0 c)"
    "\<And>c. start \<le> c \<Longrightarrow> c < start + new \<Longrightarrow> gc_kind s0 c = 0"
    using assms(3) by (auto simp: allocated_def)
  have used: "gc_kind s0 c \<noteq> 0" if "b \<le> c" "c < b + n" for c
    using chain_tails(1) [of b c "gc_alloc_table (gc_area s0)"] assms(2,4) that by (cases "c = b") auto
  have out: "\<not> (start \<le> c \<and> c < start + new)" if "b \<le> c" "c < b + n" for c using used [OF that] x(2) [of c] by auto
  show dis: "start + new \<le> b \<or> b + n \<le> start"
    using out [of b] out [of start] n assms(5) by (cases "start \<le> b"; cases "start < b + n") simp_all
  have start: "gc_kind s1 start = 1" using x(1) [of start] by simp
  have "\<not> (start < b + n \<and> b + n < start + new)"
  proof
    assume "start < b + n \<and> b + n < start + new"
    then have "start \<le> b + n - 1 \<and> b + n - 1 < start + new" by linarith
    moreover have "b \<le> b + n - 1" "b + n - 1 < b + n" using n by linarith+
    ultimately show False using out by blast
  qed
  then have tail_pred: "gc_kind s1 (b + n) \<noteq> 2"
    using x(1) [of "b + n"] chain_tails(2) [of "gc_alloc_table (gc_area s0)" b] assms(4) by auto
  show "chain_len (gc_alloc_table (gc_area s1)) b = n"
  proof (rule chain_len_unique [OF n _ tail_pred])
    show "gc_kind s1 c = 2" if "b < c" "c < b + n" for c
      using x(1) [of c] out [of c] chain_tails(1) [of b c "gc_alloc_table (gc_area s0)"] assms(4,5) that by auto
  qed
  show "gc_kind s1 b = 1" using x(1) [of b] out [of b] n assms(2) by auto
qed

lemma copy_blocks:
  assumes "layout_ok a" "b + n \<le> total_blocks a" "start + n \<le> total_blocks a" "start + n \<le> b \<or> b + n \<le> start" "0 < n"
  shows "fst (memcpy m (ptr_from_block a start) (ptr_from_block a b) (of_nat (n * 16)))
    = block_copied m (ptr_from_block a start) (ptr_from_block a b) (n * 16)"
proof -
  let ?d = "ptr_from_block a start" and ?s = "ptr_from_block a b"
  have e: "unat (gc_pool_start a) + total_blocks a * 16 < 4294967296"
    using assms(1) u32_bound [of "gc_pool_end a"] by (simp add: layout_ok_def)
  have small: "n * 16 < 4294967296" using e assms(2) by linarith
  have u: "unat ?d = unat (gc_pool_start a) + start * 16" "unat ?s = unat (gc_pool_start a) + b * 16"
    using ptr_from_block_unat(2) [OF assms(1)] assms(2,3,5) by simp_all
  have "n * 16 \<le> unat (?d - ?s)"
  proof (cases "b < start")
    case True
    then have "unat (?d - ?s) = unat ?d - unat ?s" using u by (intro unat_sub_le) simp
    then show ?thesis using assms(4) u True by linarith
  next
    case False
    then have "unat ?d < unat ?s" using assms(4,5) u by linarith
    then have "unat (?d - ?s) = 4294967296 + unat ?d - unat ?s" by (rule unat_sub_wrap)
    then show ?thesis using e u assms(2) by linarith
  qed
  then have "memcpy_loop (n * 16) ?d ?s m = block_copied m ?d ?s (n * 16)"
    using small by (intro memcpy_loop_block) simp_all
  moreover have "unat (of_nat (n * 16) :: u32) = n * 16" using small by (rule unat_of_nat_small)
  ultimately show ?thesis by (simp only: memcpy_def fst_conv)
qed

lemma moved_resized:
  assumes "gc_ok s0" "gc_kind s0 b = 1" "allocated s0 start new s1" "n = chain_len (gc_alloc_table (gc_area s0)) b" "n < new"
    and "s2 = s1\<lparr>gc_mem := block_copied (gc_mem s1) (ptr_from_block (gc_area s0) start) (ptr_from_block (gc_area s0) b) (n * 16)\<rparr>"
    and "freed s2 b (b + n) s'"
  shows "resized s0 s' b n start new"
proof -
  let ?a = "gc_area s0" and ?t = "gc_alloc_table (gc_area s0)"
  have lay: "layout_ok ?a" and kin: "kinds_ok ?a" using assms(1) by (simp_all add: gc_ok_def)
  have n: "0 < n" unfolding assms(4) by (rule chain_len_pos)
  have x: "start + new \<le> total_blocks ?a"
    "\<And>c. gc_kind s1 c = (if c = start then 1 else if start < c \<and> c < start + new then 2 else gc_kind s0 c)"
    "\<And>c. start \<le> c \<Longrightarrow> c < start + new \<Longrightarrow> gc_kind s0 c = 0"
    "gc_mem s1 = region_zeroed (gc_mem s0) (ptr_from_block ?a start) (new * 16)"
    "gc_pool_start (gc_area s1) = gc_pool_start ?a"
    using assms(3) by (auto simp: allocated_def)
  have f: "\<And>c. gc_kind s' c = (if b \<le> c \<and> c < b + n then 0 else gc_kind s1 c)" "gc_mem s' = gc_mem s2"
    "gc_pool_start (gc_area s') = gc_pool_start ?a"
    using assms(7) x(5) by (simp_all add: freed_def assms(6))
  have dis: "start + new \<le> b \<or> b + n \<le> start" using allocated_keeps_chain(3) [OF assms(1-4)] assms(5) by simp
  have bn: "b + n \<le> total_blocks ?a" using chain_in_heap [OF kin, of b] assms(2,4) by simp
  have ptr: "ptr_from_block (gc_area s') c = ptr_from_block ?a c" "ptr_from_block (gc_area s1) c = ptr_from_block ?a c" for c
    using f(3) x(5) by (simp_all add: ptr_from_block_def)
  have z: "chain_byte s1 c j = (if start \<le> c \<and> c < start + new then 0 else chain_byte s0 c j)"
    if "c < total_blocks ?a" "j < 16" for c j
    using zeroed_byte [OF lay x(4,5) that(1) x(1) that(2)] .
  have old: "chain_byte s1 b i = chain_byte s0 b i" if "i < n * 16" for i
  proof -
    have "i div 16 < n" using that by (simp add: less_mult_imp_div_less)
    then have "b + i div 16 < total_blocks ?a" "\<not> (start \<le> b + i div 16 \<and> b + i div 16 < start + new)" using dis bn by auto
    with z [of "b + i div 16" "i mod 16"]
    have "chain_byte s1 (b + i div 16) (i mod 16) = chain_byte s0 (b + i div 16) (i mod 16)" by auto
    then show ?thesis by (simp only: chain_byte_block [of s1 b i] chain_byte_block [of s0 b i])
  qed
  have bytes: "chain_byte s' c j = (if start \<le> c \<and> c < start + n then chain_byte s0 b (16 * (c - start) + j) else chain_byte s1 c j)"
    if "c < total_blocks ?a" "j < 16" for c j
  proof -
    have r: "in_region (ptr_from_block ?a c + of_nat j) (ptr_from_block ?a start) (n * 16) \<longleftrightarrow> start \<le> c \<and> c < start + n"
      using in_blocks [OF lay that(1) _ that(2), of start n] x(1) assms(5) by simp
    show ?thesis
    proof (cases "start \<le> c \<and> c < start + n")
      case True
      let ?i = "16 * (c - start) + j"
      have m2: "gc_mem s2 = block_copied (gc_mem s1) (ptr_from_block ?a start) (ptr_from_block ?a b) (n * 16)"
        by (simp add: assms(6))
      have "ptr_from_block ?a start + of_nat ?i = ptr_from_block ?a c + of_nat j"
        using ptr_from_block_add [of ?a start "c - start" j] True by simp
      then have "ptr_from_block ?a c + of_nat j - ptr_from_block ?a start = of_nat ?i" by (metis add_diff_cancel_left')
      then have "gc_mem s' (ptr_from_block ?a c + of_nat j) = gc_mem s1 (ptr_from_block ?a b + of_nat ?i)"
        using r True by (simp only: f(2) m2 block_copied_def if_True simp_thms)
      moreover have "?i < n * 16" using True that(2) by linarith
      ultimately show ?thesis using True old [of ?i] by (simp only: chain_byte_def ptr if_True simp_thms)
    next
      case False
      then have "\<not> in_region (ptr_from_block ?a c + of_nat j) (ptr_from_block ?a start) (n * 16)" using r by blast
      then have "chain_byte s' c j = chain_byte s1 c j"
        by (simp add: chain_byte_def f(2) assms(6) block_copied_def ptr)
      then show ?thesis using False by auto
    qed
  qed
  have nk: "gc_kind s' c = (if c = start then 1 else if start < c \<and> c < start + new then 2
      else if b \<le> c \<and> c < b + n then 0 else gc_kind s0 c)" for c
    using f(1) [of c] x(2) [of c] dis assms(5) n by auto
  have end_new: "gc_kind s' (start + new) \<noteq> 2"
  proof
    assume "gc_kind s' (start + new) = 2"
    then have "gc_kind s0 (start + new) = 2" using nk [of "start + new"] assms(5) by (auto split: if_splits)
    moreover have "start \<le> start + new - 1" "start + new - 1 < start + new" using assms(5) by linarith+
    ultimately show False using kinds_okD(2) [OF kin, of "start + new"] x(3) [of "start + new - 1"] by simp
  qed
  have len: "chain_len (gc_alloc_table (gc_area s')) start = new"
    by (rule chain_len_unique [OF _ _ end_new]) (use nk assms(5) in auto)
  have copied: "chain_byte s' start i = (if i < n * 16 then chain_byte s0 b i else 0)" if "i < new * 16" for i
  proof -
    have i: "i div 16 < new" "(i div 16 < n) = (i < n * 16)" using that by (simp_all add: less_mult_imp_div_less div_less_iff_less_mult)
    then have "start + i div 16 < total_blocks ?a" using x(1) by linarith
    from bytes [OF this, of "i mod 16"] z [OF this, of "i mod 16"] i chain_byte_block [of s' start i]
    show ?thesis by simp
  qed
  have "keeps s0 s' b n"
    unfolding keeps_def
  proof (intro allI impI conjI)
    fix c j :: nat
    assume c: "gc_kind s0 c \<noteq> 0 \<and> \<not> (b \<le> c \<and> c < b + n)"
    then have out: "\<not> (start \<le> c \<and> c < start + new)" "c < total_blocks ?a" using x(3) [of c] used_in_pool [OF kin] by auto
    show "gc_kind s' c = gc_kind s0 c" using nk [of c] c out assms(5) by auto
    show "chain_byte s' c j = chain_byte s0 c j" if "j < 16"
      using bytes [OF out(2) that] z [OF out(2) that] out(1) assms(5) by auto
  qed
  moreover have "gc_pool_end (gc_area s') = gc_pool_end ?a" "gc_alloc_table_byte_len (gc_area s') = gc_alloc_table_byte_len ?a"
    using assms(3,7) by (simp_all add: freed_def allocated_def assms(6))
  ultimately show ?thesis using nk [of start] len copied f(3) by (simp add: resized_def)
qed


text \<open>Everything \<open>gc_realloc\<close> can do with a request it can represent.\<close>

lemma gc_realloc_result:
  assumes ok: "gc_ok s" "gc_ok (collect s)" "chain_survives s (collect s) b"
    and head: "gc_kind s b = 1" "\<not> gc_is_locked s" "n = chain_len (gc_alloc_table (gc_area s)) b"
    and req: "nbytes \<noteq> 0" "unat nbytes + 15 < 4294967296" "new = (unat nbytes + 15) div 16"
  shows "\<exists>p s'. gc_realloc collect s (ptr_from_block (gc_area s) b) nbytes mv = Some (p, s') \<and> gc_ok s'
    \<and> (p = 0 \<longrightarrow> n < new \<and> (s' = s \<or> mv \<and> s' = collect s))
    \<and> (p \<noteq> 0 \<longrightarrow> (\<exists>s0 b'. (s0 = s \<or> mv \<and> s0 = collect s) \<and> p = ptr_from_block (gc_area s) b'
          \<and> resized s0 s' b n b' new \<and> (new \<le> n \<or> \<not> mv \<longrightarrow> b' = b \<and> s0 = s)))"
proof -
  let ?a = "gc_area s" and ?t = "gc_alloc_table (gc_area s)" and ?p = "ptr_from_block (gc_area s) b"
  have lay: "layout_ok ?a" and kin: "kinds_ok ?a" using ok(1) by (simp_all add: gc_ok_def)
  have bt: "b < total_blocks ?a" using used_in_pool [OF kin] head(1) by simp
  note bp = block_ptr [OF lay bt]
  have "0 < unat nbytes" using req(1) by (simp add: unat_gt_0)
  then have new: "0 < new" unfolding req(3) by (simp add: div_greater_zero_iff)
  have nw: "unat ((nbytes + 16 - 1) div 16) = new"
  proof -
    have "unat (15 + nbytes) = unat nbytes + 15" using req(2) by (simp add: unat_word_ariths)
    then show ?thesis by (simp add: unat_div req(3))
  qed
  have bl: "blocks_for nbytes = new" by (simp add: blocks_for_spec req(2,3))
  from count_blocks_chain [OF kin head(1), of new] obtain f where f:
    "count_blocks ?t new [b + 1..<total_blocks ?a] 1 0 = (n, f)" "0 < f \<longrightarrow> b + n + f \<le> total_blocks ?a"
    "\<forall>d. b + n \<le> d \<and> d < b + n + f \<longrightarrow> gc_kind s d = 0" unfolding head(3) by blast
  let ?r = "gc_realloc collect s ?p nbytes mv"
  have run: "?r = (if new = n then Some (?p, s)
      else if new < n then Some (?p, shrink_blocks b new n s)
      else if new \<le> n + f then Some (?p, grow_blocks ?p b new n s)
      else if \<not> mv then Some (0, s)
      else let (q, s1) = gc_alloc collect s nbytes
           in if q = 0 then Some (0, s1)
              else map_option (Pair q) (gc_free (s1\<lparr>gc_mem := fst (memcpy (gc_mem s1) q ?p (of_nat (n * 16)))\<rparr>) ?p))"
    using head(1,2) req(1) bp f(1) nw
    by (simp add: gc_realloc_def Let_def gc_is_locked_def split: prod.splits)
  consider "new \<le> n" | "n < new" "new \<le> n + f" | "n < new" "\<not> new \<le> n + f" by linarith
  then show ?thesis
  proof cases
    case 1
    let ?s' = "if new = n then s else shrink_blocks b new n s"
    have "?r = Some (?p, ?s')" using run 1 by simp
    moreover have "gc_ok ?s'" "freed s (b + new) (b + n) ?s'"
      using shrink_blocks_freed [OF ok(1) head(1), of new] 1 ok(1) unfolding head(3) by (auto simp: freed_def)
    moreover from this(2) have "resized s ?s' b n b new" using freed_resized [OF ok(1) head(1) _ head(3) new 1] by simp
    ultimately show ?thesis using bp(3) by blast
  next
    case 2
    let ?s' = "grow_blocks ?p b new n s"
    have "?r = Some (?p, ?s')" using run 2 by simp
    moreover have fit: "b + new \<le> total_blocks ?a" "\<And>c. b + n \<le> c \<Longrightarrow> c < b + new \<Longrightarrow> gc_kind s c = 0"
      using f(2,3) 2 by auto
    moreover note grow_blocks_extended [OF ok(1) head(1,3) 2(1) fit]
    moreover from this(2) have "resized s ?s' b n b new" using extended_resized [OF ok(1) head(1) _ head(3) 2(1)] by simp
    ultimately show ?thesis using bp(3) by blast
  next
    case 3
    show ?thesis
    proof (cases mv)
      case False
      then have "?r = Some (0, s)" using run 3 by simp
      then show ?thesis using ok(1) 3(1) by blast
    next
      case True
      obtain q s1 where al: "gc_alloc collect s nbytes = (q, s1)" by fastforce
      note c = gc_alloc_cases [OF ok(1,2) al, unfolded bl]
      show ?thesis
      proof (cases "q = 0")
        case q0: True
        then have "?r = Some (0, s1)" using run 3 True al by simp
        moreover have "gc_ok s1" "s1 = s \<or> s1 = collect s" using c q0 by simp_all
        ultimately show ?thesis using 3(1) True by blast
      next
        case False
        then obtain s0 start where s0: "s0 = s \<or> s0 = collect s" "allocated s0 start new s1" "q = ptr_from_block (gc_area s0) start"
          using c by blast
        have s0s: "gc_ok s0" "gc_kind s0 b = 1" "n = chain_len (gc_alloc_table (gc_area s0)) b"
          "gc_pool_start (gc_area s0) = gc_pool_start ?a" "gc_lock_depth s0 = gc_lock_depth s"
          using s0(1) ok head by (auto simp: chain_survives_def)
        have ptr: "ptr_from_block (gc_area s0) d = ptr_from_block ?a d" for d using s0s(4) by (simp add: ptr_from_block_def)
        note keep = allocated_keeps_chain [OF s0s(1,2) s0(2) s0s(3) new]
        have in0: "b + n \<le> total_blocks (gc_area s0)" "start + n \<le> total_blocks (gc_area s0)"
          using chain_in_heap [of "gc_area s0" b] s0s(1-3) s0(2) 3(1) by (auto simp: gc_ok_def allocated_def)
        have copy: "fst (memcpy m q ?p (of_nat (n * 16))) = block_copied m (ptr_from_block (gc_area s0) start) (ptr_from_block (gc_area s0) b) (n * 16)" for m
          unfolding s0(3) ptr [symmetric, of b]
        proof (rule copy_blocks [OF _ in0])
          show "layout_ok (gc_area s0)" using s0s(1) by (simp add: gc_ok_def)
          show "start + n \<le> b \<or> b + n \<le> start" using keep(3) 3(1) by auto
          show "0 < n" unfolding head(3) by (rule chain_len_pos)
        qed
        define s2 where "s2 = s1\<lparr>gc_mem := block_copied (gc_mem s1) (ptr_from_block (gc_area s0) start) (ptr_from_block (gc_area s0) b) (n * 16)\<rparr>"
        have s2: "gc_area s2 = gc_area s1" "gc_lock_depth s2 = gc_lock_depth s1" by (simp_all add: s2_def)
        have s1: "gc_ok s1" "gc_lock_depth s1 = gc_lock_depth s0" "gc_pool_start (gc_area s1) = gc_pool_start ?a"
          using c False s0(2) s0s(4) by (simp_all add: allocated_def)
        have "gc_ok s2" using s1(1) by (simp add: gc_ok_def s2)
        moreover have "\<not> gc_is_locked s2" using head(2) s1(2) s0s(5) by (simp add: gc_is_locked_def s2)
        moreover have "gc_kind s2 b = 1" using keep(1) by (simp add: s2)
        ultimately obtain s' where s': "gc_free s2 (ptr_from_block (gc_area s2) b) = Some s'" "gc_ok s'"
          "freed s2 b (b + n) s'"
          using gc_free_head [of s2 b] keep(2) by (auto simp: s2)
        have "ptr_from_block (gc_area s2) b = ?p" using s1(3) by (simp add: ptr_from_block_def s2)
        then have "?r = Some (q, s')"
          using run 3 True al False s'(1) copy [of "gc_mem s1"] by (simp add: s2_def)
        moreover have "resized s0 s' b n start new"
          by (rule moved_resized [OF s0s(1,2) s0(2) s0s(3) 3(1) s2_def s'(3)])
        ultimately show ?thesis using s'(2) False s0(1,3) ptr True 3(1) by (metis leD)
      qed
    qed
  qed
qed

text \<open>
  A request so large that the rounding wraps: \<open>gc_realloc\<close> computes zero blocks, releases the whole
  chain, its head included, and reports success with the released address.
\<close>

lemma gc_realloc_wraps:
  assumes "gc_ok s" "gc_kind s b = 1" "\<not> gc_is_locked s" "4294967296 \<le> unat nbytes + 15"
  shows "\<exists>s'. gc_realloc collect s (ptr_from_block (gc_area s) b) nbytes mv = Some (ptr_from_block (gc_area s) b, s')
    \<and> freed s b (b + chain_len (gc_alloc_table (gc_area s)) b) s'"
proof -
  let ?a = "gc_area s" and ?t = "gc_alloc_table (gc_area s)" and ?p = "ptr_from_block (gc_area s) b"
  have lay: "layout_ok ?a" and kin: "kinds_ok ?a" using assms(1) by (simp_all add: gc_ok_def)
  have bt: "b < total_blocks ?a" using used_in_pool [OF kin] assms(2) by simp
  note bp = block_ptr [OF lay bt]
  have nz: "nbytes \<noteq> 0" using assms(4) by auto
  have "unat (15 + nbytes) = (15 + unat nbytes) mod 4294967296" by (simp add: unat_word_ariths)
  also have "15 + unat nbytes = unat nbytes + 15" by (rule add.commute)
  also have "(unat nbytes + 15) mod 4294967296 = (unat nbytes + 15 - 4294967296) mod 4294967296" using assms(4) by (intro le_mod_geq) simp
  also have "\<dots> = unat nbytes + 15 - 4294967296" using u32_bound [of nbytes] by (intro mod_less) linarith
  also have "\<dots> < 16" using u32_bound [of nbytes] by linarith
  finally have nw: "unat ((nbytes + 16 - 1) div 16) = 0" by (simp add: unat_div)
  from count_blocks_chain [OF kin assms(2), of 0] obtain f where f:
    "count_blocks ?t 0 [b + 1..<total_blocks ?a] 1 0 = (chain_len ?t b, f)" by blast
  have n: "0 < chain_len ?t b" by (rule chain_len_pos)
  then have "gc_realloc collect s ?p nbytes mv = Some (?p, shrink_blocks b 0 (chain_len ?t b) s)"
    using assms(2,3) nz bp f nw by (simp add: gc_realloc_def Let_def gc_is_locked_def)
  then show ?thesis using shrink_blocks_freed(2) [OF assms(1,2) n] by simp
qed

end
