(* ===== verification/GcCollect.thy ===== *)
theory GcCollect
  imports GcMark GcResize
begin

text \<open>
  The sweep, the whole collection, and the heap operations that collect when they find no free
  run: the properties of the collector are stated here.
\<close>

section \<open>Sweeping\<close>

text \<open>The head of the chain a block in use belongs to.\<close>

fun chain_head :: "u8 list \<Rightarrow> nat \<Rightarrow> nat" where
  "chain_head t 0 = 0"
| "chain_head t (Suc b) = (if atb_get_kind t (Suc b) = AT_TAIL then chain_head t b else Suc b)"

definition swept_kind :: "u8 list \<Rightarrow> nat \<Rightarrow> u8" where
  "swept_kind t c =
     (if atb_get_kind t c = AT_FREE \<or> atb_get_kind t (chain_head t c) \<noteq> AT_MARK then AT_FREE
      else if atb_get_kind t c = AT_TAIL then AT_TAIL else AT_HEAD)"

lemma chain_head_non_tail: "atb_get_kind t c \<noteq> 2 \<Longrightarrow> chain_head t c = c"
  by (cases c) auto

text \<open>The state of the sweep before block \<open>n\<close>.\<close>

definition sweeping :: "u8 list \<Rightarrow> nat \<Rightarrow> u8 list \<times> bool \<times> nat \<Rightarrow> bool" where
  "sweeping t n st \<longleftrightarrow> length (fst st) = length t
     \<and> (\<forall>c. atb_get_kind (fst st) c = (if c < n then swept_kind t c else atb_get_kind t c))
     \<and> (atb_get_kind t n = AT_TAIL \<longrightarrow> (fst (snd st) \<longleftrightarrow> atb_get_kind t (chain_head t n) \<noteq> AT_MARK))
     \<and> (\<forall>c < n. swept_kind t c \<noteq> AT_FREE \<longrightarrow> c \<le> snd (snd st))"

lemma sweep_block_step:
  assumes "sweeping t n (tt, ft, lu)" "atb_get_kind t (n + 1) = 2 \<longrightarrow> atb_get_kind t n \<noteq> 0"
    "n < 4 * length t"
  shows "sweeping t (n + 1) (sweep_block n (tt, ft, lu))"
proof -
  have len: "length tt = length t"
    and k: "\<And>c. atb_get_kind tt c = (if c < n then swept_kind t c else atb_get_kind t c)"
    and ft: "atb_get_kind t n = 2 \<Longrightarrow> ft = (atb_get_kind t (chain_head t n) \<noteq> 3)"
    and lu: "\<And>c. c < n \<Longrightarrow> swept_kind t c \<noteq> 0 \<Longrightarrow> c \<le> lu"
    using assms(1) by (simp_all add: sweeping_def)
  have kn: "atb_get_kind tt n = atb_get_kind t n" using k [of n] by simp
  have slot: "n div 4 < length tt" using assms(3) len by auto
  have hd: "atb_get_kind t (n + 1) = 2 \<Longrightarrow> chain_head t (n + 1) = chain_head t n" by simp
  have upd: "\<And>c. (if c = n then x else atb_get_kind tt c) = (if c < n + 1 then swept_kind t c else atb_get_kind t c)"
    if "x = swept_kind t n" for x
    using k that by (auto simp: less_Suc_eq)
  have luS: "\<And>c. c < n + 1 \<Longrightarrow> swept_kind t c \<noteq> 0 \<Longrightarrow> c \<le> l"
    if "swept_kind t n \<noteq> 0 \<Longrightarrow> l = n" "swept_kind t n = 0 \<Longrightarrow> l = lu" for l
    using lu that by (cases "swept_kind t n = 0") (auto simp: less_Suc_eq)
  consider "atb_get_kind t n = 0" | "atb_get_kind t n = 1" | "atb_get_kind t n = 2" | "atb_get_kind t n = 3"
    using atb_kind_range [of t n] by blast
  then show ?thesis
  proof cases
    case 1
    then have s: "swept_kind t n = 0" by (simp add: swept_kind_def)
    have "sweep_block n (tt, ft, lu) = (tt, ft, lu)" using 1 kn by (simp add: sweep_block_def)
    moreover have "atb_get_kind tt c = (if c < n + 1 then swept_kind t c else atb_get_kind t c)" for c
      using k [of c] s 1 by (cases "c = n") auto
    moreover have "atb_get_kind t (n + 1) \<noteq> 2" using assms(2) 1 by simp
    ultimately show ?thesis unfolding sweeping_def using len luS [of lu] s by auto
  next
    case 2
    then have s: "swept_kind t n = 0" by (simp add: swept_kind_def chain_head_non_tail)
    have "sweep_block n (tt, ft, lu) = (atb_any_to_free tt n, True, lu)" using 2 kn by (simp add: sweep_block_def)
    moreover have "atb_get_kind (atb_any_to_free tt n) c = (if c < n + 1 then swept_kind t c else atb_get_kind t c)" for c
      using atb_kinds(1) [OF slot, of c] upd [of 0 c] s by simp
    moreover have "atb_get_kind t (chain_head t n) \<noteq> 3" using 2 by (simp add: chain_head_non_tail)
    ultimately show ?thesis unfolding sweeping_def using len luS [of lu] s hd by auto
  next
    case 3
    show ?thesis
    proof (cases ft)
      case True
      then have h: "atb_get_kind t (chain_head t n) \<noteq> 3" using ft [OF 3] by simp
      then have s: "swept_kind t n = 0" by (simp add: swept_kind_def)
      have "sweep_block n (tt, ft, lu) = (atb_any_to_free tt n, True, lu)" using 3 kn True by (simp add: sweep_block_def)
      moreover have "atb_get_kind (atb_any_to_free tt n) c = (if c < n + 1 then swept_kind t c else atb_get_kind t c)" for c
        using atb_kinds(1) [OF slot, of c] upd [of 0 c] s by simp
      ultimately show ?thesis unfolding sweeping_def using len luS [of lu] s hd h by auto
    next
      case False
      then have h: "atb_get_kind t (chain_head t n) = 3" using ft [OF 3] by simp
      then have s: "swept_kind t n = 2" using 3 by (simp add: swept_kind_def)
      have "sweep_block n (tt, ft, lu) = (tt, False, n)" using 3 kn False by (simp add: sweep_block_def)
      moreover have "atb_get_kind tt c = (if c < n + 1 then swept_kind t c else atb_get_kind t c)" for c
        using k [of c] s 3 by (cases "c = n") auto
      ultimately show ?thesis unfolding sweeping_def using len luS [of n] s hd h by auto
    qed
  next
    case 4
    then have h: "chain_head t n = n" by (simp add: chain_head_non_tail)
    then have s: "swept_kind t n = 1" using 4 by (simp add: swept_kind_def)
    have "sweep_block n (tt, ft, lu) = (atb_mark_to_head tt n, False, n)" using 4 kn by (simp add: sweep_block_def)
    moreover have "atb_get_kind (atb_mark_to_head tt n) c = (if c < n + 1 then swept_kind t c else atb_get_kind t c)" for c
      using atb_kinds(5) [OF slot, of c] upd [of 1 c] s kn 4 by simp
    ultimately show ?thesis unfolding sweeping_def using len luS [of n] s hd h 4 by auto
  qed
qed

lemma sweep_fold:
  assumes "\<And>b. atb_get_kind t b = 2 \<Longrightarrow> 0 < b \<and> atb_get_kind t (b - 1) \<noteq> 0" "n \<le> 4 * length t"
  shows "sweeping t n (fold sweep_block [0..<n] (t, False, 0))"
  using assms(2)
proof (induction n)
  case 0
  have "atb_get_kind t 0 \<noteq> 2" using assms(1) [of 0] by auto
  then show ?case by (simp add: sweeping_def)
next
  case (Suc n)
  obtain tt ft lu where st: "fold sweep_block [0..<n] (t, False, 0) = (tt, ft, lu)" by (metis prod_cases3)
  have "sweeping t n (tt, ft, lu)" using Suc st by simp
  from sweep_block_step [OF this] assms(1) [of "n + 1"] Suc.prems have
    "sweeping t (n + 1) (sweep_block n (tt, ft, lu))" by auto
  then show ?case using st by simp
qed

lemma gc_sweep_result:
  assumes "layout_ok (gc_area s)" "\<And>b. gc_kind s b = 2 \<Longrightarrow> 0 < b \<and> gc_kind s (b - 1) \<noteq> 0"
    "\<And>b. gc_kind s b \<noteq> 0 \<Longrightarrow> b \<le> gc_last_used_block (gc_area s) \<and> b < total_blocks (gc_area s)"
  shows "gc_kind (gc_sweep s) c = swept_kind (gc_alloc_table (gc_area s)) c"
    "gc_kind (gc_sweep s) c \<noteq> 0 \<Longrightarrow> c \<le> gc_last_used_block (gc_area (gc_sweep s))"
    "length (gc_alloc_table (gc_area (gc_sweep s))) = length (gc_alloc_table (gc_area s))"
proof -
  let ?a = "gc_area s" and ?t = "gc_alloc_table (gc_area s)"
  let ?e = "if gc_last_used_block ?a < total_blocks ?a then gc_last_used_block ?a + 1 else total_blocks ?a"
  let ?st = "fold sweep_block [0..<?e] (?t, False, 0)"
  have "total_blocks ?a \<le> 4 * length ?t" using assms(1) by (simp add: layout_ok_def total_blocks_def)
  then have "?e \<le> 4 * length ?t" by (auto split: if_splits)
  from sweep_fold [OF assms(2) this] have sw: "sweeping ?t ?e ?st" .
  have out: "?e \<le> c \<Longrightarrow> gc_kind s c = 0" for c using assms(3) [of c] by (auto split: if_splits)
  have area: "gc_area (gc_sweep s) = ?a\<lparr>gc_alloc_table := fst ?st, gc_last_used_block := snd (snd ?st)\<rparr>"
    by (simp add: gc_sweep_def Let_def)
  show kinds: "gc_kind (gc_sweep s) c = swept_kind ?t c" for c
    using sw out [of c] by (cases "c < ?e") (simp_all add: area sweeping_def swept_kind_def)
  show "c \<le> gc_last_used_block (gc_area (gc_sweep s))" if "gc_kind (gc_sweep s) c \<noteq> 0"
  proof -
    have "swept_kind ?t c \<noteq> 0" using that kinds [of c] by simp
    moreover from this have "c < ?e" using out [of c] by (cases "c < ?e") (auto simp: swept_kind_def)
    ultimately show ?thesis using sw by (simp add: area sweeping_def)
  qed
  show "length (gc_alloc_table (gc_area (gc_sweep s))) = length ?t" using sw by (simp add: area sweeping_def)
qed


section \<open>A whole collection\<close>

definition stack_words :: "u32 \<Rightarrow> nat \<Rightarrow> mem \<Rightarrow> u32 list" where
  "stack_words p n m = map (\<lambda>i. load_u32 m (p + 4 * of_nat i)) [0..<n]"

text \<open>The root words of a collection: the interpreter's context, then the C stack.\<close>

definition root_words :: "gc_roots \<Rightarrow> mem \<Rightarrow> u32 list" where
  "root_words r m = stack_words (ctx_ptrs r) (ctx_len r) m
     @ (if root_sp r < root_stack_top r
        then stack_words (root_sp r) (unat (root_stack_top r - root_sp r) div 4) m else [])"

text \<open>The heads in use that a collection with roots \<open>r\<close> keeps.\<close>

definition live :: "gc_roots \<Rightarrow> gc_state \<Rightarrow> nat set" where
  "live r s = gc_reach (gc_area s) (gc_mem s) (gc_alloc_table (gc_area s)) (root_words r (gc_mem s))"

text \<open>Only the bounds of the pool matter to marking.\<close>

definition same_pool :: "gc_area \<Rightarrow> gc_area \<Rightarrow> bool" where
  "same_pool a a' \<longleftrightarrow> gc_pool_start a' = gc_pool_start a \<and> gc_pool_end a' = gc_pool_end a
     \<and> gc_alloc_table_byte_len a' = gc_alloc_table_byte_len a"

lemma same_pool_funs:
  assumes "same_pool a a'"
  shows "verify_ptr a' = verify_ptr a" "block_from_ptr a' = block_from_ptr a" "ptr_from_block a' = ptr_from_block a"
    "total_blocks a' = total_blocks a"
  using assms by (auto simp: same_pool_def verify_ptr_def block_from_ptr_def ptr_from_block_def total_blocks_def fun_eq_iff)

lemma same_pool_children:
  assumes "same_pool a a'"
  shows "targets a' = targets a" "block_words a' = block_words a"
  by (auto simp: targets_def block_words_def fun_eq_iff same_pool_funs [OF assms])

lemma same_pool_reach: 
  assumes "same_pool a a'"
  shows "gc_reach a' = gc_reach a"
proof -
  have "x \<in> gc_reach c m t ws" if "x \<in> gc_reach b m t ws" "targets b = targets c" "block_words b = block_words c" for b c m t ws x
    using that(1)
  proof induction
    case (root x)
    then show ?case using that(2) by (simp add: gc_reach.root)
  next
    case (step y x)
    from step.IH step.hyps(2) show ?case unfolding that(2,3) by (rule gc_reach.step)
  qed
  then show ?thesis using same_pool_children [OF assms] by (auto simp: fun_eq_iff)
qed

lemma same_pool_rooted: "same_pool a a' \<Longrightarrow> rooted a' m t0 ws M tv = rooted a m t0 ws M tv"
  by (simp add: rooted_def same_pool_reach same_pool_children)

lemma gc_collect_root_rooted:
  assumes "rooted a (gc_mem s) t0 ws M (gc_alloc_table (gc_area s), gc_stack_overflow s)" "same_pool a (gc_area s)"
  shows "\<exists>M'. rooted a (gc_mem s) t0 (ws @ stack_words p n (gc_mem s)) M'
      (gc_alloc_table (gc_area (gc_collect_root p n s)), gc_stack_overflow (gc_collect_root p n s))"
    "gc_collect_root p n s = (set_table (gc_alloc_table (gc_area (gc_collect_root p n s))) s)
       \<lparr>gc_stack_overflow := gc_stack_overflow (gc_collect_root p n s)\<rparr>"
proof -
  have "rooted (gc_area s) (gc_mem s) t0 ws M (gc_alloc_table (gc_area s), gc_stack_overflow s)"
    using assms by (simp add: same_pool_rooted)
  from root_words_rooted [OF this, of "\<lambda>i. load_u32 (gc_mem s) (p + 4 * of_nat i)" "[0..<n]"]
  show "\<exists>M'. rooted a (gc_mem s) t0 (ws @ stack_words p n (gc_mem s)) M'
      (gc_alloc_table (gc_area (gc_collect_root p n s)), gc_stack_overflow (gc_collect_root p n s))"
    by (simp add: gc_collect_root_def set_table_def stack_words_def same_pool_rooted [OF assms(2)] Let_def)
  show "gc_collect_root p n s = (set_table (gc_alloc_table (gc_area (gc_collect_root p n s))) s)
       \<lparr>gc_stack_overflow := gc_stack_overflow (gc_collect_root p n s)\<rparr>"
    by (simp add: gc_collect_root_def set_table_def Let_def)
qed

text \<open>The state after the roots have been marked.\<close>

lemma collect_roots_rooted:
  assumes "s1 = gc_collect_start r s"
    and "s2 = (if root_sp r < root_stack_top r
      then gc_collect_root (root_sp r) (unat (root_stack_top r - root_sp r) div 4) s1 else s1)"
  shows "\<exists>M. rooted (gc_area s) (gc_mem s) (gc_alloc_table (gc_area s)) (root_words r (gc_mem s)) M
      (gc_alloc_table (gc_area s2), gc_stack_overflow s2)"
    "s2 = s\<lparr>gc_lock_depth := gc_lock_depth s + 1,
       gc_area := (gc_area s)\<lparr>gc_alloc_table := gc_alloc_table (gc_area s2)\<rparr>, gc_stack_overflow := gc_stack_overflow s2\<rparr>"
proof -
  let ?a = "gc_area s" and ?t0 = "gc_alloc_table (gc_area s)" and ?m = "gc_mem s"
  let ?s0 = "s\<lparr>gc_lock_depth := gc_lock_depth s + 1, gc_stack_overflow := False\<rparr>"
  have same: "same_pool ?a ?a" by (simp add: same_pool_def)
  have "rooted ?a ?m ?t0 [] {} (?t0, False)" by (simp add: rooted_def marked_by_empty targets_def)
  then obtain M1 where M1: "rooted ?a ?m ?t0 (stack_words (ctx_ptrs r) (ctx_len r) ?m) M1
      (gc_alloc_table (gc_area s1), gc_stack_overflow s1)"
    using gc_collect_root_rooted(1) [of ?a ?s0 ?t0 "[]" "{}" "ctx_ptrs r" "ctx_len r"] same
    by (auto simp: assms(1) gc_collect_start_def)
  have s1: "s1 = (set_table (gc_alloc_table (gc_area s1)) ?s0)\<lparr>gc_stack_overflow := gc_stack_overflow s1\<rparr>"
    unfolding assms(1) gc_collect_start_def
    by (rule gc_collect_root_rooted(2) [of ?a _ ?t0 "[]" "{}"])
      (simp_all add: rooted_def marked_by_empty targets_def same_pool_def)
  have m1: "gc_mem s1 = ?m" "same_pool ?a (gc_area s1)" by (subst s1, simp add: set_table_def same_pool_def)+
  have M1': "rooted ?a (gc_mem s1) ?t0 (stack_words (ctx_ptrs r) (ctx_len r) ?m) M1
      (gc_alloc_table (gc_area s1), gc_stack_overflow s1)" using M1 by (simp add: m1(1))
  note two = gc_collect_root_rooted [OF M1' m1(2), of "root_sp r" "unat (root_stack_top r - root_sp r) div 4"]
  show "\<exists>M. rooted ?a ?m ?t0 (root_words r ?m) M (gc_alloc_table (gc_area s2), gc_stack_overflow s2)"
  proof (cases "root_sp r < root_stack_top r")
    case True
    then show ?thesis using two(1) by (simp add: root_words_def assms(2) m1(1))
  next
    case False
    then show ?thesis using M1 by (auto simp: root_words_def assms(2))
  qed
  show "s2 = s\<lparr>gc_lock_depth := gc_lock_depth s + 1,
       gc_area := (gc_area s)\<lparr>gc_alloc_table := gc_alloc_table (gc_area s2)\<rparr>, gc_stack_overflow := gc_stack_overflow s2\<rparr>"
  proof (cases "root_sp r < root_stack_top r")
    case False
    then have same2: "s2 = s1" by (simp add: assms(2))
    show ?thesis unfolding same2 by (subst s1) (simp add: set_table_def)
  next
    case True
    then have "s2 = set_table (gc_alloc_table (gc_area s2)) s1\<lparr>gc_stack_overflow := gc_stack_overflow s2\<rparr>"
      using two(2) by (simp add: assms(2))
    then show ?thesis by (subst (asm) s1) (simp add: set_table_def)
  qed
qed


lemma chain_head_cong:
  "(\<And>c. atb_get_kind t' c = 2 \<longleftrightarrow> atb_get_kind t c = 2) \<Longrightarrow> chain_head t' b = chain_head t b"
  by (induction b) simp_all

text \<open>
  The result of a collection: what was live keeps its kind, everything else is free, no byte of
  the heap has changed.
\<close>

definition collected :: "nat set \<Rightarrow> gc_state \<Rightarrow> gc_state \<Rightarrow> bool" where
  "collected L s s' \<longleftrightarrow>
     (\<forall>c. gc_kind s' c = (if chain_head (gc_alloc_table (gc_area s)) c \<in> L then gc_kind s c else AT_FREE))
     \<and> gc_mem s' = gc_mem s \<and> gc_lock_depth s' = gc_lock_depth s \<and> gc_auto_collect s' = gc_auto_collect s
     \<and> same_pool (gc_area s) (gc_area s')"

lemma marked_swept:
  assumes "marked_by t0 L t" "\<And>c. atb_get_kind t0 c \<noteq> 3" "\<And>c. c \<in> L \<Longrightarrow> atb_get_kind t0 c = 1"
  shows "swept_kind t c = (if chain_head t0 c \<in> L then atb_get_kind t0 c else 0)"
proof -
  have k: "atb_get_kind t d = (if d \<in> L then 3 else atb_get_kind t0 d)" for d by (rule marked_byD(1) [OF assms(1)])
  have tails: "atb_get_kind t d = 2 \<longleftrightarrow> atb_get_kind t0 d = 2" for d using k [of d] assms(3) [of d] by auto
  have h: "chain_head t c = chain_head t0 c" by (rule chain_head_cong [OF tails])
  have m: "atb_get_kind t (chain_head t0 c) = 3 \<longleftrightarrow> chain_head t0 c \<in> L"
    using k [of "chain_head t0 c"] assms(2) [of "chain_head t0 c"] by auto
  show ?thesis
  proof (cases "chain_head t0 c \<in> L")
    case False
    then show ?thesis using m by (simp add: swept_kind_def h)
  next
    case True
    consider "atb_get_kind t0 c = 0" | "atb_get_kind t0 c = 1" | "atb_get_kind t0 c = 2"
      using atb_kind_range [of t0 c] assms(2) [of c] by blast
    then show ?thesis using True m k [of c] assms(3) [of c] tails [of c] by cases (auto simp: swept_kind_def h)
  qed
qed

lemma gc_collect_collected:
  assumes "gc_ok s"
  shows "collected (live r s) s (gc_collect r s)" "gc_ok (gc_collect r s)"
proof -
  let ?a = "gc_area s" and ?t0 = "gc_alloc_table (gc_area s)"
  let ?L = "live r s" and ?ws = "root_words r (gc_mem s)"
  have lay: "layout_ok ?a" and kin: "kinds_ok ?a" and nomark: "\<And>b. gc_kind s b \<noteq> 3"
    using assms by (simp_all add: gc_ok_def)
  define s1 where "s1 = gc_collect_start r s"
  define s2 where "s2 = (if root_sp r < root_stack_top r
      then gc_collect_root (root_sp r) (unat (root_stack_top r - root_sp r) div 4) s1 else s1)"
  have run: "gc_collect r s = gc_collect_end s2" by (simp add: gc_collect_def Let_def s1_def s2_def)
  note roots = collect_roots_rooted [OF s1_def s2_def]
  from roots(1) obtain M where M: "rooted ?a (gc_mem s) ?t0 ?ws M (gc_alloc_table (gc_area s2), gc_stack_overflow s2)" ..
  have s2: "gc_mem s2 = gc_mem s" "gc_area s2 = ?a\<lparr>gc_alloc_table := gc_alloc_table (gc_area s2)\<rparr>"
    "gc_lock_depth s2 = gc_lock_depth s + 1" "gc_auto_collect s2 = gc_auto_collect s"
    by (subst roots(2), simp add: set_table_def)+
  have same: "same_pool ?a (gc_area s2)" by (subst s2(2)) (simp add: same_pool_def)
  let ?tv = "deal_with_overflow (gc_area s2) (gc_mem s) (gc_alloc_table (gc_area s2), gc_stack_overflow s2)"
  have "\<exists>M'. rooted (gc_area s2) (gc_mem s) ?t0 ?ws M' ?tv \<and> \<not> snd ?tv"
  proof (rule overflow_rooted [OF nomark])
    show "b < total_blocks (gc_area s2)" if "gc_kind s b \<noteq> 0" for b
      using used_in_pool [OF kin that] by (simp add: same_pool_funs [OF same])
    show "rooted (gc_area s2) (gc_mem s) ?t0 ?ws M (gc_alloc_table (gc_area s2), gc_stack_overflow s2)"
      using M by (simp add: same_pool_rooted [OF same])
  qed
  then obtain M' where M': "rooted ?a (gc_mem s) ?t0 ?ws M' ?tv" "\<not> snd ?tv"
    by (auto simp: same_pool_rooted [OF same])
  have "M' = ?L" using rooted_final [OF M'] by (simp add: live_def)
  with rootedD(1) [OF M'(1)] have mk: "marked_by ?t0 ?L (fst ?tv)" by simp
  have L1: "gc_kind s c = 1" if "c \<in> ?L" for c using marked_byD(2) [OF mk that] .
  note kt = marked_byD(1) [OF mk]
  have area2: "(gc_area s2)\<lparr>gc_alloc_table := x\<rparr> = ?a\<lparr>gc_alloc_table := x\<rparr>" for x by (subst s2(2)) simp
  define s3 where "s3 = gc_deal_with_stack_overflow s2"
  have s3: "gc_alloc_table (gc_area s3) = fst ?tv" "gc_mem s3 = gc_mem s" "gc_lock_depth s3 = gc_lock_depth s + 1"
    "gc_auto_collect s3 = gc_auto_collect s" "gc_area s3 = ?a\<lparr>gc_alloc_table := fst ?tv\<rparr>"
    using s2(1,3,4) area2 by (simp_all add: s3_def gc_deal_with_stack_overflow_def Let_def set_table_def)
  have lay3: "layout_ok (gc_area s3)"
    using lay marked_byD(3) [OF mk] by (simp add: s3(5) layout_ok_def total_blocks_def)
  have used3: "gc_kind s3 c \<noteq> 0 \<longleftrightarrow> gc_kind s c \<noteq> 0" "gc_kind s3 c = 2 \<longleftrightarrow> gc_kind s c = 2" for c
    using kt [of c] L1 [of c] by (auto simp: s3(1))
  have sw: "gc_kind (gc_sweep s3) c = swept_kind (fst ?tv) c"
      "gc_kind (gc_sweep s3) c \<noteq> 0 \<Longrightarrow> c \<le> gc_last_used_block (gc_area (gc_sweep s3))"
      "length (gc_alloc_table (gc_area (gc_sweep s3))) = length ?t0" for c
  proof -
    have tails: "0 < b \<and> gc_kind s3 (b - 1) \<noteq> 0" if "gc_kind s3 b = 2" for b
      using kinds_okD(2) [OF kin] that used3 by blast
    have bounds: "b \<le> gc_last_used_block (gc_area s3) \<and> b < total_blocks (gc_area s3)" if "gc_kind s3 b \<noteq> 0" for b
      using kinds_okD(5) [OF kin, of b] used_in_pool [OF kin, of b] that used3(1) [of b]
      by (simp add: s3(5) total_blocks_def)
    note g = gc_sweep_result [OF lay3 tails bounds]
    show "gc_kind (gc_sweep s3) c = swept_kind (fst ?tv) c" using g(1) by (simp add: s3(1))
    show "gc_kind (gc_sweep s3) c \<noteq> 0 \<Longrightarrow> c \<le> gc_last_used_block (gc_area (gc_sweep s3))" by (rule g(2))
    show "length (gc_alloc_table (gc_area (gc_sweep s3))) = length ?t0"
      using g(3) marked_byD(3) [OF mk] by (simp add: s3(1))
  qed
  have res: "gc_area (gc_collect r s) = (gc_area (gc_sweep s3))\<lparr>gc_last_free_atb_index := 0\<rparr>"
    "gc_mem (gc_collect r s) = gc_mem s" "gc_lock_depth (gc_collect r s) = gc_lock_depth s"
    "gc_auto_collect (gc_collect r s) = gc_auto_collect s"
    using s3 by (simp_all add: run gc_collect_end_def Let_def s3_def [symmetric] gc_sweep_def)
  have pool: "same_pool ?a (gc_area (gc_collect r s))"
    unfolding res(1) by (simp add: same_pool_def gc_sweep_def Let_def s3(5))
  have kinds: "gc_kind (gc_collect r s) c = (if chain_head ?t0 c \<in> ?L then gc_kind s c else 0)" for c
    using sw(1) [of c] marked_swept [OF mk nomark L1, of c] by (simp add: res(1))
  show "collected ?L s (gc_collect r s)" using kinds res pool by (simp add: collected_def)
  have tot: "total_blocks (gc_area (gc_collect r s)) = total_blocks ?a" using same_pool_funs(4) [OF pool] .
  have "layout_ok (gc_area (gc_collect r s))"
    using lay sw(3) pool unfolding layout_ok_def tot by (simp add: res(1) same_pool_def)
  moreover have "kinds_ok (gc_area (gc_collect r s))"
    unfolding kinds_ok_def Let_def tot
  proof (intro conjI allI impI)
    show "gc_kind (gc_collect r s) b = 0" if "total_blocks ?a \<le> b" for b
      using kinds [of b] kinds_okD(1) [OF kin that] by simp
    show "0 < b" "gc_kind (gc_collect r s) (b - 1) \<noteq> 0" if "gc_kind (gc_collect r s) b = 2" for b
    proof -
      have b: "gc_kind s b = 2" "chain_head ?t0 b \<in> ?L" using that kinds [of b] by (auto split: if_splits)
      from kinds_okD(2) [OF kin b(1)] have p: "0 < b" "gc_kind s (b - 1) \<noteq> 0" by simp_all
      then have "chain_head ?t0 (b - 1) = chain_head ?t0 b" using b(1) by (cases b) simp_all
      then show "0 < b" "gc_kind (gc_collect r s) (b - 1) \<noteq> 0" using p b(2) kinds [of "b - 1"] by simp_all
    qed
    show "b \<le> gc_last_used_block (gc_area (gc_collect r s))" if "gc_kind (gc_collect r s) b \<noteq> 0" for b
      using sw(2) [of b] that by (simp add: res(1))
  qed (simp_all add: res(1))
  ultimately show "gc_ok (gc_collect r s)" using kinds nomark by (auto simp: gc_ok_def)
qed

lemma live_survives:
  assumes "gc_ok s" "b \<in> live r s"
  shows "gc_kind s b = 1" "chain_survives s (gc_collect r s) b"
proof -
  let ?t = "gc_alloc_table (gc_area s)" and ?s' = "gc_collect r s"
  have k: "gc_kind ?s' c = (if chain_head ?t c \<in> live r s then gc_kind s c else 0)" for c
    using gc_collect_collected(1) [OF assms(1), of r] by (simp add: collected_def)
  from assms(2) show b1: "gc_kind s b = 1"
    unfolding live_def by (cases rule: gc_reach.cases) (auto dest: targets_heads)
  have hd: "chain_head ?t (b + i) = b" if "i < chain_len ?t b" for i
    using that
  proof (induction i)
    case 0
    then show ?case using b1 by (simp add: chain_head_non_tail)
  next
    case (Suc i)
    then show ?case using chain_tails(1) [of b "b + Suc i" ?t] by simp
  qed
  have "chain_len (gc_alloc_table (gc_area ?s')) b = chain_len ?t b"
  proof (rule chain_len_unique [OF chain_len_pos])
    show "gc_kind ?s' c = 2" if "b < c" "c < b + chain_len ?t b" for c
      using k [of c] hd [of "c - b"] chain_tails(1) [of b c ?t] that assms(2) by simp
    show "gc_kind ?s' (b + chain_len ?t b) \<noteq> 2"
      using k [of "b + chain_len ?t b"] chain_tails(2) [of ?t b] by simp
  qed
  then show "chain_survives s ?s' b"
    using k [of b] hd [of 0] chain_len_pos [of ?t b] assms(2) b1 gc_collect_collected(1) [OF assms(1), of r]
    by (simp add: chain_survives_def collected_def same_pool_def)
qed


lemma allocated_keeps_bytes:
  assumes "gc_ok s0" "allocated s0 start n s1" "gc_kind s0 c \<noteq> 0" "0 < n"
  shows "gc_kind s1 c = gc_kind s0 c" "j < 16 \<Longrightarrow> chain_byte s1 c j = chain_byte s0 c j"
proof -
  have lay: "layout_ok (gc_area s0)" and kin: "kinds_ok (gc_area s0)" using assms(1) by (simp_all add: gc_ok_def)
  have out: "\<not> (start \<le> c \<and> c < start + n)" using assms(2,3) by (auto simp: allocated_def)
  then show "gc_kind s1 c = gc_kind s0 c" using assms(2-4) by (auto simp: allocated_def)
  have "chain_byte s1 c j = (if start \<le> c \<and> c < start + n then 0 else chain_byte s0 c j)" if "j < 16"
    using assms(2) used_in_pool [OF kin assms(3)] that by (intro zeroed_byte [OF lay]) (auto simp: allocated_def)
  then show "chain_byte s1 c j = chain_byte s0 c j" if "j < 16" using out that by auto
qed

section \<open>A concrete heap\<close>

text \<open>Eight blocks, the first in use and pointed to by the word at \<open>0x10\<close>.\<close>

definition demo_heap :: gc_state where
  "demo_heap = \<lparr>gc_area = \<lparr>gc_alloc_table = [1, 0, 0], gc_alloc_table_start = 0x1000, gc_alloc_table_byte_len = 2,
       gc_pool_start = 0x1010, gc_pool_end = 0x1090, gc_last_free_atb_index = 0, gc_last_used_block = 0\<rparr>,
     gc_mem = (\<lambda>x. if x = 0x10 \<or> x = 0x11 then 0x10 else 0), gc_stack_overflow = False, gc_lock_depth = 0,
     gc_auto_collect = True\<rparr>"

definition demo_roots :: gc_roots where
  "demo_roots = \<lparr>ctx_ptrs = 0x10, ctx_len = 1, root_sp = 0, root_stack_top = 0\<rparr>"

lemma demo_kinds: "gc_kind demo_heap b = (if b = 0 then 1 else 0)"
proof (cases "b < 12")
  case True
  then have "b = 0 \<or> b = 1 \<or> b = 2 \<or> b = 3 \<or> b = 4 \<or> b = 5 \<or> b = 6 \<or> b = 7 \<or> b = 8 \<or> b = 9 \<or> b = 10 \<or> b = 11"
    by presburger
  then show ?thesis by (auto simp: demo_heap_def atb_get_kind_def block_shift_def)
next
  case False
  then have "\<not> b div 4 < 3" by simp
  then show ?thesis using False by (simp add: demo_heap_def atb_get_kind_def)
qed

lemma demo_ok: "gc_ok demo_heap"
proof -
  have "layout_ok (gc_area demo_heap)" by (simp add: demo_heap_def layout_ok_def total_blocks_def)
  moreover have "gc_last_free_atb_index (gc_area demo_heap) = 0" "gc_last_used_block (gc_area demo_heap) = 0"
    "total_blocks (gc_area demo_heap) = 8" by (simp_all add: demo_heap_def total_blocks_def)
  then have "kinds_ok (gc_area demo_heap)" by (simp add: kinds_ok_def Let_def demo_kinds)
  ultimately show ?thesis by (simp add: gc_ok_def demo_kinds)
qed

lemma demo_unlocked: "\<not> gc_is_locked demo_heap"
  by (simp add: demo_heap_def gc_is_locked_def)

lemma demo_live: "0 \<in> live demo_roots demo_heap"
proof -
  have "root_words demo_roots (gc_mem demo_heap) = [0x1010]"
    by (simp add: root_words_def stack_words_def demo_roots_def demo_heap_def load_u32_def Let_def)
  moreover have "verify_ptr (gc_area demo_heap) 0x1010" "block_from_ptr (gc_area demo_heap) 0x1010 = 0"
    by (simp_all add: verify_ptr_def block_from_ptr_def demo_heap_def)
  ultimately show ?thesis
    unfolding live_def by (intro gc_reach.root) (simp add: targets_def demo_kinds)
qed

section \<open>Properties\<close>

text \<open>
  C1: a collection with the roots \<open>r\<close> keeps exactly the chains whose head is reachable from a root
  word through the words stored in reached blocks -- also when the 64-entry mark stack overflows
  and the heap has to be rescanned -- and frees all others; no byte of the heap, no bound of the
  pool and neither the lock nor the collection switch changes, and the heap stays well formed.
\<close>
theorem gc_collect_correct:
  assumes "gc_ok s"
  shows "collected (live r s) s (gc_collect r s) \<and> gc_ok (gc_collect r s)"
  using gc_collect_collected [OF assms] by blast

theorem gc_collect_correct_witness:
  "gc_ok demo_heap \<and> gc_kind (gc_collect demo_roots demo_heap) 0 = AT_HEAD"
proof -
  have "collected (live demo_roots demo_heap) demo_heap (gc_collect demo_roots demo_heap)"
    using gc_collect_correct [OF demo_ok] by blast
  then show ?thesis using demo_ok demo_live by (simp add: collected_def demo_kinds)
qed

text \<open>
  C2: \<open>gc_alloc\<close> either returns the first block of a run of free blocks that it has turned into one
  zeroed chain, in the heap as it was or, when that has no run long enough, as the collection left
  it; or it returns \<open>NULL\<close>, and then, with the heap unlocked and collection enabled, no run long
  enough exists even after a collection.  Every live chain keeps its blocks and its bytes.
\<close>
theorem gc_alloc_correct:
  assumes "gc_ok s" "gc_alloc (gc_collect r) s n = (p, s')"
  shows "gc_ok s'
    \<and> (p \<noteq> 0 \<longrightarrow> (\<exists>s0 start. (s0 = s \<or> s0 = gc_collect r s \<and> find_free (gc_area s) (blocks_for n) = None)
          \<and> allocated s0 start (blocks_for n) s' \<and> p = ptr_from_block (gc_area s) start))
    \<and> (p = 0 \<and> \<not> gc_is_locked s \<and> 0 < blocks_for n \<and> gc_auto_collect s \<longrightarrow>
          (\<forall>b. b + blocks_for n \<le> total_blocks (gc_area s) \<longrightarrow>
             (\<exists>i. b \<le> i \<and> i < b + blocks_for n \<and> gc_kind (gc_collect r s) i \<noteq> AT_FREE)))
    \<and> (\<forall>c j. gc_kind s c \<noteq> AT_FREE \<and> chain_head (gc_alloc_table (gc_area s)) c \<in> live r s \<and> j < 16 \<longrightarrow>
          gc_kind s' c = gc_kind s c \<and> chain_byte s' c j = chain_byte s c j)"
proof (intro conjI allI impI)
  let ?s1 = "gc_collect r s"
  note col = gc_collect_collected [OF assms(1), of r]
  note cases = gc_alloc_cases [OF assms(1) col(2) assms(2)]
  have ptr: "ptr_from_block (gc_area ?s1) = ptr_from_block (gc_area s)" "total_blocks (gc_area ?s1) = total_blocks (gc_area s)"
    using col(1) same_pool_funs(3,4) by (auto simp: collected_def)
  show "gc_ok s'" using cases by blast
  show "\<exists>s0 start. (s0 = s \<or> s0 = ?s1 \<and> find_free (gc_area s) (blocks_for n) = None)
      \<and> allocated s0 start (blocks_for n) s' \<and> p = ptr_from_block (gc_area s) start" if "p \<noteq> 0"
  proof -
    from cases that obtain s0 start where
      "s0 = s \<or> s0 = ?s1 \<and> find_free (gc_area s) (blocks_for n) = None \<and> gc_auto_collect s"
      "allocated s0 start (blocks_for n) s'" "p = ptr_from_block (gc_area s0) start" by blast
    moreover from this have "p = ptr_from_block (gc_area s) start" using ptr(1) by auto
    ultimately show ?thesis by blast
  qed
  show "\<exists>i\<ge>b. i < b + blocks_for n \<and> gc_kind ?s1 i \<noteq> 0"
    if "p = 0 \<and> \<not> gc_is_locked s \<and> 0 < blocks_for n \<and> gc_auto_collect s" "b + blocks_for n \<le> total_blocks (gc_area s)" for b
  proof -
    have "find_free (gc_area ?s1) (blocks_for n) = None"
      using gc_alloc_miss [OF assms(1), of "gc_collect r" n s'] assms(2) that(1) col(2) by simp
    then show ?thesis
      using find_free_miss [of "gc_area ?s1" "blocks_for n" b] col(2) that ptr(2) by (simp add: gc_ok_def)
  qed
  fix c j :: nat
  assume c: "gc_kind s c \<noteq> 0 \<and> chain_head (gc_alloc_table (gc_area s)) c \<in> live r s \<and> j < 16"
  have col_c: "gc_kind ?s1 c = gc_kind s c" "chain_byte ?s1 c j = chain_byte s c j"
    using col(1) c same_bytes [of ?s1 s c j] by (simp_all add: collected_def same_pool_def)
  have "s' = s \<or> s' = ?s1 \<or> 0 < blocks_for n \<and> (\<exists>s0 start. (s0 = s \<or> s0 = ?s1) \<and> allocated s0 start (blocks_for n) s')"
    using cases by blast
  then show "gc_kind s' c = gc_kind s c" "chain_byte s' c j = chain_byte s c j"
    using col_c c allocated_keeps_bytes [OF assms(1)] allocated_keeps_bytes [OF col(2)] by auto
qed

theorem gc_alloc_correct_witness:
  "gc_ok (snd (gc_alloc (gc_collect demo_roots) demo_heap 40))
    \<and> chain_byte (snd (gc_alloc (gc_collect demo_roots) demo_heap 40)) 0 3 = chain_byte demo_heap 0 3"
proof -
  have "chain_head (gc_alloc_table (gc_area demo_heap)) 0 = 0" by simp
  then show ?thesis
    using gc_alloc_correct [OF demo_ok prod.collapse [symmetric], of demo_roots 40] demo_live by (auto simp: demo_kinds)
qed

text \<open>
  C3: \<open>gc_realloc\<close> of a live chain, for a size the rounding can represent, returns a chain of exactly
  the blocks requested that holds the old bytes and zeroes behind them, at the old address if the
  chain shrinks or may not move, with every other chain in use untouched (up to the collection a
  move may run first); or it returns \<open>NULL\<close>, and the old chain is still there.
\<close>
theorem gc_realloc_correct:
  assumes "gc_ok s" "b \<in> live r s" "\<not> gc_is_locked s" "n_bytes \<noteq> 0" "unat n_bytes + 15 < 2 ^ 32"
  shows "\<exists>p s'. gc_realloc (gc_collect r) s (ptr_from_block (gc_area s) b) n_bytes allow_move = Some (p, s') \<and> gc_ok s'
    \<and> (p = 0 \<longrightarrow> chain_len (gc_alloc_table (gc_area s)) b < (unat n_bytes + 15) div 16
          \<and> (s' = s \<or> allow_move \<and> s' = gc_collect r s) \<and> gc_kind s' b = AT_HEAD)
    \<and> (p \<noteq> 0 \<longrightarrow> (\<exists>s0 b'. (s0 = s \<or> allow_move \<and> s0 = gc_collect r s) \<and> p = ptr_from_block (gc_area s) b'
          \<and> resized s0 s' b (chain_len (gc_alloc_table (gc_area s)) b) b' ((unat n_bytes + 15) div 16)
          \<and> ((unat n_bytes + 15) div 16 \<le> chain_len (gc_alloc_table (gc_area s)) b \<or> \<not> allow_move \<longrightarrow> b' = b \<and> s0 = s)))"
proof -
  note live = live_survives [OF assms(1,2)]
  have "gc_kind (gc_collect r s) b = 1" using live(2) by (simp add: chain_survives_def)
  then show ?thesis
    using gc_realloc_result [where collect = "gc_collect r", OF assms(1) gc_collect_collected(2) [OF assms(1)] live(2,1) assms(3) refl assms(4) _ refl, of allow_move]
      assms(5) live(1) by fastforce
qed

theorem gc_realloc_correct_witness:
  "\<exists>p s'. gc_realloc (gc_collect demo_roots) demo_heap (ptr_from_block (gc_area demo_heap) 0) 100 True = Some (p, s') \<and> gc_ok s'"
proof -
  have "(100 :: u32) \<noteq> 0" "unat (100 :: u32) + 15 < 2 ^ 32" by simp_all
  from gc_realloc_correct [OF demo_ok demo_live demo_unlocked this, of True] show ?thesis by blast
qed

text \<open>
  A request of \<open>2 ^ 32 - 15\<close> bytes or more makes the rounding of \<open>gc_realloc\<close> wrap to zero blocks:
  it frees the whole chain, head included, and still returns its address as if it had succeeded.
\<close>
theorem gc_realloc_wrap_frees:
  assumes "gc_ok s" "gc_kind s b = AT_HEAD" "\<not> gc_is_locked s" "2 ^ 32 - 15 \<le> unat n_bytes"
  shows "\<exists>s'. gc_realloc collect s (ptr_from_block (gc_area s) b) n_bytes allow_move = Some (ptr_from_block (gc_area s) b, s')
    \<and> ptr_from_block (gc_area s) b \<noteq> 0 \<and> gc_kind s' b = AT_FREE"
proof -
  have "4294967296 \<le> unat n_bytes + 15" using assms(4) by simp
  from gc_realloc_wraps [OF assms(1-3) this, of collect allow_move] obtain s' where
    s': "gc_realloc collect s (ptr_from_block (gc_area s) b) n_bytes allow_move = Some (ptr_from_block (gc_area s) b, s')"
    "freed s b (b + chain_len (gc_alloc_table (gc_area s)) b) s'" by blast
  have "b < total_blocks (gc_area s)" using used_in_pool [of "gc_area s" b] assms(1,2) by (simp add: gc_ok_def)
  then have "ptr_from_block (gc_area s) b \<noteq> 0" using block_ptr(3) [of "gc_area s" b] assms(1) by (simp add: gc_ok_def)
  moreover have "gc_kind s' b = 0" using s'(2) chain_len_pos by (simp add: freed_def)
  ultimately show ?thesis using s'(1) by blast
qed

theorem gc_realloc_wrap_frees_witness:
  "\<exists>s'. gc_realloc (gc_collect demo_roots) demo_heap (ptr_from_block (gc_area demo_heap) 0) 0xFFFFFFFF False
      = Some (ptr_from_block (gc_area demo_heap) 0, s') \<and> gc_kind s' 0 = AT_FREE"
proof -
  have "gc_kind demo_heap 0 = 1" "(2::nat) ^ 32 - 15 \<le> unat (0xFFFFFFFF :: u32)" by (simp_all add: demo_kinds)
  from gc_realloc_wrap_frees [OF demo_ok this(1) demo_unlocked this(2)] show ?thesis by blast
qed

text \<open>
  C26: \<open>gc_free\<close> on the head of a chain frees exactly the blocks of that chain, writes no heap byte and
  keeps the heap well formed; freeing the same address again fails the assertion.
\<close>
theorem gc_free_correct:
  assumes "gc_ok s" "\<not> gc_is_locked s" "gc_kind s b = AT_HEAD"
  shows "\<exists>s'. gc_free s (ptr_from_block (gc_area s) b) = Some s' \<and> gc_ok s'
    \<and> freed s b (b + chain_len (gc_alloc_table (gc_area s)) b) s'
    \<and> gc_free s' (ptr_from_block (gc_area s) b) = None"
proof -
  from gc_free_head [OF assms] obtain s' where s': "gc_free s (ptr_from_block (gc_area s) b) = Some s'" "gc_ok s'"
    "freed s b (b + chain_len (gc_alloc_table (gc_area s)) b) s'" by blast
  have b: "b < total_blocks (gc_area s)" using used_in_pool [of "gc_area s" b] assms(1,3) by (simp add: gc_ok_def)
  have lay: "layout_ok (gc_area s)" using assms(1) by (simp add: gc_ok_def)
  have pool: "same_pool (gc_area s) (gc_area s')" using s'(3) by (simp add: freed_def same_pool_def)
  have "gc_kind s' b = 0" "gc_lock_depth s' = gc_lock_depth s" using s'(3) chain_len_pos by (simp_all add: freed_def)
  then have "gc_free s' (ptr_from_block (gc_area s) b) = None"
    using block_ptr [OF lay b] assms(2) by (simp add: gc_free_def same_pool_funs [OF pool] gc_is_locked_def Let_def)
  then show ?thesis using s' by blast
qed

theorem gc_free_correct_witness:
  "\<exists>s'. gc_free demo_heap (ptr_from_block (gc_area demo_heap) 0) = Some s' \<and> gc_ok s'
    \<and> gc_free s' (ptr_from_block (gc_area demo_heap) 0) = None"
proof -
  have "gc_kind demo_heap 0 = 1" by (simp add: demo_kinds)
  from gc_free_correct [OF demo_ok demo_unlocked this] show ?thesis by blast
qed

text \<open>
  with automatic collection off, the chains handed out by any sequence of \<open>gc_alloc\<close> calls are
  pairwise disjoint byte ranges.
\<close>
theorem gc_blocks_disjoint:
  assumes "gc_ok s" "\<not> gc_auto_collect s"
  shows "disjoint_blocks (fst (alloc_run (gc_alloc (gc_collect r)) s ns))"
  using gcheap.run_blocks_disjoint [of s ns "gc_collect r"] assms by (simp add: manual_heap_def)

theorem gc_blocks_disjoint_witness:
  "disjoint_blocks (fst (alloc_run (gc_alloc (gc_collect demo_roots)) (demo_heap\<lparr>gc_auto_collect := False\<rparr>) [16, 17, 5]))"
proof -
  have "gc_ok (demo_heap\<lparr>gc_auto_collect := False\<rparr>)" using demo_ok by (simp add: gc_ok_def)
  moreover have "\<not> gc_auto_collect (demo_heap\<lparr>gc_auto_collect := False\<rparr>)" by simp
  ultimately show ?thesis by (rule gc_blocks_disjoint)
qed

lemma layout_arith:
  fixes s e l :: nat
  assumes "s < e" "l = (e - s - 1) div 65"
  shows "s + l + 1 \<le> e - l * 64" "e - l * 64 + l * 4 * 16 = e" "e - s < (l + 1) * 65 + 1"
proof -
  have l: "l * 65 \<le> e - s - 1" unfolding assms(2) by (rule div_times_less_eq_dividend)
  have "e - s - 1 < l * 65 + 65" unfolding assms(2) using dividend_less_div_times [of 65] by simp
  then show "e - s < (l + 1) * 65 + 1" by simp
  show "s + l + 1 \<le> e - l * 64" "e - l * 64 + l * 4 * 16 = e" using l assms(1) by linarith+
qed

text \<open>
  \<open>gc_init\<close> lays out the table below the pool without overlap, uses as many table bytes as fit,
  starts unlocked with every block free, and establishes the heap invariant.
\<close>
theorem gc_init_layout:
  assumes "unat start < unat (end_ptr AND NOT 15)"
  shows "let s' = gc_init start end_ptr s; a = gc_area s' in
    gc_ok s' \<and> \<not> gc_is_locked s' \<and> gc_auto_collect s' \<and> (\<forall>b. gc_kind s' b = AT_FREE)
    \<and> unat start + gc_alloc_table_byte_len a + 1 \<le> unat (gc_pool_start a)
    \<and> unat (gc_pool_start a) + total_blocks a * 16 = unat (end_ptr AND NOT 15)
    \<and> unat (end_ptr AND NOT 15) - unat start < (gc_alloc_table_byte_len a + 1) * 65 + 1"
proof -
  let ?e = "end_ptr AND NOT 15" and ?s = "gc_init start end_ptr s"
  let ?l = "(unat ?e - unat start - 1) div 65"
  have st: "start \<le> ?e" "0 < unat ?e - unat start" using assms by (simp_all add: word_le_nat_alt)
  note f = setup_fields [OF st]
  have area: "gc_area ?s = gc_setup_area start ?e" by (simp add: gc_init_def)
  have len: "gc_alloc_table_byte_len (gc_area ?s) = ?l" by (simp only: area f(1))
  have ps: "unat (gc_pool_start (gc_area ?s)) = unat ?e - ?l * 64" by (simp only: area f(2))
  note arith = layout_arith [OF assms refl]
  have ok: "gc_ok ?s" by (rule gc_init_ok [OF assms])
  have kinds: "gc_kind ?s b = 0" for b
    unfolding area gc_setup_area_def Let_def gc_area.select_convs by (rule empty_table)
  have misc: "\<not> gc_is_locked ?s" "gc_auto_collect ?s" by (simp_all add: gc_init_def gc_is_locked_def)
  show ?thesis
    unfolding Let_def total_blocks_def len ps by (intro conjI allI) (rule ok misc kinds arith)+
qed

theorem gc_init_layout_witness:
  "gc_ok (gc_init 0x700000 0x780000 demo_heap) \<and> \<not> gc_is_locked (gc_init 0x700000 0x780000 demo_heap)"
proof -
  have "unat (0x700000 :: u32) < unat (0x780000 AND NOT 15 :: u32)" by simp
  from gc_init_layout [OF this, of demo_heap] show ?thesis by (simp only: Let_def simp_thms)
qed

end
