(* ===== verification/Ringbuf.thy ===== *)
theory Ringbuf
  imports Ring Interfaces "HOL-Library.Signed_Division"
begin

text \<open>
  MicroPython's ring buffer, \<open>python/py/ringbuf.c\<close> and the inline operations of \<open>ringbuf.h\<close>.
  The structure keeps its size and its two indices in 16 bits; the indices the operations compute
  with are 32-bit.  A result code is a C \<open>int\<close>.
\<close>

record ringbuf =
  rb_buf :: "u8 list"
  rb_size :: u16
  rb_iget :: u16
  rb_iput :: u16

definition ringbuf_alloc :: "u8 list \<Rightarrow> u32 \<Rightarrow> ringbuf" where
  "ringbuf_alloc mem sz = \<lparr>rb_buf = mem, rb_size = ucast sz, rb_iget = 0, rb_iput = 0\<rparr>"

definition ringbuf_get :: "ringbuf \<Rightarrow> int \<times> ringbuf" where
  "ringbuf_get r =
     (if rb_iget r = rb_iput r then (- 1, r)
      else
        let v = rb_buf r ! unat (rb_iget r);
            r = r\<lparr>rb_iget := rb_iget r + 1\<rparr>;
            r = (if rb_size r \<le> rb_iget r then r\<lparr>rb_iget := 0\<rparr> else r)
        in (int (unat v), r))"

definition ringbuf_peek :: "ringbuf \<Rightarrow> int" where
  "ringbuf_peek r =
     (if rb_iget r = rb_iput r then - 1 else int (unat (rb_buf r ! unat (rb_iget r))))"

definition ringbuf_put :: "ringbuf \<Rightarrow> u8 \<Rightarrow> int \<times> ringbuf" where
  "ringbuf_put r v =
     (let iput_new = (ucast (rb_iput r) :: u32) + 1;
          iput_new = (if ucast (rb_size r) \<le> iput_new then 0 else iput_new)
      in if iput_new = ucast (rb_iget r) then (- 1, r)
         else (0, r\<lparr>rb_buf := (rb_buf r)[unat (rb_iput r) := v], rb_iput := ucast iput_new\<rparr>))"

text \<open>The two counts are computed in \<open>int\<close>, to which the 16-bit operands are promoted.\<close>

definition ringbuf_free :: "ringbuf \<Rightarrow> u32" where
  "ringbuf_free r =
     word_of_int ((uint (rb_size r) + uint (rb_iget r) - uint (rb_iput r) - 1) smod uint (rb_size r))"

definition ringbuf_avail :: "ringbuf \<Rightarrow> u32" where
  "ringbuf_avail r =
     word_of_int ((uint (rb_size r) + uint (rb_iput r) - uint (rb_iget r)) smod uint (rb_size r))"

definition ringbuf_peek16 :: "ringbuf \<Rightarrow> int" where
  "ringbuf_peek16 r =
     (if rb_iget r = rb_iput r then - 1
      else
        let iget_a = (ucast (rb_iget r) :: u32) + 1;
            iget_a = (if iget_a = ucast (rb_size r) then 0 else iget_a)
        in if iget_a = ucast (rb_iput r) then - 1
           else or (push_bit 8 (uint (rb_buf r ! unat (rb_iget r)))) (uint (rb_buf r ! unat iget_a)))"

definition ringbuf_get16 :: "ringbuf \<Rightarrow> int \<times> ringbuf" where
  "ringbuf_get16 r =
     (let v = ringbuf_peek16 r
      in if v = - 1 then (v, r)
         else
           let r = r\<lparr>rb_iget := rb_iget r + 2\<rparr>;
               r = (if rb_size r \<le> rb_iget r then r\<lparr>rb_iget := rb_iget r - rb_size r\<rparr> else r)
           in (v, r))"

definition ringbuf_put16 :: "ringbuf \<Rightarrow> u16 \<Rightarrow> int \<times> ringbuf" where
  "ringbuf_put16 r v =
     (let iput_a = (ucast (rb_iput r) :: u32) + 1;
          iput_a = (if iput_a = ucast (rb_size r) then 0 else iput_a)
      in if iput_a = ucast (rb_iget r) then (- 1, r)
         else
           let iput_b = iput_a + 1;
               iput_b = (if iput_b = ucast (rb_size r) then 0 else iput_b)
           in if iput_b = ucast (rb_iget r) then (- 1, r)
              else (0, r\<lparr>rb_buf := (rb_buf r)[unat (rb_iput r) := ucast (drop_bit 8 v AND 0xFF),
                           unat iput_a := ucast (v AND 0xFF)],
                         rb_iput := ucast iput_b\<rparr>))"

text \<open>\<open>memcpy\<close> into and out of an array.\<close>

definition copy_in :: "'a list \<Rightarrow> nat \<Rightarrow> 'a list \<Rightarrow> 'a list" where
  "copy_in buf p xs = take p buf @ xs @ drop (p + length xs) buf"

definition copy_out :: "'a list \<Rightarrow> nat \<Rightarrow> nat \<Rightarrow> 'a list" where
  "copy_out buf p n = take n (drop p buf)"

text \<open>The caller's buffer is the list of the bytes written to it.\<close>

definition ringbuf_get_bytes :: "ringbuf \<Rightarrow> u32 \<Rightarrow> int \<times> u8 list \<times> ringbuf" where
  "ringbuf_get_bytes r data_len =
     (if ringbuf_avail r < data_len then (if ucast (rb_size r) \<le> data_len then - 2 else - 1, [], r)
      else
        let iget = (ucast (rb_iget r) :: u32);
            iget_a = (iget + data_len) mod ucast (rb_size r);
            (data, iget) =
              (if iget_a < iget
               then (copy_out (rb_buf r) (unat iget) (unat (ucast (rb_size r) - iget)), 0)
               else ([], iget))
        in (0, data @ copy_out (rb_buf r) (unat iget) (unat (iget_a - iget)), r\<lparr>rb_iget := ucast iget_a\<rparr>))"

definition ringbuf_put_bytes :: "ringbuf \<Rightarrow> u8 list \<Rightarrow> u32 \<Rightarrow> int \<times> ringbuf" where
  "ringbuf_put_bytes r data data_len =
     (if ringbuf_free r < data_len then (if ucast (rb_size r) \<le> data_len then - 2 else - 1, r)
      else
        let iput = (ucast (rb_iput r) :: u32);
            iput_a = (iput + data_len) mod ucast (rb_size r);
            (buf, datap, iput) =
              (if iput_a < iput
               then (let n = unat (ucast (rb_size r) - iput)
                     in (copy_in (rb_buf r) (unat iput) (take n data), drop n data, 0))
               else (rb_buf r, data, iput))
        in (0, r\<lparr>rb_buf := copy_in buf (unat iput) (take (unat (iput_a - iput)) datap),
                 rb_iput := ucast iput_a\<rparr>))"

section \<open>The queue the buffer holds\<close>

definition ringbuf_ok :: "ringbuf \<Rightarrow> bool" where
  "ringbuf_ok r \<longleftrightarrow> length (rb_buf r) = unat (rb_size r)
     \<and> rb_iget r < rb_size r \<and> rb_iput r < rb_size r"

definition ringbuf_contents :: "ringbuf \<Rightarrow> u8 list" where
  "ringbuf_contents r = ring_contents (rb_buf r) (unat (rb_iget r)) (unat (rb_iput r))"

definition ringbuf_room :: "ringbuf \<Rightarrow> nat" where
  "ringbuf_room r = unat (rb_size r) - 1"


lemma u16_of_nat: "k < 65536 \<Longrightarrow> unat (of_nat k :: u16) = k"
  by (simp add: unat_of_nat take_bit_nat_eq_self)

lemma unat_ucast_u16_u32: "unat (ucast (x :: u16) :: u32) = unat x"
proof -
  have "unat x < 2 ^ 32" using u16_bound [of x] by (simp del: u16_bound)
  then show ?thesis by (simp add: unsigned_ucast_eq take_bit_nat_eq_self)
qed

lemma ucast_u32_of_nat: "k < 65536 \<Longrightarrow> ucast (of_nat k :: u32) = (of_nat k :: u16)"
  by (simp add: word_unat_eq_iff unsigned_ucast_eq unat_of_nat take_bit_nat_eq_self)

lemma u32_succ_of_u16: "(ucast (x :: u16) :: u32) + 1 = of_nat (unat x + 1)"
  by (simp add: word_unat_eq_iff unat_word_ariths unat_ucast_u16_u32 unat_of_nat take_bit_eq_mod)

lemma ringbuf_okD:
  assumes "ringbuf_ok r"
  shows "length (rb_buf r) = unat (rb_size r)" "unat (rb_iget r) < unat (rb_size r)"
    "unat (rb_iput r) < unat (rb_size r)" "0 < unat (rb_size r)" "unat (rb_size r) < 65536"
  using assms by (auto simp: ringbuf_ok_def word_less_nat_alt simp del: unat_gt_0)

text \<open>The indices as numbers: the code's step of an index is \<open>(i + 1) mod n\<close>.\<close>

lemma index_succ:
  fixes i n :: u16
  assumes "i < n"
  shows "(if ucast n \<le> (ucast i :: u32) + 1 then 0 else (ucast i :: u32) + 1) = of_nat ((unat i + 1) mod unat n)"
    "(if (ucast i :: u32) + 1 = ucast n then 0 else (ucast i :: u32) + 1) = of_nat ((unat i + 1) mod unat n)"
    "(if n \<le> i + 1 then 0 else i + 1) = of_nat ((unat i + 1) mod unat n)"
proof -
  have i: "unat i < unat n" using assms by (simp add: word_less_nat_alt)
  have n: "unat n < 65536" by simp
  have u: "unat ((ucast i :: u32) + 1) = unat i + 1" "unat (i + 1) = unat i + 1"
    "unat (1 + (ucast i :: u32)) = unat i + 1"
    using i n by (simp_all add: unat_word_ariths unat_ucast_u16_u32 del: u16_bound)
  have m: "(unat i + 1) mod unat n = (if unat i + 1 = unat n then 0 else unat i + 1)" using i by auto
  show "(if ucast n \<le> (ucast i :: u32) + 1 then 0 else (ucast i :: u32) + 1) = of_nat ((unat i + 1) mod unat n)"
    "(if (ucast i :: u32) + 1 = ucast n then 0 else (ucast i :: u32) + 1) = of_nat ((unat i + 1) mod unat n)"
    "(if n \<le> i + 1 then 0 else i + 1) = of_nat ((unat i + 1) mod unat n)"
    unfolding m using u i
    by (auto simp: word_le_nat_alt word_unat_eq_iff [where 'a = 32] unat_ucast_u16_u32)
qed

lemma ringbuf_get_nat:
  assumes "ringbuf_ok r"
  shows "ringbuf_get r = (if rb_iget r = rb_iput r then (- 1, r)
    else (int (unat (rb_buf r ! unat (rb_iget r))),
      r\<lparr>rb_iget := of_nat ((unat (rb_iget r) + 1) mod unat (rb_size r))\<rparr>))"
proof -
  have "rb_iget r < rb_size r" using assms by (simp add: ringbuf_ok_def)
  from index_succ(3) [OF this] show ?thesis
    by (cases r) (auto simp: ringbuf_get_def Let_def split: if_splits)
qed

lemma ringbuf_put_nat:
  assumes "ringbuf_ok r"
  shows "ringbuf_put r v = (let h = (unat (rb_iput r) + 1) mod unat (rb_size r) in if h = unat (rb_iget r) then (- 1, r)
    else (0, r\<lparr>rb_buf := (rb_buf r)[unat (rb_iput r) := v], rb_iput := of_nat h\<rparr>))"
proof -
  have i: "rb_iput r < rb_size r" using assms by (simp add: ringbuf_ok_def)
  have h: "(unat (rb_iput r) + 1) mod unat (rb_size r) < unat (rb_size r)"
    using ringbuf_okD(4) [OF assms] by (rule mod_less_divisor)
  then have "(unat (rb_iput r) + 1) mod unat (rb_size r) < 65536" using ringbuf_okD(5) [OF assms] by linarith
  then show ?thesis
    unfolding ringbuf_put_def index_succ(1) [OF i] Let_def
    by (simp add: ucast_u32_of_nat word_unat_eq_iff [where 'a = 32] unat_of_nat_small unat_ucast_u16_u32)
qed

lemma ringbuf_index_ok:
  assumes "ringbuf_ok r" "k < unat (rb_size r)"
  shows "unat (of_nat k :: u16) = k" "(of_nat k :: u16) < rb_size r"
  using assms u16_of_nat [of k] ringbuf_okD(5) [OF assms(1)] by (simp_all add: word_less_nat_alt)

definition queue_put :: "ringbuf \<Rightarrow> u8 \<Rightarrow> bool \<times> ringbuf" where
  "queue_put r v = (let (code, r) = ringbuf_put r v in (code = 0, r))"

definition queue_get :: "ringbuf \<Rightarrow> u8 option \<times> ringbuf" where
  "queue_get r = (let (code, r) = ringbuf_get r in (if code < 0 then None else Some (word_of_int code), r))"

lemma ringbuf_room_iff:
  assumes "ringbuf_ok r"
  shows "(unat (rb_iput r) + 1) mod unat (rb_size r) = unat (rb_iget r)
    \<longleftrightarrow> \<not> length (ringbuf_contents r) < ringbuf_room r"
proof -
  note d = ringbuf_okD [OF assms]
  have "(unat (rb_iput r) + unat (rb_size r) - unat (rb_iget r)) mod unat (rb_size r) < unat (rb_size r)"
    using d(4) by (rule mod_less_divisor)
  then show ?thesis
    unfolding ringbuf_contents_def length_ring_contents ringbuf_room_def d(1) ring_full_iff [OF d(2,3)] by linarith
qed

lemma ringbuf_put_contents:
  assumes "ringbuf_ok r" "length (ringbuf_contents r) < ringbuf_room r"
  shows "fst (ringbuf_put r v) = 0" "ringbuf_ok (snd (ringbuf_put r v))"
    "ringbuf_contents (snd (ringbuf_put r v)) = ringbuf_contents r @ [v]"
    "rb_size (snd (ringbuf_put r v)) = rb_size r"
proof -
  note d = ringbuf_okD [OF assms(1)]
  let ?h = "(unat (rb_iput r) + 1) mod unat (rb_size r)"
  have ne: "?h \<noteq> unat (rb_iget r)" using ringbuf_room_iff [OF assms(1)] assms(2) by blast
  have "?h < unat (rb_size r)" using d(4) by (rule mod_less_divisor)
  note h = ringbuf_index_ok [OF assms(1) this]
  show "fst (ringbuf_put r v) = 0" "ringbuf_ok (snd (ringbuf_put r v))"
    "rb_size (snd (ringbuf_put r v)) = rb_size r"
    using assms(1) ne h unfolding ringbuf_put_nat [OF assms(1)] Let_def by (simp_all add: ringbuf_ok_def)
  show "ringbuf_contents (snd (ringbuf_put r v)) = ringbuf_contents r @ [v]"
    using ring_put [of "unat (rb_iget r)" "rb_buf r" "unat (rb_iput r)" v] ne h d
    unfolding ringbuf_put_nat [OF assms(1)] Let_def by (simp add: ringbuf_contents_def)
qed

lemma ringbuf_get_contents:
  assumes "ringbuf_ok r"
  shows "ringbuf_ok (snd (ringbuf_get r))" "rb_size (snd (ringbuf_get r)) = rb_size r"
    "ringbuf_contents (snd (ringbuf_get r)) = tl (ringbuf_contents r)"
    "fst (ringbuf_get r) = (case ringbuf_contents r of [] \<Rightarrow> - 1 | c # _ \<Rightarrow> int (unat c))"
proof -
  note d = ringbuf_okD [OF assms]
  have "(unat (rb_iget r) + 1) mod unat (rb_size r) < unat (rb_size r)" using d(4) by (rule mod_less_divisor)
  note h = ringbuf_index_ok [OF assms this]
  show "ringbuf_ok (snd (ringbuf_get r))" "rb_size (snd (ringbuf_get r)) = rb_size r"
    using assms h unfolding ringbuf_get_nat [OF assms] by (simp_all add: ringbuf_ok_def)
  have e: "ringbuf_contents r = [] \<longleftrightarrow> rb_iget r = rb_iput r"
    using ring_empty_iff [of "unat (rb_iget r)" "rb_buf r" "unat (rb_iput r)"] d
    by (simp add: ringbuf_contents_def word_unat_eq_iff)
  show "ringbuf_contents (snd (ringbuf_get r)) = tl (ringbuf_contents r)"
    "fst (ringbuf_get r) = (case ringbuf_contents r of [] \<Rightarrow> - 1 | c # _ \<Rightarrow> int (unat c))"
    using ring_get [of "unat (rb_iget r)" "rb_buf r" "unat (rb_iput r)"] e h d
    unfolding ringbuf_get_nat [OF assms]
    by (auto simp: ringbuf_contents_def word_unat_eq_iff [where 'a = 16] split: list.splits)
qed

interpretation rb: bounded_queue queue_put queue_get ringbuf_contents ringbuf_room ringbuf_ok
proof unfold_locales
  fix r v assume r: "ringbuf_ok r"
  have full: "ringbuf_put r v = (- 1, r)" if "\<not> length (ringbuf_contents r) < ringbuf_room r"
    using that ringbuf_room_iff [OF r] unfolding ringbuf_put_nat [OF r] Let_def by simp
  show "ringbuf_ok (snd (queue_put r v))"
    "fst (queue_put r v) \<longleftrightarrow> length (ringbuf_contents r) < ringbuf_room r"
    "ringbuf_contents (snd (queue_put r v))
      = ringbuf_contents r @ (if length (ringbuf_contents r) < ringbuf_room r then [v] else [])"
    "ringbuf_room (snd (queue_put r v)) = ringbuf_room r"
    using full r ringbuf_put_contents [OF r, of v]
    by (cases "length (ringbuf_contents r) < ringbuf_room r"; auto simp: queue_put_def case_prod_beta ringbuf_room_def)+
next
  fix r assume r: "ringbuf_ok r"
  note g = ringbuf_get_contents [OF r]
  show "ringbuf_ok (snd (queue_get r))" "ringbuf_contents (snd (queue_get r)) = tl (ringbuf_contents r)"
    "ringbuf_room (snd (queue_get r)) = ringbuf_room r"
    "fst (queue_get r) = (case ringbuf_contents r of [] \<Rightarrow> None | c # _ \<Rightarrow> Some c)"
    using g by (auto simp: queue_get_def case_prod_beta ringbuf_room_def split: list.splits)
qed

section \<open>Counting and copying\<close>

lemma smod_nat: "int a smod int b = int (a mod b)"
  by (cases "b = 0") (auto simp: signed_modulo_int_def signed_divide_int_def zmod_int of_nat_div sgn_if minus_div_mult_eq_mod)

lemma smod_uint: "int a smod uint x = int (a mod unat x)"
  using smod_nat [of a "unat x"] by simp

lemma ringbuf_avail_contents:
  assumes "ringbuf_ok r"
  shows "unat (ringbuf_avail r) = length (ringbuf_contents r)"
proof -
  note d = ringbuf_okD [OF assms]
  let ?k = "(unat (rb_iput r) + unat (rb_size r) - unat (rb_iget r)) mod unat (rb_size r)"
  have "uint (rb_size r) + uint (rb_iput r) - uint (rb_iget r)
      = int (unat (rb_iput r) + unat (rb_size r) - unat (rb_iget r))"
    using d(2) by simp
  then have a: "ringbuf_avail r = of_nat ?k"
    unfolding ringbuf_avail_def by (simp only: smod_uint of_int_of_nat_eq)
  have "?k < unat (rb_size r)" using d(4) by (rule mod_less_divisor)
  then have "?k < 4294967296" using d(5) by linarith
  from unat_of_nat_small [OF this] show ?thesis
    unfolding a ringbuf_contents_def length_ring_contents d(1) .
qed

lemma ring_free_count:
  fixes t h n :: nat
  assumes "t < n" "h < n"
  shows "(n + t - h - 1) mod n = n - 1 - (h + n - t) mod n"
proof -
  show ?thesis
  proof (cases "t \<le> h")
    case True
    then obtain e where "h = t + e" using le_Suc_ex by blast
    then have "n + t - h - 1 = n - 1 - (h - t)" "n - 1 - (h - t) < n" using assms(2) by auto
    then show ?thesis using True unfolding ring_distance [OF assms] by simp
  next
    case False
    then obtain e where e: "t = h + Suc e" by (metis less_imp_Suc_add add_Suc_right not_le)
    then have "n + t - h - 1 = e + n" "e < n" using assms(1) by auto
    then have "(n + t - h - 1) mod n = e" by simp
    moreover have "n - 1 - (h + n - t) = e" using e assms by simp
    ultimately show ?thesis using False unfolding ring_distance [OF assms] by simp
  qed
qed

lemma ringbuf_free_contents:
  assumes "ringbuf_ok r"
  shows "unat (ringbuf_free r) = ringbuf_room r - length (ringbuf_contents r)"
proof -
  note d = ringbuf_okD [OF assms]
  let ?k = "(unat (rb_size r) + unat (rb_iget r) - unat (rb_iput r) - 1) mod unat (rb_size r)"
  have "uint (rb_size r) + uint (rb_iget r) - uint (rb_iput r) - 1
      = int (unat (rb_size r) + unat (rb_iget r) - unat (rb_iput r) - 1)"
    using d(3) by simp
  then have f: "ringbuf_free r = of_nat ?k"
    unfolding ringbuf_free_def by (simp only: smod_uint of_int_of_nat_eq)
  have "?k < unat (rb_size r)" using d(4) by (rule mod_less_divisor)
  then have "?k < 4294967296" using d(5) by linarith
  from unat_of_nat_small [OF this] show ?thesis
    using ring_free_count [OF d(2,3)] unfolding f ringbuf_contents_def length_ring_contents ringbuf_room_def d(1) by simp
qed

text \<open>Writing \<open>ds\<close> into the cells after the write index appends \<open>ds\<close> to the queue.\<close>

lemma ring_append:
  assumes "t < n" "h < n" "length buf = n" "length buf' = n"
    and room: "(h + n - t) mod n + length ds < n"
    and new: "\<And>i. i < length ds \<Longrightarrow> buf' ! ((h + i) mod n) = ds ! i"
    and old: "\<And>i. i < (h + n - t) mod n \<Longrightarrow> buf' ! ((t + i) mod n) = buf ! ((t + i) mod n)"
  shows "ring_contents buf' t ((h + length ds) mod n) = ring_contents buf t h @ ds"
proof -
  let ?d = "(h + n - t) mod n" and ?k = "length ds"
  have "(h + ?k) mod n + n - t = (h + ?k) mod n + (n - t)" using assms(1) by simp
  then have "((h + ?k) mod n + n - t) mod n = (h + ?k + (n - t)) mod n" by (simp add: mod_add_left_eq)
  also have "\<dots> = ((h + n - t) + ?k) mod n" using assms(1) by (simp add: algebra_simps)
  also have "\<dots> = ?d + ?k" using room by (metis mod_add_left_eq mod_less)
  finally have len: "((h + ?k) mod n + n - t) mod n = ?d + ?k" .
  show ?thesis
  proof (rule nth_equalityI)
    show "length (ring_contents buf' t ((h + ?k) mod n)) = length (ring_contents buf t h @ ds)"
      using len assms(3,4) by (simp add: length_ring_contents)
    fix i assume "i < length (ring_contents buf' t ((h + ?k) mod n))"
    then have i: "i < ?d + ?k" using len assms(4) by (simp add: length_ring_contents)
    have "(t + i) mod n = (h + (i - ?d)) mod n" if "\<not> i < ?d"
      using that ring_last_index(1) [OF assms(1,2)] mod_add_left_eq [of "t + ?d" n "i - ?d"] by simp
    then show "ring_contents buf' t ((h + ?k) mod n) ! i = (ring_contents buf t h @ ds) ! i"
      using i len assms(3,4) old new [of "i - ?d"]
      by (cases "i < ?d") (simp_all add: ring_contents_def nth_append)
  qed
qed

text \<open>The first \<open>k\<close> elements of the queue, and the queue without them.\<close>

lemma ring_drop:
  assumes "t < n" "h < n" "length buf = n" "k \<le> (h + n - t) mod n"
  shows "ring_contents buf ((t + k) mod n) h = drop k (ring_contents buf t h)"
proof -
  have "k < n" using assms(1,4) mod_less_divisor [of n "h + n - t"] by linarith
  have "h + n - (t + k) mod n = h + (n - (t + k) mod n)"
    using assms(1) mod_less_divisor [of n "t + k"] by simp
  have t': "(t + k) mod n < n" using assms(1) by (intro mod_less_divisor) simp
  have "(t + k) mod n = (if t + k < n then t + k else t + k - n)"
    using \<open>k < n\<close> assms(1) by (intro mod_below_twice) simp
  then have len: "(h + n - (t + k) mod n) mod n = (h + n - t) mod n - k"
    using assms(4) ring_distance [OF t' assms(2)] ring_distance [OF assms(1,2)] assms(1,2) by (auto split: if_splits)
  show ?thesis
    using assms(3,4) len
    by (intro nth_equalityI) (auto simp: length_ring_contents ring_contents_def mod_add_left_eq add.assoc)
qed

lemma wrap_copy_nth:
  fixes h k n :: nat
  assumes "h < n" "k < n" "length buf = n" "length ds = k" "j < n"
  defines "h' \<equiv> (h + k) mod n"
  defines "buf' \<equiv> (if h' < h then copy_in (copy_in buf h (take (n - h) ds)) 0 (take h' (drop (n - h) ds))
                    else copy_in buf h (take (h' - h) ds))"
  shows "length buf' = n" "buf' ! j = (if (j + n - h) mod n < k then ds ! ((j + n - h) mod n) else buf ! j)"
proof -
  have h': "h' = (if h + k < n then h + k else h + k - n)"
    unfolding h'_def using assms(1,2) by (intro mod_below_twice) simp
  have dist: "(j + n - h) mod n = (if h \<le> j then j - h else j + n - h)" by (rule ring_distance [OF assms(1,5)])
  show "length buf' = n"
    unfolding buf'_def copy_in_def using assms(1-4) h' by auto
  show "buf' ! j = (if (j + n - h) mod n < k then ds ! ((j + n - h) mod n) else buf ! j)"
    unfolding buf'_def copy_in_def dist using assms(1-5) h' by (auto simp: nth_append add.commute)
qed

lemma wrap_copy_out:
  fixes t k n :: nat
  assumes "t < n" "k < n" "length buf = n"
  defines "t' \<equiv> (t + k) mod n"
  shows "(if t' < t then copy_out buf t (n - t) @ copy_out buf 0 t' else copy_out buf t (t' - t))
    = map (\<lambda>i. buf ! ((t + i) mod n)) [0..<k]"
proof -
  have t': "t' = (if t + k < n then t + k else t + k - n)"
    unfolding t'_def using assms(1,2) by (intro mod_below_twice) simp
  have m: "i < k \<Longrightarrow> (t + i) mod n = (if t + i < n then t + i else t + i - n)" for i
    using assms(1,2) by (intro mod_below_twice) simp
  show ?thesis
    unfolding copy_out_def t' using assms(1-3) m
    by (intro nth_equalityI) (auto simp: nth_append add.commute split: if_splits)
qed

lemma wrap_index:
  fixes i n :: u16 and k :: u32
  assumes "i < n" "unat k < unat n"
  defines "j \<equiv> (unat i + unat k) mod unat n"
  shows "unat (((ucast i :: u32) + k) mod ucast n) = j" "unat (ucast (((ucast i :: u32) + k) mod ucast n) :: u16) = j"
    "unat (ucast n - ucast i :: u32) = unat n - unat i" "((ucast i :: u32) + k) mod ucast n < ucast i \<longleftrightarrow> j < unat i"
    "\<not> j < unat i \<Longrightarrow> unat (((ucast i :: u32) + k) mod ucast n - ucast i) = j - unat i"
proof -
  have i: "unat i < unat n" "unat n < 65536" using assms(1) by (simp_all add: word_less_nat_alt)
  have "unat i + unat k < 4294967296" using i assms(2) by linarith
  then have "unat ((ucast i :: u32) + k) = unat i + unat k"
    unfolding unat_word_ariths unat_ucast_u16_u32 by simp
  from this show 1: "unat (((ucast i :: u32) + k) mod ucast n) = j"
    by (simp add: unat_mod unat_ucast_u16_u32 j_def)
  have "j < 65536" unfolding j_def using i mod_less_divisor [of "unat n" "unat i + unat k"] by linarith
  then show "unat (ucast (((ucast i :: u32) + k) mod ucast n) :: u16) = j"
    unfolding unsigned_ucast_eq 1 by (simp add: take_bit_nat_eq_self)
  show "unat (ucast n - ucast i :: u32) = unat n - unat i"
    using i(1) by (subst unat_sub_le) (simp_all add: unat_ucast_u16_u32)
  show "((ucast i :: u32) + k) mod ucast n < ucast i \<longleftrightarrow> j < unat i"
    unfolding word_less_nat_alt 1 by (simp add: unat_ucast_u16_u32)
  show "\<not> j < unat i \<Longrightarrow> unat (((ucast i :: u32) + k) mod ucast n - ucast i) = j - unat i"
    by (subst unat_sub_le) (simp_all only: 1 unat_ucast_u16_u32 not_less)
qed

lemma ring_index_back:
  fixes h i n :: nat
  assumes "h < n" "i < n"
  shows "((h + i) mod n + n - h) mod n = i"
proof -
  have "(h + i) mod n + n - h = (h + i) mod n + (n - h)" using assms(1) by simp
  then have "((h + i) mod n + n - h) mod n = (h + i + (n - h)) mod n" by (simp only: mod_add_left_eq)
  also have "h + i + (n - h) = i + n" using assms(1) by simp
  finally show ?thesis using assms(2) by simp
qed

lemma ring_old_index:
  fixes t h i k n :: nat
  assumes "t < n" "h < n" "i < (h + n - t) mod n" "(h + n - t) mod n + k < n"
  shows "\<not> ((t + i) mod n + n - h) mod n < k"
proof -
  define d where "d = (h + n - t) mod n"
  have d: "d = (if t \<le> h then h - t else h + n - t)" unfolding d_def by (rule ring_distance [OF assms(1,2)])
  have i: "i < d" "d + k < n" using assms(3,4) by (simp_all only: d_def)
  have j: "(t + i) mod n = (if t + i < n then t + i else t + i - n)"
    using assms(1) i by (intro mod_below_twice) simp
  have "(t + i) mod n < n" using assms(1) by (intro mod_less_divisor) simp
  from ring_distance [OF assms(2) this]
  have e: "((t + i) mod n + n - h) mod n = (if h \<le> (t + i) mod n then (t + i) mod n - h else (t + i) mod n + n - h)" .
  show ?thesis
  proof (cases "t + i < n")
    case True
    then show ?thesis using e j i d assms(1,2) by (cases "t \<le> h"; cases "h \<le> t + i"; simp; arith)
  next
    case False
    then have "\<not> t \<le> h" using i d assms(2) by auto
    then show ?thesis using False e j i d assms(1,2) by (cases "h \<le> t + i - n"; simp; arith)
  qed
qed

lemma ringbuf_put_bytes_ok:
  assumes r: "ringbuf_ok r" and len: "unat data_len = length data"
    and fits: "length (ringbuf_contents r) + length data \<le> ringbuf_room r"
  shows "\<exists>r'. ringbuf_put_bytes r data data_len = (0, r') \<and> ringbuf_ok r' \<and> rb_size r' = rb_size r
    \<and> ringbuf_contents r' = ringbuf_contents r @ data"
proof -
  note d = ringbuf_okD [OF r]
  let ?n = "unat (rb_size r)" and ?h = "unat (rb_iput r)" and ?t = "unat (rb_iget r)" and ?k = "unat data_len"
  let ?h' = "(?h + ?k) mod ?n"
  have lt: "rb_iput r < rb_size r" "?k < ?n"
    using r fits d(4) len by (auto simp: ringbuf_ok_def ringbuf_room_def simp del: unat_gt_0)
  note w = wrap_index [OF this]
  define buf' where "buf' = (if ?h' < ?h then copy_in (copy_in (rb_buf r) ?h (take (?n - ?h) data)) 0
    (take ?h' (drop (?n - ?h) data)) else copy_in (rb_buf r) ?h (take (?h' - ?h) data))"
  define r' where "r' = r\<lparr>rb_buf := buf', rb_iput := ucast (((ucast (rb_iput r) :: u32) + data_len) mod ucast (rb_size r))\<rparr>"
  have "\<not> ringbuf_free r < data_len"
    using fits len ringbuf_free_contents [OF r] by (simp add: word_less_nat_alt)
  then have res: "ringbuf_put_bytes r data data_len = (0, r')"
    unfolding ringbuf_put_bytes_def r'_def buf'_def using w by (simp add: Let_def unat_ucast_u16_u32)
  note nth = wrap_copy_nth [OF d(3) lt(2) d(1) len [symmetric], folded buf'_def]
  have buf': "length buf' = ?n" using nth(1) d(4) by blast
  have h': "?h' < ?n" using d(4) by (rule mod_less_divisor)
  have ok: "ringbuf_ok r'"
    using r buf' h' w(2) unfolding ringbuf_ok_def r'_def by (simp add: word_less_nat_alt)
  have room: "(?h + ?n - ?t) mod ?n + length data < ?n"
    using fits d(4) unfolding ringbuf_contents_def length_ring_contents ringbuf_room_def d(1) by linarith
  have "ring_contents buf' ?t ((?h + length data) mod ?n) = ring_contents (rb_buf r) ?t ?h @ data"
  proof (rule ring_append [OF d(2,3,1) buf' room])
    fix i assume i: "i < length data"
    then have "((?h + i) mod ?n + ?n - ?h) mod ?n = i" using lt(2) len by (intro ring_index_back d(3)) simp
    then show "buf' ! ((?h + i) mod ?n) = data ! i"
      unfolding nth(2) [OF mod_less_divisor [OF d(4)]] using i len by simp
  next
    fix i assume i: "i < (?h + ?n - ?t) mod ?n"
    from ring_old_index [OF d(2,3) this room]
    show "buf' ! ((?t + i) mod ?n) = rb_buf r ! ((?t + i) mod ?n)"
      unfolding nth(2) [OF mod_less_divisor [OF d(4)]] len by simp
  qed
  then show ?thesis using res ok w(2) len by (simp add: ringbuf_contents_def r'_def)
qed

lemma ringbuf_get_bytes_ok:
  assumes r: "ringbuf_ok r" and fits: "unat data_len \<le> length (ringbuf_contents r)"
  shows "\<exists>r'. ringbuf_get_bytes r data_len = (0, take (unat data_len) (ringbuf_contents r), r') \<and> ringbuf_ok r'
    \<and> rb_size r' = rb_size r \<and> ringbuf_contents r' = drop (unat data_len) (ringbuf_contents r)"
proof -
  note d = ringbuf_okD [OF r]
  let ?n = "unat (rb_size r)" and ?h = "unat (rb_iput r)" and ?t = "unat (rb_iget r)" and ?k = "unat data_len"
  let ?t' = "(?t + ?k) mod ?n" and ?d = "(?h + ?n - ?t) mod ?n"
  have k: "?k \<le> ?d" using fits unfolding ringbuf_contents_def length_ring_contents d(1) .
  moreover have "?d < ?n" using d(4) by (rule mod_less_divisor)
  ultimately have lt: "rb_iget r < rb_size r" "?k < ?n" using r by (auto simp: ringbuf_ok_def)
  note w = wrap_index [OF this]
  define r' where "r' = r\<lparr>rb_iget := ucast (((ucast (rb_iget r) :: u32) + data_len) mod ucast (rb_size r))\<rparr>"
  have "\<not> ringbuf_avail r < data_len"
    using fits ringbuf_avail_contents [OF r] by (simp add: word_less_nat_alt)
  then have "ringbuf_get_bytes r data_len = (0, if ?t' < ?t then copy_out (rb_buf r) ?t (?n - ?t) @ copy_out (rb_buf r) 0 ?t'
    else copy_out (rb_buf r) ?t (?t' - ?t), r')"
    unfolding ringbuf_get_bytes_def r'_def using w by (simp add: Let_def unat_ucast_u16_u32)
  moreover have "map (\<lambda>i. rb_buf r ! ((?t + i) mod ?n)) [0..<?k] = take ?k (ringbuf_contents r)"
    using k d(1) by (simp add: ringbuf_contents_def ring_contents_def take_map)
  ultimately have res: "ringbuf_get_bytes r data_len = (0, take ?k (ringbuf_contents r), r')"
    using wrap_copy_out [OF d(2) lt(2) d(1)] by simp
  have "?t' < ?n" using d(4) by (rule mod_less_divisor)
  then have ok: "ringbuf_ok r'"
    using r w(2) unfolding ringbuf_ok_def r'_def by (simp add: word_less_nat_alt)
  have "ringbuf_contents r' = drop ?k (ringbuf_contents r)"
    using ring_drop [OF d(2,3,1) k] w(2) by (simp add: ringbuf_contents_def r'_def)
  then show ?thesis using res ok by (simp add: r'_def)
qed

lemma ringbuf_alloc_ok:
  assumes "length mem = unat sz" "0 < unat sz" "unat sz < 65536"
  shows "ringbuf_ok (ringbuf_alloc mem sz)" "ringbuf_contents (ringbuf_alloc mem sz) = []"
proof -
  have "unat (ucast sz :: u16) = unat sz" using assms(3) by (simp add: unsigned_ucast_eq take_bit_nat_eq_self)
  then show "ringbuf_ok (ringbuf_alloc mem sz)" "ringbuf_contents (ringbuf_alloc mem sz) = []"
    using assms by (simp_all add: ringbuf_alloc_def ringbuf_ok_def ringbuf_contents_def ring_contents_def word_less_nat_alt del: unat_gt_0)
qed

section \<open>Two bytes at once\<close>

lemma index_succ_u32:
  fixes n :: u16
  assumes "k < unat n"
  shows "(if (of_nat k :: u32) + 1 = ucast n then 0 else (of_nat k :: u32) + 1) = of_nat ((k + 1) mod unat n)"
proof -
  have "k < 65536" using assms u16_bound [of n] by linarith
  note k = u16_of_nat [OF this]
  have lt: "(of_nat k :: u16) < n" using assms k by (simp add: word_less_nat_alt)
  have e: "(ucast (of_nat k :: u16) :: u32) = of_nat k"
    using k unat_of_nat_small [of k] \<open>k < 65536\<close> unfolding word_unat_eq_iff unat_ucast_u16_u32 by linarith
  show ?thesis using index_succ(2) [OF lt] unfolding e k .
qed

lemma of_nat_u32_eq_iff: "k < 65536 \<Longrightarrow> (of_nat k :: u32) = ucast (x :: u16) \<longleftrightarrow> k = unat x"
  by (simp add: word_unat_eq_iff unat_ucast_u16_u32 unat_of_nat_small)

lemma ringbuf_put16_puts:
  fixes v :: u16
  assumes r: "ringbuf_ok r"
  defines "r1 \<equiv> snd (ringbuf_put r (ucast (drop_bit 8 v AND 0xFF)))"
  shows "ringbuf_put16 r v =
    (if length (ringbuf_contents r) + 2 \<le> ringbuf_room r then (0, snd (ringbuf_put r1 (ucast (v AND 0xFF)))) else (- 1, r))"
proof -
  note d = ringbuf_okD [OF r]
  let ?h = "(unat (rb_iput r) + 1) mod unat (rb_size r)"
  let ?h2 = "(?h + 1) mod unat (rb_size r)"
  have h: "?h < unat (rb_size r)" "?h2 < unat (rb_size r)" using d(4) by (simp_all only: mod_less_divisor)
  then have h': "?h < 65536" "?h2 < 65536" using d(5) by linarith+
  have i: "rb_iput r < rb_size r" using r by (simp add: ringbuf_ok_def)
  have step: "ringbuf_put16 r v = (if ?h = unat (rb_iget r) \<or> ?h2 = unat (rb_iget r) then (- 1, r)
      else (0, r\<lparr>rb_buf := (rb_buf r)[unat (rb_iput r) := ucast (drop_bit 8 v AND 0xFF), ?h := ucast (v AND 0xFF)],
                 rb_iput := of_nat ?h2\<rparr>))"
    unfolding ringbuf_put16_def index_succ(2) [OF i] Let_def index_succ_u32 [OF h(1)] of_nat_u32_eq_iff [OF h'(1)]
      of_nat_u32_eq_iff [OF h'(2)] ucast_u32_of_nat [OF h'(2)]
    using unat_of_nat_small [of ?h] h'(1) by simp
  show ?thesis
  proof (cases "length (ringbuf_contents r) < ringbuf_room r")
    case False
    then show ?thesis using ringbuf_room_iff [OF r] unfolding step by simp
  next
    case True
    then have ne: "?h \<noteq> unat (rb_iget r)" using ringbuf_room_iff [OF r] by blast
    note p = ringbuf_put_contents [OF r True, of "ucast (drop_bit 8 v AND 0xFF)", folded r1_def]
    have r1: "r1 = r\<lparr>rb_buf := (rb_buf r)[unat (rb_iput r) := ucast (drop_bit 8 v AND 0xFF)], rb_iput := of_nat ?h\<rparr>"
      using ne unfolding r1_def ringbuf_put_nat [OF r] Let_def by simp
    have u: "unat (rb_iput r1) = ?h" "rb_iget r1 = rb_iget r" "rb_size r1 = rb_size r"
      using u16_of_nat [OF h'(1)] unfolding r1 by simp_all
    have "?h2 = unat (rb_iget r) \<longleftrightarrow> \<not> length (ringbuf_contents r) + 2 \<le> ringbuf_room r"
      using ringbuf_room_iff [OF p(2)] p(3) unfolding u by (simp add: ringbuf_room_def u) linarith
    then show ?thesis
      using ne unfolding step ringbuf_put_nat [OF p(2)] u Let_def by (simp add: r1)
  qed
qed

lemma ringbuf_peek16_contents:
  assumes r: "ringbuf_ok r"
  shows "ringbuf_peek16 r = (case ringbuf_contents r of c1 # c2 # _ \<Rightarrow> 256 * int (unat c1) + int (unat c2) | _ \<Rightarrow> - 1)"
proof -
  note d = ringbuf_okD [OF r]
  let ?t = "(unat (rb_iget r) + 1) mod unat (rb_size r)"
  have t: "?t < unat (rb_size r)" using d(4) by (rule mod_less_divisor)
  then have t': "?t < 65536" using d(5) by linarith
  have i: "rb_iget r < rb_size r" using r by (simp add: ringbuf_ok_def)
  have pk: "ringbuf_peek16 r = (if rb_iget r = rb_iput r \<or> ?t = unat (rb_iput r) then - 1
      else or (push_bit 8 (uint (rb_buf r ! unat (rb_iget r)))) (uint (rb_buf r ! ?t)))"
    unfolding ringbuf_peek16_def index_succ(2) [OF i] Let_def of_nat_u32_eq_iff [OF t']
    using unat_of_nat_small [of ?t] t' by simp
  have "or (push_bit 8 (uint a)) (uint b) = 256 * int (unat a) + int (unat b)" for a b :: u8
  proof -
    have "uint b < 2 ^ 8" using uint_bounded [of b] by simp
    then have "and (push_bit 8 (uint a)) (uint b) = 0"
      by (intro bit_eqI) (auto simp: bit_simps dest: bit_imp_le_length)
    then show ?thesis by (simp add: push_bit_eq_mult flip: disjunctive_add_eq_or)
  qed
  moreover have "ringbuf_contents r = [] \<longleftrightarrow> rb_iget r = rb_iput r"
    using ring_empty_iff [of "unat (rb_iget r)" "rb_buf r" "unat (rb_iput r)"] d
    by (simp add: ringbuf_contents_def word_unat_eq_iff)
  moreover have "ring_contents (rb_buf r) ?t (unat (rb_iput r)) = [] \<longleftrightarrow> ?t = unat (rb_iput r)"
    using ring_empty_iff [of ?t "rb_buf r" "unat (rb_iput r)"] d t by simp
  moreover have "rb_iget r \<noteq> rb_iput r \<Longrightarrow> ringbuf_contents r = rb_buf r ! unat (rb_iget r) # ring_contents (rb_buf r) ?t (unat (rb_iput r))"
    using ring_get [of "unat (rb_iget r)" "rb_buf r" "unat (rb_iput r)"] d
    by (simp add: ringbuf_contents_def word_unat_eq_iff)
  moreover have "?t \<noteq> unat (rb_iput r) \<Longrightarrow> hd (ring_contents (rb_buf r) ?t (unat (rb_iput r))) = rb_buf r ! ?t"
    using ring_get [of ?t "rb_buf r" "unat (rb_iput r)"] d t by simp
  ultimately show ?thesis unfolding pk by (auto split: list.splits)
qed

lemma unat_add_u16: "unat x + unat y < 65536 \<Longrightarrow> unat (x + y :: u16) = unat x + unat y"
  by (simp add: unat_word_ariths)

lemma ringbuf_get16_index:
  assumes r: "ringbuf_ok r" and v: "ringbuf_peek16 r \<noteq> - 1"
  shows "ringbuf_get16 r = (ringbuf_peek16 r, r\<lparr>rb_iget := (if rb_size r \<le> rb_iget r + 2 then rb_iget r + 2 - rb_size r else rb_iget r + 2)\<rparr>)"
  using v by (cases r) (simp add: ringbuf_get16_def Let_def)

lemma ringbuf_peek16_two:
  assumes "ringbuf_ok r" "2 \<le> length (ringbuf_contents r)"
  shows "ringbuf_peek16 r \<noteq> - 1"
proof -
  obtain a b q where q: "ringbuf_contents r = a # b # q" using assms(2) by (auto simp: numeral_2_eq_2 Suc_le_length_iff)
  have "0 \<le> 256 * int (unat a) + int (unat b)" by simp
  then show ?thesis using ringbuf_peek16_contents [OF assms(1)] unfolding q list.case by linarith
qed

lemma ringbuf_get16_contents:
  assumes r: "ringbuf_ok r" and sz: "rb_size r \<noteq> 65535" and two: "2 \<le> length (ringbuf_contents r)"
  shows "ringbuf_ok (snd (ringbuf_get16 r))" "ringbuf_contents (snd (ringbuf_get16 r)) = drop 2 (ringbuf_contents r)"
    "rb_size (snd (ringbuf_get16 r)) = rb_size r"
proof -
  note d = ringbuf_okD [OF r]
  let ?n = "unat (rb_size r)" and ?t = "unat (rb_iget r)"
  have k: "2 \<le> (unat (rb_iput r) + ?n - ?t) mod ?n"
    using two unfolding ringbuf_contents_def length_ring_contents d(1) .
  then have n: "2 < ?n" using mod_less_divisor [OF d(4)] by (meson le_less_trans)
  have "?n \<noteq> 65535" using sz by (simp add: word_unat_eq_iff)
  have g: "unat (rb_iget r + 2) = ?t + 2"
  proof -
    have two: "unat (2 :: u16) = 2" by simp
    have "?t + 2 < 65536" using d(2,5) \<open>?n \<noteq> 65535\<close> by linarith
    then show ?thesis using unat_add_u16 [of "rb_iget r" 2] unfolding two by blast
  qed
  have "(if rb_size r \<le> rb_iget r + 2 then rb_iget r + 2 - rb_size r else rb_iget r + 2) = (of_nat ((?t + 2) mod ?n) :: u16)"
    (is "?i = _")
  proof -
    have "(?t + 2) mod ?n = (if ?t + 2 < ?n then ?t + 2 else ?t + 2 - ?n)"
      using d(2) n by (intro mod_below_twice) simp
    moreover have "unat ?i = (if ?t + 2 < ?n then ?t + 2 else ?t + 2 - ?n)"
      using g unat_sub_le [of "rb_size r" "rb_iget r + 2"] unfolding word_le_nat_alt by (cases "?n \<le> ?t + 2") simp_all
    ultimately have e: "unat ?i = (?t + 2) mod ?n" by simp
    have "?i = of_nat (unat ?i)" by simp
    then show ?thesis unfolding e .
  qed
  moreover have "ringbuf_peek16 r \<noteq> - 1"
    by (rule ringbuf_peek16_two [OF r two])
  ultimately have g16: "ringbuf_get16 r = (ringbuf_peek16 r, r\<lparr>rb_iget := of_nat ((?t + 2) mod ?n)\<rparr>)"
    using ringbuf_get16_index [OF r] by simp
  have "(?t + 2) mod ?n < ?n" using d(4) by (rule mod_less_divisor)
  note i = ringbuf_index_ok [OF r this]
  show "ringbuf_ok (snd (ringbuf_get16 r))" "rb_size (snd (ringbuf_get16 r)) = rb_size r"
    using r i unfolding g16 by (simp_all add: ringbuf_ok_def)
  show "ringbuf_contents (snd (ringbuf_get16 r)) = drop 2 (ringbuf_contents r)"
    using ring_drop [OF d(2,3,1) k] i unfolding g16 by (simp add: ringbuf_contents_def)
qed


text \<open>At size 65535 the read index 65534 plus two wraps to 0, past the cell it should skip.\<close>

lemma ringbuf_get16_wraps:
  assumes r: "ringbuf_ok r" and sz: "rb_size r = 65535" "rb_iget r = 65534" and two: "2 \<le> length (ringbuf_contents r)"
  shows "ringbuf_contents (snd (ringbuf_get16 r)) = tl (ringbuf_contents r)"
proof -
  note d = ringbuf_okD [OF r]
  have k: "1 \<le> (unat (rb_iput r) + 65535 - 65534) mod 65535"
    using two sz unfolding ringbuf_contents_def length_ring_contents d(1) by simp
  have "ringbuf_peek16 r \<noteq> - 1"
    by (rule ringbuf_peek16_two [OF r two])
  then have "snd (ringbuf_get16 r) = r\<lparr>rb_iget := 0\<rparr>" using ringbuf_get16_index [OF r] sz by simp
  then show ?thesis
    using ring_drop [of 65534 65535 "unat (rb_iput r)" "rb_buf r" 1] k d sz
    by (simp add: ringbuf_contents_def drop_Suc)
qed

lemma ringbuf_contents_room:
  assumes "ringbuf_ok r"
  shows "length (ringbuf_contents r) \<le> ringbuf_room r" "ringbuf_room r < unat (rb_size r)"
proof -
  note d = ringbuf_okD [OF assms]
  show "ringbuf_room r < unat (rb_size r)" using d(4) by (simp add: ringbuf_room_def)
  show "length (ringbuf_contents r) \<le> ringbuf_room r"
    using mod_less_divisor [OF d(4), of "unat (rb_iput r) + unat (rb_size r) - unat (rb_iget r)"]
    unfolding ringbuf_contents_def length_ring_contents ringbuf_room_def d(1) by linarith
qed

definition queue_demo :: ringbuf where
  "queue_demo = \<lparr>rb_buf = [1, 2, 3, 4], rb_size = 4, rb_iget = 3, rb_iput = 1\<rparr>"

lemma queue_demo_facts: "ringbuf_ok queue_demo" "ringbuf_contents queue_demo = [4, 1]" "ringbuf_room queue_demo = 3"
  by (simp_all add: queue_demo_def ringbuf_ok_def ringbuf_contents_def ringbuf_room_def ring_contents_def)

text \<open>
  C38: whatever the mix of \<open>ringbuf_put\<close> and \<open>ringbuf_get\<close>, they answer as the same calls on a plain
  list of at most \<open>ringbuf_room\<close> bytes do and leave that list; bytes leave the buffer in the order they
  entered it, and the two counts the code computes add up to the capacity, the size less one.
\<close>
theorem ringbuf_fifo:
  assumes "ringbuf_ok r"
  shows "(let (replies, r') = run_calls (queue_call queue_put queue_get) ops r
      in run_calls (list_queue (ringbuf_room r)) ops (ringbuf_contents r) = (replies, ringbuf_contents r'))
    \<and> (let (ins, outs, r') = queue_run queue_put queue_get r ops
      in ringbuf_contents r @ ins = outs @ ringbuf_contents r' \<and> ringbuf_ok r'
        \<and> unat (ringbuf_avail r') = length (ringbuf_contents r')
        \<and> unat (ringbuf_free r') = unat (rb_size r') - 1 - length (ringbuf_contents r'))"
proof (rule conjI, goal_cases)
  case 1
  show ?case
    using rb.sized.run_simulates [of r "ringbuf_room r" ops] assms
    by (simp add: case_prod_beta Let_def list_ex_iff list_all_iff)
next
  case 2
  note i = rb.run_invar [OF assms, of ops]
  show ?case
    using rb.run_fifo [OF assms, of ops] i ringbuf_avail_contents [OF i] ringbuf_free_contents [OF i]
    by (auto simp: case_prod_beta Let_def ringbuf_room_def)
qed

theorem ringbuf_fifo_witness:
  "let (ins, outs, r') = queue_run queue_put queue_get queue_demo [Put 7, Put 8, Get] in outs = [4] \<and> ins = [7]
    \<and> ringbuf_contents r' = [1, 7]"
  using conjunct2 [OF ringbuf_fifo, OF queue_demo_facts(1), of "[Put 7, Put 8, Get]"]
  by (simp add: queue_demo_def queue_put_def queue_get_def ringbuf_put_def ringbuf_get_def ringbuf_contents_def
      ring_contents_def Let_def case_prod_beta)

text \<open>
  A block transfer is all or nothing.  A write that fits appends the block to the queue; one that does not
  changes nothing and says whether it could ever fit.  A read likewise takes the first bytes of the queue, in
  order, across the end of the array, or changes nothing.
\<close>
theorem ringbuf_bytes_correct:
  assumes "ringbuf_ok r" "length data < 4294967296"
  shows "let q = ringbuf_contents r; n = unat (rb_size r); len = of_nat (length data)
    in (if length q + length data \<le> n - 1
        then \<exists>r'. ringbuf_put_bytes r data len = (0, r') \<and> ringbuf_ok r' \<and> ringbuf_contents r' = q @ data
        else ringbuf_put_bytes r data len = (if n \<le> length data then - 2 else - 1, r))
     \<and> (if unat k \<le> length q
        then \<exists>r'. ringbuf_get_bytes r k = (0, take (unat k) q, r') \<and> ringbuf_ok r' \<and> ringbuf_contents r' = drop (unat k) q
        else ringbuf_get_bytes r k = (if n \<le> unat k then - 2 else - 1, [], r))"
proof -
  have len: "unat (of_nat (length data) :: u32) = length data" by (rule unat_of_nat_small [OF assms(2)])
  have "ringbuf_put_bytes r data (of_nat (length data)) = (if unat (rb_size r) \<le> length data then - 2 else - 1, r)"
    if "\<not> length (ringbuf_contents r) + length data \<le> ringbuf_room r"
  proof -
    have "ringbuf_free r < of_nat (length data)"
      using that ringbuf_free_contents [OF assms(1)] ringbuf_contents_room [OF assms(1)]
      unfolding word_less_nat_alt len by linarith
    then show ?thesis by (simp add: ringbuf_put_bytes_def word_le_nat_alt unat_ucast_u16_u32 len)
  qed
  moreover have "ringbuf_get_bytes r k = (if unat (rb_size r) \<le> unat k then - 2 else - 1, [], r)"
    if "\<not> unat k \<le> length (ringbuf_contents r)"
    using that ringbuf_avail_contents [OF assms(1)]
    by (auto simp: ringbuf_get_bytes_def word_less_nat_alt word_le_nat_alt unat_ucast_u16_u32)
  ultimately show ?thesis
    using ringbuf_put_bytes_ok [OF assms(1) len] ringbuf_get_bytes_ok [OF assms(1)]
    unfolding Let_def ringbuf_room_def by meson
qed

theorem ringbuf_bytes_correct_witness:
  "ringbuf_put_bytes queue_demo [5, 6] 2 = (- 1, queue_demo) \<and> ringbuf_put_bytes queue_demo [5, 6, 7, 8] 4 = (- 2, queue_demo)
    \<and> (\<exists>r'. ringbuf_get_bytes queue_demo 2 = (0, [4, 1], r') \<and> ringbuf_contents r' = [])"
proof -
  have n: "unat (rb_size queue_demo) = 4" by (simp add: queue_demo_def)
  show ?thesis
    using ringbuf_bytes_correct [OF queue_demo_facts(1), of "[5, 6]" 2]
      ringbuf_bytes_correct [OF queue_demo_facts(1), of "[5, 6, 7, 8]" 2]
    unfolding queue_demo_facts(2) n by (auto simp: Let_def)
qed

text \<open>
  The 16-bit operations are two byte operations, high byte first, that happen together or not at all;
  reading needs a size other than 65535, where the 16-bit read index wraps before it is compared with the size
  and the low byte is delivered a second time.
\<close>
theorem ringbuf_16_correct:
  assumes "ringbuf_ok r"
  shows "let q = ringbuf_contents r
    in (if length q + 2 \<le> unat (rb_size r) - 1
        then fst (ringbuf_put16 r v) = 0 \<and> ringbuf_ok (snd (ringbuf_put16 r v))
          \<and> ringbuf_contents (snd (ringbuf_put16 r v)) = q @ [ucast (drop_bit 8 v), ucast v]
        else ringbuf_put16 r v = (- 1, r))
     \<and> (case q of c1 # c2 # q' \<Rightarrow>
          fst (ringbuf_get16 r) = 256 * int (unat c1) + int (unat c2)
          \<and> (rb_size r \<noteq> 65535 \<longrightarrow> ringbuf_ok (snd (ringbuf_get16 r)) \<and> ringbuf_contents (snd (ringbuf_get16 r)) = q')
          \<and> (rb_size r = 65535 \<and> rb_iget r = 65534 \<longrightarrow> ringbuf_contents (snd (ringbuf_get16 r)) = c2 # q')
        | _ \<Rightarrow> ringbuf_get16 r = (- 1, r))"
proof -
  let ?q = "ringbuf_contents r"
  let ?r1 = "snd (ringbuf_put r (ucast (drop_bit 8 v AND 0xFF)))"
  have "fst (ringbuf_put16 r v) = 0 \<and> ringbuf_ok (snd (ringbuf_put16 r v))
      \<and> ringbuf_contents (snd (ringbuf_put16 r v)) = ?q @ [ucast (drop_bit 8 v), ucast v]"
    if fits: "length ?q + 2 \<le> ringbuf_room r"
  proof -
    have m: "ucast (w AND 0xFF) = (ucast w :: u8)" for w :: u16
      by (simp add: word_unat_eq_iff unat_ucast_u8 unat_and_ff)
    note p = ringbuf_put_contents [OF assms, of "ucast (drop_bit 8 v AND 0xFF)"]
    have "length (ringbuf_contents ?r1) < ringbuf_room ?r1" using p fits by (simp add: ringbuf_room_def)
    from ringbuf_put_contents [OF p(2) this, of "ucast (v AND 0xFF)"] show ?thesis
      using p(3) fits m unfolding ringbuf_put16_puts [OF assms] by simp
  qed
  moreover have "ringbuf_put16 r v = (- 1, r)" if "\<not> length ?q + 2 \<le> ringbuf_room r"
    using that unfolding ringbuf_put16_puts [OF assms] by simp
  moreover have "case ?q of c1 # c2 # q' \<Rightarrow>
          fst (ringbuf_get16 r) = 256 * int (unat c1) + int (unat c2)
          \<and> (rb_size r \<noteq> 65535 \<longrightarrow> ringbuf_ok (snd (ringbuf_get16 r)) \<and> ringbuf_contents (snd (ringbuf_get16 r)) = q')
          \<and> (rb_size r = 65535 \<and> rb_iget r = 65534 \<longrightarrow> ringbuf_contents (snd (ringbuf_get16 r)) = c2 # q')
        | _ \<Rightarrow> ringbuf_get16 r = (- 1, r)"
  proof (cases "2 \<le> length ?q")
    case True
    then obtain a b q where q: "?q = a # b # q" by (auto simp: numeral_2_eq_2 Suc_le_length_iff)
    show ?thesis
      using ringbuf_get16_contents [OF assms _ True] ringbuf_get16_wraps [OF assms _ _ True]
        ringbuf_get16_index [OF assms ringbuf_peek16_two [OF assms True]] ringbuf_peek16_contents [OF assms]
      unfolding q by simp
  next
    case False
    then have "?q = [] \<or> (\<exists>c. ?q = [c])" by (cases ?q rule: remdups_adj.cases) auto
    then show ?thesis using ringbuf_peek16_contents [OF assms] by (auto simp: ringbuf_get16_def)
  qed
  ultimately show ?thesis unfolding Let_def ringbuf_room_def by meson
qed

theorem ringbuf_16_correct_witness:
  "fst (ringbuf_get16 queue_demo) = 1025 \<and> ringbuf_contents (snd (ringbuf_get16 queue_demo)) = []
    \<and> ringbuf_put16 queue_demo 5 = (- 1, queue_demo)"
  using ringbuf_16_correct [OF queue_demo_facts(1), of 5] by (simp add: queue_demo_facts(2)) (simp add: queue_demo_def)

end
