(* ===== verification/Unichar.thy ===== *)
theory Unichar
  imports Prelude
begin

text \<open>
  Character classes, \<open>python/py/unicode.c\<close>: the attribute table of the 128 ASCII characters and the
  functions that read it.  A \<open>unichar\<close> is a 32-bit word.  The UTF-8 routines of the same file are
  compiled out in this configuration.
\<close>

type_synonym unichar = "32 word"

abbreviation (input) FL_PRINT :: u8 where "FL_PRINT \<equiv> 0x01"
abbreviation (input) FL_SPACE :: u8 where "FL_SPACE \<equiv> 0x02"
abbreviation (input) FL_DIGIT :: u8 where "FL_DIGIT \<equiv> 0x04"
abbreviation (input) FL_ALPHA :: u8 where "FL_ALPHA \<equiv> 0x08"
abbreviation (input) FL_UPPER :: u8 where "FL_UPPER \<equiv> 0x10"
abbreviation (input) FL_LOWER :: u8 where "FL_LOWER \<equiv> 0x20"
abbreviation (input) FL_XDIGIT :: u8 where "FL_XDIGIT \<equiv> 0x40"

definition AT_PR :: u8 where "AT_PR = FL_PRINT"
definition AT_SP :: u8 where "AT_SP = FL_SPACE OR FL_PRINT"
definition AT_DI :: u8 where "AT_DI = FL_DIGIT OR FL_PRINT OR FL_XDIGIT"
definition AT_UP :: u8 where "AT_UP = FL_UPPER OR FL_ALPHA OR FL_PRINT"
definition AT_LO :: u8 where "AT_LO = FL_LOWER OR FL_ALPHA OR FL_PRINT"
definition AT_UX :: u8 where "AT_UX = FL_UPPER OR FL_ALPHA OR FL_PRINT OR FL_XDIGIT"
definition AT_LX :: u8 where "AT_LX = FL_LOWER OR FL_ALPHA OR FL_PRINT OR FL_XDIGIT"

definition attr :: "u8 list" where
  "attr = [
     0, 0, 0, 0, 0, 0, 0, 0,
     0, AT_SP, AT_SP, AT_SP, AT_SP, AT_SP, 0, 0,
     0, 0, 0, 0, 0, 0, 0, 0,
     0, 0, 0, 0, 0, 0, 0, 0,
     AT_SP, AT_PR, AT_PR, AT_PR, AT_PR, AT_PR, AT_PR, AT_PR,
     AT_PR, AT_PR, AT_PR, AT_PR, AT_PR, AT_PR, AT_PR, AT_PR,
     AT_DI, AT_DI, AT_DI, AT_DI, AT_DI, AT_DI, AT_DI, AT_DI,
     AT_DI, AT_DI, AT_PR, AT_PR, AT_PR, AT_PR, AT_PR, AT_PR,
     AT_PR, AT_UX, AT_UX, AT_UX, AT_UX, AT_UX, AT_UX, AT_UP,
     AT_UP, AT_UP, AT_UP, AT_UP, AT_UP, AT_UP, AT_UP, AT_UP,
     AT_UP, AT_UP, AT_UP, AT_UP, AT_UP, AT_UP, AT_UP, AT_UP,
     AT_UP, AT_UP, AT_UP, AT_PR, AT_PR, AT_PR, AT_PR, AT_PR,
     AT_PR, AT_LX, AT_LX, AT_LX, AT_LX, AT_LX, AT_LX, AT_LO,
     AT_LO, AT_LO, AT_LO, AT_LO, AT_LO, AT_LO, AT_LO, AT_LO,
     AT_LO, AT_LO, AT_LO, AT_LO, AT_LO, AT_LO, AT_LO, AT_LO,
     AT_LO, AT_LO, AT_LO, AT_PR, AT_PR, AT_PR, AT_PR, 0
   ]"

definition has_attr :: "unichar \<Rightarrow> u8 \<Rightarrow> bool" where
  "has_attr c fl \<longleftrightarrow> c < 128 \<and> attr ! unat c AND fl \<noteq> 0"

definition unichar_isspace :: "unichar \<Rightarrow> bool" where
  "unichar_isspace c \<longleftrightarrow> has_attr c FL_SPACE"

definition unichar_isalpha :: "unichar \<Rightarrow> bool" where
  "unichar_isalpha c \<longleftrightarrow> has_attr c FL_ALPHA"

definition unichar_isdigit :: "unichar \<Rightarrow> bool" where
  "unichar_isdigit c \<longleftrightarrow> has_attr c FL_DIGIT"

definition unichar_isxdigit :: "unichar \<Rightarrow> bool" where
  "unichar_isxdigit c \<longleftrightarrow> has_attr c FL_XDIGIT"

definition unichar_isident :: "unichar \<Rightarrow> bool" where
  "unichar_isident c \<longleftrightarrow> c < 128 \<and> (attr ! unat c AND (FL_ALPHA OR FL_DIGIT) \<noteq> 0 \<or> c = 0x5F)"

definition unichar_isalnum :: "unichar \<Rightarrow> bool" where
  "unichar_isalnum c \<longleftrightarrow> has_attr c (FL_ALPHA OR FL_DIGIT)"

definition unichar_isupper :: "unichar \<Rightarrow> bool" where
  "unichar_isupper c \<longleftrightarrow> has_attr c FL_UPPER"

definition unichar_islower :: "unichar \<Rightarrow> bool" where
  "unichar_islower c \<longleftrightarrow> has_attr c FL_LOWER"

definition unichar_tolower :: "unichar \<Rightarrow> unichar" where
  "unichar_tolower c = (if unichar_isupper c then c + 0x20 else c)"

definition unichar_toupper :: "unichar \<Rightarrow> unichar" where
  "unichar_toupper c = (if unichar_islower c then c - 0x20 else c)"

definition unichar_xdigit_value :: "unichar \<Rightarrow> 32 word" where
  "unichar_xdigit_value c =
     (let n = c - 0x30 in if 9 < n then (n AND NOT (0x61 - 0x41)) - (0x41 - (0x39 + 1)) else n)"

section \<open>The classes in words\<close>

definition char_in :: "unichar \<Rightarrow> nat \<Rightarrow> nat \<Rightarrow> bool" where
  "char_in c a b \<longleftrightarrow> a \<le> unat c \<and> unat c \<le> b"

definition flags :: "u8 \<Rightarrow> bool list" where
  "flags fl = map (\<lambda>a. a AND fl \<noteq> 0) attr"

lemma flag_tables:
  "flags FL_SPACE = replicate 9 False @ replicate 5 True @ replicate 18 False @ [True] @ replicate 95 False"
  "flags FL_ALPHA = replicate 65 False @ replicate 26 True @ replicate 6 False @ replicate 26 True @ replicate 5 False"
  "flags FL_DIGIT = replicate 48 False @ replicate 10 True @ replicate 70 False"
  "flags FL_XDIGIT = replicate 48 False @ replicate 10 True @ replicate 7 False @ replicate 6 True @ replicate 26 False
     @ replicate 6 True @ replicate 25 False"
  "flags FL_UPPER = replicate 65 False @ replicate 26 True @ replicate 37 False"
  "flags FL_LOWER = replicate 97 False @ replicate 26 True @ replicate 5 False"
  by (simp_all add: flags_def attr_def AT_PR_def AT_SP_def AT_DI_def AT_UP_def AT_LO_def AT_UX_def AT_LX_def,
    simp_all add: numeral_eq_Suc)

lemma has_attr_flags: "has_attr c fl \<longleftrightarrow> unat c < 128 \<and> flags fl ! unat c"
proof -
  have "length attr = 128" by (simp add: attr_def)
  then show ?thesis by (auto simp: has_attr_def flags_def word_less_nat_alt)
qed

lemma char_classes:
  "unichar_isspace c \<longleftrightarrow> char_in c 9 13 \<or> unat c = 32"
  "unichar_isalpha c \<longleftrightarrow> char_in c 65 90 \<or> char_in c 97 122"
  "unichar_isdigit c \<longleftrightarrow> char_in c 48 57"
  "unichar_isxdigit c \<longleftrightarrow> char_in c 48 57 \<or> char_in c 65 70 \<or> char_in c 97 102"
  "unichar_isupper c \<longleftrightarrow> char_in c 65 90"
  "unichar_islower c \<longleftrightarrow> char_in c 97 122"
  by (auto simp: unichar_isspace_def unichar_isalpha_def unichar_isdigit_def unichar_isxdigit_def
      unichar_isupper_def unichar_islower_def has_attr_flags flag_tables char_in_def nth_append nth_Cons' split: if_splits)

end
