(* ===== verification/Lexer.thy ===== *)
theory Lexer
  imports Unichar Libc
begin

text \<open>
  MicroPython's tokeniser, \<open>python/py/lexer.c\<close>, in the configuration of this kernel (no f-strings,
  no Unicode strings, no \<open>async\<close>), over the memory reader of \<open>reader.c\<close>.  The reader is the list of
  the bytes still to read; the three cached characters are 32-bit with \<open>0xFFFFFFFF\<close> for the end of
  input; the token text is the list of its bytes and the indentation stack the list of its entries,
  each stored in 16 bits.  Lines and columns wrap at 32 bits; the two counters the code keeps as
  \<open>mp_int_t\<close>, pending dents and bracket depth, are integers.
\<close>

abbreviation ch :: "char \<Rightarrow> u32" where
  "ch \<equiv> of_char"

section \<open>Tokens\<close>

datatype mp_keyword =
    KW_FALSE | KW_NONE | KW_TRUE | KW_DEBUG | KW_AND | KW_AS | KW_ASSERT | KW_BREAK | KW_CLASS
  | KW_CONTINUE | KW_DEF | KW_DEL | KW_ELIF | KW_ELSE | KW_EXCEPT | KW_FINALLY | KW_FOR | KW_FROM
  | KW_GLOBAL | KW_IF | KW_IMPORT | KW_IN | KW_IS | KW_LAMBDA | KW_NONLOCAL | KW_NOT | KW_OR
  | KW_PASS | KW_RAISE | KW_RETURN | KW_TRY | KW_WHILE | KW_WITH | KW_YIELD

datatype mp_operator =
    OP_ASSIGN | OP_TILDE | OP_LESS | OP_MORE | OP_DBL_EQUAL | OP_LESS_EQUAL | OP_MORE_EQUAL | OP_NOT_EQUAL
  | OP_PIPE | OP_CARET | OP_AMPERSAND | OP_DBL_LESS | OP_DBL_MORE | OP_PLUS | OP_MINUS | OP_STAR | OP_AT
  | OP_DBL_SLASH | OP_SLASH | OP_PERCENT | OP_DBL_STAR

datatype mp_delimiter =
    DEL_PIPE_EQUAL | DEL_CARET_EQUAL | DEL_AMPERSAND_EQUAL | DEL_DBL_LESS_EQUAL | DEL_DBL_MORE_EQUAL
  | DEL_PLUS_EQUAL | DEL_MINUS_EQUAL | DEL_STAR_EQUAL | DEL_AT_EQUAL | DEL_DBL_SLASH_EQUAL
  | DEL_SLASH_EQUAL | DEL_PERCENT_EQUAL | DEL_DBL_STAR_EQUAL | DEL_PAREN_OPEN | DEL_PAREN_CLOSE
  | DEL_BRACKET_OPEN | DEL_BRACKET_CLOSE | DEL_BRACE_OPEN | DEL_BRACE_CLOSE | DEL_COMMA | DEL_COLON
  | DEL_PERIOD | DEL_SEMICOLON | DEL_EQUAL | DEL_MINUS_MORE

datatype mp_token_kind =
    MP_TOKEN_END
  | MP_TOKEN_INVALID | MP_TOKEN_DEDENT_MISMATCH | MP_TOKEN_LONELY_STRING_OPEN
  | MP_TOKEN_NEWLINE | MP_TOKEN_INDENT | MP_TOKEN_DEDENT
  | MP_TOKEN_NAME | MP_TOKEN_INTEGER | MP_TOKEN_FLOAT_OR_IMAG | MP_TOKEN_STRING | MP_TOKEN_BYTES
  | MP_TOKEN_ELLIPSIS
  | MP_TOKEN_KW mp_keyword
  | MP_TOKEN_OP mp_operator
  | MP_TOKEN_DEL mp_delimiter

section \<open>The cached characters\<close>

record lexer =
  reader :: "u8 list"
  chr0 :: u32
  chr1 :: u32
  chr2 :: u32
  line :: u32
  column :: u32
  emit_dent :: int
  nested_bracket_level :: int
  indent_level :: "u16 list"
  tok_line :: u32
  tok_column :: u32
  tok_kind :: mp_token_kind
  vstr :: "u8 list"

definition MP_LEXER_EOF :: u32 where
  "MP_LEXER_EOF = 0xFFFFFFFF"

definition TAB_SIZE :: u32 where
  "TAB_SIZE = 8"

definition mp_reader_mem_readbyte :: "u8 list \<Rightarrow> u32 \<times> u8 list" where
  "mp_reader_mem_readbyte rd = (case rd of [] \<Rightarrow> (MP_LEXER_EOF, []) | b # rd \<Rightarrow> (ucast b, rd))"

definition is_end :: "lexer \<Rightarrow> bool" where
  "is_end lx \<longleftrightarrow> chr0 lx = MP_LEXER_EOF"

definition is_physical_newline :: "lexer \<Rightarrow> bool" where
  "is_physical_newline lx \<longleftrightarrow> chr0 lx = ch CHR 0x0A"

definition is_char :: "lexer \<Rightarrow> u32 \<Rightarrow> bool" where
  "is_char lx c \<longleftrightarrow> chr0 lx = c"

definition is_char_or :: "lexer \<Rightarrow> u32 \<Rightarrow> u32 \<Rightarrow> bool" where
  "is_char_or lx c1 c2 \<longleftrightarrow> chr0 lx = c1 \<or> chr0 lx = c2"

definition is_char_or3 :: "lexer \<Rightarrow> u32 \<Rightarrow> u32 \<Rightarrow> u32 \<Rightarrow> bool" where
  "is_char_or3 lx c1 c2 c3 \<longleftrightarrow> chr0 lx = c1 \<or> chr0 lx = c2 \<or> chr0 lx = c3"

definition is_char_following :: "lexer \<Rightarrow> u32 \<Rightarrow> bool" where
  "is_char_following lx c \<longleftrightarrow> chr1 lx = c"

definition is_char_following_or :: "lexer \<Rightarrow> u32 \<Rightarrow> u32 \<Rightarrow> bool" where
  "is_char_following_or lx c1 c2 \<longleftrightarrow> chr1 lx = c1 \<or> chr1 lx = c2"

definition is_char_following_following_or :: "lexer \<Rightarrow> u32 \<Rightarrow> u32 \<Rightarrow> bool" where
  "is_char_following_following_or lx c1 c2 \<longleftrightarrow> chr2 lx = c1 \<or> chr2 lx = c2"

definition is_char_and :: "lexer \<Rightarrow> u32 \<Rightarrow> u32 \<Rightarrow> bool" where
  "is_char_and lx c1 c2 \<longleftrightarrow> chr0 lx = c1 \<and> chr1 lx = c2"

definition is_whitespace :: "lexer \<Rightarrow> bool" where
  "is_whitespace lx \<longleftrightarrow> unichar_isspace (chr0 lx)"

definition is_letter :: "lexer \<Rightarrow> bool" where
  "is_letter lx \<longleftrightarrow> unichar_isalpha (chr0 lx)"

definition is_digit :: "lexer \<Rightarrow> bool" where
  "is_digit lx \<longleftrightarrow> unichar_isdigit (chr0 lx)"

definition is_following_digit :: "lexer \<Rightarrow> bool" where
  "is_following_digit lx \<longleftrightarrow> unichar_isdigit (chr1 lx)"

definition is_following_base_char :: "lexer \<Rightarrow> bool" where
  "is_following_base_char lx \<longleftrightarrow>
     (let c = chr1 lx OR 0x20 in c = ch CHR ''b'' \<or> c = ch CHR ''o'' \<or> c = ch CHR ''x'')"

definition is_following_odigit :: "lexer \<Rightarrow> bool" where
  "is_following_odigit lx \<longleftrightarrow> ch CHR ''0'' \<le> chr1 lx \<and> chr1 lx \<le> ch CHR ''7''"

definition is_string_or_bytes :: "lexer \<Rightarrow> bool" where
  "is_string_or_bytes lx \<longleftrightarrow>
     is_char_or lx (ch CHR 0x27) (ch CHR 0x22)
     \<or> is_char_or3 lx (ch CHR ''r'') (ch CHR ''u'') (ch CHR ''b'') \<and> is_char_following_or lx (ch CHR 0x27) (ch CHR 0x22)
     \<or> (is_char_and lx (ch CHR ''r'') (ch CHR ''b'') \<or> is_char_and lx (ch CHR ''b'') (ch CHR ''r''))
        \<and> is_char_following_following_or lx (ch CHR 0x27) (ch CHR 0x22)"

definition is_head_of_identifier :: "lexer \<Rightarrow> bool" where
  "is_head_of_identifier lx \<longleftrightarrow> is_letter lx \<or> chr0 lx = ch CHR ''_'' \<or> 0x80 \<le> chr0 lx"

definition is_tail_of_identifier :: "lexer \<Rightarrow> bool" where
  "is_tail_of_identifier lx \<longleftrightarrow> is_head_of_identifier lx \<or> is_digit lx"

text \<open>The position of the next character, then the shift of the queue with its two repairs: CR and CR LF become LF, and a missing newline is supplied at the end.\<close>

definition advance_position :: "lexer \<Rightarrow> lexer" where
  "advance_position lx =
     (if chr0 lx = ch CHR 0x0A then lx\<lparr>line := line lx + 1, column := 1\<rparr>
      else if chr0 lx = ch CHR 0x09
      then lx\<lparr>column := ((column lx - 1 + TAB_SIZE) div TAB_SIZE) * TAB_SIZE + 1\<rparr>
      else lx\<lparr>column := column lx + 1\<rparr>)"

definition shift_chars :: "lexer \<Rightarrow> lexer" where
  "shift_chars lx =
     (let (c2, rd) = mp_reader_mem_readbyte (reader lx);
          c0 = chr1 lx;
          c1 = chr2 lx;
          (c1, c2, rd) =
            (if c1 = ch CHR 0x0D
             then (let (c2, rd) = (if c2 = ch CHR 0x0A then mp_reader_mem_readbyte rd else (c2, rd))
                   in (ch CHR 0x0A, c2, rd))
             else (c1, c2, rd));
          c2 = (if c2 = MP_LEXER_EOF \<and> c1 \<noteq> MP_LEXER_EOF \<and> c1 \<noteq> ch CHR 0x0A then ch CHR 0x0A else c2)
      in lx\<lparr>reader := rd, chr0 := c0, chr1 := c1, chr2 := c2\<rparr>)"

definition next_char :: "lexer \<Rightarrow> lexer" where
  "next_char lx = shift_chars (advance_position lx)"

text \<open>What is left to read: every loop of the lexer consumes characters, so it makes this smaller.\<close>

definition present :: "u32 \<Rightarrow> nat" where
  "present c = (if c = MP_LEXER_EOF then 0 else 1)"

definition weight :: "u32 \<Rightarrow> nat" where
  "weight c = (if c = MP_LEXER_EOF then 0 else if c = ch CHR 0x0A then 3 else 6)"

definition lex_size :: "lexer \<Rightarrow> nat" where
  "lex_size lx = present (chr0 lx) + 2 * present (chr1 lx) + weight (chr2 lx) + 7 * length (reader lx)"

lemma byte_not_EOF [simp]: "ucast (b :: u8) \<noteq> MP_LEXER_EOF" "MP_LEXER_EOF \<noteq> ucast (b :: u8)"
proof -
  have "unat (ucast b :: u32) < 256" unfolding unat_ucast_u32 by (rule u8_bound)
  then show "ucast b \<noteq> MP_LEXER_EOF" "MP_LEXER_EOF \<noteq> ucast b" by (auto simp: MP_LEXER_EOF_def)
qed

lemma newline_not_EOF [simp]: "MP_LEXER_EOF \<noteq> 10" "10 \<noteq> MP_LEXER_EOF" "MP_LEXER_EOF \<noteq> 13"
  by (simp_all add: MP_LEXER_EOF_def)

lemma weights:
  "present c \<le> 1" "weight c \<le> 6" "3 * present c \<le> weight c" "present MP_LEXER_EOF = 0" "present 10 = 1"
  "weight MP_LEXER_EOF = 0" "weight 10 = 3" "c \<noteq> 10 \<Longrightarrow> weight c = 6 * present c" "c \<noteq> MP_LEXER_EOF \<Longrightarrow> present c = 1"
  by (simp_all add: present_def weight_def)

lemma shift_chars_cases:
  "shift_chars lx = lx\<lparr>
     reader := (if chr2 lx = 13 \<and> tl (reader lx) \<noteq> [] \<and> hd (reader lx) = 10 then drop 2 (reader lx) else tl (reader lx)),
     chr0 := chr1 lx,
     chr1 := (if chr2 lx = 13 then 10 else chr2 lx),
     chr2 := (case reader lx of
         [] \<Rightarrow> if chr2 lx = MP_LEXER_EOF \<or> chr2 lx = 13 \<or> chr2 lx = 10 then MP_LEXER_EOF else 10
       | b # rd \<Rightarrow> if chr2 lx = 13 \<and> b = 10 then (case rd of [] \<Rightarrow> MP_LEXER_EOF | b # _ \<Rightarrow> ucast b) else ucast b)\<rparr>"
proof -
  have "(ucast b :: u32) = 10 \<longleftrightarrow> b = 10" for b :: u8
    unfolding word_unat_eq_iff unat_ucast_u32 by simp
  then show ?thesis
    by (cases "reader lx"; cases "tl (reader lx)")
      (simp_all add: shift_chars_def mp_reader_mem_readbyte_def Let_def)
qed

lemma shift_chars_size: "lex_size (shift_chars lx) \<le> lex_size lx - 1"
proof (cases "reader lx")
  case Nil
  then show ?thesis
    using weights(1,2,3) [of "chr1 lx"] weights(1,2,3,8) [of "chr2 lx"]
    by (cases "chr2 lx = 13"; cases "chr2 lx = 10"; cases "chr2 lx = MP_LEXER_EOF")
      (simp_all add: shift_chars_cases lex_size_def weights)
next
  case (Cons b rd)
  have c: "present (if chr2 lx = 13 then 10 else chr2 lx) = present (chr2 lx)"
    by (simp add: present_def MP_LEXER_EOF_def)
  obtain c2 n where "chr0 (shift_chars lx) = chr1 lx" "present (chr1 (shift_chars lx)) = present (chr2 lx)"
    "chr2 (shift_chars lx) = c2" "length (reader (shift_chars lx)) = n" "n \<le> length rd"
    using c by (simp add: shift_chars_cases Cons)
  then show ?thesis
    using weights(1) [of "chr1 lx"] weights(1,3) [of "chr2 lx"] weights(2) [of c2]
    by (simp add: lex_size_def Cons)
qed

lemma advance_size [simp]:
  "lex_size (advance_position lx) = lex_size lx" "chr0 (advance_position lx) = chr0 lx"
  by (simp_all add: advance_position_def lex_size_def)

lemma next_char_size: "lex_size (next_char lx) \<le> lex_size lx - 1"
  using shift_chars_size [of "advance_position lx"] by (simp add: next_char_def)

lemma lex_size_pos: "\<not> is_end lx \<Longrightarrow> 0 < lex_size lx"
  by (simp add: is_end_def lex_size_def present_def)

lemma next_char_le: "lex_size (next_char lx) \<le> lex_size lx"
  using next_char_size [of lx] by linarith

lemma next_char_less: "\<not> is_end lx \<Longrightarrow> lex_size (next_char lx) < lex_size lx"
  using next_char_size [of lx] lex_size_pos [of lx] by linarith


section \<open>Token text, indentation, tables\<close>

datatype lex_error = NotImplementedError

definition vstr_add_byte :: "u32 \<Rightarrow> lexer \<Rightarrow> lexer" where
  "vstr_add_byte c lx = lx\<lparr>vstr := vstr lx @ [ucast c]\<rparr>"

definition indent_push :: "u32 \<Rightarrow> lexer \<Rightarrow> lexer" where
  "indent_push indent lx = lx\<lparr>indent_level := indent_level lx @ [ucast indent]\<rparr>"

definition indent_top :: "lexer \<Rightarrow> u32" where
  "indent_top lx = ucast (last (indent_level lx))"

definition indent_pop :: "lexer \<Rightarrow> lexer" where
  "indent_pop lx = lx\<lparr>indent_level := butlast (indent_level lx)\<rparr>"

definition tok_enc :: "u32 list" where
  "tok_enc = map ch (''()[]{},;~'' @ '':e='' @ ''<e=c<e='' @ ''>e=c>e='' @ ''*e=c*e='' @ ''+e='' @ ''-e=e>'' @ ''&e=''
     @ ''|e='' @ ''/e=c/e='' @ ''%e='' @ ''^e='' @ ''@e='' @ ''=e='' @ ''!.'')"

definition tok_enc_kind :: "mp_token_kind list" where
  "tok_enc_kind =
    [MP_TOKEN_DEL DEL_PAREN_OPEN, MP_TOKEN_DEL DEL_PAREN_CLOSE,
     MP_TOKEN_DEL DEL_BRACKET_OPEN, MP_TOKEN_DEL DEL_BRACKET_CLOSE,
     MP_TOKEN_DEL DEL_BRACE_OPEN, MP_TOKEN_DEL DEL_BRACE_CLOSE,
     MP_TOKEN_DEL DEL_COMMA, MP_TOKEN_DEL DEL_SEMICOLON, MP_TOKEN_OP OP_TILDE,
     MP_TOKEN_DEL DEL_COLON, MP_TOKEN_OP OP_ASSIGN,
     MP_TOKEN_OP OP_LESS, MP_TOKEN_OP OP_LESS_EQUAL, MP_TOKEN_OP OP_DBL_LESS, MP_TOKEN_DEL DEL_DBL_LESS_EQUAL,
     MP_TOKEN_OP OP_MORE, MP_TOKEN_OP OP_MORE_EQUAL, MP_TOKEN_OP OP_DBL_MORE, MP_TOKEN_DEL DEL_DBL_MORE_EQUAL,
     MP_TOKEN_OP OP_STAR, MP_TOKEN_DEL DEL_STAR_EQUAL, MP_TOKEN_OP OP_DBL_STAR, MP_TOKEN_DEL DEL_DBL_STAR_EQUAL,
     MP_TOKEN_OP OP_PLUS, MP_TOKEN_DEL DEL_PLUS_EQUAL,
     MP_TOKEN_OP OP_MINUS, MP_TOKEN_DEL DEL_MINUS_EQUAL, MP_TOKEN_DEL DEL_MINUS_MORE,
     MP_TOKEN_OP OP_AMPERSAND, MP_TOKEN_DEL DEL_AMPERSAND_EQUAL,
     MP_TOKEN_OP OP_PIPE, MP_TOKEN_DEL DEL_PIPE_EQUAL,
     MP_TOKEN_OP OP_SLASH, MP_TOKEN_DEL DEL_SLASH_EQUAL, MP_TOKEN_OP OP_DBL_SLASH, MP_TOKEN_DEL DEL_DBL_SLASH_EQUAL,
     MP_TOKEN_OP OP_PERCENT, MP_TOKEN_DEL DEL_PERCENT_EQUAL,
     MP_TOKEN_OP OP_CARET, MP_TOKEN_DEL DEL_CARET_EQUAL,
     MP_TOKEN_OP OP_AT, MP_TOKEN_DEL DEL_AT_EQUAL,
     MP_TOKEN_DEL DEL_EQUAL, MP_TOKEN_OP OP_DBL_EQUAL]"

text \<open>The keyword table with, at each index \<open>i\<close>, the kind \<open>MP_TOKEN_KW_FALSE + i\<close>.\<close>

definition tok_kw :: "(u8 list \<times> mp_keyword) list" where
  "tok_kw = map (\<lambda>(s, k). (map of_char s, k))
    [(''False'', KW_FALSE), (''None'', KW_NONE), (''True'', KW_TRUE), (''__debug__'', KW_DEBUG), (''and'', KW_AND),
     (''as'', KW_AS), (''assert'', KW_ASSERT), (''break'', KW_BREAK), (''class'', KW_CLASS), (''continue'', KW_CONTINUE),
     (''def'', KW_DEF), (''del'', KW_DEL), (''elif'', KW_ELIF), (''else'', KW_ELSE), (''except'', KW_EXCEPT),
     (''finally'', KW_FINALLY), (''for'', KW_FOR), (''from'', KW_FROM), (''global'', KW_GLOBAL), (''if'', KW_IF),
     (''import'', KW_IMPORT), (''in'', KW_IN), (''is'', KW_IS), (''lambda'', KW_LAMBDA), (''nonlocal'', KW_NONLOCAL),
     (''not'', KW_NOT), (''or'', KW_OR), (''pass'', KW_PASS), (''raise'', KW_RAISE), (''return'', KW_RETURN),
     (''try'', KW_TRY), (''while'', KW_WHILE), (''with'', KW_WITH), (''yield'', KW_YIELD)]"

section \<open>String literals\<close>

text \<open>\<open>get_hex\<close>: called before the first digit, it stops on the last one, or on the character that is none.\<close>

fun get_hex :: "nat \<Rightarrow> u32 \<Rightarrow> lexer \<Rightarrow> u32 option \<times> lexer" where
  "get_hex 0 num lx = (Some num, lx)"
| "get_hex (Suc num_digits) num lx =
     (let lx = next_char lx; c = chr0 lx
      in if \<not> unichar_isxdigit c then (None, lx)
         else get_hex num_digits (push_bit 4 num + unichar_xdigit_value c) lx)"

fun octal_digits :: "nat \<Rightarrow> u32 \<Rightarrow> lexer \<Rightarrow> u32 \<times> lexer" where
  "octal_digits digits num lx =
     (if is_following_odigit lx \<and> digits - 1 \<noteq> 0
      then (let lx = next_char lx in octal_digits (digits - 1) (num * 8 + (chr0 lx - ch CHR ''0'')) lx)
      else (num, lx))"

declare octal_digits.simps [simp del]

text \<open>The escape after a backslash: the character it stands for (\<open>MP_LEXER_EOF\<close> for none).\<close>

definition escape_char :: "lexer \<Rightarrow> lex_error + (u32 \<times> lexer)" where
  "escape_char lx =
     (let c = chr0 lx
      in if c = ch CHR 0x0A then Inr (MP_LEXER_EOF, lx)
         else if c = ch CHR 0x5C \<or> c = ch CHR 0x27 \<or> c = ch CHR 0x22 then Inr (c, lx)
         else if c = ch CHR ''a'' then Inr (0x07, lx)
         else if c = ch CHR ''b'' then Inr (0x08, lx)
         else if c = ch CHR ''t'' then Inr (0x09, lx)
         else if c = ch CHR ''n'' then Inr (0x0A, lx)
         else if c = ch CHR ''v'' then Inr (0x0B, lx)
         else if c = ch CHR ''f'' then Inr (0x0C, lx)
         else if c = ch CHR ''r'' then Inr (0x0D, lx)
         else if (c = ch CHR ''u'' \<or> c = ch CHR ''U'') \<and> tok_kind lx = MP_TOKEN_BYTES
         then Inr (c, vstr_add_byte (ch CHR 0x5C) lx)
         else if c = ch CHR ''u'' \<or> c = ch CHR ''U'' \<or> c = ch CHR ''x'' then
           (case get_hex (if c = ch CHR ''x'' then 2 else if c = ch CHR ''u'' then 4 else 8) 0 lx of
              (None, lx) \<Rightarrow> Inr (0, lx\<lparr>tok_kind := MP_TOKEN_INVALID\<rparr>)
            | (Some num, lx) \<Rightarrow> Inr (num, lx))
         else if c = ch CHR ''N'' then Inl NotImplementedError
         else if ch CHR ''0'' \<le> c \<and> c \<le> ch CHR ''7'' then Inr (octal_digits 3 (c - ch CHR ''0'') lx)
         else Inr (c, vstr_add_byte (ch CHR 0x5C) lx))"

definition string_escape :: "bool \<Rightarrow> lexer \<Rightarrow> lex_error + lexer" where
  "string_escape is_raw lx =
     (case (if is_raw then Inr (chr0 lx, vstr_add_byte (ch CHR 0x5C) lx) else escape_char lx) of
        Inl e \<Rightarrow> Inl e
      | Inr (c, lx) \<Rightarrow>
          Inr (if c \<noteq> MP_LEXER_EOF
               then (if c < 0x100 then vstr_add_byte c lx else lx\<lparr>tok_kind := MP_TOKEN_INVALID\<rparr>)
               else lx))"

text \<open>One round of the loop over the characters of a literal, with the count of closing quotes.\<close>

definition string_char :: "bool \<Rightarrow> u32 \<Rightarrow> nat \<Rightarrow> lexer \<Rightarrow> lex_error + (nat \<times> lexer)" where
  "string_char is_raw quote_char n_closing lx =
     (if is_char lx quote_char then Inr (n_closing + 1, next_char (vstr_add_byte (chr0 lx) lx))
      else if is_char lx (ch CHR 0x5C) then
        (case string_escape is_raw (next_char lx) of Inl e \<Rightarrow> Inl e | Inr lx \<Rightarrow> Inr (0, next_char lx))
      else Inr (0, next_char (vstr_add_byte (chr0 lx) lx)))"

lemma same_size:
  "lex_size (vstr_add_byte c lx) = lex_size lx" "lex_size (lx\<lparr>tok_kind := k\<rparr>) = lex_size lx"
  "lex_size (lx\<lparr>vstr := v\<rparr>) = lex_size lx" "is_end (vstr_add_byte c lx) = is_end lx"
  "lex_size (lx\<lparr>emit_dent := i\<rparr>) = lex_size lx" "lex_size (lx\<lparr>tok_line := l, tok_column := k1\<rparr>) = lex_size lx"
  "lex_size (lx\<lparr>nested_bracket_level := i\<rparr>) = lex_size lx" "lex_size (lx\<lparr>indent_level := w\<rparr>) = lex_size lx"
  by (simp_all add: lex_size_def vstr_add_byte_def is_end_def)

lemma get_hex_size: "lex_size (snd (get_hex n num lx)) \<le> lex_size lx"
proof (induction n arbitrary: num lx)
  case (Suc n)
  then show ?case using Suc.IH [of _ "next_char lx"] next_char_le [of lx]
    by (auto simp: Let_def intro: order_trans)
qed simp

lemma octal_digits_size: "lex_size (snd (octal_digits n num lx)) \<le> lex_size lx"
proof (induction n num lx rule: octal_digits.induct)
  case (1 digits num lx)
  then show ?case using next_char_le [of lx] octal_digits.simps [of digits num lx]
    by (auto simp: Let_def intro: order_trans)
qed

lemma escape_char_size: "escape_char lx = Inr (c, lx') \<Longrightarrow> lex_size lx' \<le> lex_size lx"
  using get_hex_size [of _ 0 lx] octal_digits_size [of 3 "chr0 lx - ch CHR ''0''" lx]
  by (auto simp: escape_char_def Let_def same_size split: if_splits prod.splits option.splits) (metis snd_conv)+

lemma string_escape_size: "string_escape raw lx = Inr lx' \<Longrightarrow> lex_size lx' \<le> lex_size lx"
  by (auto simp: string_escape_def same_size split: if_splits sum.splits prod.splits dest: escape_char_size)

lemma string_char_size:
  assumes "string_char raw q n lx = Inr (m, lx')" "\<not> is_end lx"
  shows "lex_size lx' < lex_size lx"
proof -
  have "lex_size (next_char lx1) < lex_size lx" if "string_escape raw (next_char lx) = Inr lx1" for lx1
    using string_escape_size [OF that] next_char_le [of lx1] next_char_less [OF assms(2)] by linarith
  moreover have "lex_size (next_char (vstr_add_byte c lx)) < lex_size lx" for c
    using next_char_less [of "vstr_add_byte c lx"] assms(2) by (simp add: same_size)
  ultimately show ?thesis using assms(1) by (auto simp: string_char_def split: if_splits sum.splits)
qed

function string_chars :: "bool \<Rightarrow> u32 \<Rightarrow> nat \<Rightarrow> nat \<Rightarrow> lexer \<Rightarrow> lex_error + (nat \<times> lexer)" where
  "string_chars is_raw quote_char num_quotes n_closing lx =
     (if \<not> is_end lx \<and> (1 < num_quotes \<or> \<not> is_char lx (ch CHR 0x0A)) \<and> n_closing < num_quotes
      then (case string_char is_raw quote_char n_closing lx of
              Inl e \<Rightarrow> Inl e
            | Inr (n_closing, lx) \<Rightarrow> string_chars is_raw quote_char num_quotes n_closing lx)
      else Inr (n_closing, lx))"
  by pat_completeness auto
termination
  by (relation "measure (\<lambda>(r, q, k, n, lx). lex_size lx)") (auto dest: string_char_size)

declare string_chars.simps [simp del]

definition parse_string_literal :: "bool \<Rightarrow> lexer \<Rightarrow> lex_error + lexer" where
  "parse_string_literal is_raw lx =
     (let quote_char = (if is_char lx (ch CHR 0x22) then ch CHR 0x22 else ch CHR 0x27);
          lx = next_char lx;
          (num_quotes, lx) =
            (if is_char_and lx quote_char quote_char then (3, next_char (next_char lx)) else (1, lx))
      in case string_chars is_raw quote_char num_quotes 0 lx of
           Inl e \<Rightarrow> Inl e
         | Inr (n_closing, lx) \<Rightarrow>
             let lx = (if n_closing < num_quotes then lx\<lparr>tok_kind := MP_TOKEN_LONELY_STRING_OPEN\<rparr> else lx)
             in Inr (lx\<lparr>vstr := take (length (vstr lx) - n_closing) (vstr lx)\<rparr>))"

section \<open>White space\<close>

function skip_comment :: "lexer \<Rightarrow> lexer" where
  "skip_comment lx = (if \<not> is_end lx \<and> \<not> is_physical_newline lx then skip_comment (next_char lx) else lx)"
  by pat_completeness auto
termination
  by (relation "measure lex_size") (auto intro: next_char_less)

declare skip_comment.simps [simp del]

lemma skip_comment_size: "lex_size (skip_comment lx) \<le> lex_size lx"
proof (induction lx rule: skip_comment.induct)
  case (1 lx)
  then show ?case using next_char_le [of lx] skip_comment.simps [of lx] by (auto intro: order_trans)
qed

function skip_whitespace :: "bool \<Rightarrow> lexer \<Rightarrow> bool \<times> lexer" where
  "skip_whitespace stop_at_newline lx =
     (if is_end lx then (False, lx)
      else if is_physical_newline lx then
        (if stop_at_newline \<and> nested_bracket_level lx = 0 then (True, lx)
         else skip_whitespace stop_at_newline (next_char lx))
      else if is_whitespace lx then skip_whitespace stop_at_newline (next_char lx)
      else if is_char lx (ch CHR ''#'') then skip_whitespace stop_at_newline (skip_comment (next_char lx))
      else if is_char_and lx (ch CHR 0x5C) (ch CHR 0x0A)
      then skip_whitespace stop_at_newline (next_char (next_char lx))
      else (False, lx))"
  by pat_completeness auto
termination
proof (relation "measure (\<lambda>(s, lx). lex_size lx)")
  fix stop :: bool and lx assume "\<not> is_end lx"
  then have "lex_size (next_char lx) < lex_size lx" by (rule next_char_less)
  moreover have "lex_size (skip_comment (next_char lx)) \<le> lex_size (next_char lx)"
    "lex_size (next_char (next_char lx)) \<le> lex_size (next_char lx)"
    by (rule skip_comment_size next_char_le)+
  ultimately show "((stop, skip_comment (next_char lx)), stop, lx) \<in> measure (\<lambda>(s, lx). lex_size lx)"
    "((stop, next_char (next_char lx)), stop, lx) \<in> measure (\<lambda>(s, lx). lex_size lx)"
    by simp_all
qed (auto intro: next_char_less)

declare skip_whitespace.simps [simp del]


section \<open>Runs of characters\<close>

text \<open>The type codes before a literal: raw or not, the kind, the number of characters.\<close>

definition string_prefix :: "lexer \<Rightarrow> bool \<times> mp_token_kind \<times> nat" where
  "string_prefix lx =
     (if is_char lx (ch CHR ''u'') then (False, MP_TOKEN_STRING, 1)
      else if is_char lx (ch CHR ''b'') then
        (if is_char_following lx (ch CHR ''r'') then (True, MP_TOKEN_BYTES, 2) else (False, MP_TOKEN_BYTES, 1))
      else if is_char lx (ch CHR ''r'') then
        (if is_char_following lx (ch CHR ''b'') then (True, MP_TOKEN_BYTES, 2) else (True, MP_TOKEN_STRING, 1))
      else (False, MP_TOKEN_STRING, 0))"

definition skip_prefix :: "nat \<Rightarrow> lexer \<Rightarrow> lexer" where
  "skip_prefix n_char lx =
     (if n_char \<noteq> 0 then (let lx = next_char lx in if n_char = 2 then next_char lx else lx) else lx)"

lemma string_chars_size:
  "string_chars raw q k n lx = Inr (m, lx') \<Longrightarrow> lex_size lx' \<le> lex_size lx"
proof (induction raw q k n lx rule: string_chars.induct)
  case (1 raw q k n lx)
  show ?case
  proof (cases "\<not> is_end lx \<and> (1 < k \<or> \<not> is_char lx (ch CHR 0x0A)) \<and> n < k")
    case True
    with 1(2) obtain n1 lx1 where s: "string_char raw q n lx = Inr (n1, lx1)"
      and "string_chars raw q k n1 lx1 = Inr (m, lx')"
      by (subst (asm) string_chars.simps) (auto split: sum.splits)
    then have "lex_size lx' \<le> lex_size lx1" using 1(1) [OF True s refl] by blast
    then show ?thesis using string_char_size [OF s] True by linarith
  next
    case False
    then show ?thesis using 1(2) by (subst (asm) string_chars.simps) auto
  qed
qed

lemma parse_string_literal_size:
  assumes "parse_string_literal raw lx = Inr lx'"
  shows "lex_size lx' \<le> lex_size lx - 1"
proof -
  let ?q = "if is_char lx (ch CHR 0x22) then ch CHR 0x22 else ch CHR 0x27"
  let ?lx = "if is_char_and (next_char lx) ?q ?q then next_char (next_char (next_char lx)) else next_char lx"
  have "lex_size ?lx \<le> lex_size lx - 1"
    using next_char_size [of lx] next_char_le [of "next_char lx"] next_char_le [of "next_char (next_char lx)"]
    by (auto intro: order_trans)
  moreover obtain k n lx1 where "string_chars raw ?q k 0 ?lx = Inr (n, lx1)" "lex_size lx' = lex_size lx1"
    using assms(1) by (auto simp: parse_string_literal_def Let_def same_size split: if_splits sum.splits)
  ultimately show ?thesis using string_chars_size by fastforce
qed

lemma string_or_bytes_not_end: "is_string_or_bytes lx \<Longrightarrow> \<not> is_end lx"
  by (auto simp: is_string_or_bytes_def is_char_or_def is_char_or3_def is_char_and_def is_end_def MP_LEXER_EOF_def)

lemma skip_prefix_size: "lex_size (skip_prefix n lx) \<le> lex_size lx"
  using next_char_le [of lx] next_char_le [of "next_char lx"] by (simp add: skip_prefix_def Let_def)

lemma skip_whitespace_size: "lex_size (snd (skip_whitespace stop lx)) \<le> lex_size lx"
proof (induction stop lx rule: skip_whitespace.induct)
  case (1 stop lx)
  then show ?case
    using next_char_le [of lx] next_char_le [of "next_char lx"] skip_comment_size [of "next_char lx"]
      skip_whitespace.simps [of stop lx]
    by (auto intro: order_trans)
qed

text \<open>The current literal of a run of adjacent ones, and the run.\<close>

definition string_literal :: "bool \<Rightarrow> nat \<Rightarrow> lexer \<Rightarrow> lex_error + lexer" where
  "string_literal is_raw n_char lx =
     (case parse_string_literal is_raw (skip_prefix n_char lx) of
        Inl e \<Rightarrow> Inl e
      | Inr lx \<Rightarrow> Inr (snd (skip_whitespace True lx)))"

lemma string_literal_size:
  assumes "string_literal raw n lx = Inr lx'"
  shows "lex_size lx' \<le> lex_size lx - 1"
proof -
  obtain lx1 where p: "parse_string_literal raw (skip_prefix n lx) = Inr lx1" and "lx' = snd (skip_whitespace True lx1)"
    using assms(1) by (auto simp: string_literal_def split: sum.splits)
  then have "lex_size lx' \<le> lex_size lx1" using skip_whitespace_size by blast
  also have "\<dots> \<le> lex_size (skip_prefix n lx) - 1" by (rule parse_string_literal_size [OF p])
  finally show ?thesis using skip_prefix_size [of n lx] by linarith
qed

function string_run :: "lexer \<Rightarrow> lex_error + lexer" where
  "string_run lx =
     (let (is_raw, kind, n_char) = string_prefix lx
      in if tok_kind lx \<noteq> MP_TOKEN_END \<and> tok_kind lx \<noteq> kind then Inr lx
         else
           let lx = (if tok_kind lx = MP_TOKEN_END then lx\<lparr>tok_kind := kind\<rparr> else lx)
           in case string_literal is_raw n_char lx of
                Inl e \<Rightarrow> Inl e
              | Inr lx1 \<Rightarrow> if is_string_or_bytes lx1 then string_run lx1 else Inr lx1)"
  by pat_completeness auto
termination
proof (relation "measure lex_size")
  fix lx :: lexer and x is_raw y kind n_char lx' lx1
  assume "lx' = (if tok_kind lx = MP_TOKEN_END then lx\<lparr>tok_kind := kind\<rparr> else lx)"
    and lit: "string_literal is_raw n_char lx' = Inr lx1" and "is_string_or_bytes lx1"
  then have "lex_size lx' = lex_size lx" "0 < lex_size lx1"
    by (simp_all add: same_size lex_size_pos string_or_bytes_not_end)
  with string_literal_size [OF lit] show "(lx1, lx) \<in> measure lex_size" by simp
qed simp

declare string_run.simps [simp del]

function name_tail :: "lexer \<Rightarrow> lexer" where
  "name_tail lx =
     (if \<not> is_end lx \<and> is_tail_of_identifier lx then name_tail (next_char (vstr_add_byte (chr0 lx) lx)) else lx)"
  by pat_completeness auto
termination
  by (relation "measure lex_size") (auto simp: same_size intro!: next_char_less [of "vstr_add_byte _ _", unfolded same_size])

declare name_tail.simps [simp del]

fun keyword_search :: "u8 list \<Rightarrow> (u8 list \<times> mp_keyword) list \<Rightarrow> mp_keyword option" where
  "keyword_search s [] = None"
| "keyword_search s ((kw, k) # kws) =
     (if str_diff s kw = 0 then Some k else if str_diff s kw < 0 then None else keyword_search s kws)"


text \<open>The exponent mark of a number with the sign after it, and any other character of a number.\<close>

definition number_exponent :: "lexer \<Rightarrow> lexer" where
  "number_exponent lx =
     (let lx = next_char (vstr_add_byte (ch CHR ''e'') (lx\<lparr>tok_kind := MP_TOKEN_FLOAT_OR_IMAG\<rparr>))
      in if is_char lx (ch CHR ''+'') \<or> is_char lx (ch CHR ''-'') then next_char (vstr_add_byte (chr0 lx) lx) else lx)"

definition number_char :: "lexer \<Rightarrow> lexer" where
  "number_char lx =
     (let lx = (if is_char_or3 lx (ch CHR ''.'') (ch CHR ''j'') (ch CHR ''J'')
                then lx\<lparr>tok_kind := MP_TOKEN_FLOAT_OR_IMAG\<rparr> else lx)
      in next_char (vstr_add_byte (chr0 lx) lx))"

lemma number_step_size: "lex_size (number_exponent lx) \<le> lex_size lx - 1" "lex_size (number_char lx) \<le> lex_size lx - 1"
proof -
  note sz = next_char_size [of "vstr_add_byte _ _", unfolded same_size]
  show "lex_size (number_char lx) \<le> lex_size lx - 1"
    using sz [of _ lx] sz [of _ "lx\<lparr>tok_kind := MP_TOKEN_FLOAT_OR_IMAG\<rparr>"]
    by (auto simp: number_char_def Let_def same_size)
  define lx1 where "lx1 = next_char (vstr_add_byte (ch CHR ''e'') (lx\<lparr>tok_kind := MP_TOKEN_FLOAT_OR_IMAG\<rparr>))"
  have "lex_size lx1 \<le> lex_size lx - 1"
    using sz [of _ "lx\<lparr>tok_kind := MP_TOKEN_FLOAT_OR_IMAG\<rparr>"] unfolding lx1_def by (simp add: same_size)
  moreover have "lex_size (next_char (vstr_add_byte (chr0 lx1) lx1)) \<le> lex_size lx1"
    using sz [of "chr0 lx1" lx1] by linarith
  moreover have "number_exponent lx = lx1 \<or> number_exponent lx = next_char (vstr_add_byte (chr0 lx1) lx1)"
    unfolding number_exponent_def Let_def lx1_def by (simp split: if_split)
  ultimately show "lex_size (number_exponent lx) \<le> lex_size lx - 1" by auto
qed

function number_tail :: "bool \<Rightarrow> lexer \<Rightarrow> lexer" where
  "number_tail forced_integer lx =
     (if is_end lx then lx
      else if \<not> forced_integer \<and> is_char_or lx (ch CHR ''e'') (ch CHR ''E'')
      then number_tail forced_integer (number_exponent lx)
      else if is_letter lx \<or> is_digit lx \<or> is_char lx (ch CHR ''.'')
      then number_tail forced_integer (number_char lx)
      else if is_char lx (ch CHR ''_'') then number_tail forced_integer (next_char lx)
      else lx)"
  by pat_completeness auto
termination
proof (relation "measure (\<lambda>(f, lx). lex_size lx)")
  fix f :: bool and lx :: lexer
  assume "\<not> is_end lx"
  then have "0 < lex_size lx" by (rule lex_size_pos)
  then show "((f, number_exponent lx), f, lx) \<in> measure (\<lambda>(f, lx). lex_size lx)"
    "((f, number_char lx), f, lx) \<in> measure (\<lambda>(f, lx). lex_size lx)"
    "((f, next_char lx), f, lx) \<in> measure (\<lambda>(f, lx). lex_size lx)"
    using number_step_size [of lx] next_char_size [of lx] by simp_all
qed simp

declare number_tail.simps [simp del]

section \<open>Operators\<close>

text \<open>The scan of the encoded table: the entry found (empty if none) and its index.\<close>

fun tok_enc_find :: "u32 \<Rightarrow> u32 list \<Rightarrow> nat \<Rightarrow> u32 list \<times> nat" where
  "tok_enc_find c [] tok_enc_index = ([], tok_enc_index)"
| "tok_enc_find c (t # ts) tok_enc_index =
     (if c = t then (t # ts, tok_enc_index)
      else tok_enc_find c (if t = ch CHR ''e'' \<or> t = ch CHR ''c'' then tl ts else ts) (tok_enc_index + 1))"

fun tok_enc_match :: "u32 list \<Rightarrow> nat \<Rightarrow> nat \<Rightarrow> lexer \<Rightarrow> nat \<times> lexer" where
  "tok_enc_match (t # t1 # ts) t_index tok_enc_index lx =
     (if t = ch CHR ''c'' \<or> t = ch CHR ''e'' then
        (let t_index = t_index + 1
         in if is_char lx t1 then
              (let lx = next_char lx
               in if t = ch CHR ''e'' then (t_index, lx) else tok_enc_match ts t_index t_index lx)
            else if t = ch CHR ''c'' then (tok_enc_index, lx)
            else tok_enc_match ts t_index tok_enc_index lx)
      else (tok_enc_index, lx))"
| "tok_enc_match t t_index tok_enc_index lx = (tok_enc_index, lx)"

definition lex_operator :: "lexer \<Rightarrow> lexer" where
  "lex_operator lx =
     (let (t, tok_enc_index) = tok_enc_find (chr0 lx) tok_enc 0;
          lx = next_char lx
      in if t = [] then lx\<lparr>tok_kind := MP_TOKEN_INVALID\<rparr>
         else if hd t = ch CHR ''!'' then
           (if is_char lx (ch CHR ''='') then (next_char lx)\<lparr>tok_kind := MP_TOKEN_OP OP_NOT_EQUAL\<rparr>
            else lx\<lparr>tok_kind := MP_TOKEN_INVALID\<rparr>)
         else if hd t = ch CHR ''.'' then
           (if is_char_and lx (ch CHR ''.'') (ch CHR ''.'')
            then (next_char (next_char lx))\<lparr>tok_kind := MP_TOKEN_ELLIPSIS\<rparr>
            else lx\<lparr>tok_kind := MP_TOKEN_DEL DEL_PERIOD\<rparr>)
         else
           (let (tok_enc_index, lx) = tok_enc_match (tl t) tok_enc_index tok_enc_index lx;
                kind = tok_enc_kind ! tok_enc_index;
                lx = lx\<lparr>tok_kind := kind\<rparr>
            in if kind \<in> {MP_TOKEN_DEL DEL_PAREN_OPEN, MP_TOKEN_DEL DEL_BRACKET_OPEN, MP_TOKEN_DEL DEL_BRACE_OPEN}
               then lx\<lparr>nested_bracket_level := nested_bracket_level lx + 1\<rparr>
               else if kind \<in> {MP_TOKEN_DEL DEL_PAREN_CLOSE, MP_TOKEN_DEL DEL_BRACKET_CLOSE, MP_TOKEN_DEL DEL_BRACE_CLOSE}
               then lx\<lparr>nested_bracket_level := nested_bracket_level lx - 1\<rparr>
               else lx))"

section \<open>The next token\<close>

text \<open>Popping the levels deeper than the new line, each a pending dedent; the bottom level is 0.\<close>

function indent_unwind :: "u32 \<Rightarrow> lexer \<Rightarrow> lexer" where
  "indent_unwind num_spaces lx =
     (if num_spaces < indent_top lx \<and> indent_level lx \<noteq> []
      then indent_unwind num_spaces ((indent_pop lx)\<lparr>emit_dent := emit_dent lx - 1\<rparr>)
      else lx)"
  by pat_completeness auto
termination
  by (relation "measure (\<lambda>(n, lx). length (indent_level lx))") (auto simp: indent_pop_def)

declare indent_unwind.simps [simp del]

definition lex_newline :: "lexer \<Rightarrow> lexer" where
  "lex_newline lx =
     (let lx = (snd (skip_whitespace False lx))\<lparr>tok_kind := MP_TOKEN_NEWLINE\<rparr>;
          num_spaces = column lx - 1
      in if num_spaces = indent_top lx then lx
         else if indent_top lx < num_spaces
         then (indent_push num_spaces lx)\<lparr>emit_dent := emit_dent lx + 1\<rparr>
         else
           (let lx = indent_unwind num_spaces lx
            in if num_spaces \<noteq> indent_top lx then lx\<lparr>tok_kind := MP_TOKEN_DEDENT_MISMATCH\<rparr> else lx))"

text \<open>Names; \<open>mp_optimise_value\<close> is the interpreter's optimisation level, which decides \<open>__debug__\<close>.\<close>

definition lex_name :: "u32 \<Rightarrow> lexer \<Rightarrow> lexer" where
  "lex_name mp_optimise_value lx =
     (let lx = name_tail (next_char (vstr_add_byte (chr0 lx) (lx\<lparr>tok_kind := MP_TOKEN_NAME\<rparr>)))
      in case keyword_search (vstr lx) tok_kw of
           None \<Rightarrow> lx
         | Some k \<Rightarrow> lx\<lparr>tok_kind := MP_TOKEN_KW
             (if k = KW_DEBUG then (if mp_optimise_value = 0 then KW_TRUE else KW_FALSE) else k)\<rparr>)"

definition lex_number :: "lexer \<Rightarrow> lexer" where
  "lex_number lx =
     (let forced_integer = (\<not> is_char lx (ch CHR ''.'') \<and> is_char lx (ch CHR ''0'') \<and> is_following_base_char lx);
          lx = lx\<lparr>tok_kind := (if is_char lx (ch CHR ''.'') then MP_TOKEN_FLOAT_OR_IMAG else MP_TOKEN_INTEGER)\<rparr>
      in number_tail forced_integer (next_char (vstr_add_byte (chr0 lx) lx)))"

definition mp_lexer_to_next :: "u32 \<Rightarrow> lexer \<Rightarrow> lex_error + lexer" where
  "mp_lexer_to_next mp_optimise_value lx =
     (let (had_physical_newline, lx) = skip_whitespace True (lx\<lparr>vstr := []\<rparr>);
          lx = lx\<lparr>tok_line := line lx, tok_column := column lx\<rparr>
      in if emit_dent lx < 0 then Inr (lx\<lparr>tok_kind := MP_TOKEN_DEDENT, emit_dent := emit_dent lx + 1\<rparr>)
         else if 0 < emit_dent lx then Inr (lx\<lparr>tok_kind := MP_TOKEN_INDENT, emit_dent := emit_dent lx - 1\<rparr>)
         else if had_physical_newline then Inr (lex_newline lx)
         else if is_end lx then Inr (lx\<lparr>tok_kind := MP_TOKEN_END\<rparr>)
         else if is_string_or_bytes lx then string_run (lx\<lparr>tok_kind := MP_TOKEN_END\<rparr>)
         else if is_head_of_identifier lx then Inr (lex_name mp_optimise_value lx)
         else if is_digit lx \<or> is_char lx (ch CHR ''.'') \<and> is_following_digit lx then Inr (lex_number lx)
         else Inr (lex_operator lx))"

definition lexer_start :: "u8 list \<Rightarrow> lexer" where
  "lexer_start rd = \<lparr>reader = rd, chr0 = 0, chr1 = 0, chr2 = 0, line = 1, column = - 2, emit_dent = 0,
     nested_bracket_level = 0, indent_level = [0], tok_line = 0, tok_column = 0, tok_kind = MP_TOKEN_END, vstr = []\<rparr>"

definition mp_lexer_new :: "u32 \<Rightarrow> u8 list \<Rightarrow> lex_error + lexer" where
  "mp_lexer_new mp_optimise_value rd =
     (case mp_lexer_to_next mp_optimise_value (next_char (next_char (next_char (lexer_start rd)))) of
        Inl e \<Rightarrow> Inl e
      | Inr lx \<Rightarrow> Inr (if tok_column lx \<noteq> 1 \<and> tok_kind lx \<noteq> MP_TOKEN_NEWLINE then lx\<lparr>tok_kind := MP_TOKEN_INDENT\<rparr> else lx))"

end
