(* ===== verification/LexText.thy ===== *)
theory LexText
  imports Lexer "HOL-Library.Sublist"
begin

text \<open>
  The lexer seen from outside: the characters it has still to read, with line ends normalised, and
  what every operation does to them.  \<open>reads lx cs\<close> says that \<open>cs\<close> is what is left; \<open>advances\<close> is the
  relation between the states before and after the scanning of one token.
\<close>

section \<open>The characters left to read\<close>

fun cook :: "u32 \<Rightarrow> u32 list \<Rightarrow> u32 list" where
  "cook prev [] = (if prev = 10 then [] else [10])"
| "cook prev (c # cs) =
     (if c = 13 then 10 # (case cs of [] \<Rightarrow> [] | d # ds \<Rightarrow> cook 10 (if d = 10 then ds else cs)) else c # cook c cs)"

definition pending :: "lexer \<Rightarrow> u32 list" where
  "pending lx =
     (if chr0 lx = MP_LEXER_EOF then []
      else chr0 lx # (if chr1 lx = MP_LEXER_EOF then []
        else chr1 lx # (if chr2 lx = MP_LEXER_EOF then [] else cook (chr1 lx) (chr2 lx # map ucast (reader lx)))))"

definition lex_inv :: "lexer \<Rightarrow> bool" where
  "lex_inv lx \<longleftrightarrow> (chr0 lx = MP_LEXER_EOF \<longrightarrow> chr1 lx = MP_LEXER_EOF) \<and> (chr1 lx = MP_LEXER_EOF \<longrightarrow> chr2 lx = MP_LEXER_EOF)
     \<and> (chr2 lx = MP_LEXER_EOF \<longrightarrow> reader lx = [])
     \<and> (chr1 lx = MP_LEXER_EOF \<longrightarrow> chr0 lx = MP_LEXER_EOF \<or> chr0 lx = 10)
     \<and> (chr2 lx = MP_LEXER_EOF \<longrightarrow> chr1 lx = MP_LEXER_EOF \<or> chr1 lx = 10)
     \<and> (\<forall>c \<in> {chr0 lx, chr1 lx, chr2 lx}. c < 256 \<or> c = MP_LEXER_EOF)"

definition reads :: "lexer \<Rightarrow> u32 list \<Rightarrow> bool" where
  "reads lx cs \<longleftrightarrow> lex_inv lx \<and> pending lx = cs"

text \<open>The fields scanning does not look at.\<close>

lemma advance_position_fields [simp]:
  "reader (advance_position lx) = reader lx" "chr0 (advance_position lx) = chr0 lx" "chr1 (advance_position lx) = chr1 lx"
  "chr2 (advance_position lx) = chr2 lx" "emit_dent (advance_position lx) = emit_dent lx"
  "nested_bracket_level (advance_position lx) = nested_bracket_level lx" "indent_level (advance_position lx) = indent_level lx"
  "tok_kind (advance_position lx) = tok_kind lx" "vstr (advance_position lx) = vstr lx"
  "tok_line (advance_position lx) = tok_line lx" "tok_column (advance_position lx) = tok_column lx"
  "line (advance_position lx) = (if chr0 lx = 10 then line lx + 1 else line lx)"
  by (simp_all add: advance_position_def)

lemma next_char_fields [simp]:
  "emit_dent (next_char lx) = emit_dent lx" "nested_bracket_level (next_char lx) = nested_bracket_level lx"
  "indent_level (next_char lx) = indent_level lx" "tok_kind (next_char lx) = tok_kind lx" "vstr (next_char lx) = vstr lx"
  "line (next_char lx) = (if chr0 lx = 10 then line lx + 1 else line lx)" "chr0 (next_char lx) = chr1 lx"
  "tok_line (next_char lx) = tok_line lx" "tok_column (next_char lx) = tok_column lx"
  by (simp_all add: next_char_def shift_chars_cases)

lemma vstr_add_byte_fields [simp]:
  "reader (vstr_add_byte c lx) = reader lx" "chr0 (vstr_add_byte c lx) = chr0 lx" "chr1 (vstr_add_byte c lx) = chr1 lx"
  "chr2 (vstr_add_byte c lx) = chr2 lx" "emit_dent (vstr_add_byte c lx) = emit_dent lx"
  "nested_bracket_level (vstr_add_byte c lx) = nested_bracket_level lx" "indent_level (vstr_add_byte c lx) = indent_level lx"
  "tok_kind (vstr_add_byte c lx) = tok_kind lx" "vstr (vstr_add_byte c lx) = vstr lx @ [ucast c]"
  "tok_line (vstr_add_byte c lx) = tok_line lx" "tok_column (vstr_add_byte c lx) = tok_column lx"
  "line (vstr_add_byte c lx) = line lx" "column (vstr_add_byte c lx) = column lx"
  by (simp_all add: vstr_add_byte_def)

lemma reads_updates [simp]:
  "reads (vstr_add_byte c lx) cs = reads lx cs" "reads (lx\<lparr>vstr := v\<rparr>) cs = reads lx cs"
  "reads (lx\<lparr>tok_kind := k\<rparr>) cs = reads lx cs" "reads (lx\<lparr>emit_dent := i\<rparr>) cs = reads lx cs"
  "reads (lx\<lparr>nested_bracket_level := i\<rparr>) cs = reads lx cs" "reads (lx\<lparr>indent_level := w\<rparr>) cs = reads lx cs"
  "reads (lx\<lparr>tok_line := l, tok_column := k1\<rparr>) cs = reads lx cs"
  by (simp_all add: reads_def pending_def lex_inv_def vstr_add_byte_def)

lemma cook_nonempty: "cook p cs = [] \<longleftrightarrow> cs = [] \<and> p = 10"
  by (cases cs) auto

lemma byte_ucast: "(ucast (b :: u8) :: u32) < 256" "(ucast b :: u32) = 10 \<longleftrightarrow> b = 10" "(ucast b :: u32) = 13 \<longleftrightarrow> b = 13"
  by (simp_all add: word_less_nat_alt word_unat_eq_iff [where 'a = 32] word_unat_eq_iff [where 'a = 8] unat_ucast_u32)

lemma shift_reads:
  assumes "lex_inv lx"
  shows "lex_inv (shift_chars lx)" "pending (shift_chars lx) = tl (pending lx)"
proof -
  have E: "MP_LEXER_EOF \<noteq> 13" "\<not> MP_LEXER_EOF < 256" "(10 :: u32) < 256" by (simp_all add: MP_LEXER_EOF_def)
  show "lex_inv (shift_chars lx)"
    using assms E by (cases "reader lx"; cases "tl (reader lx)")
      (auto simp: lex_inv_def shift_chars_cases byte_ucast)
  show "pending (shift_chars lx) = tl (pending lx)"
  proof (cases "reader lx" rule: remdups_adj.cases)
    case (3 x y xs)
    then show ?thesis
      using assms E by (cases xs) (simp_all add: lex_inv_def pending_def shift_chars_cases byte_ucast)
  qed (use assms E in \<open>auto simp: lex_inv_def pending_def shift_chars_cases byte_ucast\<close>)
qed

lemma advance_reads [simp]: "lex_inv (advance_position lx) = lex_inv lx" "pending (advance_position lx) = pending lx"
  by (simp_all add: lex_inv_def pending_def)

lemma next_char_reads: "reads lx cs \<Longrightarrow> reads (next_char lx) (tl cs)"
  using shift_reads [of "advance_position lx"] by (simp add: reads_def next_char_def)

lemma next_char_Cons: "reads lx (c # cs) \<Longrightarrow> reads (next_char lx) cs"
  using next_char_reads by fastforce

lemma reads_Nil: "reads lx [] \<Longrightarrow> chr0 lx = MP_LEXER_EOF"
  by (auto simp: reads_def pending_def split: if_splits)

lemma reads_Cons:
  assumes "reads lx (c # cs)"
  shows "chr0 lx = c" "c \<noteq> MP_LEXER_EOF" "c < 256"
  using assms by (auto simp: reads_def pending_def lex_inv_def split: if_splits)

lemma reads_Cons2: "reads lx (c # d # cs) \<Longrightarrow> chr1 lx = d"
  by (auto simp: reads_def pending_def split: if_splits)

lemma reads_single: "reads lx [c] \<Longrightarrow> chr1 lx = MP_LEXER_EOF \<and> c = 10"
  by (auto simp: reads_def pending_def lex_inv_def cook_nonempty split: if_splits)

lemma reads_is_end: "reads lx cs \<Longrightarrow> is_end lx \<longleftrightarrow> cs = []"
  by (cases cs) (auto simp: is_end_def dest: reads_Nil reads_Cons(1,2))

text \<open>The lexer never meets the end of input in the middle of a line: a newline is always supplied.\<close>

lemma reads_last: "reads lx cs \<Longrightarrow> cs \<noteq> [] \<Longrightarrow> last cs = 10"
proof -
  have cook: "cook p ds \<noteq> [] \<Longrightarrow> last (cook p ds) = 10" for p ds
  proof (induction p ds rule: cook.induct)
    case (2 prev c cs)
    have "last (cook c cs) = 10" if "c \<noteq> 13" "cook c cs \<noteq> []" using 2 that by simp
    moreover have "cook c cs = [] \<longleftrightarrow> cs = [] \<and> c = 10" by (rule cook_nonempty)
    moreover have "last (case cs of [] \<Rightarrow> [] | d # ds \<Rightarrow> cook 10 (if d = 10 then ds else cs)) = 10"
      if "c = 13" "(case cs of [] \<Rightarrow> [] | d # ds \<Rightarrow> cook 10 (if d = 10 then ds else cs)) \<noteq> []"
      using 2(1) [OF that(1)] that(2) by (cases cs) auto
    ultimately show ?case by auto
  qed (simp split: if_splits)
  show "reads lx cs \<Longrightarrow> cs \<noteq> [] \<Longrightarrow> last cs = 10"
    using cook [of "chr1 lx" "chr2 lx # map ucast (reader lx)"]
    by (auto simp: reads_def pending_def lex_inv_def cook_nonempty split: if_splits)
qed

section \<open>What a token's scan can change\<close>

inductive advances :: "lexer \<Rightarrow> lexer \<Rightarrow> bool" where
  here: "advances lx lx"
| next_char: "advances lx lx1 \<Longrightarrow> advances lx (next_char lx1)"
| add_byte: "advances lx lx1 \<Longrightarrow> advances lx (vstr_add_byte c lx1)"
| set_text: "advances lx lx1 \<Longrightarrow> advances lx (lx1\<lparr>vstr := v\<rparr>)"
| set_kind: "advances lx lx1 \<Longrightarrow> k \<notin> {MP_TOKEN_INDENT, MP_TOKEN_DEDENT} \<Longrightarrow> advances lx (lx1\<lparr>tok_kind := k\<rparr>)"
| nesting: "advances lx lx1 \<Longrightarrow> advances lx (lx1\<lparr>nested_bracket_level := i\<rparr>)"

lemma advances_trans: "advances lx1 lx2 \<Longrightarrow> advances lx lx1 \<Longrightarrow> advances lx lx2"
  by (induction rule: advances.induct) (auto intro: advances.intros)

lemmas advances_start = advances_trans [OF _ advances.next_char [OF advances.here]]

lemmas advances_start2 = advances_start [OF advances_start]

lemma advances_keeps:
  "advances lx lx' \<Longrightarrow> emit_dent lx' = emit_dent lx \<and> indent_level lx' = indent_level lx
     \<and> tok_line lx' = tok_line lx \<and> tok_column lx' = tok_column lx \<and> lex_size lx' \<le> lex_size lx
     \<and> (tok_kind lx' = tok_kind lx \<or> tok_kind lx' \<notin> {MP_TOKEN_INDENT, MP_TOKEN_DEDENT})"
proof (induction rule: advances.induct)
  case (next_char lx lx1)
  then show ?case using next_char_le [of lx1] by auto
qed (auto simp: same_size)

text \<open>The line counter counts the newlines consumed.\<close>

lemma advances_reads:
  "advances lx lx' \<Longrightarrow> reads lx cs \<Longrightarrow>
     \<exists>ds. reads lx' ds \<and> suffix ds cs \<and> line lx' + of_nat (count_list ds 10) = line lx + of_nat (count_list cs 10)"
proof (induction rule: advances.induct)
  case (next_char lx lx1)
  then obtain ds where ds: "reads lx1 ds" "suffix ds cs" "line lx1 + of_nat (count_list ds 10) = line lx + of_nat (count_list cs 10)"
    by blast
  then have "reads (next_char lx1) (tl ds)" "suffix (tl ds) cs" by (auto intro: next_char_reads suffix_order.trans suffix_tl)
  moreover have "line (next_char lx1) + of_nat (count_list (tl ds) 10) = line lx1 + of_nat (count_list ds 10)"
    using ds(1) reads_Cons(1) [of lx1 "hd ds" "tl ds"] reads_Nil [of lx1] by (cases ds) auto
  ultimately show ?case using ds(3) by auto
qed auto

lemma skip_comment_advances: "advances lx (skip_comment lx)"
proof (induction lx rule: skip_comment.induct)
  case (1 lx)
  then show ?case by (subst skip_comment.simps) (auto intro: advances.here advances_start)
qed

lemma skip_whitespace_advances: "advances lx (snd (skip_whitespace stop lx))"
proof (induction stop lx rule: skip_whitespace.induct)
  case (1 stop lx)
  have "advances lx (skip_comment (next_char lx))" by (rule advances_start [OF skip_comment_advances])
  then show ?case
    using 1 by (subst skip_whitespace.simps)
      (auto intro: advances.here advances_start advances_start2 advances_trans)
qed

lemma get_hex_advances: "get_hex n num lx = (r, lx') \<Longrightarrow> advances lx lx'"
  by (induction n num lx rule: get_hex.induct)
    (auto simp: Let_def intro: advances.here advances_start advances.next_char split: if_splits)

lemma octal_digits_advances: "octal_digits n num lx = (r, lx') \<Longrightarrow> advances lx lx'"
proof (induction n num lx rule: octal_digits.induct)
  case (1 digits num lx)
  then show ?case
    by (subst (asm) (2) octal_digits.simps) (auto simp: Let_def intro: advances.here advances_start split: if_splits)
qed

lemma escape_char_advances: "escape_char lx = Inr (c, lx') \<Longrightarrow> advances lx lx'"
  by (auto simp: escape_char_def Let_def intro: advances.intros get_hex_advances octal_digits_advances
      split: if_splits prod.splits option.splits)

lemma string_escape_advances: "string_escape raw lx = Inr lx' \<Longrightarrow> advances lx lx'"
  by (auto simp: string_escape_def intro: advances.intros dest: escape_char_advances split: if_splits prod.splits sum.splits)

lemma string_char_advances: "string_char raw q n lx = Inr (m, lx') \<Longrightarrow> advances lx lx'"
  by (auto simp: string_char_def intro: advances.intros advances_start dest!: string_escape_advances
      split: if_splits sum.splits)

lemma string_chars_advances: "string_chars raw q k n lx = Inr (m, lx') \<Longrightarrow> advances lx lx'"
proof (induction raw q k n lx rule: string_chars.induct)
  case (1 raw q k n lx)
  show ?case
  proof (cases "\<not> is_end lx \<and> (1 < k \<or> \<not> is_char lx (ch CHR 0x0A)) \<and> n < k")
    case True
    with 1(2) obtain n1 lx1 where s: "string_char raw q n lx = Inr (n1, lx1)"
      and r: "string_chars raw q k n1 lx1 = Inr (m, lx')"
      by (subst (asm) string_chars.simps) (auto split: sum.splits)
    show ?thesis by (rule advances_trans [OF 1(1) [OF True s refl r] string_char_advances [OF s]])
  next
    case False
    then show ?thesis using 1(2) by (subst (asm) string_chars.simps) (auto intro: advances.here)
  qed
qed

lemma parse_string_literal_advances:
  assumes "parse_string_literal raw lx = Inr lx'"
  shows "advances lx lx'"
proof -
  let ?q = "if is_char lx (ch CHR 0x22) then ch CHR 0x22 else ch CHR 0x27"
  let ?lx = "if is_char_and (next_char lx) ?q ?q then next_char (next_char (next_char lx)) else next_char lx"
  obtain k n lx1 v where s: "string_chars raw ?q k 0 ?lx = Inr (n, lx1)"
    and lx': "lx' = (if n < k then lx1\<lparr>tok_kind := MP_TOKEN_LONELY_STRING_OPEN\<rparr> else lx1)\<lparr>vstr := v\<rparr>"
    using assms by (auto simp: parse_string_literal_def Let_def split: if_splits sum.splits)
  have "advances lx ?lx" by (simp add: advances.here advances.next_char)
  from advances_trans [OF string_chars_advances [OF s] this] show ?thesis
    unfolding lx' by (intro advances.set_text) (simp add: advances.set_kind)
qed

lemma skip_prefix_advances: "advances lx (skip_prefix n lx)"
  unfolding skip_prefix_def Let_def by (simp add: advances.here advances.next_char)

lemma string_literal_advances:
  assumes "string_literal raw n lx = Inr lx'"
  shows "advances lx lx'"
proof -
  obtain lx1 where p: "parse_string_literal raw (skip_prefix n lx) = Inr lx1" and lx': "lx' = snd (skip_whitespace True lx1)"
    using assms by (auto simp: string_literal_def split: sum.splits)
  have "advances lx lx1" by (rule advances_trans [OF parse_string_literal_advances [OF p] skip_prefix_advances])
  then show ?thesis unfolding lx' by (rule advances_trans [OF skip_whitespace_advances])
qed

lemma string_run_advances: "string_run lx = Inr lx' \<Longrightarrow> advances lx lx'"
proof (induction lx rule: string_run.induct)
  case (1 lx)
  obtain raw kind n where p: "string_prefix lx = (raw, kind, n)" by (cases "string_prefix lx") auto
  have k: "kind \<notin> {MP_TOKEN_INDENT, MP_TOKEN_DEDENT}" using p by (auto simp: string_prefix_def split: if_splits)
  have lit: "advances lx lx1" if "string_literal raw n (if tok_kind lx = MP_TOKEN_END then lx\<lparr>tok_kind := kind\<rparr> else lx) = Inr lx1" for lx1
    using string_literal_advances [OF that] k by (auto intro: advances_trans advances.intros split: if_splits)
  let ?lx = "if tok_kind lx = MP_TOKEN_END then lx\<lparr>tok_kind := kind\<rparr> else lx"
  show ?case
  proof (cases "tok_kind lx \<noteq> MP_TOKEN_END \<and> tok_kind lx \<noteq> kind")
    case True
    then show ?thesis using 1(2) p by (subst (asm) string_run.simps) (simp add: advances.here)
  next
    case False
    with 1(2) p obtain lx1 where s: "string_literal raw n ?lx = Inr lx1"
      and r: "if is_string_or_bytes lx1 then string_run lx1 = Inr lx' else lx1 = lx'"
      by (subst (asm) string_run.simps) (auto simp: Let_def split: sum.splits if_splits)
    show ?thesis
    proof (cases "is_string_or_bytes lx1")
      case str: True
      then have "advances lx1 lx'" using 1(1) [OF refl p [symmetric] refl False refl s str] r by simp
      then show ?thesis by (rule advances_trans [OF _ lit [OF s]])
    qed (use r lit [OF s] in simp)
  qed
qed

lemmas advances_add_next = advances_trans [OF _ advances.next_char [OF advances.add_byte [OF advances.here]]]

lemma name_tail_advances: "advances lx (name_tail lx)"
proof (induction lx rule: name_tail.induct)
  case (1 lx)
  then show ?case by (subst name_tail.simps) (auto intro: advances.here advances_add_next)
qed

lemma lex_name_advances:
  "advances (next_char (vstr_add_byte (chr0 lx) (lx\<lparr>tok_kind := MP_TOKEN_NAME\<rparr>))) (lex_name opt lx)"
  using name_tail_advances [of "next_char (vstr_add_byte (chr0 lx) (lx\<lparr>tok_kind := MP_TOKEN_NAME\<rparr>))"]
  by (auto simp: lex_name_def Let_def intro: advances.set_kind split: option.split)

lemma number_step_advances: "advances lx (number_exponent lx)" "advances lx (number_char lx)"
proof -
  have step: "advances lx (next_char (vstr_add_byte c lx1))" if "advances lx lx1" for c lx1
    using that by (intro advances.next_char advances.add_byte)
  have float: "advances lx (lx\<lparr>tok_kind := MP_TOKEN_FLOAT_OR_IMAG\<rparr>)" by (intro advances.set_kind advances.here) simp
  show "advances lx (number_char lx)"
    unfolding number_char_def Let_def by (rule step) (simp add: float advances.here)
  show "advances lx (number_exponent lx)"
    unfolding number_exponent_def Let_def by (simp add: step [OF step [OF float]] step [OF float])
qed

lemma number_tail_advances: "advances lx (number_tail forced lx)"
proof (induction forced lx rule: number_tail.induct)
  case (1 forced lx)
  note steps = number_step_advances [of lx] advances.next_char [OF advances.here [of lx]]
  show ?case
    using 1(1) [THEN advances_trans [OF _ steps(1)]] 1(2) [THEN advances_trans [OF _ steps(2)]]
      1(3) [THEN advances_trans [OF _ steps(3)]]
    by (subst number_tail.simps) (cases forced; simp add: advances.here)
qed

lemma lex_number_advances:
  "\<exists>k \<in> {MP_TOKEN_INTEGER, MP_TOKEN_FLOAT_OR_IMAG}.
     advances (next_char (vstr_add_byte (chr0 lx) (lx\<lparr>tok_kind := k\<rparr>))) (lex_number lx)"
  by (rule bexI [of _ "if is_char lx (ch CHR ''.'') then MP_TOKEN_FLOAT_OR_IMAG else MP_TOKEN_INTEGER"])
    (simp_all add: lex_number_def Let_def number_tail_advances)

text \<open>A scan that starts by consuming a character.\<close>

lemma advances_strict:
  assumes "advances (next_char (vstr_add_byte c (lx\<lparr>tok_kind := k\<rparr>))) lx'" "\<not> is_end lx" "k \<notin> {MP_TOKEN_INDENT, MP_TOKEN_DEDENT}"
  shows "advances lx lx'" "lex_size lx' < lex_size lx" "tok_kind lx' \<notin> {MP_TOKEN_INDENT, MP_TOKEN_DEDENT}"
proof -
  let ?lx = "vstr_add_byte c (lx\<lparr>tok_kind := k\<rparr>)"
  have "advances lx ?lx" using assms(3) by (intro advances.add_byte advances.set_kind advances.here)
  then show "advances lx lx'" by (intro advances_trans [OF assms(1)] advances.next_char)
  have "lex_size (next_char ?lx) < lex_size lx"
    using next_char_size [of ?lx] lex_size_pos [OF assms(2)] by (simp add: same_size)
  then show "lex_size lx' < lex_size lx" "tok_kind lx' \<notin> {MP_TOKEN_INDENT, MP_TOKEN_DEDENT}"
    using advances_keeps [OF assms(1)] assms(3) by auto
qed

lemma tok_enc_match_advances: "advances lx (snd (tok_enc_match t i j lx))"
proof (induction t i j lx rule: tok_enc_match.induct)
  case (1 t t1 ts i j lx)
  have s: "advances lx (next_char lx)" by (intro advances.next_char advances.here)
  then show ?case using 1 advances_trans [OF _ s] by (auto simp: Let_def advances.here)
qed (simp_all add: advances.here)


end
