(* ===== verification/LexOps.thy ===== *)
theory LexOps
  imports LexText
begin

text \<open>
  Operators and delimiters.  The lexer finds them in the encoded table \<open>tok_enc\<close>; here is the plain
  list of what they are, and the longest-match rule the encoding implements.
\<close>

definition operators :: "(string \<times> mp_token_kind) list" where
  "operators =
    [(''<<='', MP_TOKEN_DEL DEL_DBL_LESS_EQUAL), (''>>='', MP_TOKEN_DEL DEL_DBL_MORE_EQUAL),
     (''**='', MP_TOKEN_DEL DEL_DBL_STAR_EQUAL), (''//='', MP_TOKEN_DEL DEL_DBL_SLASH_EQUAL),
     (''...'', MP_TOKEN_ELLIPSIS),
     ('':='', MP_TOKEN_OP OP_ASSIGN), (''<='', MP_TOKEN_OP OP_LESS_EQUAL), (''<<'', MP_TOKEN_OP OP_DBL_LESS),
     (''>='', MP_TOKEN_OP OP_MORE_EQUAL), (''>>'', MP_TOKEN_OP OP_DBL_MORE), (''*='', MP_TOKEN_DEL DEL_STAR_EQUAL),
     (''**'', MP_TOKEN_OP OP_DBL_STAR), (''+='', MP_TOKEN_DEL DEL_PLUS_EQUAL), (''-='', MP_TOKEN_DEL DEL_MINUS_EQUAL),
     (''->'', MP_TOKEN_DEL DEL_MINUS_MORE), (''&='', MP_TOKEN_DEL DEL_AMPERSAND_EQUAL), (''|='', MP_TOKEN_DEL DEL_PIPE_EQUAL),
     (''/='', MP_TOKEN_DEL DEL_SLASH_EQUAL), (''//'', MP_TOKEN_OP OP_DBL_SLASH), (''%='', MP_TOKEN_DEL DEL_PERCENT_EQUAL),
     (''^='', MP_TOKEN_DEL DEL_CARET_EQUAL), (''@='', MP_TOKEN_DEL DEL_AT_EQUAL), (''=='', MP_TOKEN_OP OP_DBL_EQUAL),
     (''!='', MP_TOKEN_OP OP_NOT_EQUAL),
     (''('', MP_TOKEN_DEL DEL_PAREN_OPEN), ('')'', MP_TOKEN_DEL DEL_PAREN_CLOSE), (''['', MP_TOKEN_DEL DEL_BRACKET_OPEN),
     ('']'', MP_TOKEN_DEL DEL_BRACKET_CLOSE), (''{'', MP_TOKEN_DEL DEL_BRACE_OPEN), (''}'', MP_TOKEN_DEL DEL_BRACE_CLOSE),
     ('','', MP_TOKEN_DEL DEL_COMMA), ('';'', MP_TOKEN_DEL DEL_SEMICOLON), (''~'', MP_TOKEN_OP OP_TILDE),
     ('':'', MP_TOKEN_DEL DEL_COLON), (''<'', MP_TOKEN_OP OP_LESS), (''>'', MP_TOKEN_OP OP_MORE), (''*'', MP_TOKEN_OP OP_STAR),
     (''+'', MP_TOKEN_OP OP_PLUS), (''-'', MP_TOKEN_OP OP_MINUS), (''&'', MP_TOKEN_OP OP_AMPERSAND), (''|'', MP_TOKEN_OP OP_PIPE),
     (''/'', MP_TOKEN_OP OP_SLASH), (''%'', MP_TOKEN_OP OP_PERCENT), (''^'', MP_TOKEN_OP OP_CARET), (''@'', MP_TOKEN_OP OP_AT),
     (''='', MP_TOKEN_DEL DEL_EQUAL), (''.'', MP_TOKEN_DEL DEL_PERIOD)]"

definition operator_table :: "(u32 list \<times> mp_token_kind) list" where
  "operator_table = map (\<lambda>(s, k). (map ch s, k)) operators"

definition longest_operator :: "u32 list \<Rightarrow> (u32 list \<times> mp_token_kind) option" where
  "longest_operator cs = List.find (\<lambda>(s, k). prefix s cs) operator_table"

text \<open>The table lookup on characters alone.\<close>

fun munch :: "u32 list \<Rightarrow> nat \<Rightarrow> nat \<Rightarrow> u32 list \<Rightarrow> nat \<times> u32 list" where
  "munch (t # t1 # ts) i j cs =
     (if t = 99 \<or> t = 101 then
        (if cs \<noteq> [] \<and> hd cs = t1 then (if t = 101 then (i + 1, tl cs) else munch ts (i + 1) (i + 1) (tl cs))
         else if t = 99 then (j, cs) else munch ts (i + 1) j cs)
      else (j, cs))"
| "munch t i j cs = (j, cs)"

lemma reads_is_char: "reads lx cs \<Longrightarrow> is_char lx c \<longleftrightarrow> (cs \<noteq> [] \<and> hd cs = c) \<or> (cs = [] \<and> c = MP_LEXER_EOF)"
  by (cases cs) (auto simp: is_char_def dest: reads_Nil reads_Cons)

lemma tok_enc_match_munch:
  "reads lx cs \<Longrightarrow> MP_LEXER_EOF \<notin> set ts \<Longrightarrow>
    (let (j', lx') = tok_enc_match ts i j lx; (j'', cs') = munch ts i j cs in j' = j'' \<and> reads lx' cs')"
proof (induction ts i j lx arbitrary: cs rule: tok_enc_match.induct)
  case (1 t t1 ts i j lx)
  have c: "is_char lx t1 \<longleftrightarrow> cs \<noteq> [] \<and> hd cs = t1" using reads_is_char [OF 1(3), of t1] 1(4) by auto
  have n: "reads (next_char lx) (tl cs)" by (rule next_char_reads [OF 1(3)])
  show ?case
    using 1 n c by (auto simp: Let_def case_prod_beta)
qed (simp_all)

definition kind_of :: "u32 list \<Rightarrow> nat \<Rightarrow> u32 list \<Rightarrow> mp_token_kind \<times> u32 list" where
  "kind_of us i cs = (let (j, ds) = munch us i i cs in (tok_enc_kind ! j, ds))"

lemma tok_enc_unfold: "tok_enc = [40,41,91,93,123,125,44,59,126, 58,101,61, 60,101,61,99,60,101,61, 62,101,61,99,62,101,61,
  42,101,61,99,42,101,61, 43,101,61, 45,101,61,101,62, 38,101,61, 124,101,61, 47,101,61,99,47,101,61, 37,101,61,
  94,101,61, 64,101,61, 61,101,61, 33,46]"
  by (simp add: tok_enc_def)

lemma prefix_Nil_Cons: "prefix (x # xs) [] = False" "prefix (x # xs) (y # ys) \<longleftrightarrow> x = y \<and> prefix xs ys"
  by auto

lemma operator_table_eval: "operator_table =
    [([60, 60, 61], MP_TOKEN_DEL DEL_DBL_LESS_EQUAL),
     ([62, 62, 61], MP_TOKEN_DEL DEL_DBL_MORE_EQUAL),
     ([42, 42, 61], MP_TOKEN_DEL DEL_DBL_STAR_EQUAL),
     ([47, 47, 61], MP_TOKEN_DEL DEL_DBL_SLASH_EQUAL),
     ([46, 46, 46], MP_TOKEN_ELLIPSIS),
     ([58, 61], MP_TOKEN_OP OP_ASSIGN),
     ([60, 61], MP_TOKEN_OP OP_LESS_EQUAL),
     ([60, 60], MP_TOKEN_OP OP_DBL_LESS),
     ([62, 61], MP_TOKEN_OP OP_MORE_EQUAL),
     ([62, 62], MP_TOKEN_OP OP_DBL_MORE),
     ([42, 61], MP_TOKEN_DEL DEL_STAR_EQUAL),
     ([42, 42], MP_TOKEN_OP OP_DBL_STAR),
     ([43, 61], MP_TOKEN_DEL DEL_PLUS_EQUAL),
     ([45, 61], MP_TOKEN_DEL DEL_MINUS_EQUAL),
     ([45, 62], MP_TOKEN_DEL DEL_MINUS_MORE),
     ([38, 61], MP_TOKEN_DEL DEL_AMPERSAND_EQUAL),
     ([124, 61], MP_TOKEN_DEL DEL_PIPE_EQUAL),
     ([47, 61], MP_TOKEN_DEL DEL_SLASH_EQUAL),
     ([47, 47], MP_TOKEN_OP OP_DBL_SLASH),
     ([37, 61], MP_TOKEN_DEL DEL_PERCENT_EQUAL),
     ([94, 61], MP_TOKEN_DEL DEL_CARET_EQUAL),
     ([64, 61], MP_TOKEN_DEL DEL_AT_EQUAL),
     ([61, 61], MP_TOKEN_OP OP_DBL_EQUAL),
     ([33, 61], MP_TOKEN_OP OP_NOT_EQUAL),
     ([40], MP_TOKEN_DEL DEL_PAREN_OPEN),
     ([41], MP_TOKEN_DEL DEL_PAREN_CLOSE),
     ([91], MP_TOKEN_DEL DEL_BRACKET_OPEN),
     ([93], MP_TOKEN_DEL DEL_BRACKET_CLOSE),
     ([123], MP_TOKEN_DEL DEL_BRACE_OPEN),
     ([125], MP_TOKEN_DEL DEL_BRACE_CLOSE),
     ([44], MP_TOKEN_DEL DEL_COMMA),
     ([59], MP_TOKEN_DEL DEL_SEMICOLON),
     ([126], MP_TOKEN_OP OP_TILDE),
     ([58], MP_TOKEN_DEL DEL_COLON),
     ([60], MP_TOKEN_OP OP_LESS),
     ([62], MP_TOKEN_OP OP_MORE),
     ([42], MP_TOKEN_OP OP_STAR),
     ([43], MP_TOKEN_OP OP_PLUS),
     ([45], MP_TOKEN_OP OP_MINUS),
     ([38], MP_TOKEN_OP OP_AMPERSAND),
     ([124], MP_TOKEN_OP OP_PIPE),
     ([47], MP_TOKEN_OP OP_SLASH),
     ([37], MP_TOKEN_OP OP_PERCENT),
     ([94], MP_TOKEN_OP OP_CARET),
     ([64], MP_TOKEN_OP OP_AT),
     ([61], MP_TOKEN_DEL DEL_EQUAL),
     ([46], MP_TOKEN_DEL DEL_PERIOD)]"
  by (simp add: operator_table_def operators_def)

lemma longest_operator_first:
  "longest_operator (c # cs) = List.find (\<lambda>(s, k). prefix s (c # cs)) (filter (\<lambda>(s, k). hd s = c) operator_table)"
proof -
  have "List.find (\<lambda>(s, k). prefix s (c # cs)) t = List.find (\<lambda>(s, k). prefix s (c # cs)) (filter (\<lambda>(s, k). hd s = c) t)"
    if "\<forall>(s, k) \<in> set t. s \<noteq> []" for t :: "(u32 list \<times> mp_token_kind) list"
    using that by (induction t) (auto simp: prefix_Cons)
  moreover have "\<forall>(s, k) \<in> set operator_table. s \<noteq> []" by (simp add: operator_table_eval)
  ultimately show ?thesis unfolding longest_operator_def by blast
qed

text \<open>Where the scan stops for each first character, and what the match does from there.\<close>

lemma tok_enc_positions:
  "tok_enc_find 40 tok_enc 0 = (40 # drop 1 tok_enc, 0)"
  "tok_enc_find 41 tok_enc 0 = (41 # drop 2 tok_enc, 1)"
  "tok_enc_find 91 tok_enc 0 = (91 # drop 3 tok_enc, 2)"
  "tok_enc_find 93 tok_enc 0 = (93 # drop 4 tok_enc, 3)"
  "tok_enc_find 123 tok_enc 0 = (123 # drop 5 tok_enc, 4)"
  "tok_enc_find 125 tok_enc 0 = (125 # drop 6 tok_enc, 5)"
  "tok_enc_find 44 tok_enc 0 = (44 # drop 7 tok_enc, 6)"
  "tok_enc_find 59 tok_enc 0 = (59 # drop 8 tok_enc, 7)"
  "tok_enc_find 126 tok_enc 0 = (126 # drop 9 tok_enc, 8)"
  "tok_enc_find 58 tok_enc 0 = (58 # drop 10 tok_enc, 9)"
  "tok_enc_find 60 tok_enc 0 = (60 # drop 13 tok_enc, 11)"
  "tok_enc_find 62 tok_enc 0 = (62 # drop 20 tok_enc, 15)"
  "tok_enc_find 42 tok_enc 0 = (42 # drop 27 tok_enc, 19)"
  "tok_enc_find 43 tok_enc 0 = (43 # drop 34 tok_enc, 23)"
  "tok_enc_find 45 tok_enc 0 = (45 # drop 37 tok_enc, 25)"
  "tok_enc_find 38 tok_enc 0 = (38 # drop 42 tok_enc, 28)"
  "tok_enc_find 124 tok_enc 0 = (124 # drop 45 tok_enc, 30)"
  "tok_enc_find 47 tok_enc 0 = (47 # drop 48 tok_enc, 32)"
  "tok_enc_find 37 tok_enc 0 = (37 # drop 55 tok_enc, 36)"
  "tok_enc_find 94 tok_enc 0 = (94 # drop 58 tok_enc, 38)"
  "tok_enc_find 64 tok_enc 0 = (64 # drop 61 tok_enc, 40)"
  "tok_enc_find 61 tok_enc 0 = (61 # drop 64 tok_enc, 42)"
  by (simp_all add: tok_enc_unfold)

lemma kind_of_drop:
  "kind_of (drop 1 tok_enc) 0 ds = kind_of [41,91] 0 ds"
  "kind_of (drop 2 tok_enc) 1 ds = kind_of [91,93] 1 ds"
  "kind_of (drop 3 tok_enc) 2 ds = kind_of [93,123] 2 ds"
  "kind_of (drop 4 tok_enc) 3 ds = kind_of [123,125] 3 ds"
  "kind_of (drop 5 tok_enc) 4 ds = kind_of [125,44] 4 ds"
  "kind_of (drop 6 tok_enc) 5 ds = kind_of [44,59] 5 ds"
  "kind_of (drop 7 tok_enc) 6 ds = kind_of [59,126] 6 ds"
  "kind_of (drop 8 tok_enc) 7 ds = kind_of [126,58] 7 ds"
  "kind_of (drop 9 tok_enc) 8 ds = kind_of [58,101] 8 ds"
  "kind_of (drop 10 tok_enc) 9 ds = kind_of [101,61,60,101] 9 ds"
  "kind_of (drop 13 tok_enc) 11 ds = kind_of [101,61,99,60,101,61,62,101] 11 ds"
  "kind_of (drop 20 tok_enc) 15 ds = kind_of [101,61,99,62,101,61,42,101] 15 ds"
  "kind_of (drop 27 tok_enc) 19 ds = kind_of [101,61,99,42,101,61,43,101] 19 ds"
  "kind_of (drop 34 tok_enc) 23 ds = kind_of [101,61,45,101] 23 ds"
  "kind_of (drop 37 tok_enc) 25 ds = kind_of [101,61,101,62,38,101] 25 ds"
  "kind_of (drop 42 tok_enc) 28 ds = kind_of [101,61,124,101] 28 ds"
  "kind_of (drop 45 tok_enc) 30 ds = kind_of [101,61,47,101] 30 ds"
  "kind_of (drop 48 tok_enc) 32 ds = kind_of [101,61,99,47,101,61,37,101] 32 ds"
  "kind_of (drop 55 tok_enc) 36 ds = kind_of [101,61,94,101] 36 ds"
  "kind_of (drop 58 tok_enc) 38 ds = kind_of [101,61,64,101] 38 ds"
  "kind_of (drop 61 tok_enc) 40 ds = kind_of [101,61,61,101] 40 ds"
  "kind_of (drop 64 tok_enc) 42 ds = kind_of [101,61,33,46] 42 ds"
  by (simp_all add: tok_enc_unfold kind_of_def)

definition op_chars :: "u32 set" where
  "op_chars = {40, 41, 91, 93, 123, 125, 44, 59, 126, 58, 60, 62, 42, 43, 45, 38, 124, 47, 37, 94, 64, 61}"

lemma op_candidates:
  "filter (\<lambda>(s, k). hd s = 40) operator_table = [([40], MP_TOKEN_DEL DEL_PAREN_OPEN)]"
  "filter (\<lambda>(s, k). hd s = 41) operator_table = [([41], MP_TOKEN_DEL DEL_PAREN_CLOSE)]"
  "filter (\<lambda>(s, k). hd s = 91) operator_table = [([91], MP_TOKEN_DEL DEL_BRACKET_OPEN)]"
  "filter (\<lambda>(s, k). hd s = 93) operator_table = [([93], MP_TOKEN_DEL DEL_BRACKET_CLOSE)]"
  "filter (\<lambda>(s, k). hd s = 123) operator_table = [([123], MP_TOKEN_DEL DEL_BRACE_OPEN)]"
  "filter (\<lambda>(s, k). hd s = 125) operator_table = [([125], MP_TOKEN_DEL DEL_BRACE_CLOSE)]"
  "filter (\<lambda>(s, k). hd s = 44) operator_table = [([44], MP_TOKEN_DEL DEL_COMMA)]"
  "filter (\<lambda>(s, k). hd s = 59) operator_table = [([59], MP_TOKEN_DEL DEL_SEMICOLON)]"
  "filter (\<lambda>(s, k). hd s = 126) operator_table = [([126], MP_TOKEN_OP OP_TILDE)]"
  "filter (\<lambda>(s, k). hd s = 58) operator_table = [([58, 61], MP_TOKEN_OP OP_ASSIGN), ([58], MP_TOKEN_DEL DEL_COLON)]"
  "filter (\<lambda>(s, k). hd s = 60) operator_table = [([60, 60, 61], MP_TOKEN_DEL DEL_DBL_LESS_EQUAL), ([60, 61], MP_TOKEN_OP OP_LESS_EQUAL), ([60, 60], MP_TOKEN_OP OP_DBL_LESS), ([60], MP_TOKEN_OP OP_LESS)]"
  "filter (\<lambda>(s, k). hd s = 62) operator_table = [([62, 62, 61], MP_TOKEN_DEL DEL_DBL_MORE_EQUAL), ([62, 61], MP_TOKEN_OP OP_MORE_EQUAL), ([62, 62], MP_TOKEN_OP OP_DBL_MORE), ([62], MP_TOKEN_OP OP_MORE)]"
  "filter (\<lambda>(s, k). hd s = 42) operator_table = [([42, 42, 61], MP_TOKEN_DEL DEL_DBL_STAR_EQUAL), ([42, 61], MP_TOKEN_DEL DEL_STAR_EQUAL), ([42, 42], MP_TOKEN_OP OP_DBL_STAR), ([42], MP_TOKEN_OP OP_STAR)]"
  "filter (\<lambda>(s, k). hd s = 43) operator_table = [([43, 61], MP_TOKEN_DEL DEL_PLUS_EQUAL), ([43], MP_TOKEN_OP OP_PLUS)]"
  "filter (\<lambda>(s, k). hd s = 45) operator_table = [([45, 61], MP_TOKEN_DEL DEL_MINUS_EQUAL), ([45, 62], MP_TOKEN_DEL DEL_MINUS_MORE), ([45], MP_TOKEN_OP OP_MINUS)]"
  "filter (\<lambda>(s, k). hd s = 38) operator_table = [([38, 61], MP_TOKEN_DEL DEL_AMPERSAND_EQUAL), ([38], MP_TOKEN_OP OP_AMPERSAND)]"
  "filter (\<lambda>(s, k). hd s = 124) operator_table = [([124, 61], MP_TOKEN_DEL DEL_PIPE_EQUAL), ([124], MP_TOKEN_OP OP_PIPE)]"
  "filter (\<lambda>(s, k). hd s = 47) operator_table = [([47, 47, 61], MP_TOKEN_DEL DEL_DBL_SLASH_EQUAL), ([47, 61], MP_TOKEN_DEL DEL_SLASH_EQUAL), ([47, 47], MP_TOKEN_OP OP_DBL_SLASH), ([47], MP_TOKEN_OP OP_SLASH)]"
  "filter (\<lambda>(s, k). hd s = 37) operator_table = [([37, 61], MP_TOKEN_DEL DEL_PERCENT_EQUAL), ([37], MP_TOKEN_OP OP_PERCENT)]"
  "filter (\<lambda>(s, k). hd s = 94) operator_table = [([94, 61], MP_TOKEN_DEL DEL_CARET_EQUAL), ([94], MP_TOKEN_OP OP_CARET)]"
  "filter (\<lambda>(s, k). hd s = 64) operator_table = [([64, 61], MP_TOKEN_DEL DEL_AT_EQUAL), ([64], MP_TOKEN_OP OP_AT)]"
  "filter (\<lambda>(s, k). hd s = 61) operator_table = [([61, 61], MP_TOKEN_OP OP_DBL_EQUAL), ([61], MP_TOKEN_DEL DEL_EQUAL)]"
  "filter (\<lambda>(s, k). hd s = 33) operator_table = [([33, 61], MP_TOKEN_OP OP_NOT_EQUAL)]"
  "filter (\<lambda>(s, k). hd s = 46) operator_table = [([46, 46, 46], MP_TOKEN_ELLIPSIS), ([46], MP_TOKEN_DEL DEL_PERIOD)]"
  by (simp_all add: operator_table_eval)

lemma op_kind_found:
  "c \<in> op_chars \<Longrightarrow> (case tok_enc_find c tok_enc 0 of (us, i) \<Rightarrow> us \<noteq> [] \<and> hd us = c
     \<and> (case kind_of (tl us) i ds of (k, rest) \<Rightarrow> \<exists>s. longest_operator (c # ds) = Some (s, k) \<and> c # ds = s @ rest))"
proof -
  assume "c \<in> op_chars"
  then show ?thesis
    unfolding op_chars_def
    by (elim insertE emptyE; simp only: tok_enc_positions prod.case list.sel kind_of_drop longest_operator_first op_candidates;
      cases ds rule: remdups_adj.cases;
      simp add: kind_of_def prefix_Nil_Cons tok_enc_kind_def)
qed

lemma tok_enc_find_mem: "fst (tok_enc_find c ts i) \<noteq> [] \<Longrightarrow> c \<in> set ts"
proof (induction c ts i rule: tok_enc_find.induct)
  case (2 c t ts i)
  then show ?case by (cases ts) (auto split: if_splits)
qed simp

lemma operator_first: "(s, k) \<in> set operator_table \<Longrightarrow> s \<noteq> [] \<and> hd s \<in> op_chars \<union> {33, 46}"
proof -
  have "\<forall>(s, k) \<in> set operator_table. s \<noteq> [] \<and> hd s \<in> op_chars \<union> {33, 46}"
    by (simp add: operator_table_eval op_chars_def)
  then show "(s, k) \<in> set operator_table \<Longrightarrow> s \<noteq> [] \<and> hd s \<in> op_chars \<union> {33, 46}" by blast
qed

lemma no_operator:
  assumes "c \<notin> op_chars \<union> {33, 46, 99, 101}"
  shows "fst (tok_enc_find c tok_enc 0) = []" "longest_operator (c # ds) = None"
proof -
  have "set tok_enc = op_chars \<union> {33, 46, 99, 101}" unfolding tok_enc_unfold op_chars_def by (simp add: insert_commute)
  then show "fst (tok_enc_find c tok_enc 0) = []" using tok_enc_find_mem assms by metis
  have "\<not> prefix s (c # ds)" if "(s, k) \<in> set operator_table" for s k
    using operator_first [OF that] assms by (cases s) auto
  then show "longest_operator (c # ds) = None" by (auto simp: longest_operator_def find_None_iff)
qed

lemma longest_operator_longest:
  "longest_operator cs = Some (s, k) \<Longrightarrow>
     (s, k) \<in> set operator_table \<and> prefix s cs \<and> (\<forall>(s', k') \<in> set operator_table. prefix s' cs \<longrightarrow> length s' \<le> length s)"
proof -
  have sorted: "sorted_wrt (\<lambda>a b. length (fst b) \<le> length (fst a)) operator_table"
    unfolding operator_table_eval by simp
  have "List.find P xs = Some x \<Longrightarrow> sorted_wrt (\<lambda>a b. length (fst b) \<le> length (fst a)) xs \<Longrightarrow>
      x \<in> set xs \<and> P x \<and> (\<forall>y \<in> set xs. P y \<longrightarrow> length (fst y) \<le> length (fst x))"
    for P and x :: "u32 list \<times> mp_token_kind" and xs
    by (induction xs) (auto split: if_splits)
  from this [OF _ sorted] show "longest_operator cs = Some (s, k) \<Longrightarrow> ?thesis"
    unfolding longest_operator_def by fastforce
qed

definition nesting :: "mp_token_kind \<Rightarrow> int" where
  "nesting k =
     (if k \<in> MP_TOKEN_DEL ` {DEL_PAREN_OPEN, DEL_BRACKET_OPEN, DEL_BRACE_OPEN} then 1
      else if k \<in> MP_TOKEN_DEL ` {DEL_PAREN_CLOSE, DEL_BRACKET_CLOSE, DEL_BRACE_CLOSE} then - 1 else 0)"

lemma tok_enc_match_nesting: "nested_bracket_level (snd (tok_enc_match ts i j lx)) = nested_bracket_level lx"
  by (induction ts i j lx rule: tok_enc_match.induct) (simp_all add: Let_def)

lemma tok_enc_no_EOF: "MP_LEXER_EOF \<notin> set tok_enc"
  by (simp add: tok_enc_unfold MP_LEXER_EOF_def)

lemma tok_enc_find_suffix: "set (fst (tok_enc_find c ts i)) \<subseteq> set ts"
proof (induction c ts i rule: tok_enc_find.induct)
  case (2 c t ts i)
  then show ?case by (cases ts) (auto split: if_splits)
qed simp

text \<open>A first character of the table: \<open>lex_operator\<close> is the longest match.\<close>

lemma lex_operator_table:
  assumes r: "reads lx (c # ds)" and c: "c \<in> op_chars"
  shows "\<exists>s k rest. longest_operator (c # ds) = Some (s, k) \<and> c # ds = s @ rest \<and> tok_kind (lex_operator lx) = k
    \<and> reads (lex_operator lx) rest \<and> nested_bracket_level (lex_operator lx) = nested_bracket_level lx + nesting k"
proof -
  obtain us i where f: "tok_enc_find c tok_enc 0 = (us, i)" by fastforce
  obtain j rest where m: "munch (tl us) i i ds = (j, rest)" by fastforce
  from op_kind_found [OF c, of ds] obtain s where s: "us \<noteq> []" "hd us = c"
    "longest_operator (c # ds) = Some (s, tok_enc_kind ! j)" "c # ds = s @ rest"
    by (auto simp: f m kind_of_def)
  have "set us \<subseteq> set tok_enc" using tok_enc_find_suffix [of c tok_enc 0] by (simp add: f)
  then have "MP_LEXER_EOF \<notin> set (tl us)" using tok_enc_no_EOF by (auto dest: list.set_sel(2) [OF s(1)])
  from tok_enc_match_munch [OF next_char_Cons [OF r] this, of i i] obtain lx1
    where lx1: "tok_enc_match (tl us) i i (next_char lx) = (j, lx1)" "reads lx1 rest"
    by (auto simp: m split: prod.splits)
  have "c \<noteq> 33" "c \<noteq> 46" using c by (auto simp: op_chars_def)
  moreover have "nested_bracket_level lx1 = nested_bracket_level lx"
    using tok_enc_match_nesting [of "tl us" i i "next_char lx"] by (simp add: lx1)
  ultimately have "tok_kind (lex_operator lx) = tok_enc_kind ! j" "reads (lex_operator lx) rest"
    "nested_bracket_level (lex_operator lx) = nested_bracket_level lx + nesting (tok_enc_kind ! j)"
    using s(1,2) lx1 reads_Cons(1) [OF r] f by (auto simp: lex_operator_def Let_def nesting_def)
  then show ?thesis using s(3,4) by blast
qed

lemma tok_enc_find_special:
  "tok_enc_find 33 tok_enc 0 = ([33, 46], 44)" "tok_enc_find 46 tok_enc 0 = ([46], 45)"
  by (simp_all add: tok_enc_unfold)

lemma lex_operator_munch:
  assumes r: "reads lx (c # ds)" and c: "c \<notin> {99, 101}"
  shows "case longest_operator (c # ds) of
      None \<Rightarrow> tok_kind (lex_operator lx) = MP_TOKEN_INVALID \<and> reads (lex_operator lx) ds
        \<and> nested_bracket_level (lex_operator lx) = nested_bracket_level lx
    | Some (s, k) \<Rightarrow> \<exists>rest. c # ds = s @ rest \<and> tok_kind (lex_operator lx) = k \<and> reads (lex_operator lx) rest
        \<and> nested_bracket_level (lex_operator lx) = nested_bracket_level lx + nesting k"
proof -
  note r1 = next_char_Cons [OF r]
  have E: "MP_LEXER_EOF \<noteq> 61" "MP_LEXER_EOF \<noteq> 46" by (simp_all add: MP_LEXER_EOF_def)
  note c0 = reads_Cons(1) [OF r]
  consider "c \<in> op_chars" | "c = 33" | "c = 46" | "c \<notin> op_chars \<union> {33, 46, 99, 101}" using c by blast
  then show ?thesis
  proof cases
    case 1
    then show ?thesis using lex_operator_table [OF r] by fastforce
  next
    case 2
    then show ?thesis
      using r1 c0 next_char_Cons [of "next_char lx" 61 "tl ds"] reads_is_char [OF r1, of 61] E
      by (cases ds) (auto simp: lex_operator_def longest_operator_first op_candidates tok_enc_find_special nesting_def Let_def)
  next
    case 3
    have two: "is_char_and (next_char lx) 46 46 \<longleftrightarrow> (\<exists>es. ds = 46 # 46 # es)"
      using reads_is_char [OF r1, of 46] reads_single [of "next_char lx" 46] r1 E reads_Cons2 [of "next_char lx" 46]
      by (cases ds rule: remdups_adj.cases) (auto simp: is_char_and_def is_char_def)
    show ?thesis
    proof (cases "\<exists>es. ds = 46 # 46 # es")
      case True
      then obtain es where ds: "ds = 46 # 46 # es" by blast
      have "reads (next_char (next_char (next_char lx))) es"
        using r1 unfolding ds by (blast intro: next_char_Cons)
      then show ?thesis
        using 3 c0 two by (auto simp: lex_operator_def longest_operator_first op_candidates tok_enc_find_special
            nesting_def Let_def ds)
    next
      case False
      then have "longest_operator (c # ds) = Some ([46], MP_TOKEN_DEL DEL_PERIOD)"
        using 3 by (cases ds rule: remdups_adj.cases) (simp_all add: longest_operator_first op_candidates)
      then show ?thesis
        using 3 c0 two False r1
        by (auto simp: lex_operator_def tok_enc_find_special nesting_def Let_def)
    qed
  next
    case 4
    then show ?thesis
      using no_operator(1) [OF 4] no_operator(2) [OF 4, of ds] r1 c0 by (auto simp: lex_operator_def case_prod_beta Let_def)
  qed
qed

definition scanned :: "lexer \<Rightarrow> lexer \<Rightarrow> bool" where
  "scanned lx lx' \<longleftrightarrow> (\<exists>lx1 n. advances lx lx1 \<and> lx' = lx1\<lparr>tok_kind := tok_kind lx', nested_bracket_level := n\<rparr>)"

lemma scannedI:
  assumes "advances lx lx1"
  shows "scanned lx (lx1\<lparr>tok_kind := k\<rparr>)" "scanned lx (lx1\<lparr>tok_kind := k, nested_bracket_level := n\<rparr>)"
proof -
  show "scanned lx (lx1\<lparr>tok_kind := k\<rparr>)"
    unfolding scanned_def by (rule exI [of _ lx1], rule exI [of _ "nested_bracket_level lx1"]) (simp add: assms)
  show "scanned lx (lx1\<lparr>tok_kind := k, nested_bracket_level := n\<rparr>)"
    unfolding scanned_def by (rule exI [of _ lx1], rule exI [of _ n]) (simp add: assms)
qed

lemma lex_operator_scanned: "scanned (next_char lx) (lex_operator lx)"
proof -
  have a: "advances (next_char lx) (next_char lx)" "advances (next_char lx) (next_char (next_char lx))"
    "advances (next_char lx) (next_char (next_char (next_char lx)))" by (intro advances.next_char advances.here)+
  obtain us i where f: "tok_enc_find (chr0 lx) tok_enc 0 = (us, i)" by fastforce
  obtain j lx1 where m: "tok_enc_match (tl us) i i (next_char lx) = (j, lx1)" by fastforce
  have "advances (next_char lx) lx1" using tok_enc_match_advances [of "next_char lx" "tl us" i i] by (simp add: m)
  note s = scannedI [OF this] a [THEN scannedI(1)]
  show ?thesis unfolding lex_operator_def f Let_def prod.case m by (simp add: s)
qed

lemma lex_operator_kind:
  assumes "reads lx (c # ds)" "c \<notin> {99, 101}"
  shows "tok_kind (lex_operator lx) \<notin> {MP_TOKEN_INDENT, MP_TOKEN_DEDENT}"
proof -
  have "\<forall>(s, k) \<in> set operator_table. k \<notin> {MP_TOKEN_INDENT, MP_TOKEN_DEDENT}"
    by (simp add: operator_table_eval)
  then show ?thesis
    using lex_operator_munch [OF assms] longest_operator_longest [of "c # ds"] by (auto split: option.splits)
qed

lemma lex_operator_advances:
  assumes "reads lx (c # ds)" "c \<notin> {99, 101}"
  shows "advances (next_char lx) (lex_operator lx)"
  using lex_operator_scanned [of lx] lex_operator_kind [OF assms] unfolding scanned_def
  by (metis advances.set_kind advances.nesting)

end
