(* ===== verification/LexTokens.thy ===== *)
theory LexTokens
  imports LexOps
begin

text \<open>
  The token stream: keywords and names, the indentation tokens, and the properties of a whole run of
  \<open>mp_lexer_to_next\<close>: it comes to the end of every text, never goes back, and never closes a block it has
  not opened.
\<close>

section \<open>Keywords and names\<close>

lemma keyword_search_sorted:
  "sorted_wrt (\<lambda>a b. ord_class.lexordp (fst a) (fst b)) kws \<Longrightarrow> \<forall>a \<in> set kws. 0 \<notin> set (fst a) \<Longrightarrow> 0 \<notin> set s \<Longrightarrow>
     keyword_search s kws = map_of kws s"
proof (induction kws)
  case (Cons a kws)
  obtain kw k where a: "a = (kw, k)" by fastforce
  have nz: "0 \<notin> set kw" using Cons.prems(2) by (simp add: a)
  show ?case
  proof (cases "ord_class.lexordp s kw")
    case True
    have "s \<notin> fst ` set kws"
    proof
      assume "s \<in> fst ` set kws"
      then have "ord_class.lexordp kw s" using Cons.prems(1) by (auto simp: a)
      then show False using True lexordp_antisym by blast
    qed
    then have "map_of kws s = None" by (simp add: map_of_eq_None_iff)
    moreover have "s \<noteq> kw" using True lexordp_irreflexive' by blast
    ultimately show ?thesis
      using True Cons.prems(3) nz by (simp add: a str_diff_0_iff str_diff_neg_iff)
  next
    case False
    then show ?thesis
      using Cons nz by (simp add: a str_diff_0_iff str_diff_neg_iff)
  qed
qed simp

lemma tok_kw_sorted: "sorted_wrt (\<lambda>a b. ord_class.lexordp (fst a) (fst b)) tok_kw" "\<forall>a \<in> set tok_kw. 0 \<notin> set (fst a)"
  by (simp_all add: tok_kw_def)

lemma keyword_search_tok_kw: "0 \<notin> set s \<Longrightarrow> keyword_search s tok_kw = map_of tok_kw s"
  by (rule keyword_search_sorted [OF tok_kw_sorted])

definition ident_char :: "u32 \<Rightarrow> bool" where
  "ident_char c \<longleftrightarrow> unichar_isalpha c \<or> c = 95 \<or> 0x80 \<le> c \<or> unichar_isdigit c"

abbreviation bytes :: "u32 list \<Rightarrow> u8 list" where
  "bytes \<equiv> map ucast"

lemma name_tail_reads:
  "reads lx cs \<Longrightarrow> reads (name_tail lx) (dropWhile ident_char cs)
     \<and> vstr (name_tail lx) = vstr lx @ bytes (takeWhile ident_char cs) \<and> tok_kind (name_tail lx) = tok_kind lx"
proof (induction lx arbitrary: cs rule: name_tail.induct)
  case (1 lx)
  show ?case
  proof (cases cs)
    case Nil
    then have "is_end lx" using reads_is_end [OF 1(2)] by simp
    then show ?thesis using 1(2) Nil by (subst (1 2 3) name_tail.simps) simp
  next
    case (Cons c ds)
    have e: "\<not> is_end lx" using reads_is_end [OF 1(2)] Cons by simp
    note c = reads_Cons(1) [OF 1(2) [unfolded Cons]]
    have t: "is_tail_of_identifier lx \<longleftrightarrow> ident_char c"
      by (auto simp: is_tail_of_identifier_def is_head_of_identifier_def is_letter_def is_digit_def ident_char_def c)
    have "reads (vstr_add_byte (chr0 lx) lx) (c # ds)" using 1(2) Cons by simp
    then have "reads (next_char (vstr_add_byte (chr0 lx) lx)) ds" by (rule next_char_Cons)
    then show ?thesis
      using 1(1) [of ds] 1(2) e t c Cons by (subst (1 2 3) name_tail.simps) simp
  qed
qed

lemma set_cook: "set (cook p cs) \<subseteq> insert 10 (set cs)"
proof (induction p cs rule: cook.induct)
  case (2 prev c cs)
  show ?case
  proof (cases "c = 13")
    case True
    then show ?thesis using 2(1) [OF True] by (cases cs) (auto split: if_splits)
  next
    case False
    then show ?thesis using 2(2) by auto
  qed
qed simp

lemma reads_chars:
  assumes "reads lx cs" "d \<in> set cs"
  shows "d < 256"
proof -
  define raw where "raw = cook (chr1 lx) (chr2 lx # map ucast (reader lx))"
  have "chr0 lx \<noteq> MP_LEXER_EOF \<and> (d = chr0 lx \<or> chr1 lx \<noteq> MP_LEXER_EOF \<and> (d = chr1 lx \<or> chr2 lx \<noteq> MP_LEXER_EOF \<and> d \<in> set raw))"
    using assms unfolding reads_def pending_def raw_def [symmetric] by (auto split: if_splits)
  moreover have "d \<in> set raw \<Longrightarrow> d = 10 \<or> d = chr2 lx \<or> d < 256"
    using set_cook [of "chr1 lx" "chr2 lx # map ucast (reader lx)"] byte_ucast(1) unfolding raw_def by auto
  moreover have "chr0 lx < 256 \<or> chr0 lx = MP_LEXER_EOF" "chr1 lx < 256 \<or> chr1 lx = MP_LEXER_EOF"
    "chr2 lx < 256 \<or> chr2 lx = MP_LEXER_EOF" "(10 :: u32) < 256"
    using assms(1) by (simp_all add: reads_def lex_inv_def)
  ultimately show ?thesis by metis
qed

text \<open>The kind of a name: its entry in the keyword table, looked up as in a map.\<close>

definition name_kind :: "u32 \<Rightarrow> u8 list \<Rightarrow> mp_token_kind" where
  "name_kind opt s =
     (case map_of tok_kw s of
        None \<Rightarrow> MP_TOKEN_NAME
      | Some k \<Rightarrow> MP_TOKEN_KW (if k = KW_DEBUG then (if opt = 0 then KW_TRUE else KW_FALSE) else k))"

lemma lex_name_reads:
  assumes r: "reads lx (c # cs)" and v: "vstr lx = []" and c: "ident_char c"
  defines "w \<equiv> takeWhile ident_char (c # cs)"
  shows "reads (lex_name opt lx) (dropWhile ident_char cs)" "vstr (lex_name opt lx) = bytes w"
    "tok_kind (lex_name opt lx) = name_kind opt (bytes w)"
proof -
  let ?lx = "next_char (vstr_add_byte (chr0 lx) (lx\<lparr>tok_kind := MP_TOKEN_NAME\<rparr>))"
  have "reads (vstr_add_byte (chr0 lx) (lx\<lparr>tok_kind := MP_TOKEN_NAME\<rparr>)) (c # cs)" using r by simp
  then have "reads ?lx cs" by (rule next_char_Cons)
  note n = name_tail_reads [OF this]
  have w: "vstr (name_tail ?lx) = bytes w" "tok_kind (name_tail ?lx) = MP_TOKEN_NAME"
    using n c v reads_Cons(1) [OF r] by (simp_all add: w_def)
  have "0 \<notin> set (bytes w)"
  proof
    assume "0 \<in> set (bytes w)"
    then obtain d where d: "d \<in> set w" "ucast d = (0 :: u8)" by auto
    have "d \<in> set (c # cs)" using d(1) unfolding w_def by (blast dest: set_takeWhileD)
    then have "d < 256" by (rule reads_chars [OF r])
    then have "unat d < 256" by (simp add: word_less_nat_alt)
    then have "unat d = 0" using d(2) unat_ucast_u8 [of d] by simp
    then have "d = 0" by (simp add: unat_eq_zero)
    moreover have "ident_char d" using d(1) unfolding w_def by (blast dest: set_takeWhileD)
    ultimately show False by (simp add: ident_char_def char_classes char_in_def)
  qed
  from keyword_search_tok_kw [OF this] show "reads (lex_name opt lx) (dropWhile ident_char cs)"
    "vstr (lex_name opt lx) = bytes w" "tok_kind (lex_name opt lx) = name_kind opt (bytes w)"
    using n w by (auto simp: lex_name_def Let_def name_kind_def split: option.split)
qed


section \<open>Indentation\<close>

text \<open>\<open>depth\<close>: the blocks open for a reader of the tokens, that is the levels on the stack less the dents still to be emitted.\<close>

definition depth :: "lexer \<Rightarrow> int" where
  "depth lx = int (length (indent_level lx)) - 1 - emit_dent lx"

definition dent_inv :: "lexer \<Rightarrow> bool" where
  "dent_inv lx \<longleftrightarrow> indent_level lx \<noteq> [] \<and> hd (indent_level lx) = 0 \<and> 0 \<le> depth lx"

definition dent :: "mp_token_kind \<Rightarrow> int" where
  "dent k = (if k = MP_TOKEN_INDENT then 1 else if k = MP_TOKEN_DEDENT then - 1 else 0)"

lemma indent_unwind_facts:
  assumes "indent_level lx \<noteq> []" "hd (indent_level lx) = 0"
  shows "indent_level (indent_unwind n lx) \<noteq> [] \<and> hd (indent_level (indent_unwind n lx)) = 0
    \<and> depth (indent_unwind n lx) = depth lx \<and> emit_dent (indent_unwind n lx) \<le> emit_dent lx
    \<and> \<not> n < indent_top (indent_unwind n lx) \<and> lex_size (indent_unwind n lx) = lex_size lx
    \<and> tok_kind (indent_unwind n lx) = tok_kind lx \<and> (\<forall>cs. reads (indent_unwind n lx) cs = reads lx cs)
    \<and> line (indent_unwind n lx) = line lx"
  using assms
proof (induction n lx rule: indent_unwind.induct)
  case (1 n lx)
  show ?case
  proof (cases "n < indent_top lx \<and> indent_level lx \<noteq> []")
    case True
    let ?lx = "(indent_pop lx)\<lparr>emit_dent := emit_dent lx - 1\<rparr>"
    have "last (indent_level lx) \<noteq> 0"
    proof
      assume "last (indent_level lx) = 0"
      then show False using True by (simp add: indent_top_def)
    qed
    then obtain w ws where w: "indent_level lx = 0 # w # ws"
      using 1(2,3) by (cases "indent_level lx" rule: remdups_adj.cases) auto
    have "lex_size ?lx = lex_size lx" "reads ?lx cs = reads lx cs" for cs
      by (simp_all add: indent_pop_def same_size)
    then show ?thesis
      using 1(1) [OF True] w True by (subst (1 2 3 4 5 6 7 8 9) indent_unwind.simps) (auto simp: indent_pop_def depth_def)
  next
    case False
    then show ?thesis using 1(2,3) by (subst (1 2 3 4 5 6 7 8 9) indent_unwind.simps) auto
  qed
qed

lemma lex_newline_facts:
  assumes "dent_inv lx" "emit_dent lx = 0" "chr0 lx = 10"
  shows "dent_inv (lex_newline lx)" "depth (lex_newline lx) = depth lx" "dent (tok_kind (lex_newline lx)) = 0"
    "3 * lex_size (lex_newline lx) + length (indent_level (lex_newline lx)) + nat \<bar>emit_dent (lex_newline lx)\<bar>
      < 3 * lex_size lx + length (indent_level lx)"
    "tok_kind (lex_newline lx) \<in> {MP_TOKEN_NEWLINE, MP_TOKEN_DEDENT_MISMATCH}"
    "\<exists>lx1. advances lx lx1 \<and> (\<forall>cs. reads (lex_newline lx) cs = reads lx1 cs) \<and> line (lex_newline lx) = line lx1"
proof -
  have e: "\<not> is_end lx" using assms(3) by (simp add: is_end_def)
  define lx1 where "lx1 = snd (skip_whitespace False lx)"
  have "lx1 = snd (skip_whitespace False (next_char lx))"
    using assms(3) e unfolding lx1_def by (subst skip_whitespace.simps) (simp add: is_physical_newline_def)
  then have size: "lex_size lx1 < lex_size lx"
    using skip_whitespace_size [of False "next_char lx"] next_char_less [OF e] by simp
  have adv: "advances lx lx1" unfolding lx1_def by (rule skip_whitespace_advances)
  from advances_keeps [OF this] have same: "emit_dent lx1 = 0" "indent_level lx1 = indent_level lx"
    using assms(2) by simp_all
  define lx2 where "lx2 = lx1\<lparr>tok_kind := MP_TOKEN_NEWLINE\<rparr>"
  have lx2: "lex_size lx2 = lex_size lx1" "indent_level lx2 = indent_level lx" "emit_dent lx2 = 0" "tok_kind lx2 = MP_TOKEN_NEWLINE"
    "reads lx2 cs = reads lx1 cs" "line lx2 = line lx1" for cs
    using same by (simp_all add: lx2_def same_size)
  have inv: "indent_level lx \<noteq> []" "hd (indent_level lx) = 0" "0 \<le> depth lx" using assms(1) by (simp_all add: dent_inv_def)
  let ?n = "column lx2 - 1"
  note u = indent_unwind_facts [of lx2 ?n, unfolded lx2, OF inv(1,2)]
  have lt: "emit_dent (indent_unwind ?n lx2) < int (length (indent_level (indent_unwind ?n lx2)))"
  proof -
    have "emit_dent (indent_unwind ?n lx2) \<le> 0" "0 < length (indent_level (indent_unwind ?n lx2))" using u lx2(3) by auto
    then show ?thesis by linarith
  qed
  have "lex_newline lx = lx2 \<or> lex_newline lx = (indent_push ?n lx2)\<lparr>emit_dent := 1\<rparr>
    \<or> lex_newline lx = indent_unwind ?n lx2 \<or> lex_newline lx = (indent_unwind ?n lx2)\<lparr>tok_kind := MP_TOKEN_DEDENT_MISMATCH\<rparr>"
    using lx2(3) unfolding lex_newline_def Let_def lx1_def [symmetric] lx2_def [symmetric] by (simp split: if_split)
  then consider (same) "lex_newline lx = lx2"
    | (push) "lex_newline lx = (indent_push ?n lx2)\<lparr>emit_dent := 1\<rparr>"
    | (pop) "lex_newline lx = indent_unwind ?n lx2"
    | (mismatch) "lex_newline lx = (indent_unwind ?n lx2)\<lparr>tok_kind := MP_TOKEN_DEDENT_MISMATCH\<rparr>"
    by blast
  then have "dent_inv (lex_newline lx) \<and> depth (lex_newline lx) = depth lx \<and> dent (tok_kind (lex_newline lx)) = 0
    \<and> 3 * lex_size (lex_newline lx) + length (indent_level (lex_newline lx)) + nat \<bar>emit_dent (lex_newline lx)\<bar>
      < 3 * lex_size lx + length (indent_level lx)
    \<and> tok_kind (lex_newline lx) \<in> {MP_TOKEN_NEWLINE, MP_TOKEN_DEDENT_MISMATCH}
    \<and> (\<forall>cs. reads (lex_newline lx) cs = reads lx1 cs) \<and> line (lex_newline lx) = line lx1"
  proof cases
    case same
    then show ?thesis using inv lx2 size assms(2) by (simp add: dent_inv_def depth_def dent_def)
  next
    case push
    then show ?thesis
      using inv lx2 size assms(2) by (simp add: dent_inv_def depth_def dent_def indent_push_def same_size)
  next
    case pop
    have "int (length (indent_level (indent_unwind ?n lx2))) - emit_dent (indent_unwind ?n lx2) = int (length (indent_level lx))"
      using u lx2 by (simp add: depth_def)
    then show ?thesis
      using pop inv lx2 size assms(2) u lt by (auto simp: dent_inv_def depth_def dent_def)
  next
    case mismatch
    have "int (length (indent_level (indent_unwind ?n lx2))) - emit_dent (indent_unwind ?n lx2) = int (length (indent_level lx))"
      using u lx2 by (simp add: depth_def)
    then show ?thesis
      using mismatch inv lx2 size assms(2) u lt by (auto simp: dent_inv_def depth_def dent_def same_size)
  qed
  then show "dent_inv (lex_newline lx)" "depth (lex_newline lx) = depth lx" "dent (tok_kind (lex_newline lx)) = 0"
    "3 * lex_size (lex_newline lx) + length (indent_level (lex_newline lx)) + nat \<bar>emit_dent (lex_newline lx)\<bar>
      < 3 * lex_size lx + length (indent_level lx)"
    "tok_kind (lex_newline lx) \<in> {MP_TOKEN_NEWLINE, MP_TOKEN_DEDENT_MISMATCH}"
    "\<exists>lx1. advances lx lx1 \<and> (\<forall>cs. reads (lex_newline lx) cs = reads lx1 cs) \<and> line (lex_newline lx) = line lx1"
    using adv by blast+
qed

section \<open>One token\<close>

definition potential :: "lexer \<Rightarrow> nat" where
  "potential lx = 3 * lex_size lx + length (indent_level lx) + nat \<bar>emit_dent lx\<bar>"

lemma string_run_size: "string_run lx = Inr lx' \<Longrightarrow> tok_kind lx = MP_TOKEN_END \<Longrightarrow> lex_size lx' \<le> lex_size lx - 1"
proof -
  have le: "string_run lx = Inr lx' \<Longrightarrow> lex_size lx' \<le> lex_size lx" for lx lx'
    using string_run_advances advances_keeps by blast
  assume r: "string_run lx = Inr lx'" and k: "tok_kind lx = MP_TOKEN_END"
  obtain raw kind n where p: "string_prefix lx = (raw, kind, n)" by (cases "string_prefix lx") auto
  from r obtain lx1 where lit: "string_literal raw n (lx\<lparr>tok_kind := kind\<rparr>) = Inr lx1"
    and "lx' = lx1 \<or> string_run lx1 = Inr lx'"
    using p k by (subst (asm) string_run.simps) (auto simp: Let_def split: sum.splits if_splits)
  then have "lex_size lx' \<le> lex_size lx1" using le by auto
  then show ?thesis using string_literal_size [OF lit] by (simp add: same_size)
qed

text \<open>The kinds of the tokens that are neither dents nor line ends.\<close>

lemma string_run_kind: "string_run lx = Inr lx' \<Longrightarrow> tok_kind lx = MP_TOKEN_END \<Longrightarrow> dent (tok_kind lx') = 0"
  using string_run_advances advances_keeps by (fastforce simp: dent_def)

lemma skip_comment_vstr: "vstr (skip_comment lx) = vstr lx"
proof (induction lx rule: skip_comment.induct)
  case (1 lx)
  then show ?case by (subst skip_comment.simps) simp
qed

lemma skip_whitespace_vstr: "vstr (snd (skip_whitespace stop lx)) = vstr lx"
proof (induction stop lx rule: skip_whitespace.induct)
  case (1 stop lx)
  then show ?case by (subst skip_whitespace.simps) (cases stop; simp add: skip_comment_vstr)
qed

lemma skip_whitespace_newline:
  "skip_whitespace True lx = (b, lx') \<Longrightarrow> b \<longleftrightarrow> chr0 lx' = 10 \<and> nested_bracket_level lx' = 0"
proof (induction True lx arbitrary: b lx' rule: skip_whitespace.induct)
  case (1 lx)
  then show ?case
    by (subst (asm) (5) skip_whitespace.simps)
      (auto simp: is_end_def is_physical_newline_def split: if_splits)
qed

definition token_start :: "lexer \<Rightarrow> bool \<times> lexer" where
  "token_start lx = (let (b, lx) = skip_whitespace True (lx\<lparr>vstr := []\<rparr>) in (b, lx\<lparr>tok_line := line lx, tok_column := column lx\<rparr>))"

lemma to_next_token_start:
  "mp_lexer_to_next opt lx =
     (let (b, lx2) = token_start lx
      in if emit_dent lx2 < 0 then Inr (lx2\<lparr>tok_kind := MP_TOKEN_DEDENT, emit_dent := emit_dent lx2 + 1\<rparr>)
         else if 0 < emit_dent lx2 then Inr (lx2\<lparr>tok_kind := MP_TOKEN_INDENT, emit_dent := emit_dent lx2 - 1\<rparr>)
         else if b then Inr (lex_newline lx2)
         else if is_end lx2 then Inr (lx2\<lparr>tok_kind := MP_TOKEN_END\<rparr>)
         else if is_string_or_bytes lx2 then string_run (lx2\<lparr>tok_kind := MP_TOKEN_END\<rparr>)
         else if is_head_of_identifier lx2 then Inr (lex_name opt lx2)
         else if is_digit lx2 \<or> is_char lx2 (ch CHR ''.'') \<and> is_following_digit lx2 then Inr (lex_number lx2)
         else Inr (lex_operator lx2))"
  by (simp add: mp_lexer_to_next_def token_start_def Let_def case_prod_beta)

lemma to_next_cases:
  assumes "mp_lexer_to_next opt lx = Inr lx'" "token_start lx = (b, lx2)"
  obtains (dedent) "emit_dent lx2 < 0" "lx' = lx2\<lparr>tok_kind := MP_TOKEN_DEDENT, emit_dent := emit_dent lx2 + 1\<rparr>"
    | (indent) "0 < emit_dent lx2" "lx' = lx2\<lparr>tok_kind := MP_TOKEN_INDENT, emit_dent := emit_dent lx2 - 1\<rparr>"
    | (newline) "emit_dent lx2 = 0" "b" "lx' = lex_newline lx2"
    | (finish) "emit_dent lx2 = 0" "lx' = lx2\<lparr>tok_kind := MP_TOKEN_END\<rparr>"
    | (string) "\<not> is_end lx2" "string_run (lx2\<lparr>tok_kind := MP_TOKEN_END\<rparr>) = Inr lx'"
    | (name) "\<not> is_end lx2" "lx' = lex_name opt lx2"
    | (number) "\<not> is_end lx2" "lx' = lex_number lx2"
    | (operator) "\<not> is_end lx2" "\<not> is_head_of_identifier lx2" "lx' = lex_operator lx2"
proof -
  have "emit_dent lx2 < 0 \<or> 0 < emit_dent lx2 \<or> emit_dent lx2 = 0" by linarith
  then show thesis
    using assms(1) unfolding to_next_token_start assms(2) Let_def prod.case
    by (elim disjE) (simp_all add: that split: if_split_asm)
qed

text \<open>The state at the start of a token.\<close>

lemma token_start_facts:
  assumes "token_start lx = (b, lx2)"
  shows "emit_dent lx2 = emit_dent lx" "indent_level lx2 = indent_level lx" "lex_size lx2 \<le> lex_size lx" "vstr lx2 = []"
    "b \<longleftrightarrow> chr0 lx2 = 10 \<and> nested_bracket_level lx2 = 0"
    "reads lx cs \<Longrightarrow> \<exists>ds. reads lx2 ds \<and> suffix ds cs \<and> line lx2 + of_nat (count_list ds 10) = line lx + of_nat (count_list cs 10)"
proof -
  obtain lx1 where s: "skip_whitespace True (lx\<lparr>vstr := []\<rparr>) = (b, lx1)" "lx2 = lx1\<lparr>tok_line := line lx1, tok_column := column lx1\<rparr>"
    using assms by (auto simp: token_start_def split: prod.splits)
  have adv: "advances (lx\<lparr>vstr := []\<rparr>) lx1" using skip_whitespace_advances [of "lx\<lparr>vstr := []\<rparr>" True] by (simp add: s)
  show "emit_dent lx2 = emit_dent lx" "indent_level lx2 = indent_level lx" "lex_size lx2 \<le> lex_size lx"
    using advances_keeps [OF adv] by (simp_all add: s same_size)
  show "vstr lx2 = []" using skip_whitespace_vstr [of True "lx\<lparr>vstr := []\<rparr>"] s by simp
  show "b \<longleftrightarrow> chr0 lx2 = 10 \<and> nested_bracket_level lx2 = 0" using skip_whitespace_newline [OF s(1)] by (simp add: s)
  show "reads lx cs \<Longrightarrow> \<exists>ds. reads lx2 ds \<and> suffix ds cs \<and> line lx2 + of_nat (count_list ds 10) = line lx + of_nat (count_list cs 10)"
    using advances_reads [OF adv, of cs] by (simp add: s)
qed

lemma to_next_step:
  assumes inv: "dent_inv lx" and r: "reads lx cs" and t: "mp_lexer_to_next opt lx = Inr lx'"
  shows "dent_inv lx' \<and> depth lx' = depth lx + dent (tok_kind lx') \<and> (tok_kind lx' = MP_TOKEN_END \<or> potential lx' < potential lx)
    \<and> (\<exists>ds. reads lx' ds \<and> suffix ds cs \<and> line lx' + of_nat (count_list ds 10) = line lx + of_nat (count_list cs 10))"
proof -
  obtain b lx2 where s: "token_start lx = (b, lx2)" by fastforce
  note lx2 = token_start_facts(1-3) [OF s]
  obtain ds where ds: "reads lx2 ds" "suffix ds cs" "line lx2 + of_nat (count_list ds 10) = line lx + of_nat (count_list cs 10)"
    using token_start_facts(6) [OF s r] by blast
  have nl: "b \<Longrightarrow> chr0 lx2 = 10" using token_start_facts(5) [OF s] by blast
  have inv2: "dent_inv lx2" "depth lx2 = depth lx" "potential lx2 \<le> potential lx"
    using inv lx2 by (simp_all add: dent_inv_def depth_def potential_def)
  have scan: ?thesis if sc: "advances lx2 lx'" "lex_size lx' < lex_size lx2" "tok_kind lx' \<notin> {MP_TOKEN_INDENT, MP_TOKEN_DEDENT}"
  proof -
    obtain es where "reads lx' es" "suffix es ds" "line lx' + of_nat (count_list es 10) = line lx2 + of_nat (count_list ds 10)"
      using advances_reads [OF sc(1) ds(1)] by blast
    moreover have "emit_dent lx' = emit_dent lx2" "indent_level lx' = indent_level lx2" using advances_keeps [OF sc(1)] by simp_all
    ultimately show ?thesis
      using sc inv2 ds(2,3) suffix_order.trans [of es ds cs] by (auto simp: dent_inv_def depth_def potential_def dent_def)
  qed
  obtain w ws where ws: "indent_level lx = w # ws" using inv by (cases "indent_level lx") (auto simp: dent_inv_def)
  from t s show ?thesis
  proof (cases rule: to_next_cases)
    case dedent
    then show ?thesis
      using inv2 lx2 ws ds by (auto simp: dent_inv_def depth_def potential_def dent_def same_size)
  next
    case indent
    then show ?thesis
      using inv2 lx2 ws ds by (auto simp: dent_inv_def depth_def potential_def dent_def same_size)
  next
    case newline
    note n = lex_newline_facts [OF inv2(1) newline(1) nl [OF newline(2)]]
    obtain lx3 where lx3: "advances lx2 lx3" "\<And>cs. reads lx' cs = reads lx3 cs" "line lx' = line lx3"
      using n(6) newline(3) by blast
    obtain es where "reads lx3 es" "suffix es ds" "line lx3 + of_nat (count_list es 10) = line lx2 + of_nat (count_list ds 10)"
      using advances_reads [OF lx3(1) ds(1)] by blast
    then show ?thesis
      using n inv2 newline lx3 ds(2,3) suffix_order.trans [of es ds cs] by (auto simp: potential_def)
  next
    case finish
    then show ?thesis
      using inv2 lx2 ws ds by (auto simp: dent_inv_def depth_def dent_def)
  next
    case string
    have "advances lx2 lx'"
      by (rule advances_trans [OF string_run_advances [OF string(2)]]) (intro advances.set_kind advances.here, simp)
    moreover have "lex_size lx' < lex_size lx2"
      using string_run_size [OF string(2)] lex_size_pos [OF string(1)] by (simp add: same_size)
    moreover have "dent (tok_kind lx') = 0" using string_run_kind [OF string(2)] by simp
    ultimately show ?thesis using scan by (auto simp: dent_def split: if_splits)
  next
    case name
    then show ?thesis
      using advances_strict [OF lex_name_advances [of lx2 opt] name(1)] by (intro scan) simp_all
  next
    case number
    then show ?thesis
      using lex_number_advances [of lx2] advances_strict [OF _ number(1)] by (intro scan) fastforce+
  next
    case operator
    obtain c es where c: "ds = c # es" using reads_is_end [OF ds(1)] operator(1) by (cases ds) auto
    have k: "c \<notin> {99, 101}"
      using operator(2) reads_Cons(1) [OF ds(1) [unfolded c]]
      by (auto simp: is_head_of_identifier_def is_letter_def char_classes char_in_def)
    note adv2 = lex_operator_advances [OF ds(1) [unfolded c] k]
    show ?thesis
    proof (rule scan)
      show "advances lx2 lx'"
        unfolding operator(3) by (rule advances_trans [OF adv2]) (intro advances.next_char advances.here)
      show "lex_size lx' < lex_size lx2"
        using advances_keeps [OF adv2] next_char_less [OF operator(1)] by (simp add: operator(3))
      show "tok_kind lx' \<notin> {MP_TOKEN_INDENT, MP_TOKEN_DEDENT}"
        unfolding operator(3) by (rule lex_operator_kind [OF ds(1) [unfolded c] k])
    qed
  qed
qed

section \<open>Runs\<close>

text \<open>The lexer with the first three characters loaded, and \<open>n\<close> calls of \<open>mp_lexer_to_next\<close>: the kinds of the tokens.\<close>

definition lexer_first :: "u8 list \<Rightarrow> lexer" where
  "lexer_first rd = next_char (next_char (next_char (lexer_start rd)))"

definition source_chars :: "u8 list \<Rightarrow> u32 list" where
  "source_chars rd = cook 0 (map ucast rd)"

fun lexer_run :: "nat \<Rightarrow> u32 \<Rightarrow> lexer \<Rightarrow> lex_error + (mp_token_kind list \<times> lexer)" where
  "lexer_run 0 opt lx = Inr ([], lx)"
| "lexer_run (Suc n) opt lx =
     (case mp_lexer_to_next opt lx of
        Inl e \<Rightarrow> Inl e
      | Inr lx1 \<Rightarrow> (case lexer_run n opt lx1 of Inl e \<Rightarrow> Inl e | Inr (ks, lx2) \<Rightarrow> Inr (tok_kind lx1 # ks, lx2)))"

lemma lexer_first_facts:
  "reads (lexer_first rd) (source_chars rd)" "dent_inv (lexer_first rd)" "depth (lexer_first rd) = 0"
  "line (lexer_first rd) = 1" "potential (lexer_first rd) \<le> 21 * length rd + 22" "vstr (lexer_first rd) = []"
  "emit_dent (lexer_first rd) = 0" "nested_bracket_level (lexer_first rd) = 0"
proof -
  have E: "MP_LEXER_EOF \<noteq> 0" by (simp add: MP_LEXER_EOF_def)
  have "reads (lexer_start rd) (0 # 0 # 0 # source_chars rd)"
    using E by (simp add: reads_def lex_inv_def pending_def lexer_start_def source_chars_def)
  then have r1: "reads (next_char (lexer_start rd)) (0 # 0 # source_chars rd)" by (rule next_char_Cons)
  then have r2: "reads (next_char (next_char (lexer_start rd))) (0 # source_chars rd)" by (rule next_char_Cons)
  then show "reads (lexer_first rd) (source_chars rd)" unfolding lexer_first_def by (rule next_char_Cons)
  show "line (lexer_first rd) = 1"
    using reads_Cons(1) [OF r1] reads_Cons(1) [OF r2] by (simp add: lexer_first_def lexer_start_def)
  have "lex_size (lexer_start rd) = 9 + 7 * length rd"
    using E by (simp add: lex_size_def present_def weight_def lexer_start_def)
  then have "lex_size (lexer_first rd) \<le> 7 + 7 * length rd"
    using next_char_size [of "lexer_start rd"] next_char_size [of "next_char (lexer_start rd)"]
      next_char_le [of "next_char (next_char (lexer_start rd))"] unfolding lexer_first_def by linarith
  then show "potential (lexer_first rd) \<le> 21 * length rd + 22"
    by (simp add: potential_def lexer_first_def lexer_start_def)
  show "dent_inv (lexer_first rd)" "depth (lexer_first rd) = 0" "vstr (lexer_first rd) = []" "emit_dent (lexer_first rd) = 0"
    "nested_bracket_level (lexer_first rd) = 0"
    by (simp_all add: dent_inv_def depth_def lexer_first_def lexer_start_def)
qed

lemma lexer_run_facts:
  "lexer_run n opt lx = Inr (ks, lx') \<Longrightarrow> dent_inv lx \<Longrightarrow> reads lx cs \<Longrightarrow>
     dent_inv lx' \<and> depth lx' = depth lx + (\<Sum>k \<leftarrow> ks. dent k)
     \<and> (\<exists>ds. reads lx' ds \<and> suffix ds cs \<and> line lx' + of_nat (count_list ds 10) = line lx + of_nat (count_list cs 10))"
proof (induction n arbitrary: lx ks cs)
  case (Suc n)
  then obtain lx1 ks1 where t: "mp_lexer_to_next opt lx = Inr lx1" and r: "lexer_run n opt lx1 = Inr (ks1, lx')"
    and ks: "ks = tok_kind lx1 # ks1"
    by (auto split: sum.splits)
  from to_next_step [OF Suc.prems(2,3) t] obtain ds where ds: "dent_inv lx1" "depth lx1 = depth lx + dent (tok_kind lx1)"
    "reads lx1 ds" "suffix ds cs" "line lx1 + of_nat (count_list ds 10) = line lx + of_nat (count_list cs 10)" by blast
  from Suc.IH [OF r ds(1,3)] show ?case
    using ds suffix_order.trans by (auto simp: ks)
qed auto

lemma lexer_run_ends:
  "dent_inv lx \<Longrightarrow> reads lx cs \<Longrightarrow> \<exists>n \<le> potential lx + 1.
     case lexer_run n opt lx of Inl e \<Rightarrow> True | Inr (ks, lx') \<Rightarrow> ks \<noteq> [] \<and> last ks = MP_TOKEN_END"
proof (induction "potential lx" arbitrary: lx cs rule: less_induct)
  case less
  show ?case
  proof (cases "mp_lexer_to_next opt lx")
    case (Inl e)
    then show ?thesis by (intro exI [of _ 1]) simp
  next
    case (Inr lx1)
    note step = to_next_step [OF less.prems Inr]
    show ?thesis
    proof (cases "tok_kind lx1 = MP_TOKEN_END")
      case True
      then show ?thesis using Inr by (intro exI [of _ 1]) simp
    next
      case False
      then have p: "potential lx1 < potential lx" using step by blast
      from less.hyps [OF p] step obtain n where n: "n \<le> potential lx1 + 1"
        "case lexer_run n opt lx1 of Inl e \<Rightarrow> True | Inr (ks, lx') \<Rightarrow> ks \<noteq> [] \<and> last ks = MP_TOKEN_END" by blast
      then have "Suc n \<le> potential lx + 1" using p by simp
      moreover have "case lexer_run (Suc n) opt lx of Inl e \<Rightarrow> True | Inr (ks, lx') \<Rightarrow> ks \<noteq> [] \<and> last ks = MP_TOKEN_END"
        using n(2) Inr by (auto split: sum.splits)
      ultimately show ?thesis by blast
    qed
  qed
qed

text \<open>
  C24: every text is tokenised to its end.  Whatever the bytes of the source, calling \<open>mp_lexer_to_next\<close> at
  most \<open>21 * len + 23\<close> times yields the end token, unless a \<open>\N\<close> escape raises \<open>NotImplementedError\<close>.
\<close>
theorem lexer_reaches_end:
  "\<exists>n \<le> 21 * length rd + 23. lexer_run n opt (lexer_first rd) = Inl NotImplementedError
     \<or> (\<exists>ks lx. lexer_run n opt (lexer_first rd) = Inr (ks @ [MP_TOKEN_END], lx))"
proof -
  obtain n where n: "n \<le> potential (lexer_first rd) + 1"
    "case lexer_run n opt (lexer_first rd) of Inl e \<Rightarrow> True | Inr (ks, lx') \<Rightarrow> ks \<noteq> [] \<and> last ks = MP_TOKEN_END"
    using lexer_run_ends [OF lexer_first_facts(2,1)] by blast
  show ?thesis
  proof (cases "lexer_run n opt (lexer_first rd)")
    case (Inl e)
    then show ?thesis using n(1) lexer_first_facts(5) [of rd] by (cases e) (intro exI [of _ n], simp)
  next
    case (Inr p)
    then obtain ks lx where "lexer_run n opt (lexer_first rd) = Inr (ks, lx)" "ks \<noteq> []" "last ks = MP_TOKEN_END"
      using n(2) by (cases p) auto
    then have "lexer_run n opt (lexer_first rd) = Inr (butlast ks @ [MP_TOKEN_END], lx)"
      by (metis append_butlast_last_id)
    then show ?thesis using n(1) lexer_first_facts(5) [of rd] by (intro exI [of _ n]) auto
  qed
qed

text \<open>
  C34: a run of the lexer keeps its place.  After any number of tokens what is left is an end piece of the source
  with its line ends normalised, the line counter is one more than the newlines consumed, every \<open>DEDENT\<close>
  emitted closes an \<open>INDENT\<close> emitted before, and the blocks still open are the levels on the stack, bottom
  level and pending dents apart.
\<close>
theorem lexer_keeps_its_place:
  assumes "lexer_run n opt (lexer_first rd) = Inr (ks, lx)"
  shows "(\<exists>done left. source_chars rd = done @ left \<and> reads lx left \<and> line lx = 1 + of_nat (count_list done 10))
    \<and> int (count_list ks MP_TOKEN_INDENT) - int (count_list ks MP_TOKEN_DEDENT) = int (length (indent_level lx)) - 1 - emit_dent lx
    \<and> count_list ks MP_TOKEN_DEDENT \<le> count_list ks MP_TOKEN_INDENT"
proof -
  note f = lexer_run_facts [OF assms lexer_first_facts(2,1)] lexer_first_facts(3,4) [of rd]
  then obtain ds where ds: "reads lx ds" "suffix ds (source_chars rd)"
    "line lx + of_nat (count_list ds 10) = 1 + of_nat (count_list (source_chars rd) 10)" by auto
  then obtain cs where "source_chars rd = cs @ ds" by (auto simp: suffix_def)
  then have "source_chars rd = cs @ ds \<and> reads lx ds \<and> line lx = 1 + of_nat (count_list cs 10)"
    using ds by (simp add: algebra_simps)
  then have place: "\<exists>done left. source_chars rd = done @ left \<and> reads lx left \<and> line lx = 1 + of_nat (count_list done 10)"
    by blast
  have sum: "(\<Sum>k \<leftarrow> ks. dent k) = int (count_list ks MP_TOKEN_INDENT) - int (count_list ks MP_TOKEN_DEDENT)" for ks
    by (induction ks) (auto simp: dent_def)
  have "0 \<le> depth lx" "depth lx = (\<Sum>k \<leftarrow> ks. dent k)" using f by (simp_all add: dent_inv_def)
  then have "int (count_list ks MP_TOKEN_INDENT) - int (count_list ks MP_TOKEN_DEDENT) = int (length (indent_level lx)) - 1 - emit_dent lx"
    "count_list ks MP_TOKEN_DEDENT \<le> count_list ks MP_TOKEN_INDENT"
    unfolding sum depth_def by linarith+
  with place show ?thesis by blast
qed

theorem lexer_keeps_its_place_witness:
  "\<exists>lx. lexer_run 10 0 (lexer_first (map of_char ''if x: '' @ [10, 32, 32, 121])) = Inr
       ([MP_TOKEN_KW KW_IF, MP_TOKEN_NAME, MP_TOKEN_DEL DEL_COLON, MP_TOKEN_NEWLINE, MP_TOKEN_INDENT, MP_TOKEN_NAME,
         MP_TOKEN_NEWLINE, MP_TOKEN_DEDENT, MP_TOKEN_END, MP_TOKEN_END], lx)
     \<and> int (length (indent_level lx)) - 1 - emit_dent lx = 0"
proof -
  let ?run = "lexer_run 10 0 (lexer_first (map of_char ''if x: '' @ [10, 32, 32, 121]))"
  have "(case ?run of Inl e \<Rightarrow> None | Inr (ks, lx) \<Rightarrow> Some ks)
    = Some [MP_TOKEN_KW KW_IF, MP_TOKEN_NAME, MP_TOKEN_DEL DEL_COLON, MP_TOKEN_NEWLINE, MP_TOKEN_INDENT, MP_TOKEN_NAME,
         MP_TOKEN_NEWLINE, MP_TOKEN_DEDENT, MP_TOKEN_END, MP_TOKEN_END]" by code_simp
  then obtain lx where run: "?run = Inr
       ([MP_TOKEN_KW KW_IF, MP_TOKEN_NAME, MP_TOKEN_DEL DEL_COLON, MP_TOKEN_NEWLINE, MP_TOKEN_INDENT, MP_TOKEN_NAME,
         MP_TOKEN_NEWLINE, MP_TOKEN_DEDENT, MP_TOKEN_END, MP_TOKEN_END], lx)"
    by (auto split: sum.splits)
  from lexer_keeps_its_place [OF run] show ?thesis using run by simp
qed

end
