(* ===== verification/LexScan.thy ===== *)
theory LexScan
  imports LexTokens
begin

text \<open>
  Single tokens: what \<open>mp_lexer_to_next\<close> returns for a name, a keyword or an operator, in terms of the
  characters that are left to read.
\<close>

section \<open>White space before a token\<close>

definition blank :: "u32 \<Rightarrow> bool" where
  "blank c \<longleftrightarrow> unichar_isspace c \<and> c \<noteq> 10"

lemma skip_whitespace_blanks:
  "reads lx (bs @ c # cs) \<Longrightarrow> \<forall>b \<in> set bs. blank b \<Longrightarrow> \<not> unichar_isspace c \<Longrightarrow> c \<noteq> 35 \<Longrightarrow> c \<noteq> 92 \<Longrightarrow>
     \<exists>lx'. skip_whitespace stop lx = (False, lx') \<and> reads lx' (c # cs) \<and> nested_bracket_level lx' = nested_bracket_level lx
       \<and> vstr lx' = vstr lx \<and> emit_dent lx' = emit_dent lx"
proof (induction bs arbitrary: lx)
  case Nil
  have "c \<noteq> 10" using Nil(3) by (auto simp: char_classes char_in_def)
  then show ?case
    using Nil reads_Cons(1,2) [of lx c cs] by (subst skip_whitespace.simps)
      (simp add: is_end_def is_physical_newline_def is_whitespace_def is_char_def is_char_and_def)
next
  case (Cons b bs)
  have r: "reads lx (b # bs @ c # cs)" using Cons.prems(1) by simp
  note b = reads_Cons(1,2) [OF r]
  have "skip_whitespace stop lx = skip_whitespace stop (next_char lx)"
    using b Cons.prems(2) by (subst skip_whitespace.simps)
      (auto simp: is_end_def is_physical_newline_def is_whitespace_def blank_def)
  then show ?case using Cons.IH [OF next_char_Cons [OF r]] Cons.prems by simp
qed

lemma skip_whitespace_at_newline:
  "reads lx (bs @ 10 # cs) \<Longrightarrow> \<forall>b \<in> set bs. blank b \<Longrightarrow> nested_bracket_level lx = 0 \<Longrightarrow>
     \<exists>lx'. skip_whitespace True lx = (True, lx') \<and> reads lx' (10 # cs)
       \<and> vstr lx' = vstr lx \<and> emit_dent lx' = emit_dent lx \<and> tok_kind lx' = tok_kind lx"
proof (induction bs arbitrary: lx)
  case Nil
  then show ?case
    using reads_Cons(1,2) [of lx 10 cs] by (subst skip_whitespace.simps) (simp add: is_end_def is_physical_newline_def)
next
  case (Cons b bs)
  have r: "reads lx (b # bs @ 10 # cs)" using Cons.prems(1) by simp
  note b = reads_Cons(1,2) [OF r]
  have "skip_whitespace True lx = skip_whitespace True (next_char lx)"
    using b Cons.prems(2) by (subst skip_whitespace.simps)
      (auto simp: is_end_def is_physical_newline_def is_whitespace_def blank_def)
  then show ?case using Cons.IH [OF next_char_Cons [OF r]] Cons.prems by simp
qed

lemma token_start_blanks:
  assumes "reads lx (bs @ c # cs)" "\<forall>b \<in> set bs. blank b" "\<not> unichar_isspace c" "c \<noteq> 35" "c \<noteq> 92" "emit_dent lx = 0"
  shows "\<exists>lx'. token_start lx = (False, lx') \<and> reads lx' (c # cs) \<and> nested_bracket_level lx' = nested_bracket_level lx
    \<and> vstr lx' = [] \<and> emit_dent lx' = 0"
proof -
  have "reads (lx\<lparr>vstr := []\<rparr>) (bs @ c # cs)" using assms(1) by simp
  from skip_whitespace_blanks [OF this assms(2-5), of True] obtain lx1
    where lx1: "skip_whitespace True (lx\<lparr>vstr := []\<rparr>) = (False, lx1)" "reads lx1 (c # cs)"
      "nested_bracket_level lx1 = nested_bracket_level lx" "vstr lx1 = []" "emit_dent lx1 = emit_dent lx" by auto
  then show ?thesis using assms(6) by (simp add: token_start_def)
qed

section \<open>The start of a literal\<close>

definition quote :: "u32 \<Rightarrow> bool" where
  "quote c \<longleftrightarrow> c = 39 \<or> c = 34"

fun string_start :: "u32 list \<Rightarrow> bool" where
  "string_start (c # d # e # cs) \<longleftrightarrow> quote c \<or> c \<in> {114, 117, 98} \<and> quote d \<or> (c, d) \<in> {(114, 98), (98, 114)} \<and> quote e"
| "string_start [c, d] \<longleftrightarrow> quote c \<or> c \<in> {114, 117, 98} \<and> quote d"
| "string_start [c] \<longleftrightarrow> quote c"
| "string_start [] \<longleftrightarrow> False"

lemma reads_third:
  assumes "reads lx (c # d # cs)" "quote e"
  shows "chr2 lx = e \<longleftrightarrow> cs \<noteq> [] \<and> hd cs = e"
proof -
  have e: "e \<noteq> MP_LEXER_EOF" "e \<noteq> 13" "e \<noteq> 10" using assms(2) by (auto simp: quote_def MP_LEXER_EOF_def)
  show ?thesis using assms(1) e by (auto simp: reads_def pending_def split: if_splits)
qed

lemma is_string_or_bytes_reads:
  assumes "reads lx cs"
  shows "is_string_or_bytes lx \<longleftrightarrow> string_start cs"
proof (cases cs rule: string_start.cases)
  case (1 c d e ds)
  have q: "quote 39" "quote 34" by (simp_all add: quote_def)
  show ?thesis
    using reads_Cons(1) [of lx c "d # e # ds"] reads_Cons2 [of lx c d "e # ds"] reads_third [of lx c d "e # ds", OF _ q(1)]
      reads_third [of lx c d "e # ds", OF _ q(2)] assms
    by (auto simp: 1 is_string_or_bytes_def is_char_or_def is_char_or3_def is_char_and_def is_char_following_or_def
        is_char_following_following_or_def quote_def)
next
  case (2 c d)
  have q: "quote 39" "quote 34" by (simp_all add: quote_def)
  show ?thesis
    using reads_Cons(1) [of lx c "[d]"] reads_Cons2 [of lx c d "[]"] reads_third [of lx c d "[]", OF _ q(1)]
      reads_third [of lx c d "[]", OF _ q(2)] assms
    by (auto simp: 2 is_string_or_bytes_def is_char_or_def is_char_or3_def is_char_and_def is_char_following_or_def
        is_char_following_following_or_def quote_def)
next
  case (3 c)
  then show ?thesis
    using reads_Cons(1) [of lx c "[]"] reads_single [of lx c] assms
    by (auto simp: is_string_or_bytes_def is_char_or_def is_char_or3_def is_char_and_def is_char_following_or_def
        is_char_following_following_or_def quote_def)
next
  case 4
  then show ?thesis using string_or_bytes_not_end [of lx] reads_is_end [OF assms] by auto
qed

section \<open>Names, keywords, operators\<close>

text \<open>
  C33: a name is the longest run of identifier characters, and its kind is the entry of the keyword table
  (with \<open>__debug__\<close> turned into a truth value by the optimisation level): the early exit of the search
  through the sorted table finds what a plain lookup finds.
\<close>
theorem lexer_name_correct:
  assumes "reads lx (bs @ c # cs)" "\<forall>b \<in> set bs. blank b" "emit_dent lx = 0"
    and "ident_char c" "\<not> unichar_isdigit c" "\<not> string_start (c # cs)"
  defines "w \<equiv> c # takeWhile ident_char cs"
  shows "\<exists>lx'. mp_lexer_to_next opt lx = Inr lx' \<and> tok_kind lx' = name_kind opt (bytes w) \<and> vstr lx' = bytes w
    \<and> reads lx' (dropWhile ident_char cs)"
proof -
  have c: "\<not> unichar_isspace c" "c \<noteq> 35" "c \<noteq> 92" "c \<noteq> 10"
    using assms(4) by (auto simp: ident_char_def char_classes char_in_def word_le_nat_alt)
  obtain lx2 where lx2: "token_start lx = (False, lx2)" "reads lx2 (c # cs)" "vstr lx2 = []" "emit_dent lx2 = 0"
    using token_start_blanks [OF assms(1,2) c(1-3) assms(3)] by blast
  note r = reads_Cons [OF lx2(2)]
  have "\<not> is_end lx2" "\<not> is_string_or_bytes lx2" "is_head_of_identifier lx2"
    using r assms(4-6) is_string_or_bytes_reads [OF lx2(2)]
    by (auto simp: is_end_def is_head_of_identifier_def is_letter_def ident_char_def)
  then have "mp_lexer_to_next opt lx = Inr (lex_name opt lx2)"
    using lx2 by (simp add: to_next_token_start)
  then show ?thesis using lex_name_reads [OF lx2(2,3) assms(4)] assms(4) by (simp add: w_def)
qed


theorem lexer_name_correct_witness:
  "(\<exists>lx'. mp_lexer_to_next 0 (lexer_first (map of_char ''is_1'')) = Inr lx' \<and> tok_kind lx' = MP_TOKEN_NAME
     \<and> vstr lx' = map of_char ''is_1'')
   \<and> (\<exists>lx'. mp_lexer_to_next 0 (lexer_first (map of_char ''is''))  = Inr lx' \<and> tok_kind lx' = MP_TOKEN_KW KW_IS)"
proof -
  let ?src = "map of_char ''is_1'' :: u8 list" and ?src2 = "map of_char ''is'' :: u8 list"
  have "reads (lexer_first ?src) ([] @ 105 # [115, 95, 49, 10])" "reads (lexer_first ?src2) ([] @ 105 # [115, 10])"
    using lexer_first_facts(1) [of ?src] lexer_first_facts(1) [of ?src2] by (simp_all add: source_chars_def)
  moreover have "ident_char 105" "ident_char 115" "ident_char 95" "ident_char 49" "\<not> ident_char 10" "\<not> unichar_isdigit 105"
    by (simp_all add: ident_char_def char_classes char_in_def)
  ultimately show ?thesis
    using lexer_name_correct [of "lexer_first ?src" "[]" 105 "[115, 95, 49, 10]" 0]
      lexer_name_correct [of "lexer_first ?src2" "[]" 105 "[115, 10]" 0]
    by (auto simp: lexer_first_facts quote_def name_kind_def tok_kw_def)
qed

text \<open>
  C32: an operator or delimiter is the longest one that the text starts with; what starts with none is an
  invalid token of one character; and the bracket depth goes up and down with the brackets.
\<close>
theorem lexer_operator_correct:
  assumes "reads lx (bs @ c # cs)" "\<forall>b \<in> set bs. blank b" "emit_dent lx = 0" "\<not> unichar_isspace c"
    and "\<not> ident_char c" "c \<notin> {34, 35, 39, 92}" "c = 46 \<longrightarrow> cs = [] \<or> \<not> unichar_isdigit (hd cs)"
  shows "\<exists>lx'. mp_lexer_to_next opt lx = Inr lx' \<and>
    (case longest_operator (c # cs) of
       None \<Rightarrow> tok_kind lx' = MP_TOKEN_INVALID \<and> reads lx' cs
     | Some (s, k) \<Rightarrow> tok_kind lx' = k \<and> (\<exists>rest. c # cs = s @ rest \<and> reads lx' rest)
         \<and> nested_bracket_level lx' = nested_bracket_level lx + nesting k
         \<and> (\<forall>(s', k') \<in> set operator_table. prefix s' (c # cs) \<longrightarrow> length s' \<le> length s))"
proof -
  have c: "c \<noteq> 35" "c \<noteq> 92" "c \<notin> {99, 101}" "\<not> string_start (c # cs)" "\<not> unichar_isdigit c"
    using assms(5,6) by (cases "c # cs" rule: string_start.cases;
      auto simp: ident_char_def char_classes char_in_def quote_def word_le_nat_alt)+
  obtain lx2 where lx2: "token_start lx = (False, lx2)" "reads lx2 (c # cs)" "nested_bracket_level lx2 = nested_bracket_level lx"
    "emit_dent lx2 = 0"
    using token_start_blanks [OF assms(1,2,4) c(1,2) assms(3)] by blast
  note r = reads_Cons [OF lx2(2)]
  have "\<not> is_end lx2" "\<not> is_string_or_bytes lx2" "\<not> is_head_of_identifier lx2" "\<not> is_digit lx2"
    using r assms(5) c(4,5) is_string_or_bytes_reads [OF lx2(2)]
    by (auto simp: is_end_def is_head_of_identifier_def is_letter_def is_digit_def ident_char_def)
  moreover have "\<not> (is_char lx2 46 \<and> is_following_digit lx2)"
    using r(1) assms(7) reads_Cons2 [of lx2 c "hd cs" "tl cs"] reads_single [of lx2 c] lx2(2)
    by (cases cs) (auto simp: is_char_def is_following_digit_def)
  ultimately have "mp_lexer_to_next opt lx = Inr (lex_operator lx2)"
    using lx2 by (auto simp: to_next_token_start)
  then show ?thesis
    using lex_operator_munch [OF lx2(2) c(3)] longest_operator_longest [of "c # cs"] lx2(3)
    by (auto split: option.splits)
qed

theorem lexer_operator_correct_witness:
  "\<exists>lx'. mp_lexer_to_next 0 (lexer_first (map of_char '' <<=='')) = Inr lx' \<and> tok_kind lx' = MP_TOKEN_DEL DEL_DBL_LESS_EQUAL"
proof -
  let ?src = "map of_char '' <<=='' :: u8 list"
  have "reads (lexer_first ?src) ([32] @ 60 # [60, 61, 61, 10])"
    using lexer_first_facts(1) [of ?src] by (simp add: source_chars_def)
  moreover have "blank 32" "\<not> unichar_isspace 60" "\<not> ident_char 60"
    by (simp_all add: blank_def ident_char_def char_classes char_in_def)
  ultimately show ?thesis
    using lexer_operator_correct [of "lexer_first ?src" "[32]" 60 "[60, 61, 61, 10]" 0]
    by (auto simp: lexer_first_facts longest_operator_first op_candidates prefix_Nil_Cons)
qed

end
