(* ===== verification/SmallInt.thy ===== *)
theory SmallInt
  imports Prelude "HOL-Library.Signed_Division"
begin

text \<open>
  MicroPython's small integers, \<open>python/py/smallint.c\<close> and \<open>smallint.h\<close>: 31-bit signed values
  held in a 32-bit \<open>mp_int_t\<close>.  An \<open>mp_int_t\<close> is a word read with \<open>sint\<close>; the division and the
  remainder of C truncate towards zero.
\<close>

type_synonym mp_int = "32 word"

definition c_div :: "mp_int \<Rightarrow> mp_int \<Rightarrow> mp_int" where
  "c_div x y = word_of_int (sint x sdiv sint y)"

definition c_rem :: "mp_int \<Rightarrow> mp_int \<Rightarrow> mp_int" where
  "c_rem x y = word_of_int (sint x smod sint y)"

definition MP_SMALL_INT_MIN :: mp_int where
  "MP_SMALL_INT_MIN = signed_drop_bit 1 0x80000000"

definition MP_SMALL_INT_MAX :: mp_int where
  "MP_SMALL_INT_MAX = NOT MP_SMALL_INT_MIN"

definition MP_SMALL_INT_FITS :: "mp_int \<Rightarrow> bool" where
  "MP_SMALL_INT_FITS n \<longleftrightarrow> (n XOR push_bit 1 n) AND 0x80000000 = 0"

definition mp_small_int_mul_overflow :: "mp_int \<Rightarrow> mp_int \<Rightarrow> bool" where
  "mp_small_int_mul_overflow x y =
     (if 0 < sint x then
        (if 0 < sint y then sint (c_div MP_SMALL_INT_MAX y) < sint x
         else sint y < sint (c_div MP_SMALL_INT_MIN x))
      else
        (if 0 < sint y then sint x < sint (c_div MP_SMALL_INT_MIN y)
         else x \<noteq> 0 \<and> sint y < sint (c_div MP_SMALL_INT_MAX x)))"

definition mp_small_int_modulo :: "mp_int \<Rightarrow> mp_int \<Rightarrow> mp_int" where
  "mp_small_int_modulo dividend divisor =
     (let dividend = c_rem dividend divisor
      in if sint dividend < 0 \<and> 0 < sint divisor \<or> 0 < sint dividend \<and> sint divisor < 0
         then dividend + divisor else dividend)"

definition mp_small_int_floor_divide :: "mp_int \<Rightarrow> mp_int \<Rightarrow> mp_int" where
  "mp_small_int_floor_divide num denom =
     (let num = (if 0 \<le> sint num then (if sint denom < 0 then num + (- denom - 1) else num)
                 else (if 0 \<le> sint denom then num + (- denom + 1) else num))
      in c_div num denom)"

section \<open>Readings\<close>

lemma sint_of_int_fits: "- 2147483648 \<le> k \<Longrightarrow> k < 2147483648 \<Longrightarrow> sint (word_of_int k :: mp_int) = k"
  using signed_take_bit_int_eq_self [of 31 k] by (simp add: sint_sbintrunc')

lemma sint_bounds: "- 2147483648 \<le> sint (x :: mp_int)" "sint (x :: mp_int) < 2147483648"
  using sint_greater_eq [of x] sint_less [of x] by simp_all

lemma small_int_limits [simp]: "sint MP_SMALL_INT_MIN = - 1073741824" "sint MP_SMALL_INT_MAX = 1073741823"
proof -
  have "sint MP_SMALL_INT_MIN = drop_bit 1 (sint (0x80000000 :: mp_int))"
    unfolding MP_SMALL_INT_MIN_def by (rule sint_signed_drop_bit_eq)
  then show min: "sint MP_SMALL_INT_MIN = - 1073741824" by simp
  show "sint MP_SMALL_INT_MAX = 1073741823" by (simp add: MP_SMALL_INT_MAX_def signed_not_eq min)
qed

definition small_int :: "int \<Rightarrow> bool" where
  "small_int k \<longleftrightarrow> - (2 ^ 30) \<le> k \<and> k < 2 ^ 30"

lemma abs_sdiv_le: "\<bar>k sdiv l\<bar> \<le> \<bar>k :: int\<bar>"
proof -
  have nn: "0 \<le> \<bar>k\<bar> div \<bar>l\<bar>" by (cases "l = 0") (simp_all add: pos_imp_zdiv_nonneg_iff)
  have "\<bar>k sdiv l\<bar> = \<bar>sgn k * sgn l\<bar> * (\<bar>k\<bar> div \<bar>l\<bar>)"
    using nn by (simp add: signed_divide_int_def abs_mult)
  also have "\<dots> \<le> \<bar>k\<bar> div \<bar>l\<bar>" using nn by (simp add: abs_mult sgn_if)
  also have "\<dots> \<le> \<bar>k\<bar>" by (cases "l = 0") (use zdiv_mono2 [of "\<bar>k\<bar>" 1 "\<bar>l\<bar>"] in simp_all)
  finally show ?thesis .
qed

lemma sint_c_div:
  assumes "\<bar>sint x\<bar> < 2147483648"
  shows "sint (c_div x y) = sint x sdiv sint y"
  unfolding c_div_def using abs_sdiv_le [of "sint x" "sint y"] assms by (intro sint_of_int_fits) linarith+

lemma mul_div_less: "0 < q \<Longrightarrow> a div q < b \<longleftrightarrow> a < b * q" for a b q :: int
proof -
  assume q: "0 < q"
  have "b \<le> a div q \<longleftrightarrow> b * q \<le> a"
  proof
    assume "b \<le> a div q"
    then have "b * q \<le> a div q * q" using q by (intro mult_right_mono) auto
    also have "\<dots> \<le> a" using q pos_mod_sign [of q a] by (simp add: minus_mod_eq_div_mult [symmetric])
    finally show "b * q \<le> a" .
  next
    assume "b * q \<le> a"
    then have "b * q div q \<le> a div q" using q by (intro zdiv_mono1)
    then show "b \<le> a div q" using q by simp
  qed
  then show ?thesis by linarith
qed

lemma mul_overflow_iff:
  "mp_small_int_mul_overflow x y \<longleftrightarrow> \<not> (- 1073741824 \<le> sint x * sint y \<and> sint x * sint y \<le> 1073741823)"
proof -
  let ?x = "sint x" and ?y = "sint y"
  have d: "sint (c_div MP_SMALL_INT_MAX z) = 1073741823 sdiv sint z" "sint (c_div MP_SMALL_INT_MIN z) = (- 1073741824) sdiv sint z" for z
    by (simp_all add: sint_c_div)
  have x0: "x = 0 \<longleftrightarrow> ?x = 0" by (simp add: signed_eq_0_iff)
  consider "0 < ?x" "0 < ?y" | "0 < ?x" "?y \<le> 0" | "?x \<le> 0" "0 < ?y" | "?x = 0" "?y \<le> 0" | "?x < 0" "?y \<le> 0" by linarith
  then show ?thesis
  proof cases
    case 1
    then have "mp_small_int_mul_overflow x y \<longleftrightarrow> 1073741823 div ?y < ?x"
      by (simp add: mp_small_int_mul_overflow_def d signed_divide_int_def)
    also have "\<dots> \<longleftrightarrow> 1073741823 < ?x * ?y" by (rule mul_div_less [OF 1(2)])
    finally show ?thesis using mult_pos_pos [OF 1] by auto
  next
    case 2
    then have "mp_small_int_mul_overflow x y \<longleftrightarrow> 1073741824 div ?x < - ?y"
      by (simp add: mp_small_int_mul_overflow_def d signed_divide_int_def) linarith
    also have "\<dots> \<longleftrightarrow> 1073741824 < - ?y * ?x" by (rule mul_div_less [OF 2(1)])
    finally show ?thesis using mult_nonneg_nonpos [of ?x ?y] 2 by (auto simp: mult.commute)
  next
    case 3
    then have "mp_small_int_mul_overflow x y \<longleftrightarrow> 1073741824 div ?y < - ?x"
      by (simp add: mp_small_int_mul_overflow_def d signed_divide_int_def) linarith
    also have "\<dots> \<longleftrightarrow> 1073741824 < - ?x * ?y" by (rule mul_div_less [OF 3(2)])
    finally show ?thesis using mult_nonpos_nonneg [of ?x ?y] 3 by auto
  next
    case 4
    then show ?thesis by (simp add: mp_small_int_mul_overflow_def x0)
  next
    case 5
    then have "mp_small_int_mul_overflow x y \<longleftrightarrow> 1073741823 div - ?x < - ?y"
      by (simp add: mp_small_int_mul_overflow_def d signed_divide_int_def x0) linarith
    also have "\<dots> \<longleftrightarrow> 1073741823 < - ?y * - ?x" using 5 by (intro mul_div_less) simp
    finally show ?thesis using mult_nonpos_nonpos [of ?x ?y] 5 by (auto simp: mult.commute)
  qed
qed

lemma fits_iff: "MP_SMALL_INT_FITS n \<longleftrightarrow> - 1073741824 \<le> sint n \<and> sint n \<le> 1073741823"
proof -
  have "(n XOR push_bit 1 n) AND 0x80000000 = 0 \<longleftrightarrow> \<not> bit (n XOR push_bit 1 n) 31"
    using and_exp_eq_0_iff_not_bit [of "n XOR push_bit 1 n" 31] by simp
  also have "\<dots> \<longleftrightarrow> bit n 31 = bit n 30" unfolding bit_xor_iff bit_push_bit_iff by simp
  also have "\<dots> \<longleftrightarrow> - 1073741824 \<le> sint n \<and> sint n \<le> 1073741823"
  proof -
    have u: "uint n = take_bit 30 (uint n) + of_bool (bit n 30) * 1073741824 + of_bool (bit n 31) * 2147483648"
    proof -
      have u32: "take_bit 32 (uint n) = uint n"
        using uint_ge_0 [of n] uint_bounded [of n] by (subst take_bit_int_eq_self) simp_all
      then have "uint n = take_bit 32 (uint n)" ..
      also have "\<dots> = take_bit 31 (uint n) + of_bool (bit n 31) * 2147483648"
        using take_bit_Suc_from_most [of 31 "uint n"] by (simp add: bit_uint_iff)
      also have "take_bit 31 (uint n) = take_bit 30 (uint n) + of_bool (bit n 30) * 1073741824"
        using take_bit_Suc_from_most [of 30 "uint n"] by (simp add: bit_uint_iff)
      finally show ?thesis .
    qed
    have t: "0 \<le> take_bit 30 (uint n)" "take_bit 30 (uint n) < 1073741824"
      using take_bit_int_less_exp [of 30 "uint n"] by simp_all
    have s: "sint n = uint n - of_bool (bit n 31) * 4294967296"
      using take_bit_int_eq_self [of "uint n" 32] uint_bounded [of n]
      by (simp add: sint_uint signed_take_bit_eq_take_bit_minus bit_uint_iff)
    define r where "r = take_bit 30 (uint n)"
    have "sint n = r + of_bool (bit n 30) * 1073741824 - of_bool (bit n 31) * 2147483648" "0 \<le> r" "r < 1073741824"
      using s t by (subst (asm) u, simp_all add: r_def)
    then show ?thesis by (cases "bit n 30"; cases "bit n 31") simp_all
  qed
  finally show ?thesis by (simp add: MP_SMALL_INT_FITS_def)
qed


lemma sdiv_nonneg_int: "0 \<le> x \<Longrightarrow> 0 < y \<Longrightarrow> x sdiv y = x div y" for x y :: int
  by (cases "x = 0") (simp_all add: signed_divide_int_def)

lemma ceiling_quotient: "0 < q \<Longrightarrow> (a + q - 1) div q = - (- a div q)" for a q :: int
proof (rule int_div_pos_eq [where r = "q - 1 - - a mod q"])
  assume q: "0 < q"
  show "a + q - 1 = q * - (- a div q) + (q - 1 - - a mod q)"
    using mult_div_mod_eq [of q "- a"] by (simp add: algebra_simps)
  show "0 \<le> q - 1 - - a mod q" "q - 1 - - a mod q < q"
    using pos_mod_sign [OF q, of "- a"] pos_mod_bound [OF q, of "- a"] by linarith+
qed

lemma floor_divide_sint:
  assumes "small_int (sint x)" "small_int (sint y)" "sint y \<noteq> 0"
  shows "sint (mp_small_int_floor_divide x y) = sint x div sint y"
proof -
  let ?x = "sint x" and ?y = "sint y"
  have b: "- 1073741824 \<le> ?x" "?x \<le> 1073741823" "- 1073741824 \<le> ?y" "?y \<le> 1073741823"
    using assms by (simp_all add: small_int_def)
  have add: "sint (x + (- y - 1)) = ?x - ?y - 1" "?x < 0 \<Longrightarrow> sint (x + (- y + 1)) = ?x - ?y + 1"
  proof -
    have e: "x + (- y - 1) = word_of_int (?x - ?y - 1)" "x + (- y + 1) = word_of_int (?x - ?y + 1)" by simp_all
    show "sint (x + (- y - 1)) = ?x - ?y - 1" unfolding e(1) by (rule sint_of_int_fits) (use b in linarith)+
    show "sint (x + (- y + 1)) = ?x - ?y + 1" if "?x < 0"
      unfolding e(2) by (rule sint_of_int_fits) (use b that in linarith)+
  qed
  consider "0 \<le> ?x" "0 < ?y" | "0 \<le> ?x" "?y < 0" | "?x < 0" "0 < ?y" | "?x < 0" "?y < 0" using assms(3) by linarith
  then show ?thesis
  proof cases
    case 1
    then show ?thesis using b by (simp add: mp_small_int_floor_divide_def Let_def sint_c_div sdiv_nonneg_int)
  next
    case 2
    have "sint (mp_small_int_floor_divide x y) = (?x - ?y - 1) sdiv ?y"
      using 2 b add by (simp add: mp_small_int_floor_divide_def Let_def sint_c_div)
    also have "\<dots> = - ((?x - ?y - 1) div - ?y)" using 2 by (auto simp: signed_divide_int_def sgn_if)
    also have "?x - ?y - 1 = ?x + (- ?y) - 1" by simp
    also have "- ((?x + (- ?y) - 1) div - ?y) = ?x div ?y" using 2 by (subst ceiling_quotient) simp_all
    finally show ?thesis .
  next
    case 3
    have "sint (mp_small_int_floor_divide x y) = (?x - ?y + 1) sdiv ?y"
      using 3 b add by (simp add: mp_small_int_floor_divide_def Let_def sint_c_div)
    also have "\<dots> = - ((- ?x + ?y - 1) div ?y)" using 3 by (auto simp: signed_divide_int_def sgn_if)
    also have "\<dots> = ?x div ?y" using 3 by (subst ceiling_quotient) simp_all
    finally show ?thesis .
  next
    case 4
    then have "sint (mp_small_int_floor_divide x y) = ?x sdiv ?y"
      using b by (simp add: mp_small_int_floor_divide_def Let_def sint_c_div)
    then show ?thesis using 4 by (simp add: signed_divide_int_def)
  qed
qed

lemma modulo_sint:
  assumes "small_int (sint x)" "small_int (sint y)" "sint y \<noteq> 0"
  shows "sint (mp_small_int_modulo x y) = sint x mod sint y"
proof -
  let ?x = "sint x" and ?y = "sint y"
  let ?r = "?x smod ?y"
  have b: "- 1073741824 \<le> ?x" "?x \<le> 1073741823" "- 1073741824 \<le> ?y" "?y \<le> 1073741823"
    using assms by (simp_all add: small_int_def)
  have r: "?r = sgn ?x * (\<bar>?x\<bar> mod \<bar>?y\<bar>)" by (simp add: signed_modulo_int_def)
  have m: "0 \<le> \<bar>?x\<bar> mod \<bar>?y\<bar>" "\<bar>?x\<bar> mod \<bar>?y\<bar> < \<bar>?y\<bar>" using assms(3) by simp_all
  then have "\<bar>?r\<bar> < \<bar>?y\<bar>" by (auto simp: r sgn_if)
  then have rb: "- 1073741824 \<le> ?r" "?r \<le> 1073741824" using b by linarith+
  then have c: "sint (c_rem x y) = ?r" unfolding c_rem_def by (intro sint_of_int_fits) linarith+
  have sum: "sint (c_rem x y + y) = ?r + ?y"
  proof -
    have "c_rem x y + y = word_of_int (?r + ?y)" by (simp add: c_rem_def)
    then show ?thesis using rb b sint_of_int_fits [of "?r + ?y"] by simp
  qed
  have run: "sint (mp_small_int_modulo x y) = (if ?r < 0 \<and> 0 < ?y \<or> 0 < ?r \<and> ?y < 0 then ?r + ?y else ?r)"
    by (simp add: mp_small_int_modulo_def Let_def c sum)
  consider "0 \<le> ?x" "0 < ?y" | "0 \<le> ?x" "?y < 0" | "?x < 0" "0 < ?y" | "?x < 0" "?y < 0" using assms(3) by linarith
  then show ?thesis
  proof cases
    case 1
    then have "?r = ?x mod ?y" by (cases "?x = 0") (simp_all add: r)
    moreover have "0 \<le> ?x mod ?y" using 1 by (intro pos_mod_sign) simp
    then have "\<not> ?x mod ?y < 0" by linarith
    ultimately show ?thesis using 1 by (simp add: run)
  next
    case 2
    then have "?r = ?x mod - ?y" by (cases "?x = 0") (simp_all add: r)
    moreover have "?x mod ?y = (if ?x mod - ?y = 0 then 0 else ?x mod - ?y + ?y)"
      using zmod_zminus2_eq_if [of ?x "- ?y"] by simp
    moreover have "0 \<le> ?x mod - ?y" using 2 by (intro pos_mod_sign) simp
    then have "?x mod - ?y = 0 \<or> 0 < ?x mod - ?y" by linarith
    ultimately show ?thesis using 2 by (auto simp: run)
  next
    case 3
    then have "?r = - (- ?x mod ?y)" by (simp add: r)
    moreover have "?x mod ?y = (if - ?x mod ?y = 0 then 0 else ?y - - ?x mod ?y)"
      using zmod_zminus1_eq_if [of "- ?x" ?y] by simp
    moreover have "0 \<le> - ?x mod ?y" using 3 by (intro pos_mod_sign) simp
    then have "- ?x mod ?y = 0 \<or> 0 < - ?x mod ?y" by linarith
    ultimately show ?thesis using 3 by (auto simp: run)
  next
    case 4
    then have "?r = - (- ?x mod - ?y)" by (simp add: r)
    moreover have "- (- ?x mod - ?y) = ?x mod ?y" by (simp only: mod_minus_eq minus_minus mod_minus_minus)
    moreover have "?x mod ?y \<le> 0" using 4 by (intro neg_mod_sign) simp
    then have "\<not> 0 < ?x mod ?y" by linarith
    ultimately show ?thesis using 4 by (simp add: run)
  qed
qed

text \<open>
  C37: the arithmetic of small integers is Python's: the overflow test holds exactly when the
  product leaves the 31-bit range, \<open>MP_SMALL_INT_FITS\<close> holds exactly in that range, and for a non-zero divisor the quotient and the remainder of
  two small integers are the mathematical floor quotient and modulus.
\<close>
theorem small_int_arith_correct:
  assumes "small_int (sint x)" "small_int (sint y)"
  shows "(mp_small_int_mul_overflow x y \<longleftrightarrow> \<not> small_int (sint x * sint y))
    \<and> (y \<noteq> 0 \<longrightarrow> sint (mp_small_int_floor_divide x y) = sint x div sint y
                \<and> sint (mp_small_int_modulo x y) = sint x mod sint y)
    \<and> (MP_SMALL_INT_FITS n \<longleftrightarrow> small_int (sint n))"
  using mul_overflow_iff [of x y] floor_divide_sint [OF assms] modulo_sint [OF assms] fits_iff [of n]
  by (auto simp: small_int_def signed_eq_0_iff)

theorem small_int_arith_correct_witness:
  "sint (mp_small_int_floor_divide (- 7) 2) = - 4 \<and> sint (mp_small_int_modulo (- 7) 2) = 1
    \<and> mp_small_int_mul_overflow 1073741823 2"
proof -
  have a: "small_int (sint (- 7 :: mp_int))" "small_int (sint (2 :: mp_int))" "small_int (sint (1073741823 :: mp_int))"
    by (simp_all add: small_int_def)
  have "\<not> small_int (sint (1073741823 :: mp_int) * sint (2 :: mp_int))" by (simp add: small_int_def)
  then show ?thesis
    using small_int_arith_correct [OF a(1,2)] small_int_arith_correct [OF a(3,2)] by simp
qed

end
