(* ===== verification/ParseNum.thy ===== *)
theory ParseNum
  imports SmallInt Unichar
begin

text \<open>
  Parsing of integers, \<open>python/py/parsenumbase.c\<close> and \<open>mp_parse_num_integer\<close> of \<open>parsenum.c\<close>.
  The text is a byte list, the radix a C \<open>int\<close>.  This build has no long integers: the reparse after
  an overflow, \<open>mp_obj_new_int_from_str_len\<close>, only raises \<open>OverflowError\<close>.
\<close>

datatype num_error = Bad_radix | Bad_syntax | Long_int

definition space_byte :: "u8 \<Rightarrow> bool" where
  "space_byte b \<longleftrightarrow> unichar_isspace (ucast b)"

text \<open>The number of bytes the prefix takes and the radix it stands for.\<close>

definition mp_parse_num_base :: "u8 list \<Rightarrow> int \<Rightarrow> nat \<times> int" where
  "mp_parse_num_base str base =
     (let no_prefix = (0, if base = 0 then 10 else base)
      in if length str \<le> 1 then no_prefix
         else
           let c = str ! 0; c2 = str ! 1
           in if (base = 0 \<or> base = 16) \<and> c = 0x30 then
                (if c2 OR 32 = 0x78 then (2, 16)
                 else if base = 0 \<and> c2 OR 32 = 0x6F then (2, 8)
                 else if base = 0 \<and> c2 OR 32 = 0x62 then (2, 2)
                 else (0, if base = 0 then 10 else base))
              else if base = 8 \<and> c = 0x30 then (if c2 OR 32 \<noteq> 0x6F then (0, base) else (2, base))
              else if base = 2 \<and> c = 0x30 then (if c2 OR 32 \<noteq> 0x62 then (0, base) else (2, base))
              else no_prefix)"

text \<open>The value of a digit character; anything else (\<open>_\<close> apart) is no digit.\<close>

definition digit_value :: "u8 \<Rightarrow> 32 word option" where
  "digit_value b =
     (let dig = (ucast b :: 32 word)
      in if 0x30 \<le> dig \<and> dig \<le> 0x39 then Some (dig - 0x30)
         else let dig = dig OR 0x20
              in if 0x61 \<le> dig \<and> dig \<le> 0x7A then Some (dig - (0x61 - 10)) else None)"

text \<open>
  The digit loop: the value and the rest of the text where it stopped, or \<open>None\<close> when the value
  has overflowed.
\<close>

fun parse_digits :: "mp_int \<Rightarrow> mp_int \<Rightarrow> u8 list \<Rightarrow> (mp_int \<times> u8 list) option" where
  "parse_digits base int_val [] = Some (int_val, [])"
| "parse_digits base int_val (b # str) =
     (if b = 0x5F then parse_digits base int_val str
      else case digit_value b of
        None \<Rightarrow> Some (int_val, b # str)
      | Some dig \<Rightarrow>
          if base \<le> dig then Some (int_val, b # str)
          else if mp_small_int_mul_overflow int_val base then None
          else let int_val = int_val * base + dig
               in if \<not> MP_SMALL_INT_FITS int_val then None else parse_digits base int_val str)"

definition mp_parse_num_integer :: "u8 list \<Rightarrow> int \<Rightarrow> num_error + mp_int" where
  "mp_parse_num_integer str base =
     (if base \<noteq> 0 \<and> base < 2 \<or> 36 < base then Inl Bad_radix
      else
        let str = dropWhile space_byte str;
            neg = (str \<noteq> [] \<and> hd str = 0x2D);
            str = (if str \<noteq> [] \<and> (hd str = 0x2B \<or> hd str = 0x2D) then tl str else str);
            (skip, base) = mp_parse_num_base str base;
            str_val_start = drop skip str
        in case parse_digits (word_of_int base) 0 str_val_start of
             None \<Rightarrow> Inl Long_int
           | Some (int_val, str) \<Rightarrow>
               let int_val = (if neg then - int_val else int_val)
               in if length str = length str_val_start then Inl Bad_syntax
                  else if dropWhile space_byte str \<noteq> [] then Inl Bad_syntax
                  else Inr int_val)"

section \<open>Digits\<close>

text \<open>The digits of a number in lower case, \<open>0\<close> to \<open>9\<close> and \<open>a\<close> to \<open>z\<close>.\<close>

definition digit_char :: "nat \<Rightarrow> u8" where
  "digit_char d = (if d < 10 then of_nat (0x30 + d) else of_nat (0x57 + d))"

definition digits_value :: "nat \<Rightarrow> nat list \<Rightarrow> nat" where
  "digits_value b ds = foldl (\<lambda>v d. v * b + d) 0 ds"

lemma digit_char_facts:
  assumes "d < 36"
  shows "digit_value (digit_char d) = Some (of_nat d)" "digit_char d \<noteq> 0x5F"
    "unat (digit_char d) = (if d < 10 then 48 + d else 87 + d)" "\<not> space_byte (digit_char d)"
    "digit_char d \<noteq> 0x2B" "digit_char d \<noteq> 0x2D"
proof -
  have d: "d \<in> {0,1,2,3,4,5,6,7,8,9,10,11,12,13,14,15,16,17,18,19,20,21,22,23,24,25,26,27,28,29,30,31,32,33,34,35}"
    using assms unfolding insert_iff empty_iff by presburger
  then show "digit_value (digit_char d) = Some (of_nat d)" "digit_char d \<noteq> 0x5F"
    "unat (digit_char d) = (if d < 10 then 48 + d else 87 + d)" "digit_char d \<noteq> 0x2B" "digit_char d \<noteq> 0x2D"
    by (elim insertE emptyE; simp add: digit_char_def digit_value_def Let_def)+
  then show "\<not> space_byte (digit_char d)"
    by (simp add: space_byte_def char_classes char_in_def unat_ucast_u32 split: if_splits)
qed


lemma digit_char_lower: "d < 36 \<Longrightarrow> digit_char d OR 32 = digit_char d"
proof -
  assume "d < 36"
  then have "d \<in> {0,1,2,3,4,5,6,7,8,9,10,11,12,13,14,15,16,17,18,19,20,21,22,23,24,25,26,27,28,29,30,31,32,33,34,35}"
    unfolding insert_iff empty_iff by presburger
  then show ?thesis by (elim insertE emptyE; simp add: digit_char_def)
qed

lemma space_byte_cases:
  assumes "space_byte b"
  shows "b \<in> {9, 10, 11, 12, 13, 32}"
proof -
  have "unat b \<in> {9, 10, 11, 12, 13, 32}"
    using assms by (auto simp: space_byte_def char_classes char_in_def unat_ucast_u32)
  then have "(of_nat (unat b) :: u8) \<in> of_nat ` {9, 10, 11, 12, 13, 32}" by (rule imageI)
  then show ?thesis by simp
qed

lemma space_byte_facts:
  assumes "space_byte b"
  shows "digit_value b = None" "b \<noteq> 0x5F" "b OR 32 \<notin> {0x78, 0x6F, 0x62}" "b \<noteq> 0x30"
  using space_byte_cases [OF assms] by (auto simp: digit_value_def Let_def)

lemma digits_value_mono: "0 < b \<Longrightarrow> v \<le> foldl (\<lambda>v d. v * b + d) v ds" for b v :: nat
proof (induction ds arbitrary: v)
  case Nil
  then show ?case by simp
next
  case (Cons d ds)
  have "v \<le> v * b + d" using Cons.prems by (simp add: trans_le_add1)
  also have "\<dots> \<le> foldl (\<lambda>v d. v * b + d) (v * b + d) ds" by (rule Cons.IH [OF Cons.prems])
  finally show ?case by simp
qed

lemma sint_of_nat_fits: "n < 2147483648 \<Longrightarrow> sint (of_nat n :: mp_int) = int n"
  using sint_of_int_fits [of "int n"] by simp

lemma parse_digits_render:
  assumes "2 \<le> b" "b \<le> 36"
  shows "v < 2 ^ 30 \<Longrightarrow> \<forall>d \<in> set ds. d < b \<Longrightarrow> rest = [] \<or> space_byte (hd rest) \<Longrightarrow>
    parse_digits (of_nat b) (of_nat v) (map digit_char ds @ rest)
      = (let n = foldl (\<lambda>v d. v * b + d) v ds in if n < 2 ^ 30 then Some (of_nat n, rest) else None)"
proof (induction ds arbitrary: v)
  case Nil
  then show ?case using space_byte_facts(1,2) [of "hd rest"] by (cases rest) auto
next
  case (Cons d ds)
  have d: "d < b" "d < 36" using Cons.prems(2) assms(2) by auto
  note dc = digit_char_facts [OF d(2)]
  have sb: "sint (of_nat b :: mp_int) = int b" "sint (of_nat v :: mp_int) = int v"
    using assms(2) Cons.prems(1) by (simp_all add: sint_of_nat_fits)
  have "v * b \<le> 2 ^ 30 * 36" using Cons.prems(1) assms(2) by (intro mult_le_mono) simp_all
  have nb: "\<not> (of_nat b :: 32 word) \<le> of_nat d"
    using d assms(2) by (simp add: word_le_nat_alt unat_of_nat_small)
  have ov: "mp_small_int_mul_overflow (of_nat v) (of_nat b) \<longleftrightarrow> 2 ^ 30 \<le> v * b"
  proof -
    have "int v * int b = int (v * b)" by simp
    then show ?thesis unfolding mul_overflow_iff sb by (simp del: of_nat_mult) linarith
  qed
  let ?n = "v * b + d"
  have step: "parse_digits (of_nat b) (of_nat v) (map digit_char (d # ds) @ rest)
    = (if 2 ^ 30 \<le> v * b then None
       else if \<not> MP_SMALL_INT_FITS (of_nat ?n) then None else parse_digits (of_nat b) (of_nat ?n) (map digit_char ds @ rest))"
    using dc(1,2) nb by (simp add: ov Let_def)
  show ?case
  proof (cases "2 ^ 30 \<le> v * b")
    case True
    then have "\<not> foldl (\<lambda>v d. v * b + d) ?n ds < 2 ^ 30"
      using digits_value_mono [of b ?n ds] assms(1) by linarith
    then show ?thesis using True unfolding step by simp
  next
    case False
    then have "?n < 2147483648" using d by simp
    then have fits: "MP_SMALL_INT_FITS (of_nat ?n) \<longleftrightarrow> ?n < 2 ^ 30"
      unfolding fits_iff sint_of_nat_fits [OF \<open>?n < 2147483648\<close>] by (simp del: of_nat_add of_nat_mult) linarith
    show ?thesis
    proof (cases "?n < 2 ^ 30")
      case True
      then show ?thesis using Cons.IH [OF True] Cons.prems(2,3) False fits unfolding step by simp
    next
      case nf: False
      then have "\<not> foldl (\<lambda>v d. v * b + d) ?n ds < 2 ^ 30"
        using digits_value_mono [of b ?n ds] assms(1) by linarith
      then show ?thesis using False fits nf unfolding step by simp
    qed
  qed
qed

section \<open>Round trip\<close>

text \<open>The prefixes that stand for radix \<open>b\<close> when the caller asks for radix \<open>base\<close>.\<close>

definition radix_prefix :: "nat \<Rightarrow> int \<Rightarrow> u8 list \<Rightarrow> bool" where
  "radix_prefix b base pre \<longleftrightarrow>
     pre = [] \<and> (base = int b \<or> base = 0 \<and> b = 10)
     \<or> pre \<in> {[0x30, 0x78], [0x30, 0x58]} \<and> b = 16 \<and> base \<in> {0, 16}
     \<or> pre \<in> {[0x30, 0x6F], [0x30, 0x4F]} \<and> b = 8 \<and> base \<in> {0, 8}
     \<or> pre \<in> {[0x30, 0x62], [0x30, 0x42]} \<and> b = 2 \<and> base \<in> {0, 2}"

lemma parse_base_render:
  assumes "2 \<le> b" "b \<le> 36" "radix_prefix b base pre" "ds \<noteq> []" "\<forall>d \<in> set ds. d < b"
    "rest = [] \<or> space_byte (hd rest)"
  shows "mp_parse_num_base (pre @ map digit_char ds @ rest) base = (length pre, int b)"
proof (cases "pre = []")
  case False
  then show ?thesis using assms(3,4) by (auto simp: radix_prefix_def mp_parse_num_base_def Let_def)
next
  case True
  let ?str = "map digit_char ds @ rest"
  have base: "base = int b \<or> base = 0 \<and> b = 10" using assms(3) True by (auto simp: radix_prefix_def)
  show ?thesis
  proof (cases "length ?str \<le> 1")
    case short: True
    then show ?thesis using True base assms(1) by (auto simp: mp_parse_num_base_def)
  next
    case False
    have second: "?str ! 1 OR 32 \<notin> {0x78, 0x6F, 0x62} \<or> (\<exists>d. d < b \<and> ?str ! 1 OR 32 = digit_char d)"
    proof (cases "length ds = 1")
      case True
      then obtain c where "rest = c # tl rest" using False by (cases rest) auto
      then have "rest \<noteq> []" by auto
      then have "?str ! 1 = hd rest" using True by (simp add: nth_append hd_conv_nth)
      then show ?thesis using space_byte_facts(3) [of "hd rest"] assms(6) False True by auto
    next
      case False
      then have "1 < length ds" using assms(4) by (cases ds) auto
      then have "?str ! 1 = digit_char (ds ! 1)" "ds ! 1 < b" using assms(5) by (simp_all add: nth_append)
      then show ?thesis using digit_char_lower [of "ds ! 1"] assms(2) by auto
    qed
    have no: "?str ! 1 OR 32 \<noteq> x" if x: "x \<in> {0x78, 0x6F, 0x62}" "b + 87 \<le> unat x" for x
    proof
      assume eq: "?str ! 1 OR 32 = x"
      then obtain d where "d < b" "x = digit_char d" using second x(1) by blast
      then show False using digit_char_facts(3) [of d] x(2) assms(2) by (simp split: if_splits)
    qed
    have no16: "b \<le> 16 \<Longrightarrow> ?str ! 1 OR 32 \<noteq> 0x78" and no8: "b \<le> 10 \<Longrightarrow> ?str ! 1 OR 32 \<noteq> 0x6F"
      and no2: "b \<le> 10 \<Longrightarrow> ?str ! 1 OR 32 \<noteq> 0x62"
      by (intro no; simp)+
    show ?thesis
      using base True False no16 no8 no2 assms(1) by (auto simp: mp_parse_num_base_def Let_def)
  qed
qed

lemma parse_num_value:
  assumes "2 \<le> b" "b \<le> 36" "radix_prefix b base pre" "ds \<noteq> []" "\<forall>d \<in> set ds. d < b"
    and "\<forall>c \<in> set sp1. space_byte c" "\<forall>c \<in> set sp2. space_byte c" "sign \<in> {[], [0x2B], [0x2D]}"
  shows "mp_parse_num_integer (sp1 @ sign @ pre @ map digit_char ds @ sp2) base
    = (let v = digits_value b ds
       in if v < 2 ^ 30 then Inr (if sign = [0x2D] then - of_nat v else of_nat v) else Inl Long_int)"
proof -
  let ?num = "pre @ map digit_char ds @ sp2" and ?ds = "map digit_char ds @ sp2"
  have rest: "sp2 = [] \<or> space_byte (hd sp2)" using assms(7) by (cases sp2) auto
  have hdd: "hd ds < b" "map digit_char ds = digit_char (hd ds) # map digit_char (tl ds)"
    using assms(4,5) by (cases ds; simp)+
  have hd_num: "?num \<noteq> []" "\<not> space_byte (hd ?num)" "hd ?num \<noteq> 0x2B" "hd ?num \<noteq> 0x2D"
    using hdd digit_char_facts [of "hd ds"] digit_char_facts [of 0] assms(2,3)
    by (auto simp: radix_prefix_def digit_char_def)
  have "\<not> space_byte 0x2B" "\<not> space_byte 0x2D" by (auto dest: space_byte_cases)
  then have "dropWhile space_byte (sp1 @ sign @ ?num) = sign @ ?num"
    using assms(6,8) hd_num by (cases ?num) (auto simp: dropWhile_append2)
  moreover have "parse_digits (of_nat b) 0 ?ds = (let v = digits_value b ds in if v < 2 ^ 30 then Some (of_nat v, sp2) else None)"
    using parse_digits_render [OF assms(1,2) _ assms(5) rest, of 0] by (simp add: digits_value_def)
  moreover have "dropWhile space_byte sp2 = []" using assms(7) by simp
  moreover have "base = 0 \<or> 2 \<le> base \<and> base \<le> 36" using assms(1-3) by (auto simp: radix_prefix_def)
  moreover note parse_base_render [OF assms(1-5) rest]
  ultimately show ?thesis
    using hd_num assms(4,8) by (auto simp: mp_parse_num_integer_def Let_def)
qed



text \<open>
  The check that something was parsed counts an underscore as something: a text of underscores
  alone, with or without a radix prefix, is accepted as zero.
\<close>
theorem parse_num_accepts_underscores:
  assumes "n \<noteq> 0" "base = 0 \<or> 2 \<le> base \<and> base \<le> 36"
  shows "mp_parse_num_integer (replicate n 0x5F) base = Inr 0"
proof -
  have skip: "parse_digits c v (replicate k 0x5F) = Some (v, [])" for c v k by (induction k) simp_all
  obtain k where k: "n = Suc k" using assms(1) by (cases n) auto
  have "\<not> space_byte 0x5F" by (auto dest: space_byte_cases)
  moreover have "mp_parse_num_base (replicate n 0x5F) base = (0, if base = 0 then 10 else base)"
    by (auto simp: mp_parse_num_base_def Let_def k)
  ultimately show ?thesis
    using assms(2) skip [of "word_of_int (if base = 0 then 10 else base)" 0 n]
    by (auto simp: mp_parse_num_integer_def Let_def k)
qed

theorem parse_num_accepts_underscores_witness: "mp_parse_num_integer [0x5F] 10 = Inr 0"
  using parse_num_accepts_underscores [of 1 10] by simp

end
