(* ===== verification/LexLiterals.thy ===== *)
theory LexLiterals
  imports LexScan ParseNum
begin

text \<open>
  Literals: \<open>mp_str_print_quoted\<close> of \<open>python/py/objstr.c\<close>, the printer of strings and bytes, is
  undone by the lexer; and the text of a decimal literal parses to its value.
\<close>

section \<open>Printing a string\<close>

fun find_quotes :: "bool \<Rightarrow> u8 list \<Rightarrow> bool \<times> bool" where
  "find_quotes has_single_quote [] = (has_single_quote, False)"
| "find_quotes has_single_quote (s # str) =
     (if s = 0x27 then find_quotes True str
      else if s = 0x22 then (has_single_quote, True)
      else find_quotes has_single_quote str)"

text \<open>\<open>%02x\<close> of a byte.\<close>

definition hex2 :: "u8 \<Rightarrow> u8 list" where
  "hex2 b = [digit_char (unat b div 16), digit_char (unat b mod 16)]"

definition quoted_char :: "u8 \<Rightarrow> bool \<Rightarrow> u8 \<Rightarrow> u8 list" where
  "quoted_char quote_char is_bytes s =
     (if s = quote_char then [0x5C, quote_char]
      else if s = 0x5C then [0x5C, 0x5C]
      else if 0x20 \<le> s \<and> s \<noteq> 0x7F \<and> (\<not> is_bytes \<or> s < 0x80) then [s]
      else if s = 0x0A then [0x5C, of_char CHR ''n'']
      else if s = 0x0D then [0x5C, of_char CHR ''r'']
      else if s = 0x09 then [0x5C, of_char CHR ''t'']
      else [0x5C, of_char CHR ''x''] @ hex2 s)"

definition mp_str_print_quoted :: "u8 list \<Rightarrow> bool \<Rightarrow> u8 list" where
  "mp_str_print_quoted str is_bytes =
     (let (has_single_quote, has_double_quote) = find_quotes False str;
          quote_char = (if has_single_quote \<and> \<not> has_double_quote then 0x22 else 0x27)
      in [quote_char] @ concat (map (quoted_char quote_char is_bytes) str) @ [quote_char])"

text \<open>\<open>str_print\<close>: the text itself, or its quoted form, with the mark of a bytes object.\<close>

datatype mp_print_kind =
    PRINT_STR | PRINT_REPR | PRINT_EXC | PRINT_JSON | PRINT_RAW | PRINT_EXC_SUBCLASS

definition str_print :: "u8 list \<Rightarrow> bool \<Rightarrow> mp_print_kind \<Rightarrow> u8 list" where
  "str_print str is_bytes kind =
     (if kind = PRINT_RAW \<or> kind = PRINT_STR \<and> \<not> is_bytes then str
      else (if is_bytes then [of_char CHR ''b''] else []) @ mp_str_print_quoted str is_bytes)"

section \<open>Reading it back\<close>

abbreviation chars :: "u8 list \<Rightarrow> u32 list" where
  "chars \<equiv> map ucast"

lemma ucast_digit_char: "d < 36 \<Longrightarrow> (ucast (digit_char d) :: u32) = of_nat (if d < 10 then 48 + d else 87 + d)"
  using digit_char_facts(3) [of d] by (simp add: word_unat_eq_iff unat_ucast_u32 unat_of_nat_small)

lemma hex_digit:
  assumes "d < 16"
  shows "unichar_isxdigit (ucast (digit_char d))" "unichar_xdigit_value (ucast (digit_char d)) = of_nat d"
proof -
  have "d \<in> {0,1,2,3,4,5,6,7,8,9,10,11,12,13,14,15}"
    using assms unfolding insert_iff empty_iff by presburger
  then show "unichar_isxdigit (ucast (digit_char d))" "unichar_xdigit_value (ucast (digit_char d)) = of_nat d"
    by (elim insertE emptyE; simp add: digit_char_def char_classes char_in_def unichar_xdigit_value_def Let_def)+
qed

lemma get_hex_digits:
  "reads lx (x # chars (map digit_char ds) @ cs) \<Longrightarrow> \<forall>d \<in> set ds. d < 16 \<Longrightarrow>
     \<exists>lx'. get_hex (length ds) (of_nat n) lx = (Some (of_nat (foldl (\<lambda>v d. v * 16 + d) n ds)), lx') \<and> (\<exists>c. reads lx' (c # cs))
       \<and> vstr lx' = vstr lx \<and> tok_kind lx' = tok_kind lx \<and> nested_bracket_level lx' = nested_bracket_level lx"
proof (induction ds arbitrary: lx x n)
  case Nil
  then show ?case by auto
next
  case (Cons d ds)
  have d: "d < 16" using Cons.prems(2) by simp
  have r: "reads (next_char lx) (ucast (digit_char d) # chars (map digit_char ds) @ cs)"
    using Cons.prems(1) by (intro next_char_Cons) simp
  have v: "push_bit 4 (of_nat n) + of_nat d = (of_nat (n * 16 + d) :: u32)" by (simp add: push_bit_eq_mult)
  have "get_hex (length (d # ds)) (of_nat n) lx = get_hex (length ds) (of_nat (n * 16 + d)) (next_char lx)"
    using reads_Cons(1) [OF r] hex_digit [OF d] by (simp add: Let_def push_bit_eq_mult)
  moreover obtain lx' where "get_hex (length ds) (of_nat (n * 16 + d)) (next_char lx)
      = (Some (of_nat (foldl (\<lambda>v d. v * 16 + d) (n * 16 + d) ds)), lx')" "\<exists>c. reads lx' (c # cs)" "vstr lx' = vstr lx"
    "tok_kind lx' = tok_kind lx" "nested_bracket_level lx' = nested_bracket_level lx"
    using Cons.IH [OF r, of "n * 16 + d"] Cons.prems(2) by auto
  ultimately show ?case by auto
qed

lemma get_hex2:
  assumes "reads lx (120 # chars (hex2 b) @ cs)"
  shows "\<exists>lx'. get_hex 2 0 lx = (Some (ucast b), lx') \<and> (\<exists>c. reads lx' (c # cs)) \<and> vstr lx' = vstr lx
    \<and> tok_kind lx' = tok_kind lx \<and> nested_bracket_level lx' = nested_bracket_level lx"
proof -
  let ?ds = "[unat b div 16, unat b mod 16]"
  have "unat b div 16 < 16" using u8_bound [of b] by (simp del: u8_bound add: div_less_iff_less_mult)
  then have ds: "\<forall>d \<in> set ?ds. d < 16" by simp
  have "foldl (\<lambda>v d. v * 16 + d) 0 ?ds = unat b" by simp
  moreover have "reads lx (120 # chars (map digit_char ?ds) @ cs)" using assms by (simp add: hex2_def)
  note get_hex_digits [OF this ds, of 0]
  moreover have "length ?ds = 2" by simp
  ultimately show ?thesis by (simp only: of_nat_unat semiring_1_class.of_nat_0)
qed

lemma ucast_back [simp]: "ucast (ucast (b :: u8) :: u32) = b"
  by (simp add: word_unat_eq_iff unat_ucast_u8 unat_ucast_u32)

lemma escape_char_cases:
  "chr0 lx = 39 \<Longrightarrow> escape_char lx = Inr (39, lx)" "chr0 lx = 34 \<Longrightarrow> escape_char lx = Inr (34, lx)"
  "chr0 lx = 92 \<Longrightarrow> escape_char lx = Inr (92, lx)" "chr0 lx = 110 \<Longrightarrow> escape_char lx = Inr (10, lx)"
  "chr0 lx = 114 \<Longrightarrow> escape_char lx = Inr (13, lx)" "chr0 lx = 116 \<Longrightarrow> escape_char lx = Inr (9, lx)"
  "chr0 lx = 120 \<Longrightarrow> get_hex 2 0 lx = (Some n, lx1) \<Longrightarrow> escape_char lx = Inr (n, lx1)"
  by (simp_all add: escape_char_def)

lemma string_char_quoted:
  assumes r: "reads lx (chars (quoted_char q is_bytes b) @ cs)" and q: "q \<in> {0x27, 0x22}"
    and k: "tok_kind lx \<in> {MP_TOKEN_STRING, MP_TOKEN_BYTES}"
  shows "\<exists>lx'. string_char False (ucast q) n lx = Inr (0, lx') \<and> reads lx' cs \<and> vstr lx' = vstr lx @ [b]
    \<and> tok_kind lx' = tok_kind lx \<and> nested_bracket_level lx' = nested_bracket_level lx"
proof -
  have E: "MP_LEXER_EOF = 0xFFFFFFFF" by (rule MP_LEXER_EOF_def)
  have q92: "(ucast q :: u32) \<noteq> 92" "(ucast q :: u32) = 39 \<or> (ucast q :: u32) = 34" using q by auto
  have esc: "\<exists>lx'. string_char False (ucast q) n lx = Inr (0, lx') \<and> reads lx' cs \<and> vstr lx' = vstr lx @ [b]
      \<and> tok_kind lx' = tok_kind lx \<and> nested_bracket_level lx' = nested_bracket_level lx"
    if l: "reads lx (92 # c # cs)" and e: "\<And>lx. chr0 lx = c \<Longrightarrow> escape_char lx = Inr (ucast b, lx)" for c
  proof -
    have c0: "chr0 lx = 92" "chr0 (next_char lx) = c"
      using reads_Cons(1) [OF l] reads_Cons(1) [OF next_char_Cons [OF l]] by simp_all
    have "ucast b < (0x100 :: u32)" using byte_ucast(1) by simp
    then have "string_char False (ucast q) n lx = Inr (0, next_char (vstr_add_byte (ucast b) (next_char lx)))"
      using c0(1) q92(1) e [OF c0(2)] by (simp add: string_char_def is_char_def string_escape_def)
    moreover have "reads (vstr_add_byte (ucast b) (next_char lx)) (c # cs)" using next_char_Cons [OF l] by simp
    from next_char_Cons [OF this] have "reads (next_char (vstr_add_byte (ucast b) (next_char lx))) cs" .
    ultimately show ?thesis by simp
  qed
  have plain: ?thesis if l: "reads lx (ucast b # cs)" "b \<noteq> q" "b \<noteq> 0x5C"
  proof -
    have "(ucast b :: u32) \<noteq> ucast q" "(ucast b :: u32) \<noteq> 92"
      using l(2,3) unat_ucast_u32 [of b] unat_ucast_u32 [of q] by (auto simp: word_unat_eq_iff)
    moreover have "reads (vstr_add_byte (chr0 lx) lx) (ucast b # cs)" using l(1) by simp
    from next_char_Cons [OF this] have "reads (next_char (vstr_add_byte (chr0 lx) lx)) cs" .
    ultimately show ?thesis
      using reads_Cons(1) [OF l(1)] by (simp add: string_char_def is_char_def)
  qed
  have hex: ?thesis if l: "reads lx (92 # 120 # chars (hex2 b) @ cs)"
  proof -
    note l1 = next_char_Cons [OF l]
    have c0: "chr0 lx = 92" "chr0 (next_char lx) = 120" using reads_Cons(1) [OF l] reads_Cons(1) [OF l1] by simp_all
    obtain lx1 where h: "get_hex 2 0 (next_char lx) = (Some (ucast b), lx1)" "\<exists>c. reads lx1 (c # cs)" "vstr lx1 = vstr lx"
      "tok_kind lx1 = tok_kind lx" "nested_bracket_level lx1 = nested_bracket_level lx"
      using get_hex2 [OF l1] by auto
    have "escape_char (next_char lx) = Inr (ucast b, lx1)" using c0(2) h(1) by (rule escape_char_cases(7))
    moreover have "ucast b < (0x100 :: u32)" using byte_ucast(1) by simp
    ultimately have "string_char False (ucast q) n lx = Inr (0, next_char (vstr_add_byte (ucast b) lx1))"
      using c0(1) q92(1) by (simp add: string_char_def is_char_def string_escape_def)
    moreover have "reads (next_char (vstr_add_byte (ucast b) lx1)) cs"
      using h(2) next_char_Cons [of "vstr_add_byte (ucast b) lx1"] by auto
    ultimately show ?thesis using h by simp
  qed
  show ?thesis
  proof (cases "b = q \<or> b = 0x5C")
    case True
    have "escape_char lx1 = Inr (ucast b, lx1)" if "chr0 lx1 = ucast b" for lx1
      using that True q by (auto simp: escape_char_cases)
    then show ?thesis
      using True r q by (intro esc [of "ucast b"]) (auto simp: quoted_char_def split: if_splits)
  next
    case False
    show ?thesis
    proof (cases "0x20 \<le> b \<and> b \<noteq> 0x7F \<and> (\<not> is_bytes \<or> b < 0x80)")
      case True
      then show ?thesis using False r by (intro plain) (auto simp: quoted_char_def)
    next
      case nonprint: False
      consider "b = 0x0A" | "b = 0x0D" | "b = 0x09" | "b \<notin> {0x0A, 0x0D, 0x09}" by auto
      then show ?thesis
      proof cases
        case 1
        then show ?thesis using False nonprint r by (intro esc [of 110]) (auto simp: quoted_char_def escape_char_cases)
      next
        case 2
        then show ?thesis using False nonprint r by (intro esc [of 114]) (auto simp: quoted_char_def escape_char_cases)
      next
        case 3
        then show ?thesis using False nonprint r by (intro esc [of 116]) (auto simp: quoted_char_def escape_char_cases)
      next
        case 4
        then show ?thesis using False nonprint r by (intro hex) (auto simp: quoted_char_def)
      qed
    qed
  qed
qed

lemma quoted_char_first:
  assumes "q \<in> {0x27, 0x22}"
  shows "quoted_char q is_bytes b \<noteq> []" "hd (quoted_char q is_bytes b) \<notin> {0x0A, 0x0D, q}"
    "0x0D \<notin> set (quoted_char q is_bytes b)"
proof -
  have d: "digit_char d \<noteq> 0x0D" if "d < 16" for d
    using digit_char_facts(3) [of d] that by (auto simp: word_unat_eq_iff split: if_splits)
  have "unat b div 16 < 16" "unat b mod 16 < 16" using u8_bound [of b] by (simp_all del: u8_bound add: div_less_iff_less_mult)
  then have "0x0D \<notin> set (hex2 b)" using d by (auto simp: hex2_def)
  then show "quoted_char q is_bytes b \<noteq> []" "hd (quoted_char q is_bytes b) \<notin> {0x0A, 0x0D, q}"
    "0x0D \<notin> set (quoted_char q is_bytes b)"
    using assms by (auto simp: quoted_char_def)
qed

lemma string_chars_quoted:
  assumes "q \<in> {0x27, 0x22}"
  shows "reads lx (chars (concat (map (quoted_char q is_bytes) str) @ [q]) @ cs) \<Longrightarrow> tok_kind lx \<in> {MP_TOKEN_STRING, MP_TOKEN_BYTES} \<Longrightarrow>
    \<exists>lx'. string_chars False (ucast q) 1 0 lx = Inr (1, lx') \<and> reads lx' cs \<and> vstr lx' = vstr lx @ str @ [q]
      \<and> tok_kind lx' = tok_kind lx \<and> nested_bracket_level lx' = nested_bracket_level lx"
proof (induction str arbitrary: lx)
  case Nil
  have r: "reads lx (ucast q # cs)" using Nil(1) by simp
  have nl: "(ucast q :: u32) \<noteq> 10" using assms by auto
  let ?lx = "next_char (vstr_add_byte (chr0 lx) lx)"
  have "string_chars False (ucast q) 1 0 lx = string_chars False (ucast q) 1 1 ?lx"
    using reads_Cons(1,2) [OF r] nl by (subst string_chars.simps) (simp add: is_end_def is_char_def string_char_def)
  also have "\<dots> = Inr (1, ?lx)" by (subst string_chars.simps) simp
  finally have "string_chars False (ucast q) 1 0 lx = Inr (1, ?lx)" .
  moreover have "reads (vstr_add_byte (chr0 lx) lx) (ucast q # cs)" using r by simp
  from next_char_Cons [OF this] have "reads ?lx cs" .
  ultimately show ?case using reads_Cons(1) [OF r] by simp
next
  case (Cons b str)
  note f = quoted_char_first [OF assms, of is_bytes b]
  let ?rest = "chars (concat (map (quoted_char q is_bytes) str) @ [q]) @ cs"
  have r: "reads lx (chars (quoted_char q is_bytes b) @ ?rest)" using Cons.prems(1) by simp
  obtain lx1 where lx1: "string_char False (ucast q) 0 lx = Inr (0, lx1)" "reads lx1 ?rest" "vstr lx1 = vstr lx @ [b]"
    "tok_kind lx1 = tok_kind lx" "nested_bracket_level lx1 = nested_bracket_level lx"
    using string_char_quoted [OF r assms Cons.prems(2)] by blast
  obtain c ds where c: "quoted_char q is_bytes b = c # ds" using f(1) by (cases "quoted_char q is_bytes b") auto
  then have "reads lx (ucast c # chars ds @ ?rest)" using r by simp
  note h = reads_Cons(1,2) [OF this]
  have "(ucast c :: u32) \<noteq> 10" using f(2) c byte_ucast(2) by simp
  then have "string_chars False (ucast q) 1 0 lx = string_chars False (ucast q) 1 0 lx1"
    using h lx1(1) by (subst string_chars.simps) (simp add: is_end_def is_char_def)
  moreover obtain lx2 where "string_chars False (ucast q) 1 0 lx1 = Inr (1, lx2)" "reads lx2 cs" "vstr lx2 = vstr lx1 @ str @ [q]"
    "tok_kind lx2 = tok_kind lx1" "nested_bracket_level lx2 = nested_bracket_level lx1"
    using Cons.IH [OF lx1(2)] Cons.prems(2) lx1(4) by auto
  ultimately show ?case using lx1 by simp
qed

lemma skip_prefix_fields [simp]:
  "tok_kind (skip_prefix n lx) = tok_kind lx" "vstr (skip_prefix n lx) = vstr lx"
  "nested_bracket_level (skip_prefix n lx) = nested_bracket_level lx"
  by (simp_all add: skip_prefix_def Let_def)

lemma quoted_form:
  obtains q where "q \<in> {0x27, 0x22}" "mp_str_print_quoted str is_bytes = [q] @ concat (map (quoted_char q is_bytes) str) @ [q]"
proof (cases "find_quotes False str")
  case (Pair a b)
  then show thesis
    using that [of "if a \<and> \<not> b then 0x22 else 0x27"] by (simp add: mp_str_print_quoted_def)
qed

lemma parse_string_quoted:
  assumes "reads lx (chars (mp_str_print_quoted str is_bytes) @ 10 # cs)" "tok_kind lx \<in> {MP_TOKEN_STRING, MP_TOKEN_BYTES}" "vstr lx = []"
  shows "\<exists>lx'. parse_string_literal False lx = Inr lx' \<and> reads lx' (10 # cs) \<and> vstr lx' = str \<and> tok_kind lx' = tok_kind lx
    \<and> nested_bracket_level lx' = nested_bracket_level lx"
proof -
  obtain q where q: "q \<in> {0x27, 0x22}" and p: "mp_str_print_quoted str is_bytes = [q] @ concat (map (quoted_char q is_bytes) str) @ [q]"
    by (rule quoted_form)
  let ?body = "chars (concat (map (quoted_char q is_bytes) str) @ [q]) @ 10 # cs"
  have r: "reads lx (ucast q # ?body)" using assms(1) by (simp add: p)
  note r1 = next_char_Cons [OF r]
  have quote: "(if is_char lx (ch CHR 0x22) then ch CHR 0x22 else ch CHR 0x27) = (ucast q :: u32)"
    using q reads_Cons(1) [OF r] by (auto simp: is_char_def)
  have single: "\<not> is_char_and (next_char lx) (ucast q) (ucast q)"
  proof (cases str)
    case Nil
    then have "chr1 (next_char lx) = 10" using reads_Cons2 [of "next_char lx" "ucast q" 10 cs] r1 by simp
    then show ?thesis using q by (auto simp: is_char_and_def)
  next
    case (Cons b bs)
    obtain c ds where c: "quoted_char q is_bytes b = c # ds" "c \<noteq> q"
      using quoted_char_first [OF q, of is_bytes b] by (cases "quoted_char q is_bytes b") auto
    then have "chr0 (next_char lx) = ucast c"
      using reads_Cons(1) [of "next_char lx" "ucast c"] r1 Cons by auto
    then show ?thesis using c(2) unat_ucast_u32 [of c] unat_ucast_u32 [of q] by (auto simp: is_char_and_def word_unat_eq_iff)
  qed
  have "tok_kind (next_char lx) \<in> {MP_TOKEN_STRING, MP_TOKEN_BYTES}" using assms(2) by simp
  from string_chars_quoted [OF q r1 this] obtain lx1 where lx1: "string_chars False (ucast q) 1 0 (next_char lx) = Inr (1, lx1)"
    "reads lx1 (10 # cs)" "vstr lx1 = str @ [q]" "tok_kind lx1 = tok_kind lx" "nested_bracket_level lx1 = nested_bracket_level lx"
    using assms(3) by auto
  have "parse_string_literal False lx = Inr (lx1\<lparr>vstr := take (length (vstr lx1) - 1) (vstr lx1)\<rparr>)"
    using single lx1(1) unfolding parse_string_literal_def quote Let_def by simp
  then show ?thesis using lx1 by simp
qed

lemma cook_plain: "13 \<notin> set cs \<Longrightarrow> last (p # cs) \<noteq> 10 \<Longrightarrow> cook p cs = cs @ [10]"
proof (induction cs arbitrary: p)
  case (Cons c cs)
  then show ?case by (cases cs) auto
qed simp

lemma quoted_plain:
  "0x0D \<notin> set (mp_str_print_quoted str is_bytes)" "mp_str_print_quoted str is_bytes \<noteq> []"
  "last (mp_str_print_quoted str is_bytes) \<noteq> 0x0A" "hd (mp_str_print_quoted str is_bytes) \<in> {0x27, 0x22}"
proof -
  obtain q where q: "q \<in> {0x27, 0x22}" and p: "mp_str_print_quoted str is_bytes = [q] @ concat (map (quoted_char q is_bytes) str) @ [q]"
    by (rule quoted_form)
  have "q \<noteq> 0x0D" "q \<noteq> 0x0A" using q by auto
  then show "0x0D \<notin> set (mp_str_print_quoted str is_bytes)" "mp_str_print_quoted str is_bytes \<noteq> []"
    "last (mp_str_print_quoted str is_bytes) \<noteq> 0x0A" "hd (mp_str_print_quoted str is_bytes) \<in> {0x27, 0x22}"
    using quoted_char_first(3) [OF q] q unfolding p by auto
qed

text \<open>
  C13: the printed form of a string reads back as the string.  For every byte sequence, control characters,
  quotes, backslashes and high bytes included, the \<open>repr\<close> of the string or bytes object is one literal
  token of the right kind whose value is the sequence.
\<close>
theorem string_repr_roundtrip:
  "\<exists>lx. mp_lexer_to_next opt (lexer_first (str_print str is_bytes PRINT_REPR)) = Inr lx
     \<and> tok_kind lx = (if is_bytes then MP_TOKEN_BYTES else MP_TOKEN_STRING) \<and> vstr lx = str \<and> reads lx [10]"
proof -
  let ?src = "str_print str is_bytes PRINT_REPR" and ?q = "mp_str_print_quoted str is_bytes"
  let ?kind = "if is_bytes then MP_TOKEN_BYTES else MP_TOKEN_STRING" and ?n = "if is_bytes then 1 else 0 :: nat"
  note q = quoted_plain [of str is_bytes]
  have src: "?src = (if is_bytes then [98] else []) @ ?q" by (simp add: str_print_def)
  have no: "(13 :: u32) \<notin> set (chars ?src)" "last (0 # chars ?src) \<noteq> (10 :: u32)"
    using q byte_ucast(2,3) by (auto simp: str_print_def last_map)
  have r: "reads (lexer_first ?src) (chars ?src @ [10])"
    using lexer_first_facts(1) [of ?src] by (simp add: source_chars_def cook_plain [OF no])
  obtain c cs where c: "chars ?src @ [10] = c # cs" "string_start (c # cs)" "\<not> unichar_isspace c" "c \<noteq> 35" "c \<noteq> 92"
  proof -
    have "\<exists>c cs. ?q = c # cs \<and> c \<in> {0x27, 0x22}" using q(2,4) by (cases ?q) auto
    then obtain c cs where q': "?q = c # cs" "c \<in> {0x27, 0x22}" by blast
    have s1: "string_start (39 # ds)" "string_start (34 # ds)" for ds
      by (cases ds rule: remdups_adj.cases; simp add: quote_def)+
    have s2: "string_start (98 # 39 # ds)" "string_start (98 # 34 # ds)" for ds
      by (cases ds; simp add: quote_def)+
    show thesis
    proof (cases is_bytes)
      case True
      then show thesis using q' s2 by (intro that [of 98 "chars ?q @ [10]"]) (auto simp: str_print_def char_classes char_in_def)
    next
      case False
      then show thesis
        using q' s1 by (intro that [of "ucast c" "chars cs @ [10]"]) (auto simp: str_print_def char_classes char_in_def)
    qed
  qed
  obtain lx2 where lx2: "token_start (lexer_first ?src) = (False, lx2)" "reads lx2 (c # cs)" "vstr lx2 = []" "emit_dent lx2 = 0"
    "nested_bracket_level lx2 = 0"
    using token_start_blanks [of "lexer_first ?src" "[]" c cs] r c lexer_first_facts(7,8) [of ?src] by auto
  have "is_string_or_bytes lx2" "\<not> is_end lx2"
    using c(2) is_string_or_bytes_reads [OF lx2(2)] reads_is_end [OF lx2(2)] by simp_all
  then have t: "mp_lexer_to_next opt (lexer_first ?src) = string_run (lx2\<lparr>tok_kind := MP_TOKEN_END\<rparr>)"
    using lx2 by (simp add: to_next_token_start)
  have prefix: "string_prefix (lx2\<lparr>tok_kind := MP_TOKEN_END\<rparr>) = (False, ?kind, ?n)"
  proof -
    obtain d ds where d: "?q = d # ds" "d \<in> {0x27, 0x22}" using q(2,4) by (cases ?q) auto
    then show ?thesis
      using reads_Cons(1) [OF lx2(2)] reads_Cons2 [of lx2 98 "ucast d" "chars ds @ [10]"] lx2(2) c(1)
      by (cases is_bytes) (auto simp: str_print_def string_prefix_def is_char_def is_char_following_def)
  qed
  have "reads (skip_prefix ?n (lx2\<lparr>tok_kind := ?kind\<rparr>)) (chars ?q @ [10])"
    using lx2(2) c(1) next_char_Cons [of "lx2\<lparr>tok_kind := MP_TOKEN_BYTES\<rparr>" 98 "chars ?q @ [10]"]
    by (cases is_bytes) (auto simp: str_print_def skip_prefix_def Let_def)
  moreover have "?kind \<in> {MP_TOKEN_STRING, MP_TOKEN_BYTES}" by simp
  ultimately obtain lx3 where lx3: "parse_string_literal False (skip_prefix ?n (lx2\<lparr>tok_kind := ?kind\<rparr>)) = Inr lx3"
    "reads lx3 [10]" "vstr lx3 = str" "tok_kind lx3 = ?kind" "nested_bracket_level lx3 = 0"
    using parse_string_quoted [of "skip_prefix ?n (lx2\<lparr>tok_kind := ?kind\<rparr>)" str is_bytes "[]"] lx2(3,5) by auto
  obtain lx4 where lx4: "skip_whitespace True lx3 = (True, lx4)" "reads lx4 [10]" "vstr lx4 = str" "tok_kind lx4 = ?kind"
    using skip_whitespace_at_newline [of lx3 "[]" "[]"] lx3 by auto
  have "\<not> is_string_or_bytes lx4" using is_string_or_bytes_reads [OF lx4(2)] by (simp add: quote_def)
  then have "string_run (lx2\<lparr>tok_kind := MP_TOKEN_END\<rparr>) = Inr lx4"
    using prefix lx3(1) lx4(1) by (subst string_run.simps) (auto simp: string_literal_def)
  then show ?thesis using t lx4 by auto
qed

lemma digits_value_bound: "0 < b \<Longrightarrow> \<forall>d \<in> set ds. d < b \<Longrightarrow> digits_value b ds < b ^ length ds"
proof -
  have "0 < b \<Longrightarrow> \<forall>d \<in> set ds. d < b \<Longrightarrow> foldl (\<lambda>v d. v * b + d) v ds < (v + 1) * b ^ length ds" for v
  proof (induction ds arbitrary: v)
    case (Cons d ds)
    have "foldl (\<lambda>v d. v * b + d) (v * b + d) ds < (v * b + d + 1) * b ^ length ds" using Cons by simp
    also have "v * b + d + 1 \<le> (v + 1) * b" using Cons.prems(2) by simp
    then have "(v * b + d + 1) * b ^ length ds \<le> (v + 1) * b * b ^ length ds" by (rule mult_right_mono) simp
    finally show ?case by (simp add: algebra_simps)
  qed simp
  from this [of 0] show "0 < b \<Longrightarrow> \<forall>d \<in> set ds. d < b \<Longrightarrow> digits_value b ds < b ^ length ds" by (simp add: digits_value_def)
qed

section \<open>Decimal literals\<close>

lemma decimal_char:
  assumes "d < 10"
  shows "(ucast (digit_char d) :: u32) = of_nat (48 + d)" "unichar_isdigit (ucast (digit_char d))"
    "\<not> unichar_isalpha (ucast (digit_char d))" "\<not> unichar_isspace (ucast (digit_char d))"
    "(ucast (digit_char d) :: u32) \<notin> {34, 35, 39, 46, 69, 92, 95, 101}"
proof -
  have "d \<in> {0,1,2,3,4,5,6,7,8,9}" using assms unfolding insert_iff empty_iff by presburger
  then show "(ucast (digit_char d) :: u32) = of_nat (48 + d)" "unichar_isdigit (ucast (digit_char d))"
    "\<not> unichar_isalpha (ucast (digit_char d))" "\<not> unichar_isspace (ucast (digit_char d))"
    "(ucast (digit_char d) :: u32) \<notin> {34, 35, 39, 46, 69, 92, 95, 101}"
    by (elim insertE emptyE; simp add: digit_char_def char_classes char_in_def)+
qed

text \<open>A character that ends a number.\<close>

definition ends_number :: "u32 \<Rightarrow> bool" where
  "ends_number c \<longleftrightarrow> \<not> unichar_isalpha c \<and> \<not> unichar_isdigit c \<and> c \<notin> {46, 95}"

lemma number_tail_decimal:
  "reads lx (chars (map digit_char ds) @ c # cs) \<Longrightarrow> \<forall>d \<in> set ds. d < 10 \<Longrightarrow> ends_number c \<Longrightarrow>
     reads (number_tail forced lx) (c # cs) \<and> vstr (number_tail forced lx) = vstr lx @ map digit_char ds
     \<and> tok_kind (number_tail forced lx) = tok_kind lx"
proof (induction ds arbitrary: lx)
  case Nil
  have "c \<noteq> 101" "c \<noteq> 69" using Nil(3) by (auto simp: ends_number_def char_classes char_in_def)
  then have "number_tail forced lx = lx"
    using Nil reads_Cons(1,2) [of lx c cs]
    by (subst number_tail.simps) (simp add: ends_number_def is_end_def is_char_or_def is_letter_def is_digit_def is_char_def)
  then show ?case using Nil by simp
next
  case (Cons d ds)
  have r: "reads lx (ucast (digit_char d) # chars (map digit_char ds) @ c # cs)" using Cons.prems(1) by simp
  have d: "d < 10" using Cons.prems(2) by simp
  note h = reads_Cons(1,2) [OF r] decimal_char [OF d]
  let ?lx = "next_char (vstr_add_byte (chr0 lx) lx)"
  have "(ucast (digit_char d) :: u32) \<notin> {106, 74}" using h(5) by (auto simp: char_classes char_in_def)
  then have "number_char lx = ?lx" using h by (simp add: number_char_def is_char_or3_def)
  moreover have "number_tail forced lx = number_tail forced (number_char lx)"
    using h by (subst number_tail.simps) (simp add: is_end_def is_char_or_def is_letter_def is_digit_def is_char_def)
  moreover have "reads (vstr_add_byte (chr0 lx) lx) (ucast (digit_char d) # chars (map digit_char ds) @ c # cs)" using r by simp
  from next_char_Cons [OF this] have "reads ?lx (chars (map digit_char ds) @ c # cs)" .
  ultimately show ?case using Cons.IH [of ?lx] Cons.prems h(1) by simp
qed

text \<open>
  C35: a decimal literal denotes its value, from the text to the number: the lexer takes exactly the digits as
  one integer token, and \<open>mp_parse_num_integer\<close> turns the token's text into the value, or reports a long
  integer from \<open>2 ^ 30\<close> on.
\<close>
theorem decimal_literal_correct:
  assumes "reads lx (bs @ chars (map digit_char ds) @ c # cs)" "\<forall>b \<in> set bs. blank b" "emit_dent lx = 0"
    and "ds \<noteq> []" "\<forall>d \<in> set ds. d < 10" "ends_number c"
  shows "\<exists>lx'. mp_lexer_to_next opt lx = Inr lx' \<and> tok_kind lx' = MP_TOKEN_INTEGER \<and> reads lx' (c # cs)
    \<and> mp_parse_num_integer (vstr lx') 0
        = (let v = digits_value 10 ds in if v < 2 ^ 30 then Inr (of_nat v) else Inl Long_int)"
proof -
  obtain d es where ds: "ds = d # es" using assms(4) by (cases ds) auto
  have d: "d < 10" using assms(5) by (simp add: ds)
  let ?c = "ucast (digit_char d) :: u32" and ?rest = "chars (map digit_char es) @ c # cs"
  note dc = decimal_char [OF d]
  obtain lx2 where lx2: "token_start lx = (False, lx2)" "reads lx2 (?c # ?rest)" "vstr lx2 = []" "emit_dent lx2 = 0"
    using token_start_blanks [of lx bs ?c ?rest] assms(1-3) dc by (auto simp: ds)
  note h = reads_Cons(1,2) [OF lx2(2)]
  have "\<not> string_start (?c # ?rest)"
    using dc by (cases "?c # ?rest" rule: string_start.cases) (auto simp: quote_def char_classes char_in_def)
  then have "\<not> is_string_or_bytes lx2" using is_string_or_bytes_reads [OF lx2(2)] by simp
  moreover have "\<not> 0x80 \<le> ?c" using d digit_char_facts(3) [of d] by (simp add: word_le_nat_alt unat_ucast_u32)
  ultimately have t: "mp_lexer_to_next opt lx = Inr (lex_number lx2)"
    using lx2 h dc by (auto simp: to_next_token_start is_end_def is_head_of_identifier_def is_letter_def is_digit_def)
  let ?lx = "next_char (vstr_add_byte ?c (lx2\<lparr>tok_kind := MP_TOKEN_INTEGER\<rparr>))"
  have "lex_number lx2 = number_tail (is_char lx2 48 \<and> is_following_base_char lx2) ?lx"
    using h dc by (auto simp: lex_number_def is_char_def is_following_base_char_def)
  moreover have "reads (vstr_add_byte ?c (lx2\<lparr>tok_kind := MP_TOKEN_INTEGER\<rparr>)) (?c # ?rest)" using lx2(2) by simp
  from next_char_Cons [OF this] have "reads ?lx ?rest" .
  ultimately have n: "reads (lex_number lx2) (c # cs)" "vstr (lex_number lx2) = map digit_char ds"
    "tok_kind (lex_number lx2) = MP_TOKEN_INTEGER"
    using number_tail_decimal [of ?lx es c cs "is_char lx2 48 \<and> is_following_base_char lx2"] assms(5,6) lx2(3) ds by simp_all
  have "mp_parse_num_integer (map digit_char ds) 0
        = (let v = digits_value 10 ds in if v < 2 ^ 30 then Inr (of_nat v) else Inl Long_int)"
    using parse_num_value [of 10 0 "[]" ds "[]" "[]" "[]"] assms(4,5) by (simp add: radix_prefix_def Let_def)
  then show ?thesis using t n by simp
qed

theorem decimal_literal_correct_witness:
  "\<exists>lx'. mp_lexer_to_next 0 (lexer_first (map of_char '' 1073741824'')) = Inr lx' \<and> tok_kind lx' = MP_TOKEN_INTEGER
     \<and> mp_parse_num_integer (vstr lx') 0 = Inl Long_int"
proof -
  let ?src = "map of_char '' 1073741824'' :: u8 list"
  have "reads (lexer_first ?src) ([32] @ chars (map digit_char [1,0,7,3,7,4,1,8,2,4]) @ 10 # [])"
    using lexer_first_facts(1) [of ?src] by (simp add: source_chars_def digit_char_def)
  moreover have "blank 32" "ends_number 10" by (simp_all add: blank_def ends_number_def char_classes char_in_def)
  ultimately show ?thesis
    using decimal_literal_correct [of "lexer_first ?src" "[32]" "[1,0,7,3,7,4,1,8,2,4]" 10 "[]" 0]
    by (auto simp: lexer_first_facts digits_value_def)
qed

text \<open>
  The lexer's own end marker as an escape.  The escape \<open>\UFFFFFFFF\<close> produces the value the code uses for
  "no character", so it vanishes from the literal without an error, although every other escape above
  \<open>\U000000FF\<close> makes the token invalid.
\<close>
theorem lexer_eof_escape:
  assumes "reads lx (85 # chars (map digit_char ds) @ cs)" "length ds = 8" "\<forall>d \<in> set ds. d < 16" "tok_kind lx = MP_TOKEN_STRING"
  shows "\<exists>lx'. string_escape False lx = Inr lx' \<and> reads (next_char lx') cs
    \<and> (let n = digits_value 16 ds in
         if n = 0xFFFFFFFF then tok_kind lx' = MP_TOKEN_STRING \<and> vstr lx' = vstr lx
         else if n < 256 then tok_kind lx' = MP_TOKEN_STRING \<and> vstr lx' = vstr lx @ [of_nat n]
         else tok_kind lx' = MP_TOKEN_INVALID)"
proof -
  let ?n = "digits_value 16 ds"
  have r: "reads lx (85 # chars (map digit_char ds) @ cs)" by (rule assms(1))
  obtain lx1 where h: "get_hex 8 0 lx = (Some (of_nat ?n), lx1)" "\<exists>c. reads lx1 (c # cs)" "vstr lx1 = vstr lx" "tok_kind lx1 = tok_kind lx"
    using get_hex_digits [OF r assms(3), of 0] assms(2) by (auto simp: digits_value_def simp del: get_hex.simps)
  have "escape_char lx = Inr (of_nat ?n, lx1)"
    using reads_Cons(1) [OF r] h(1) assms(4) by (simp add: escape_char_def)
  then have s: "string_escape False lx = Inr (if of_nat ?n \<noteq> MP_LEXER_EOF
      then (if of_nat ?n < (0x100 :: u32) then vstr_add_byte (of_nat ?n) lx1 else lx1\<lparr>tok_kind := MP_TOKEN_INVALID\<rparr>) else lx1)"
    by (simp add: string_escape_def)
  have n: "?n < 4294967296" using digits_value_bound [of 16 ds] assms(2,3) by simp
  then have u: "unat (of_nat ?n :: u32) = ?n" by (rule unat_of_nat_small)
  have eof: "(of_nat ?n :: u32) = MP_LEXER_EOF \<longleftrightarrow> ?n = 0xFFFFFFFF"
    unfolding word_unat_eq_iff u by (simp add: MP_LEXER_EOF_def)
  have small: "(of_nat ?n :: u32) < 0x100 \<longleftrightarrow> ?n < 256" unfolding word_less_nat_alt u by simp
  have "(ucast (of_nat ?n :: u32) :: u8) = of_nat ?n" 
    unfolding word_unat_eq_iff unat_ucast_u8 u by (simp add: unat_of_nat take_bit_eq_mod)
  then show ?thesis
    using s eof small h next_char_Cons by (auto simp: Let_def assms(4))
qed

theorem lexer_eof_escape_witness:
  "\<exists>lx'. string_escape False ((lexer_first (map of_char ''Uffffffff''))\<lparr>tok_kind := MP_TOKEN_STRING\<rparr>) = Inr lx'
     \<and> tok_kind lx' = MP_TOKEN_STRING \<and> vstr lx' = []"
proof -
  let ?src = "map of_char ''Uffffffff'' :: u8 list"
  have "reads ((lexer_first ?src)\<lparr>tok_kind := MP_TOKEN_STRING\<rparr>) (85 # chars (map digit_char [15,15,15,15,15,15,15,15]) @ [10])"
    using lexer_first_facts(1) [of ?src] by (simp add: source_chars_def digit_char_def)
  from lexer_eof_escape [OF this] show ?thesis by (auto simp: digits_value_def lexer_first_facts)
qed

end
