(* ===== verification/MpMap.thy ===== *)
theory MpMap
  imports Prelude
begin

text \<open>
  Hash maps: \<open>python/py/map.c\<close>, in the configuration built here (no lookup cache, no ordered
  dictionaries, no sets).

  A map is a table of slots; a slot's key is NULL (never used), SENTINEL (deleted) or an object.  The
  objects are a parameter: the type \<open>'k\<close> of references, compared by identity with \<open>=\<close>, and a record of
  the operations the code calls on them.  A slot is named by its index, so that a pointer into the table
  is a number.  A call that raises keeps its state: results carry the map beside the outcome.

  \<open>mp_map_lookup\<close> and \<open>mp_map_rehash\<close> call each other; the number \<open>depth\<close> bounds the nesting and
  None says that it did not suffice.  Depth 2 always does (\<open>MpMapOk\<close>).
\<close>

section \<open>Data\<close>

datatype 'k map_key = MP_OBJ_NULL | MP_OBJ_SENTINEL | Key 'k

record ('k, 'v) mp_map_elem =
  el_key :: "'k map_key"
  el_value :: "'v option"

record ('k, 'v) mp_map =
  all_keys_are_qstrs :: bool
  is_fixed :: bool
  is_ordered :: bool
  used :: nat
  alloc :: nat
  table :: "('k, 'v) mp_map_elem list"

datatype mp_map_lookup_kind = MP_MAP_LOOKUP | MP_MAP_LOOKUP_ADD_IF_NOT_FOUND | MP_MAP_LOOKUP_REMOVE_IF_FOUND

datatype map_error = Type_error | Memory_error | Assertion_failed | Null_dereference | Out_of_depth

datatype lookup_result = Raised map_error | Not_found | Slot nat

text \<open>
  What the code asks of objects: whether a reference is an interned string, or a string object that is
  not interned; the hash of an interned string; the hash operation, which raises for an unhashable
  object; and equality.  \<open>mem_ok n\<close> says whether \<open>m_new0\<close> finds room for \<open>n\<close> slots.
\<close>

record 'k obj_ops =
  is_qstr :: "'k \<Rightarrow> bool"
  is_str :: "'k \<Rightarrow> bool"
  qstr_hash :: "'k \<Rightarrow> u32"
  op_hash :: "'k \<Rightarrow> u32 option"
  obj_equal :: "'k \<Rightarrow> 'k \<Rightarrow> bool"
  mem_ok :: "nat \<Rightarrow> bool"

abbreviation empty_slot :: "('k, 'v) mp_map_elem" where
  "empty_slot \<equiv> \<lparr>el_key = MP_OBJ_NULL, el_value = None\<rparr>"

section \<open>Sizes\<close>

definition hash_allocation_sizes :: "nat list" where
  "hash_allocation_sizes =
     [0, 2, 4, 6, 8, 10, 12, 17, 23, 29, 37, 47, 59, 73, 97, 127, 167, 223, 293, 389, 521, 691, 919,
      1223, 1627, 2161, 3229, 4831, 7243, 10861, 16273, 24407, 36607, 54907]"

definition get_hash_alloc_greater_or_equal_to :: "nat \<Rightarrow> nat" where
  "get_hash_alloc_greater_or_equal_to x =
     (case find (\<lambda>s. x \<le> s) hash_allocation_sizes of Some s \<Rightarrow> s | None \<Rightarrow> (x + x div 2) OR 1)"

text \<open>For evaluation: the small sizes are tried first, one at a time.\<close>

lemma get_hash_alloc_code [code]:
  "get_hash_alloc_greater_or_equal_to x =
     (if x \<le> 0 then 0 else if x \<le> 2 then 2 else if x \<le> 4 then 4 else if x \<le> 6 then 6
      else if x \<le> 8 then 8 else if x \<le> 10 then 10 else if x \<le> 12 then 12
      else case find (\<lambda>s. x \<le> s) (drop 7 hash_allocation_sizes) of Some s \<Rightarrow> s | None \<Rightarrow> (x + x div 2) OR 1)"
  by (simp add: get_hash_alloc_greater_or_equal_to_def hash_allocation_sizes_def)

section \<open>Making and clearing maps\<close>

definition mp_map_init :: "nat \<Rightarrow> ('k, 'v) mp_map" where
  "mp_map_init n =
     \<lparr>all_keys_are_qstrs = True, is_fixed = False, is_ordered = False, used = 0, alloc = n,
      table = (if n = 0 then [] else replicate n empty_slot)\<rparr>"

definition mp_map_init_fixed_table :: "('k, 'v) mp_map_elem list \<Rightarrow> ('k, 'v) mp_map \<Rightarrow> ('k, 'v) mp_map" where
  "mp_map_init_fixed_table tbl m =
     m\<lparr>alloc := length tbl, used := length tbl, all_keys_are_qstrs := True, is_fixed := True,
       is_ordered := True, table := tbl\<rparr>"

definition mp_map_deinit :: "('k, 'v) mp_map \<Rightarrow> ('k, 'v) mp_map" where
  "mp_map_deinit m = m\<lparr>used := 0, alloc := 0\<rparr>"

definition mp_map_clear :: "('k, 'v) mp_map \<Rightarrow> ('k, 'v) mp_map" where
  "mp_map_clear m = m\<lparr>alloc := 0, used := 0, all_keys_are_qstrs := True, is_fixed := False, table := []\<rparr>"

definition mp_map_slot_is_filled :: "('k, 'v) mp_map \<Rightarrow> nat \<Rightarrow> bool" where
  "mp_map_slot_is_filled m pos =
     (el_key (table m ! pos) \<noteq> MP_OBJ_NULL \<and> el_key (table m ! pos) \<noteq> MP_OBJ_SENTINEL)"

section \<open>Searching\<close>

definition hash_of :: "'k obj_ops \<Rightarrow> 'k \<Rightarrow> u32 option" where
  "hash_of ops index = (if is_qstr ops index then Some (qstr_hash ops index) else op_hash ops index)"

text \<open>The comparison of a slot's key with the index.\<close>

definition key_matches :: "'k obj_ops \<Rightarrow> bool \<Rightarrow> 'k \<Rightarrow> 'k map_key \<Rightarrow> bool" where
  "key_matches ops compare_only_ptrs index key =
     (case key of Key k \<Rightarrow> k = index \<or> \<not> compare_only_ptrs \<and> obj_equal ops k index | _ \<Rightarrow> False)"

text \<open>The linear search of a fixed table, over its first \<open>used\<close> slots.\<close>

fun linear_search :: "'k obj_ops \<Rightarrow> bool \<Rightarrow> 'k \<Rightarrow> nat \<Rightarrow> ('k, 'v) mp_map_elem list \<Rightarrow> lookup_result" where
  "linear_search ops compare_only_ptrs index pos [] = Not_found"
| "linear_search ops compare_only_ptrs index pos (elem # tbl) =
     (if key_matches ops compare_only_ptrs index (el_key elem) then Slot pos
      else linear_search ops compare_only_ptrs index (Suc pos) tbl)"

text \<open>
  One turn round the hash table.  The loop ends at a NULL slot, at the index, or when the position comes
  back to where it started, which is after \<open>alloc\<close> steps; \<open>avail_slot\<close> is the first deleted slot passed.
\<close>

datatype probe_result = Empty_slot nat | Found_slot nat | Wrapped "nat option"

fun probe :: "'k obj_ops \<Rightarrow> bool \<Rightarrow> 'k \<Rightarrow> ('k, 'v) mp_map_elem list \<Rightarrow> nat \<Rightarrow> nat \<Rightarrow> nat option \<Rightarrow> probe_result"
where
  "probe ops compare_only_ptrs index tbl 0 pos avail_slot = Wrapped avail_slot"
| "probe ops compare_only_ptrs index tbl (Suc steps) pos avail_slot =
     (let key = el_key (tbl ! pos) in
      if key = MP_OBJ_NULL then Empty_slot (case avail_slot of None \<Rightarrow> pos | Some p \<Rightarrow> p)
      else if key = MP_OBJ_SENTINEL then
        probe ops compare_only_ptrs index tbl steps ((pos + 1) mod length tbl)
          (case avail_slot of None \<Rightarrow> Some pos | Some p \<Rightarrow> Some p)
      else if key_matches ops compare_only_ptrs index key then Found_slot pos
      else probe ops compare_only_ptrs index tbl steps ((pos + 1) mod length tbl) avail_slot)"

text \<open>Filling a slot with a new key, deleting the key of a slot, and storing a slot's value.\<close>

definition add_slot :: "'k obj_ops \<Rightarrow> 'k \<Rightarrow> nat \<Rightarrow> ('k, 'v) mp_map \<Rightarrow> ('k, 'v) mp_map" where
  "add_slot ops index pos m =
     m\<lparr>used := used m + 1,
       table := (table m)[pos := \<lparr>el_key = Key index, el_value = None\<rparr>],
       all_keys_are_qstrs := (if is_qstr ops index then all_keys_are_qstrs m else False)\<rparr>"

definition delete_slot :: "nat \<Rightarrow> ('k, 'v) mp_map \<Rightarrow> ('k, 'v) mp_map" where
  "delete_slot pos m =
     m\<lparr>used := used m - 1,
       table := (table m)[pos := (table m ! pos)
         \<lparr>el_key := if el_key (table m ! ((pos + 1) mod alloc m)) = MP_OBJ_NULL then MP_OBJ_NULL
                    else MP_OBJ_SENTINEL\<rparr>]\<rparr>"

definition set_value :: "nat \<Rightarrow> 'v option \<Rightarrow> ('k, 'v) mp_map \<Rightarrow> ('k, 'v) mp_map" where
  "set_value pos v m = m\<lparr>table := (table m)[pos := (table m ! pos)\<lparr>el_value := v\<rparr>]\<rparr>"

text \<open>The search of the hash table, with the rehash of a full table and the restart after it.\<close>

fun hash_search :: "(('k, 'v) mp_map \<Rightarrow> (map_error option \<times> ('k, 'v) mp_map) option) \<Rightarrow> nat \<Rightarrow> 'k obj_ops \<Rightarrow>
    bool \<Rightarrow> 'k \<Rightarrow> u32 \<Rightarrow> mp_map_lookup_kind \<Rightarrow> ('k, 'v) mp_map \<Rightarrow> (lookup_result \<times> ('k, 'v) mp_map) option"
where
  "hash_search rehash 0 ops compare_only_ptrs index hash lookup_kind m = None"
| "hash_search rehash (Suc turns) ops compare_only_ptrs index hash lookup_kind m =
     (case probe ops compare_only_ptrs index (table m) (alloc m) (unat hash mod alloc m) None of
        Empty_slot pos \<Rightarrow>
          if lookup_kind = MP_MAP_LOOKUP_ADD_IF_NOT_FOUND then Some (Slot pos, add_slot ops index pos m)
          else Some (Not_found, m)
      | Found_slot pos \<Rightarrow>
          if lookup_kind = MP_MAP_LOOKUP_REMOVE_IF_FOUND then Some (Slot pos, delete_slot pos m)
          else Some (Slot pos, m)
      | Wrapped avail_slot \<Rightarrow>
          if lookup_kind = MP_MAP_LOOKUP_ADD_IF_NOT_FOUND then
            (case avail_slot of
               Some pos \<Rightarrow> Some (Slot pos, add_slot ops index pos m)
             | None \<Rightarrow>
                 (case rehash m of
                    None \<Rightarrow> None
                  | Some (Some e, m') \<Rightarrow> Some (Raised e, m')
                  | Some (None, m') \<Rightarrow> hash_search rehash turns ops compare_only_ptrs index hash lookup_kind m'))
          else Some (Not_found, m))"

section \<open>Rehashing\<close>

text \<open>The loop of \<open>mp_map_rehash\<close> over the old table; \<open>add\<close> is \<open>mp_map_lookup\<close> with the adding kind.\<close>

fun reinsert :: "(('k, 'v) mp_map \<Rightarrow> 'k \<Rightarrow> (lookup_result \<times> ('k, 'v) mp_map) option) \<Rightarrow>
    ('k, 'v) mp_map_elem list \<Rightarrow> ('k, 'v) mp_map \<Rightarrow> (map_error option \<times> ('k, 'v) mp_map) option"
where
  "reinsert add [] m = Some (None, m)"
| "reinsert add (elem # old_table) m =
     (case el_key elem of
        Key k \<Rightarrow>
          (case add m k of
             None \<Rightarrow> None
           | Some (Slot pos, m') \<Rightarrow> reinsert add old_table (set_value pos (el_value elem) m')
           | Some (Raised e, m') \<Rightarrow> Some (Some e, m')
           | Some (Not_found, m') \<Rightarrow> Some (Some Null_dereference, m'))
      | _ \<Rightarrow> reinsert add old_table m)"

definition rehash_with :: "(('k, 'v) mp_map \<Rightarrow> 'k \<Rightarrow> (lookup_result \<times> ('k, 'v) mp_map) option) \<Rightarrow>
    'k obj_ops \<Rightarrow> ('k, 'v) mp_map \<Rightarrow> (map_error option \<times> ('k, 'v) mp_map) option" where
  "rehash_with add ops m =
     (let new_alloc = get_hash_alloc_greater_or_equal_to (alloc m + 1) in
      if \<not> mem_ok ops new_alloc then Some (Some Memory_error, m)
      else reinsert add (take (alloc m) (table m))
        (m\<lparr>alloc := new_alloc, used := 0, all_keys_are_qstrs := True, table := replicate new_alloc empty_slot\<rparr>))"

section \<open>Lookup\<close>

definition lookup_with :: "(('k, 'v) mp_map \<Rightarrow> (map_error option \<times> ('k, 'v) mp_map) option) \<Rightarrow> nat \<Rightarrow>
    'k obj_ops \<Rightarrow> ('k, 'v) mp_map \<Rightarrow> 'k \<Rightarrow> mp_map_lookup_kind \<Rightarrow> (lookup_result \<times> ('k, 'v) mp_map) option" where
  "lookup_with rehash turns ops m index lookup_kind =
     (if is_fixed m \<and> lookup_kind \<noteq> MP_MAP_LOOKUP then Some (Raised Assertion_failed, m)
      else if all_keys_are_qstrs m \<and> \<not> is_qstr ops index \<and> \<not> is_str ops index
              \<and> lookup_kind \<noteq> MP_MAP_LOOKUP_ADD_IF_NOT_FOUND then Some (Not_found, m)
      else
        let compare_only_ptrs = (all_keys_are_qstrs m \<and> (is_qstr ops index \<or> \<not> is_str ops index)) in
        if is_ordered m then Some (linear_search ops compare_only_ptrs index 0 (take (used m) (table m)), m)
        else if alloc m = 0 \<and> lookup_kind \<noteq> MP_MAP_LOOKUP_ADD_IF_NOT_FOUND then Some (Not_found, m)
        else
          case (if alloc m = 0 then rehash m else Some (None, m)) of
            None \<Rightarrow> None
          | Some (Some e, m') \<Rightarrow> Some (Raised e, m')
          | Some (None, m') \<Rightarrow>
              (case hash_of ops index of
                 None \<Rightarrow> Some (Raised Type_error, m')
               | Some hash \<Rightarrow> hash_search rehash turns ops compare_only_ptrs index hash lookup_kind m'))"

fun mp_map_lookup :: "nat \<Rightarrow> 'k obj_ops \<Rightarrow> ('k, 'v) mp_map \<Rightarrow> 'k \<Rightarrow> mp_map_lookup_kind \<Rightarrow>
    (lookup_result \<times> ('k, 'v) mp_map) option" where
  "mp_map_lookup 0 ops m index lookup_kind = None"
| "mp_map_lookup (Suc depth) ops m index lookup_kind =
     lookup_with
       (rehash_with (\<lambda>m' k. mp_map_lookup depth ops m' k MP_MAP_LOOKUP_ADD_IF_NOT_FOUND) ops)
       (Suc depth) ops m index lookup_kind"

definition mp_map_rehash :: "nat \<Rightarrow> 'k obj_ops \<Rightarrow> ('k, 'v) mp_map \<Rightarrow> (map_error option \<times> ('k, 'v) mp_map) option" where
  "mp_map_rehash depth ops =
     rehash_with (\<lambda>m k. mp_map_lookup depth ops m k MP_MAP_LOOKUP_ADD_IF_NOT_FOUND) ops"

text \<open>The call itself, with the depth that suffices.\<close>

definition map_lookup :: "'k obj_ops \<Rightarrow> ('k, 'v) mp_map \<Rightarrow> 'k \<Rightarrow> mp_map_lookup_kind \<Rightarrow> lookup_result \<times> ('k, 'v) mp_map" where
  "map_lookup ops m index lookup_kind =
     (case mp_map_lookup 2 ops m index lookup_kind of Some r \<Rightarrow> r | None \<Rightarrow> (Raised Out_of_depth, m))"

end
