(* ===== verification/MpMapOk.thy ===== *)
theory MpMapOk
  imports MpMap
begin

text \<open>
  The hash map implements a finite map from objects, up to their equality, to values.
\<close>

section \<open>Objects and keys\<close>

text \<open>
  What the map relies on: equality is an equivalence, equal objects have equal hashes, interned strings
  are equal only when identical, and what equals an interned string is a string.
\<close>

definition obj_laws :: "'k obj_ops \<Rightarrow> bool" where
  "obj_laws ops \<longleftrightarrow>
     (\<forall>a. obj_equal ops a a) \<and> (\<forall>a b. obj_equal ops a b \<longrightarrow> obj_equal ops b a)
     \<and> (\<forall>a b c. obj_equal ops a b \<longrightarrow> obj_equal ops b c \<longrightarrow> obj_equal ops a c)
     \<and> (\<forall>a b. obj_equal ops a b \<longrightarrow> hash_of ops a = hash_of ops b)
     \<and> (\<forall>a b. is_qstr ops a \<longrightarrow> is_qstr ops b \<longrightarrow> obj_equal ops a b \<longrightarrow> a = b)
     \<and> (\<forall>a b. is_qstr ops a \<longrightarrow> obj_equal ops a b \<longrightarrow> is_qstr ops b \<or> is_str ops b)"

lemma obj_lawsD:
  assumes "obj_laws ops"
  shows "obj_equal ops a a" "obj_equal ops a b \<Longrightarrow> obj_equal ops b a"
    "obj_equal ops a b \<Longrightarrow> obj_equal ops b c \<Longrightarrow> obj_equal ops a c"
    "obj_equal ops a b \<Longrightarrow> hash_of ops a = hash_of ops b"
    "is_qstr ops a \<Longrightarrow> is_qstr ops b \<Longrightarrow> obj_equal ops a b \<Longrightarrow> a = b"
    "is_qstr ops a \<Longrightarrow> obj_equal ops a b \<Longrightarrow> is_qstr ops b \<or> is_str ops b"
  using assms unfolding obj_laws_def by blast+

definition equal_key :: "'k obj_ops \<Rightarrow> 'k \<Rightarrow> ('k, 'v) mp_map_elem \<Rightarrow> bool" where
  "equal_key ops index elem = (case el_key elem of Key k \<Rightarrow> obj_equal ops k index | _ \<Rightarrow> False)"

definition is_key :: "('k, 'v) mp_map_elem \<Rightarrow> bool" where
  "is_key elem = (case el_key elem of Key _ \<Rightarrow> True | _ \<Rightarrow> False)"

text \<open>The map that a table stands for.\<close>

definition elems_find :: "'k obj_ops \<Rightarrow> ('k, 'v) mp_map_elem list \<Rightarrow> 'k \<Rightarrow> 'v option option" where
  "elems_find ops elems index = map_option el_value (find (equal_key ops index) elems)"

definition map_find :: "'k obj_ops \<Rightarrow> ('k, 'v) mp_map \<Rightarrow> 'k \<Rightarrow> 'v option option" where
  "map_find ops m = elems_find ops (table m)"

section \<open>The invariant\<close>

text \<open>The \<open>d\<close>th position of the search that starts at \<open>s\<close>.\<close>

definition at :: "('k, 'v) mp_map_elem list \<Rightarrow> nat \<Rightarrow> nat \<Rightarrow> nat" where
  "at tbl s d = (s + d) mod length tbl"

definition reached :: "('k, 'v) mp_map_elem list \<Rightarrow> nat \<Rightarrow> nat \<Rightarrow> bool" where
  "reached tbl s i \<longleftrightarrow>
     (\<exists>d<length tbl. i = at tbl s d \<and> (\<forall>d'<d. el_key (tbl ! at tbl s d') \<noteq> MP_OBJ_NULL))"

definition table_ok :: "'k obj_ops \<Rightarrow> ('k, 'v) mp_map_elem list \<Rightarrow> bool" where
  "table_ok ops tbl \<longleftrightarrow>
     (\<forall>i<length tbl. \<forall>k. el_key (tbl ! i) = Key k \<longrightarrow>
        (\<exists>h. hash_of ops k = Some h \<and> reached tbl (unat h mod length tbl) i)
        \<and> (\<forall>j<length tbl. \<forall>k'. el_key (tbl ! j) = Key k' \<longrightarrow> obj_equal ops k k' \<longrightarrow> i = j))"

definition map_ok :: "'k obj_ops \<Rightarrow> ('k, 'v) mp_map \<Rightarrow> bool" where
  "map_ok ops m \<longleftrightarrow>
     \<not> is_fixed m \<and> \<not> is_ordered m \<and> alloc m = length (table m)
     \<and> used m = length (filter is_key (table m))
     \<and> (all_keys_are_qstrs m \<longrightarrow> (\<forall>e\<in>set (table m). \<forall>k. el_key e = Key k \<longrightarrow> is_qstr ops k))
     \<and> table_ok ops (table m)"

lemma is_key_iff: "is_key e \<longleftrightarrow> (\<exists>k. el_key e = Key k)"
  by (simp add: is_key_def split: map_key.split)

lemma equal_key_iff: "equal_key ops index e \<longleftrightarrow> (\<exists>k. el_key e = Key k \<and> obj_equal ops k index)"
  by (simp add: equal_key_def split: map_key.split)

lemma elems_find_simps [simp]:
  "elems_find ops [] k = None"
  "elems_find ops (e # es) k = (if equal_key ops k e then Some (el_value e) else elems_find ops es k)"
  by (simp_all add: elems_find_def)

lemma elems_find_None: "elems_find ops es k = None \<longleftrightarrow> (\<forall>e\<in>set es. \<not> equal_key ops k e)"
  by (induction es) auto

lemma elems_find_append: "elems_find ops (xs @ ys) k =
    (case elems_find ops xs k of Some v \<Rightarrow> Some v | None \<Rightarrow> elems_find ops ys k)"
  by (induction xs) auto

lemma elems_find_equal:
  assumes "obj_laws ops" "obj_equal ops k k'"
  shows "elems_find ops es k = elems_find ops es k'"
proof -
  have "equal_key ops k e = equal_key ops k' e" for e :: "('a, 'b) mp_map_elem"
    using obj_lawsD(2,3) [OF assms(1)] assms(2) unfolding equal_key_iff by blast
  then have "(equal_key ops k :: ('a, 'b) mp_map_elem \<Rightarrow> bool) = equal_key ops k'" by blast
  then show ?thesis by (simp add: elems_find_def)
qed

text \<open>Only one slot can hold a given key, so that the slot found holds the value.\<close>

lemma map_find_at:
  assumes "obj_laws ops" "table_ok ops tbl" "i < length tbl" "equal_key ops k (tbl ! i)"
  shows "elems_find ops tbl k = Some (el_value (tbl ! i))"
proof -
  have uniq: "j = i" if j: "j < length tbl" "equal_key ops k (tbl ! j)" for j
    using assms j obj_lawsD(2,3) [OF assms(1)] unfolding table_ok_def equal_key_iff by meson
  have "find (equal_key ops k) tbl = Some (tbl ! i)"
  proof (rule find_Some_iff [THEN iffD2], intro exI conjI)
    show "\<forall>j<i. \<not> equal_key ops k (tbl ! j)" using uniq assms(3) by (metis less_irrefl less_trans)
  qed (use assms in auto)
  then show ?thesis by (simp add: elems_find_def)
qed

lemma at_less: "tbl \<noteq> [] \<Longrightarrow> at tbl s d < length tbl"
  by (simp add: at_def)

lemma at_0: "s < length tbl \<Longrightarrow> at tbl s 0 = s"
  by (simp add: at_def)

lemma at_Suc: "at tbl ((s + 1) mod length tbl) d = at tbl s (Suc d)"
  by (simp add: at_def mod_simps)

lemma at_list_update [simp]: "at (tbl[i := e]) = at tbl"
  by (simp add: at_def fun_eq_iff)

lemma at_covers:
  assumes "s < length tbl" "i < length tbl"
  shows "\<exists>d<length tbl. i = at tbl s d"
proof (cases "s \<le> i")
  case True
  then show ?thesis using assms by (intro exI [of _ "i - s"]) (simp add: at_def)
next
  case False
  have "(s + (i + length tbl - s)) mod length tbl = i" using False assms by simp
  then show ?thesis using False assms by (intro exI [of _ "i + length tbl - s"]) (simp add: at_def)
qed

section \<open>Probing\<close>

definition skipped :: "'k obj_ops \<Rightarrow> bool \<Rightarrow> 'k \<Rightarrow> ('k, 'v) mp_map_elem \<Rightarrow> bool" where
  "skipped ops ptrs index e \<longleftrightarrow> el_key e \<noteq> MP_OBJ_NULL \<and> \<not> key_matches ops ptrs index (el_key e)"

lemma key_matches_simps [simp]:
  "\<not> key_matches ops ptrs index MP_OBJ_NULL" "\<not> key_matches ops ptrs index MP_OBJ_SENTINEL"
  by (simp_all add: key_matches_def)

text \<open>Every outcome of the loop, by the number of steps it took from its start.\<close>

definition probed :: "'k obj_ops \<Rightarrow> bool \<Rightarrow> 'k \<Rightarrow> ('k, 'v) mp_map_elem list \<Rightarrow> nat \<Rightarrow> nat \<Rightarrow> nat option \<Rightarrow>
    probe_result \<Rightarrow> bool" where
  "probed ops ptrs index tbl steps s avail r \<longleftrightarrow>
     (case r of
        Found_slot p \<Rightarrow> (\<exists>d < steps. p = at tbl s d \<and> key_matches ops ptrs index (el_key (tbl ! p))
          \<and> (\<forall>d'<d. skipped ops ptrs index (tbl ! at tbl s d')))
      | Empty_slot p \<Rightarrow> (\<exists>d < steps. el_key (tbl ! at tbl s d) = MP_OBJ_NULL
          \<and> (\<forall>d'<d. skipped ops ptrs index (tbl ! at tbl s d'))
          \<and> (avail = Some p \<or> avail = None \<and> (\<exists>e\<le>d. p = at tbl s e \<and> \<not> is_key (tbl ! p))))
      | Wrapped w \<Rightarrow> (\<forall>d < steps. skipped ops ptrs index (tbl ! at tbl s d))
          \<and> (case avail of Some q \<Rightarrow> w = Some q
             | None \<Rightarrow> (case w of None \<Rightarrow> \<forall>d < steps. is_key (tbl ! at tbl s d)
                        | Some p \<Rightarrow> \<exists>e < steps. p = at tbl s e \<and> \<not> is_key (tbl ! p))))"

lemma probed_step:
  assumes "s < length tbl" "skipped ops ptrs index (tbl ! s)"
    and "probed ops ptrs index tbl steps ((s + 1) mod length tbl) avail' r"
    and "avail' = (if is_key (tbl ! s) then avail else case avail of None \<Rightarrow> Some s | Some p \<Rightarrow> Some p)"
  shows "probed ops ptrs index tbl (Suc steps) s avail r"
proof -
  have all: "(\<forall>d'<Suc d. P (tbl ! at tbl s d')) \<longleftrightarrow> P (tbl ! s) \<and> (\<forall>d'<d. P (tbl ! at tbl s (Suc d')))" for P d
    using assms(1) by (auto simp: All_less_Suc2 at_0)
  have 0: "s = at tbl s 0" using assms(1) by (simp add: at_0)
  show ?thesis
  proof (cases r)
    case (Empty_slot p)
    from assms(3) obtain d where d: "d < steps" "el_key (tbl ! at tbl s (Suc d)) = MP_OBJ_NULL"
      "\<forall>d'<d. skipped ops ptrs index (tbl ! at tbl s (Suc d'))"
      "avail' = Some p \<or> avail' = None \<and> (\<exists>e\<le>d. p = at tbl s (Suc e) \<and> \<not> is_key (tbl ! p))"
      unfolding probed_def Empty_slot by (auto simp: at_Suc [simplified])
    have "avail = Some p \<or> avail = None \<and> (\<exists>e\<le>Suc d. p = at tbl s e \<and> \<not> is_key (tbl ! p))"
      using d(4) assms(4) 0 by (auto split: if_splits option.splits intro: Suc_le_mono [THEN iffD2])
    then show ?thesis using d assms(2) unfolding probed_def Empty_slot
      by (simp only: probe_result.case) (rule exI [of _ "Suc d"], simp add: all)
  next
    case (Found_slot p)
    from assms(3) obtain d where d: "d < steps" "p = at tbl s (Suc d)"
      "key_matches ops ptrs index (el_key (tbl ! p))" "\<forall>d'<d. skipped ops ptrs index (tbl ! at tbl s (Suc d'))"
      unfolding probed_def Found_slot by (auto simp: at_Suc [simplified])
    then show ?thesis using assms(2) unfolding probed_def Found_slot
      by (simp only: probe_result.case) (rule exI [of _ "Suc d"], simp add: all)
  next
    case (Wrapped w)
    show ?thesis
      using assms(2-4) 0 unfolding probed_def Wrapped
      by (auto simp: all at_Suc [simplified] split: if_splits option.splits)
  qed
qed

lemma probe_probed:
  "s < length tbl \<Longrightarrow> probed ops ptrs index tbl steps s avail (probe ops ptrs index tbl steps s avail)"
proof (induction steps arbitrary: s avail)
  case 0
  show ?case by (simp add: probed_def split: option.split)
next
  case (Suc steps)
  let ?s = "(s + 1) mod length tbl" and ?e = "tbl ! s"
  have s': "?s < length tbl" using Suc.prems by (cases tbl) auto
  consider "el_key ?e = MP_OBJ_NULL" | "el_key ?e = MP_OBJ_SENTINEL"
    | "is_key ?e" "key_matches ops ptrs index (el_key ?e)" | "is_key ?e" "\<not> key_matches ops ptrs index (el_key ?e)"
    by (cases "el_key ?e") (auto simp: is_key_iff)
  then show ?case
  proof cases
    case 1
    then show ?thesis using Suc.prems
      by (auto simp: probed_def Let_def at_0 is_key_iff split: option.split intro!: exI [of _ 0])
  next
    case 2
    then show ?thesis
      using probed_step [OF Suc.prems _ Suc.IH [OF s']] by (simp add: skipped_def Let_def is_key_iff)
  next
    case 3
    then show ?thesis using Suc.prems
      by (auto simp: probed_def Let_def at_0 is_key_iff intro!: exI [of _ 0])
  next
    case 4
    then show ?thesis
      using probed_step [OF Suc.prems _ Suc.IH [OF s']] by (auto simp: skipped_def Let_def is_key_iff)
  qed
qed

section \<open>What a search finds\<close>

definition ptrs_only :: "'k obj_ops \<Rightarrow> ('k, 'v) mp_map \<Rightarrow> 'k \<Rightarrow> bool" where
  "ptrs_only ops m index \<longleftrightarrow> all_keys_are_qstrs m \<and> (is_qstr ops index \<or> \<not> is_str ops index)"

text \<open>Comparing references only is enough where the code does it.\<close>

lemma key_matches_equal:
  assumes "obj_laws ops" "map_ok ops m" "ptrs \<longrightarrow> ptrs_only ops m index" "e \<in> set (table m)"
  shows "key_matches ops ptrs index (el_key e) = equal_key ops index e"
proof (cases "el_key e")
  case (Key k)
  have "obj_equal ops k index \<Longrightarrow> k = index" if "ptrs_only ops m index"
  proof -
    assume eq: "obj_equal ops k index"
    have "is_qstr ops k" using that assms(2,4) Key unfolding ptrs_only_def map_ok_def by blast
    then show "k = index"
      using obj_lawsD(5) [OF assms(1) _ _ eq] obj_lawsD(6) [OF assms(1) _ eq] that
      unfolding ptrs_only_def by blast
  qed
  then show ?thesis using obj_lawsD(1) [OF assms(1)] assms(3) Key by (auto simp: key_matches_def equal_key_def)
qed (simp_all add: equal_key_def)

lemma table_okD:
  assumes "table_ok ops tbl" "i < length tbl" "el_key (tbl ! i) = Key k"
  shows "\<exists>h. hash_of ops k = Some h \<and> reached tbl (unat h mod length tbl) i"
  using assms unfolding table_ok_def by blast

lemma equal_reached:
  assumes "obj_laws ops" "table_ok ops tbl" "hash_of ops index = Some h" "i < length tbl"
    "equal_key ops index (tbl ! i)"
  shows "reached tbl (unat h mod length tbl) i"
proof -
  obtain k where k: "el_key (tbl ! i) = Key k" "obj_equal ops k index"
    using assms(5) by (auto simp: equal_key_iff)
  then show ?thesis using table_okD [OF assms(2,4) k(1)] obj_lawsD(4) [OF assms(1) k(2)] assms(3) by auto
qed

lemma absent_before_null:
  assumes "obj_laws ops" "table_ok ops tbl" "hash_of ops index = Some h"
    and "d < length tbl" "el_key (tbl ! at tbl (unat h mod length tbl) d) = MP_OBJ_NULL"
    and skip: "\<forall>d'<d. \<not> equal_key ops index (tbl ! at tbl (unat h mod length tbl) d')"
  shows "elems_find ops tbl index = None"
  unfolding elems_find_None
proof (intro ballI notI)
  fix e assume "e \<in> set tbl" and e: "equal_key ops index e"
  then obtain i where i: "i < length tbl" "tbl ! i = e" by (auto simp: in_set_conv_nth)
  then obtain c where c: "c < length tbl" "i = at tbl (unat h mod length tbl) c"
    "\<forall>d'<c. el_key (tbl ! at tbl (unat h mod length tbl) d') \<noteq> MP_OBJ_NULL"
    using equal_reached [OF assms(1-3) i(1)] e unfolding reached_def by auto
  consider "c < d" | "c = d" | "d < c" by linarith
  then show False
  proof cases
    case 1 then show ?thesis using skip c(2) i(2) e by auto
  next
    case 2 then show ?thesis using c(2) i(2) e assms(5) by (simp add: equal_key_def)
  next
    case 3 then show ?thesis using c(3) assms(5) by blast
  qed
qed

lemma absent_all_round:
  assumes "s < length tbl" "\<forall>d<length tbl. \<not> equal_key ops index (tbl ! at tbl s d)"
  shows "elems_find ops tbl index = None"
  unfolding elems_find_None using assms at_covers [OF assms(1)] by (metis in_set_conv_nth)

text \<open>The three outcomes of the loop started by \<open>mp_map_lookup\<close>.\<close>

definition room_at :: "('k, 'v) mp_map_elem list \<Rightarrow> nat \<Rightarrow> nat \<Rightarrow> bool" where
  "room_at tbl s p \<longleftrightarrow>
     (\<exists>d<length tbl. p = at tbl s d \<and> \<not> is_key (tbl ! p) \<and> (\<forall>d'<d. el_key (tbl ! at tbl s d') \<noteq> MP_OBJ_NULL))"

lemma probe_outcome:
  assumes laws: "obj_laws ops" and ok: "map_ok ops m" and "table m \<noteq> []" and h: "hash_of ops index = Some h"
    and ptrs: "ptrs \<longrightarrow> ptrs_only ops m index"
  defines "s \<equiv> unat h mod alloc m"
  defines "r \<equiv> probe ops ptrs index (table m) (alloc m) s None"
  shows "(\<exists>p<alloc m. r = Found_slot p \<and> equal_key ops index (table m ! p))
    \<or> map_find ops m index = None \<and> (\<exists>p. (r = Empty_slot p \<or> r = Wrapped (Some p)) \<and> room_at (table m) s p)
    \<or> map_find ops m index = None \<and> r = Wrapped None \<and> used m = alloc m"
proof -
  let ?t = "table m" and ?eq = "\<lambda>d. equal_key ops index (table m ! at (table m) s d)"
  have n: "alloc m = length ?t" "table_ok ops ?t" using ok by (simp_all add: map_ok_def)
  have s: "s < length ?t" using assms(3) n unfolding s_def by simp
  have m: "skipped ops ptrs index (?t ! at ?t s d)
      \<longleftrightarrow> el_key (?t ! at ?t s d) \<noteq> MP_OBJ_NULL \<and> \<not> ?eq d" for d
    using key_matches_equal [OF laws ok ptrs nth_mem [OF at_less [OF assms(3)]]] by (simp add: skipped_def)
  have pr: "probed ops ptrs index ?t (length ?t) s None r"
    using probe_probed [OF s] unfolding r_def n(1) .
  show ?thesis
  proof (cases r)
    case (Found_slot p)
    then obtain d where "p = at ?t s d" "key_matches ops ptrs index (el_key (?t ! p))"
      using pr by (auto simp: probed_def)
    then show ?thesis
      using key_matches_equal [OF laws ok ptrs nth_mem [OF at_less [OF assms(3)]]] at_less [OF assms(3)] Found_slot n
      by metis
  next
    case (Empty_slot p)
    then obtain d e where d: "d < length ?t" "el_key (?t ! at ?t s d) = MP_OBJ_NULL"
      "\<forall>d'<d. el_key (?t ! at ?t s d') \<noteq> MP_OBJ_NULL \<and> \<not> ?eq d'" and e: "e \<le> d" "p = at ?t s e" "\<not> is_key (?t ! p)"
      using pr by (auto simp: probed_def m)
    have "map_find ops m index = None"
      using absent_before_null [OF laws n(2) h d(1)] d(2,3) unfolding map_find_def s_def n(1) by blast
    moreover have "room_at ?t s p" using d e unfolding room_at_def by (metis le_less_trans less_le_trans)
    ultimately show ?thesis using Empty_slot by blast
  next
    case (Wrapped w)
    then have skip: "\<forall>d<length ?t. el_key (?t ! at ?t s d) \<noteq> MP_OBJ_NULL \<and> \<not> ?eq d"
      using pr by (simp add: probed_def m)
    have none: "map_find ops m index = None"
      using absent_all_round [OF s] skip unfolding map_find_def by blast
    show ?thesis
    proof (cases w)
      case None
      then have "\<forall>d<length ?t. is_key (?t ! at ?t s d)" using pr Wrapped by (simp add: probed_def)
      then have "\<forall>e\<in>set ?t. is_key e" using at_covers [OF s] by (metis in_set_conv_nth)
      then show ?thesis using none None Wrapped ok by (simp add: map_ok_def)
    next
      case (Some p)
      then have "room_at ?t s p" using pr Wrapped skip by (auto simp: probed_def room_at_def)
      then show ?thesis using none Some Wrapped by blast
    qed
  qed
qed

section \<open>What an update keeps\<close>

lemma length_filter_update:
  "p < length xs \<Longrightarrow>
     length (filter P (xs[p := e])) + of_bool (P (xs ! p)) = length (filter P xs) + of_bool (P e)"
  by (subst (3) id_take_nth_drop, assumption) (simp add: upd_conv_take_nth_drop)

lemma reached_update:
  assumes "reached tbl s i"
    and "el_key e \<noteq> MP_OBJ_NULL \<or> (\<forall>d<length tbl. i = at tbl s d \<longrightarrow>
           (\<forall>d'<d. el_key (tbl ! at tbl s d') \<noteq> MP_OBJ_NULL) \<longrightarrow> (\<forall>d'<d. at tbl s d' \<noteq> p))"
  shows "reached (tbl[p := e]) s i"
proof -
  obtain d where d: "d < length tbl" "i = at tbl s d" "\<forall>d'<d. el_key (tbl ! at tbl s d') \<noteq> MP_OBJ_NULL"
    using assms(1) unfolding reached_def by blast
  have less: "at tbl s d' < length tbl" for d' using d(1) by (intro at_less) auto
  have "el_key (tbl[p := e] ! at tbl s d') \<noteq> MP_OBJ_NULL" if d': "d' < d" for d'
  proof (cases "at tbl s d' = p")
    case True
    then show ?thesis using assms(2) d d' less by auto
  next
    case False
    then show ?thesis using d(3) d' by simp
  qed
  then show ?thesis using d(1,2) unfolding reached_def by auto
qed

text \<open>Setting a value.\<close>

lemma map_eq_update: "p < length xs \<Longrightarrow> f (xs ! p) = f e \<Longrightarrow> map f (xs[p := e]) = map f xs"
  by (metis list_update_id map_update)

lemma set_value_keys: "map el_key (table (set_value p v m)) = map el_key (table m)"
  by (cases "p < length (table m)") (simp_all add: set_value_def map_eq_update list_update_beyond)

lemma table_ok_keys:
  assumes "map el_key tbl = map el_key tbl'"
  shows "table_ok ops tbl = table_ok ops tbl'"
proof -
  have len: "length tbl = length tbl'" using assms by (rule map_eq_imp_length_eq)
  then have key: "i < length tbl \<Longrightarrow> el_key (tbl ! i) = el_key (tbl' ! i)" for i
    using assms by (metis nth_map)
  have at: "at tbl s d = at tbl' s d" for s d by (simp add: at_def len)
  have "at tbl' s d < length tbl'" if "i < length tbl'" for s d i using that at_less [of tbl'] by force
  then have "i < length tbl' \<Longrightarrow> reached tbl s i = reached tbl' s i" for s i
    unfolding reached_def by (simp add: at len key)
  then show ?thesis unfolding table_ok_def by (simp add: len key cong: conj_cong)
qed

lemma filter_keys: "length (filter is_key tbl) = length (filter (\<lambda>key. \<exists>k. key = Key k) (map el_key tbl))"
  by (induction tbl) (auto simp: is_key_iff)

lemma set_value_sel [simp]:
  "is_fixed (set_value p v m) = is_fixed m" "used (set_value p v m) = used m"
  "alloc (set_value p v m) = alloc m" "is_ordered (set_value p v m) = is_ordered m"
  "all_keys_are_qstrs (set_value p v m) = all_keys_are_qstrs m"
  "length (table (set_value p v m)) = length (table m)"
  by (simp_all add: set_value_def)

lemma set_value_ok:
  assumes "map_ok ops m"
  shows "map_ok ops (set_value p v m)"
proof -
  note keys = set_value_keys [of p v m]
  have "(\<forall>e\<in>set tbl. \<forall>k. el_key e = Key k \<longrightarrow> is_qstr ops k)
      \<longleftrightarrow> (\<forall>key\<in>set (map el_key tbl). \<forall>k. key = Key k \<longrightarrow> is_qstr ops k)" for tbl :: "('a, 'b) mp_map_elem list"
    by auto
  then show ?thesis
    using assms unfolding map_ok_def set_value_sel filter_keys table_ok_keys [OF keys] by (simp only: keys) simp
qed
text \<open>A slot written with a key that is not in the table yet, and a slot overwritten in place.\<close>

lemma elems_find_update:
  assumes "obj_laws ops" "table_ok ops tbl" "p < length tbl"
    and "\<not> is_key (tbl ! p) \<or> el_key (tbl ! p) = el_key e \<or> \<not> is_key e"
    and "\<forall>k. el_key e = Key k \<longrightarrow> \<not> is_key (tbl ! p) \<longrightarrow> elems_find ops tbl k = None"
  shows "elems_find ops (tbl[p := e]) k =
    (if equal_key ops k e then Some (el_value e)
     else if equal_key ops k (tbl ! p) then None else elems_find ops tbl k)"
proof -
  have split: "tbl = take p tbl @ tbl ! p # drop (Suc p) tbl" using assms(3) by (rule id_take_nth_drop)
  have upd: "tbl[p := e] = take p tbl @ e # drop (Suc p) tbl" using assms(3) by (rule upd_conv_take_nth_drop)
  have only: "elems_find ops (take p tbl) k = None \<and> elems_find ops (drop (Suc p) tbl) k = None"
    if hit: "equal_key ops k e \<or> equal_key ops k (tbl ! p)"
  proof -
    have "\<not> equal_key ops k (tbl ! j)" if j: "j < length tbl" "j \<noteq> p" for j
    proof
      assume kj: "equal_key ops k (tbl ! j)"
      show False
      proof (cases "equal_key ops k (tbl ! p)")
        case True
        then show ?thesis
          using kj j assms(1-3) unfolding table_ok_def equal_key_iff by (meson obj_lawsD(2,3))
      next
        case False
        then obtain x where x: "el_key e = Key x" "obj_equal ops x k" "\<not> is_key (tbl ! p)"
          using hit assms(4) by (auto simp: equal_key_iff is_key_iff)
        then have "elems_find ops tbl k = None"
          using assms(5) elems_find_equal [OF assms(1) x(2)] by metis
        then show ?thesis using kj j by (simp add: elems_find_None)
      qed
    qed
    then show ?thesis
      using assms(3) by (auto simp: elems_find_None in_set_conv_nth)
  qed
  show ?thesis
    unfolding upd elems_find_append elems_find_simps
    using only by (subst (3) split) (auto simp: elems_find_append split: option.split)
qed

section \<open>Adding and deleting a key\<close>

lemma map_okD:
  assumes "map_ok ops m"
  shows "alloc m = length (table m)" "used m = length (filter is_key (table m))" "table_ok ops (table m)"
    "\<not> is_fixed m" "\<not> is_ordered m"
  using assms by (simp_all add: map_ok_def)

lemma room_less: "room_at tbl s p \<Longrightarrow> p < length tbl"
  using at_less [of tbl s] unfolding room_at_def by (cases "tbl = []") auto

lemma add_slot_sel [simp]:
  "table (add_slot ops index p m) = (table m)[p := \<lparr>el_key = Key index, el_value = None\<rparr>]"
  "used (add_slot ops index p m) = used m + 1" "alloc (add_slot ops index p m) = alloc m"
  "is_fixed (add_slot ops index p m) = is_fixed m" "is_ordered (add_slot ops index p m) = is_ordered m"
  "all_keys_are_qstrs (add_slot ops index p m) = (all_keys_are_qstrs m \<and> is_qstr ops index)"
  by (simp_all add: add_slot_def)

lemma not_key_key: "\<not> is_key e \<longleftrightarrow> (\<forall>k. el_key e \<noteq> Key k)"
  by (simp add: is_key_iff)

lemma add_slot_find:
  assumes "obj_laws ops" "map_ok ops m" "map_find ops m index = None" "p < alloc m" "\<not> is_key (table m ! p)"
  shows "map_find ops (add_slot ops index p m) k = (if obj_equal ops index k then Some None else map_find ops m k)"
proof -
  have "\<not> equal_key ops k (table m ! p)" using assms(5) by (simp add: equal_key_iff is_key_iff)
  then show ?thesis
    using elems_find_update [OF assms(1) map_okD(3) [OF assms(2)], of p "\<lparr>el_key = Key index, el_value = None\<rparr>" k]
      assms(3-5) map_okD(1) [OF assms(2)]
    by (simp add: map_find_def equal_key_def)
qed

lemma add_slot_ok:
  assumes "obj_laws ops" "map_ok ops m" "map_find ops m index = None" "hash_of ops index = Some h"
    and room: "room_at (table m) (unat h mod alloc m) p"
  shows "map_ok ops (add_slot ops index p m)"
proof -
  let ?t = "table m" and ?e = "\<lparr>el_key = Key index, el_value = None\<rparr>"
  note ok = map_okD [OF assms(2)]
  have p: "p < length ?t" "\<not> is_key (?t ! p)" using room room_less [OF room] by (auto simp: room_at_def)
  have key: "el_key (?t[p := ?e] ! i) = Key k \<longleftrightarrow> (if i = p then k = index else el_key (?t ! i) = Key k)"
    if "i < length ?t" for i k using that by (auto simp: nth_list_update)
  have fresh: "\<not> obj_equal ops k index" if "i < length ?t" "el_key (?t ! i) = Key k" for i k
    using assms(3) that nth_mem unfolding map_find_def elems_find_None equal_key_iff by blast
  have "reached ?t (unat h mod length ?t) p" using room ok(1) unfolding room_at_def reached_def by auto
  then have here: "reached (?t[p := ?e]) (unat h mod length ?t) p" by (rule reached_update) simp
  have "table_ok ops (?t[p := ?e])"
    unfolding table_ok_def length_list_update
  proof (intro allI impI conjI)
    fix i k assume i: "i < length ?t" and k: "el_key (?t[p := ?e] ! i) = Key k"
    show "\<exists>h. hash_of ops k = Some h \<and> reached (?t[p := ?e]) (unat h mod length ?t) i"
    proof (cases "i = p")
      case True
      then show ?thesis using here assms(4) k key [OF i, of k] by simp
    next
      case False
      then show ?thesis using table_okD [OF ok(3) i, of k] k key [OF i, of k] by (auto intro!: reached_update)
    qed
    fix j k' assume j: "j < length ?t" "el_key (?t[p := ?e] ! j) = Key k'" "obj_equal ops k k'"
    then show "i = j"
      using i k key [OF i, of k] key [OF j(1), of k'] fresh ok(3) obj_lawsD(2) [OF assms(1)]
      unfolding table_ok_def by metis
  qed
  moreover have "length (filter is_key (?t[p := ?e])) = length (filter is_key ?t) + 1"
    using length_filter_update [OF p(1), of is_key ?e] p(2) by (simp add: is_key_def)
  moreover have "set (?t[p := ?e]) \<subseteq> insert ?e (set ?t)" by (rule set_update_subset_insert)
  ultimately show ?thesis using assms(2) unfolding map_ok_def by auto
qed

text \<open>
  Deleting: the key of a slot becomes SENTINEL, or NULL when the next slot is NULL.
\<close>

definition clear_key :: "'k map_key \<Rightarrow> nat \<Rightarrow> ('k, 'v) mp_map \<Rightarrow> ('k, 'v) mp_map" where
  "clear_key key p m = m\<lparr>used := used m - 1, table := (table m)[p := (table m ! p)\<lparr>el_key := key\<rparr>]\<rparr>"

definition clearable :: "('k, 'v) mp_map \<Rightarrow> nat \<Rightarrow> 'k map_key \<Rightarrow> bool" where
  "clearable m p key \<longleftrightarrow>
     key = MP_OBJ_SENTINEL \<or> key = MP_OBJ_NULL \<and> el_key (table m ! ((p + 1) mod alloc m)) = MP_OBJ_NULL"

lemma delete_slot_clear: "\<exists>key. clearable m p key \<and> delete_slot p m = clear_key key p m"
  by (auto simp: clearable_def clear_key_def delete_slot_def)

lemma clear_key_sel [simp]:
  "used (clear_key key p m) = used m - 1" "alloc (clear_key key p m) = alloc m"
  "is_fixed (clear_key key p m) = is_fixed m" "is_ordered (clear_key key p m) = is_ordered m"
  "all_keys_are_qstrs (clear_key key p m) = all_keys_are_qstrs m"
  "table (clear_key key p m) = (table m)[p := (table m ! p)\<lparr>el_key := key\<rparr>]"
  by (simp_all add: clear_key_def)

lemma clear_key_find:
  assumes "obj_laws ops" "map_ok ops m" "p < alloc m" "equal_key ops index (table m ! p)" "clearable m p key"
  shows "map_find ops (clear_key key p m) k = (if obj_equal ops index k then None else map_find ops m k)"
proof -
  have key: "\<forall>k. key \<noteq> Key k" using assms(5) by (auto simp: clearable_def)
  have "\<not> is_key ((table m ! p)\<lparr>el_key := key\<rparr>)" using key by (simp add: is_key_iff)
  moreover have "\<not> equal_key ops k ((table m ! p)\<lparr>el_key := key\<rparr>)" using key by (simp add: equal_key_iff)
  moreover have "equal_key ops k (table m ! p) = obj_equal ops index k"
    using assms(4) obj_lawsD(2,3) [OF assms(1)] unfolding equal_key_iff by (metis map_key.inject)
  ultimately show ?thesis
    using elems_find_update [OF assms(1) map_okD(3) [OF assms(2)], of p "(table m ! p)\<lparr>el_key := key\<rparr>" k]
      assms(3) map_okD(1) [OF assms(2)]
    by (simp add: map_find_def is_key_iff)
qed

lemma clear_key_ok:
  assumes "map_ok ops m" "p < alloc m" "is_key (table m ! p)" and key: "clearable m p key"
  shows "map_ok ops (clear_key key p m)"
proof -
  let ?t = "table m" and ?e = "(table m ! p)\<lparr>el_key := key\<rparr>"
  note ok = map_okD [OF assms(1)]
  have no: "\<not> is_key ?e" using key by (auto simp: is_key_iff clearable_def)
  have path: "reached (?t[p := ?e]) s i" if r: "reached ?t s i" and i: "i \<noteq> p" "is_key (?t ! i)" for s i
  proof (rule reached_update [OF r])
    have "\<forall>d'<d. at ?t s d' \<noteq> p" if null: "key = MP_OBJ_NULL" and d: "i = at ?t s d"
      "\<forall>d'<d. el_key (?t ! at ?t s d') \<noteq> MP_OBJ_NULL" for d
    proof (intro allI impI notI)
      fix d' assume d': "d' < d" "at ?t s d' = p"
      have next_null: "el_key (?t ! at ?t s (Suc d')) = MP_OBJ_NULL"
        using key null d'(2) ok(1) at_Suc [of ?t s d'] by (auto simp: at_def mod_simps clearable_def)
      show False
      proof (cases "Suc d' = d")
        case True then show ?thesis using next_null d(1) i(2) by (simp add: is_key_iff)
      next
        case False then show ?thesis using next_null d(2) d'(1) by auto
      qed
    qed
    then show "el_key ?e \<noteq> MP_OBJ_NULL \<or> (\<forall>d<length ?t. i = at ?t s d \<longrightarrow>
        (\<forall>d'<d. el_key (?t ! at ?t s d') \<noteq> MP_OBJ_NULL) \<longrightarrow> (\<forall>d'<d. at ?t s d' \<noteq> p))"
      by auto
  qed
  have key': "i \<noteq> p \<and> el_key (?t ! i) = Key k"
    if "i < length ?t" "el_key (?t[p := ?e] ! i) = Key k" for i k
    using that no by (cases "i = p") (auto simp: is_key_iff)
  have "table_ok ops (?t[p := ?e])"
    unfolding table_ok_def length_list_update
  proof (intro allI impI conjI)
    fix i k assume i: "i < length ?t" and k: "el_key (?t[p := ?e] ! i) = Key k"
    have ik: "i \<noteq> p" "el_key (?t ! i) = Key k" using key' [OF i k] by auto
    show "\<exists>h. hash_of ops k = Some h \<and> reached (?t[p := ?e]) (unat h mod length ?t) i"
      using table_okD [OF ok(3) i ik(2)] path ik by (auto simp: is_key_iff)
    fix j k' assume j: "j < length ?t" "el_key (?t[p := ?e] ! j) = Key k'" "obj_equal ops k k'"
    then show "i = j" using i ik key' [OF j(1,2)] ok(3) unfolding table_ok_def by blast
  qed
  moreover have "length (filter is_key (?t[p := ?e])) + 1 = length (filter is_key ?t)"
    using length_filter_update [of p ?t is_key ?e] assms(2,3) no ok(1) by simp
  moreover have "set (?t[p := ?e]) \<subseteq> insert ?e (set ?t)" by (rule set_update_subset_insert)
  ultimately show ?thesis using assms(1) no unfolding map_ok_def by (auto simp: is_key_iff)
qed

lemma delete_slot_ok:
  assumes "map_ok ops m" "p < alloc m" "is_key (table m ! p)"
  shows "map_ok ops (delete_slot p m)"
  using delete_slot_clear [of m p] clear_key_ok [OF assms] by auto

lemma delete_slot_find:
  assumes "obj_laws ops" "map_ok ops m" "p < alloc m" "equal_key ops index (table m ! p)"
  shows "map_find ops (delete_slot p m) k = (if obj_equal ops index k then None else map_find ops m k)"
  using delete_slot_clear [of m p] clear_key_find [OF assms] by auto

lemma delete_slot_sel [simp]:
  "used (delete_slot p m) = used m - 1" "alloc (delete_slot p m) = alloc m"
  "is_fixed (delete_slot p m) = is_fixed m" "is_ordered (delete_slot p m) = is_ordered m"
  by (simp_all add: delete_slot_def)

lemma set_value_find:
  assumes "obj_laws ops" "map_ok ops m" "p < alloc m" "equal_key ops index (table m ! p)"
  shows "map_find ops (set_value p v m) k = (if obj_equal ops index k then Some v else map_find ops m k)"
proof -
  have "equal_key ops k (table m ! p) = obj_equal ops index k"
    using assms(4) obj_lawsD(2,3) [OF assms(1)] unfolding equal_key_iff by (metis map_key.inject)
  moreover have "equal_key ops k ((table m ! p)\<lparr>el_value := v\<rparr>) = equal_key ops k (table m ! p)"
    by (simp add: equal_key_def)
  ultimately show ?thesis
    using elems_find_update [OF assms(1) map_okD(3) [OF assms(2)], of p "(table m ! p)\<lparr>el_value := v\<rparr>" k]
      assms(3,4) map_okD(1) [OF assms(2)]
    by (simp add: map_find_def set_value_def equal_key_iff is_key_iff)
qed

end
