(* ===== verification/MpMapOps.thy ===== *)
theory MpMapOps
  imports MpMapOk
begin

text \<open>
  \<open>mp_map_lookup\<close> in its three kinds and \<open>mp_map_rehash\<close>, as operations of the finite map that the table
  stands for.
\<close>

section \<open>Growing\<close>

lemma or_one_ge: "x \<le> x OR (1::nat)"
  by (simp add: or_Suc_0_eq)

lemma get_hash_alloc_ge: "x \<le> get_hash_alloc_greater_or_equal_to x"
proof (cases "find (\<lambda>s. x \<le> s) hash_allocation_sizes")
  case None
  have "x \<le> x + x div 2" by simp
  also have "\<dots> \<le> (x + x div 2) OR 1" by (rule or_one_ge)
  finally show ?thesis using None by (simp add: get_hash_alloc_greater_or_equal_to_def)
next
  case (Some s)
  then have "x \<le> s" by (auto simp: find_Some_iff)
  then show ?thesis using Some by (simp add: get_hash_alloc_greater_or_equal_to_def)
qed

lemma replicate_no_key: "filter is_key (replicate n empty_slot) = []"
  by (induction n) (simp_all add: is_key_def)

lemma elems_find_replicate: "elems_find ops (replicate n empty_slot) k = None"
  by (simp add: elems_find_None equal_key_def)

lemma table_ok_empty: "table_ok ops (replicate n empty_slot)"
  by (simp add: table_ok_def)

lemma mp_map_init_ok: "map_ok ops (mp_map_init n)" "map_find ops (mp_map_init n) k = None"
  by (auto simp: map_ok_def mp_map_init_def map_find_def replicate_no_key elems_find_replicate table_ok_def)

lemma mp_map_clear_ok:
  assumes "map_ok ops m"
  shows "map_ok ops (mp_map_clear m)" "map_find ops (mp_map_clear m) k = None"
  using assms by (simp_all add: map_ok_def mp_map_clear_def table_ok_def map_find_def)

text \<open>Adding a key that is not there to a table with room.\<close>

lemma used_le_alloc: "map_ok ops m \<Longrightarrow> used m \<le> alloc m"
  by (simp add: map_ok_def)

lemma lookup_add_room:
  assumes "obj_laws ops" "map_ok ops m" "used m < alloc m" "hash_of ops k = Some h" "map_find ops m k = None"
  shows "\<exists>p. room_at (table m) (unat h mod alloc m) p
    \<and> mp_map_lookup (Suc d) ops m k MP_MAP_LOOKUP_ADD_IF_NOT_FOUND = Some (Slot p, add_slot ops k p m)"
proof -
  note ok = map_okD [OF assms(2)]
  have ne: "table m \<noteq> []" "alloc m \<noteq> 0" using assms(3) ok(1) by auto
  have absent: "\<not> (\<exists>p<alloc m. r = Found_slot p \<and> equal_key ops k (table m ! p))" for r
    using assms(5) ok(1) unfolding map_find_def elems_find_None by auto
  show ?thesis
    using probe_outcome [OF assms(1,2) ne(1) assms(4) imp_refl] absent assms(3,4) ne(2) ok(4,5)
    by (auto simp: lookup_with_def Let_def ptrs_only_def)
qed

definition distinct_keys :: "'k obj_ops \<Rightarrow> ('k, 'v) mp_map_elem list \<Rightarrow> bool" where
  "distinct_keys ops es \<longleftrightarrow> sorted_wrt (\<lambda>e e'. \<forall>k. el_key e = Key k \<longrightarrow> \<not> equal_key ops k e') es"

lemma table_ok_distinct:
  assumes "obj_laws ops" "table_ok ops tbl"
  shows "distinct_keys ops tbl"
  using assms(2) obj_lawsD(2) [OF assms(1)]
  unfolding distinct_keys_def sorted_wrt_iff_nth_less table_ok_def equal_key_iff
  by (metis less_trans nat_neq_iff)

lemma reinsert_ok:
  fixes d :: nat
  assumes laws: "obj_laws ops"
  defines "add \<equiv> \<lambda>m k. mp_map_lookup (Suc d) ops m k MP_MAP_LOOKUP_ADD_IF_NOT_FOUND"
  shows "map_ok ops m \<Longrightarrow> used m + length (filter is_key es) \<le> alloc m \<Longrightarrow> distinct_keys ops es
    \<Longrightarrow> (\<And>e k. e \<in> set es \<Longrightarrow> el_key e = Key k \<Longrightarrow> hash_of ops k \<noteq> None \<and> map_find ops m k = None)
    \<Longrightarrow> \<exists>m'. reinsert add es m = Some (None, m') \<and> map_ok ops m' \<and> alloc m' = alloc m
         \<and> used m' = used m + length (filter is_key es)
         \<and> all_keys_are_qstrs m' = (all_keys_are_qstrs m \<and> (\<forall>e\<in>set es. \<forall>k. el_key e = Key k \<longrightarrow> is_qstr ops k))
         \<and> (\<forall>k. map_find ops m' k = (case elems_find ops es k of Some v \<Rightarrow> Some v | None \<Rightarrow> map_find ops m k))"
proof (induction es arbitrary: m)
  case Nil
  then show ?case by simp
next
  case (Cons e es)
  note ok = Cons.prems(1)
  show ?case
  proof (cases "el_key e")
    case (Key k)
    have key: "is_key e" by (simp add: is_key_iff Key)
    obtain h where h: "hash_of ops k = Some h" and none: "map_find ops m k = None"
      using Cons.prems(4) [of e k] Key by auto
    have room: "used m < alloc m" using Cons.prems(2) key by simp
    obtain p where p: "room_at (table m) (unat h mod alloc m) p" "add m k = Some (Slot p, add_slot ops k p m)"
      using lookup_add_room [OF laws ok room h none] unfolding add_def by blast
    define m1 where "m1 = add_slot ops k p m"
    have p': "p < alloc m" "\<not> is_key (table m ! p)"
      using room_less [OF p(1)] p(1) map_okD(1) [OF ok] by (auto simp: room_at_def)
    have m1: "map_ok ops m1" "alloc m1 = alloc m" "used m1 = used m + 1"
      unfolding m1_def using add_slot_ok [OF laws ok none h p(1)] by simp_all
    have at_p: "equal_key ops k (table m1 ! p)"
      using p'(1) map_okD(1) [OF ok] obj_lawsD(1) [OF laws] by (simp add: m1_def equal_key_def)
    define m2 where "m2 = set_value p (el_value e) m1"
    have m2: "map_ok ops m2" "alloc m2 = alloc m" "used m2 = used m + 1"
      "all_keys_are_qstrs m2 = (all_keys_are_qstrs m \<and> is_qstr ops k)"
      unfolding m2_def using set_value_ok [OF m1(1)] m1 by (simp_all add: m1_def)
    have find: "map_find ops m2 k' = (if equal_key ops k' e then Some (el_value e) else map_find ops m k')" for k'
      unfolding m2_def
      using set_value_find [OF laws m1(1) _ at_p, of "el_value e" k'] p'(1) m1(2)
        add_slot_find [OF laws ok none p'(1,2), of k'] Key
      by (simp add: m1_def equal_key_def)
    have "\<exists>m'. reinsert add es m2 = Some (None, m') \<and> map_ok ops m' \<and> alloc m' = alloc m2
        \<and> used m' = used m2 + length (filter is_key es)
        \<and> all_keys_are_qstrs m' = (all_keys_are_qstrs m2 \<and> (\<forall>e\<in>set es. \<forall>k. el_key e = Key k \<longrightarrow> is_qstr ops k))
        \<and> (\<forall>k. map_find ops m' k = (case elems_find ops es k of Some v \<Rightarrow> Some v | None \<Rightarrow> map_find ops m2 k))"
    proof (rule Cons.IH [OF m2(1)])
      show "used m2 + length (filter is_key es) \<le> alloc m2"
        using Cons.prems(2) m2 key by simp
      show "distinct_keys ops es" using Cons.prems(3) by (simp add: distinct_keys_def)
      fix e' k' assume e': "e' \<in> set es" "el_key e' = Key k'"
      have "\<not> equal_key ops k e'" using Cons.prems(3) e'(1) Key by (simp add: distinct_keys_def)
      then have "\<not> equal_key ops k' e"
        using Key e'(2) obj_lawsD(2) [OF laws] unfolding equal_key_iff by auto
      then show "hash_of ops k' \<noteq> None \<and> map_find ops m2 k' = None"
        using Cons.prems(4) [of e' k'] e' find by simp
    qed
    then obtain m' where m': "reinsert add es m2 = Some (None, m')" "map_ok ops m'" "alloc m' = alloc m2"
      "used m' = used m2 + length (filter is_key es)"
      "all_keys_are_qstrs m' = (all_keys_are_qstrs m2 \<and> (\<forall>e\<in>set es. \<forall>k. el_key e = Key k \<longrightarrow> is_qstr ops k))"
      "\<And>k. map_find ops m' k = (case elems_find ops es k of Some v \<Rightarrow> Some v | None \<Rightarrow> map_find ops m2 k)"
      by blast
    have "elems_find ops es k' = None" if "equal_key ops k' e" for k'
    proof -
      have "elems_find ops es k = None" using Cons.prems(3) Key by (simp add: distinct_keys_def elems_find_None)
      then show ?thesis using that Key elems_find_equal [OF laws, of k k' es] by (simp add: equal_key_def)
    qed
    then have "map_find ops m' k'
        = (case elems_find ops (e # es) k' of Some v \<Rightarrow> Some v | None \<Rightarrow> map_find ops m k')" for k'
      using m'(6) [of k'] find [of k'] by (auto split: option.split)
    then show ?thesis
      using m' m2 p(2) Key key by (simp add: m1_def m2_def)
  next
    case MP_OBJ_NULL
    then show ?thesis
      using Cons.IH [OF ok] Cons.prems by (auto simp: is_key_def equal_key_def distinct_keys_def)
  next
    case MP_OBJ_SENTINEL
    then show ?thesis
      using Cons.IH [OF ok] Cons.prems by (auto simp: is_key_def equal_key_def distinct_keys_def)
  qed
qed

text \<open>\<open>mp_map_rehash\<close> moves every entry to a larger table; without memory for it, nothing changes.\<close>

lemma mp_map_rehash_ok:
  assumes "obj_laws ops" "map_ok ops m" "mem_ok ops (get_hash_alloc_greater_or_equal_to (alloc m + 1))"
  shows "\<exists>m'. mp_map_rehash (Suc d) ops m = Some (None, m') \<and> map_ok ops m' \<and> alloc m < alloc m'
    \<and> used m' = used m \<and> map_find ops m' = map_find ops m \<and> (all_keys_are_qstrs m \<longrightarrow> all_keys_are_qstrs m')"
proof -
  let ?n = "get_hash_alloc_greater_or_equal_to (alloc m + 1)"
  define m0 where "m0 = m\<lparr>alloc := ?n, used := 0, all_keys_are_qstrs := True, table := replicate ?n empty_slot\<rparr>"
  note ok = map_okD [OF assms(2)]
  have n: "alloc m < ?n" using get_hash_alloc_ge [of "alloc m + 1"] by simp
  have m0: "map_ok ops m0" "\<And>k. map_find ops m0 k = None" "alloc m0 = ?n" "used m0 = 0" "all_keys_are_qstrs m0"
    using ok(4,5) by (auto simp: m0_def map_ok_def map_find_def replicate_no_key elems_find_replicate table_ok_def)
  have "length (filter is_key (table m)) \<le> alloc m" using ok(1) by simp
  moreover have "hash_of ops k \<noteq> None" if "e \<in> set (table m)" "el_key e = Key k" for e k
    using that table_okD [OF ok(3)] by (auto simp: in_set_conv_nth)
  ultimately obtain m' where
    "reinsert (\<lambda>m k. mp_map_lookup (Suc d) ops m k MP_MAP_LOOKUP_ADD_IF_NOT_FOUND) (table m) m0 = Some (None, m')"
    "map_ok ops m'" "alloc m' = ?n" "used m' = length (filter is_key (table m))"
    "all_keys_are_qstrs m' = (\<forall>e\<in>set (table m). \<forall>k. el_key e = Key k \<longrightarrow> is_qstr ops k)"
    and find: "\<forall>k. map_find ops m' k = (case elems_find ops (table m) k of Some v \<Rightarrow> Some v | None \<Rightarrow> map_find ops m0 k)"
    using reinsert_ok [OF assms(1) m0(1) _ table_ok_distinct [OF assms(1) ok(3)], of d] m0 n by auto
  moreover have "all_keys_are_qstrs m \<longrightarrow> (\<forall>e\<in>set (table m). \<forall>k. el_key e = Key k \<longrightarrow> is_qstr ops k)"
    using assms(2) by (simp add: map_ok_def)
  moreover have "map_find ops m' = map_find ops m"
    using find m0(2) by (simp add: map_find_def fun_eq_iff split: option.split)
  ultimately show ?thesis
    using assms(3) n ok(1,2) unfolding mp_map_rehash_def rehash_with_def
    by (auto simp: Let_def m0_def)
qed

lemma mp_map_rehash_no_memory:
  "\<not> mem_ok ops (get_hash_alloc_greater_or_equal_to (alloc m + 1)) \<Longrightarrow> mp_map_rehash d ops m = Some (Some Memory_error, m)"
  by (simp add: mp_map_rehash_def rehash_with_def)

section \<open>The three kinds of lookup\<close>

text \<open>
  The early return for a map that holds only interned strings is right: such a map holds no other
  object.
\<close>

lemma not_string_absent:
  assumes "obj_laws ops" "map_ok ops m" "all_keys_are_qstrs m" "\<not> is_qstr ops index" "\<not> is_str ops index"
  shows "map_find ops m index = None"
  using assms(2-5) obj_lawsD(6) [OF assms(1)]
  unfolding map_find_def elems_find_None equal_key_iff map_ok_def by blast

lemma empty_absent: "map_ok ops m \<Longrightarrow> alloc m = 0 \<Longrightarrow> map_find ops m index = None"
  by (simp add: map_ok_def map_find_def)

lemma found_value:
  assumes "obj_laws ops" "map_ok ops m" "p < alloc m" "equal_key ops index (table m ! p)"
  shows "map_find ops m index = Some (el_value (table m ! p))"
  using map_find_at [OF assms(1) map_okD(3) [OF assms(2)] _ assms(4)] assms(3) map_okD(1) [OF assms(2)]
  by (simp add: map_find_def)

lemma hash_none_absent:
  assumes "obj_laws ops" "map_ok ops m" "hash_of ops index = None"
  shows "map_find ops m index = None"
proof -
  have "\<not> equal_key ops index (table m ! i)" if i: "i < length (table m)" for i
    using table_okD [OF map_okD(3) [OF assms(2)] i] obj_lawsD(4) [OF assms(1)] assms(3)
    by (fastforce simp: equal_key_iff)
  then show ?thesis by (auto simp: map_find_def elems_find_None in_set_conv_nth)
qed

text \<open>Finding and removing never change the map but for the slot removed.\<close>

lemma mp_map_lookup_search:
  assumes laws: "obj_laws ops" and ok: "map_ok ops m" and kind: "kind \<noteq> MP_MAP_LOOKUP_ADD_IF_NOT_FOUND"
    and h: "hash_of ops index = Some h"
  shows "map_find ops m index = None \<and> mp_map_lookup (Suc d) ops m index kind = Some (Not_found, m)
    \<or> (\<exists>p<alloc m. equal_key ops index (table m ! p)
         \<and> mp_map_lookup (Suc d) ops m index kind
           = Some (Slot p, if kind = MP_MAP_LOOKUP_REMOVE_IF_FOUND then delete_slot p m else m))"
proof -
  note okD = map_okD [OF ok]
  consider "all_keys_are_qstrs m" "\<not> is_qstr ops index" "\<not> is_str ops index"
    | "alloc m = 0" | "alloc m \<noteq> 0" "\<not> (all_keys_are_qstrs m \<and> \<not> is_qstr ops index \<and> \<not> is_str ops index)"
    by blast
  then show ?thesis
  proof cases
    case 1
    then show ?thesis using not_string_absent [OF laws ok] okD(4) kind by (simp add: lookup_with_def)
  next
    case 2
    then show ?thesis using empty_absent [OF ok] okD(4,5) kind by (simp add: lookup_with_def Let_def)
  next
    case 3
    then have ne: "table m \<noteq> []" using okD(1) by auto
    show ?thesis
      using probe_outcome [OF laws ok ne h imp_refl] 3 okD(4,5) kind h
      by (auto simp: lookup_with_def Let_def ptrs_only_def)
  qed
qed

lemma mp_map_lookup_unhashable:
  assumes "obj_laws ops" "map_ok ops m" "kind \<noteq> MP_MAP_LOOKUP_ADD_IF_NOT_FOUND" "hash_of ops index = None"
  shows "\<exists>r. mp_map_lookup (Suc d) ops m index kind = Some (r, m) \<and> (r = Not_found \<or> r = Raised Type_error)"
  using assms map_okD(4,5) [OF assms(2)] by (auto simp: lookup_with_def Let_def)

text \<open>Adding: an entry that is there is returned; otherwise one is made, after a rehash if need be.\<close>

definition added :: "'k obj_ops \<Rightarrow> 'k \<Rightarrow> ('k, 'v) mp_map \<Rightarrow> nat \<Rightarrow> ('k, 'v) mp_map \<Rightarrow> bool" where
  "added ops index m p m' \<longleftrightarrow>
     map_ok ops m' \<and> p < alloc m' \<and> equal_key ops index (table m' ! p) \<and> el_value (table m' ! p) = None
     \<and> used m' = used m + 1
     \<and> (\<forall>k. map_find ops m' k = (if obj_equal ops index k then Some None else map_find ops m k))"

lemma add_slot_added:
  assumes "obj_laws ops" "map_ok ops m" "map_find ops m index = None" "hash_of ops index = Some h"
    "room_at (table m) (unat h mod alloc m) p"
  shows "added ops index m p (add_slot ops index p m)"
proof -
  have p: "p < alloc m" "\<not> is_key (table m ! p)"
    using room_less [OF assms(5)] assms(5) map_okD(1) [OF assms(2)] by (auto simp: room_at_def)
  show ?thesis
    unfolding added_def
    using add_slot_ok [OF assms] add_slot_find [OF assms(1-3) p] p(1) map_okD(1) [OF assms(2)]
      obj_lawsD(1) [OF assms(1)] by (simp add: equal_key_def)
qed

lemma room_used:
  assumes "map_ok ops m" "room_at (table m) s p"
  shows "used m < alloc m"
proof -
  have "p < length (table m)" "\<not> is_key (table m ! p)"
    using room_less [OF assms(2)] assms(2) by (auto simp: room_at_def)
  then have "length (filter is_key (table m)) < length (table m)" by (intro length_filter_less [of "table m ! p"]) simp_all
  then show ?thesis using map_okD [OF assms(1)] by simp
qed

lemma hash_search_add:
  assumes laws: "obj_laws ops" and ok: "map_ok ops m" and ne: "alloc m \<noteq> 0" and h: "hash_of ops index = Some h"
    and ptrs: "ptrs \<longrightarrow> ptrs_only ops m index" and none: "map_find ops m index = None"
  shows "used m < alloc m \<and> (\<exists>p. room_at (table m) (unat h mod alloc m) p \<and>
      (\<forall>turns. hash_search rehash (Suc turns) ops ptrs index h MP_MAP_LOOKUP_ADD_IF_NOT_FOUND m
        = Some (Slot p, add_slot ops index p m)))
    \<or> used m = alloc m \<and> (\<forall>turns. hash_search rehash (Suc turns) ops ptrs index h MP_MAP_LOOKUP_ADD_IF_NOT_FOUND m
        = (case rehash m of
             None \<Rightarrow> None
           | Some (Some e, m') \<Rightarrow> Some (Raised e, m')
           | Some (None, m') \<Rightarrow> hash_search rehash turns ops ptrs index h MP_MAP_LOOKUP_ADD_IF_NOT_FOUND m'))"
proof -
  have ne: "table m \<noteq> []" using ne map_okD(1) [OF ok] by auto
  have absent: "\<not> (\<exists>p<alloc m. r = Found_slot p \<and> equal_key ops index (table m ! p))" for r
    using none map_okD(1) [OF ok] unfolding map_find_def elems_find_None by auto
  show ?thesis
    using probe_outcome [OF laws ok ne h ptrs] absent room_used [OF ok] by auto
qed

lemma hash_search_present:
  assumes laws: "obj_laws ops" and ok: "map_ok ops m" and ne: "alloc m \<noteq> 0" and h: "hash_of ops index = Some h"
    and ptrs: "ptrs \<longrightarrow> ptrs_only ops m index" and some: "map_find ops m index \<noteq> None"
  shows "\<exists>p<alloc m. equal_key ops index (table m ! p) \<and>
      hash_search rehash (Suc turns) ops ptrs index h MP_MAP_LOOKUP_ADD_IF_NOT_FOUND m = Some (Slot p, m)"
proof -
  have ne: "table m \<noteq> []" using ne map_okD(1) [OF ok] by auto
  show ?thesis using probe_outcome [OF laws ok ne h ptrs] some by auto
qed

text \<open>The adding lookup as one call of the search: a map without a table is given one first.\<close>

lemma lookup_add_unfold:
  assumes ok: "map_ok ops m"
  shows "mp_map_lookup (Suc d) ops m index MP_MAP_LOOKUP_ADD_IF_NOT_FOUND =
    (case (if alloc m = 0 then mp_map_rehash d ops m else Some (None, m)) of
       None \<Rightarrow> None
     | Some (Some e, m') \<Rightarrow> Some (Raised e, m')
     | Some (None, m') \<Rightarrow>
         (case hash_of ops index of
            None \<Rightarrow> Some (Raised Type_error, m')
          | Some h \<Rightarrow> hash_search (mp_map_rehash d ops) (Suc d) ops (ptrs_only ops m index) index h
              MP_MAP_LOOKUP_ADD_IF_NOT_FOUND m'))"
  unfolding mp_map_rehash_def ptrs_only_def mp_map_lookup.simps lookup_with_def Let_def
  using map_okD(4,5) [OF ok] by simp

lemma ptrs_after:
  "(all_keys_are_qstrs m \<longrightarrow> all_keys_are_qstrs m') \<Longrightarrow> ptrs_only ops m index \<longrightarrow> ptrs_only ops m' index"
  by (auto simp: ptrs_only_def)

lemma added_find:
  assumes "added ops index m1 p m'" "used m1 = used m" "map_find ops m1 = map_find ops m"
  shows "added ops index m p m'"
  using assms by (simp add: added_def)

lemma mp_map_lookup_add:
  assumes laws: "obj_laws ops" and ok: "map_ok ops m" and h: "hash_of ops index = Some h"
    and none: "map_find ops m index = None"
    and mem: "used m < alloc m \<or> mem_ok ops (get_hash_alloc_greater_or_equal_to (alloc m + 1))"
  shows "\<exists>p m'. mp_map_lookup (Suc (Suc d)) ops m index MP_MAP_LOOKUP_ADD_IF_NOT_FOUND = Some (Slot p, m')
    \<and> added ops index m p m'"
proof -
  let ?search = "\<lambda>d. hash_search (mp_map_rehash (Suc d) ops) (Suc (Suc d)) ops (ptrs_only ops m index) index h
    MP_MAP_LOOKUP_ADD_IF_NOT_FOUND"
  have room: "\<exists>p. (\<forall>turns. hash_search (mp_map_rehash (Suc d) ops) (Suc turns) ops (ptrs_only ops m index) index h
      MP_MAP_LOOKUP_ADD_IF_NOT_FOUND m1 = Some (Slot p, add_slot ops index p m1))
      \<and> added ops index m p (add_slot ops index p m1)"
    if m1: "map_ok ops m1" "used m1 = used m" "map_find ops m1 = map_find ops m" "used m1 < alloc m1"
      "all_keys_are_qstrs m \<longrightarrow> all_keys_are_qstrs m1" for m1
  proof -
    have ne: "alloc m1 \<noteq> 0" and none1: "map_find ops m1 index = None" using m1(3,4) none by auto
    show ?thesis
      using hash_search_add [OF laws m1(1) ne h ptrs_after [OF m1(5)] none1, of "mp_map_rehash (Suc d) ops"]
        add_slot_added [OF laws m1(1) none1 h] m1(4) added_find [OF _ m1(2,3)] by auto
  qed
  show ?thesis
  proof (cases "used m < alloc m")
    case True
    then show ?thesis
      using room [OF ok refl refl] h unfolding lookup_add_unfold [OF ok] by auto
  next
    case False
    then obtain m1 where m1: "mp_map_rehash (Suc d) ops m = Some (None, m1)" "map_ok ops m1" "alloc m < alloc m1"
      "used m1 = used m" "map_find ops m1 = map_find ops m" "all_keys_are_qstrs m \<longrightarrow> all_keys_are_qstrs m1"
      using mem mp_map_rehash_ok [OF laws ok, of d] by auto
    have full: "used m = alloc m" using False used_le_alloc [OF ok] by simp
    obtain p where p: "\<And>turns. hash_search (mp_map_rehash (Suc d) ops) (Suc turns) ops (ptrs_only ops m index) index h
      MP_MAP_LOOKUP_ADD_IF_NOT_FOUND m1 = Some (Slot p, add_slot ops index p m1)"
      "added ops index m p (add_slot ops index p m1)"
      using room [OF m1(2,4,5) _ m1(6)] m1(3,4) full by auto
    show ?thesis
    proof (cases "alloc m = 0")
      case True
      then show ?thesis using m1(1) p h unfolding lookup_add_unfold [OF ok] by auto
    next
      case False
      then show ?thesis
        using hash_search_add [OF laws ok False h imp_refl none, of "mp_map_rehash (Suc d) ops"] full m1(1) p h
        unfolding lookup_add_unfold [OF ok] by auto
    qed
  qed
qed

lemma mp_map_lookup_add_present:
  assumes laws: "obj_laws ops" and ok: "map_ok ops m" and some: "map_find ops m index \<noteq> None"
  shows "\<exists>p<alloc m. equal_key ops index (table m ! p) \<and> map_find ops m index = Some (el_value (table m ! p))
    \<and> mp_map_lookup (Suc d) ops m index MP_MAP_LOOKUP_ADD_IF_NOT_FOUND = Some (Slot p, m)"
proof -
  obtain h where h: "hash_of ops index = Some h" using hash_none_absent [OF laws ok] some by fastforce
  have ne: "alloc m \<noteq> 0" using empty_absent [OF ok, of index] some by (intro notI) simp
  show ?thesis
    using hash_search_present [OF laws ok ne h imp_refl some, of "mp_map_rehash d ops" d]
      found_value [OF laws ok] ne h unfolding lookup_add_unfold [OF ok] by auto
qed

text \<open>Without memory for a larger table the map stays as it is.\<close>

lemma mp_map_lookup_add_no_memory:
  assumes laws: "obj_laws ops" and ok: "map_ok ops m" and h: "hash_of ops index = Some h"
    and none: "map_find ops m index = None" and full: "used m = alloc m"
    and mem: "\<not> mem_ok ops (get_hash_alloc_greater_or_equal_to (alloc m + 1))"
  shows "mp_map_lookup (Suc d) ops m index MP_MAP_LOOKUP_ADD_IF_NOT_FOUND = Some (Raised Memory_error, m)"
  using hash_search_add [OF laws ok _ h imp_refl none, of "mp_map_rehash d ops"] full h
    mp_map_rehash_no_memory [OF mem] unfolding lookup_add_unfold [OF ok] by (cases "alloc m = 0") auto

lemma mp_map_lookup_add_unhashable:
  assumes laws: "obj_laws ops" and ok: "map_ok ops m" and h: "hash_of ops index = None"
  shows "\<exists>e m'. mp_map_lookup (Suc (Suc d)) ops m index MP_MAP_LOOKUP_ADD_IF_NOT_FOUND = Some (Raised e, m')
    \<and> map_ok ops m' \<and> map_find ops m' = map_find ops m \<and> used m' = used m"
proof (cases "mem_ok ops (get_hash_alloc_greater_or_equal_to (alloc m + 1))")
  case True
  then show ?thesis
    using mp_map_rehash_ok [OF laws ok True, of d] ok h unfolding lookup_add_unfold [OF ok] by auto
next
  case False
  then show ?thesis
    using mp_map_rehash_no_memory [OF False] ok h unfolding lookup_add_unfold [OF ok] by auto
qed

end
