(* ===== verification/MpDict.thy ===== *)
theory MpDict
  imports MpMapOps
begin

text \<open>
  Dictionaries: \<open>python/py/objdict.c\<close> over the hash map.  A dictionary is its map; keys and values are
  objects of the same type.  The checks that \<open>self\<close> is a dictionary are typing here.  An operation
  returns what it returns or raises, beside the dictionary it leaves.
\<close>

datatype 'k dict_error = KeyError "'k option" | TypeError | ValueError | MapError map_error

section \<open>Iterating\<close>

text \<open>
  \<open>dict_iter_next\<close>: the next filled slot from the cursor on, which is then moved behind it; nothing at the
  end; and the assertion there.
\<close>

datatype iter_result = Next nat | Stop | Assertion_fails

definition dict_iter_next :: "('k, 'v) mp_map \<Rightarrow> nat \<Rightarrow> iter_result" where
  "dict_iter_next m cur =
     (case find (mp_map_slot_is_filled m) [cur..<alloc m] of
        Some i \<Rightarrow> Next i
      | None \<Rightarrow> if used m = 0 \<or> max cur (alloc m) = alloc m then Stop else Assertion_fails)"

definition slot_key :: "('k, 'v) mp_map \<Rightarrow> nat \<Rightarrow> 'k option" where
  "slot_key m i = (case el_key (table m ! i) of Key k \<Rightarrow> Some k | _ \<Rightarrow> None)"

definition slot_value :: "('k, 'v) mp_map \<Rightarrow> nat \<Rightarrow> 'v option" where
  "slot_value m i = el_value (table m ! i)"

section \<open>Looking up\<close>

text \<open>\<open>mp_map_lookup(\<dots>, MP_MAP_LOOKUP_ADD_IF_NOT_FOUND)->value = value\<close>.\<close>

definition map_store :: "'k obj_ops \<Rightarrow> ('k, 'v) mp_map \<Rightarrow> 'k \<Rightarrow> 'v option \<Rightarrow> map_error option \<times> ('k, 'v) mp_map" where
  "map_store ops m key v =
     (case map_lookup ops m key MP_MAP_LOOKUP_ADD_IF_NOT_FOUND of
        (Slot pos, m') \<Rightarrow> (None, set_value pos v m')
      | (Raised e, m') \<Rightarrow> (Some e, m')
      | (Not_found, m') \<Rightarrow> (Some Null_dereference, m'))"

definition mp_obj_dict_get :: "'k obj_ops \<Rightarrow> ('k, 'k) mp_map \<Rightarrow> 'k \<Rightarrow> ('k dict_error + 'k option) \<times> ('k, 'k) mp_map" where
  "mp_obj_dict_get ops self index =
     (case map_lookup ops self index MP_MAP_LOOKUP of
        (Slot elem, m) \<Rightarrow> (Inr (slot_value m elem), m)
      | (Not_found, m) \<Rightarrow> (Inl (KeyError (Some index)), m)
      | (Raised e, m) \<Rightarrow> (Inl (MapError e), m))"

definition mp_obj_dict_len :: "('k, 'k) mp_map \<Rightarrow> nat" where
  "mp_obj_dict_len self = used self"

definition dict_contains :: "'k obj_ops \<Rightarrow> ('k, 'k) mp_map \<Rightarrow> 'k \<Rightarrow> 'k dict_error + bool" where
  "dict_contains ops o1 index =
     (case fst (map_lookup ops o1 index MP_MAP_LOOKUP) of
        Slot _ \<Rightarrow> Inr True | Not_found \<Rightarrow> Inr False | Raised e \<Rightarrow> Inl (MapError e))"

section \<open>The methods\<close>

definition dict_clear :: "('k, 'k) mp_map \<Rightarrow> ('k dict_error + unit) \<times> ('k, 'k) mp_map" where
  "dict_clear self = (if is_fixed self then (Inl TypeError, self) else (Inr (), mp_map_clear self))"

definition mp_obj_new_dict :: "nat \<Rightarrow> ('k, 'k) mp_map" where
  "mp_obj_new_dict n_args = mp_map_init n_args"

definition mp_obj_dict_copy :: "('k, 'k) mp_map \<Rightarrow> ('k, 'k) mp_map" where
  "mp_obj_dict_copy self =
     (mp_obj_new_dict (alloc self))
       \<lparr>used := used self, all_keys_are_qstrs := all_keys_are_qstrs self, is_fixed := False,
        is_ordered := is_ordered self, table := take (alloc self) (table self)\<rparr>"

text \<open>
  \<open>dict_get_helper\<close>: \<open>deflt\<close> is the third argument, if there is one.  A NULL value counts as absent.
\<close>

definition dict_get_helper :: "'k obj_ops \<Rightarrow> 'k \<Rightarrow> ('k, 'k) mp_map \<Rightarrow> 'k \<Rightarrow> 'k option \<Rightarrow> mp_map_lookup_kind \<Rightarrow>
    ('k dict_error + 'k) \<times> ('k, 'k) mp_map" where
  "dict_get_helper ops none self index deflt lookup_kind =
     (if lookup_kind \<noteq> MP_MAP_LOOKUP \<and> is_fixed self then (Inl TypeError, self)
      else
        let (r, m) = map_lookup ops self index lookup_kind in
        case r of
          Raised e \<Rightarrow> (Inl (MapError e), m)
        | _ \<Rightarrow>
            let elem = (case r of Slot pos \<Rightarrow> Some pos | _ \<Rightarrow> None) in
            case Option.bind elem (slot_value m) of
              None \<Rightarrow>
                (case (case deflt of
                         None \<Rightarrow> if lookup_kind = MP_MAP_LOOKUP_REMOVE_IF_FOUND then None else Some none
                       | Some d \<Rightarrow> Some d) of
                   None \<Rightarrow> (Inl (KeyError (Some index)), m)
                 | Some v \<Rightarrow>
                     if lookup_kind = MP_MAP_LOOKUP_ADD_IF_NOT_FOUND then
                       (case elem of
                          Some pos \<Rightarrow> (Inr v, set_value pos (Some v) m)
                        | None \<Rightarrow> (Inl (MapError Null_dereference), m))
                     else (Inr v, m))
            | Some v \<Rightarrow>
                (Inr v, if lookup_kind = MP_MAP_LOOKUP_REMOVE_IF_FOUND then
                          (case elem of Some pos \<Rightarrow> set_value pos None m | None \<Rightarrow> m)
                        else m))"

definition dict_get :: "'k obj_ops \<Rightarrow> 'k \<Rightarrow> ('k, 'k) mp_map \<Rightarrow> 'k \<Rightarrow> 'k option \<Rightarrow> ('k dict_error + 'k) \<times> ('k, 'k) mp_map" where
  "dict_get ops none self index deflt = dict_get_helper ops none self index deflt MP_MAP_LOOKUP"

definition dict_pop :: "'k obj_ops \<Rightarrow> 'k \<Rightarrow> ('k, 'k) mp_map \<Rightarrow> 'k \<Rightarrow> 'k option \<Rightarrow> ('k dict_error + 'k) \<times> ('k, 'k) mp_map" where
  "dict_pop ops none self index deflt = dict_get_helper ops none self index deflt MP_MAP_LOOKUP_REMOVE_IF_FOUND"

definition dict_setdefault :: "'k obj_ops \<Rightarrow> 'k \<Rightarrow> ('k, 'k) mp_map \<Rightarrow> 'k \<Rightarrow> 'k option \<Rightarrow> ('k dict_error + 'k) \<times> ('k, 'k) mp_map" where
  "dict_setdefault ops none self index deflt = dict_get_helper ops none self index deflt MP_MAP_LOOKUP_ADD_IF_NOT_FOUND"

definition mp_obj_dict_store :: "'k obj_ops \<Rightarrow> ('k, 'k) mp_map \<Rightarrow> 'k \<Rightarrow> 'k \<Rightarrow> ('k dict_error + unit) \<times> ('k, 'k) mp_map" where
  "mp_obj_dict_store ops self key v =
     (if is_fixed self then (Inl TypeError, self)
      else case map_store ops self key (Some v) of
        (None, m) \<Rightarrow> (Inr (), m)
      | (Some e, m) \<Rightarrow> (Inl (MapError e), m))"

definition mp_obj_dict_delete :: "'k obj_ops \<Rightarrow> 'k \<Rightarrow> ('k, 'k) mp_map \<Rightarrow> 'k \<Rightarrow> ('k dict_error + unit) \<times> ('k, 'k) mp_map" where
  "mp_obj_dict_delete ops none self key =
     (case dict_get_helper ops none self key None MP_MAP_LOOKUP_REMOVE_IF_FOUND of
        (Inl e, m) \<Rightarrow> (Inl e, m)
      | (Inr _, m) \<Rightarrow> (Inr (), m))"

text \<open>\<open>dict_subscr\<close>: the third argument is NULL to delete, SENTINEL to load, or the object to store.\<close>

datatype 'k subscr = Delete | Load | Store 'k

definition dict_subscr :: "'k obj_ops \<Rightarrow> 'k \<Rightarrow> ('k, 'k) mp_map \<Rightarrow> 'k \<Rightarrow> 'k subscr \<Rightarrow>
    ('k dict_error + 'k option) \<times> ('k, 'k) mp_map" where
  "dict_subscr ops none self index v =
     (case v of
        Delete \<Rightarrow>
          (case mp_obj_dict_delete ops none self index of (Inl e, m) \<Rightarrow> (Inl e, m) | (Inr _, m) \<Rightarrow> (Inr (Some none), m))
      | Load \<Rightarrow>
          (case map_lookup ops self index MP_MAP_LOOKUP of
             (Slot elem, m) \<Rightarrow> (Inr (slot_value m elem), m)
           | (Not_found, m) \<Rightarrow> (Inl (KeyError (Some index)), m)
           | (Raised e, m) \<Rightarrow> (Inl (MapError e), m))
      | Store x \<Rightarrow>
          (case mp_obj_dict_store ops self index x of (Inl e, m) \<Rightarrow> (Inl e, m) | (Inr _, m) \<Rightarrow> (Inr (Some none), m)))"

definition dict_popitem :: "('k, 'k) mp_map \<Rightarrow> ('k dict_error + ('k option \<times> 'k option)) \<times> ('k, 'k) mp_map" where
  "dict_popitem self =
     (if is_fixed self then (Inl TypeError, self)
      else if used self = 0 then (Inl (KeyError None), self)
      else case dict_iter_next self 0 of
        Next i \<Rightarrow>
          (Inr (slot_key self i, slot_value self i),
           self\<lparr>used := used self - 1,
                table := (table self)[i := \<lparr>el_key = MP_OBJ_SENTINEL, el_value = None\<rparr>]\<rparr>)
      | _ \<Rightarrow> (Inl (MapError Assertion_failed), self))"

section \<open>Updating\<close>

text \<open>The loop over the entries of a dictionary or of a table of keyword arguments, and the one over pairs.\<close>

fun store_elems :: "'k obj_ops \<Rightarrow> ('k \<times> 'v option) list \<Rightarrow> ('k, 'v) mp_map \<Rightarrow> map_error option \<times> ('k, 'v) mp_map" where
  "store_elems ops [] m = (None, m)"
| "store_elems ops ((key, v) # es) m =
     (case map_store ops m key v of
        (Some e, m') \<Rightarrow> (Some e, m')
      | (None, m') \<Rightarrow> store_elems ops es m')"

lemma dict_iter_next_less: "dict_iter_next m cur = Next i \<Longrightarrow> cur \<le> i \<and> i < alloc m"
  by (auto simp: dict_iter_next_def find_Some_iff split: option.splits if_splits)

function dict_entries_from :: "('k, 'v) mp_map \<Rightarrow> nat \<Rightarrow> map_error option \<times> ('k \<times> 'v option) list" where
  "dict_entries_from m cur =
     (case dict_iter_next m cur of
        Stop \<Rightarrow> (None, [])
      | Assertion_fails \<Rightarrow> (Some Assertion_failed, [])
      | Next i \<Rightarrow>
          (case slot_key m i of
             None \<Rightarrow> (None, [])
           | Some k \<Rightarrow> let (e, es) = dict_entries_from m (i + 1) in (e, (k, slot_value m i) # es)))"
  by auto

termination
  by (relation "measure (\<lambda>(m, cur). alloc m - cur)") (auto dest!: dict_iter_next_less)

declare dict_entries_from.simps [simp del]

text \<open>
  \<open>dict_update\<close>.  The positional argument is this dictionary itself, another one, or an iterable of
  iterables, given as the lists of what they yield; \<open>kwargs\<close> are the keyword arguments, whose entries are
  stored last.
\<close>

datatype 'k update_arg = Same_dict | Other_dict "('k, 'k) mp_map" | Iterable "'k list list"

fun store_pairs :: "'k obj_ops \<Rightarrow> 'k list list \<Rightarrow> ('k, 'k) mp_map \<Rightarrow> 'k dict_error option \<times> ('k, 'k) mp_map" where
  "store_pairs ops [] m = (None, m)"
| "store_pairs ops (inner # its) m =
     (case inner of
        [key, v] \<Rightarrow>
          (case map_store ops m key (Some v) of
             (Some e, m') \<Rightarrow> (Some (MapError e), m')
           | (None, m') \<Rightarrow> store_pairs ops its m')
      | _ \<Rightarrow> (Some ValueError, m))"

definition update_positional :: "'k obj_ops \<Rightarrow> ('k, 'k) mp_map \<Rightarrow> 'k update_arg \<Rightarrow> 'k dict_error option \<times> ('k, 'k) mp_map"
where
  "update_positional ops self arg =
     (case arg of
        Same_dict \<Rightarrow> (None, self)
      | Other_dict other \<Rightarrow>
          (case dict_entries_from other 0 of
             (e, es) \<Rightarrow>
               (case store_elems ops es self of
                  (Some e', m) \<Rightarrow> (Some (MapError e'), m)
                | (None, m) \<Rightarrow> (map_option MapError e, m)))
      | Iterable its \<Rightarrow> store_pairs ops its self)"

definition keyword_entries :: "('k, 'v) mp_map \<Rightarrow> ('k \<times> 'v option) list" where
  "keyword_entries kwargs =
     [(k, slot_value kwargs i). i \<leftarrow> [0..<alloc kwargs], mp_map_slot_is_filled kwargs i,
        k \<leftarrow> (case slot_key kwargs i of Some k \<Rightarrow> [k] | None \<Rightarrow> [])]"

text \<open>\<open>mp_arg_check_num\<close> allows one or two positional arguments, the dictionary counted, and keywords.\<close>

definition dict_update :: "'k obj_ops \<Rightarrow> ('k, 'k) mp_map \<Rightarrow> 'k update_arg list \<Rightarrow> ('k, 'k) mp_map \<Rightarrow>
    'k dict_error option \<times> ('k, 'k) mp_map" where
  "dict_update ops self args kwargs =
     (if is_fixed self then (Some TypeError, self)
      else if length args > 1 then (Some TypeError, self)
      else
        case (case args of [] \<Rightarrow> (None, self) | arg # _ \<Rightarrow> update_positional ops self arg) of
          (Some e, m) \<Rightarrow> (Some e, m)
        | (None, m) \<Rightarrow>
            (case store_elems ops (keyword_entries kwargs) m of
               (Some e, m') \<Rightarrow> (Some (MapError e), m')
             | (None, m') \<Rightarrow> (None, m')))"

text \<open>\<open>dict(\<dots>)\<close>: \<open>kw\<close> is the table of keyword arguments that follows the positional ones.\<close>

definition mp_obj_dict_make_new :: "'k obj_ops \<Rightarrow> 'k update_arg list \<Rightarrow> ('k, 'k) mp_map_elem list \<Rightarrow>
    'k dict_error option \<times> ('k, 'k) mp_map" where
  "mp_obj_dict_make_new ops args kw =
     (let dict_out = mp_obj_new_dict 0 in
      if args \<noteq> [] \<or> kw \<noteq> [] then dict_update ops dict_out args (mp_map_init_fixed_table kw (mp_map_init 0))
      else (None, dict_out))"

section \<open>Comparing and printing\<close>

function dict_equal_from :: "'k obj_ops \<Rightarrow> ('k, 'k) mp_map \<Rightarrow> ('k, 'k) mp_map \<Rightarrow> nat \<Rightarrow> 'k dict_error + bool" where
  "dict_equal_from ops o1 rhs cur =
     (case dict_iter_next o1 cur of
        Stop \<Rightarrow> Inr True
      | Assertion_fails \<Rightarrow> Inl (MapError Assertion_failed)
      | Next i \<Rightarrow>
          (case slot_key o1 i of
             None \<Rightarrow> Inr True
           | Some k \<Rightarrow>
               (case fst (map_lookup ops rhs k MP_MAP_LOOKUP) of
                  Raised e \<Rightarrow> Inl (MapError e)
                | Not_found \<Rightarrow> Inr False
                | Slot j \<Rightarrow>
                    (case (slot_value o1 i, slot_value rhs j) of
                       (Some v, Some w) \<Rightarrow>
                         if obj_equal ops v w then dict_equal_from ops o1 rhs (i + 1) else Inr False
                     | _ \<Rightarrow> Inl (MapError Null_dereference)))))"
  by auto

termination
  by (relation "measure (\<lambda>(ops, o1, rhs, cur). alloc o1 - cur)") (auto dest!: dict_iter_next_less)

declare dict_equal_from.simps [simp del]

text \<open>\<open>==\<close> on dictionaries; \<open>None\<close> stands for an object of another type.\<close>

definition dict_binary_equal :: "'k obj_ops \<Rightarrow> ('k, 'k) mp_map \<Rightarrow> ('k, 'k) mp_map option \<Rightarrow> 'k dict_error + bool" where
  "dict_binary_equal ops o1 rhs =
     (case rhs of
        None \<Rightarrow> Inr False
      | Some rhs \<Rightarrow> if used o1 \<noteq> used rhs then Inr False else dict_equal_from ops o1 rhs 0)"

definition dict_unary_bool :: "('k, 'k) mp_map \<Rightarrow> bool" where
  "dict_unary_bool self = (used self \<noteq> 0)"

text \<open>
  \<open>repr k\<close> is what \<open>mp_obj_print_helper\<close> prints for the object \<open>k\<close>; for NULL it prints \<open>(nil)\<close>.
\<close>

definition print_value :: "('k \<Rightarrow> u8 list) \<Rightarrow> 'k option \<Rightarrow> u8 list" where
  "print_value repr v = (case v of Some x \<Rightarrow> repr x | None \<Rightarrow> [0x28, 0x6E, 0x69, 0x6C, 0x29])"

function dict_print_from :: "('k \<Rightarrow> u8 list) \<Rightarrow> ('k, 'k) mp_map \<Rightarrow> bool \<Rightarrow> nat \<Rightarrow> map_error + u8 list" where
  "dict_print_from repr self first cur =
     (case dict_iter_next self cur of
        Stop \<Rightarrow> Inr []
      | Assertion_fails \<Rightarrow> Inl Assertion_failed
      | Next i \<Rightarrow>
          (case (slot_key self i, slot_value self i) of
             (None, _) \<Rightarrow> Inr []
           | (Some k, v) \<Rightarrow>
               (case dict_print_from repr self False (i + 1) of
                  Inl e \<Rightarrow> Inl e
                | Inr out \<Rightarrow> Inr ((if first then [] else [0x2C, 0x20]) @ repr k @ [0x3A, 0x20] @ print_value repr v @ out))))"
  by auto

termination
  by (relation "measure (\<lambda>(repr, self, first, cur). alloc self - cur)") (auto dest!: dict_iter_next_less)

declare dict_print_from.simps [simp del]

definition dict_print :: "('k \<Rightarrow> u8 list) \<Rightarrow> ('k, 'k) mp_map \<Rightarrow> map_error + u8 list" where
  "dict_print repr self =
     (case dict_print_from repr self True 0 of Inl e \<Rightarrow> Inl e | Inr out \<Rightarrow> Inr ([0x7B] @ out @ [0x7D]))"

section \<open>Views\<close>

datatype mp_dict_view_kind = MP_DICT_VIEW_ITEMS | MP_DICT_VIEW_KEYS | MP_DICT_VIEW_VALUES

text \<open>A view iterator keeps its dictionary by reference: the dictionary is read when the iterator is advanced.\<close>

record dict_view_it =
  view_kind :: mp_dict_view_kind
  view_cur :: nat

datatype 'k view_item = Item "'k option" "'k option" | Single "'k option" | Stop_iteration

definition dict_view_getiter :: "mp_dict_view_kind \<Rightarrow> dict_view_it" where
  "dict_view_getiter kind = \<lparr>view_kind = kind, view_cur = 0\<rparr>"

definition dict_getiter :: dict_view_it where
  "dict_getiter = \<lparr>view_kind = MP_DICT_VIEW_KEYS, view_cur = 0\<rparr>"

definition dict_view_it_iternext :: "('k, 'k) mp_map \<Rightarrow> dict_view_it \<Rightarrow> (map_error + 'k view_item) \<times> dict_view_it" where
  "dict_view_it_iternext dict self =
     (case dict_iter_next dict (view_cur self) of
        Stop \<Rightarrow> (Inr Stop_iteration, self)
      | Assertion_fails \<Rightarrow> (Inl Assertion_failed, self)
      | Next i \<Rightarrow>
          (Inr (case view_kind self of
                  MP_DICT_VIEW_ITEMS \<Rightarrow> Item (slot_key dict i) (slot_value dict i)
                | MP_DICT_VIEW_KEYS \<Rightarrow> Single (slot_key dict i)
                | MP_DICT_VIEW_VALUES \<Rightarrow> Single (slot_value dict i)),
           self\<lparr>view_cur := i + 1\<rparr>))"

end
