(* ===== verification/KeyMap.thy ===== *)
theory KeyMap
  imports Prelude
begin

text \<open>
  The interface of a table with keys: storing a value under a key, up to an equality of keys, where a
  store may fail and then changes nothing that can be looked up.  What many stores in a row do follows
  once for every provider.
\<close>

fun store_all :: "('m \<Rightarrow> 'k \<Rightarrow> 'v \<Rightarrow> 'e option \<times> 'm) \<Rightarrow> ('k \<times> 'v) list \<Rightarrow> 'm \<Rightarrow> 'e option \<times> 'm" where
  "store_all store [] m = (None, m)"
| "store_all store ((k, v) # es) m =
     (case store m k v of
        (Some e, m') \<Rightarrow> (Some e, m')
      | (None, m') \<Rightarrow> store_all store es m')"

text \<open>Looking a key up in a list where later entries win.\<close>

fun last_entry :: "('k \<Rightarrow> 'k \<Rightarrow> bool) \<Rightarrow> ('k \<times> 'v) list \<Rightarrow> 'k \<Rightarrow> 'v option" where
  "last_entry eq [] k = None"
| "last_entry eq ((k', v) # es) k =
     (case last_entry eq es k of Some w \<Rightarrow> Some w | None \<Rightarrow> if eq k' k then Some v else None)"

locale key_map =
  fixes ok :: "'m \<Rightarrow> bool"
    and val :: "'m \<Rightarrow> 'k \<Rightarrow> 'v option"
    and eq :: "'k \<Rightarrow> 'k \<Rightarrow> bool"
    and store :: "'m \<Rightarrow> 'k \<Rightarrow> 'v \<Rightarrow> 'e option \<times> 'm"
  assumes store_ok: "ok m \<Longrightarrow> store m k v = (r, m') \<Longrightarrow> ok m'"
    and store_val: "ok m \<Longrightarrow> store m k v = (None, m') \<Longrightarrow> val m' k' = (if eq k k' then Some v else val m k')"
    and store_fail: "ok m \<Longrightarrow> store m k v = (Some e, m') \<Longrightarrow> val m' = val m"
begin

lemma store_all_ok: "ok m \<Longrightarrow> store_all store es m = (r, m') \<Longrightarrow> ok m'"
proof (induction es arbitrary: m)
  case (Cons kv es)
  obtain k v r1 m1 where kv: "kv = (k, v)" "store m k v = (r1, m1)" by (metis surj_pair)
  show ?case
    using Cons.IH [OF store_ok [OF Cons.prems(1) kv(2)]] store_ok [OF Cons.prems(1) kv(2)] Cons.prems(2) kv
    by (cases r1) auto
qed simp

lemma store_all_val:
  "ok m \<Longrightarrow> store_all store es m = (None, m') \<Longrightarrow>
     val m' k = (case last_entry eq es k of Some v \<Rightarrow> Some v | None \<Rightarrow> val m k)"
proof (induction es arbitrary: m)
  case (Cons kv es)
  obtain k' v r1 m1 where kv: "kv = (k', v)" "store m k' v = (r1, m1)" by (metis surj_pair)
  then have "r1 = None" using Cons.prems(2) by (cases r1) auto
  then show ?case
    using Cons.IH [OF store_ok [OF Cons.prems(1) kv(2)]] store_val [OF Cons.prems(1), of k' v m1 k]
      Cons.prems(2) kv by (auto split: option.split)
qed simp

text \<open>A failure leaves the entries stored before it.\<close>

lemma store_all_fail:
  "ok m \<Longrightarrow> store_all store es m = (Some e, m') \<Longrightarrow>
     \<exists>es1 es2. es = es1 @ es2 \<and> es2 \<noteq> []
       \<and> (\<forall>k. val m' k = (case last_entry eq es1 k of Some v \<Rightarrow> Some v | None \<Rightarrow> val m k))"
proof (induction es arbitrary: m)
  case (Cons kv es)
  obtain k v r m1 where kv: "kv = (k, v)" "store m k v = (r, m1)" by (metis surj_pair)
  show ?case
  proof (cases r)
    case None
    then obtain es1 es2 where "es = es1 @ es2" "es2 \<noteq> []"
      "\<And>k'. val m' k' = (case last_entry eq es1 k' of Some v \<Rightarrow> Some v | None \<Rightarrow> val m1 k')"
      using Cons.IH [OF store_ok [OF Cons.prems(1) kv(2)]] Cons.prems(2) kv by auto
    then show ?thesis
      using kv None store_val [OF Cons.prems(1)]
      by (intro exI [of _ "kv # es1"] exI [of _ es2]) (auto split: option.split)
  next
    case (Some e')
    then show ?thesis
      using Cons.prems kv store_fail [OF Cons.prems(1)] by (intro exI [of _ "[]"] exI [of _ "kv # es"]) auto
  qed
qed simp

end

end
