(* ===== verification/MpDictOk.thy ===== *)
theory MpDictOk
  imports MpDict KeyMap
begin

text \<open>
  Dictionaries as finite maps: every method, update, equality, iteration.
\<close>

section \<open>The lookups of the map, at the depth used\<close>

definition can_store :: "'k obj_ops \<Rightarrow> ('k, 'v) mp_map \<Rightarrow> 'k \<Rightarrow> bool" where
  "can_store ops m k \<longleftrightarrow>
     map_find ops m k \<noteq> None
     \<or> hash_of ops k \<noteq> None \<and> (used m < alloc m \<or> mem_ok ops (get_hash_alloc_greater_or_equal_to (alloc m + 1)))"

lemma depth_2: "(2::nat) = Suc (Suc 0)"
  by simp

lemma map_lookup_find:
  assumes "obj_laws ops" "map_ok ops m" "hash_of ops k \<noteq> None"
  shows "map_find ops m k = None \<and> map_lookup ops m k MP_MAP_LOOKUP = (Not_found, m)
    \<or> (\<exists>p<alloc m. equal_key ops k (table m ! p) \<and> map_find ops m k = Some (el_value (table m ! p))
         \<and> map_lookup ops m k MP_MAP_LOOKUP = (Slot p, m))"
proof -
  obtain h where "hash_of ops k = Some h" using assms(3) by auto
  from mp_map_lookup_search [OF assms(1,2) _ this, of MP_MAP_LOOKUP "Suc 0"] show ?thesis
    using found_value [OF assms(1,2)] by (auto simp: map_lookup_def depth_2)
qed

lemma map_lookup_remove:
  assumes "obj_laws ops" "map_ok ops m" "hash_of ops k \<noteq> None"
  shows "map_find ops m k = None \<and> map_lookup ops m k MP_MAP_LOOKUP_REMOVE_IF_FOUND = (Not_found, m)
    \<or> (\<exists>p<alloc m. equal_key ops k (table m ! p) \<and> map_find ops m k = Some (el_value (table m ! p))
         \<and> map_lookup ops m k MP_MAP_LOOKUP_REMOVE_IF_FOUND = (Slot p, delete_slot p m))"
proof -
  obtain h where "hash_of ops k = Some h" using assms(3) by auto
  from mp_map_lookup_search [OF assms(1,2) _ this, of MP_MAP_LOOKUP_REMOVE_IF_FOUND "Suc 0"] show ?thesis
    using found_value [OF assms(1,2)] by (auto simp: map_lookup_def depth_2)
qed

lemma map_lookup_unhashable:
  assumes "obj_laws ops" "map_ok ops m" "hash_of ops k = None" "kind \<noteq> MP_MAP_LOOKUP_ADD_IF_NOT_FOUND"
  shows "map_lookup ops m k kind = (Not_found, m) \<or> map_lookup ops m k kind = (Raised Type_error, m)"
  using mp_map_lookup_unhashable [OF assms(1,2,4,3), of "Suc 0"] by (auto simp: map_lookup_def depth_2)

lemma map_lookup_add:
  assumes "obj_laws ops" "map_ok ops m" "can_store ops m k"
  shows "map_find ops m k \<noteq> None \<and> (\<exists>p<alloc m. equal_key ops k (table m ! p)
           \<and> map_find ops m k = Some (el_value (table m ! p))
           \<and> map_lookup ops m k MP_MAP_LOOKUP_ADD_IF_NOT_FOUND = (Slot p, m))
    \<or> map_find ops m k = None \<and> (\<exists>p m'. added ops k m p m'
           \<and> map_lookup ops m k MP_MAP_LOOKUP_ADD_IF_NOT_FOUND = (Slot p, m'))"
proof (cases "map_find ops m k")
  case None
  then obtain h where h: "hash_of ops k = Some h" using assms(3) by (auto simp: can_store_def)
  from mp_map_lookup_add [OF assms(1,2) h None, of 0] show ?thesis
    using None assms(3) by (auto simp: map_lookup_def depth_2 can_store_def)
next
  case (Some v)
  then show ?thesis
    using mp_map_lookup_add_present [OF assms(1,2), of k "Suc 0"] by (auto simp: map_lookup_def depth_2)
qed

lemma map_lookup_add_fails:
  assumes "obj_laws ops" "map_ok ops m" "\<not> can_store ops m k"
  shows "\<exists>e m'. map_lookup ops m k MP_MAP_LOOKUP_ADD_IF_NOT_FOUND = (Raised e, m')
    \<and> map_ok ops m' \<and> map_find ops m' = map_find ops m \<and> used m' = used m
    \<and> (hash_of ops k \<noteq> None \<longrightarrow> e = Memory_error \<and> m' = m)"
proof (cases "hash_of ops k")
  case None
  then show ?thesis
    using mp_map_lookup_add_unhashable [OF assms(1,2) None, of 0] by (auto simp: map_lookup_def depth_2)
next
  case (Some h)
  then show ?thesis
    using mp_map_lookup_add_no_memory [OF assms(1,2) Some, of "Suc 0"] assms used_le_alloc [OF assms(2)]
    by (auto simp: map_lookup_def depth_2 can_store_def)
qed

section \<open>Storing\<close>

lemma map_store_ok:
  assumes "obj_laws ops" "map_ok ops m"
  shows "if can_store ops m k
    then \<exists>m'. map_store ops m k v = (None, m') \<and> map_ok ops m'
      \<and> (\<forall>k'. map_find ops m' k' = (if obj_equal ops k k' then Some v else map_find ops m k'))
      \<and> used m' = used m + (if map_find ops m k = None then 1 else 0)
    else \<exists>e m'. map_store ops m k v = (Some e, m') \<and> map_ok ops m' \<and> map_find ops m' = map_find ops m
      \<and> used m' = used m \<and> (hash_of ops k \<noteq> None \<longrightarrow> e = Memory_error \<and> m' = m)"
proof (cases "can_store ops m k")
  case False
  then show ?thesis using map_lookup_add_fails [OF assms False] by (auto simp: map_store_def)
next
  case True
  from map_lookup_add [OF assms this] show ?thesis
  proof (elim disjE conjE exE)
    fix p assume p: "map_find ops m k \<noteq> None" "p < alloc m" "equal_key ops k (table m ! p)"
      "map_lookup ops m k MP_MAP_LOOKUP_ADD_IF_NOT_FOUND = (Slot p, m)"
    then show ?thesis
      using True set_value_ok [OF assms(2), of p v] set_value_find [OF assms p(2,3), of v] by (simp add: map_store_def)
  next
    fix p m' assume p: "map_find ops m k = None" "added ops k m p m'"
      "map_lookup ops m k MP_MAP_LOOKUP_ADD_IF_NOT_FOUND = (Slot p, m')"
    have m': "map_ok ops m'" "p < alloc m'" "equal_key ops k (table m' ! p)" using p(2) by (simp_all add: added_def)
    show ?thesis
      using True p set_value_ok [OF m'(1), of p v] set_value_find [OF assms(1) m', of v]
      by (simp add: map_store_def added_def)
  qed
qed

text \<open>The map provides the interface.\<close>

interpretation mm: key_map "\<lambda>m. obj_laws ops \<and> map_ok ops m" "map_find ops" "obj_equal ops" "map_store ops"
  for ops :: "'k obj_ops"
proof
  fix m k v r m' assume ok: "obj_laws ops \<and> map_ok ops m" and st: "map_store ops m k v = (r, m')"
  show "obj_laws ops \<and> map_ok ops m'"
    using map_store_ok [of ops m k v] ok st by (auto split: if_splits)
next
  fix m k v m' k' assume ok: "obj_laws ops \<and> map_ok ops m" and st: "map_store ops m k v = (None, m')"
  show "map_find ops m' k' = (if obj_equal ops k k' then Some v else map_find ops m k')"
    using map_store_ok [of ops m k v] ok st by (auto split: if_splits)
next
  fix m k v e m' assume ok: "obj_laws ops \<and> map_ok ops m" and st: "map_store ops m k v = (Some e, m')"
  show "map_find ops m' = map_find ops m"
    using map_store_ok [of ops m k v] ok st by (auto split: if_splits)
qed

lemma store_elems_all: "store_elems ops es m = store_all (map_store ops) es m"
  by (induction es arbitrary: m) (auto split: prod.split option.split)

section \<open>Dictionaries as maps\<close>

text \<open>No entry of a dictionary has the value NULL.\<close>

definition dict_ok :: "'k obj_ops \<Rightarrow> ('k, 'k) mp_map \<Rightarrow> bool" where
  "dict_ok ops m \<longleftrightarrow> map_ok ops m \<and> (\<forall>e\<in>set (table m). is_key e \<longrightarrow> el_value e \<noteq> None)"

definition entry :: "'k obj_ops \<Rightarrow> ('k, 'k) mp_map \<Rightarrow> 'k \<Rightarrow> 'k option" where
  "entry ops m k = Option.bind (map_find ops m k) id"

lemma dict_ok_iff:
  assumes "obj_laws ops"
  shows "dict_ok ops m \<longleftrightarrow> map_ok ops m \<and> (\<forall>k. map_find ops m k \<noteq> Some None)"
proof
  assume d: "dict_ok ops m"
  have "map_find ops m k \<noteq> Some None" for k
  proof
    assume "map_find ops m k = Some None"
    then obtain e where "find (equal_key ops k) (table m) = Some e" "el_value e = None"
      by (auto simp: map_find_def elems_find_def)
    then have "e \<in> set (table m)" "equal_key ops k e" by (auto simp: find_Some_iff)
    then show False using d \<open>el_value e = None\<close> by (auto simp: dict_ok_def equal_key_iff is_key_iff)
  qed
  then show "map_ok ops m \<and> (\<forall>k. map_find ops m k \<noteq> Some None)" using d by (simp add: dict_ok_def)
next
  assume "map_ok ops m \<and> (\<forall>k. map_find ops m k \<noteq> Some None)"
  then have ok: "map_ok ops m" and v: "\<forall>k. map_find ops m k \<noteq> Some None" by simp_all
  have "el_value (table m ! i) \<noteq> None" if i: "i < length (table m)" "is_key (table m ! i)" for i
  proof -
    obtain k where "el_key (table m ! i) = Key k" using i(2) by (auto simp: is_key_iff)
    then have "equal_key ops k (table m ! i)" using obj_lawsD(1) [OF assms] by (simp add: equal_key_def)
    then show ?thesis
      using map_find_at [OF assms map_okD(3) [OF ok] i(1)] v unfolding map_find_def by metis
  qed
  then show "dict_ok ops m" using ok by (auto simp: dict_ok_def in_set_conv_nth)
qed

lemma entry_find:
  assumes "obj_laws ops" "dict_ok ops m"
  shows "map_find ops m k = map_option Some (entry ops m k)"
proof (cases "map_find ops m k")
  case (Some v)
  then have "v \<noteq> None" using assms(2) Some unfolding dict_ok_iff [OF assms(1)] by metis
  then show ?thesis using Some by (auto simp: entry_def)
qed (simp add: entry_def)

lemma dict_okD: "dict_ok ops m \<Longrightarrow> map_ok ops m"
  by (simp add: dict_ok_def)

section \<open>The methods\<close>

lemma dict_lookup_find:
  assumes "obj_laws ops" "dict_ok ops m" "hash_of ops k \<noteq> None"
  shows "entry ops m k = None \<and> map_lookup ops m k MP_MAP_LOOKUP = (Not_found, m)
    \<or> (\<exists>p v. p < alloc m \<and> equal_key ops k (table m ! p) \<and> el_value (table m ! p) = Some v
         \<and> entry ops m k = Some v \<and> map_lookup ops m k MP_MAP_LOOKUP = (Slot p, m))"
  using map_lookup_find [OF assms(1) dict_okD [OF assms(2)] assms(3)] entry_find [OF assms(1,2), of k]
  by (cases "entry ops m k") auto

lemma mp_obj_dict_get_correct:
  assumes "obj_laws ops" "dict_ok ops m" "hash_of ops k \<noteq> None"
  shows "mp_obj_dict_get ops m k =
    ((case entry ops m k of Some v \<Rightarrow> Inr (Some v) | None \<Rightarrow> Inl (KeyError (Some k))), m)"
  using dict_lookup_find [OF assms]
  by (auto simp: mp_obj_dict_get_def slot_value_def)

lemma dict_contains_correct:
  assumes "obj_laws ops" "dict_ok ops m" "hash_of ops k \<noteq> None"
  shows "dict_contains ops m k = Inr (entry ops m k \<noteq> None)"
  using dict_lookup_find [OF assms]
  by (auto simp: dict_contains_def)

lemma dict_get_correct:
  assumes "obj_laws ops" "dict_ok ops m" "hash_of ops k \<noteq> None"
  shows "dict_get ops none m k deflt =
    (Inr (case entry ops m k of Some v \<Rightarrow> v | None \<Rightarrow> (case deflt of Some d \<Rightarrow> d | None \<Rightarrow> none)), m)"
  using dict_lookup_find [OF assms]
  by (auto simp: dict_get_def dict_get_helper_def Let_def slot_value_def split: option.split)

lemma dict_pop_correct:
  assumes "obj_laws ops" "dict_ok ops m" "hash_of ops k \<noteq> None"
  shows "\<exists>m'. dict_pop ops none m k deflt =
      ((case entry ops m k of Some v \<Rightarrow> Inr v | None \<Rightarrow> (case deflt of Some d \<Rightarrow> Inr d | None \<Rightarrow> Inl (KeyError (Some k)))), m')
    \<and> dict_ok ops m' \<and> (\<forall>k'. entry ops m' k' = (if obj_equal ops k k' then None else entry ops m k'))
    \<and> used m' = used m - of_bool (entry ops m k \<noteq> None)"
proof -
  note ok = dict_okD [OF assms(2)]
  note fixed = map_okD(4) [OF ok]
  from map_lookup_remove [OF assms(1) ok assms(3)] show ?thesis
  proof (elim disjE conjE exE)
    assume none: "map_find ops m k = None" and r: "map_lookup ops m k MP_MAP_LOOKUP_REMOVE_IF_FOUND = (Not_found, m)"
    have absent: "entry ops m k = None" using none by (simp add: entry_def)
    have "entry ops m k' = None" if eq: "obj_equal ops k k'" for k'
      using none elems_find_equal [OF assms(1) eq, of "table m"] by (simp add: entry_def map_find_def)
    then show ?thesis
      using absent r assms(2) fixed
      by (auto simp: dict_pop_def dict_get_helper_def Let_def split: option.split)
  next
    fix p assume p: "p < alloc m" "equal_key ops k (table m ! p)" "map_find ops m k = Some (el_value (table m ! p))"
      and r: "map_lookup ops m k MP_MAP_LOOKUP_REMOVE_IF_FOUND = (Slot p, delete_slot p m)"
    have e: "entry ops m k = el_value (table m ! p)" using p(3) by (simp add: entry_def)
    obtain v where v: "el_value (table m ! p) = Some v"
      using p(3) assms(2) unfolding dict_ok_iff [OF assms(1)] by (cases "el_value (table m ! p)") auto
    have key: "is_key (table m ! p)" using p(2) by (auto simp: equal_key_iff is_key_iff)
    define m1 where "m1 = set_value p None (delete_slot p m)"
    have len: "p < length (table m)" using p(1) map_okD(1) [OF ok] by simp
    have sv: "slot_value (delete_slot p m) p = Some v"
      using len v by (simp add: slot_value_def delete_slot_def)
    have ok1: "map_ok ops m1" unfolding m1_def by (rule set_value_ok [OF delete_slot_ok [OF ok p(1) key]])
    have nokey: "\<not> equal_key ops k' (table (delete_slot p m) ! p)" for k'
      using len by (simp add: delete_slot_def equal_key_def)
    have "table m1 = (table (delete_slot p m))[p := (table (delete_slot p m) ! p)\<lparr>el_value := None\<rparr>]"
      by (simp add: m1_def set_value_def)
    then have find: "map_find ops m1 k' = map_find ops (delete_slot p m) k'" for k'
      using elems_find_update [OF assms(1) map_okD(3) [OF delete_slot_ok [OF ok p(1) key]], of p
          "(table (delete_slot p m) ! p)\<lparr>el_value := None\<rparr>" k'] nokey len
      by (auto simp: map_find_def equal_key_iff is_key_iff delete_slot_def)
    have find': "map_find ops m1 k' = (if obj_equal ops k k' then None else map_find ops m k')" for k'
      using find delete_slot_find [OF assms(1) ok p(1,2)] by simp
    have "dict_ok ops m1"
      using ok1 find' assms(2) unfolding dict_ok_iff [OF assms(1)] by simp
    moreover have "dict_pop ops none m k deflt = (Inr v, m1)"
      using r sv fixed by (simp add: dict_pop_def dict_get_helper_def Let_def m1_def)
    ultimately show ?thesis using e v find' by (auto simp: entry_def m1_def)
  qed
qed

lemma dict_store_entry:
  assumes "obj_laws ops" "dict_ok ops m" "map_ok ops m'"
    "\<forall>k'. map_find ops m' k' = (if obj_equal ops k k' then Some (Some v) else map_find ops m k')"
  shows "dict_ok ops m' \<and> (\<forall>k'. entry ops m' k' = (if obj_equal ops k k' then Some v else entry ops m k'))"
  using assms unfolding dict_ok_iff [OF assms(1)] by (simp add: entry_def)

lemma mp_obj_dict_store_correct:
  assumes "obj_laws ops" "dict_ok ops m" "can_store ops m k"
  shows "\<exists>m'. mp_obj_dict_store ops m k v = (Inr (), m') \<and> dict_ok ops m'
    \<and> (\<forall>k'. entry ops m' k' = (if obj_equal ops k k' then Some v else entry ops m k'))
    \<and> used m' = used m + of_bool (entry ops m k = None)"
proof -
  note ok = dict_okD [OF assms(2)]
  obtain m' where m': "map_store ops m k (Some v) = (None, m')" "map_ok ops m'"
    "\<forall>k'. map_find ops m' k' = (if obj_equal ops k k' then Some (Some v) else map_find ops m k')"
    "used m' = used m + (if map_find ops m k = None then 1 else 0)"
    using map_store_ok [OF assms(1) ok, of k "Some v"] assms(3) by auto
  have "(map_find ops m k = None) = (entry ops m k = None)" using entry_find [OF assms(1,2), of k] by simp
  then show ?thesis
    using m' dict_store_entry [OF assms(1,2) m'(2,3)] map_okD(4) [OF ok] by (auto simp: mp_obj_dict_store_def)
qed

lemma mp_obj_dict_store_fails:
  assumes "obj_laws ops" "dict_ok ops m" "hash_of ops k \<noteq> None" "\<not> can_store ops m k"
  shows "mp_obj_dict_store ops m k v = (Inl (MapError Memory_error), m)"
  using map_store_ok [OF assms(1) dict_okD [OF assms(2)], of k "Some v"] assms(3,4)
    map_okD(4) [OF dict_okD [OF assms(2)]] by (auto simp: mp_obj_dict_store_def)

lemma dict_setdefault_correct:
  fixes deflt none
  assumes "obj_laws ops" "dict_ok ops m" "can_store ops m k"
  defines "d \<equiv> (case deflt of Some d \<Rightarrow> d | None \<Rightarrow> none)"
  shows "\<exists>m'. dict_setdefault ops none m k deflt = (Inr (case entry ops m k of Some v \<Rightarrow> v | None \<Rightarrow> d), m') \<and> dict_ok ops m'
    \<and> (\<forall>k'. entry ops m' k' = (if obj_equal ops k k' \<and> entry ops m k = None then Some d else entry ops m k'))"
proof -
  note ok = dict_okD [OF assms(2)]
  from map_lookup_add [OF assms(1) ok assms(3)] show ?thesis
  proof (elim disjE conjE exE)
    fix p assume p: "map_find ops m k \<noteq> None" "map_find ops m k = Some (el_value (table m ! p))"
      "map_lookup ops m k MP_MAP_LOOKUP_ADD_IF_NOT_FOUND = (Slot p, m)"
    obtain v where v: "el_value (table m ! p) = Some v"
      using p(2) assms(2) unfolding dict_ok_iff [OF assms(1)] by (cases "el_value (table m ! p)") auto
    then have "entry ops m k = Some v" using p(2) by (simp add: entry_def)
    then show ?thesis
      using p(3) v assms(2) map_okD(4) [OF ok]
      by (auto simp: dict_setdefault_def dict_get_helper_def Let_def slot_value_def)
  next
    fix p m' assume p: "map_find ops m k = None" "added ops k m p m'"
      "map_lookup ops m k MP_MAP_LOOKUP_ADD_IF_NOT_FOUND = (Slot p, m')"
    have m': "map_ok ops m'" "p < alloc m'" "equal_key ops k (table m' ! p)" "el_value (table m' ! p) = None"
      using p(2) by (simp_all add: added_def)
    have "dict_ok ops (set_value p (Some d) m')
        \<and> (\<forall>k'. entry ops (set_value p (Some d) m') k' = (if obj_equal ops k k' then Some d else entry ops m k'))"
      using set_value_find [OF assms(1) m'(1-3), of "Some d"] p(2)
      by (intro dict_store_entry [OF assms(1,2) set_value_ok [OF m'(1)]]) (simp add: added_def)
    moreover have "entry ops m k = None" using p(1) by (simp add: entry_def)
    ultimately show ?thesis
      using p(3) m'(4) map_okD(4) [OF ok]
      by (auto simp: dict_setdefault_def dict_get_helper_def Let_def slot_value_def d_def split: option.split)
  qed
qed

end
