(* ===== verification/MpDictAll.thy ===== *)
theory MpDictAll
  imports MpDictOk
begin

text \<open>
  The operations that visit every entry: iteration, printing, copying, equality, update, and
  \<open>popitem\<close>, which takes the first.
\<close>

section \<open>Iterating\<close>

definition slot_entry :: "('k, 'v) mp_map_elem \<Rightarrow> ('k \<times> 'v option) list" where
  "slot_entry e = (case el_key e of Key k \<Rightarrow> [(k, el_value e)] | _ \<Rightarrow> [])"

definition elem_entries :: "('k, 'v) mp_map_elem list \<Rightarrow> ('k \<times> 'v option) list" where
  "elem_entries es = concat (map slot_entry es)"

lemma elem_entries_simps [simp]:
  "elem_entries [] = []" "elem_entries (e # es) = slot_entry e @ elem_entries es"
  by (simp_all add: elem_entries_def)

lemma filled_key: "mp_map_slot_is_filled m i \<longleftrightarrow> is_key (table m ! i)"
  by (cases "el_key (table m ! i)") (simp_all add: mp_map_slot_is_filled_def is_key_iff)

lemma dict_iter_next_step:
  assumes "cur < alloc m"
  shows "dict_iter_next m cur = (if is_key (table m ! cur) then Next cur else dict_iter_next m (Suc cur))"
  using assms by (simp add: dict_iter_next_def upt_conv_Cons filled_key)

lemma dict_iter_next_end: "dict_iter_next m (alloc m) = Stop"
  by (simp add: dict_iter_next_def)

lemma slot_entry_key: "el_key (table m ! i) = Key k \<Longrightarrow> slot_entry (table m ! i) = [(k, slot_value m i)]"
  by (simp add: slot_entry_def slot_value_def)

text \<open>
  The rule behind every loop over the entries: a function of the cursor that agrees with a function of
  the remaining entries at the end, past an unfilled slot and at a filled one, agrees everywhere.
\<close>

lemma iter_induct:
  assumes len: "alloc m = length (table m)" and "cur \<le> alloc m"
    and stop: "P (alloc m) []"
    and skip: "\<And>c es. c < alloc m \<Longrightarrow> dict_iter_next m c = dict_iter_next m (Suc c) \<Longrightarrow> P (Suc c) es \<Longrightarrow> P c es"
    and take: "\<And>c k es. c < alloc m \<Longrightarrow> dict_iter_next m c = Next c \<Longrightarrow> slot_key m c = Some k
        \<Longrightarrow> (k, slot_value m c) \<in> set (elem_entries (table m)) \<Longrightarrow> P (Suc c) es \<Longrightarrow> P c ((k, slot_value m c) # es)"
  shows "P cur (elem_entries (drop cur (table m)))"
  using assms(2)
proof (induction cur rule: inc_induct)
  case base
  then show ?case using stop len by simp
next
  case (step c)
  have drop: "drop c (table m) = table m ! c # drop (Suc c) (table m)"
    using step.hyps(2) len by (simp add: Cons_nth_drop_Suc)
  show ?case
  proof (cases "is_key (table m ! c)")
    case True
    then obtain k where k: "el_key (table m ! c) = Key k" by (auto simp: is_key_iff)
    have "(k, slot_value m c) \<in> set (elem_entries (table m))"
      using step.hyps(2) len slot_entry_key [OF k] nth_mem [of c "table m"]
      by (simp add: elem_entries_def) (metis list.set_intros(1) nth_mem)
    then show ?thesis
      using take [OF step.hyps(2) _ _ _ step.IH, of k] dict_iter_next_step [OF step.hyps(2)] True k
      by (simp add: drop slot_entry_key slot_key_def)
  next
    case False
    then have "slot_entry (table m ! c) = []" by (cases "el_key (table m ! c)") (auto simp: slot_entry_def is_key_iff)
    then show ?thesis
      using skip [OF step.hyps(2) _ step.IH] dict_iter_next_step [OF step.hyps(2)] False by (simp add: drop)
  qed
qed

lemma dict_entries_correct:
  assumes "alloc m = length (table m)" "cur \<le> alloc m"
  shows "dict_entries_from m cur = (None, elem_entries (drop cur (table m)))"
proof (rule iter_induct [OF assms, where P = "\<lambda>c es. dict_entries_from m c = (None, es)"])
  show "dict_entries_from m (alloc m) = (None, [])"
    by (subst dict_entries_from.simps) (simp add: dict_iter_next_end)
next
  fix c and es :: "('a \<times> 'b option) list"
  assume "dict_iter_next m c = dict_iter_next m (Suc c)" "dict_entries_from m (Suc c) = (None, es)"
  then show "dict_entries_from m c = (None, es)"
    by (subst dict_entries_from.simps) (simp add: dict_entries_from.simps [of m "Suc c"])
next
  fix c k and es :: "('a \<times> 'b option) list"
  assume "dict_iter_next m c = Next c" "slot_key m c = Some k" "dict_entries_from m (Suc c) = (None, es)"
  then show "dict_entries_from m c = (None, (k, slot_value m c) # es)"
    by (subst dict_entries_from.simps) simp
qed

lemma elem_entries_find:
  assumes "obj_laws ops" "table_ok ops tbl"
  shows "(k, v) \<in> set (elem_entries tbl) \<Longrightarrow> elems_find ops tbl k = Some v"
proof -
  assume "(k, v) \<in> set (elem_entries tbl)"
  then obtain i where i: "i < length tbl" "el_key (tbl ! i) = Key k" "el_value (tbl ! i) = v"
    by (auto simp: elem_entries_def slot_entry_def in_set_conv_nth split: map_key.splits)
  then have "equal_key ops k (tbl ! i)" using obj_lawsD(1) [OF assms(1)] by (simp add: equal_key_def)
  then show "elems_find ops tbl k = Some v" using map_find_at [OF assms i(1)] i(3) by simp
qed

lemma elems_find_entry:
  assumes "elems_find ops tbl k = Some v"
  shows "\<exists>k'. obj_equal ops k' k \<and> (k', v) \<in> set (elem_entries tbl)"
proof -
  obtain e where "find (equal_key ops k) tbl = Some e" "el_value e = v"
    using assms by (auto simp: elems_find_def)
  then have "e \<in> set tbl" "equal_key ops k e" "el_value e = v" by (auto simp: find_Some_iff)
  then show ?thesis
    by (force simp: elem_entries_def slot_entry_def equal_key_iff split: map_key.split)
qed

text \<open>The entries are those of the map, each key once.\<close>

lemma elem_entries_length: "length (elem_entries es) = length (filter is_key es)"
  by (induction es) (auto simp: slot_entry_def is_key_iff split: map_key.split)

lemma elem_entries_distinct:
  assumes "distinct_keys ops es"
  shows "sorted_wrt (\<lambda>a b. \<not> obj_equal ops (fst b) (fst a)) (elem_entries es)"
  using assms
proof (induction es)
  case (Cons e es)
  have "\<not> obj_equal ops k' k" if "el_key e = Key k" "(k', v) \<in> set (elem_entries es)" for k k' v
    using that Cons.prems by (fastforce simp: distinct_keys_def elem_entries_def slot_entry_def equal_key_def
        split: map_key.splits)
  then show ?case
    using Cons by (cases "el_key e") (auto simp: slot_entry_def distinct_keys_def)
qed simp

section \<open>Printing\<close>

fun join :: "'a list \<Rightarrow> 'a list list \<Rightarrow> 'a list" where
  "join sep [] = []"
| "join sep [x] = x"
| "join sep (x # y # ys) = x @ sep @ join sep (y # ys)"

lemma join_Cons: "join sep (x # xs) = x @ (if xs = [] then [] else sep @ join sep xs)"
  by (cases xs) simp_all

definition print_entry :: "('k \<Rightarrow> u8 list) \<Rightarrow> 'k \<times> 'k option \<Rightarrow> u8 list" where
  "print_entry repr kv = repr (fst kv) @ [0x3A, 0x20] @ print_value repr (snd kv)"

lemma dict_print_from_skip:
  "dict_iter_next m c = dict_iter_next m (Suc c) \<Longrightarrow> dict_print_from repr m first c = dict_print_from repr m first (Suc c)"
  by (subst (1 2) dict_print_from.simps) simp

lemma dict_print_from_correct:
  assumes "alloc m = length (table m)" "cur \<le> alloc m"
  shows "dict_print_from repr m first cur =
    Inr (let out = map (print_entry repr) (elem_entries (drop cur (table m)))
         in (if first \<or> out = [] then [] else [0x2C, 0x20]) @ join [0x2C, 0x20] out)"
proof (rule iter_induct [OF assms, where P = "\<lambda>c es. \<forall>first. dict_print_from repr m first c =
    Inr (let out = map (print_entry repr) es in (if first \<or> out = [] then [] else [0x2C, 0x20]) @ join [0x2C, 0x20] out)",
    THEN spec])
  show "\<forall>first. dict_print_from repr m first (alloc m) =
      Inr (let out = map (print_entry repr) [] in (if first \<or> out = [] then [] else [0x2C, 0x20]) @ join [0x2C, 0x20] out)"
    by (subst dict_print_from.simps) (simp add: dict_iter_next_end)
next
  fix c and es :: "('a \<times> 'a option) list"
  assume "dict_iter_next m c = dict_iter_next m (Suc c)" "\<forall>first. dict_print_from repr m first (Suc c) =
      Inr (let out = map (print_entry repr) es in (if first \<or> out = [] then [] else [0x2C, 0x20]) @ join [0x2C, 0x20] out)"
  then show "\<forall>first. dict_print_from repr m first c =
      Inr (let out = map (print_entry repr) es in (if first \<or> out = [] then [] else [0x2C, 0x20]) @ join [0x2C, 0x20] out)"
    using dict_print_from_skip by metis
next
  fix c k and es :: "('a \<times> 'a option) list"
  assume "dict_iter_next m c = Next c" "slot_key m c = Some k" "\<forall>first. dict_print_from repr m first (Suc c) =
      Inr (let out = map (print_entry repr) es in (if first \<or> out = [] then [] else [0x2C, 0x20]) @ join [0x2C, 0x20] out)"
  then show "\<forall>first. dict_print_from repr m first c =
      Inr (let out = map (print_entry repr) ((k, slot_value m c) # es) in (if first \<or> out = [] then [] else [0x2C, 0x20]) @ join [0x2C, 0x20] out)"
    by (subst dict_print_from.simps) (simp add: print_entry_def Let_def join_Cons)
qed

lemma dict_print_correct:
  assumes "alloc m = length (table m)"
  shows "dict_print repr m =
    Inr ([0x7B] @ join [0x2C, 0x20] (map (print_entry repr) (elem_entries (table m))) @ [0x7D])"
  using dict_print_from_correct [OF assms, of 0 repr True] by (simp add: dict_print_def Let_def)

section \<open>Copying\<close>

lemma mp_obj_dict_copy_correct:
  assumes "dict_ok ops m"
  shows "dict_ok ops (mp_obj_dict_copy m)" "entry ops (mp_obj_dict_copy m) = entry ops m"
    "used (mp_obj_dict_copy m) = used m" "table (mp_obj_dict_copy m) = table m"
  using assms map_okD(1) [OF dict_okD [OF assms]]
  by (simp_all add: mp_obj_dict_copy_def mp_obj_new_dict_def mp_map_init_def dict_ok_def map_ok_def
      entry_def map_find_def fun_eq_iff)

lemma dict_clear_correct:
  assumes "dict_ok ops m"
  shows "\<exists>m'. dict_clear m = (Inr (), m') \<and> dict_ok ops m' \<and> (\<forall>k. entry ops m' k = None) \<and> used m' = 0"
  using map_okD(4) [OF dict_okD [OF assms]] mp_map_clear_ok [OF dict_okD [OF assms]]
  by (simp add: dict_clear_def dict_ok_def entry_def) (simp add: mp_map_clear_def)

lemma mp_obj_new_dict_ok:
  shows "dict_ok ops (mp_obj_new_dict n)" "entry ops (mp_obj_new_dict n) k = None" "used (mp_obj_new_dict n) = 0"
  by (simp_all add: mp_obj_new_dict_def dict_ok_def entry_def mp_map_init_ok)
    (simp_all add: mp_map_init_def is_key_def)

section \<open>Equality\<close>

definition entry_in :: "'k obj_ops \<Rightarrow> ('k, 'k) mp_map \<Rightarrow> 'k \<times> 'k option \<Rightarrow> bool" where
  "entry_in ops rhs kv = (\<exists>v w. snd kv = Some v \<and> entry ops rhs (fst kv) = Some w \<and> obj_equal ops v w)"

lemma dict_equal_from_skip:
  "dict_iter_next m c = dict_iter_next m (Suc c) \<Longrightarrow> dict_equal_from ops m rhs c = dict_equal_from ops m rhs (Suc c)"
  by (subst (1 2) dict_equal_from.simps) simp

lemma elem_entries_ok:
  assumes "obj_laws ops" "dict_ok ops m" "(k, v) \<in> set (elem_entries (table m))"
  shows "hash_of ops k \<noteq> None" "v = entry ops m k" "v \<noteq> None"
proof -
  have f: "map_find ops m k = Some v"
    using elem_entries_find [OF assms(1) map_okD(3) [OF dict_okD [OF assms(2)]] assms(3)] by (simp add: map_find_def)
  obtain w where w: "entry ops m k = Some w" "v = Some w" using entry_find [OF assms(1,2), of k] f by (cases "entry ops m k") auto
  show "v = entry ops m k" "v \<noteq> None" using w by simp_all
  show "hash_of ops k \<noteq> None" using hash_none_absent [OF assms(1) dict_okD [OF assms(2)], of k] f by auto
qed

lemma dict_equal_from_correct:
  assumes laws: "obj_laws ops" and m: "dict_ok ops m" and rhs: "dict_ok ops rhs" and "cur \<le> alloc m"
  shows "dict_equal_from ops m rhs cur = Inr (list_all (entry_in ops rhs) (elem_entries (drop cur (table m))))"
proof (rule iter_induct [OF map_okD(1) [OF dict_okD [OF m]] assms(4),
      where P = "\<lambda>c es. dict_equal_from ops m rhs c = Inr (list_all (entry_in ops rhs) es)"])
  show "dict_equal_from ops m rhs (alloc m) = Inr (list_all (entry_in ops rhs) [])"
    by (subst dict_equal_from.simps) (simp add: dict_iter_next_end)
next
  fix c and es :: "('a \<times> 'a option) list"
  assume "dict_iter_next m c = dict_iter_next m (Suc c)"
    "dict_equal_from ops m rhs (Suc c) = Inr (list_all (entry_in ops rhs) es)"
  then show "dict_equal_from ops m rhs c = Inr (list_all (entry_in ops rhs) es)"
    using dict_equal_from_skip by metis
next
  fix c k and es :: "('a \<times> 'a option) list"
  assume c: "dict_iter_next m c = Next c" "slot_key m c = Some k"
    "(k, slot_value m c) \<in> set (elem_entries (table m))"
    "dict_equal_from ops m rhs (Suc c) = Inr (list_all (entry_in ops rhs) es)"
  obtain v where v: "slot_value m c = Some v" using elem_entries_ok(3) [OF laws m c(3)] by auto
  have "dict_equal_from ops m rhs c =
    (case fst (map_lookup ops rhs k MP_MAP_LOOKUP) of
       Raised e \<Rightarrow> Inl (MapError e)
     | Not_found \<Rightarrow> Inr False
     | Slot j \<Rightarrow>
         (case slot_value rhs j of
            Some w \<Rightarrow> if obj_equal ops v w then Inr (list_all (entry_in ops rhs) es) else Inr False
          | None \<Rightarrow> Inl (MapError Null_dereference)))"
    by (subst dict_equal_from.simps) (simp add: c v split: lookup_result.split option.split)
  then show "dict_equal_from ops m rhs c = Inr (list_all (entry_in ops rhs) ((k, slot_value m c) # es))"
    using dict_lookup_find [OF laws rhs elem_entries_ok(1) [OF laws m c(3)]]
    by (auto simp: entry_in_def v) (simp_all add: slot_value_def)
qed

text \<open>As many entries in both, and every one of the first in the second: then every one of the second in the first.\<close>

lemma table_ok_unique:
  "table_ok ops tbl \<Longrightarrow> i < length tbl \<Longrightarrow> j < length tbl \<Longrightarrow> el_key (tbl ! i) = Key a \<Longrightarrow> el_key (tbl ! j) = Key b
    \<Longrightarrow> obj_equal ops a b \<Longrightarrow> i = j"
  unfolding table_ok_def by blast

definition key_slots :: "('k, 'v) mp_map \<Rightarrow> nat set" where
  "key_slots m = {i. i < length (table m) \<and> is_key (table m ! i)}"

definition same_key :: "'k obj_ops \<Rightarrow> ('k, 'v) mp_map \<Rightarrow> ('k, 'v) mp_map \<Rightarrow> nat \<Rightarrow> nat \<Rightarrow> bool" where
  "same_key ops m m' i j \<longleftrightarrow>
     (\<exists>a b. el_key (table m ! i) = Key a \<and> el_key (table m' ! j) = Key b \<and> obj_equal ops a b)"

lemma key_slots_card: "map_ok ops m \<Longrightarrow> finite (key_slots m) \<and> card (key_slots m) = used m"
  by (simp add: key_slots_def map_okD(2) length_filter_conv_card)

lemma equal_key_is_key: "equal_key ops k e \<Longrightarrow> is_key e"
  by (auto simp: equal_key_iff is_key_iff)

lemma key_slots_findI: "i \<in> key_slots m \<Longrightarrow> equal_key ops k (table m ! i) \<Longrightarrow> map_find ops m k \<noteq> None"
  by (auto simp: map_find_def elems_find_None key_slots_def intro: nth_mem)

lemma key_slots_findE:
  assumes "map_find ops m k \<noteq> None"
  obtains i where "i \<in> key_slots m" "equal_key ops k (table m ! i)"
proof -
  obtain i where i: "i < length (table m)" "equal_key ops k (table m ! i)"
    using assms by (auto simp: map_find_def elems_find_None in_set_conv_nth)
  then show thesis using that equal_key_is_key [OF i(2)] by (simp add: key_slots_def)
qed

lemma same_key_inj:
  fixes m m' :: "('k, 'v) mp_map"
  assumes "obj_laws ops" "map_ok ops m" "i \<in> key_slots m" "i' \<in> key_slots m"
    "same_key ops m m' i j" "same_key ops m m' i' j"
  shows "i = i'"
proof -
  obtain a b where a: "el_key (table m ! i) = Key a" "el_key (table m' ! j) = Key b" "obj_equal ops a b"
    using assms(5) unfolding same_key_def by blast
  obtain c d where c: "el_key (table m ! i') = Key c" "el_key (table m' ! j) = Key d" "obj_equal ops c d"
    using assms(6) unfolding same_key_def by blast
  have "b = d" using a(2) c(2) by simp
  then have "obj_equal ops a c" using obj_lawsD(3) [OF assms(1) a(3)] obj_lawsD(2) [OF assms(1) c(3)] by simp
  then show ?thesis
    using table_ok_unique [OF map_okD(3) [OF assms(2)] _ _ a(1) c(1)] assms(3,4) by (simp add: key_slots_def)
qed

lemma same_key_exists:
  fixes m m' :: "('k, 'v) mp_map"
  assumes "obj_laws ops" "map_ok ops m" "map_ok ops m'" "i \<in> key_slots m"
    and sub: "\<And>k. map_find ops m k \<noteq> None \<Longrightarrow> map_find ops m' k \<noteq> None"
  shows "\<exists>j. j \<in> key_slots m' \<and> same_key ops m m' i j"
proof -
  obtain a where a: "el_key (table m ! i) = Key a" using assms(4) by (auto simp: key_slots_def is_key_iff)
  then have "equal_key ops a (table m ! i)" using obj_lawsD(1) [OF assms(1)] by (simp add: equal_key_def)
  then have "map_find ops m' a \<noteq> None"
    by (intro sub key_slots_findI [OF assms(4)])
  then obtain j where j: "j \<in> key_slots m'" "equal_key ops a (table m' ! j)" by (rule key_slots_findE)
  then obtain b where "el_key (table m' ! j) = Key b" "obj_equal ops b a" by (auto simp: equal_key_iff)
  then show ?thesis using a j(1) obj_lawsD(2) [OF assms(1), of b a] unfolding same_key_def by blast
qed

lemma keys_covered:
  fixes m m' :: "('k, 'v) mp_map"
  assumes laws: "obj_laws ops" and m: "map_ok ops m" and m': "map_ok ops m'" and "used m = used m'"
    and sub: "\<And>k. map_find ops m k \<noteq> None \<Longrightarrow> map_find ops m' k \<noteq> None"
    and k: "map_find ops m' k \<noteq> None"
  shows "map_find ops m k \<noteq> None"
proof -
  have ex: "\<exists>j. j \<in> key_slots m' \<and> same_key ops m m' i j" if "i \<in> key_slots m" for i
    by (rule same_key_exists [OF laws m m' that sub])
  define f where "f i = (SOME j. j \<in> key_slots m' \<and> same_key ops m m' i j)" for i
  have f: "f i \<in> key_slots m' \<and> same_key ops m m' i (f i)" if "i \<in> key_slots m" for i
    unfolding f_def by (rule someI_ex [OF ex [OF that]])
  have "inj_on f (key_slots m)"
  proof (rule inj_onI)
    fix i i' assume i: "i \<in> key_slots m" "i' \<in> key_slots m" "f i = f i'"
    show "i = i'"
      using same_key_inj [OF laws m i(1,2), of m' "f i"] f [OF i(1)] f [OF i(2)] i(3) by simp
  qed
  then have "card (f ` key_slots m) = card (key_slots m')"
    using key_slots_card [OF m] key_slots_card [OF m'] assms(4) by (simp add: card_image)
  moreover have "f ` key_slots m \<subseteq> key_slots m'" using f by (intro image_subsetI) simp
  ultimately have image: "f ` key_slots m = key_slots m'"
    using key_slots_card [OF m'] by (intro card_subset_eq) simp_all
  obtain j where j: "j \<in> key_slots m'" "equal_key ops k (table m' ! j)" using k by (rule key_slots_findE)
  from j(1) have "j \<in> f ` key_slots m" unfolding image .
  then obtain i where i: "i \<in> key_slots m" "f i = j" by (elim imageE) simp
  obtain a b where ab: "el_key (table m ! i) = Key a" "el_key (table m' ! j) = Key b" "obj_equal ops a b"
    using f [OF i(1)] i(2) unfolding same_key_def by (elim conjE exE) simp
  then have "obj_equal ops b k" using j(2) by (simp add: equal_key_def)
  then have "equal_key ops k (table m ! i)" using ab obj_lawsD(3) [OF laws ab(3)] by (simp add: equal_key_def)
  then show ?thesis by (rule key_slots_findI [OF i(1)])
qed

text \<open>\<open>==\<close> is equality of the maps.\<close>

definition same_entries :: "'k obj_ops \<Rightarrow> ('k, 'k) mp_map \<Rightarrow> ('k, 'k) mp_map \<Rightarrow> bool" where
  "same_entries ops m rhs \<longleftrightarrow> (\<forall>k. rel_option (obj_equal ops) (entry ops m k) (entry ops rhs k))"

lemma entry_slot:
  assumes "obj_laws ops" "dict_ok ops m" "entry ops m k = Some v"
  shows "\<exists>k'. obj_equal ops k' k \<and> (k', Some v) \<in> set (elem_entries (table m))"
  using elems_find_entry [of ops "table m" k "Some v"] entry_find [OF assms(1,2), of k] assms(3)
  by (simp add: map_find_def)

lemma entry_equal:
  assumes "obj_laws ops" "obj_equal ops k k'"
  shows "entry ops m k = entry ops m k'"
  using elems_find_equal [OF assms, of "table m"] by (simp add: entry_def map_find_def)

lemma list_all_entries:
  assumes laws: "obj_laws ops" and m: "dict_ok ops m"
  shows "list_all (entry_in ops rhs) (elem_entries (table m)) \<longleftrightarrow>
    (\<forall>k v. entry ops m k = Some v \<longrightarrow> (\<exists>w. entry ops rhs k = Some w \<and> obj_equal ops v w))"
proof (intro iffI allI impI)
  fix k v assume all: "list_all (entry_in ops rhs) (elem_entries (table m))" and v: "entry ops m k = Some v"
  obtain k' where k': "obj_equal ops k' k" "(k', Some v) \<in> set (elem_entries (table m))"
    using entry_slot [OF laws m v] by blast
  then have "entry_in ops rhs (k', Some v)" using all by (simp add: list_all_iff)
  then show "\<exists>w. entry ops rhs k = Some w \<and> obj_equal ops v w"
    using entry_equal [OF laws k'(1)] by (simp add: entry_in_def)
next
  assume all: "\<forall>k v. entry ops m k = Some v \<longrightarrow> (\<exists>w. entry ops rhs k = Some w \<and> obj_equal ops v w)"
  show "list_all (entry_in ops rhs) (elem_entries (table m))"
    unfolding list_all_iff
  proof
    fix kv assume kv: "kv \<in> set (elem_entries (table m))"
    obtain k x where [simp]: "kv = (k, x)" by (cases kv)
    obtain v where "x = Some v" "entry ops m k = Some v"
      using elem_entries_ok(2,3) [OF laws m, of k x] kv by auto
    then show "entry_in ops rhs kv" using all by (simp add: entry_in_def)
  qed
qed

lemma dict_binary_equal_correct:
  assumes laws: "obj_laws ops" and m: "dict_ok ops m" and rhs: "dict_ok ops rhs"
  shows "dict_binary_equal ops m (Some rhs) = Inr (used m = used rhs \<and> same_entries ops m rhs)"
proof (cases "used m = used rhs")
  case True
  have some: "map_find ops m k \<noteq> None \<longleftrightarrow> entry ops m k \<noteq> None" if "dict_ok ops m" for m k
    using entry_find [OF laws that, of k] by simp
  have "same_entries ops m rhs"
    if sub: "\<forall>k v. entry ops m k = Some v \<longrightarrow> (\<exists>w. entry ops rhs k = Some w \<and> obj_equal ops v w)"
    unfolding same_entries_def
  proof
    fix k
    have keys: "map_find ops rhs k \<noteq> None" if "map_find ops m k \<noteq> None" for k
    proof -
      from that obtain v where "entry ops m k = Some v" unfolding some [OF m] by blast
      then have "entry ops rhs k \<noteq> None" using sub by blast
      then show ?thesis unfolding some [OF rhs] .
    qed
    have "entry ops rhs k \<noteq> None \<Longrightarrow> entry ops m k \<noteq> None"
      using keys_covered [OF laws dict_okD [OF m] dict_okD [OF rhs] True keys, of k]
        some [OF m, of k] some [OF rhs, of k] by simp
    then show "rel_option (obj_equal ops) (entry ops m k) (entry ops rhs k)"
      using spec [OF sub, of k] by (cases "entry ops m k"; cases "entry ops rhs k") auto
  qed
  moreover have "\<exists>w. entry ops rhs k = Some w \<and> obj_equal ops v w"
    if "same_entries ops m rhs" "entry ops m k = Some v" for k v
  proof -
    have "rel_option (obj_equal ops) (entry ops m k) (entry ops rhs k)" using that(1) by (simp add: same_entries_def)
    then show ?thesis using that(2) by (cases "entry ops rhs k") auto
  qed
  ultimately have "list_all (entry_in ops rhs) (elem_entries (table m)) = same_entries ops m rhs"
    unfolding list_all_entries [OF laws m] by blast
  then show ?thesis
    using dict_equal_from_correct [OF assms, of 0] True by (simp add: dict_binary_equal_def)
qed (simp add: dict_binary_equal_def)

section \<open>Updating\<close>

text \<open>Storing dictionary entries keeps the dictionary and overlays them.\<close>

lemma last_entry_in: "last_entry eq es k = Some v \<Longrightarrow> \<exists>k'. eq k' k \<and> (k', v) \<in> set es"
  by (induction es) (auto split: option.splits if_splits)

lemma store_elems_correct:
  assumes laws: "obj_laws ops" and m: "dict_ok ops m" and es: "\<forall>kv\<in>set es. snd kv \<noteq> None"
    and st: "store_elems ops es m = (None, m')"
  shows "dict_ok ops m' \<and> (\<forall>k. entry ops m' k =
    (case last_entry (obj_equal ops) es k of Some v \<Rightarrow> v | None \<Rightarrow> entry ops m k))"
proof -
  have st': "store_all (map_store ops) es m = (None, m')" using st by (simp add: store_elems_all)
  have ok: "obj_laws ops \<and> map_ok ops m" using laws dict_okD [OF m] by simp
  have find: "map_find ops m' k = (case last_entry (obj_equal ops) es k of Some v \<Rightarrow> Some v | None \<Rightarrow> map_find ops m k)" for k
    using mm.store_all_val [OF ok st'] .
  have "map_find ops m' k \<noteq> Some None" for k
  proof (cases "last_entry (obj_equal ops) es k")
    case None
    then show ?thesis using find [of k] m unfolding dict_ok_iff [OF laws] by simp
  next
    case (Some v)
    then obtain k' where "(k', v) \<in> set es" using last_entry_in by metis
    then show ?thesis using find [of k] Some es by auto
  qed
  then have "dict_ok ops m'" using mm.store_all_ok [OF ok st'] by (simp add: dict_ok_iff [OF laws])
  moreover have "entry ops m' k = (case last_entry (obj_equal ops) es k of Some v \<Rightarrow> v | None \<Rightarrow> entry ops m k)" for k
    using find [of k] by (simp add: entry_def split: option.split)
  ultimately show ?thesis by blast
qed

lemma last_entry_table:
  assumes laws: "obj_laws ops" and other: "dict_ok ops other"
  shows "last_entry (obj_equal ops) (elem_entries (table other)) k = map_option Some (entry ops other k)"
proof (cases "last_entry (obj_equal ops) (elem_entries (table other)) k")
  case None
  have "entry ops other k = None"
  proof (rule ccontr)
    assume "entry ops other k \<noteq> None"
    then obtain v k' where "obj_equal ops k' k" "(k', Some v) \<in> set (elem_entries (table other))"
      using entry_slot [OF laws other, of k] by blast
    moreover have "(k', v) \<in> set es \<Longrightarrow> obj_equal ops k' k \<Longrightarrow> last_entry (obj_equal ops) es k \<noteq> None"
      for es :: "('a \<times> 'a option) list" and k' v by (induction es) (auto split: option.split)
    ultimately show False using None by blast
  qed
  then show ?thesis using None by simp
next
  case (Some v)
  then obtain k' where k': "obj_equal ops k' k" "(k', v) \<in> set (elem_entries (table other))"
    using last_entry_in by metis
  then have "v = entry ops other k" "v \<noteq> None"
    using elem_entries_ok(2,3) [OF laws other k'(2)] entry_equal [OF laws k'(1)] by simp_all
  then show ?thesis using Some by auto
qed

text \<open>Updating from another dictionary: its entries win.\<close>

lemma update_other_correct:
  assumes laws: "obj_laws ops" and m: "dict_ok ops m" and other: "dict_ok ops other"
    and up: "update_positional ops m (Other_dict other) = (None, m')"
  shows "dict_ok ops m' \<and> (\<forall>k. entry ops m' k = (case entry ops other k of Some v \<Rightarrow> Some v | None \<Rightarrow> entry ops m k))"
proof -
  have es: "dict_entries_from other 0 = (None, elem_entries (table other))"
    using dict_entries_correct [OF map_okD(1) [OF dict_okD [OF other]], of 0] by simp
  then have st: "store_elems ops (elem_entries (table other)) m = (None, m')"
    using up by (auto simp: update_positional_def split: prod.splits option.splits)
  have "\<forall>kv\<in>set (elem_entries (table other)). snd kv \<noteq> None"
    using elem_entries_ok(3) [OF laws other] by force
  then show ?thesis
    using store_elems_correct [OF laws m _ st] last_entry_table [OF laws other] by (simp split: option.split)
qed

lemma store_pairs_elems:
  assumes "list_all (\<lambda>p. length p = 2) its"
  shows "store_pairs ops its m =
    (case store_elems ops (map (\<lambda>p. (p ! 0, Some (p ! 1))) its) m of (e, m') \<Rightarrow> (map_option MapError e, m'))"
  using assms
proof (induction its arbitrary: m)
  case (Cons p its)
  then obtain k v where "p = [k, v]" by (auto simp: length_Suc_conv numeral_2_eq_2)
  then show ?case using Cons by (auto split: prod.split option.split)
qed simp

text \<open>An item of the wrong length stops the update with ValueError, what came before it stored.\<close>

lemma store_pairs_bad:
  assumes "list_all (\<lambda>p. length p = 2) its" "length p \<noteq> 2" "store_pairs ops its m = (None, m')"
  shows "store_pairs ops (its @ p # its') m = (Some ValueError, m')"
  using assms
proof (induction its arbitrary: m)
  case Nil
  then show ?case by (auto split: list.split)
next
  case (Cons q its)
  then obtain k v where "q = [k, v]" by (auto simp: length_Suc_conv numeral_2_eq_2)
  then show ?case using Cons by (auto split: prod.splits option.splits)
qed

section \<open>Taking an item\<close>

lemma elem_update: "e\<lparr>el_key := key, el_value := v\<rparr> = \<lparr>el_key = key, el_value = v\<rparr>"
  by (cases e) simp

lemma dict_popitem_correct:
  assumes laws: "obj_laws ops" and m: "dict_ok ops m" and ne: "used m \<noteq> 0"
  shows "\<exists>k v m'. dict_popitem m = (Inr (Some k, Some v), m') \<and> entry ops m k = Some v
    \<and> dict_ok ops m' \<and> used m' = used m - 1
    \<and> (\<forall>k'. entry ops m' k' = (if obj_equal ops k k' then None else entry ops m k'))"
proof -
  note ok = dict_okD [OF m]
  have "filter is_key (table m) \<noteq> []" using ne map_okD(2) [OF ok] by auto
  then obtain j where j: "j < length (table m)" "is_key (table m ! j)"
    by (auto simp: filter_empty_conv in_set_conv_nth)
  then have "find (mp_map_slot_is_filled m) [0..<alloc m] \<noteq> None"
    using map_okD(1) [OF ok] by (auto simp: find_None_iff filled_key)
  then obtain i where next_i: "find (mp_map_slot_is_filled m) [0..<alloc m] = Some i" by blast
  then have i: "dict_iter_next m 0 = Next i" by (simp add: dict_iter_next_def)
  have i': "i < alloc m" "is_key (table m ! i)" using next_i by (auto simp: find_Some_iff filled_key)
  obtain k where k: "el_key (table m ! i) = Key k" using i'(2) by (auto simp: is_key_iff)
  then have eqk: "equal_key ops k (table m ! i)" using obj_lawsD(1) [OF laws] by (simp add: equal_key_def)
  have len: "i < length (table m)" using i'(1) map_okD(1) [OF ok] by simp
  obtain v where v: "el_value (table m ! i) = Some v"
    using m i'(2) len by (auto simp: dict_ok_def)
  have ent: "entry ops m k = Some v" using found_value [OF laws ok i'(1) eqk] v by (simp add: entry_def)
  define m1 where "m1 = clear_key MP_OBJ_SENTINEL i m"
  have cl: "clearable m i MP_OBJ_SENTINEL" by (simp add: clearable_def)
  have m1: "map_ok ops m1" unfolding m1_def by (rule clear_key_ok [OF ok i' cl])
  define m2 where "m2 = set_value i None m1"
  have m2: "map_ok ops m2" unfolding m2_def by (rule set_value_ok [OF m1])
  have nokey: "\<not> equal_key ops k' (table m1 ! i)" for k'
    using len by (simp add: m1_def equal_key_def)
  have "table m2 = (table m1)[i := (table m1 ! i)\<lparr>el_value := None\<rparr>]" by (simp add: m2_def set_value_def)
  then have "map_find ops m2 k' = map_find ops m1 k'" for k'
    using elems_find_update [OF laws map_okD(3) [OF m1], of i "(table m1 ! i)\<lparr>el_value := None\<rparr>" k'] nokey len
    by (auto simp: map_find_def equal_key_iff is_key_iff m1_def)
  then have find: "map_find ops m2 k' = (if obj_equal ops k k' then None else map_find ops m k')" for k'
    using clear_key_find [OF laws ok i'(1) eqk cl] by (simp add: m1_def)
  have "dict_ok ops m2" using m2 find m unfolding dict_ok_iff [OF laws] by simp
  moreover have "dict_popitem m = (Inr (Some k, Some v), m2)"
    using i k v ne map_okD(4) [OF ok] len
    by (simp add: dict_popitem_def slot_key_def slot_value_def m2_def m1_def set_value_def clear_key_def elem_update)
  ultimately show ?thesis
    using ent find by (auto simp: entry_def m2_def m1_def)
qed

end
