(* ===== verification/MpStr.thy ===== *)
theory MpStr
  imports MpMapOk
begin

text \<open>
  String objects as keys: interned strings (qstrs) and string objects, with the hash of \<open>python/py/qstr.c\<close>
  and the comparison of \<open>python/py/objstr.c\<close>.  They satisfy what the hash map asks of its keys.

  A qstr is given by its text, since the pool holds every text once; a string object by a reference, its
  text and whether its hash field has been filled in.
\<close>

datatype str_obj = Qstr "u8 list" | Str nat "u8 list" bool

fun hash_step :: "u8 list \<Rightarrow> u32 \<Rightarrow> u32" where
  "hash_step [] hash = hash"
| "hash_step (b # bs) hash = hash_step bs ((push_bit 5 hash + hash) XOR ucast b)"

definition Q_HASH_MASK :: u32 where
  "Q_HASH_MASK = push_bit (8 * 1) 1 - 1"

definition qstr_compute_hash :: "u8 list \<Rightarrow> u32" where
  "qstr_compute_hash bytes =
     (let hash = hash_step bytes 5381 AND Q_HASH_MASK in if hash = 0 then hash + 1 else hash)"

fun str_data :: "str_obj \<Rightarrow> u8 list" where
  "str_data (Qstr bytes) = bytes"
| "str_data (Str r bytes hashed) = bytes"

text \<open>\<open>GET_STR_HASH\<close>: zero when the hash has not been computed.\<close>

fun get_str_hash :: "str_obj \<Rightarrow> u32" where
  "get_str_hash (Qstr bytes) = qstr_compute_hash bytes"
| "get_str_hash (Str r bytes hashed) = (if hashed then qstr_compute_hash bytes else 0)"

definition mp_obj_is_qstr :: "str_obj \<Rightarrow> bool" where
  "mp_obj_is_qstr s = (case s of Qstr _ \<Rightarrow> True | _ \<Rightarrow> False)"

definition mp_obj_str_equal :: "str_obj \<Rightarrow> str_obj \<Rightarrow> bool" where
  "mp_obj_str_equal s1 s2 =
     (if mp_obj_is_qstr s1 \<and> mp_obj_is_qstr s2 then s1 = s2
      else
        let h1 = get_str_hash s1; h2 = get_str_hash s2 in
        if h1 \<noteq> 0 \<and> h2 \<noteq> 0 \<and> h1 \<noteq> h2 then False
        else if length (str_data s1) \<noteq> length (str_data s2) then False
        else str_data s1 = str_data s2)"

text \<open>The hash operation on strings, as \<open>mp_unary_op\<close> computes it.\<close>

definition str_op_hash :: "str_obj \<Rightarrow> u32" where
  "str_op_hash s = (let h = get_str_hash s in if h = 0 then qstr_compute_hash (str_data s) else h)"

definition str_ops :: "(nat \<Rightarrow> bool) \<Rightarrow> str_obj obj_ops" where
  "str_ops mem =
     \<lparr>is_qstr = mp_obj_is_qstr, is_str = (\<lambda>s. \<not> mp_obj_is_qstr s), qstr_hash = get_str_hash,
      op_hash = (\<lambda>s. Some (str_op_hash s)), obj_equal = mp_obj_str_equal, mem_ok = mem\<rparr>"

section \<open>Equality is equality of the texts\<close>

lemma qstr_compute_hash_nz: "qstr_compute_hash bytes \<noteq> 0"
  by (simp add: qstr_compute_hash_def Let_def)

lemma mp_obj_str_equal_iff: "mp_obj_str_equal s1 s2 \<longleftrightarrow> str_data s1 = str_data s2"
  by (cases s1; cases s2) (auto simp: mp_obj_str_equal_def mp_obj_is_qstr_def Let_def)

lemma str_op_hash_data: "str_op_hash s = qstr_compute_hash (str_data s)"
  by (cases s) (auto simp: str_op_hash_def Let_def qstr_compute_hash_nz)

lemma str_hash_of: "hash_of (str_ops mem) s = Some (qstr_compute_hash (str_data s))"
  by (cases s) (simp_all add: hash_of_def str_ops_def mp_obj_is_qstr_def str_op_hash_data)

lemma str_ops_laws: "obj_laws (str_ops mem)"
  unfolding obj_laws_def str_hash_of
  by (auto simp: str_ops_def mp_obj_str_equal_iff mp_obj_is_qstr_def split: str_obj.splits)

end
