(* ===== verification/MpDictSpec.thy ===== *)
theory MpDictSpec
  imports MpDictAll MpStr
begin

text \<open>
  What the hash map and the dictionary promise, stated whole, with runs on string keys.
\<close>

abbreviation sops :: "str_obj obj_ops" where
  "sops \<equiv> str_ops (\<lambda>n. n \<le> 64)"

definition key_of :: "char \<Rightarrow> str_obj" where
  "key_of c = Qstr [of_char c]"

text \<open>A dictionary made by the code: three entries, the middle one removed, a fourth key stored.\<close>

definition demo_dict :: "(str_obj, str_obj) mp_map" where
  "demo_dict =
     (let m1 = snd (mp_obj_dict_store sops (mp_obj_new_dict 0) (key_of CHR ''a'') (key_of CHR ''x''));
          m2 = snd (mp_obj_dict_store sops m1 (Str 7 [of_char CHR ''b''] False) (key_of CHR ''y''));
          m3 = snd (mp_obj_dict_store sops m2 (key_of CHR ''c'') (key_of CHR ''z''));
          m4 = snd (dict_pop sops (key_of CHR ''n'') m3 (key_of CHR ''b'') None)
      in snd (mp_obj_dict_store sops m4 (key_of CHR ''d'') (key_of CHR ''w'')))"

lemma dict_store_keeps: "obj_laws ops \<Longrightarrow> dict_ok ops m \<Longrightarrow> hash_of ops k \<noteq> None \<Longrightarrow> dict_ok ops (snd (mp_obj_dict_store ops m k v))"
  using mp_obj_dict_store_correct [of ops m k v] mp_obj_dict_store_fails [of ops m k v]
  by (cases "can_store ops m k") auto

lemma dict_pop_keeps: "obj_laws ops \<Longrightarrow> dict_ok ops m \<Longrightarrow> hash_of ops k \<noteq> None \<Longrightarrow> dict_ok ops (snd (dict_pop ops none m k d))"
  using dict_pop_correct [of ops m k none d] by auto

lemma demo_dict_used: "used demo_dict = 3 \<and> alloc demo_dict = 4"
  by code_simp

lemma demo_hash: "hash_of sops k \<noteq> None"
  by (simp add: str_hash_of)

lemma demo_dict_ok: "dict_ok sops demo_dict"
  unfolding demo_dict_def Let_def
  by (intro dict_store_keeps [OF str_ops_laws _ demo_hash] dict_pop_keeps [OF str_ops_laws _ demo_hash]
      mp_obj_new_dict_ok(1))

section \<open>The hash map\<close>

text \<open>
  C5: the open-addressing table is a finite map.  On a table that the operations keep well formed, a plain
  lookup returns the one slot whose key equals the index, with the value of the map, or NULL when the map
  has none, and changes nothing.  A removing lookup takes exactly that key out of the map.  An adding
  lookup returns the entry there is, or a new one with no value, rehashing a full table if there is
  memory.  Neither deleted slots on the way nor comparing references only ever makes it miss a key.
\<close>

theorem map_lookup_correct:
  assumes "obj_laws ops" "map_ok ops m" "hash_of ops k \<noteq> None"
  shows
    "(case map_lookup ops m k MP_MAP_LOOKUP of
        (r, m') \<Rightarrow> m' = m \<and> (case map_find ops m k of
          None \<Rightarrow> r = Not_found
        | Some v \<Rightarrow> \<exists>p<alloc m. r = Slot p \<and> equal_key ops k (table m ! p) \<and> el_value (table m ! p) = v))
     \<and> (case map_lookup ops m k MP_MAP_LOOKUP_REMOVE_IF_FOUND of
        (r, m') \<Rightarrow> map_ok ops m'
          \<and> (\<forall>k'. map_find ops m' k' = (if obj_equal ops k k' then None else map_find ops m k'))
          \<and> (case map_find ops m k of
              None \<Rightarrow> r = Not_found \<and> used m' = used m
            | Some v \<Rightarrow> \<exists>p<alloc m. r = Slot p \<and> el_value (table m' ! p) = v \<and> used m' = used m - 1))
     \<and> (can_store ops m k \<longrightarrow> (case map_lookup ops m k MP_MAP_LOOKUP_ADD_IF_NOT_FOUND of
        (r, m') \<Rightarrow> map_ok ops m' \<and> (\<exists>p<alloc m'. r = Slot p \<and> equal_key ops k (table m' ! p)
          \<and> (case map_find ops m k of
              Some v \<Rightarrow> m' = m \<and> el_value (table m ! p) = v
            | None \<Rightarrow> el_value (table m' ! p) = None \<and> used m' = used m + 1
                \<and> (\<forall>k'. map_find ops m' k' = (if obj_equal ops k k' then Some None else map_find ops m k'))))))"
    (is "?find \<and> ?remove \<and> (_ \<longrightarrow> ?add)")
proof (intro conjI impI)
  show ?find using map_lookup_find [OF assms] by auto
  from map_lookup_remove [OF assms] show ?remove
  proof (elim disjE conjE exE)
    assume none: "map_find ops m k = None" "map_lookup ops m k MP_MAP_LOOKUP_REMOVE_IF_FOUND = (Not_found, m)"
    have "obj_equal ops k k' \<Longrightarrow> map_find ops m k' = None" for k'
      using elems_find_equal [OF assms(1), of k k' "table m"] none(1) by (simp add: map_find_def)
    then show ?thesis using none assms(2) by simp
  next
    fix p assume p: "p < alloc m" "equal_key ops k (table m ! p)" "map_find ops m k = Some (el_value (table m ! p))"
      "map_lookup ops m k MP_MAP_LOOKUP_REMOVE_IF_FOUND = (Slot p, delete_slot p m)"
    have "el_value (table (delete_slot p m) ! p) = el_value (table m ! p)"
      using p(1) map_okD(1) [OF assms(2)] by (simp add: delete_slot_def)
    then show ?thesis
      using p delete_slot_ok [OF assms(2) p(1) equal_key_is_key [OF p(2)]] delete_slot_find [OF assms(1,2) p(1,2)]
      by simp
  qed
  assume "can_store ops m k"
  from map_lookup_add [OF assms(1,2) this] show ?add
    using assms(2) by (auto simp: added_def)
qed

theorem map_lookup_correct_witness:
  "map_find sops demo_dict (key_of CHR ''c'') = Some (Some (key_of CHR ''z''))
   \<and> map_find sops (snd (map_lookup sops demo_dict (key_of CHR ''c'') MP_MAP_LOOKUP_REMOVE_IF_FOUND)) (key_of CHR ''c'') = None
   \<and> map_find sops (snd (map_lookup sops demo_dict (key_of CHR ''c'') MP_MAP_LOOKUP_REMOVE_IF_FOUND)) (key_of CHR ''d'')
     = map_find sops demo_dict (key_of CHR ''d'')"
proof -
  have "obj_equal sops (key_of CHR ''c'') (key_of CHR ''c'')" "\<not> obj_equal sops (key_of CHR ''c'') (key_of CHR ''d'')"
    by code_simp+
  moreover have "map_find sops demo_dict (key_of CHR ''c'') = Some (Some (key_of CHR ''z''))" by code_simp
  moreover obtain r m' where "map_lookup sops demo_dict (key_of CHR ''c'') MP_MAP_LOOKUP_REMOVE_IF_FOUND = (r, m')"
    by fastforce
  ultimately show ?thesis
    using map_lookup_correct [OF str_ops_laws dict_okD [OF demo_dict_ok] demo_hash, of "key_of CHR ''c''",
        THEN conjunct2, THEN conjunct1] by simp
qed

text \<open>
  Growing the table loses nothing.  \<open>mp_map_rehash\<close> moves every live entry to a table that is strictly
  larger and of which the same map can be read, deleted slots left behind, and needs one level of nested
  lookups for it; when there is no memory for the new table it raises MemoryError with the old one untouched.
\<close>

theorem map_rehash_correct:
  assumes "obj_laws ops" "map_ok ops m"
  shows "if mem_ok ops (get_hash_alloc_greater_or_equal_to (alloc m + 1))
    then \<exists>m'. mp_map_rehash (Suc d) ops m = Some (None, m') \<and> map_ok ops m' \<and> alloc m < alloc m'
      \<and> used m' = used m \<and> map_find ops m' = map_find ops m
    else mp_map_rehash d ops m = Some (Some Memory_error, m)"
  using mp_map_rehash_ok [OF assms, of d] mp_map_rehash_no_memory [of ops m d] by auto

theorem map_rehash_correct_witness:
  "\<exists>m'. mp_map_rehash 1 sops demo_dict = Some (None, m') \<and> map_ok sops m' \<and> 4 < alloc m' \<and> used m' = 3
     \<and> map_find sops m' = map_find sops demo_dict"
proof -
  have "mem_ok sops (get_hash_alloc_greater_or_equal_to (alloc demo_dict + 1))" by code_simp
  then show ?thesis
    using map_rehash_correct [OF str_ops_laws dict_okD [OF demo_dict_ok], of 0] demo_dict_used by simp
qed

section \<open>Dictionaries\<close>



text \<open>
  \<open>==\<close> on dictionaries is equality of the maps: it is true exactly when both have the same number of
  entries and every key has equal values in both, or none in either, although the code walks over one
  table only.  The order of insertion, deleted slots and table sizes do not matter.
\<close>

theorem dict_equal_correct:
  assumes "obj_laws ops" "dict_ok ops m" "dict_ok ops rhs"
  shows "dict_binary_equal ops m (Some rhs) = Inr (used m = used rhs \<and> same_entries ops m rhs)"
  by (rule dict_binary_equal_correct [OF assms])

definition other_dict :: "(str_obj, str_obj) mp_map" where
  "other_dict =
     (let m1 = snd (mp_obj_dict_store sops (mp_obj_new_dict 9) (key_of CHR ''c'') (Str 3 [of_char CHR ''z''] True));
          m2 = snd (mp_obj_dict_store sops m1 (key_of CHR ''d'') (key_of CHR ''w''))
      in snd (mp_obj_dict_store sops m2 (Str 4 [of_char CHR ''a''] True) (key_of CHR ''x'')))"

lemma other_dict_ok: "dict_ok sops other_dict"
  unfolding other_dict_def Let_def
  by (intro dict_store_keeps [OF str_ops_laws _ demo_hash] mp_obj_new_dict_ok(1))

theorem dict_equal_correct_witness: "same_entries sops demo_dict other_dict \<and> alloc demo_dict \<noteq> alloc other_dict"
proof -
  have "dict_binary_equal sops demo_dict (Some other_dict) = Inr True" by code_simp
  moreover have "alloc demo_dict \<noteq> alloc other_dict" by code_simp
  ultimately show ?thesis
    using dict_equal_correct [OF str_ops_laws demo_dict_ok other_dict_ok] by simp
qed

definition update_entries :: "'k obj_ops \<Rightarrow> 'k update_arg list \<Rightarrow> ('k \<times> 'k option) list" where
  "update_entries ops args =
     (case args of
        [Other_dict other] \<Rightarrow> elem_entries (table other)
      | [Iterable its] \<Rightarrow> map (\<lambda>p. (p ! 0, Some (p ! 1))) its
      | _ \<Rightarrow> [])"

definition update_arg_ok :: "'k obj_ops \<Rightarrow> 'k update_arg \<Rightarrow> bool" where
  "update_arg_ok ops arg =
     (case arg of
        Other_dict other \<Rightarrow> dict_ok ops other
      | Iterable its \<Rightarrow> list_all (\<lambda>p. length p = 2) its
      | Same_dict \<Rightarrow> True)"

lemma update_positional_correct:
  assumes "obj_laws ops" "dict_ok ops m" "update_arg_ok ops arg" "update_positional ops m arg = (None, m')"
  shows "dict_ok ops m' \<and> (\<forall>k. entry ops m' k =
    (case last_entry (obj_equal ops) (update_entries ops [arg]) k of Some v \<Rightarrow> v | None \<Rightarrow> entry ops m k))"
proof (cases arg)
  case Same_dict
  then show ?thesis using assms by (simp add: update_positional_def update_entries_def)
next
  case (Other_dict other)
  then have other: "dict_ok ops other" using assms(3) by (simp add: update_arg_ok_def)
  show ?thesis
    using update_other_correct [OF assms(1,2) other] last_entry_table [OF assms(1) other] assms(4) Other_dict
    by (auto simp: update_entries_def split: option.split)
next
  case (Iterable its)
  then have its: "list_all (\<lambda>p. length p = 2) its" using assms(3) by (simp add: update_arg_ok_def)
  have "store_elems ops (map (\<lambda>p. (p ! 0, Some (p ! 1))) its) m = (None, m')"
    using store_pairs_elems [OF its, of ops m] assms(4) Iterable by (auto simp: update_positional_def split: prod.splits)
  then show ?thesis
    using store_elems_correct [OF assms(1,2), of "map (\<lambda>p. (p ! 0, Some (p ! 1))) its"] Iterable
    by (simp add: update_entries_def)
qed

text \<open>
  \<open>update\<close> overlays.  An update that succeeds leaves the entries of the argument where it has the key, of
  two equal keys of a sequence the later one, then the keyword arguments over both, and the old
  entries elsewhere; updating from the dictionary itself changes nothing.  Nothing else appears.
\<close>

theorem dict_update_correct:
  assumes "obj_laws ops" "dict_ok ops m" "list_all (update_arg_ok ops) args"
    and "\<forall>kv\<in>set (keyword_entries kwargs). snd kv \<noteq> None"
    and "dict_update ops m args kwargs = (None, m')"
  shows "dict_ok ops m' \<and> (\<forall>k. entry ops m' k =
    (case last_entry (obj_equal ops) (keyword_entries kwargs) k of
       Some v \<Rightarrow> v
     | None \<Rightarrow>
         (case last_entry (obj_equal ops) (update_entries ops args) k of
            Some v \<Rightarrow> v
          | None \<Rightarrow> entry ops m k)))"
proof -
  obtain m1 where m1: "(case args of [] \<Rightarrow> (None, m) | arg # _ \<Rightarrow> update_positional ops m arg) = (None, m1)"
    and st: "store_elems ops (keyword_entries kwargs) m1 = (None, m')" and len: "length args \<le> 1"
    using assms(5) unfolding dict_update_def by (auto split: if_splits prod.splits option.splits)
  have "dict_ok ops m1 \<and> (\<forall>k. entry ops m1 k =
      (case last_entry (obj_equal ops) (update_entries ops args) k of Some v \<Rightarrow> v | None \<Rightarrow> entry ops m k))"
  proof (cases args)
    case Nil
    then show ?thesis using m1 assms(2) by (simp add: update_entries_def)
  next
    case (Cons arg as)
    then show ?thesis using update_positional_correct [OF assms(1,2), of arg m1] m1 assms(3) len by simp
  qed
  then show ?thesis
    using store_elems_correct [OF assms(1) _ assms(4) st] by (simp cong: option.case_cong)
qed

definition demo_kwargs :: "(str_obj, str_obj) mp_map" where
  "demo_kwargs = mp_map_init_fixed_table [\<lparr>el_key = Key (key_of CHR ''e''), el_value = Some (key_of CHR ''v'')\<rparr>] (mp_map_init 0)"

theorem dict_update_correct_witness:
  "\<exists>m'. dict_update sops other_dict [Iterable [[key_of CHR ''a'', key_of CHR ''q'']]] demo_kwargs = (None, m')
     \<and> entry sops m' (key_of CHR ''a'') = Some (key_of CHR ''q'')
     \<and> entry sops m' (key_of CHR ''e'') = Some (key_of CHR ''v'')
     \<and> entry sops m' (key_of CHR ''d'') = entry sops other_dict (key_of CHR ''d'')"
proof -
  let ?args = "[Iterable [[key_of CHR ''a'', key_of CHR ''q'']]] :: str_obj update_arg list"
  obtain m' where m': "dict_update sops other_dict ?args demo_kwargs = (None, m')"
  proof
    have "fst (dict_update sops other_dict ?args demo_kwargs) = None" by code_simp
    then show "dict_update sops other_dict ?args demo_kwargs = (None, snd (dict_update sops other_dict ?args demo_kwargs))"
      by (simp add: prod_eq_iff)
  qed
  have args: "list_all (update_arg_ok sops) ?args" "\<forall>kv\<in>set (keyword_entries demo_kwargs). snd kv \<noteq> None"
    by (simp add: update_arg_ok_def, code_simp)
  have look: "last_entry (obj_equal sops) (keyword_entries demo_kwargs) (key_of CHR ''a'') = None"
    "last_entry (obj_equal sops) (update_entries sops ?args) (key_of CHR ''a'') = Some (Some (key_of CHR ''q''))"
    "last_entry (obj_equal sops) (keyword_entries demo_kwargs) (key_of CHR ''e'') = Some (Some (key_of CHR ''v''))"
    "last_entry (obj_equal sops) (keyword_entries demo_kwargs) (key_of CHR ''d'') = None"
    "last_entry (obj_equal sops) (update_entries sops ?args) (key_of CHR ''d'') = None"
    by code_simp+
  show ?thesis
    using dict_update_correct [OF str_ops_laws other_dict_ok args m', THEN conjunct2] m' look by simp
qed

section \<open>Iteration\<close>

text \<open>What an iterator yields when it is advanced \<open>n\<close> times over a dictionary that stays as it is.\<close>

fun run_view :: "nat \<Rightarrow> ('k, 'k) mp_map \<Rightarrow> dict_view_it \<Rightarrow> (map_error + 'k view_item) list" where
  "run_view 0 m it = []"
| "run_view (Suc n) m it = (case dict_view_it_iternext m it of (r, it') \<Rightarrow> r # run_view n m it')"

definition view_item :: "mp_dict_view_kind \<Rightarrow> 'k \<times> 'k option \<Rightarrow> 'k view_item" where
  "view_item kind kv =
     (case kind of
        MP_DICT_VIEW_ITEMS \<Rightarrow> Item (Some (fst kv)) (snd kv)
      | MP_DICT_VIEW_KEYS \<Rightarrow> Single (Some (fst kv))
      | MP_DICT_VIEW_VALUES \<Rightarrow> Single (snd kv))"

lemma run_view_skip:
  assumes "dict_iter_next m c = dict_iter_next m (Suc c)"
  shows "run_view (Suc n) m \<lparr>view_kind = kind, view_cur = c\<rparr> = run_view (Suc n) m \<lparr>view_kind = kind, view_cur = Suc c\<rparr>
    \<or> dict_iter_next m c = Stop \<or> dict_iter_next m c = Assertion_fails"
  by (cases "dict_iter_next m (Suc c)") (simp_all add: dict_view_it_iternext_def assms)

lemma view_item_not_stop: "Stop_iteration \<noteq> view_item kind kv"
  by (cases kind) (simp_all add: view_item_def)

lemma run_view_entries:
  assumes "alloc m = length (table m)" "cur \<le> alloc m"
  shows "run_view (Suc (length (elem_entries (drop cur (table m))))) m \<lparr>view_kind = kind, view_cur = cur\<rparr> =
    map (\<lambda>kv. Inr (view_item kind kv)) (elem_entries (drop cur (table m))) @ [Inr Stop_iteration]"
proof (rule iter_induct [OF assms, where P = "\<lambda>c es. run_view (Suc (length es)) m \<lparr>view_kind = kind, view_cur = c\<rparr> =
    map (\<lambda>kv. Inr (view_item kind kv)) es @ [Inr Stop_iteration]"])
  fix c and es :: "('a \<times> 'a option) list"
  assume c: "dict_iter_next m c = dict_iter_next m (Suc c)" "run_view (Suc (length es)) m \<lparr>view_kind = kind, view_cur = Suc c\<rparr> =
    map (\<lambda>kv. Inr (view_item kind kv)) es @ [Inr Stop_iteration]"
  then show "run_view (Suc (length es)) m \<lparr>view_kind = kind, view_cur = c\<rparr> =
      map (\<lambda>kv. Inr (view_item kind kv)) es @ [Inr Stop_iteration]"
    using run_view_skip [OF c(1), of "length es" kind]
    by (cases es) (auto simp: dict_view_it_iternext_def view_item_not_stop)
qed (simp_all add: dict_view_it_iternext_def dict_iter_next_end view_item_def split: mp_dict_view_kind.split)

text \<open>
  Iterating a dictionary visits every entry exactly once.  A view's iterator, advanced over an unchanged
  dictionary, yields one item for each entry of the map in table order and then stops; there are as many
  as the length says, no two with equal keys, each with its value; printing shows the same
  entries in the same order; and \<open>popitem\<close> on a dictionary that is not empty takes out one of them.
\<close>

theorem dict_iteration_correct:
  assumes "obj_laws ops" "dict_ok ops m"
  defines "es \<equiv> elem_entries (table m)"
  shows "run_view (Suc (length es)) m (dict_view_getiter kind) = map (\<lambda>kv. Inr (view_item kind kv)) es @ [Inr Stop_iteration]
    \<and> length es = mp_obj_dict_len m
    \<and> sorted_wrt (\<lambda>a b. \<not> obj_equal ops (fst b) (fst a)) es
    \<and> (\<forall>k v. entry ops m k = Some v \<longleftrightarrow> (\<exists>k'. obj_equal ops k' k \<and> (k', Some v) \<in> set es))
    \<and> dict_print repr m = Inr ([0x7B] @ join [0x2C, 0x20] (map (print_entry repr) es) @ [0x7D])
    \<and> (if es = [] then dict_popitem m = (Inl (KeyError None), m)
       else \<exists>k v m'. dict_popitem m = (Inr (Some k, Some v), m') \<and> entry ops m k = Some v \<and> dict_ok ops m'
         \<and> mp_obj_dict_len m' = mp_obj_dict_len m - 1
         \<and> (\<forall>k'. entry ops m' k' = (if obj_equal ops k k' then None else entry ops m k')))"
proof (intro conjI allI)
  note ok = map_okD [OF dict_okD [OF assms(2)]]
  show "run_view (Suc (length es)) m (dict_view_getiter kind) = map (\<lambda>kv. Inr (view_item kind kv)) es @ [Inr Stop_iteration]"
    using run_view_entries [OF ok(1), of 0 kind] by (simp add: es_def dict_view_getiter_def)
  show len: "length es = mp_obj_dict_len m"
    by (simp add: es_def elem_entries_length ok(2) mp_obj_dict_len_def)
  show "sorted_wrt (\<lambda>a b. \<not> obj_equal ops (fst b) (fst a)) es"
    unfolding es_def by (rule elem_entries_distinct [OF table_ok_distinct [OF assms(1) ok(3)]])
  show "entry ops m k = Some v \<longleftrightarrow> (\<exists>k'. obj_equal ops k' k \<and> (k', Some v) \<in> set es)" for k v
  proof
    assume "entry ops m k = Some v"
    then show "\<exists>k'. obj_equal ops k' k \<and> (k', Some v) \<in> set es"
      unfolding es_def by (rule entry_slot [OF assms(1,2)])
  next
    assume "\<exists>k'. obj_equal ops k' k \<and> (k', Some v) \<in> set es"
    then obtain k' where k': "obj_equal ops k' k" "(k', Some v) \<in> set (elem_entries (table m))" unfolding es_def by blast
    show "entry ops m k = Some v"
      using elem_entries_ok(2) [OF assms(1,2) k'(2)] entry_equal [OF assms(1) k'(1)] by simp
  qed
  show "dict_print repr m = Inr ([0x7B] @ join [0x2C, 0x20] (map (print_entry repr) es) @ [0x7D])"
    unfolding es_def by (rule dict_print_correct [OF ok(1)])
  show "if es = [] then dict_popitem m = (Inl (KeyError None), m)
     else \<exists>k v m'. dict_popitem m = (Inr (Some k, Some v), m') \<and> entry ops m k = Some v \<and> dict_ok ops m'
       \<and> mp_obj_dict_len m' = mp_obj_dict_len m - 1
       \<and> (\<forall>k'. entry ops m' k' = (if obj_equal ops k k' then None else entry ops m k'))"
  proof (cases "es = []")
    case True
    then show ?thesis using len ok(4) by (simp add: dict_popitem_def mp_obj_dict_len_def)
  next
    case False
    then have "length es \<noteq> 0" by simp
    then have "used m \<noteq> 0" unfolding len mp_obj_dict_len_def .
    from dict_popitem_correct [OF assms(1,2) this] show ?thesis
      unfolding if_not_P [OF False] mp_obj_dict_len_def by blast
  qed
qed

theorem dict_iteration_correct_witness:
  "run_view 4 demo_dict (dict_view_getiter MP_DICT_VIEW_KEYS) =
    [Inr (Single (Some (key_of CHR ''a''))), Inr (Single (Some (key_of CHR ''d''))), Inr (Single (Some (key_of CHR ''c''))),
     Inr Stop_iteration]"
proof -
  have "elem_entries (table demo_dict) =
    [(key_of CHR ''a'', Some (key_of CHR ''x'')), (key_of CHR ''d'', Some (key_of CHR ''w'')), (key_of CHR ''c'', Some (key_of CHR ''z''))]"
    by code_simp
  then show ?thesis
    using dict_iteration_correct [OF str_ops_laws demo_dict_ok, of MP_DICT_VIEW_KEYS, THEN conjunct1]
    by (simp add: view_item_def numeral_eq_Suc)
qed

text \<open>
  Changing a dictionary while iterating over it can stop the machine.  An iterator that has moved past
  the second slot, a \<open>clear\<close>, one store, and the next advance fails the assertion in
  \<open>dict_iter_next\<close>, which expects the cursor inside the table: a program that does this hangs the kernel,
  where Python raises RuntimeError.
\<close>

theorem dict_iter_after_clear_asserts:
  assumes "obj_laws ops" "dict_ok ops m" "hash_of ops k \<noteq> None" "mem_ok ops 2" "2 < view_cur it"
    and "dict_clear m = (Inr (), m1)" "mp_obj_dict_store ops m1 k v = (Inr (), m2)"
  shows "dict_view_it_iternext m2 it = (Inl Assertion_failed, it)"
proof -
  have m1: "m1 = mp_map_clear m" using assms(6) by (auto simp: dict_clear_def split: if_splits)
  have a: "alloc m1 = 0" "used m1 = 0" "map_ok ops m1" "map_find ops m1 k = None"
    using mp_map_clear_ok [OF dict_okD [OF assms(2)]] by (simp_all add: m1) (simp_all add: mp_map_clear_def)
  define m1' where "m1' = m1\<lparr>alloc := 2, used := 0, all_keys_are_qstrs := True, table := replicate 2 empty_slot\<rparr>"
  have re: "mp_map_rehash (Suc 0) ops m1 = Some (None, m1')"
    using assms(4) a(1) by (simp add: mp_map_rehash_def rehash_with_def get_hash_alloc_code Let_def m1'_def)
  have m1': "map_ok ops m1'" "map_find ops m1' k = None"
    using mp_map_rehash_ok [OF assms(1) a(3), of 0] re assms(4) a(1,4) by (auto simp: get_hash_alloc_code)
  obtain h where h: "hash_of ops k = Some h" using assms(3) by auto
  have sizes: "alloc m1' = 2" "used m1' = 0" by (simp_all add: m1'_def)
  have ptrs: "ptrs_only ops m1 k \<longrightarrow> ptrs_only ops m1' k" by (simp add: ptrs_only_def m1'_def)
  obtain p where "map_lookup ops m1 k MP_MAP_LOOKUP_ADD_IF_NOT_FOUND = (Slot p, add_slot ops k p m1')"
    using hash_search_add [OF assms(1) m1'(1) _ h ptrs m1'(2), of "mp_map_rehash (Suc 0) ops"] sizes a(1) re h
    unfolding map_lookup_def depth_2 lookup_add_unfold [OF a(3)] by auto
  then have "m2 = set_value p (Some v) (add_slot ops k p m1')"
    using assms(7) map_okD(4) [OF a(3)] by (simp add: mp_obj_dict_store_def map_store_def)
  then have "alloc m2 = 2" "used m2 = 1" using sizes by simp_all
  then have "dict_iter_next m2 (view_cur it) = Assertion_fails"
    using assms(5) by (simp add: dict_iter_next_def)
  then show ?thesis by (simp add: dict_view_it_iternext_def)
qed

theorem dict_iter_after_clear_asserts_witness:
  "\<exists>it m1 m2. it = snd (dict_view_it_iternext demo_dict (snd (dict_view_it_iternext demo_dict
        (snd (dict_view_it_iternext demo_dict dict_getiter)))))
     \<and> dict_clear demo_dict = (Inr (), m1) \<and> mp_obj_dict_store sops m1 (key_of CHR ''e'') (key_of CHR ''x'') = (Inr (), m2)
     \<and> dict_view_it_iternext m2 it = (Inl Assertion_failed, it)"
proof -
  let ?it = "snd (dict_view_it_iternext demo_dict (snd (dict_view_it_iternext demo_dict
        (snd (dict_view_it_iternext demo_dict dict_getiter)))))"
  let ?m1 = "snd (dict_clear demo_dict)" and ?m2 = "snd (mp_obj_dict_store sops (snd (dict_clear demo_dict)) (key_of CHR ''e'') (key_of CHR ''x''))"
  have "fst (dict_clear demo_dict) = Inr ()" "2 < view_cur ?it" "mem_ok sops 2"
    "fst (mp_obj_dict_store sops ?m1 (key_of CHR ''e'') (key_of CHR ''x'')) = Inr ()" by code_simp+
  then show ?thesis
    using dict_iter_after_clear_asserts [OF str_ops_laws demo_dict_ok demo_hash, of ?it ?m1 "key_of CHR ''e''" "key_of CHR ''x''" ?m2]
    by (metis prod.collapse)
qed

text \<open>
  A copy is a dictionary of its own with the same entries, except that the copy of a read-only one is not
  usable.  The table of a built-in module is marked fixed and ordered; its copy is no longer marked fixed but still
  ordered, and storing a new key in it writes through the NULL pointer that the lookup returns, since ordered
  tables that grow are compiled out.
\<close>

lemma linear_search_absent:
  "\<forall>e\<in>set tbl. \<not> key_matches ops ptrs k (el_key e) \<Longrightarrow> linear_search ops ptrs k pos tbl = Not_found"
  by (induction tbl arbitrary: pos) auto

theorem dict_copy_correct:
  "(dict_ok ops m \<longrightarrow>
      dict_ok ops (mp_obj_dict_copy m) \<and> entry ops (mp_obj_dict_copy m) = entry ops m
      \<and> mp_obj_dict_len (mp_obj_dict_copy m) = mp_obj_dict_len m)
   \<and> (is_ordered m \<and> (\<forall>e\<in>set (table m). \<not> key_matches ops (ptrs_only ops m k) k (el_key e)) \<longrightarrow>
      mp_obj_dict_store ops (mp_obj_dict_copy m) k v = (Inl (MapError Null_dereference), mp_obj_dict_copy m))"
proof (intro conjI impI)
  assume "dict_ok ops m"
  from mp_obj_dict_copy_correct [OF this]
  show "dict_ok ops (mp_obj_dict_copy m)" "entry ops (mp_obj_dict_copy m) = entry ops m"
    "mp_obj_dict_len (mp_obj_dict_copy m) = mp_obj_dict_len m" by (simp_all add: mp_obj_dict_len_def)
next
  assume m: "is_ordered m \<and> (\<forall>e\<in>set (table m). \<not> key_matches ops (ptrs_only ops m k) k (el_key e))"
  let ?c = "mp_obj_dict_copy m"
  have c: "is_ordered ?c" "\<not> is_fixed ?c" "ptrs_only ops ?c k = ptrs_only ops m k"
    "set (take (used ?c) (table ?c)) \<subseteq> set (table m)"
    using m by (auto simp: mp_obj_dict_copy_def ptrs_only_def dest: in_set_takeD)
  have "linear_search ops (ptrs_only ops ?c k) k 0 (take (used ?c) (table ?c)) = Not_found"
    using m c(3,4) by (intro linear_search_absent) auto
  then have "map_lookup ops ?c k MP_MAP_LOOKUP_ADD_IF_NOT_FOUND = (Not_found, ?c)"
    using c(1,2) by (simp add: map_lookup_def depth_2 lookup_with_def Let_def ptrs_only_def)
  then show "mp_obj_dict_store ops ?c k v = (Inl (MapError Null_dereference), ?c)"
    using c(2) by (simp add: mp_obj_dict_store_def map_store_def)
qed

theorem dict_copy_correct_witness:
  "dict_ok sops (mp_obj_dict_copy demo_dict)
   \<and> fst (mp_obj_dict_store sops (mp_obj_dict_copy demo_kwargs) (key_of CHR ''x'') (key_of CHR ''y''))
     = Inl (MapError Null_dereference)"
proof -
  have "is_ordered demo_kwargs \<and> (\<forall>e\<in>set (table demo_kwargs).
      \<not> key_matches sops (ptrs_only sops demo_kwargs (key_of CHR ''x'')) (key_of CHR ''x'') (el_key e))"
    by code_simp
  then show ?thesis
    using dict_copy_correct [of sops demo_dict] dict_copy_correct [of sops demo_kwargs "key_of CHR ''x''" "key_of CHR ''y''"]
      demo_dict_ok by simp
qed

end
