(* ===== verification/MpSeq.thy ===== *)
theory MpSeq
  imports Prelude Libc
begin

text \<open>
  What the sequence types share: \<open>mp_get_index\<close> of \<open>python/py/obj.c\<close>, \<open>mp_obj_slice_indices\<close> of
  \<open>python/py/objslice.c\<close> and the helpers of \<open>python/py/sequence.c\<close>.

  Lengths are \<open>nat\<close>, \<open>mp_int_t\<close> values are \<open>int\<close>: integers are small integers of 31 bits in this
  configuration and lengths are below 2 to the 30, so that no sum here leaves 32 bits.  Objects are a
  parameter: their equality, and the truth of a comparison of two of them.
\<close>

section \<open>Results\<close>

datatype seq_error = IndexError | ValueError | TypeError | NotImplementedError | MemoryError | Out_of_bounds
  | Assertion_failure

abbreviation and_then :: "'e + 'a \<Rightarrow> ('a \<Rightarrow> 'e + 'b) \<Rightarrow> 'e + 'b" where
  "and_then r f \<equiv> (case r of Inl e \<Rightarrow> Inl e | Inr x \<Rightarrow> f x)"

section \<open>Indices\<close>

text \<open>
  An index object is what \<open>mp_obj_get_int_maybe\<close> makes of it: an integer, or None for an object that is
  not one.
\<close>

definition mp_get_index :: "nat \<Rightarrow> int option \<Rightarrow> bool \<Rightarrow> seq_error + nat" where
  "mp_get_index len index is_slice =
     (case index of
        None \<Rightarrow> Inl TypeError
      | Some i0 \<Rightarrow>
          let i = (if i0 < 0 then i0 + int len else i0) in
          if is_slice then Inr (nat (if i < 0 then 0 else if i > int len then int len else i))
          else if i < 0 \<or> i \<ge> int len then Inl IndexError
          else Inr (nat i))"

text \<open>A member of a slice object: \<open>None\<close>, an integer, or any other object.\<close>

datatype slice_part = None_part | Int_part int | Other_part

record mp_obj_slice =
  sl_start :: slice_part
  sl_stop :: slice_part
  sl_step :: slice_part

record mp_bound_slice =
  bs_start :: int
  bs_stop :: int
  bs_step :: int

definition mp_obj_get_int :: "slice_part \<Rightarrow> seq_error + int" where
  "mp_obj_get_int p = (case p of Int_part i \<Rightarrow> Inr i | _ \<Rightarrow> Inl TypeError)"

definition slice_limit :: "slice_part \<Rightarrow> int \<Rightarrow> int \<Rightarrow> int \<Rightarrow> int \<Rightarrow> seq_error + int" where
  "slice_limit p dflt len lo hi =
     (if p = None_part then Inr dflt
      else and_then (mp_obj_get_int p)
        (\<lambda>i. Inr (min hi (max (if i < 0 then i + len else i) lo))))"

definition mp_obj_slice_indices :: "mp_obj_slice \<Rightarrow> int \<Rightarrow> seq_error + mp_bound_slice" where
  "mp_obj_slice_indices self len =
     and_then
       (if sl_step self = None_part then Inr 1
        else and_then (mp_obj_get_int (sl_step self)) (\<lambda>k. if k = 0 then Inl ValueError else Inr k))
       (\<lambda>k.
         if k > 0 then
           and_then (slice_limit (sl_start self) 0 len 0 len) (\<lambda>i.
           and_then (slice_limit (sl_stop self) len len 0 len) (\<lambda>j.
             Inr \<lparr>bs_start = i, bs_stop = j, bs_step = k\<rparr>))
         else
           and_then (slice_limit (sl_start self) (len - 1) len (- 1) (len - 1)) (\<lambda>i.
           and_then (slice_limit (sl_stop self) (- 1) len (- 1) (len - 1)) (\<lambda>j.
             Inr \<lparr>bs_start = i, bs_stop = j, bs_step = k\<rparr>)))"

definition mp_seq_get_fast_slice_indexes :: "nat \<Rightarrow> mp_obj_slice \<Rightarrow> seq_error + (bool \<times> mp_bound_slice)" where
  "mp_seq_get_fast_slice_indexes len sl =
     and_then (mp_obj_slice_indices sl (int len)) (\<lambda>b.
       let stop = (if bs_step b < 0 then bs_stop b + 1 else bs_stop b);
           stop' = (if bs_step b > 0 \<and> bs_start b > stop then bs_start b
                    else if bs_step b < 0 \<and> bs_start b < stop then bs_start b + 1
                    else stop)
       in Inr (bs_step b = 1, b\<lparr>bs_stop := stop'\<rparr>))"

section \<open>Comparing sequences\<close>

datatype binary_op = Op_equal | Op_less | Op_less_equal | Op_more | Op_more_equal

text \<open>The answer when one sequence is a prefix of the other.\<close>

definition tie_result :: "binary_op \<Rightarrow> nat \<Rightarrow> nat \<Rightarrow> bool" where
  "tie_result op len1 len2 = (if len1 \<noteq> len2 then \<not> len1 < len2 else op \<noteq> Op_more)"

text \<open>\<open>mp_seq_cmp_bytes\<close>, on the kernel's own \<open>memcmp\<close>.\<close>

definition mp_seq_cmp_bytes :: "mem \<Rightarrow> binary_op \<Rightarrow> u32 \<Rightarrow> u32 \<Rightarrow> u32 \<Rightarrow> u32 \<Rightarrow> bool" where
  "mp_seq_cmp_bytes m op0 p1 n1 p2 n2 =
     (if op0 = Op_equal \<and> n1 \<noteq> n2 then False
      else
        let (op, data1, len1, data2, len2) =
              (if op0 = Op_less then (Op_more, p2, n2, p1, n1)
               else if op0 = Op_less_equal then (Op_more_equal, p2, n2, p1, n1)
               else (op0, p1, n1, p2, n2));
            min_len = (if len1 < len2 then len1 else len2);
            res = memcmp m data1 data2 min_len
        in if op = Op_equal then res = 0
           else if res < 0 then False
           else if res > 0 then True
           else tie_result op (unat len1) (unat len2))"

text \<open>
  \<open>mp_seq_cmp_objs\<close>: the loop gives the answer of the first pair that differs, None for a tie.
\<close>

fun cmp_objs_loop :: "('o \<Rightarrow> 'o \<Rightarrow> bool) \<Rightarrow> (binary_op \<Rightarrow> 'o \<Rightarrow> 'o \<Rightarrow> bool) \<Rightarrow> binary_op \<Rightarrow> 'o list \<Rightarrow> 'o list \<Rightarrow> bool option"
where
  "cmp_objs_loop equal cmp op (x # items1) (y # items2) =
     (if equal x y then cmp_objs_loop equal cmp op items1 items2
      else if op = Op_equal then Some False
      else Some (cmp op x y))"
| "cmp_objs_loop equal cmp op items1 items2 = None"

definition mp_seq_cmp_objs :: "('o \<Rightarrow> 'o \<Rightarrow> bool) \<Rightarrow> (binary_op \<Rightarrow> 'o \<Rightarrow> 'o \<Rightarrow> bool) \<Rightarrow> binary_op \<Rightarrow> 'o list \<Rightarrow> 'o list \<Rightarrow> bool"
where
  "mp_seq_cmp_objs equal cmp op0 xs ys =
     (if op0 = Op_equal \<and> length xs \<noteq> length ys then False
      else
        let (op, items1, items2) =
              (if op0 = Op_less then (Op_more, ys, xs)
               else if op0 = Op_less_equal then (Op_more_equal, ys, xs)
               else (op0, xs, ys))
        in case cmp_objs_loop equal cmp op items1 items2 of
             Some r \<Rightarrow> r
           | None \<Rightarrow> tie_result op (length items1) (length items2))"

section \<open>Searching and counting\<close>

fun index_loop :: "('o \<Rightarrow> 'o \<Rightarrow> bool) \<Rightarrow> 'o list \<Rightarrow> 'o \<Rightarrow> nat \<Rightarrow> nat \<Rightarrow> seq_error + nat" where
  "index_loop equal items x i 0 = Inl ValueError"
| "index_loop equal items x i (Suc n) =
     (if equal (items ! i) x then Inr i else index_loop equal items x (i + 1) n)"

text \<open>The optional arguments \<open>args[2]\<close> and \<open>args[3]\<close> are a list of at most two index objects.\<close>

definition mp_seq_index_obj :: "('o \<Rightarrow> 'o \<Rightarrow> bool) \<Rightarrow> 'o list \<Rightarrow> 'o \<Rightarrow> int option list \<Rightarrow> seq_error + nat" where
  "mp_seq_index_obj equal items x args =
     and_then (case args of a # _ \<Rightarrow> mp_get_index (length items) a True | [] \<Rightarrow> Inr 0) (\<lambda>start.
     and_then (case args of _ # b # _ \<Rightarrow> mp_get_index (length items) b True | _ \<Rightarrow> Inr (length items)) (\<lambda>stop.
       index_loop equal items x start (stop - start)))"

fun mp_seq_count_obj :: "('o \<Rightarrow> 'o \<Rightarrow> bool) \<Rightarrow> 'o list \<Rightarrow> 'o \<Rightarrow> nat" where
  "mp_seq_count_obj equal [] x = 0"
| "mp_seq_count_obj equal (y # items) x = mp_seq_count_obj equal items x + (if equal y x then 1 else 0)"

section \<open>Blocks of cells\<close>

text \<open>
  The items of a list or tuple lie in a block of cells, None being the NULL object.  An access beyond the
  block is an error of its own, so that memory safety is a statement about results.
\<close>

type_synonym 'o cells = "'o option list"

definition set_cells :: "nat \<Rightarrow> 'o cells \<Rightarrow> 'o cells \<Rightarrow> seq_error + 'o cells" where
  "set_cells at src dest =
     (if src = [] then Inr dest
      else if at + length src \<le> length dest then Inr (take at dest @ src @ drop (at + length src) dest)
      else Inl Out_of_bounds)"

definition get_cells :: "nat \<Rightarrow> nat \<Rightarrow> 'o cells \<Rightarrow> seq_error + 'o cells" where
  "get_cells at n src =
     (if n = 0 then Inr [] else if at + n \<le> length src then Inr (take n (drop at src)) else Inl Out_of_bounds)"

definition get_cell :: "'o cells \<Rightarrow> nat \<Rightarrow> seq_error + 'o option" where
  "get_cell cs i = (if i < length cs then Inr (cs ! i) else Inl Out_of_bounds)"

definition mp_seq_clear :: "nat \<Rightarrow> nat \<Rightarrow> 'o cells \<Rightarrow> seq_error + 'o cells" where
  "mp_seq_clear len alloc_len start =
     (if alloc_len < len then Inl Out_of_bounds else set_cells len (replicate (alloc_len - len) None) start)"

text \<open>\<open>mp_seq_copy\<close> and \<open>mp_seq_cat\<close> read \<open>len\<close> cells of each source.\<close>

definition mp_seq_copy :: "'o cells \<Rightarrow> 'o cells \<Rightarrow> nat \<Rightarrow> seq_error + 'o cells" where
  "mp_seq_copy dest src len = and_then (get_cells 0 len src) (\<lambda>cs. set_cells 0 cs dest)"

definition mp_seq_cat :: "'o cells \<Rightarrow> 'o cells \<Rightarrow> nat \<Rightarrow> 'o cells \<Rightarrow> nat \<Rightarrow> seq_error + 'o cells" where
  "mp_seq_cat dest src1 len1 src2 len2 =
     and_then (get_cells 0 len1 src1) (\<lambda>c1.
     and_then (set_cells 0 c1 dest) (\<lambda>dest1.
     and_then (get_cells 0 len2 src2) (\<lambda>c2. set_cells len1 c2 dest1)))"

text \<open>\<open>mp_seq_multiply\<close>: \<open>at\<close> is where the pointer \<open>dest\<close> has moved to.\<close>

function seq_multiply_loop :: "'o cells \<Rightarrow> nat \<Rightarrow> nat \<Rightarrow> nat \<Rightarrow> nat \<Rightarrow> 'o cells \<Rightarrow> seq_error + 'o cells" where
  "seq_multiply_loop items len n_times i at dest =
     (if i < n_times then
        and_then (get_cells 0 len items) (\<lambda>cs.
        and_then (set_cells at cs dest) (\<lambda>dest'.
          seq_multiply_loop items len n_times (i + 1) (at + len) dest'))
      else Inr dest)"
  by auto

termination
  by (relation "measure (\<lambda>(items, len, n_times, i, at, dest). n_times - i)") auto

declare seq_multiply_loop.simps [simp del]

definition mp_seq_multiply :: "'o cells \<Rightarrow> nat \<Rightarrow> nat \<Rightarrow> 'o cells \<Rightarrow> seq_error + 'o cells" where
  "mp_seq_multiply items len n_times dest = seq_multiply_loop items len n_times 0 0 dest"

text \<open>The two ways to replace the cells from \<open>start\<close> to \<open>stop\<close> by a slice, in the order of their \<open>memmove\<close>s.\<close>

definition mp_seq_replace_slice_no_grow :: "'o cells \<Rightarrow> nat \<Rightarrow> nat \<Rightarrow> nat \<Rightarrow> 'o cells \<Rightarrow> seq_error + 'o cells" where
  "mp_seq_replace_slice_no_grow dest dest_len start stop src =
     and_then (set_cells start src dest) (\<lambda>dest1.
     and_then (get_cells stop (dest_len - stop) dest1) (\<lambda>rest. set_cells (start + length src) rest dest1))"

definition mp_seq_replace_slice_grow_inplace ::
  "'o cells \<Rightarrow> nat \<Rightarrow> nat \<Rightarrow> nat \<Rightarrow> 'o cells \<Rightarrow> nat \<Rightarrow> seq_error + 'o cells" where
  "mp_seq_replace_slice_grow_inplace dest dest_len start stop src len_adj =
     and_then (get_cells stop (dest_len + len_adj - (start + length src)) dest) (\<lambda>rest.
     and_then (set_cells (start + length src) rest dest) (\<lambda>dest1. set_cells start src dest1))"

section \<open>Indices and slices, as Python defines them\<close>

lemma mp_get_index_nth:
  "mp_get_index len (Some i) False = (if - int len \<le> i \<and> i < int len then Inr (nat (i mod int len)) else Inl IndexError)"
proof -
  have "i + int len = i mod int len" if "i < 0" "- int len \<le> i"
  proof -
    have "(i + int len) mod int len = i + int len" using that by (intro mod_pos_pos_trivial) auto
    then show ?thesis by (metis mod_add_self2)
  qed
  then show ?thesis by (auto simp: mp_get_index_def Let_def)
qed

lemma mp_get_index_bound: "mp_get_index len index False = Inr i \<Longrightarrow> i < len"
  by (auto simp: mp_get_index_def Let_def split: option.splits if_splits)

lemma mp_get_index_slice:
  "mp_get_index len (Some i) True = Inr (nat (max 0 (min (int len) (if i < 0 then i + int len else i))))"
  by (auto simp: mp_get_index_def Let_def)

lemma mp_get_index_slice_bound: "mp_get_index len index True = Inr i \<Longrightarrow> i \<le> len"
  by (auto simp: mp_get_index_def Let_def split: option.splits if_splits)

text \<open>
  The items that a slice selects, from the language reference: those with index \<open>i + n * k\<close> for
  \<open>0 \<le> n < (j - i) / k\<close>, where negative \<open>i\<close> and \<open>j\<close> count from the end, both are cut at the
  ends of the sequence, and omitted ones stand for the ends.
\<close>

definition py_limit :: "slice_part \<Rightarrow> int \<Rightarrow> int \<Rightarrow> int \<Rightarrow> int \<Rightarrow> int" where
  "py_limit p dflt len lo hi =
     (case p of Int_part i \<Rightarrow> max lo (min hi (if i < 0 then i + len else i)) | _ \<Rightarrow> dflt)"

definition py_range :: "int \<Rightarrow> int \<Rightarrow> int \<Rightarrow> int list" where
  "py_range i j k = map (\<lambda>n. i + int n * k) [0..<nat (if k > 0 then (j - i + k - 1) div k else (i - j - k - 1) div - k)]"

definition py_slice :: "slice_part \<Rightarrow> slice_part \<Rightarrow> int \<Rightarrow> int \<Rightarrow> int list" where
  "py_slice a b k len =
     (if k > 0 then py_range (py_limit a 0 len 0 len) (py_limit b len len 0 len) k
      else py_range (py_limit a (len - 1) len (- 1) (len - 1)) (py_limit b (- 1) len (- 1) (len - 1)) k)"

lemma py_range_Nil: "k > 0 \<and> j \<le> i \<or> k < 0 \<and> i \<le> j \<Longrightarrow> py_range i j k = []"
proof -
  have "(j - i + k - 1) div k \<le> 0" if "k > 0" "j \<le> i" using that zdiv_mono1 [of "j - i + k - 1" "k - 1" k] by simp
  moreover have "(i - j - k - 1) div - k \<le> 0" if "k < 0" "i \<le> j"
    using that zdiv_mono1 [of "i - j - k - 1" "- k - 1" "- k"] by simp
  ultimately show "k > 0 \<and> j \<le> i \<or> k < 0 \<and> i \<le> j \<Longrightarrow> py_range i j k = []"
    by (auto simp: py_range_def)
qed

lemma py_range_Cons:
  assumes "k > 0 \<and> i < j \<or> k < 0 \<and> j < i"
  shows "py_range i j k = i # py_range (i + k) j k"
proof -
  define c where "c i = (if k > 0 then (j - i + k - 1) div k else (i - j - k - 1) div - k)" for i
  have "c i = c (i + k) + 1 \<and> 0 \<le> c (i + k)"
  proof (cases "k > 0")
    case True
    have eq: "j - i + k - 1 = (j - (i + k) + k - 1) + k" by simp
    have "c i = c (i + k) + 1" using True div_add_self2 [of k "j - (i + k) + k - 1"] unfolding c_def eq by simp
    moreover have "0 \<le> c (i + k)" using True assms by (simp add: c_def pos_imp_zdiv_nonneg_iff)
    ultimately show ?thesis by simp
  next
    case False
    then have k: "- k > 0" using assms by auto
    have eq: "i - j - k - 1 = (i + k - j - k - 1) + - k" by simp
    have "c i = c (i + k) + 1" using k div_add_self2 [of "- k" "i + k - j - k - 1"] unfolding c_def eq by simp
    moreover have "0 \<le> c (i + k)" using k assms pos_imp_zdiv_nonneg_iff [OF k, of "i + k - j - k - 1"] by (simp add: c_def)
    ultimately show ?thesis by simp
  qed
  then have "nat (c i) = Suc (nat (c (i + k)))" by auto
  moreover have "py_range x j k = map (\<lambda>n. x + int n * k) [0..<nat (c x)]" for x
    by (simp add: py_range_def c_def)
  ultimately show ?thesis by (simp add: map_upt_Suc algebra_simps del: upt_Suc)
qed

lemma slice_limit_ok:
  "p \<noteq> Other_part \<Longrightarrow> lo \<le> hi \<Longrightarrow> slice_limit p dflt len lo hi = Inr (py_limit p dflt len lo hi)"
  by (auto simp: slice_limit_def py_limit_def mp_obj_get_int_def split: slice_part.splits)

definition py_slice_of :: "mp_obj_slice \<Rightarrow> int \<Rightarrow> seq_error + int list" where
  "py_slice_of sl len =
     (if sl_step sl = Other_part then Inl TypeError
      else if sl_step sl = Int_part 0 then Inl ValueError
      else if sl_start sl = Other_part \<or> sl_stop sl = Other_part then Inl TypeError
      else Inr (py_slice (sl_start sl) (sl_stop sl) (case sl_step sl of Int_part k \<Rightarrow> k | _ \<Rightarrow> 1) len))"

lemma py_limit_bounds:
  "lo \<le> hi \<Longrightarrow> lo \<le> dflt \<Longrightarrow> dflt \<le> hi \<Longrightarrow> lo \<le> py_limit p dflt len lo hi \<and> py_limit p dflt len lo hi \<le> hi"
  by (auto simp: py_limit_def split: slice_part.splits)

lemma slice_indices_correct:
  "0 \<le> len \<Longrightarrow> mp_obj_slice_indices sl len =
     (if sl_step sl = Other_part then Inl TypeError
      else if sl_step sl = Int_part 0 then Inl ValueError
      else if sl_start sl = Other_part \<or> sl_stop sl = Other_part then Inl TypeError
      else let k = (case sl_step sl of Int_part k \<Rightarrow> k | _ \<Rightarrow> 1) in
        if k > 0 then Inr \<lparr>bs_start = py_limit (sl_start sl) 0 len 0 len, bs_stop = py_limit (sl_stop sl) len len 0 len, bs_step = k\<rparr>
        else Inr \<lparr>bs_start = py_limit (sl_start sl) (len - 1) len (- 1) (len - 1),
                  bs_stop = py_limit (sl_stop sl) (- 1) len (- 1) (len - 1), bs_step = k\<rparr>)"
proof -
  assume len: "0 \<le> len"
  have other: "slice_limit Other_part d l lo hi = Inl TypeError" for d l lo hi
    by (simp add: slice_limit_def mp_obj_get_int_def)
  show ?thesis
    unfolding mp_obj_slice_indices_def mp_obj_get_int_def
    by (cases "sl_start sl = Other_part"; cases "sl_stop sl = Other_part"; cases "sl_step sl")
      (use len in \<open>simp_all add: other slice_limit_ok Let_def\<close>)
qed

text \<open>The bounds that the fast test hands on are safe, and describe the items the slice selects.\<close>

lemma fast_slice_correct:
  "case mp_seq_get_fast_slice_indexes len sl of
     Inl e \<Rightarrow> py_slice_of sl (int len) = Inl e
   | Inr (fast, b) \<Rightarrow>
       fast = (bs_step b = 1) \<and> bs_step b \<noteq> 0
       \<and> (bs_step b > 0 \<longrightarrow> 0 \<le> bs_start b \<and> bs_start b \<le> bs_stop b \<and> bs_stop b \<le> int len
            \<and> py_slice_of sl (int len) = Inr (py_range (bs_start b) (bs_stop b) (bs_step b)))
       \<and> (bs_step b < 0 \<longrightarrow> - 1 \<le> bs_start b \<and> bs_start b < int len \<and> 0 \<le> bs_stop b
            \<and> py_slice_of sl (int len) = Inr (py_range (bs_start b) (bs_stop b - 1) (bs_step b)))"
proof (cases "sl_step sl = Other_part \<or> sl_step sl = Int_part 0 \<or> sl_start sl = Other_part \<or> sl_stop sl = Other_part")
  case True
  then show ?thesis
    unfolding mp_seq_get_fast_slice_indexes_def slice_indices_correct [OF of_nat_0_le_iff] py_slice_of_def
    by (cases "sl_step sl = Other_part"; cases "sl_step sl = Int_part 0"; simp)
next
  case False
  define k where "k = (case sl_step sl of Int_part k \<Rightarrow> k | _ \<Rightarrow> 1)"
  have k: "k \<noteq> 0" using False by (auto simp: k_def split: slice_part.splits)
  show ?thesis
  proof (cases "k > 0")
    case True
    define i j where "i = py_limit (sl_start sl) 0 (int len) 0 (int len)" and "j = py_limit (sl_stop sl) (int len) (int len) 0 (int len)"
    have ij: "0 \<le> i" "i \<le> int len" "0 \<le> j" "j \<le> int len"
      using py_limit_bounds [of 0 "int len" 0 "sl_start sl" "int len"]
        py_limit_bounds [of 0 "int len" "int len" "sl_stop sl" "int len"] by (simp_all add: i_def j_def)
    have ix: "mp_obj_slice_indices sl (int len) = Inr \<lparr>bs_start = i, bs_stop = j, bs_step = k\<rparr>"
      using False True unfolding slice_indices_correct [OF of_nat_0_le_iff] Let_def k_def [symmetric] i_def j_def by simp
    have fast: "mp_seq_get_fast_slice_indexes len sl = Inr (k = 1, \<lparr>bs_start = i, bs_stop = max i j, bs_step = k\<rparr>)"
      using True by (simp add: mp_seq_get_fast_slice_indexes_def ix Let_def max_def)
    have "py_slice_of sl (int len) = Inr (py_range i j k)"
      using False True unfolding py_slice_of_def py_slice_def k_def [symmetric] i_def j_def by simp
    moreover have "py_range i j k = py_range i (max i j) k"
      using True py_range_Nil [of k j i] py_range_Nil [of k i i] by (cases "j \<le> i") (auto simp: max_def)
    ultimately show ?thesis unfolding fast using True ij by simp
  next
    case neg: False
    define i j where "i = py_limit (sl_start sl) (int len - 1) (int len) (- 1) (int len - 1)"
      and "j = py_limit (sl_stop sl) (- 1) (int len) (- 1) (int len - 1)"
    have ij: "- 1 \<le> i" "i < int len" "- 1 \<le> j" "j < int len"
      using py_limit_bounds [of "- 1" "int len - 1" "int len - 1" "sl_start sl" "int len"]
        py_limit_bounds [of "- 1" "int len - 1" "- 1" "sl_stop sl" "int len"] by (simp_all add: i_def j_def)
    have ix: "mp_obj_slice_indices sl (int len) = Inr \<lparr>bs_start = i, bs_stop = j, bs_step = k\<rparr>"
      using False neg unfolding slice_indices_correct [OF of_nat_0_le_iff] Let_def k_def [symmetric] i_def j_def by simp
    define j' where "j' = (if i < j + 1 then i + 1 else j + 1)"
    have j': "0 \<le> j'" using ij by (auto simp: j'_def)
    have fast: "mp_seq_get_fast_slice_indexes len sl = Inr (False, \<lparr>bs_start = i, bs_stop = j', bs_step = k\<rparr>)"
      using neg k by (simp add: mp_seq_get_fast_slice_indexes_def ix Let_def j'_def)
    have "py_range i j k = py_range i (j' - 1) k"
      using neg k py_range_Nil [of k j i] py_range_Nil [of k i i] by (auto simp: j'_def)
    then have "py_slice_of sl (int len) = Inr (py_range i (j' - 1) k)"
      using False neg unfolding py_slice_of_def py_slice_def k_def [symmetric] i_def j_def by simp
    then show ?thesis unfolding fast using neg k ij(1,2) j' by simp
  qed
qed

section \<open>The order of sequences\<close>

text \<open>
  Objects are compared by their values: \<open>equal\<close> holds for equal values, and the comparisons are those of a
  linear order of the values.
\<close>

definition ordered_by :: "('o \<Rightarrow> 'v::linorder) \<Rightarrow> ('o \<Rightarrow> 'o \<Rightarrow> bool) \<Rightarrow> (binary_op \<Rightarrow> 'o \<Rightarrow> 'o \<Rightarrow> bool) \<Rightarrow> bool" where
  "ordered_by val equal cmp \<longleftrightarrow>
     (\<forall>x y. equal x y \<longleftrightarrow> val x = val y)
     \<and> (\<forall>x y. cmp Op_more x y \<longleftrightarrow> val y < val x) \<and> (\<forall>x y. cmp Op_more_equal x y \<longleftrightarrow> val y \<le> val x)"

fun sequence_op :: "binary_op \<Rightarrow> 'v::linorder list \<Rightarrow> 'v list \<Rightarrow> bool" where
  "sequence_op Op_equal us vs = (us = vs)"
| "sequence_op Op_less us vs = ord_class.lexordp us vs"
| "sequence_op Op_less_equal us vs = (ord_class.lexordp us vs \<or> us = vs)"
| "sequence_op Op_more us vs = ord_class.lexordp vs us"
| "sequence_op Op_more_equal us vs = (ord_class.lexordp vs us \<or> us = vs)"

lemma cmp_objs_loop_equal:
  assumes "ordered_by val equal cmp"
  shows "length xs = length ys \<Longrightarrow> cmp_objs_loop equal cmp Op_equal xs ys = (if map val xs = map val ys then None else Some False)"
proof (induction xs ys rule: list_induct2)
  case (Cons x xs y ys)
  then show ?case using assms unfolding ordered_by_def by auto
qed simp

lemma tie_result_simps [simp]:
  "tie_result op (Suc m) (Suc n) = tie_result op m n"
  "tie_result op 0 (Suc n) = False"
  "tie_result op (Suc m) 0 = True"
  "tie_result op m m = (op \<noteq> Op_more)"
  by (auto simp: tie_result_def)

lemma cmp_objs_loop_more:
  assumes "ordered_by val equal cmp" "op = Op_more \<or> op = Op_more_equal"
  shows "(case cmp_objs_loop equal cmp op xs ys of Some r \<Rightarrow> r | None \<Rightarrow> tie_result op (length xs) (length ys))
    = (ord_class.lexordp (map val ys) (map val xs) \<or> op = Op_more_equal \<and> map val xs = map val ys)"
proof (induction xs arbitrary: ys)
  case Nil
  then show ?case using assms(2) by (cases ys) auto
next
  case (Cons x xs)
  have o: "equal x y = (val x = val y)" "cmp Op_more x y = (val y < val x)" "cmp Op_more_equal x y = (val y \<le> val x)" for y
    using assms(1) unfolding ordered_by_def by blast+
  show ?case
  proof (cases ys)
    case (Cons y ys')
    show ?thesis
    proof (cases "val x = val y")
      case True
      then show ?thesis using Cons.IH [of ys'] o by (simp add: Cons cong: option.case_cong)
    next
      case False
      then show ?thesis using assms(2) Cons o by auto
    qed
  qed simp
qed

lemma mp_seq_cmp_objs_correct:
  assumes "ordered_by val equal cmp"
  shows "mp_seq_cmp_objs equal cmp op xs ys = sequence_op op (map val xs) (map val ys)"
proof (cases "op = Op_equal")
  case True
  then show ?thesis using cmp_objs_loop_equal [OF assms, of xs ys] map_eq_imp_length_eq [of val xs val ys]
    by (auto simp: mp_seq_cmp_objs_def)
next
  case False
  then consider "op = Op_less" | "op = Op_less_equal" | "op = Op_more" | "op = Op_more_equal" by (cases op) auto
  then show ?thesis
    by cases (auto simp: mp_seq_cmp_objs_def cmp_objs_loop_more [OF assms] simp del: cmp_objs_loop.simps)
qed

lemma memcmp_loop_lex:
  assumes "op = Op_more \<or> op = Op_more_equal"
  shows "(let res = memcmp_loop (min n1 n2) p q m in if res < 0 then False else if res > 0 then True else tie_result op n1 n2)
    = (ord_class.lexordp (bytes_at m q n2) (bytes_at m p n1) \<or> op = Op_more_equal \<and> bytes_at m p n1 = bytes_at m q n2)"
proof (induction n1 arbitrary: n2 p q)
  case 0
  then show ?case using assms by (cases n2) (auto simp: bytes_at_Suc)
next
  case (Suc n1)
  show ?case
  proof (cases n2)
    case (Suc n2')
    show ?thesis
    proof (cases "m p = m q")
      case True
      then show ?thesis using Suc.IH [of n2' "p + 1" "q + 1"] 
        by (auto simp: Suc bytes_at_Suc Let_def split: if_splits)
    next
      case False
      then have "m q < m p \<or> m p < m q" by auto
      then show ?thesis using False assms
        by (auto simp: Suc bytes_at_Suc Let_def word_less_def word_uint_eq_iff)
    qed
  qed (simp add: bytes_at_Suc)
qed

lemma mp_seq_cmp_bytes_correct:
  "mp_seq_cmp_bytes m op p1 n1 p2 n2 = sequence_op op (bytes_at m p1 (unat n1)) (bytes_at m p2 (unat n2))"
proof (cases "op = Op_equal")
  case True
  show ?thesis
  proof (cases "n1 = n2")
    case eq: True
    then show ?thesis using True by (simp add: mp_seq_cmp_bytes_def memcmp_def memcmp_loop_0_iff)
  next
    case False
    then have "unat n1 \<noteq> unat n2" by (simp add: word_unat_eq_iff)
    then have "bytes_at m p1 (unat n1) \<noteq> bytes_at m p2 (unat n2)" by (metis length_bytes_at)
    then show ?thesis using True False by (simp add: mp_seq_cmp_bytes_def)
  qed
next
  case False
  have min: "unat (if a < b then a else b) = min (unat a) (unat b)" for a b :: u32
    by (auto simp: word_less_nat_alt)
  have more: "op' \<in> {Op_more, Op_more_equal} \<Longrightarrow>
      (let res = memcmp m d1 d2 (if l1 < l2 then l1 else l2)
       in if res < 0 then False else if res > 0 then True else tie_result op' (unat l1) (unat l2))
      = sequence_op op' (bytes_at m d1 (unat l1)) (bytes_at m d2 (unat l2))" for op' d1 d2 l1 l2
    using memcmp_loop_lex [of op' "unat l1" "unat l2" d1 d2 m] unfolding memcmp_def min by auto
  from False consider "op = Op_less" | "op = Op_less_equal" | "op = Op_more" | "op = Op_more_equal" by (cases op) auto
  then show ?thesis
    by cases (use more [of Op_more] more [of Op_more_equal] in \<open>auto simp: mp_seq_cmp_bytes_def Let_def\<close>)
qed

section \<open>Searching\<close>

lemma index_loop_correct:
  "index_loop equal items x i n =
     (case find (\<lambda>j. equal (items ! j) x) [i..<i + n] of Some j \<Rightarrow> Inr j | None \<Rightarrow> Inl ValueError)"
proof (induction n arbitrary: i)
  case (Suc n)
  have "[i..<i + Suc n] = i # [i + 1..<i + 1 + n]" by (simp add: upt_conv_Cons del: upt_Suc)
  then show ?case using Suc.IH [of "i + 1"] by simp
qed simp

lemma mp_seq_count_obj_correct: "mp_seq_count_obj equal items x = length (filter (\<lambda>y. equal y x) items)"
  by (induction items) auto

section \<open>Blocks\<close>

lemma get_cells_ok: "at + n \<le> length src \<Longrightarrow> get_cells at n src = Inr (take n (drop at src))"
  by (auto simp: get_cells_def)

lemma set_cells_ok: "at + length src \<le> length dest \<Longrightarrow> set_cells at src dest = Inr (take at dest @ src @ drop (at + length src) dest)"
  by (auto simp: set_cells_def)

lemma mp_seq_clear_ok:
  "len \<le> n \<Longrightarrow> n \<le> length start \<Longrightarrow> mp_seq_clear len n start = Inr (take len start @ replicate (n - len) None @ drop n start)"
  by (simp add: mp_seq_clear_def set_cells_ok)

lemma mp_seq_cat_ok:
  assumes "len1 \<le> length src1" "len2 \<le> length src2" "len1 + len2 \<le> length dest"
  shows "mp_seq_cat dest src1 len1 src2 len2 = Inr (take len1 src1 @ take len2 src2 @ drop (len1 + len2) dest)"
  using assms by (simp add: mp_seq_cat_def get_cells_ok set_cells_ok add.commute [of len2])

lemma seq_multiply_loop_ok:
  assumes "len \<le> length items" "at + (n_times - i) * len \<le> length dest"
  shows "seq_multiply_loop items len n_times i at dest =
    Inr (take at dest @ concat (replicate (n_times - i) (take len items)) @ drop (at + (n_times - i) * len) dest)"
  using assms
proof (induction items len n_times i at dest rule: seq_multiply_loop.induct)
  case (1 items len n_times i at dest)
  show ?case
  proof (cases "i < n_times")
    case True
    then have n: "n_times - i = Suc (n_times - (i + 1))" by simp
    define d where "d = take at dest @ take len items @ drop (at + len) dest"
    have at: "at + len \<le> length dest" using 1(3) unfolding n by simp
    have set: "set_cells at (take len items) dest = Inr d" using 1(2) at by (simp add: set_cells_ok d_def min_def)
    have ld: "length d = length dest" using 1(2) at by (simp add: d_def)
    have "seq_multiply_loop items len n_times i at dest = seq_multiply_loop items len n_times (i + 1) (at + len) d"
      using True 1(2) set by (subst seq_multiply_loop.simps) (simp add: get_cells_ok)
    also have "\<dots> = Inr (take (at + len) d @ concat (replicate (n_times - (i + 1)) (take len items))
        @ drop (at + len + (n_times - (i + 1)) * len) d)"
      by (rule 1(1) [OF True]) (use 1(2,3) ld set in \<open>simp_all add: n get_cells_ok\<close>)
    finally show ?thesis using 1(2) at unfolding n by (simp add: d_def ac_simps)
  qed (subst seq_multiply_loop.simps, simp)
qed

lemma mp_seq_multiply_ok:
  "len \<le> length items \<Longrightarrow> n_times * len \<le> length dest \<Longrightarrow>
    mp_seq_multiply items len n_times dest = Inr (concat (replicate n_times (take len items)) @ drop (n_times * len) dest)"
  by (simp add: mp_seq_multiply_def seq_multiply_loop_ok)

lemma replace_slice_no_grow_ok:
  assumes "start + length src \<le> stop" "stop \<le> n" "n \<le> length dest"
  shows "mp_seq_replace_slice_no_grow dest n start stop src =
    Inr (take start dest @ src @ take (n - stop) (drop stop dest) @ drop (start + length src + (n - stop)) dest)"
proof -
  define d where "d = take start dest @ src @ drop (start + length src) dest"
  define rest where "rest = take (n - stop) (drop stop dest)"
  have src: "length dest \<le> start \<longrightarrow> src = []" using assms by (cases src) auto
  have d: "set_cells start src dest = Inr d" "length d = length dest"
    using assms src by (auto simp: set_cells_ok d_def min_def)
  have "drop stop d = drop stop dest" using assms src by (simp add: d_def min_def)
  then have "get_cells stop (n - stop) d = Inr rest"
    using assms d(2) by (simp add: get_cells_ok rest_def)
  moreover have "length rest = n - stop" using assms by (simp add: rest_def)
  then have "set_cells (start + length src) rest d = Inr (take (start + length src) d @ rest @ drop (start + length src + (n - stop)) d)"
    using assms d(2) by (simp add: set_cells_ok)
  moreover have ends: "take (start + length src) d = take start dest @ src"
      "drop (start + length src + (n - stop)) d = drop (start + length src + (n - stop)) dest"
    using assms src by (auto simp: d_def min_def ac_simps)
  ultimately show ?thesis
    using assms d(1) ends by (simp add: mp_seq_replace_slice_no_grow_def rest_def)
qed

lemma replace_slice_grow_ok:
  assumes "start \<le> stop" "stop \<le> n" "n + adj \<le> length dest" "start + length src = stop + adj"
  shows "mp_seq_replace_slice_grow_inplace dest n start stop src adj =
    Inr (take start dest @ src @ take (n - stop) (drop stop dest) @ drop (n + adj) dest)"
proof -
  define rest where "rest = take (n - stop) (drop stop dest)"
  define d where "d = take (stop + adj) dest @ rest @ drop (n + adj) dest"
  have "get_cells stop (n + adj - (start + length src)) dest = Inr rest"
    using assms by (simp add: get_cells_ok rest_def)
  moreover have lr: "length rest = n - stop" using assms by (simp add: rest_def)
  then have "set_cells (start + length src) rest dest = Inr d"
    using assms by (simp add: set_cells_ok d_def ac_simps)
  moreover have "set_cells start src d = Inr (take start d @ src @ drop (start + length src) d)"
    using assms lr by (intro set_cells_ok) (simp add: d_def)
  ultimately show ?thesis
    using assms by (simp add: mp_seq_replace_slice_grow_inplace_def d_def rest_def min_def)
qed

end
