(* ===== verification/MpSort.thy ===== *)
theory MpSort
  imports Prelude "HOL-Library.Multiset"
begin

text \<open>
  \<open>mp_quicksort\<close> of \<open>python/py/objlist.c\<close>: sorting a segment of an array in place.

  Pointers into the array are integers, since \<open>head - 1\<close> may point before it.  \<open>key\<close> is the key function,
  the identity when there is none, and \<open>before x y\<close> says that \<open>mp_binary_op(MP_BINARY_OP_LESS, x, y)\<close>
  gave \<open>binop_less_result\<close>: that \<open>x < y\<close>, or for a reversed sort that it does not hold.
\<close>

section \<open>The code\<close>

text \<open>\<open>do { ++h; } while (h < t && \<dots>)\<close> and \<open>do { --t; } while (h < t && \<dots>)\<close>.\<close>

function scan_up :: "('a \<Rightarrow> bool) \<Rightarrow> 'a list \<Rightarrow> int \<Rightarrow> int \<Rightarrow> int" where
  "scan_up p xs h t = (if h + 1 < t \<and> p (xs ! nat (h + 1)) then scan_up p xs (h + 1) t else h + 1)"
  by auto

termination
  by (relation "measure (\<lambda>(p, xs, h, t). nat (t - h))") auto

function scan_down :: "('a \<Rightarrow> bool) \<Rightarrow> 'a list \<Rightarrow> int \<Rightarrow> int \<Rightarrow> int" where
  "scan_down p xs h t = (if h < t - 1 \<and> p (xs ! nat (t - 1)) then scan_down p xs h (t - 1) else t - 1)"
  by auto

termination
  by (relation "measure (\<lambda>(p, xs, h, t). nat (t - h))") auto

declare scan_up.simps [simp del] scan_down.simps [simp del]

definition swap :: "'a list \<Rightarrow> int \<Rightarrow> int \<Rightarrow> 'a list" where
  "swap xs i j = xs[nat i := xs ! nat j, nat j := xs ! nat i]"

lemma scan_up_bounds: "h < t \<Longrightarrow> h < scan_up p xs h t \<and> scan_up p xs h t \<le> t"
proof (induction p xs h t rule: scan_up.induct)
  case (1 p xs h t)
  then show ?case by (subst (1 2) scan_up.simps) auto
qed

lemma scan_down_bounds: "h \<le> t \<Longrightarrow> scan_down p xs h t < t \<and> h - 1 \<le> scan_down p xs h t"
proof (induction p xs h t rule: scan_down.induct)
  case (1 p xs h t)
  then show ?case by (subst (1 2) scan_down.simps) auto
qed

lemma partition_step_less:
  assumes "scan_up p xs h t < scan_down q xs (scan_up p xs h t) t"
  shows "h < t \<and> nat (scan_down q xs (scan_up p xs h t) t - scan_up p xs h t) < nat (t - h)"
proof -
  have "h < t"
  proof (rule ccontr)
    assume "\<not> h < t"
    then have "scan_up p xs h t = h + 1" by (subst scan_up.simps) simp
    moreover from this \<open>\<not> h < t\<close> have "scan_down q xs (h + 1) t = t - 1" by (subst scan_down.simps) simp
    ultimately show False using assms \<open>\<not> h < t\<close> by simp
  qed
  then show ?thesis
    using assms scan_up_bounds [of h t p xs] scan_down_bounds [of "scan_up p xs h t" t q xs] by auto
qed

text \<open>The loop \<open>for (;;)\<close> around the pivot \<open>v\<close>.\<close>

function partition_loop :: "('a \<Rightarrow> 'b) \<Rightarrow> ('b \<Rightarrow> 'b \<Rightarrow> bool) \<Rightarrow> 'b \<Rightarrow> 'a list \<Rightarrow> int \<Rightarrow> int \<Rightarrow> int \<times> int \<times> 'a list" where
  "partition_loop key before v xs h t =
     (let h' = scan_up (\<lambda>x. before (key x) v) xs h t;
          t' = scan_down (\<lambda>x. before v (key x)) xs h' t
      in if t' \<le> h' then (h', t', xs)
         else partition_loop key before v (swap xs h' t') h' t')"
  by pat_completeness auto

termination
  by (relation "measure (\<lambda>(key, before, v, xs, h, t). nat (t - h))")
    (auto simp: not_le dest: partition_step_less)

declare partition_loop.simps [simp del]

lemma partition_bounds:
  "h < t \<Longrightarrow> partition_loop key before v xs h t = (h', t', ys)
    \<Longrightarrow> h < h' \<and> h' \<le> t \<and> t' < t \<and> (t' = h' \<or> t' = h' - 1)"
proof (induction key before v xs h t arbitrary: h' t' rule: partition_loop.induct)
  case (1 key before v xs h t)
  let ?h = "scan_up (\<lambda>x. before (key x) v) xs h t"
  let ?t = "scan_down (\<lambda>x. before v (key x)) xs ?h t"
  have b: "h < ?h" "?h \<le> t" "?t < t" "?h - 1 \<le> ?t"
    using scan_up_bounds [OF 1(2)] scan_down_bounds [of ?h t "\<lambda>x. before v (key x)" xs] by auto
  show ?case
  proof (cases "?t \<le> ?h")
    case True
    then show ?thesis using 1(3) b by (subst (asm) partition_loop.simps) (auto simp: Let_def)
  next
    case False
    then show ?thesis
      using 1(1) [OF refl refl False] 1(3) b by (subst (asm) (2) partition_loop.simps) (fastforce simp: Let_def)
  qed
qed

lemma quicksort_parts:
  "head < tail \<Longrightarrow> (h, t, ys) = partition_loop key before v xs (head - 1) tail \<Longrightarrow>
     head \<le> h \<and> h \<le> tail \<and> head - 1 \<le> t \<and> t < tail \<and> (t = h \<or> t = h - 1)"
  using partition_bounds [of "head - 1" tail key before v xs h t ys] by auto

text \<open>
  \<open>mp_quicksort\<close>: the recursive call on the smaller part first, then the loop goes on with the other.
\<close>

function mp_quicksort :: "('a \<Rightarrow> 'b) \<Rightarrow> ('b \<Rightarrow> 'b \<Rightarrow> bool) \<Rightarrow> 'a list \<Rightarrow> int \<Rightarrow> int \<Rightarrow> 'a list" where
  "mp_quicksort key before xs head tail =
     (if head < tail then
        let v = key (xs ! nat tail);
            (h, t, ys) = partition_loop key before v xs (head - 1) tail;
            zs = swap ys h tail
        in if t - head < tail - h - 1 then mp_quicksort key before (mp_quicksort key before zs head t) (h + 1) tail
           else mp_quicksort key before (mp_quicksort key before zs (h + 1) tail) head t
      else xs)"
  by pat_completeness auto

termination
proof (relation "measure (\<lambda>(key, before, xs, head, tail). nat (tail - head + 1))", goal_cases)
  case (2 key before xs head tail v r h y t ys zs)
  then show ?case using quicksort_parts [of head tail h t ys key before v xs] by simp
next
  case (3 key before xs head tail v r h y t ys zs)
  then show ?case using quicksort_parts [of head tail h t ys key before v xs] by simp
next
  case (4 key before xs head tail v r h y t ys zs)
  then show ?case using quicksort_parts [of head tail h t ys key before v xs] by simp
next
  case (5 key before xs head tail v r h y t ys zs)
  then show ?case using quicksort_parts [of head tail h t ys key before v xs] by simp
qed simp

declare mp_quicksort.simps [simp del]

text \<open>How deep the recursive calls nest; the turns of the loop stay in one frame.\<close>

function quicksort_depth :: "('a \<Rightarrow> 'b) \<Rightarrow> ('b \<Rightarrow> 'b \<Rightarrow> bool) \<Rightarrow> 'a list \<Rightarrow> int \<Rightarrow> int \<Rightarrow> nat" where
  "quicksort_depth key before xs head tail =
     (if head < tail then
        let v = key (xs ! nat tail);
            (h, t, ys) = partition_loop key before v xs (head - 1) tail;
            zs = swap ys h tail
        in if t - head < tail - h - 1
           then max (1 + quicksort_depth key before zs head t)
                  (quicksort_depth key before (mp_quicksort key before zs head t) (h + 1) tail)
           else max (1 + quicksort_depth key before zs (h + 1) tail)
                  (quicksort_depth key before (mp_quicksort key before zs (h + 1) tail) head t)
      else 0)"
  by pat_completeness auto

termination
proof (relation "measure (\<lambda>(key, before, xs, head, tail). nat (tail - head + 1))", goal_cases)
  case (2 key before xs head tail v r h y t ys zs)
  then show ?case using quicksort_parts [of head tail h t ys key before v xs] by simp
next
  case (3 key before xs head tail v r h y t ys zs)
  then show ?case using quicksort_parts [of head tail h t ys key before v xs] by simp
next
  case (4 key before xs head tail v r h y t ys zs)
  then show ?case using quicksort_parts [of head tail h t ys key before v xs] by simp
next
  case (5 key before xs head tail v r h y t ys zs)
  then show ?case using quicksort_parts [of head tail h t ys key before v xs] by simp
qed simp

declare quicksort_depth.simps [simp del]

section \<open>Rearranging a segment\<close>

definition rearranged :: "int \<Rightarrow> int \<Rightarrow> 'a list \<Rightarrow> 'a list \<Rightarrow> bool" where
  "rearranged a b xs ys \<longleftrightarrow>
     mset ys = mset xs \<and> length ys = length xs
     \<and> (\<forall>i<length xs. \<not> (a \<le> int i \<and> int i \<le> b) \<longrightarrow> ys ! i = xs ! i)
     \<and> (\<forall>i<length xs. a \<le> int i \<longrightarrow> int i \<le> b \<longrightarrow> (\<exists>j<length xs. a \<le> int j \<and> int j \<le> b \<and> ys ! i = xs ! j))"

lemma rearranged_refl: "rearranged a b xs xs"
  by (auto simp: rearranged_def)

lemma rearranged_trans: "rearranged a b xs ys \<Longrightarrow> rearranged a b ys zs \<Longrightarrow> rearranged a b xs zs"
proof -
  assume r: "rearranged a b xs ys" "rearranged a b ys zs"
  then have len: "length ys = length xs" by (simp add: rearranged_def)
  have "\<exists>k<length xs. a \<le> int k \<and> int k \<le> b \<and> zs ! i = xs ! k"
    if i: "i < length xs" "a \<le> int i" "int i \<le> b" for i
  proof -
    obtain j where "j < length xs" "a \<le> int j" "int j \<le> b" "zs ! i = ys ! j"
      using r(2) i unfolding rearranged_def len by blast
    then show ?thesis using r(1) unfolding rearranged_def by metis
  qed
  then show ?thesis using r unfolding rearranged_def len by simp
qed

lemma rearranged_mono: "rearranged a b xs ys \<Longrightarrow> a' \<le> a \<Longrightarrow> b \<le> b' \<Longrightarrow> rearranged a' b' xs ys"
proof -
  assume r: "rearranged a b xs ys" and le: "a' \<le> a" "b \<le> b'"
  have "\<exists>j<length xs. a' \<le> int j \<and> int j \<le> b' \<and> ys ! i = xs ! j"
    if i: "i < length xs" "a' \<le> int i" "int i \<le> b'" for i
  proof (cases "a \<le> int i \<and> int i \<le> b")
    case True
    then obtain j where "j < length xs" "a \<le> int j" "int j \<le> b" "ys ! i = xs ! j"
      using r i(1) unfolding rearranged_def by blast
    then show ?thesis using le by (intro exI [of _ j]) auto
  next
    case False
    then have "ys ! i = xs ! i" using r i(1) unfolding rearranged_def by blast
    then show ?thesis using i by blast
  qed
  moreover have "ys ! i = xs ! i" if "i < length xs" "\<not> (a' \<le> int i \<and> int i \<le> b')" for i
    using that r le unfolding rearranged_def by (metis order_trans)
  ultimately show ?thesis using r unfolding rearranged_def by blast
qed

lemma rearranged_swap:
  assumes "a \<le> i" "i \<le> b" "a \<le> j" "j \<le> b" "0 \<le> a" "b < int (length xs)"
  shows "rearranged a b xs (swap xs i j)"
proof -
  have ij: "nat i < length xs" "nat j < length xs" using assms by auto
  have "mset (swap xs i j) = mset xs" unfolding swap_def by (rule mset_swap [OF ij(2,1)])
  moreover have "swap xs i j ! k = xs ! k" if k: "k < length xs" "\<not> (a \<le> int k \<and> int k \<le> b)" for k
  proof -
    have "int k \<noteq> i" "int k \<noteq> j" using k assms by auto
    then have "k \<noteq> nat i" "k \<noteq> nat j" using assms by auto
    then show ?thesis by (simp add: swap_def)
  qed
  moreover have "\<exists>l<length xs. a \<le> int l \<and> int l \<le> b \<and> swap xs i j ! k = xs ! l"
    if k: "k < length xs" "a \<le> int k" "int k \<le> b" for k
  proof -
    have "swap xs i j ! k = (if k = nat j then xs ! nat i else if k = nat i then xs ! nat j else xs ! k)"
      using k(1) ij by (simp add: swap_def nth_list_update)
    then show ?thesis using k assms ij
      by (cases "k = nat j"; cases "k = nat i") (auto intro: exI [of _ "nat i"] exI [of _ "nat j"] exI [of _ k])
  qed
  ultimately show ?thesis by (simp add: rearranged_def swap_def)
qed

lemma rearranged_length: "rearranged a b xs ys \<Longrightarrow> length ys = length xs"
  by (simp add: rearranged_def)

lemma rearranged_outside: "rearranged a b xs ys \<Longrightarrow> i < length xs \<Longrightarrow> int i < a \<or> b < int i \<Longrightarrow> ys ! i = xs ! i"
  unfolding rearranged_def by auto

lemma rearranged_all:
  assumes "rearranged a b xs ys" "\<And>i. i < length xs \<Longrightarrow> a \<le> int i \<Longrightarrow> int i \<le> b \<Longrightarrow> P (xs ! i)"
    and "i < length xs" "a \<le> int i" "int i \<le> b"
  shows "P (ys ! i)"
  using assms unfolding rearranged_def by metis

section \<open>The partition\<close>

lemma scan_up_skipped:
  "h < i \<Longrightarrow> i < scan_up p xs h t \<Longrightarrow> p (xs ! nat i)"
proof (induction p xs h t rule: scan_up.induct)
  case (1 p xs h t)
  then show ?case by (subst (asm) (2) scan_up.simps) (cases "i = h + 1"; auto split: if_splits)
qed

lemma scan_up_stop: "scan_up p xs h t < t \<Longrightarrow> \<not> p (xs ! nat (scan_up p xs h t))"
proof (induction p xs h t rule: scan_up.induct)
  case (1 p xs h t)
  then show ?case by (subst scan_up.simps, subst (asm) (2) scan_up.simps) (auto split: if_splits)
qed

lemma scan_down_skipped:
  "i < t \<Longrightarrow> scan_down p xs h t < i \<Longrightarrow> p (xs ! nat i)"
proof (induction p xs h t rule: scan_down.induct)
  case (1 p xs h t)
  then show ?case by (subst (asm) (2) scan_down.simps) (cases "i = t - 1"; auto split: if_splits)
qed

lemma scan_down_stop: "h < scan_down p xs h t \<Longrightarrow> \<not> p (xs ! nat (scan_down p xs h t))"
proof (induction p xs h t rule: scan_down.induct)
  case (1 p xs h t)
  then show ?case by (subst scan_down.simps, subst (asm) (2) scan_down.simps) (auto split: if_splits)
qed

text \<open>
  What the pivot loop establishes, for a relation that \<open>before\<close> decides: everything before \<open>h\<close> is at most the
  pivot, everything from \<open>h\<close> on is at least the pivot.
\<close>

definition decides :: "('b \<Rightarrow> 'b \<Rightarrow> bool) \<Rightarrow> ('b \<Rightarrow> 'b \<Rightarrow> bool) \<Rightarrow> bool" where
  "decides before le \<longleftrightarrow> (\<forall>x y. before x y \<longrightarrow> le x y) \<and> (\<forall>x y. \<not> before x y \<longrightarrow> le y x)
     \<and> (\<forall>x. le x x) \<and> (\<forall>x y z. le x y \<longrightarrow> le y z \<longrightarrow> le x z)"

lemma decidesD:
  assumes "decides before le"
  shows "before x y \<Longrightarrow> le x y" "\<not> before x y \<Longrightarrow> le y x" "le x x" "le x y \<Longrightarrow> le y z \<Longrightarrow> le x z"
  using assms unfolding decides_def by blast+

lemma swap_nth:
  assumes "0 \<le> i" "0 \<le> j" "0 \<le> k" "i < int (length xs)" "j < int (length xs)" "k < int (length xs)"
  shows "swap xs i j ! nat k = (if k = i then xs ! nat j else if k = j then xs ! nat i else xs ! nat k)"
  using assms by (auto simp: swap_def nth_list_update eq_nat_nat_iff)

lemma partition_correct:
  assumes "decides before le" "0 \<le> a" "a - 1 \<le> h" "h < t" "t \<le> b" "b < int (length xs)"
    and "\<forall>i. a \<le> i \<longrightarrow> i \<le> h \<longrightarrow> le (key (xs ! nat i)) v" "\<forall>i. t \<le> i \<longrightarrow> i < b \<longrightarrow> le v (key (xs ! nat i))"
    and "partition_loop key before v xs h t = (h', t', ys)"
  shows "rearranged a (b - 1) xs ys
      \<and> (\<forall>i. a \<le> i \<longrightarrow> i < h' \<longrightarrow> le (key (ys ! nat i)) v) \<and> (\<forall>i. h' \<le> i \<longrightarrow> i < b \<longrightarrow> le v (key (ys ! nat i)))"
  using assms
proof (induction key before v xs h t arbitrary: h' t' ys rule: partition_loop.induct)
  case (1 key before v xs h t)
  note d = decidesD [OF 1(2)]
  let ?p = "\<lambda>x. before (key x) v" and ?q = "\<lambda>x. before v (key x)"
  define h1 where "h1 = scan_up ?p xs h t"
  define t1 where "t1 = scan_down ?q xs h1 t"
  have bounds: "h < h1" "h1 \<le> t" "t1 < t" "h1 - 1 \<le> t1"
    using scan_up_bounds [OF 1(5), of ?p xs] scan_down_bounds [of h1 t ?q xs] by (auto simp: h1_def t1_def)
  have left: "le (key (xs ! nat i)) v" if i: "a \<le> i" "i < h1" for i
  proof (cases "i \<le> h")
    case False
    then have "before (key (xs ! nat i)) v" using scan_up_skipped [of h i ?p xs t] i(2) by (simp add: h1_def)
    then show ?thesis by (rule d(1))
  qed (use 1(8) i in blast)
  have right: "le v (key (xs ! nat i))" if i: "t1 < i" "i < b" for i
  proof (cases "t \<le> i")
    case False
    then have "before v (key (xs ! nat i))" using scan_down_skipped [of i t ?q xs h1] i(1) by (simp add: t1_def)
    then show ?thesis by (rule d(1))
  qed (use 1(9) i in blast)
  have up: "le v (key (xs ! nat h1))" if "h1 < t"
    using scan_up_stop [of ?p xs h t] that by (intro d(2)) (simp add: h1_def)
  have unfold: "partition_loop key before v xs h t =
      (if t1 \<le> h1 then (h1, t1, xs) else partition_loop key before v (swap xs h1 t1) h1 t1)"
    by (subst partition_loop.simps) (simp add: Let_def h1_def t1_def)
  show ?case
  proof (cases "t1 \<le> h1")
    case True
    then have eq: "h' = h1" "ys = xs" using 1(10) unfold by auto
    have "le v (key (xs ! nat i))" if i: "h1 \<le> i" "i < b" for i
    proof (cases "t1 < i")
      case True
      then show ?thesis using right i(2) by blast
    next
      case False
      then have "i = h1" "h1 < t" using i True bounds by auto
      then show ?thesis using up by simp
    qed
    then show ?thesis using left eq by (simp add: rearranged_refl)
  next
    case False
    let ?ys = "swap xs h1 t1"
    have range: "0 \<le> h1" "h1 < int (length xs)" "0 \<le> t1" "t1 < int (length xs)" using 1(3,4,6,7) bounds False by auto
    have nth: "?ys ! nat i = (if i = h1 then xs ! nat t1 else if i = t1 then xs ! nat h1 else xs ! nat i)"
      if "0 \<le> i" "i < int (length xs)" for i using swap_nth [of h1 t1 i xs] range that by simp
    have down: "le (key (xs ! nat t1)) v"
      using scan_down_stop [of h1 ?q xs t] False by (intro d(2)) (simp add: t1_def)
    have "\<forall>i. a \<le> i \<longrightarrow> i \<le> h1 \<longrightarrow> le (key (?ys ! nat i)) v"
      using nth left down 1(3) range(2) False by auto
    moreover have "\<forall>i. t1 \<le> i \<longrightarrow> i < b \<longrightarrow> le v (key (?ys ! nat i))"
      using nth right up 1(7) range False bounds by auto
    moreover have "b < int (length ?ys)" using 1(7) by (simp add: swap_def)
    moreover have "partition_loop key before v ?ys h1 t1 = (h', t', ys)" using 1(10) unfold False by simp
    ultimately have IH: "rearranged a (b - 1) ?ys ys \<and> (\<forall>i. a \<le> i \<longrightarrow> i < h' \<longrightarrow> le (key (ys ! nat i)) v)
        \<and> (\<forall>i. h' \<le> i \<longrightarrow> i < b \<longrightarrow> le v (key (ys ! nat i)))"
      using 1(1) [OF h1_def t1_def False 1(2,3), of h' t' ys] bounds 1(4-6) False by simp
    have "rearranged a (b - 1) xs ?ys"
      using 1(3,4,6,7) bounds False by (intro rearranged_swap) auto
    then show ?thesis using IH rearranged_trans by blast
  qed
qed

section \<open>The sort\<close>

definition sorted_part :: "('b \<Rightarrow> 'b \<Rightarrow> bool) \<Rightarrow> ('a \<Rightarrow> 'b) \<Rightarrow> 'a list \<Rightarrow> int \<Rightarrow> int \<Rightarrow> bool" where
  "sorted_part le key xs a b \<longleftrightarrow>
     (\<forall>i j. a \<le> i \<longrightarrow> i \<le> j \<longrightarrow> j \<le> b \<longrightarrow> le (key (xs ! nat i)) (key (xs ! nat j)))"

text \<open>One turn of the loop up to the recursive call.\<close>

lemma quicksort_turn:
  assumes "decides before le" "0 \<le> head" "head < tail" "tail < int (length xs)"
    and "partition_loop key before (key (xs ! nat tail)) xs (head - 1) tail = (h, t, ys)"
  defines "v \<equiv> key (xs ! nat tail)" and "zs \<equiv> swap ys h tail"
  shows "head \<le> h \<and> h \<le> tail \<and> head - 1 \<le> t \<and> t < tail \<and> (t = h \<or> t = h - 1)"
    and "rearranged head tail xs zs"
    and "\<forall>i. head \<le> i \<longrightarrow> i \<le> h \<longrightarrow> le (key (zs ! nat i)) v"
    and "\<forall>i. h \<le> i \<longrightarrow> i \<le> tail \<longrightarrow> le v (key (zs ! nat i))"
proof -
  note d = decidesD [OF assms(1)]
  have part: "rearranged head (tail - 1) xs ys \<and> (\<forall>i. head \<le> i \<longrightarrow> i < h \<longrightarrow> le (key (ys ! nat i)) v)
      \<and> (\<forall>i. h \<le> i \<longrightarrow> i < tail \<longrightarrow> le v (key (ys ! nat i)))"
    using partition_correct [OF assms(1,2), of "head - 1" tail tail xs key v h t ys] assms(3,4,5)
    by (simp add: v_def)
  show parts: "head \<le> h \<and> h \<le> tail \<and> head - 1 \<le> t \<and> t < tail \<and> (t = h \<or> t = h - 1)"
    using quicksort_parts [OF assms(3) assms(5) [symmetric]] .
  have len: "length ys = length xs" using part rearranged_length by blast
  have sw: "rearranged head tail ys zs"
    unfolding zs_def using parts assms(2-4) len by (intro rearranged_swap) auto
  show "rearranged head tail xs zs"
    using rearranged_trans [OF rearranged_mono [OF conjunct1 [OF part], of head tail] sw] by simp
  have tail: "ys ! nat tail = xs ! nat tail"
    using rearranged_outside [OF conjunct1 [OF part], of "nat tail"] assms(2-4) by simp
  have nth: "zs ! nat i = (if i = h then ys ! nat tail else if i = tail then ys ! nat h else ys ! nat i)"
    if "0 \<le> i" "i < int (length xs)" for i
    unfolding zs_def using swap_nth [of h tail i ys] parts assms(2-4) len that by simp
  have pivot: "key (zs ! nat h) = v" using nth [of h] parts assms(2,4) tail by (simp add: v_def)
  show "\<forall>i. head \<le> i \<longrightarrow> i \<le> h \<longrightarrow> le (key (zs ! nat i)) v"
  proof (intro allI impI)
    fix i assume i: "head \<le> i" "i \<le> h"
    show "le (key (zs ! nat i)) v"
    proof (cases "i = h")
      case False
      then have "zs ! nat i = ys ! nat i" using nth [of i] i parts assms(2,4) by simp
      then show ?thesis using part i False by simp
    qed (simp add: pivot d(3))
  qed
  show "\<forall>i. h \<le> i \<longrightarrow> i \<le> tail \<longrightarrow> le v (key (zs ! nat i))"
  proof (intro allI impI)
    fix i assume i: "h \<le> i" "i \<le> tail"
    show "le v (key (zs ! nat i))"
    proof (cases "i = h")
      case False
      then have "zs ! nat i = (if i = tail then ys ! nat h else ys ! nat i)"
        using nth [of i] i parts assms(2,4) by simp
      then show ?thesis using part i False parts by simp
    qed (simp add: pivot d(3))
  qed
qed

lemma sorted_parts_join:
  assumes dec: "decides before le" and "t = h \<or> t = h - 1"
    and "sorted_part le key ws head t" "sorted_part le key ws (h + 1) tail"
    and "\<forall>i. head \<le> i \<longrightarrow> i \<le> h \<longrightarrow> le (key (ws ! nat i)) v" "\<forall>i. h < i \<longrightarrow> i \<le> tail \<longrightarrow> le v (key (ws ! nat i))"
    and "t = h - 1 \<longrightarrow> le v (key (ws ! nat h))"
  shows "sorted_part le key ws head tail"
  unfolding sorted_part_def
proof (intro allI impI)
  fix i j assume ij: "head \<le> i" "i \<le> j" "j \<le> tail"
  note d = decidesD [OF dec]
  consider "j \<le> t" | "h < i" | "i \<le> h" "h < j" | "j = h" "t = h - 1" using assms(2) ij by linarith
  then show "le (key (ws ! nat i)) (key (ws ! nat j))"
  proof cases
    case 1 then show ?thesis using assms(3) ij by (simp add: sorted_part_def)
  next
    case 2 then show ?thesis using assms(4) ij by (simp add: sorted_part_def)
  next
    case 3 then show ?thesis using d(4) assms(5,6) ij by blast
  next
    case 4 then show ?thesis using d(4) assms(5,7) ij by blast
  qed
qed

text \<open>The two recursive calls commute with what the turn established, in either order.\<close>

lemma part_keeps:
  assumes "rearranged a b xs ys" "0 \<le> a" "b < int (length xs)" "\<forall>i. c \<le> i \<longrightarrow> i \<le> e \<longrightarrow> P (xs ! nat i)" "0 \<le> c"
    "c \<le> a \<and> b \<le> e \<or> b < c \<or> e < a" "e < int (length xs)"
  shows "\<forall>i. c \<le> i \<longrightarrow> i \<le> e \<longrightarrow> P (ys ! nat i)"
proof (intro allI impI)
  fix i assume i: "c \<le> i" "i \<le> e"
  have len: "nat i < length xs" using i assms(5,7) by auto
  show "P (ys ! nat i)"
  proof (cases "a \<le> i \<and> i \<le> b")
    case True
    have "P (xs ! j)" if "j < length xs" "a \<le> int j" "int j \<le> b" for j
      using assms(4) [THEN spec, of "int j"] that True i assms(6) by auto
    then show ?thesis using rearranged_all [OF assms(1), of P "nat i"] len True assms(2) by auto
  next
    case False
    then have "ys ! nat i = xs ! nat i" using rearranged_outside [OF assms(1) len] assms(5) i by auto
    then show ?thesis using assms(4) i by simp
  qed
qed

lemma sorted_part_outside:
  assumes "rearranged a b xs ys" "sorted_part le key xs c e" "e < a \<or> b < c" "0 \<le> c" "e < int (length xs)"
  shows "sorted_part le key ys c e"
proof -
  have "ys ! nat i = xs ! nat i" if "c \<le> i" "i \<le> e" for i
    using rearranged_outside [OF assms(1), of "nat i"] that assms(3-5) by auto
  then show ?thesis using assms(2) unfolding sorted_part_def by simp
qed

lemma two_calls:
  assumes bounds: "0 \<le> head" "tail < int (length zs)" "head \<le> h \<and> h \<le> tail \<and> head - 1 \<le> t \<and> t < tail \<and> (t = h \<or> t = h - 1)"
    and r: "rearranged a b zs w1" "rearranged a' b' w1 ws"
    and ab: "a = head \<and> b = t \<and> a' = h + 1 \<and> b' = tail \<or> a = h + 1 \<and> b = tail \<and> a' = head \<and> b' = t"
    and le: "\<forall>i. head \<le> i \<longrightarrow> i \<le> h \<longrightarrow> le (key (zs ! nat i)) v" "\<forall>i. h \<le> i \<longrightarrow> i \<le> tail \<longrightarrow> le v (key (zs ! nat i))"
  shows "\<forall>i. head \<le> i \<longrightarrow> i \<le> h \<longrightarrow> le (key (ws ! nat i)) v"
    "\<forall>i. h < i \<longrightarrow> i \<le> tail \<longrightarrow> le v (key (ws ! nat i))"
    "t = h - 1 \<longrightarrow> le v (key (ws ! nat h))"
proof -
  have len: "length w1 = length zs" using r(1) by (rule rearranged_length)
  have keep: "\<forall>i. c \<le> i \<longrightarrow> i \<le> e \<longrightarrow> P (ws ! nat i)"
    if "\<forall>i. c \<le> i \<longrightarrow> i \<le> e \<longrightarrow> P (zs ! nat i)" "0 \<le> c" "e < int (length zs)"
      "c \<le> a \<and> b \<le> e \<or> b < c \<or> e < a" "c \<le> a' \<and> b' \<le> e \<or> b' < c \<or> e < a'" for c e P
  proof (rule part_keeps [OF r(2)])
    show "\<forall>i. c \<le> i \<longrightarrow> i \<le> e \<longrightarrow> P (w1 ! nat i)"
      by (rule part_keeps [OF r(1)]) (use that ab bounds in auto)
  qed (use that ab bounds len in auto)
  show "\<forall>i. head \<le> i \<longrightarrow> i \<le> h \<longrightarrow> le (key (ws ! nat i)) v"
    by (rule keep [OF le(1)]) (use ab bounds in auto)
  have "\<forall>i. h + 1 \<le> i \<longrightarrow> i \<le> tail \<longrightarrow> le v (key (ws ! nat i))"
    by (rule keep) (use le(2) ab bounds in auto)
  then show "\<forall>i. h < i \<longrightarrow> i \<le> tail \<longrightarrow> le v (key (ws ! nat i))" by simp
  show "t = h - 1 \<longrightarrow> le v (key (ws ! nat h))"
  proof
    assume t: "t = h - 1"
    have "\<forall>i. h \<le> i \<longrightarrow> i \<le> h \<longrightarrow> le v (key (ws ! nat i))"
      by (rule keep) (use le(2) ab bounds t in auto)
    then show "le v (key (ws ! nat h))" by simp
  qed
qed

lemma mp_quicksort_correct:
  assumes "decides before le" "0 \<le> head" "tail < int (length xs)"
  shows "rearranged head tail xs (mp_quicksort key before xs head tail)
    \<and> sorted_part le key (mp_quicksort key before xs head tail) head tail"
  using assms
proof (induction key before xs head tail rule: mp_quicksort.induct)
  case (1 key before xs head tail)
  show ?case
  proof (cases "head < tail")
    case False
    have "i = j" if "head \<le> i" "i \<le> j" "j \<le> tail" for i j using False that by simp
    then have "sorted_part le key xs head tail"
      using decidesD(3) [OF 1(5)] unfolding sorted_part_def by metis
    then show ?thesis using False by (subst (1 2) mp_quicksort.simps) (simp add: rearranged_refl)
  next
    case True
    define v where "v = key (xs ! nat tail)"
    obtain h t ys where part: "partition_loop key before v xs (head - 1) tail = (h, t, ys)" by (metis surj_pair)
    define zs where "zs = swap ys h tail"
    note turn = quicksort_turn [OF 1(5,6) True 1(7) part [unfolded v_def], folded v_def zs_def]
    have len: "length zs = length xs" using turn(2) by (rule rearranged_length)
    have tl: "tail < int (length zs)" using 1(7) len by simp
    show ?thesis
    proof (cases "t - head < tail - h - 1")
      case c: True
      define w1 where "w1 = mp_quicksort key before zs head t"
      define ws where "ws = mp_quicksort key before w1 (h + 1) tail"
      have eq: "mp_quicksort key before xs head tail = ws"
        using True part c by (subst mp_quicksort.simps) (simp add: Let_def v_def zs_def w1_def ws_def)
      have w1: "rearranged head t zs w1" "sorted_part le key w1 head t"
        using 1(1) [of v "(h, t, ys)" h "(t, ys)" t ys zs] True part c 1(5-7) turn(1) len
        by (auto simp: v_def zs_def w1_def)
      have len1: "length w1 = length xs" using rearranged_length [OF w1(1)] len by simp
      have ws: "rearranged (h + 1) tail w1 ws" "sorted_part le key ws (h + 1) tail"
        using 1(2) [of v "(h, t, ys)" h "(t, ys)" t ys zs] True part c 1(5-7) turn(1) len1
        by (auto simp: v_def zs_def w1_def ws_def)
      have "sorted_part le key ws head t"
        by (rule sorted_part_outside [OF ws(1) w1(2)]) (use turn(1) 1(6,7) len1 in auto)
      moreover have "rearranged head tail xs ws"
        using rearranged_trans [OF turn(2) rearranged_trans [OF rearranged_mono [OF w1(1)] rearranged_mono [OF ws(1)]]] turn(1)
        by auto
      ultimately show ?thesis
        using sorted_parts_join [OF 1(5) _ _ ws(2) two_calls [OF 1(6) tl turn(1) w1(1) ws(1) _ turn(3,4)]] turn(1) eq
        by auto
    next
      case c: False
      define w1 where "w1 = mp_quicksort key before zs (h + 1) tail"
      define ws where "ws = mp_quicksort key before w1 head t"
      have eq: "mp_quicksort key before xs head tail = ws"
        using True part c by (subst mp_quicksort.simps) (simp add: Let_def v_def zs_def w1_def ws_def)
      have w1: "rearranged (h + 1) tail zs w1" "sorted_part le key w1 (h + 1) tail"
        using 1(3) [of v "(h, t, ys)" h "(t, ys)" t ys zs] True part c 1(5-7) turn(1) len
        by (auto simp: v_def zs_def w1_def)
      have len1: "length w1 = length xs" using rearranged_length [OF w1(1)] len by simp
      have ws: "rearranged head t w1 ws" "sorted_part le key ws head t"
        using 1(4) [of v "(h, t, ys)" h "(t, ys)" t ys zs] True part c 1(5-7) turn(1) len1
        by (auto simp: v_def zs_def w1_def ws_def)
      have "sorted_part le key ws (h + 1) tail"
        by (rule sorted_part_outside [OF ws(1) w1(2)]) (use turn(1) 1(6,7) len1 in auto)
      moreover have "rearranged head tail xs ws"
        using rearranged_trans [OF turn(2) rearranged_trans [OF rearranged_mono [OF w1(1)] rearranged_mono [OF ws(1)]]] turn(1)
        by auto
      ultimately show ?thesis
        using sorted_parts_join [OF 1(5) _ ws(2) _ two_calls [OF 1(6) tl turn(1) w1(1) ws(1) _ turn(3,4)]] turn(1) eq
        by auto
    qed
  qed
qed

lemma depth_max: "2 * 2 ^ m \<le> s \<Longrightarrow> 2 ^ n \<le> s \<Longrightarrow> (2::nat) ^ max (Suc m) n \<le> s"
  by (simp add: max_def)

lemma depth_half:
  assumes "2 ^ d \<le> max 1 (nat m)" "2 \<le> n" "2 * m \<le> n"
  shows "2 * 2 ^ d \<le> nat n"
proof -
  have "2 * 2 ^ d \<le> 2 * max 1 (nat m)" using assms(1) by simp
  also have "\<dots> \<le> nat n" using assms(2,3) by (simp add: max_def) linarith
  finally show ?thesis .
qed

lemma depth_rest:
  assumes "2 ^ d \<le> max 1 (nat m)" "1 \<le> n" "m \<le> n"
  shows "2 ^ d \<le> nat n"
  using assms(1) by (rule order_trans) (use assms(2,3) in \<open>auto simp: max_def\<close>)

text \<open>Each recursive call gets at most half of the segment.\<close>

lemma quicksort_depth_le: "2 ^ quicksort_depth key before xs head tail \<le> max 1 (nat (tail - head + 1))"
proof (induction key before xs head tail rule: quicksort_depth.induct)
  case (1 key before xs head tail)
  show ?case
  proof (cases "head < tail")
    case False
    then show ?thesis by (subst quicksort_depth.simps) simp
  next
    case True
    define v where "v = key (xs ! nat tail)"
    obtain h t ys where part: "partition_loop key before v xs (head - 1) tail = (h, t, ys)" by (metis surj_pair)
    define zs where "zs = swap ys h tail"
    have b: "head \<le> h \<and> h \<le> tail \<and> head - 1 \<le> t \<and> t < tail \<and> (t = h \<or> t = h - 1)"
      using quicksort_parts [OF True part [symmetric]] .
    show ?thesis
    proof (cases "t - head < tail - h - 1")
      case c: True
      have "2 * 2 ^ quicksort_depth key before zs head t \<le> nat (tail - head + 1)"
        by (rule depth_half [OF 1(1) [OF True v_def part [symmetric] refl refl zs_def c]]) (use True c b in auto)
      moreover have "2 ^ quicksort_depth key before (mp_quicksort key before zs head t) (h + 1) tail \<le> nat (tail - head + 1)"
        by (rule depth_rest [OF 1(2) [OF True v_def part [symmetric] refl refl zs_def c]]) (use True c b in auto)
      ultimately have "2 ^ quicksort_depth key before xs head tail \<le> nat (tail - head + 1)"
        using True part c depth_max by (subst quicksort_depth.simps) (simp only: Let_def v_def zs_def if_True if_False case_prod_conv Suc_eq_plus1_left)
      then show ?thesis by (rule max.coboundedI2)
    next
      case c: False
      have "2 * 2 ^ quicksort_depth key before zs (h + 1) tail \<le> nat (tail - head + 1)"
        by (rule depth_half [OF 1(3) [OF True v_def part [symmetric] refl refl zs_def c]]) (use True c b in auto)
      moreover have "2 ^ quicksort_depth key before (mp_quicksort key before zs (h + 1) tail) head t \<le> nat (tail - head + 1)"
        by (rule depth_rest [OF 1(4) [OF True v_def part [symmetric] refl refl zs_def c]]) (use True c b in auto)
      ultimately have "2 ^ quicksort_depth key before xs head tail \<le> nat (tail - head + 1)"
        using True part c depth_max by (subst quicksort_depth.simps) (simp only: Let_def v_def zs_def if_True if_False case_prod_conv Suc_eq_plus1_left)
      then show ?thesis by (rule max.coboundedI2)
    qed
  qed
qed

end
