(* ===== verification/MpList.thy ===== *)
theory MpList
  imports MpSeq MpSort
begin

text \<open>
  Lists: \<open>python/py/objlist.c\<close>.

  A list object has its length, the length \<open>alloc\<close> it believes its block to have, and the block.  An
  operation gives its result, or the error raised, and the list left behind.  A list argument is passed by
  value; the code reads it before it writes, also when both are one object.

  The collector is a parameter: whether a request of so many bytes is met, and what new cells hold.  Byte
  counts are taken modulo 2 to the 32, as \<open>m_new\<close> and \<open>m_renew\<close> compute them; a request of no bytes
  gives the NULL pointer, a block without cells, and is no failure.
\<close>

section \<open>The heap\<close>

record 'o gc_heap =
  grants :: "nat \<Rightarrow> bool"
  stale_cell :: "nat \<Rightarrow> 'o option"

definition to_size_t :: "nat \<Rightarrow> nat" where
  "to_size_t n = n mod 4294967296"

lemma to_size_t_code [code]: "to_size_t n = (if n < 256 then n else n mod 4294967296)"
  by (simp add: to_size_t_def)

definition cells_bytes :: "nat \<Rightarrow> nat" where
  "cells_bytes n = to_size_t (4 * n)"

definition m_new_cells :: "'o gc_heap \<Rightarrow> nat \<Rightarrow> seq_error + 'o cells" where
  "m_new_cells gc n =
     (if cells_bytes n \<noteq> 0 \<and> \<not> grants gc (cells_bytes n) then Inl MemoryError
      else Inr (map (stale_cell gc) [0..<cells_bytes n div 4]))"

text \<open>A block whose 16-byte units have room for the request stays where it is, which never fails.\<close>

definition m_renew_cells :: "'o gc_heap \<Rightarrow> 'o cells \<Rightarrow> nat \<Rightarrow> seq_error + 'o cells" where
  "m_renew_cells gc old n =
     (if (cells_bytes n + 15) div 16 > (4 * length old + 15) div 16 \<and> \<not> grants gc (cells_bytes n) then Inl MemoryError
      else Inr (take (cells_bytes n div 4) old @ map (stale_cell gc) [length old..<cells_bytes n div 4]))"

section \<open>List objects\<close>

record 'o mp_obj_list =
  len :: nat
  alloc :: nat
  items :: "'o cells"

definition LIST_MIN_ALLOC :: nat where
  "LIST_MIN_ALLOC = 4"

text \<open>The result of an operation on a list: what it returns or raises, and the list.\<close>

type_synonym ('r, 'o) on_list = "(seq_error + 'r) \<times> 'o mp_obj_list"

abbreviation on_items :: "(seq_error + 'o cells) \<Rightarrow> 'o mp_obj_list \<Rightarrow> ('o mp_obj_list \<Rightarrow> ('r, 'o) on_list) \<Rightarrow> ('r, 'o) on_list" where
  "on_items r self f \<equiv> (case r of Inl e \<Rightarrow> (Inl e, self) | Inr cs \<Rightarrow> f (self\<lparr>items := cs\<rparr>))"

definition mp_obj_list_init :: "'o gc_heap \<Rightarrow> nat \<Rightarrow> seq_error + 'o mp_obj_list" where
  "mp_obj_list_init gc n =
     (let a = (if n < LIST_MIN_ALLOC then LIST_MIN_ALLOC else n) in
      and_then (m_new_cells gc a) (\<lambda>cs.
      and_then (mp_seq_clear n a cs) (\<lambda>cs'.
        Inr \<lparr>len = n, alloc = a, items = cs'\<rparr>)))"

definition list_new :: "'o gc_heap \<Rightarrow> nat \<Rightarrow> seq_error + 'o mp_obj_list" where
  "list_new gc n = mp_obj_list_init gc n"

text \<open>\<open>mp_obj_new_list\<close>: the initial items, or none for a NULL pointer.\<close>

definition mp_obj_new_list :: "'o gc_heap \<Rightarrow> nat \<Rightarrow> 'o cells option \<Rightarrow> seq_error + 'o mp_obj_list" where
  "mp_obj_new_list gc n src =
     and_then (list_new gc n) (\<lambda>o'.
       case src of
         None \<Rightarrow> Inr o'
       | Some cs \<Rightarrow> and_then (mp_seq_copy (items o') cs n) (\<lambda>cs'. Inr (o'\<lparr>items := cs'\<rparr>)))"

definition mp_obj_list_get :: "'o mp_obj_list \<Rightarrow> nat \<times> 'o cells" where
  "mp_obj_list_get self = (len self, items self)"

definition mp_obj_list_set_len :: "'o mp_obj_list \<Rightarrow> nat \<Rightarrow> 'o mp_obj_list" where
  "mp_obj_list_set_len self n = self\<lparr>len := n\<rparr>"

section \<open>Adding items\<close>

definition mp_obj_list_append :: "'o gc_heap \<Rightarrow> 'o mp_obj_list \<Rightarrow> 'o option \<Rightarrow> (unit, 'o) on_list" where
  "mp_obj_list_append gc self arg =
     (let store = (\<lambda>self. on_items (set_cells (len self) [arg] (items self)) self
                     (\<lambda>self. (Inr (), self\<lparr>len := len self + 1\<rparr>)))
      in if len self \<ge> alloc self then
           on_items (m_renew_cells gc (items self) (alloc self * 2)) self (\<lambda>self.
             let self = self\<lparr>alloc := alloc self * 2\<rparr> in
             on_items (mp_seq_clear (len self + 1) (alloc self) (items self)) self store)
         else store self)"

text \<open>The iterable of \<open>list_extend_from_iter\<close> is the list of the items it yields.\<close>

fun list_extend_from_iter :: "'o gc_heap \<Rightarrow> 'o mp_obj_list \<Rightarrow> 'o list \<Rightarrow> (unit, 'o) on_list" where
  "list_extend_from_iter gc list [] = (Inr (), list)"
| "list_extend_from_iter gc list (item # iter) =
     (case mp_obj_list_append gc list (Some item) of
        (Inl e, list') \<Rightarrow> (Inl e, list')
      | (Inr _, list') \<Rightarrow> list_extend_from_iter gc list' iter)"

datatype 'o iterable = A_list "'o mp_obj_list" | Other_iterable "'o list"

definition list_extend :: "'o gc_heap \<Rightarrow> 'o mp_obj_list \<Rightarrow> 'o iterable \<Rightarrow> (unit, 'o) on_list" where
  "list_extend gc self arg_in =
     (case arg_in of
        A_list arg \<Rightarrow>
          let copy = (\<lambda>self.
                case get_cells 0 (len arg) (items arg) of
                  Inl e \<Rightarrow> (Inl e, self)
                | Inr cs \<Rightarrow> on_items (set_cells (len self) cs (items self)) self
                    (\<lambda>self. (Inr (), self\<lparr>len := len self + len arg\<rparr>)))
          in if len self + len arg > alloc self then
               on_items (m_renew_cells gc (items self) (len self + len arg + 4)) self (\<lambda>self.
                 let self = self\<lparr>alloc := len self + len arg + 4\<rparr> in
                 on_items (mp_seq_clear (len self + len arg) (alloc self) (items self)) self copy)
             else copy self
      | Other_iterable xs \<Rightarrow> list_extend_from_iter gc self xs)"

definition mp_obj_list_make_new :: "'o gc_heap \<Rightarrow> 'o list option \<Rightarrow> seq_error + 'o mp_obj_list" where
  "mp_obj_list_make_new gc args =
     (case args of
        None \<Rightarrow> mp_obj_new_list gc 0 None
      | Some iterable \<Rightarrow>
          and_then (mp_obj_new_list gc 0 None) (\<lambda>list.
            case list_extend_from_iter gc list iterable of (Inl e, _) \<Rightarrow> Inl e | (Inr _, list') \<Rightarrow> Inr list'))"

text \<open>The loop of \<open>list_insert\<close> that moves the items from \<open>index\<close> up by one.\<close>

fun shift_up :: "nat \<Rightarrow> nat \<Rightarrow> 'o cells \<Rightarrow> seq_error + 'o cells" where
  "shift_up 0 i cs = Inr cs"
| "shift_up (Suc n) i cs =
     and_then (get_cell cs (i - 1)) (\<lambda>x. and_then (set_cells i [x] cs) (\<lambda>cs'. shift_up n (i - 1) cs'))"

text \<open>\<open>idx\<close> is the value \<open>MP_OBJ_SMALL_INT_VALUE\<close> makes of the index object; None is \<open>mp_const_none\<close> as an item.\<close>

definition list_insert :: "'o gc_heap \<Rightarrow> 'o \<Rightarrow> 'o mp_obj_list \<Rightarrow> int \<Rightarrow> 'o \<Rightarrow> (unit, 'o) on_list" where
  "list_insert gc none self idx obj =
     (let index = (if idx < 0 then idx + int (len self) else idx);
          index = (if index < 0 then 0 else index);
          index = nat (if index > int (len self) then int (len self) else index)
      in case mp_obj_list_append gc self (Some none) of
           (Inl e, self) \<Rightarrow> (Inl e, self)
         | (Inr _, self) \<Rightarrow>
             on_items (shift_up (len self - 1 - index) (len self - 1) (items self)) self (\<lambda>self.
             on_items (set_cells index [Some obj] (items self)) self (\<lambda>self. (Inr (), self))))"

section \<open>Removing items\<close>

definition list_pop :: "'o gc_heap \<Rightarrow> 'o mp_obj_list \<Rightarrow> int option option \<Rightarrow> ('o option, 'o) on_list" where
  "list_pop gc self arg =
     (if len self = 0 then (Inl IndexError, self)
      else case mp_get_index (len self) (case arg of None \<Rightarrow> Some (- 1) | Some a \<Rightarrow> a) False of
        Inl e \<Rightarrow> (Inl e, self)
      | Inr index \<Rightarrow>
          (case get_cell (items self) index of
             Inl e \<Rightarrow> (Inl e, self)
           | Inr ret \<Rightarrow>
               let self = self\<lparr>len := len self - 1\<rparr> in
               on_items (and_then (get_cells (index + 1) (len self - index) (items self)) (\<lambda>cs. set_cells index cs (items self))) self (\<lambda>self.
               on_items (set_cells (len self) [None] (items self)) self (\<lambda>self.
                 if alloc self > LIST_MIN_ALLOC \<and> alloc self > 2 * len self then
                   on_items (m_renew_cells gc (items self) (alloc self div 2)) self
                     (\<lambda>self. (Inr ret, self\<lparr>alloc := alloc self div 2\<rparr>))
                 else (Inr ret, self)))))"

definition list_clear :: "'o gc_heap \<Rightarrow> 'o mp_obj_list \<Rightarrow> (unit, 'o) on_list" where
  "list_clear gc self =
     (let self = self\<lparr>len := 0\<rparr> in
      on_items (m_renew_cells gc (items self) LIST_MIN_ALLOC) self (\<lambda>self.
        let self = self\<lparr>alloc := LIST_MIN_ALLOC\<rparr> in
        on_items (mp_seq_clear 0 (alloc self) (items self)) self (\<lambda>self. (Inr (), self))))"

text \<open>The objects of a list; a NULL among them would be followed as a pointer.\<close>

definition list_objs :: "'o mp_obj_list \<Rightarrow> seq_error + 'o list" where
  "list_objs self =
     and_then (get_cells 0 (len self) (items self)) (\<lambda>cs.
       if None \<in> set cs then Inl Out_of_bounds else Inr (map the cs))"

definition list_count :: "('o \<Rightarrow> 'o \<Rightarrow> bool) \<Rightarrow> 'o mp_obj_list \<Rightarrow> 'o \<Rightarrow> seq_error + nat" where
  "list_count equal self x = and_then (list_objs self) (\<lambda>xs. Inr (mp_seq_count_obj equal xs x))"

definition list_index :: "('o \<Rightarrow> 'o \<Rightarrow> bool) \<Rightarrow> 'o mp_obj_list \<Rightarrow> 'o \<Rightarrow> int option list \<Rightarrow> seq_error + nat" where
  "list_index equal self x args = and_then (list_objs self) (\<lambda>xs. mp_seq_index_obj equal xs x args)"

definition mp_obj_list_remove :: "('o \<Rightarrow> 'o \<Rightarrow> bool) \<Rightarrow> 'o gc_heap \<Rightarrow> 'o mp_obj_list \<Rightarrow> 'o \<Rightarrow> (unit, 'o) on_list" where
  "mp_obj_list_remove equal gc self x =
     (case list_index equal self x [] of
        Inl e \<Rightarrow> (Inl e, self)
      | Inr i \<Rightarrow>
          (case list_pop gc self (Some (Some (int i))) of
             (Inl e, self) \<Rightarrow> (Inl e, self)
           | (Inr _, self) \<Rightarrow> (Inr (), self)))"

section \<open>Rearranging\<close>

fun reverse_loop :: "nat \<Rightarrow> nat \<Rightarrow> nat \<Rightarrow> 'o cells \<Rightarrow> seq_error + 'o cells" where
  "reverse_loop 0 n i cs = Inr cs"
| "reverse_loop (Suc turns) n i cs =
     and_then (get_cell cs i) (\<lambda>a.
     and_then (get_cell cs (n - i - 1)) (\<lambda>b.
     and_then (set_cells i [b] cs) (\<lambda>cs.
     and_then (set_cells (n - i - 1) [a] cs) (\<lambda>cs. reverse_loop turns n (i + 1) cs))))"

definition list_reverse :: "'o mp_obj_list \<Rightarrow> (unit, 'o) on_list" where
  "list_reverse self =
     on_items (reverse_loop (len self div 2) (len self) 0 (items self)) self (\<lambda>self. (Inr (), self))"

text \<open>
  \<open>mp_obj_list_sort\<close>: \<open>lt\<close> is the truth of \<open>mp_binary_op(MP_BINARY_OP_LESS, x, y)\<close>, which the sort
  compares with what it waits for.
\<close>

definition mp_obj_list_sort :: "('o \<Rightarrow> 'b) \<Rightarrow> ('b \<Rightarrow> 'b \<Rightarrow> bool) \<Rightarrow> bool \<Rightarrow> 'o mp_obj_list \<Rightarrow> (unit, 'o) on_list" where
  "mp_obj_list_sort key lt reversed self =
     (if len self > 1 then
        (case list_objs self of
           Inl e \<Rightarrow> (Inl e, self)
         | Inr xs \<Rightarrow>
             (Inr (), self\<lparr>items := map Some (mp_quicksort key (\<lambda>x y. lt x y = (\<not> reversed)) xs 0 (int (len self) - 1))
                                   @ drop (len self) (items self)\<rparr>))
      else (Inr (), self))"

section \<open>New lists from lists\<close>

definition list_copy :: "'o gc_heap \<Rightarrow> 'o mp_obj_list \<Rightarrow> seq_error + 'o mp_obj_list" where
  "list_copy gc self = mp_obj_new_list gc (len self) (Some (items self))"

definition list_add :: "'o gc_heap \<Rightarrow> 'o mp_obj_list \<Rightarrow> 'o mp_obj_list \<Rightarrow> seq_error + 'o mp_obj_list" where
  "list_add gc o' p =
     and_then (list_new gc (len o' + len p)) (\<lambda>s.
     and_then (mp_seq_cat (items s) (items o') (len o') (items p) (len p)) (\<lambda>cs. Inr (s\<lparr>items := cs\<rparr>)))"

definition list_multiply :: "'o gc_heap \<Rightarrow> 'o mp_obj_list \<Rightarrow> int \<Rightarrow> seq_error + 'o mp_obj_list" where
  "list_multiply gc o' n0 =
     (let n = nat n0 in
      and_then (list_new gc (to_size_t (len o' * n))) (\<lambda>s.
      and_then (mp_seq_multiply (items o') (len o') n (items s)) (\<lambda>cs. Inr (s\<lparr>items := cs\<rparr>))))"

text \<open>The right operand: a list, an object that \<open>mp_obj_get_int_maybe\<close> takes, or another iterable.\<close>

datatype 'o operand = List_operand "'o mp_obj_list" | Int_operand int | Iter_operand "'o list"

datatype list_op = Op_add | Op_inplace_add | Op_multiply | Op_compare binary_op

datatype 'o op_result = Op_not_supported | Lhs "'o mp_obj_list" | New_list "'o mp_obj_list" | Bool bool

definition list_binary_op :: "('o \<Rightarrow> 'o \<Rightarrow> bool) \<Rightarrow> (binary_op \<Rightarrow> 'o \<Rightarrow> 'o \<Rightarrow> bool) \<Rightarrow> 'o gc_heap \<Rightarrow> list_op
    \<Rightarrow> 'o mp_obj_list \<Rightarrow> 'o operand \<Rightarrow> seq_error + 'o op_result" where
  "list_binary_op equal cmp gc op lhs rhs =
     (case op of
        Op_add \<Rightarrow>
          (case rhs of List_operand p \<Rightarrow> and_then (list_add gc lhs p) (\<lambda>s. Inr (New_list s)) | _ \<Rightarrow> Inr Op_not_supported)
      | Op_inplace_add \<Rightarrow>
          (case rhs of
             List_operand p \<Rightarrow> (case list_extend gc lhs (A_list p) of (Inl e, _) \<Rightarrow> Inl e | (Inr _, l) \<Rightarrow> Inr (Lhs l))
           | Iter_operand xs \<Rightarrow>
               (case list_extend gc lhs (Other_iterable xs) of (Inl e, _) \<Rightarrow> Inl e | (Inr _, l) \<Rightarrow> Inr (Lhs l))
           | Int_operand _ \<Rightarrow> Inl TypeError)
      | Op_multiply \<Rightarrow>
          (case rhs of
             Int_operand n \<Rightarrow> and_then (list_multiply gc lhs (if n < 0 then 0 else n)) (\<lambda>s. Inr (New_list s))
           | _ \<Rightarrow> Inr Op_not_supported)
      | Op_compare c \<Rightarrow>
          (case rhs of
             List_operand another \<Rightarrow>
               and_then (list_objs lhs) (\<lambda>xs. and_then (list_objs another) (\<lambda>ys.
                 Inr (Bool (mp_seq_cmp_objs equal cmp c xs ys))))
           | _ \<Rightarrow> if c = Op_equal then Inr (Bool False) else Inr Op_not_supported))"

section \<open>Subscripts\<close>

definition cell_at :: "'o cells \<Rightarrow> int \<Rightarrow> seq_error + 'o option" where
  "cell_at cs i = (if 0 \<le> i then get_cell cs (nat i) else Inl Out_of_bounds)"

text \<open>The loops of \<open>mp_seq_extract_slice\<close>; None says that one does not end.\<close>

partial_function (option) extract_down ::
  "'o gc_heap \<Rightarrow> 'o cells \<Rightarrow> int \<Rightarrow> int \<Rightarrow> int \<Rightarrow> 'o mp_obj_list \<Rightarrow> (unit, 'o) on_list option" where
  "extract_down gc seq start stop step res =
     (if start \<ge> stop then
        (case cell_at seq start of
           Inl e \<Rightarrow> Some (Inl e, res)
         | Inr x \<Rightarrow>
             (case mp_obj_list_append gc res x of
                (Inl e, res') \<Rightarrow> Some (Inl e, res')
              | (Inr _, res') \<Rightarrow> extract_down gc seq (start + step) stop step res'))
      else Some (Inr (), res))"

partial_function (option) extract_up ::
  "'o gc_heap \<Rightarrow> 'o cells \<Rightarrow> int \<Rightarrow> int \<Rightarrow> int \<Rightarrow> 'o mp_obj_list \<Rightarrow> (unit, 'o) on_list option" where
  "extract_up gc seq start stop step res =
     (if start < stop then
        (case cell_at seq start of
           Inl e \<Rightarrow> Some (Inl e, res)
         | Inr x \<Rightarrow>
             (case mp_obj_list_append gc res x of
                (Inl e, res') \<Rightarrow> Some (Inl e, res')
              | (Inr _, res') \<Rightarrow> extract_up gc seq (start + step) stop step res'))
      else Some (Inr (), res))"

definition mp_seq_extract_slice :: "'o gc_heap \<Rightarrow> 'o cells \<Rightarrow> mp_bound_slice \<Rightarrow> (seq_error + 'o mp_obj_list) option" where
  "mp_seq_extract_slice gc seq b =
     (case mp_obj_new_list gc 0 None of
        Inl e \<Rightarrow> Some (Inl e)
      | Inr res \<Rightarrow>
          (case (if bs_step b < 0 then extract_down gc seq (bs_start b) (bs_stop b) (bs_step b) res
                 else extract_up gc seq (bs_start b) (bs_stop b) (bs_step b) res) of
             None \<Rightarrow> None
           | Some (Inl e, _) \<Rightarrow> Some (Inl e)
           | Some (Inr _, res') \<Rightarrow> Some (Inr res')))"

datatype list_subscript = At "int option" | Slice_of mp_obj_slice

datatype 'o loaded = Item "'o option" | Sublist "'o mp_obj_list"

definition list_subscr_load :: "'o gc_heap \<Rightarrow> 'o mp_obj_list \<Rightarrow> list_subscript \<Rightarrow> (seq_error + 'o loaded) option" where
  "list_subscr_load gc self index =
     (case index of
        Slice_of sl \<Rightarrow>
          (case mp_seq_get_fast_slice_indexes (len self) sl of
             Inl e \<Rightarrow> Some (Inl e)
           | Inr (False, b) \<Rightarrow>
               (case mp_seq_extract_slice gc (items self) b of
                  None \<Rightarrow> None
                | Some r \<Rightarrow> Some (and_then r (\<lambda>l. Inr (Sublist l))))
           | Inr (True, b) \<Rightarrow>
               let start = nat (bs_start b); n = nat (bs_stop b - bs_start b) in
               Some (and_then (list_new gc n) (\<lambda>res.
                 and_then (get_cells start n (items self)) (\<lambda>cs.
                 and_then (set_cells 0 cs (items res)) (\<lambda>cs'. Inr (Sublist (res\<lparr>items := cs'\<rparr>)))))))
      | At i \<Rightarrow>
          Some (and_then (mp_get_index (len self) i False) (\<lambda>index_val.
            and_then (get_cell (items self) index_val) (\<lambda>x. Inr (Item x)))))"

definition mp_obj_list_store :: "'o mp_obj_list \<Rightarrow> int option \<Rightarrow> 'o \<Rightarrow> (unit, 'o) on_list" where
  "mp_obj_list_store self index x =
     (case mp_get_index (len self) index False of
        Inl e \<Rightarrow> (Inl e, self)
      | Inr i \<Rightarrow> on_items (set_cells i [Some x] (items self)) self (\<lambda>self. (Inr (), self)))"

text \<open>\<open>array\<close> is what \<open>mp_obj_get_array\<close> makes of the value: its items, or None for a TypeError.\<close>

definition list_subscr_store :: "'o gc_heap \<Rightarrow> 'o mp_obj_list \<Rightarrow> list_subscript \<Rightarrow> 'o \<Rightarrow> 'o list option \<Rightarrow> (unit, 'o) on_list" where
  "list_subscr_store gc self index x array =
     (case index of
        At i \<Rightarrow> mp_obj_list_store self i x
      | Slice_of sl \<Rightarrow>
          (case array of
             None \<Rightarrow> (Inl TypeError, self)
           | Some value_items \<Rightarrow>
               (case mp_seq_get_fast_slice_indexes (len self) sl of
                  Inl e \<Rightarrow> (Inl e, self)
                | Inr (False, b) \<Rightarrow> (Inl NotImplementedError, self)
                | Inr (True, b) \<Rightarrow>
                    let start = nat (bs_start b); stop = nat (bs_stop b);
                        len_adj = int (length value_items) - (bs_stop b - bs_start b);
                        new_len = nat (int (len self) + len_adj);
                        fill = (\<lambda>self. on_items (mp_seq_replace_slice_grow_inplace (items self) (len self) start stop
                                  (map Some value_items) (nat len_adj)) self
                                  (\<lambda>self. (Inr (), self\<lparr>len := new_len\<rparr>)))
                    in if len_adj > 0 then
                         if new_len > alloc self then
                           on_items (m_renew_cells gc (items self) new_len) self (\<lambda>self. fill (self\<lparr>alloc := new_len\<rparr>))
                         else fill self
                       else
                         on_items (mp_seq_replace_slice_no_grow (items self) (len self) start stop (map Some value_items)) self (\<lambda>self.
                         on_items (mp_seq_clear new_len (len self) (items self)) self
                           (\<lambda>self. (Inr (), self\<lparr>len := new_len\<rparr>))))))"

definition list_subscr_delete :: "'o gc_heap \<Rightarrow> 'o mp_obj_list \<Rightarrow> list_subscript \<Rightarrow> (unit, 'o) on_list" where
  "list_subscr_delete gc self index =
     (case index of
        Slice_of sl \<Rightarrow>
          (case mp_seq_get_fast_slice_indexes (len self) sl of
             Inl e \<Rightarrow> (Inl e, self)
           | Inr (False, b) \<Rightarrow> (Inl NotImplementedError, self)
           | Inr (True, b) \<Rightarrow>
               let start = nat (bs_start b); stop = nat (bs_stop b);
                   len_adj = bs_start b - bs_stop b; new_len = nat (int (len self) + len_adj)
               in if len_adj > 0 then (Inl Assertion_failure, self)
                  else
                    on_items (mp_seq_replace_slice_no_grow (items self) (len self) start stop []) self (\<lambda>self.
                    on_items (mp_seq_clear new_len (len self) (items self)) self
                      (\<lambda>self. (Inr (), self\<lparr>len := new_len\<rparr>))))
      | At i \<Rightarrow>
          (case list_pop gc self (Some i) of (Inl e, self) \<Rightarrow> (Inl e, self) | (Inr _, self) \<Rightarrow> (Inr (), self)))"

section \<open>Truth, length, printing and iteration\<close>

datatype unary_op = Op_bool | Op_len

datatype unary_result = Truth bool | Number nat

fun list_unary_op :: "unary_op \<Rightarrow> 'o mp_obj_list \<Rightarrow> unary_result" where
  "list_unary_op Op_bool self = Truth (len self \<noteq> 0)"
| "list_unary_op Op_len self = Number (len self)"

text \<open>JSON is not built in, so that items are printed by \<open>repr\<close>.\<close>

fun print_items :: "('o \<Rightarrow> string) \<Rightarrow> bool \<Rightarrow> 'o list \<Rightarrow> string" where
  "print_items repr first [] = []"
| "print_items repr first (x # xs) = (if first then [] else '', '') @ repr x @ print_items repr False xs"

definition list_print :: "('o \<Rightarrow> string) \<Rightarrow> 'o mp_obj_list \<Rightarrow> seq_error + string" where
  "list_print repr self = and_then (list_objs self) (\<lambda>xs. Inr (''['' @ print_items repr True xs @ '']''))"

text \<open>The iterator is a position in the list, which it looks at anew at each step; None ends the iteration.\<close>

definition list_it_iternext :: "'o mp_obj_list \<Rightarrow> nat \<Rightarrow> (seq_error + 'o option option) \<times> nat" where
  "list_it_iternext list cur =
     (if cur < len list then
        (case get_cell (items list) cur of Inl e \<Rightarrow> (Inl e, cur) | Inr x \<Rightarrow> (Inr (Some x), cur + 1))
      else (Inr None, cur))"

end
