(* ===== verification/MpListOk.thy ===== *)
theory MpListOk
  imports MpList
begin

text \<open>
  The representation of a list, and what every operation of \<open>MpList\<close> does to it.
\<close>

section \<open>The invariant\<close>

text \<open>
  The object that stands for \<open>xs\<close> with a block of \<open>a\<close> cells: the cells past the items are NULL, so that
  the collector finds no stale pointer there.
\<close>

definition rep :: "'o list \<Rightarrow> nat \<Rightarrow> 'o mp_obj_list" where
  "rep xs a = \<lparr>len = length xs, alloc = a, items = map Some xs @ replicate (a - length xs) None\<rparr>"

text \<open>The heap of \<open>nexus_hal.c\<close> has 512 KB, so that no block has more than 131072 cells.\<close>

definition MAX_CELLS :: nat where
  "MAX_CELLS = 131072"

definition heap_limited :: "'o gc_heap \<Rightarrow> bool" where
  "heap_limited gc \<longleftrightarrow> (\<forall>b. grants gc b \<longrightarrow> b \<le> 4 * MAX_CELLS)"

definition elems :: "'o mp_obj_list \<Rightarrow> 'o list" where
  "elems l = map the (take (len l) (items l))"

definition fits :: "'o list \<Rightarrow> nat \<Rightarrow> bool" where
  "fits xs a \<longleftrightarrow> length xs \<le> a \<and> 2 \<le> a \<and> a \<le> MAX_CELLS"

definition list_ok :: "'o mp_obj_list \<Rightarrow> bool" where
  "list_ok l \<longleftrightarrow> l = rep (elems l) (alloc l) \<and> fits (elems l) (alloc l)"

lemma rep_simps [simp]:
  "len (rep xs a) = length xs" "alloc (rep xs a) = a" "items (rep xs a) = map Some xs @ replicate (a - length xs) None"
  by (simp_all add: rep_def)

lemma elems_rep [simp]: "elems (rep xs a) = xs"
  by (simp add: elems_def o_def)

lemma list_ok_rep [simp]: "list_ok (rep xs a) = fits xs a"
  by (simp add: list_ok_def)

lemma list_okE:
  assumes "list_ok l"
  obtains xs a where "l = rep xs a" "fits xs a"
  using assms unfolding list_ok_def by blast

lemma rep_eq: "\<lparr>len = n, alloc = a, items = map Some xs @ cs\<rparr> = rep xs a"
  if "n = length xs" "cs = replicate (a - length xs) None"
  using that by (simp add: rep_def)

lemma rep_items: "length ys = length xs \<Longrightarrow> (rep xs a)\<lparr>items := map Some ys @ replicate (a - length xs) None\<rparr> = rep ys a"
  by (simp add: rep_def)

lemma list_objs_rep [simp]: "list_objs (rep xs a) = Inr xs"
  by (auto simp: list_objs_def get_cells_def o_def)

section \<open>Blocks in parts\<close>

lemma set_cells_parts: "at = length pre \<Longrightarrow> length mid = length src \<Longrightarrow> set_cells at src (pre @ mid @ post) = Inr (pre @ src @ post)"
  by (auto simp: set_cells_def)

lemma get_cells_parts: "at = length pre \<Longrightarrow> n = length mid \<Longrightarrow> get_cells at n (pre @ mid @ post) = Inr mid"
  by (auto simp: get_cells_def)

lemma clear_parts: "at = length pre \<Longrightarrow> n = at + length mid \<Longrightarrow> mp_seq_clear at n (pre @ mid @ post) = Inr (pre @ replicate (length mid) None @ post)"
  by (simp add: mp_seq_clear_def set_cells_parts)

lemma cells_bytes_small [simp]: "n \<le> 1073741823 \<Longrightarrow> cells_bytes n = 4 * n"
  by (simp add: cells_bytes_def to_size_t_def)

lemma new_cells_small:
  "n \<le> 1073741823 \<Longrightarrow> 0 < n \<Longrightarrow> m_new_cells gc n = (if grants gc (4 * n) then Inr (map (stale_cell gc) [0..<n]) else Inl MemoryError)"
  by (simp add: m_new_cells_def)

lemma renew_grow:
  assumes "heap_limited gc" "length cs \<le> MAX_CELLS" "length cs \<le> n" "n \<le> 1073741823"
  obtains "m_renew_cells gc cs n = Inl MemoryError"
  | new where "m_renew_cells gc cs n = Inr (cs @ new)" "length new = n - length cs" "n \<le> MAX_CELLS"
proof (cases "(4 * n + 15) div 16 > (4 * length cs + 15) div 16 \<and> \<not> grants gc (4 * n)")
  case True
  then show ?thesis using assms that(1) by (simp add: m_renew_cells_def)
next
  case False
  have "n \<le> MAX_CELLS"
  proof (cases "grants gc (4 * n)")
    case True
    then show ?thesis using assms(1) by (auto simp: heap_limited_def)
  next
    case no: False
    then have "(4 * n + 15) div 16 \<le> (4 * length cs + 15) div 16" using False by auto
    moreover have "(4 * length cs + 15) div 16 \<le> (4 * 131072 + 15) div 16"
      using assms(2) by (intro div_le_mono) (simp add: MAX_CELLS_def)
    ultimately show ?thesis by (simp add: MAX_CELLS_def)
  qed
  moreover have "m_renew_cells gc cs n = Inr (cs @ map (stale_cell gc) [length cs..<n])"
    using False assms by (auto simp: m_renew_cells_def)
  ultimately show ?thesis using that(2) [of "map (stale_cell gc) [length cs..<n]"] by simp
qed

lemma renew_shrink:
  "n \<le> length cs \<Longrightarrow> n \<le> 1073741823 \<Longrightarrow> m_renew_cells gc cs n = Inr (take n cs)"
  by (auto simp: m_renew_cells_def dest: div_le_mono [of _ _ 16])

lemma fits_small: "fits xs a \<Longrightarrow> a \<le> 131072"
  by (simp add: fits_def MAX_CELLS_def)

section \<open>Appending\<close>

lemma append_store:
  "length xs < a \<Longrightarrow> on_items (set_cells (len (rep xs a)) [Some x] (items (rep xs a))) (rep xs a)
     (\<lambda>self. (Inr (), self\<lparr>len := len self + 1\<rparr>)) = (Inr (), rep (xs @ [x]) a)"
proof -
  assume a: "length xs < a"
  then have eq: "replicate (a - length xs) None = [None] @ replicate (a - length (xs @ [x])) None"
    by (simp add: Suc_diff_Suc flip: replicate_Suc)
  have "set_cells (length xs) [Some x] (map Some xs @ replicate (a - length xs) None)
      = Inr (map Some xs @ [Some x] @ replicate (a - length (xs @ [x])) None)"
    unfolding eq by (rule set_cells_parts) auto
  then show ?thesis by (simp add: rep_def)
qed

lemma append_rep:
  assumes gc: "heap_limited gc" and fits: "fits xs a"
  obtains "mp_obj_list_append gc (rep xs a) (Some x) = (Inl MemoryError, rep xs a)"
  | a' where "mp_obj_list_append gc (rep xs a) (Some x) = (Inr (), rep (xs @ [x]) a')" "fits (xs @ [x]) a'"
proof (cases "length xs < a")
  case True
  then show ?thesis using that(2) [of a] fits append_store [OF True, of x]
    by (simp add: mp_obj_list_append_def Let_def fits_def)
next
  case False
  then have a: "a = length xs" using fits by (simp add: fits_def)
  let ?cs = "map Some xs"
  show ?thesis
  proof (rule renew_grow [OF gc, of ?cs "a * 2"])
    assume "m_renew_cells gc ?cs (a * 2) = Inl MemoryError"
    then show ?thesis using that(1) a by (simp add: mp_obj_list_append_def Let_def)
  next
    fix new assume new: "m_renew_cells gc ?cs (a * 2) = Inr (?cs @ new)" "length new = a * 2 - length ?cs" "a * 2 \<le> MAX_CELLS"
    obtain c new' where n: "new = c # new'" "length new' = a - 1"
      using new(2) a fits by (cases new) (auto simp: fits_def)
    have "mp_seq_clear (length xs + 1) (a * 2) (?cs @ new) = Inr ((?cs @ [c]) @ replicate (a - 1) None)"
      using clear_parts [of "length xs + 1" "?cs @ [c]" "a * 2" new' "[]"] n a fits by (auto simp: fits_def)
    moreover have "set_cells (length xs) [Some x] (?cs @ [c] @ replicate (a - 1) None) = Inr (?cs @ [Some x] @ replicate (a - 1) None)"
      by (rule set_cells_parts) auto
    ultimately have "mp_obj_list_append gc (rep xs a) (Some x) = (Inr (), rep (xs @ [x]) (a * 2))"
      using a new(1) fits by (simp add: mp_obj_list_append_def Let_def rep_def fits_def)
    then show ?thesis using that(2) new(3) a fits by (simp add: fits_def)
  qed (use a fits fits_small [OF fits] in \<open>auto simp: fits_def\<close>)
qed

lemma extend_iter_rep:
  assumes gc: "heap_limited gc"
  shows "fits xs a \<Longrightarrow> \<exists>r n a'. list_extend_from_iter gc (rep xs a) ys = (r, rep (xs @ take n ys) a')
    \<and> fits (xs @ take n ys) a' \<and> (r = Inr () \<and> n = length ys \<or> r = Inl MemoryError)"
proof (induction ys arbitrary: xs a)
  case Nil
  then show ?case by (intro exI [of _ "Inr ()"] exI [of _ 0] exI [of _ a]) simp
next
  case (Cons y ys)
  show ?case
  proof (rule append_rep [OF gc Cons.prems, of y])
    assume "mp_obj_list_append gc (rep xs a) (Some y) = (Inl MemoryError, rep xs a)"
    then show ?thesis using Cons.prems by (intro exI [of _ "Inl MemoryError"] exI [of _ 0] exI [of _ a]) simp
  next
    fix a' assume app: "mp_obj_list_append gc (rep xs a) (Some y) = (Inr (), rep (xs @ [y]) a')" "fits (xs @ [y]) a'"
    obtain r n a'' where "list_extend_from_iter gc (rep (xs @ [y]) a') ys = (r, rep ((xs @ [y]) @ take n ys) a'')"
      "fits ((xs @ [y]) @ take n ys) a''" "r = Inr () \<and> n = length ys \<or> r = Inl MemoryError"
      using Cons.IH [OF app(2)] by blast
    then show ?thesis using app(1)
      by (intro exI [of _ r] exI [of _ "Suc n"] exI [of _ a'']) simp
  qed
qed

lemma extend_list_rep:
  assumes gc: "heap_limited gc" and fits: "fits xs a" "fits ys b"
  obtains "list_extend gc (rep xs a) (A_list (rep ys b)) = (Inl MemoryError, rep xs a)"
  | a' where "list_extend gc (rep xs a) (A_list (rep ys b)) = (Inr (), rep (xs @ ys) a')" "fits (xs @ ys) a'"
proof (cases "length xs + length ys > a")
  case False
  then have eq: "replicate (a - length xs) None = replicate (length ys) None @ replicate (a - length (xs @ ys)) None"
    by (simp flip: replicate_add)
  have "set_cells (length xs) (map Some ys) (map Some xs @ replicate (a - length xs) None)
      = Inr (map Some xs @ map Some ys @ replicate (a - length (xs @ ys)) None)"
    unfolding eq by (rule set_cells_parts) auto
  moreover have "get_cells 0 (length ys) (map Some ys @ replicate (b - length ys) None) = Inr (map Some ys)"
    by (simp add: get_cells_def)
  ultimately have "list_extend gc (rep xs a) (A_list (rep ys b)) = (Inr (), rep (xs @ ys) a)"
    using False by (simp add: list_extend_def Let_def rep_def)
  then show ?thesis using that(2) fits False by (simp add: fits_def)
next
  case True
  define n where "n = length xs + length ys + 4"
  let ?cs = "map Some xs @ replicate (a - length xs) None"
  have small: "a \<le> n" "n \<le> 1073741823" "length ?cs = a" "a \<le> MAX_CELLS" "length xs \<le> a"
    using True fits fits_small [OF fits(1)] fits_small [OF fits(2)] by (auto simp: fits_def n_def)
  show ?thesis
  proof (rule renew_grow [OF gc, of ?cs n])
    assume "m_renew_cells gc ?cs n = Inl MemoryError"
    then show ?thesis using that(1) True by (simp add: list_extend_def Let_def n_def)
  next
    fix new assume new: "m_renew_cells gc ?cs n = Inr (?cs @ new)" "length new = n - length ?cs" "n \<le> MAX_CELLS"
    define mid where "mid = take (length ys) (replicate (a - length xs) None @ new)"
    define post where "post = drop (length ys) (replicate (a - length xs) None @ new)"
    have "replicate (a - length xs) None @ new = mid @ post"
      unfolding mid_def post_def by (rule append_take_drop_id [symmetric])
    then have parts: "?cs @ new = map Some xs @ mid @ post" by simp
    have lens: "length mid = length ys" "length post = 4"
      using new(2) small by (auto simp: n_def mid_def post_def)
    have "mp_seq_clear (length xs + length ys) n (?cs @ new) = Inr ((map Some xs @ mid) @ replicate 4 None @ [])"
      unfolding parts using lens clear_parts [of "length xs + length ys" "map Some xs @ mid" n post "[]"]
      by (simp add: n_def)
    moreover have "set_cells (length xs) (map Some ys) (map Some xs @ mid @ replicate 4 None)
        = Inr (map Some xs @ map Some ys @ replicate 4 None)"
      by (rule set_cells_parts) (simp_all add: lens)
    moreover have "get_cells 0 (length ys) (map Some ys @ replicate (b - length ys) None) = Inr (map Some ys)"
      by (simp add: get_cells_def)
    ultimately have "list_extend gc (rep xs a) (A_list (rep ys b)) = (Inr (), rep (xs @ ys) n)"
      using True new(1) by (simp add: list_extend_def Let_def rep_def n_def)
    then show ?thesis using that(2) new(3) by (simp add: fits_def n_def)
  qed (use small in auto)
qed

lemma shift_up_parts:
  "shift_up (length ms) (length pre + length ms) (pre @ ms @ [c] @ post) = Inr (pre @ [hd (ms @ [c])] @ ms @ post)"
proof (induction ms arbitrary: c post rule: rev_induct)
  case (snoc m ms)
  have get: "get_cell (pre @ (ms @ [m]) @ [c] @ post) (length pre + length ms) = Inr m"
    by (simp add: get_cell_def nth_append)
  have set: "set_cells (length pre + length (ms @ [m])) [m] (pre @ (ms @ [m]) @ [c] @ post)
      = Inr (pre @ ms @ [m] @ [m] @ post)"
    using set_cells_parts [of "length pre + length (ms @ [m])" "pre @ ms @ [m]" "[c]" "[m]" post] by simp
  have "shift_up (length (ms @ [m])) (length pre + length (ms @ [m])) (pre @ (ms @ [m]) @ [c] @ post)
      = shift_up (length ms) (length pre + length ms) (pre @ ms @ [m] @ [m] @ post)"
    using get set by simp
  also have "\<dots> = Inr (pre @ [hd (ms @ [m])] @ ms @ [m] @ post)" by (rule snoc)
  finally show ?case by (cases ms) auto
qed simp

definition py_insert_at :: "int \<Rightarrow> nat \<Rightarrow> nat" where
  "py_insert_at i n = nat (max 0 (min (int n) (if i < 0 then i + int n else i)))"

lemma py_insert_at_le: "py_insert_at i n \<le> n"
  by (auto simp: py_insert_at_def)

lemma insert_rep:
  fixes i :: int and xs :: "'o list"
  assumes gc: "heap_limited gc" and fits: "fits xs a"
  defines "j \<equiv> py_insert_at i (length xs)"
  obtains "list_insert gc none (rep xs a) i x = (Inl MemoryError, rep xs a)"
  | a' where "list_insert gc none (rep xs a) i x = (Inr (), rep (take j xs @ x # drop j xs) a')"
      "fits (take j xs @ x # drop j xs) a'"
proof -
  have j: "j \<le> length xs" unfolding j_def by (rule py_insert_at_le)
  have idx: "nat (let index = (if i < 0 then i + int (len (rep xs a)) else i);
          index = (if index < 0 then 0 else index) in
        if index > int (len (rep xs a)) then int (len (rep xs a)) else index) = j"
    by (auto simp: j_def py_insert_at_def Let_def)
  show ?thesis
  proof (rule append_rep [OF gc fits, of none])
    assume "mp_obj_list_append gc (rep xs a) (Some none) = (Inl MemoryError, rep xs a)"
    then show ?thesis using that(1) by (simp add: list_insert_def Let_def)
  next
    fix a' assume app: "mp_obj_list_append gc (rep xs a) (Some none) = (Inr (), rep (xs @ [none]) a')" "fits (xs @ [none]) a'"
    define pre where "pre = map Some (take j xs)"
    define ms where "ms = map Some (drop j xs)"
    define post where "post = replicate (a' - length (xs @ [none])) (None :: 'o option)"
    have "map Some xs = pre @ ms" by (simp add: pre_def ms_def flip: map_append)
    then have cs: "map Some (xs @ [none]) @ post = pre @ ms @ [Some none] @ post" by simp
    have len: "length pre = j" "length ms = length xs - j" using j by (auto simp: pre_def ms_def)
    have shift: "shift_up (length xs - j) (length xs) (map Some (xs @ [none]) @ post)
        = Inr (pre @ [hd (ms @ [Some none])] @ ms @ post)"
      using shift_up_parts [of ms pre "Some none" post] len j unfolding cs by simp
    have set: "set_cells j [Some x] (pre @ [hd (ms @ [Some none])] @ ms @ post) = Inr (pre @ [Some x] @ ms @ post)"
      by (rule set_cells_parts) (simp_all add: len)
    have "list_insert gc none (rep xs a) i x = (Inr (), rep (take j xs @ x # drop j xs) a')"
      unfolding list_insert_def idx [unfolded Let_def] Let_def app(1)
      using shift set j by (simp add: rep_def post_def pre_def ms_def)
    moreover have "fits (take j xs @ x # drop j xs) a'" using app(2) j by (simp add: fits_def)
    ultimately show ?thesis using that(2) by blast
  qed
qed

section \<open>Removing\<close>

lemma pop_rep:
  assumes fits: "fits xs a" and j: "mp_get_index (length xs) (case arg of None \<Rightarrow> Some (- 1) | Some i \<Rightarrow> i) False = Inr j"
  obtains a' where "list_pop gc (rep xs a) arg = (Inr (Some (xs ! j)), rep (take j xs @ drop (Suc j) xs) a')"
    "fits (take j xs @ drop (Suc j) xs) a'"
proof -
  have jn: "j < length xs" using mp_get_index_bound [OF j] .
  define ys where "ys = take j xs @ drop (Suc j) xs"
  define R where "R = replicate (a - length xs) (None :: 'a option)"
  have len: "length ys = length xs - 1" using jn by (simp add: ys_def)
  have get: "get_cells (j + 1) (length xs - 1 - j) (map Some xs @ R) = Inr (map Some (drop (Suc j) xs))"
  proof -
    have "map Some xs = map Some (take (Suc j) xs) @ map Some (drop (Suc j) xs)" by (simp flip: map_append)
    then have "map Some xs @ R = map Some (take (Suc j) xs) @ map Some (drop (Suc j) xs) @ R" by simp
    then show ?thesis using get_cells_parts [of "j + 1" "map Some (take (Suc j) xs)" "length xs - 1 - j" "map Some (drop (Suc j) xs)" R] jn
      by simp
  qed
  have drop: "map Some (drop j xs) = map Some (butlast (drop j xs)) @ [Some (last xs)]"
  proof -
    have "drop j xs \<noteq> []" "last (drop j xs) = last xs" using jn by (simp_all add: last_drop)
    then have "drop j xs = butlast (drop j xs) @ [last xs]" using append_butlast_last_id [of "drop j xs"] by simp
    from arg_cong [OF this, of "map Some"] show ?thesis by simp
  qed
  have "map Some xs = map Some (take j xs) @ map Some (drop j xs)" by (simp flip: map_append)
  then have xs: "map Some xs @ R = map Some (take j xs) @ map Some (butlast (drop j xs)) @ Some (last xs) # R"
    unfolding drop by simp
  have set: "set_cells j (map Some (drop (Suc j) xs)) (map Some xs @ R)
      = Inr (map Some (take j xs) @ map Some (drop (Suc j) xs) @ Some (last xs) # R)"
    unfolding xs by (rule set_cells_parts) (use jn in auto)
  have set2: "set_cells (length xs - 1) [None] (map Some ys @ [Some (last xs)] @ R) = Inr (map Some ys @ [None] @ R)"
    by (rule set_cells_parts) (use len in auto)
  have R: "[None] @ R = replicate (a - length ys) None"
    using len fits jn unfolding R_def fits_def by (auto simp: Suc_diff_Suc simp flip: replicate_Suc)
  have body: "list_pop gc (rep xs a) arg =
      (if a > 4 \<and> a > 2 * length ys then
         on_items (m_renew_cells gc (items (rep ys a)) (a div 2)) (rep ys a)
           (\<lambda>self. (Inr (Some (xs ! j)), self\<lparr>alloc := a div 2\<rparr>))
       else (Inr (Some (xs ! j)), rep ys a))"
  proof -
    have ne: "xs \<noteq> []" and cell: "get_cell (map Some xs @ R) j = Inr (Some (xs ! j))"
      using jn by (auto simp: get_cell_def nth_append)
    have fin: "\<lparr>len = length xs - 1, alloc = a, items = map Some ys @ [None] @ R\<rparr> = rep ys a"
      unfolding R by (simp add: rep_def len)
    have set': "set_cells j (map Some (drop (Suc j) xs)) (map Some xs @ R) = Inr (map Some ys @ [Some (last xs)] @ R)"
      using set by (simp add: ys_def)
    have rep: "rep xs a = \<lparr>len = length xs, alloc = a, items = map Some xs @ R\<rparr>" by (simp add: rep_def R_def)
    show ?thesis
      unfolding list_pop_def rep Let_def fin [symmetric]
      using ne j cell get set' set2 len by (simp add: LIST_MIN_ALLOC_def del: append.simps cong: sum.case_cong)
  qed
  show ?thesis
  proof (cases "a > 4 \<and> a > 2 * length ys")
    case True
    have "m_renew_cells gc (items (rep ys a)) (a div 2) = Inr (take (a div 2) (items (rep ys a)))"
      using True fits_small [OF fits] len by (intro renew_shrink) auto
    also have "\<dots> = Inr (map Some ys @ replicate (a div 2 - length ys) None)"
    proof -
      have "length ys \<le> a div 2" "a div 2 - length ys \<le> a - length ys" using True by auto
      then show ?thesis by (simp add: min_def)
    qed
    finally have "list_pop gc (rep xs a) arg = (Inr (Some (xs ! j)), rep ys (a div 2))"
      using True unfolding body by (simp add: rep_def)
    moreover have "fits ys (a div 2)" using True fits by (auto simp: fits_def)
    ultimately show ?thesis using that by (simp add: ys_def)
  next
    case False
    have "fits ys a" using fits len by (auto simp: fits_def)
    moreover have "list_pop gc (rep xs a) arg = (Inr (Some (xs ! j)), rep ys a)"
      unfolding body using False by (rule if_not_P)
    ultimately show ?thesis using that unfolding ys_def by blast
  qed
qed

lemma pop_empty: "list_pop gc (rep [] a) arg = (Inl IndexError, rep [] a)"
  by (simp add: list_pop_def)

lemma pop_error:
  "xs \<noteq> [] \<Longrightarrow> mp_get_index (length xs) (case arg of None \<Rightarrow> Some (- 1) | Some i \<Rightarrow> i) False = Inl e
    \<Longrightarrow> list_pop gc (rep xs a) arg = (Inl e, rep xs a)"
  by (simp add: list_pop_def)

lemma renew_min:
  assumes "2 \<le> length cs"
  shows "\<exists>cs'. m_renew_cells gc cs 4 = Inr cs' \<and> length cs' = 4"
proof -
  have "(4 * 1 + 15) div 16 \<le> (4 * length cs + 15) div 16" using assms by (intro div_le_mono) simp
  then have "1 \<le> (4 * length cs + 15) div 16" by simp
  then show ?thesis using assms by (simp add: m_renew_cells_def)
qed

lemma clear_rep:
  assumes "fits xs a"
  shows "list_clear gc (rep xs a) = (Inr (), rep [] 4)"
proof -
  let ?cs = "map Some xs @ replicate (a - length xs) None"
  have a: "length ?cs = a" "2 \<le> a" using assms by (auto simp: fits_def)
  obtain cs where cs: "m_renew_cells gc ?cs 4 = Inr cs" "length cs = 4"
    using renew_min [of ?cs gc] a by auto
  have "mp_seq_clear 0 4 cs = Inr (replicate 4 None)"
    using clear_parts [of 0 "[]" 4 cs "[]"] cs(2) by simp
  then show ?thesis using cs(1) by (simp add: list_clear_def Let_def LIST_MIN_ALLOC_def rep_def)
qed

section \<open>Rearranging\<close>

lemma reverse_loop_parts:
  "length A = i \<Longrightarrow> n = 2 * i + length M \<Longrightarrow> reverse_loop (length M div 2) n i (A @ M @ B) = Inr (A @ rev M @ B)"
proof (induction "length M" arbitrary: M A B i rule: less_induct)
  case less
  show ?case
  proof (cases "length M < 2")
    case True
    then have "rev M = M" by (cases M) auto
    then show ?thesis using True by simp
  next
    case False
    then obtain x M' y where M: "M = x # M' @ [y]"
      by (metis append_butlast_last_id length_Cons length_append_singleton list.size(3) neq_Nil_conv less_Suc_eq
          numeral_2_eq_2 zero_less_Suc append_Cons butlast.simps(2) last.simps)
    have nth: "get_cell (A @ M @ B) i = Inr x" "get_cell (A @ M @ B) (n - i - 1) = Inr y"
      using less(2,3) by (auto simp: get_cell_def M nth_append)
    have s1: "set_cells i [y] (A @ M @ B) = Inr (A @ [y] @ (M' @ [y]) @ B)"
      using set_cells_parts [of i A "[x]" "[y]" "M' @ [y] @ B"] less(2) by (simp add: M)
    have s2: "set_cells (n - i - 1) [x] (A @ [y] @ (M' @ [y]) @ B) = Inr ((A @ [y]) @ M' @ [x] @ B)"
      using set_cells_parts [of "n - i - 1" "A @ [y] @ M'" "[y]" "[x]" B] less(2,3) by (simp add: M)
    have half: "length M div 2 = Suc (length M' div 2)" by (simp add: M)
    have "reverse_loop (length M div 2) n i (A @ M @ B) = reverse_loop (length M' div 2) n (i + 1) ((A @ [y]) @ M' @ [x] @ B)"
      unfolding half using nth s1 s2 by simp
    also have "\<dots> = Inr ((A @ [y]) @ rev M' @ [x] @ B)"
      by (rule less(1)) (use less(2,3) in \<open>auto simp: M\<close>)
    finally show ?thesis by (simp add: M)
  qed
qed

lemma reverse_rep: "list_reverse (rep xs a) = (Inr (), rep (rev xs) a)"
  using reverse_loop_parts [of "[]" 0 "length xs" "map Some xs" "replicate (a - length xs) None"]
  by (simp add: list_reverse_def rep_def rev_map)

lemma sort_rep:
  assumes "decides (\<lambda>x y. lt x y = (\<not> reversed)) le"
  obtains ys where "mp_obj_list_sort key lt reversed (rep xs a) = (Inr (), rep ys a)"
    "mset ys = mset xs" "\<forall>i j. i \<le> j \<longrightarrow> j < length ys \<longrightarrow> le (key (ys ! i)) (key (ys ! j))"
proof (cases "length xs > 1")
  case False
  have "\<forall>i j. i \<le> j \<longrightarrow> j < length xs \<longrightarrow> le (key (xs ! i)) (key (xs ! j))"
  proof (intro allI impI)
    fix i j assume "i \<le> j" "j < length xs"
    then have "i = j" using False by auto
    then show "le (key (xs ! i)) (key (xs ! j))" using decidesD(3) [OF assms] by simp
  qed
  then show ?thesis using that [of xs] False by (simp add: mp_obj_list_sort_def)
next
  case True
  define ys where "ys = mp_quicksort key (\<lambda>x y. lt x y = (\<not> reversed)) xs 0 (int (length xs) - 1)"
  have q: "rearranged 0 (int (length xs) - 1) xs ys" "sorted_part le key ys 0 (int (length xs) - 1)"
    using mp_quicksort_correct [OF assms, of 0 "int (length xs) - 1" xs key] by (simp_all add: ys_def)
  have len: "length ys = length xs" using rearranged_length [OF q(1)] .
  have "le (key (ys ! i)) (key (ys ! j))" if "i \<le> j" "j < length ys" for i j
    using q(2) [unfolded sorted_part_def, rule_format, of "int i" "int j"] that len by auto
  moreover have "mset ys = mset xs" using q(1) by (simp add: rearranged_def)
  moreover have "mp_obj_list_sort key lt reversed (rep xs a) = (Inr (), rep ys a)"
    using True rep_items [OF len, of a] by (simp add: mp_obj_list_sort_def ys_def [symmetric])
  ultimately show ?thesis using that by blast
qed

end
