(* ===== verification/MpListAll.thy ===== *)
theory MpListAll
  imports MpListOk
begin

text \<open>New lists made from lists, subscripts and slices.\<close>

section \<open>New lists\<close>

lemma set_cells_nil [simp]: "set_cells at [] dest = Inr dest"
  by (simp add: set_cells_def)

text \<open>What an operation that makes a list gives: the list of these items, or a memory error.\<close>

definition makes_list :: "'o list \<Rightarrow> seq_error + 'o mp_obj_list \<Rightarrow> bool" where
  "makes_list zs r \<longleftrightarrow> r = Inl MemoryError \<or> (\<exists>a. r = Inr (rep zs a) \<and> fits zs a)"

lemma list_new_filled:
  assumes gc: "heap_limited gc" and n: "n \<le> 1073741823" "length zs = n"
    and fill: "\<And>cs R. length cs = n \<Longrightarrow> fill (cs @ R) = Inr (map Some zs @ R)"
  shows "makes_list zs (and_then (list_new gc n) (\<lambda>s. and_then (fill (items s)) (\<lambda>cs. Inr (s\<lparr>items := cs\<rparr>))))"
proof -
  define a where "a = (if n < 4 then 4 else n)"
  have a: "n \<le> a" "4 \<le> a" "a \<le> 1073741823" using n(1) by (auto simp: a_def)
  have new: "list_new gc n = and_then (m_new_cells gc a) (\<lambda>cs. and_then (mp_seq_clear n a cs) (\<lambda>cs'.
      Inr \<lparr>len = n, alloc = a, items = cs'\<rparr>))"
    unfolding list_new_def mp_obj_list_init_def LIST_MIN_ALLOC_def Let_def a_def by (rule refl)
  show ?thesis
  proof (cases "grants gc (4 * a)")
    case False
    then have "list_new gc n = Inl MemoryError" using new_cells_small [of a gc] a by (simp add: new)
    then show ?thesis by (simp add: makes_list_def)
  next
    case True
    define st where "st = map (stale_cell gc) [0..<a]"
    have st: "length (drop n st) = a - n" "length (take n st) = n"
      using a(1) by (simp_all add: st_def min_def)
    have "mp_seq_clear n a (take n st @ drop n st @ []) = Inr (take n st @ replicate (length (drop n st)) None @ [])"
      by (rule clear_parts) (use st a(1) in auto)
    then have "mp_seq_clear n a st = Inr (take n st @ replicate (a - n) None)"
      by (simp only: append_Nil2 append_take_drop_id st(1))
    then have "list_new gc n = Inr \<lparr>len = n, alloc = a, items = take n st @ replicate (a - n) None\<rparr>"
      using True new_cells_small [of a gc] a by (simp add: new st_def [symmetric])
    moreover have "fill (take n st @ replicate (a - n) None) = Inr (map Some zs @ replicate (a - n) None)"
      by (rule fill) (use st in auto)
    moreover have "a \<le> MAX_CELLS" using gc True by (auto simp: heap_limited_def)
    ultimately have "and_then (list_new gc n) (\<lambda>s. and_then (fill (items s)) (\<lambda>cs. Inr (s\<lparr>items := cs\<rparr>))) = Inr (rep zs a)"
      by (simp add: rep_def n(2))
    moreover have "fits zs a" using n(2) a \<open>a \<le> MAX_CELLS\<close> by (simp add: fits_def)
    ultimately show ?thesis unfolding makes_list_def by blast
  qed
qed

lemma new_empty:
  assumes "heap_limited gc"
  shows "makes_list [] (mp_obj_new_list gc 0 None)"
proof -
  have "makes_list [] (and_then (list_new gc 0) (\<lambda>s. and_then (Inr (items s)) (\<lambda>cs. Inr (s\<lparr>items := cs\<rparr>))))"
    by (rule list_new_filled [OF assms]) auto
  then show ?thesis by (cases "list_new gc 0") (simp_all add: mp_obj_new_list_def)
qed

lemma copy_rep:
  assumes "heap_limited gc" "fits xs a"
  shows "makes_list xs (list_copy gc (rep xs a))"
proof -
  have "mp_seq_copy (cs @ R) (map Some xs @ replicate (a - length xs) None) (length xs) = Inr (map Some xs @ R)"
    if "length cs = length xs" for cs R
    using that set_cells_parts [of 0 "[]" cs "map Some xs" R] by (auto simp: mp_seq_copy_def get_cells_def)
  then show ?thesis
    unfolding list_copy_def mp_obj_new_list_def rep_simps option.case using fits_small [OF assms(2)] assms(2)
    by (intro list_new_filled [OF assms(1)]) (auto simp: fits_def)
qed

lemma add_rep:
  assumes "heap_limited gc" "fits xs a" "fits ys b"
  shows "makes_list (xs @ ys) (list_add gc (rep xs a) (rep ys b))"
proof -
  have "mp_seq_cat (cs @ R) (map Some xs @ replicate (a - length xs) None) (length xs)
      (map Some ys @ replicate (b - length ys) None) (length ys) = Inr (map Some (xs @ ys) @ R)"
    if "length cs = length xs + length ys" for cs R
    using that by (simp add: mp_seq_cat_ok)
  then show ?thesis
    unfolding list_add_def rep_simps using fits_small [OF assms(2)] fits_small [OF assms(3)] assms(2,3)
    by (intro list_new_filled [OF assms(1)]) (auto simp: fits_def)
qed

lemma multiply_rep:
  assumes "heap_limited gc" "fits xs a" "length xs * nat n \<le> 1073741823"
  shows "makes_list (concat (replicate (nat n) xs)) (list_multiply gc (rep xs a) n)"
proof -
  have "mp_seq_multiply (map Some xs @ replicate (a - length xs) None) (length xs) (nat n) (cs @ R)
      = Inr (map Some (concat (replicate (nat n) xs)) @ R)"
    if "length cs = length xs * nat n" for cs R
    using that by (simp add: mp_seq_multiply_ok mult.commute map_concat)
  then show ?thesis
    using list_new_filled [OF assms(1), of "length xs * nat n" "concat (replicate (nat n) xs)"] assms(3)
    by (simp add: list_multiply_def Let_def to_size_t_def length_concat sum_list_replicate mult.commute)
qed

section \<open>Slices of a list\<close>

lemma extract_up_eq:
  assumes "step > 0"
  shows "0 \<le> start \<Longrightarrow> stop \<le> int (length xs) \<Longrightarrow>
    extract_up gc (map Some xs @ R) start stop step res
      = Some (list_extend_from_iter gc res (map (\<lambda>p. xs ! nat p) (py_range start stop step)))"
proof (induction "length (py_range start stop step)" arbitrary: start res rule: less_induct)
  case less
  show ?case
  proof (cases "start < stop")
    case False
    then have "py_range start stop step = []" using py_range_Nil [of step stop start] assms by simp
    then show ?thesis using False by (subst extract_up.simps) simp
  next
    case True
    have r: "py_range start stop step = start # py_range (start + step) stop step"
      using py_range_Cons [of step start stop] True assms by simp
    have cell: "cell_at (map Some xs @ R) start = Inr (Some (xs ! nat start))"
      using True less(2,3) by (simp add: cell_at_def get_cell_def nth_append nat_less_iff)
    have IH: "extract_up gc (map Some xs @ R) (start + step) stop step res'
        = Some (list_extend_from_iter gc res' (map (\<lambda>p. xs ! nat p) (py_range (start + step) stop step)))" for res'
      by (rule less(1)) (use r less(2,3) assms in auto)
    show ?thesis using True cell unfolding r
      by (subst extract_up.simps) (simp add: IH split: prod.split sum.split)
  qed
qed

lemma extract_down_eq:
  assumes "step < 0"
  shows "start < int (length xs) \<Longrightarrow> 0 \<le> stop \<Longrightarrow>
    extract_down gc (map Some xs @ R) start stop step res
      = Some (list_extend_from_iter gc res (map (\<lambda>p. xs ! nat p) (py_range start (stop - 1) step)))"
proof (induction "length (py_range start (stop - 1) step)" arbitrary: start res rule: less_induct)
  case less
  show ?case
  proof (cases "stop \<le> start")
    case False
    then have "py_range start (stop - 1) step = []" using py_range_Nil [of step "stop - 1" start] assms by simp
    then show ?thesis using False by (subst extract_down.simps) simp
  next
    case True
    have r: "py_range start (stop - 1) step = start # py_range (start + step) (stop - 1) step"
      using py_range_Cons [of step start "stop - 1"] True assms by simp
    have cell: "cell_at (map Some xs @ R) start = Inr (Some (xs ! nat start))"
      using True less(2,3) by (simp add: cell_at_def get_cell_def nth_append nat_less_iff)
    have IH: "extract_down gc (map Some xs @ R) (start + step) stop step res'
        = Some (list_extend_from_iter gc res' (map (\<lambda>p. xs ! nat p) (py_range (start + step) (stop - 1) step)))" for res'
      by (rule less(1)) (use r less(2,3) assms in auto)
    show ?thesis using True cell unfolding r
      by (subst extract_down.simps) (simp add: IH split: prod.split sum.split)
  qed
qed

definition py_cut :: "mp_obj_slice \<Rightarrow> nat \<Rightarrow> seq_error + (nat \<times> nat)" where
  "py_cut sl n =
     (if sl_step sl = Other_part then Inl TypeError
      else if sl_step sl = Int_part 0 then Inl ValueError
      else if sl_start sl = Other_part \<or> sl_stop sl = Other_part then Inl TypeError
      else if sl_step sl = None_part \<or> sl_step sl = Int_part 1 then
        let i = py_limit (sl_start sl) 0 (int n) 0 (int n); j = py_limit (sl_stop sl) (int n) (int n) 0 (int n)
        in Inr (nat i, nat (max i j))
      else Inl NotImplementedError)"

lemma py_cut_bounds: "py_cut sl n = Inr (i, j) \<Longrightarrow> i \<le> j \<and> j \<le> n"
  using py_limit_bounds [of 0 "int n" 0 "sl_start sl" "int n"] py_limit_bounds [of 0 "int n" "int n" "sl_stop sl" "int n"]
  by (auto simp: py_cut_def Let_def split: if_splits)

lemma cut_cases:
  obtains e where "mp_seq_get_fast_slice_indexes n sl = Inl e" "py_cut sl n = Inl e"
  | b where "mp_seq_get_fast_slice_indexes n sl = Inr (False, b)" "py_cut sl n = Inl NotImplementedError"
  | b i j where "mp_seq_get_fast_slice_indexes n sl = Inr (True, b)" "py_cut sl n = Inr (i, j)" "i \<le> j" "j \<le> n"
      "bs_start b = int i" "bs_stop b = int j" "bs_step b = 1"
proof (cases "mp_seq_get_fast_slice_indexes n sl")
  case (Inl e)
  then have "py_slice_of sl (int n) = Inl e" using fast_slice_correct [where len = n and sl = sl] by simp
  then have "py_cut sl n = Inl e" by (auto simp: py_slice_of_def py_cut_def split: if_splits)
  then show ?thesis using that(1) Inl by blast
next
  case (Inr r)
  obtain fast b where r: "r = (fast, b)" by (cases r)
  have ok: "sl_step sl \<noteq> Other_part" "sl_step sl \<noteq> Int_part 0" "sl_start sl \<noteq> Other_part" "sl_stop sl \<noteq> Other_part"
  proof -
    have "py_slice_of sl (int n) \<noteq> Inl e" for e
      using fast_slice_correct [where len = n and sl = sl] Inr r by (cases "bs_step b > 0") (auto simp: linorder_neq_iff)
    then show "sl_step sl \<noteq> Other_part" "sl_step sl \<noteq> Int_part 0" "sl_start sl \<noteq> Other_part" "sl_stop sl \<noteq> Other_part"
      unfolding py_slice_of_def by (metis)+
  qed
  define k where "k = (case sl_step sl of Int_part k \<Rightarrow> k | _ \<Rightarrow> 1)"
  define i where "i = py_limit (sl_start sl) 0 (int n) 0 (int n)"
  define j where "j = py_limit (sl_stop sl) (int n) (int n) 0 (int n)"
  have one: "k = 1 \<longleftrightarrow> sl_step sl = None_part \<or> sl_step sl = Int_part 1"
    using ok by (cases "sl_step sl") (auto simp: k_def)
  show ?thesis
  proof (cases "k = 1")
    case True
    have ix: "mp_obj_slice_indices sl (int n) = Inr \<lparr>bs_start = i, bs_stop = j, bs_step = 1\<rparr>"
      using ok True unfolding slice_indices_correct [OF of_nat_0_le_iff] Let_def k_def [symmetric] i_def j_def by simp
    have "mp_seq_get_fast_slice_indexes n sl = Inr (True, \<lparr>bs_start = i, bs_stop = max i j, bs_step = 1\<rparr>)"
      by (simp add: mp_seq_get_fast_slice_indexes_def ix Let_def max_def)
    moreover have cut: "py_cut sl n = Inr (nat i, nat (max i j))"
      using ok True one by (simp add: py_cut_def Let_def i_def j_def)
    moreover have "0 \<le> i" using py_limit_bounds [of 0 "int n" 0 "sl_start sl" "int n"] by (simp add: i_def)
    then have "0 \<le> max i j" by simp
    ultimately show ?thesis using that(3) [of "\<lparr>bs_start = i, bs_stop = max i j, bs_step = 1\<rparr>" "nat i" "nat (max i j)"] py_cut_bounds [OF cut] \<open>0 \<le> i\<close> by simp
  next
    case False
    have "bs_step b = k"
    proof -
      have "\<exists>i j. mp_obj_slice_indices sl (int n) = Inr \<lparr>bs_start = i, bs_stop = j, bs_step = k\<rparr>"
        using ok unfolding slice_indices_correct [OF of_nat_0_le_iff] Let_def k_def [symmetric] by auto
      then show ?thesis using Inr r by (auto simp: mp_seq_get_fast_slice_indexes_def Let_def)
    qed
    then have "\<not> fast" using fast_slice_correct [where len = n and sl = sl] Inr r False by simp
    moreover have "py_cut sl n = Inl NotImplementedError" using ok False one by (simp add: py_cut_def)
    ultimately show ?thesis using that(2) Inr r by simp
  qed
qed

lemma py_range_1: "i \<le> j \<Longrightarrow> j \<le> length xs \<Longrightarrow> map (\<lambda>p. xs ! nat p) (py_range (int i) (int j) 1) = take (j - i) (drop i xs)"
  by (rule nth_equalityI) (auto simp: py_range_def nat_add_distrib nat_int_add simp flip: of_nat_add)

lemma makes_list_then: "makes_list zs r \<Longrightarrow> and_then r (\<lambda>l. Inr (Sublist l)) = Inl MemoryError
    \<or> (\<exists>a. and_then r (\<lambda>l. Inr (Sublist l)) = Inr (Sublist (rep zs a)) \<and> fits zs a)"
  by (auto simp: makes_list_def)

text \<open>The general slice: the loop returns, and the list it makes has the items that Python's slice selects.\<close>

lemma extract_slice_rep:
  assumes gc: "heap_limited gc" and fast: "mp_seq_get_fast_slice_indexes (length xs) sl = Inr (f, b)"
    and ps: "py_slice_of sl (int (length xs)) = Inr ps"
  shows "\<exists>r. mp_seq_extract_slice gc (map Some xs @ R) b = Some r \<and> makes_list (map (\<lambda>p. xs ! nat p) ps) r"
proof -
  let ?zs = "map (\<lambda>p. xs ! nat p) ps"
  note b = fast_slice_correct [where len = "length xs" and sl = sl, unfolded fast, simplified]
  have run: "(if bs_step b < 0 then extract_down gc (map Some xs @ R) (bs_start b) (bs_stop b) (bs_step b) res
      else extract_up gc (map Some xs @ R) (bs_start b) (bs_stop b) (bs_step b) res)
    = Some (list_extend_from_iter gc res ?zs)" for res
  proof (cases "bs_step b < 0")
    case True
    then show ?thesis using b ps extract_down_eq [of "bs_step b" "bs_start b" xs "bs_stop b" gc R res] by auto
  next
    case False
    then have "bs_step b > 0" using b by auto
    then show ?thesis using b ps extract_up_eq [of "bs_step b" "bs_start b" "bs_stop b" xs gc R res] by auto
  qed
  show ?thesis
  proof (cases "mp_obj_new_list gc 0 None")
    case (Inl e)
    then show ?thesis using new_empty [OF gc] by (auto simp: mp_seq_extract_slice_def makes_list_def)
  next
    case (Inr res)
    then obtain a where res: "res = rep [] a" "fits ([] :: 'a list) a" using new_empty [OF gc] by (auto simp: makes_list_def)
    obtain r n a' where "list_extend_from_iter gc (rep [] a) ?zs = (r, rep ([] @ take n ?zs) a')"
      "fits ([] @ take n ?zs) a'" "r = Inr () \<and> n = length ?zs \<or> r = Inl MemoryError"
      using extend_iter_rep [OF gc res(2), of ?zs] by blast
    then show ?thesis unfolding mp_seq_extract_slice_def Inr res(1) run makes_list_def by auto
  qed
qed

lemma load_slice_rep:
  assumes gc: "heap_limited gc" and fits: "fits xs a"
  shows "case py_slice_of sl (int (length xs)) of
      Inl e \<Rightarrow> list_subscr_load gc (rep xs a) (Slice_of sl) = Some (Inl e)
    | Inr ps \<Rightarrow> \<exists>r. list_subscr_load gc (rep xs a) (Slice_of sl) = Some (and_then r (\<lambda>l. Inr (Sublist l)))
        \<and> makes_list (map (\<lambda>p. xs ! nat p) ps) r"
proof (rule cut_cases [of "length xs" sl])
  fix e assume "mp_seq_get_fast_slice_indexes (length xs) sl = Inl e"
  then show ?thesis using fast_slice_correct [where len = "length xs" and sl = sl] by (simp add: list_subscr_load_def)
next
  fix b assume f: "mp_seq_get_fast_slice_indexes (length xs) sl = Inr (False, b)"
  then obtain ps where ps: "py_slice_of sl (int (length xs)) = Inr ps"
    using fast_slice_correct [where len = "length xs" and sl = sl] by (cases "bs_step b > 0") (auto simp: linorder_neq_iff)
  obtain r where r: "mp_seq_extract_slice gc (map Some xs @ replicate (a - length xs) None) b = Some r"
      "makes_list (map (\<lambda>p. xs ! nat p) ps) r"
    using extract_slice_rep [OF gc f ps] by blast
  then show ?thesis using f ps by (auto simp: list_subscr_load_def)
next
  fix b i j
  assume f: "mp_seq_get_fast_slice_indexes (length xs) sl = Inr (True, b)" and ij: "i \<le> j" "j \<le> length xs"
    and b: "bs_start b = int i" "bs_stop b = int j" "bs_step b = 1"
  have ps: "py_slice_of sl (int (length xs)) = Inr (py_range (int i) (int j) 1)"
    using fast_slice_correct [where len = "length xs" and sl = sl] f b by simp
  let ?zs = "take (j - i) (drop i xs)"
  have get: "get_cells i (j - i) (map Some xs @ replicate (a - length xs) None) = Inr (map Some ?zs)"
    using ij by (auto simp: get_cells_def take_map drop_map)
  have "makes_list ?zs (and_then (list_new gc (j - i)) (\<lambda>s. and_then (set_cells 0 (map Some ?zs) (items s)) (\<lambda>cs. Inr (s\<lparr>items := cs\<rparr>))))"
  proof (rule list_new_filled [OF gc])
    fix cs R :: "'a option list" assume "length cs = j - i"
    then show "set_cells 0 (map Some ?zs) (cs @ R) = Inr (map Some ?zs @ R)"
      using ij set_cells_parts [of 0 "[]" cs "map Some ?zs" R] by simp
  qed (use ij fits fits_small [OF fits] in \<open>auto simp: fits_def\<close>)
  moreover have "list_subscr_load gc (rep xs a) (Slice_of sl) = Some (and_then
      (and_then (list_new gc (j - i)) (\<lambda>s. and_then (set_cells 0 (map Some ?zs) (items s)) (\<lambda>cs. Inr (s\<lparr>items := cs\<rparr>))))
      (\<lambda>l. Inr (Sublist l)))"
    using f b ij get nat_int [of "j - i"] by (simp add: list_subscr_load_def Let_def of_nat_diff split: sum.split)
  ultimately show ?thesis unfolding ps by (auto simp: py_range_1 [OF ij])
qed

section \<open>Storing and deleting\<close>

lemma store_rep:
  "mp_get_index (length xs) i False = Inr j \<Longrightarrow> mp_obj_list_store (rep xs a) i x = (Inr (), rep (xs[j := x]) a)"
proof -
  assume j: "mp_get_index (length xs) i False = Inr j"
  then have jn: "j < length xs" by (rule mp_get_index_bound)
  then have "map Some xs = map Some (take j xs) @ [Some (xs ! j)] @ map Some (drop (Suc j) xs)"
    by (metis append_Cons append_Nil id_take_nth_drop list.simps(9) map_append)
  then have "set_cells j [Some x] (map Some xs @ replicate (a - length xs) None)
      = Inr (map Some (take j xs) @ [Some x] @ (map Some (drop (Suc j) xs) @ replicate (a - length xs) None))"
    using set_cells_parts [of j "map Some (take j xs)" "[Some (xs ! j)]" "[Some x]"] jn by simp
  then show ?thesis using j jn by (simp add: mp_obj_list_store_def rep_def upd_conv_take_nth_drop)
qed

text \<open>Replacing the items from \<open>i\<close> to \<open>j\<close> when the list does not grow, and clearing the cells freed.\<close>

lemma no_grow_rep:
  fixes xs :: "'o list"
  assumes "i \<le> j" "j \<le> length xs" "length vs \<le> j - i" "length xs \<le> a"
  defines "n \<equiv> length xs - (j - i - length vs)"
  shows "on_items (mp_seq_replace_slice_no_grow (items (rep xs a)) (len (rep xs a)) i j (map Some vs)) (rep xs a) (\<lambda>self.
      on_items (mp_seq_clear n (len self) (items self)) self (\<lambda>self. (Inr (), self\<lparr>len := n\<rparr>)))
    = (Inr (), rep (take i xs @ vs @ drop j xs) a)"
proof -
  define R where "R = replicate (a - length xs) (None :: 'o option)"
  define ys where "ys = take i xs @ vs @ drop j xs"
  have len: "length ys = n" "n \<le> length xs" using assms by (auto simp: ys_def n_def)
  have "mp_seq_replace_slice_no_grow (map Some xs @ R) (length xs) i j (map Some vs)
      = Inr (take i (map Some xs @ R) @ map Some vs @ take (length xs - j) (drop j (map Some xs @ R))
          @ drop (i + length (map Some vs) + (length xs - j)) (map Some xs @ R))"
    by (rule replace_slice_no_grow_ok) (use assms in auto)
  also have "\<dots> = Inr (map Some ys @ drop n (map Some xs) @ R)"
    using assms by (simp add: ys_def n_def take_map drop_map ac_simps)
  finally have rep: "mp_seq_replace_slice_no_grow (map Some xs @ R) (length xs) i j (map Some vs)
      = Inr (map Some ys @ drop n (map Some xs) @ R)" .
  have clr: "mp_seq_clear n (length xs) (map Some ys @ drop n (map Some xs) @ R)
      = Inr (map Some ys @ replicate (length xs - n) None @ R)"
    using clear_parts [of n "map Some ys" "length xs" "drop n (map Some xs)" R] len by simp
  have "replicate (length xs - n) None @ R = replicate (a - n) None"
    using len(2) assms(4) by (simp add: R_def flip: replicate_add)
  then show ?thesis
    using rep clr len(1) unfolding rep_simps R_def [symmetric] ys_def [symmetric] by (simp add: rep_def R_def [symmetric])
qed

lemma delete_slice_rep:
  assumes "fits xs a"
  shows "case py_cut sl (length xs) of
      Inl e \<Rightarrow> list_subscr_delete gc (rep xs a) (Slice_of sl) = (Inl e, rep xs a)
    | Inr (i, j) \<Rightarrow> list_subscr_delete gc (rep xs a) (Slice_of sl) = (Inr (), rep (take i xs @ drop j xs) a)"
proof (rule cut_cases [of "length xs" sl])
  fix b i j
  assume f: "mp_seq_get_fast_slice_indexes (length xs) sl = Inr (True, b)" "py_cut sl (length xs) = Inr (i, j)"
    and ij: "i \<le> j" "j \<le> length xs" and b: "bs_start b = int i" "bs_stop b = int j"
  have n: "nat (int (length xs) + (int i - int j)) = length xs - (j - i)" using ij by simp
  have la: "length xs \<le> a" using assms by (simp add: fits_def)
  have "list_subscr_delete gc (rep xs a) (Slice_of sl)
      = on_items (mp_seq_replace_slice_no_grow (items (rep xs a)) (len (rep xs a)) i j (map Some [])) (rep xs a) (\<lambda>self.
        on_items (mp_seq_clear (length xs - (j - i - length ([] :: 'a list))) (len self) (items self)) self
          (\<lambda>self. (Inr (), self\<lparr>len := length xs - (j - i - length ([] :: 'a list))\<rparr>)))"
    using f b ij n by (simp add: list_subscr_delete_def Let_def cong: sum.case_cong)
  also have "\<dots> = (Inr (), rep (take i xs @ [] @ drop j xs) a)"
    by (rule no_grow_rep [OF ij _ la]) simp
  finally show ?thesis using f by simp
qed (auto simp: list_subscr_delete_def)

lemma delete_slice_ok:
  "fits xs a \<Longrightarrow> py_cut sl (length xs) = Inr (i, j) \<Longrightarrow> fits (take i xs @ drop j xs) a"
  using py_cut_bounds by (fastforce simp: fits_def)

lemma store_slice_rep:
  assumes gc: "heap_limited gc" and fits: "fits xs a" and vs: "length vs \<le> MAX_CELLS"
    and cut: "py_cut sl (length xs) = Inr (i, j)"
  obtains "list_subscr_store gc (rep xs a) (Slice_of sl) x (Some vs) = (Inl MemoryError, rep xs a)"
  | a' where "list_subscr_store gc (rep xs a) (Slice_of sl) x (Some vs) = (Inr (), rep (take i xs @ vs @ drop j xs) a')"
      "fits (take i xs @ vs @ drop j xs) a'"
proof -
  obtain b where f: "mp_seq_get_fast_slice_indexes (length xs) sl = Inr (True, b)" "bs_start b = int i" "bs_stop b = int j"
    using cut by (rule_tac cut_cases [of "length xs" sl]) auto
  have ij: "i \<le> j" "j \<le> length xs" using py_cut_bounds [OF cut] by auto
  show ?thesis
  proof (cases "length vs \<le> j - i")
    case True
    have n: "nat (int (length xs) + (int (length vs) - (int j - int i))) = length xs - (j - i - length vs)"
      using ij True by (simp add: nat_diff_distrib')
    have la: "length xs \<le> a" using fits by (simp add: fits_def)
    have le: "\<not> int (length vs) - (int j - int i) > 0" using True ij by simp
    have "list_subscr_store gc (rep xs a) (Slice_of sl) x (Some vs)
      = on_items (mp_seq_replace_slice_no_grow (items (rep xs a)) (len (rep xs a)) i j (map Some vs)) (rep xs a) (\<lambda>self.
        on_items (mp_seq_clear (length xs - (j - i - length vs)) (len self) (items self)) self
          (\<lambda>self. (Inr (), self\<lparr>len := length xs - (j - i - length vs)\<rparr>)))"
      unfolding n [symmetric] using f le by (simp add: list_subscr_store_def Let_def cong: sum.case_cong)
    also have "\<dots> = (Inr (), rep (take i xs @ vs @ drop j xs) a)"
      by (rule no_grow_rep [OF ij True la])
    finally have "list_subscr_store gc (rep xs a) (Slice_of sl) x (Some vs) = (Inr (), rep (take i xs @ vs @ drop j xs) a)" .
    moreover have "fits (take i xs @ vs @ drop j xs) a" using fits True ij by (auto simp: fits_def)
    ultimately show ?thesis using that(2) by blast
  next
    case False
    define n where "n = length xs"
    define adj where "adj = length vs - (j - i)"
    define grow :: "'a mp_obj_list \<Rightarrow> (unit, 'a) on_list" where
      "grow = (\<lambda>self. on_items (mp_seq_replace_slice_grow_inplace (items self) (len self) i j (map Some vs) adj) self
         (\<lambda>self. (Inr (), self\<lparr>len := n + adj\<rparr>)))"
    have adj: "i + length vs = j + adj" "int (length vs) - (int j - int i) = int adj" "adj > 0" using False ij by (auto simp: adj_def)
    have op: "list_subscr_store gc (rep xs a) (Slice_of sl) x (Some vs) =
        (if n + adj > a then on_items (m_renew_cells gc (items (rep xs a)) (n + adj)) (rep xs a) (\<lambda>self. grow (self\<lparr>alloc := n + adj\<rparr>))
         else grow (rep xs a))"
    proof -
      have "nat (int n + int adj) = n + adj" by simp
      then show ?thesis using f adj(2,3) by (simp add: list_subscr_store_def Let_def grow_def n_def [symmetric] cong: sum.case_cong)
    qed
    have grow: "grow \<lparr>len = n, alloc = a', items = map Some xs @ cs\<rparr> = (Inr (), rep (take i xs @ vs @ drop j xs) a')"
      if cs: "drop adj cs = replicate (a' - (n + adj)) None" "adj \<le> length cs" for cs a'
    proof -
      have "mp_seq_replace_slice_grow_inplace (map Some xs @ cs) n i j (map Some vs) adj
          = Inr (take i (map Some xs @ cs) @ map Some vs @ take (n - j) (drop j (map Some xs @ cs)) @ drop (n + adj) (map Some xs @ cs))"
        by (rule replace_slice_grow_ok) (use ij adj cs in \<open>auto simp: n_def\<close>)
      also have "\<dots> = Inr (map Some (take i xs @ vs @ drop j xs) @ replicate (a' - (n + adj)) None)"
        using ij cs by (simp add: n_def take_map drop_map)
      finally have "grow \<lparr>len = n, alloc = a', items = map Some xs @ cs\<rparr>
          = (Inr (), \<lparr>len = n + adj, alloc = a', items = map Some (take i xs @ vs @ drop j xs) @ replicate (a' - (n + adj)) None\<rparr>)"
        by (simp add: grow_def n_def)
      moreover have "length (take i xs @ vs @ drop j xs) = n + adj" using ij adj(1) by (simp add: n_def)
      ultimately show ?thesis unfolding rep_def by (simp only:)
    qed
    have fit: "fits (take i xs @ vs @ drop j xs) a'" if "n + adj \<le> a'" "2 \<le> a'" "a' \<le> MAX_CELLS" for a'
      using that ij adj by (simp add: fits_def n_def)
    have na: "n \<le> a" "2 \<le> a" "a \<le> MAX_CELLS" using fits by (auto simp: fits_def n_def)
    let ?cs = "map Some xs @ replicate (a - n) None"
    show ?thesis
    proof (cases "n + adj > a")
      case True
      show ?thesis
      proof (rule renew_grow [OF gc, of ?cs "n + adj"])
        assume "m_renew_cells gc ?cs (n + adj) = Inl MemoryError"
        then show ?thesis using that(1) True op by (simp add: n_def)
      next
        fix new assume new: "m_renew_cells gc ?cs (n + adj) = Inr (?cs @ new)" "length new = n + adj - length ?cs" "n + adj \<le> MAX_CELLS"
        have "grow \<lparr>len = n, alloc = n + adj, items = map Some xs @ replicate (a - n) None @ new\<rparr>
            = (Inr (), rep (take i xs @ vs @ drop j xs) (n + adj))"
          by (rule grow) (use new(2) na True in \<open>auto simp: n_def\<close>)
        then have "list_subscr_store gc (rep xs a) (Slice_of sl) x (Some vs) = (Inr (), rep (take i xs @ vs @ drop j xs) (n + adj))"
          using True new(1) unfolding op by (simp add: rep_def n_def)
        then show ?thesis using that(2) fit [of "n + adj"] new(3) na True by simp
      qed (use na vs True adj ij in \<open>auto simp: n_def MAX_CELLS_def\<close>)
    next
      case no: False
      have "grow (rep xs a) = (Inr (), rep (take i xs @ vs @ drop j xs) a)"
        using grow [of "replicate (a - n) None" a] no na by (simp add: rep_def n_def)
      then show ?thesis using that(2) no op fit [of a] na by simp
    qed
  qed
qed

end
