(* ===== verification/MpListSpec.thy ===== *)
theory MpListSpec
  imports MpListAll Refinement
begin

text \<open>
  What Python's lists promise, on plain lists, and that the operations of \<open>MpList\<close> keep the promise, one
  by one and in any sequence.
\<close>

section \<open>Calls and their meaning\<close>

datatype 'o list_call =
    Call_append 'o
  | Call_extend "'o list"
  | Call_extend_list "'o mp_obj_list"
  | Call_insert int 'o
  | Call_pop "int option option"
  | Call_remove 'o
  | Call_reverse
  | Call_clear
  | Call_store "int option" 'o
  | Call_store_slice mp_obj_slice "'o list"
  | Call_delete "int option"
  | Call_delete_slice mp_obj_slice
  | Call_load "int option"
  | Call_index 'o "int option list"
  | Call_count 'o
  | Call_len

datatype 'o reply = Done | An_object 'o | A_number nat

fun answer_done :: "(unit, 'o) on_list \<Rightarrow> (seq_error + 'o reply) \<times> 'o mp_obj_list" where
  "answer_done (Inl e, l) = (Inl e, l)"
| "answer_done (Inr _, l) = (Inr Done, l)"

fun answer_object :: "('o option, 'o) on_list \<Rightarrow> (seq_error + 'o reply) \<times> 'o mp_obj_list" where
  "answer_object (Inl e, l) = (Inl e, l)"
| "answer_object (Inr None, l) = (Inl Out_of_bounds, l)"
| "answer_object (Inr (Some x), l) = (Inr (An_object x), l)"

definition answer_number :: "seq_error + nat \<Rightarrow> seq_error + 'o reply" where
  "answer_number r = and_then r (\<lambda>n. Inr (A_number n))"

fun do_call :: "('o \<Rightarrow> 'o \<Rightarrow> bool) \<Rightarrow> 'o \<Rightarrow> 'o gc_heap \<Rightarrow> 'o list_call \<Rightarrow> 'o mp_obj_list \<Rightarrow> (seq_error + 'o reply) \<times> 'o mp_obj_list"
where
  "do_call equal none gc (Call_append x) l = answer_done (mp_obj_list_append gc l (Some x))"
| "do_call equal none gc (Call_extend xs) l = answer_done (list_extend gc l (Other_iterable xs))"
| "do_call equal none gc (Call_extend_list l') l = answer_done (list_extend gc l (A_list l'))"
| "do_call equal none gc (Call_insert i x) l = answer_done (list_insert gc none l i x)"
| "do_call equal none gc (Call_pop arg) l = answer_object (list_pop gc l arg)"
| "do_call equal none gc (Call_remove x) l = answer_done (mp_obj_list_remove equal gc l x)"
| "do_call equal none gc Call_reverse l = answer_done (list_reverse l)"
| "do_call equal none gc Call_clear l = answer_done (list_clear gc l)"
| "do_call equal none gc (Call_store i x) l = answer_done (list_subscr_store gc l (At i) x None)"
| "do_call equal none gc (Call_store_slice sl vs) l = answer_done (list_subscr_store gc l (Slice_of sl) none (Some vs))"
| "do_call equal none gc (Call_delete i) l = answer_done (list_subscr_delete gc l (At i))"
| "do_call equal none gc (Call_delete_slice sl) l = answer_done (list_subscr_delete gc l (Slice_of sl))"
| "do_call equal none gc (Call_load i) l =
     (case list_subscr_load gc l (At i) of
        Some (Inr (Item x)) \<Rightarrow> answer_object (Inr x, l)
      | Some (Inl e) \<Rightarrow> (Inl e, l)
      | _ \<Rightarrow> (Inl Out_of_bounds, l))"
| "do_call equal none gc (Call_index x args) l = (answer_number (list_index equal l x args), l)"
| "do_call equal none gc (Call_count x) l = (answer_number (list_count equal l x), l)"
| "do_call equal none gc Call_len l = (case list_unary_op Op_len l of Number n \<Rightarrow> (Inr (A_number n), l) | _ \<Rightarrow> (Inl TypeError, l))"

text \<open>Python's index: from the end when negative.\<close>

definition py_index :: "nat \<Rightarrow> int option \<Rightarrow> seq_error + nat" where
  "py_index n arg =
     (case arg of
        None \<Rightarrow> Inl TypeError
      | Some i \<Rightarrow> if - int n \<le> i \<and> i < int n then Inr (nat (i mod int n)) else Inl IndexError)"

definition remove_at :: "nat \<Rightarrow> 'o list \<Rightarrow> 'o list" where
  "remove_at j xs = take j xs @ drop (Suc j) xs"

definition first_equal :: "('o \<Rightarrow> 'o \<Rightarrow> bool) \<Rightarrow> 'o list \<Rightarrow> 'o \<Rightarrow> nat \<Rightarrow> nat \<Rightarrow> seq_error + nat" where
  "first_equal equal xs x i j =
     (case find (\<lambda>k. equal (xs ! k) x) [i..<j] of None \<Rightarrow> Inl ValueError | Some k \<Rightarrow> Inr k)"

definition py_limits :: "nat \<Rightarrow> int option list \<Rightarrow> seq_error + (nat \<times> nat)" where
  "py_limits n args =
     (let cut = (\<lambda>i. nat (max 0 (min (int n) (if i < 0 then i + int n else i)))) in
      case args of
        [] \<Rightarrow> Inr (0, n)
      | [a] \<Rightarrow> (case a of None \<Rightarrow> Inl TypeError | Some i \<Rightarrow> Inr (cut i, n))
      | a # b # _ \<Rightarrow>
          (case (a, b) of (Some i, Some j) \<Rightarrow> Inr (cut i, cut j) | _ \<Rightarrow> Inl TypeError))"

definition py_edit :: "seq_error + 'o list \<Rightarrow> 'o list \<Rightarrow> (seq_error + 'o reply) \<times> 'o list" where
  "py_edit r xs = (case r of Inl e \<Rightarrow> (Inl e, xs) | Inr ys \<Rightarrow> (Inr Done, ys))"

fun py_call :: "('o \<Rightarrow> 'o \<Rightarrow> bool) \<Rightarrow> 'o list_call \<Rightarrow> 'o list \<Rightarrow> (seq_error + 'o reply) \<times> 'o list" where
  "py_call equal (Call_append x) xs = (Inr Done, xs @ [x])"
| "py_call equal (Call_extend ys) xs = (Inr Done, xs @ ys)"
| "py_call equal (Call_extend_list l) xs = (Inr Done, xs @ elems l)"
| "py_call equal (Call_insert i x) xs =
     (let j = py_insert_at i (length xs) in (Inr Done, take j xs @ x # drop j xs))"
| "py_call equal (Call_pop arg) xs =
     (if xs = [] then (Inl IndexError, xs)
      else case py_index (length xs) (case arg of None \<Rightarrow> Some (- 1) | Some i \<Rightarrow> i) of
        Inl e \<Rightarrow> (Inl e, xs) | Inr j \<Rightarrow> (Inr (An_object (xs ! j)), remove_at j xs))"
| "py_call equal (Call_remove x) xs = py_edit (and_then (first_equal equal xs x 0 (length xs)) (\<lambda>j. Inr (remove_at j xs))) xs"
| "py_call equal Call_reverse xs = (Inr Done, rev xs)"
| "py_call equal Call_clear xs = (Inr Done, [])"
| "py_call equal (Call_store i x) xs = py_edit (and_then (py_index (length xs) i) (\<lambda>j. Inr (xs[j := x]))) xs"
| "py_call equal (Call_store_slice sl vs) xs =
     py_edit (and_then (py_cut sl (length xs)) (\<lambda>(i, j). Inr (take i xs @ vs @ drop j xs))) xs"
| "py_call equal (Call_delete i) xs =
     py_edit (if xs = [] then Inl IndexError else and_then (py_index (length xs) i) (\<lambda>j. Inr (remove_at j xs))) xs"
| "py_call equal (Call_delete_slice sl) xs =
     py_edit (and_then (py_cut sl (length xs)) (\<lambda>(i, j). Inr (take i xs @ drop j xs))) xs"
| "py_call equal (Call_load i) xs = (and_then (py_index (length xs) i) (\<lambda>j. Inr (An_object (xs ! j))), xs)"
| "py_call equal (Call_index x args) xs =
     (answer_number (and_then (py_limits (length xs) args) (\<lambda>(i, j). first_equal equal xs x i j)), xs)"
| "py_call equal (Call_count x) xs = (Inr (A_number (length (filter (\<lambda>y. equal y x) xs))), xs)"
| "py_call equal Call_len xs = (Inr (A_number (length xs)), xs)"

text \<open>Arguments are objects of the same heap.\<close>

fun call_valid :: "'o list_call \<Rightarrow> bool" where
  "call_valid (Call_extend_list l) = list_ok l"
| "call_valid (Call_store_slice sl vs) = (length vs \<le> MAX_CELLS)"
| "call_valid c = True"

fun added_items :: "'o list_call \<Rightarrow> 'o list" where
  "added_items (Call_extend xs) = xs"
| "added_items c = []"

section \<open>One call\<close>

lemma py_index_eq: "mp_get_index n arg False = py_index n arg"
  by (cases arg) (simp_all add: py_index_def mp_get_index_nth, simp add: mp_get_index_def)

lemma first_equal_eq: "index_loop equal xs x i (j - i) = first_equal equal xs x i j"
  by (cases "i \<le> j") (simp_all add: index_loop_correct first_equal_def)

lemma index_obj_eq:
  "mp_seq_index_obj equal xs x args = and_then (py_limits (length xs) args) (\<lambda>(i, j). first_equal equal xs x i j)"
proof -
  have none: "mp_get_index n None True = Inl TypeError" for n by (simp add: mp_get_index_def)
  show ?thesis
  proof (cases args)
    case (Cons a as)
    then show ?thesis
      by (cases a; cases as; cases "hd as")
        (simp_all add: mp_seq_index_obj_def py_limits_def first_equal_eq mp_get_index_slice none)
  qed (use first_equal_eq [of equal xs x 0 "length xs"] in \<open>simp add: mp_seq_index_obj_def py_limits_def\<close>)
qed

text \<open>What a call leaves, in terms of the representation.\<close>

definition call_result :: "('o \<Rightarrow> 'o \<Rightarrow> bool) \<Rightarrow> 'o list_call \<Rightarrow> 'o list \<Rightarrow> (seq_error + 'o reply) \<times> 'o mp_obj_list \<Rightarrow> bool" where
  "call_result equal c xs out \<longleftrightarrow>
     (\<exists>r ys a. out = (r, rep ys a) \<and> fits ys a
        \<and> ((r, ys) = py_call equal c xs \<or> r = Inl MemoryError \<and> (\<exists>n. ys = xs @ take n (added_items c))))"

lemma call_resultI:
  "out = (r, rep ys a) \<Longrightarrow> fits ys a \<Longrightarrow> py_call equal c xs = (r, ys) \<Longrightarrow> call_result equal c xs out"
  by (auto simp: call_result_def)

lemma call_result_memory:
  "out = (Inl MemoryError, rep xs a) \<Longrightarrow> fits xs a \<Longrightarrow> call_result equal c xs out"
  unfolding call_result_def by (intro exI [of _ "Inl MemoryError"] exI [of _ xs] exI [of _ a]) (auto intro: exI [of _ 0])

lemma pop_call:
  assumes "fits xs a"
  shows "case (if xs = [] then Inl IndexError else py_index (length xs) (case arg of None \<Rightarrow> Some (- 1) | Some i \<Rightarrow> i)) of
      Inl e \<Rightarrow> list_pop gc (rep xs a) arg = (Inl e, rep xs a)
    | Inr j \<Rightarrow> \<exists>a'. list_pop gc (rep xs a) arg = (Inr (Some (xs ! j)), rep (remove_at j xs) a') \<and> fits (remove_at j xs) a'"
proof (cases "xs = []")
  case False
  show ?thesis
  proof (cases "py_index (length xs) (case arg of None \<Rightarrow> Some (- 1) | Some i \<Rightarrow> i)")
    case (Inl e)
    then show ?thesis using pop_error [OF False, of arg e] False by (simp add: py_index_eq)
  next
    case (Inr j)
    then show ?thesis using False
      by (rule_tac pop_rep [OF assms, of arg j gc]) (auto simp: py_index_eq remove_at_def)
  qed
qed (simp add: pop_empty)

lemma call_correct:
  assumes gc: "heap_limited gc" and fits: "fits xs a" and valid: "call_valid c"
  shows "call_result equal c xs (do_call equal none gc c (rep xs a))"
proof (cases c)
  case (Call_append x)
  show ?thesis
    by (rule append_rep [OF gc fits, of x])
      (use fits in \<open>auto simp: Call_append intro: call_resultI call_result_memory\<close>)
next
  case (Call_extend ys)
  obtain r n a' where e: "list_extend_from_iter gc (rep xs a) ys = (r, rep (xs @ take n ys) a')"
    "fits (xs @ take n ys) a'" "r = Inr () \<and> n = length ys \<or> r = Inl MemoryError"
    using extend_iter_rep [OF gc fits] by blast
  show ?thesis
  proof (cases "r = Inl MemoryError")
    case True
    then show ?thesis using e unfolding call_result_def Call_extend
      by (intro exI [of _ "Inl MemoryError"] exI [of _ "xs @ take n ys"] exI [of _ a']) (auto simp: list_extend_def)
  next
    case False
    then show ?thesis using e by (intro call_resultI [of _ "Inr Done" "xs @ ys" a']) (auto simp: Call_extend list_extend_def)
  qed
next
  case (Call_extend_list l)
  then obtain ys b where l: "l = rep ys b" "fits ys b" using valid by (auto elim: list_okE)
  show ?thesis
    by (rule extend_list_rep [OF gc fits l(2)])
      (use fits in \<open>auto simp: Call_extend_list l(1) intro: call_resultI call_result_memory\<close>)
next
  case (Call_insert i x)
  show ?thesis
    by (rule insert_rep [OF gc fits, of none i x])
      (use fits in \<open>auto simp: Call_insert Let_def intro: call_resultI call_result_memory\<close>)
next
  case (Call_pop arg)
  show ?thesis using pop_call [OF fits, where arg = arg and gc = gc] fits
    by (auto simp: Call_pop split: sum.splits if_splits intro: call_resultI)
next
  case (Call_remove x)
  show ?thesis
  proof (cases "first_equal equal xs x 0 (length xs)")
    case (Inl e)
    then show ?thesis using fits
      by (intro call_resultI [of _ "Inl e" xs a])
        (simp_all add: Call_remove mp_obj_list_remove_def list_index_def index_obj_eq py_limits_def py_edit_def)
  next
    case (Inr j)
    then have j: "j < length xs" by (auto simp: first_equal_def find_Some_iff split: option.splits)
    then have "py_index (length xs) (Some (int j)) = Inr j" by (simp add: py_index_def flip: of_nat_mod)
    moreover have "xs \<noteq> []" using j by auto
    ultimately obtain a' where "list_pop gc (rep xs a) (Some (Some (int j))) = (Inr (Some (xs ! j)), rep (remove_at j xs) a')"
      "fits (remove_at j xs) a'" using pop_call [OF fits, where arg = "Some (Some (int j))" and gc = gc] by auto
    then show ?thesis using Inr
      by (intro call_resultI [of _ "Inr Done" "remove_at j xs" a'])
        (simp_all add: Call_remove mp_obj_list_remove_def list_index_def index_obj_eq py_limits_def py_edit_def)
  qed
next
  case Call_reverse
  then show ?thesis using fits by (intro call_resultI) (auto simp: reverse_rep fits_def)
next
  case Call_clear
  then show ?thesis using fits by (intro call_resultI) (auto simp: clear_rep fits_def MAX_CELLS_def)
next
  case (Call_store i x)
  show ?thesis
  proof (cases "py_index (length xs) i")
    case (Inl e)
    then show ?thesis using fits
      by (intro call_resultI [of _ "Inl e" xs a])
        (simp_all add: Call_store list_subscr_store_def mp_obj_list_store_def py_index_eq py_edit_def)
  next
    case (Inr j)
    then show ?thesis using fits store_rep [of xs i j a x]
      by (intro call_resultI [of _ "Inr Done" "xs[j := x]" a])
        (simp_all add: Call_store list_subscr_store_def py_index_eq py_edit_def fits_def)
  qed
next
  case (Call_store_slice sl vs)
  show ?thesis
  proof (cases "py_cut sl (length xs)")
    case (Inl e)
    then have "list_subscr_store gc (rep xs a) (Slice_of sl) none (Some vs) = (Inl e, rep xs a)"
      by (rule_tac cut_cases [of "length xs" sl]) (auto simp: list_subscr_store_def)
    then show ?thesis using fits Inl by (intro call_resultI [of _ "Inl e" xs a]) (simp_all add: Call_store_slice py_edit_def)
  next
    case (Inr ij)
    obtain i j where ij: "ij = (i, j)" by (cases ij)
    have vs: "length vs \<le> MAX_CELLS" using valid by (simp add: Call_store_slice)
    show ?thesis
      by (rule store_slice_rep [OF gc fits vs Inr [unfolded ij], of none])
        (use fits Inr ij in \<open>auto simp: Call_store_slice py_edit_def intro: call_resultI call_result_memory\<close>)
  qed
next
  case (Call_delete i)
  show ?thesis using pop_call [OF fits, where arg = "Some i" and gc = gc] fits
    by (auto simp: Call_delete list_subscr_delete_def py_edit_def split: sum.splits if_splits intro: call_resultI)
next
  case (Call_delete_slice sl)
  show ?thesis using delete_slice_rep [OF fits, where sl = sl and gc = gc] fits delete_slice_ok [OF fits, of sl]
    by (auto simp: Call_delete_slice py_edit_def split: sum.splits intro: call_resultI)
next
  case (Call_load i)
  show ?thesis
  proof (cases "py_index (length xs) i")
    case (Inl e)
    then show ?thesis using fits
      by (intro call_resultI [of _ "Inl e" xs a]) (simp_all add: Call_load list_subscr_load_def py_index_eq)
  next
    case (Inr j)
    then have "j < length xs" using mp_get_index_bound [of "length xs" i j] by (simp add: py_index_eq)
    then show ?thesis using fits Inr
      by (intro call_resultI [of _ "Inr (An_object (xs ! j))" xs a])
        (simp_all add: Call_load list_subscr_load_def py_index_eq get_cell_def nth_append)
  qed
next
  case (Call_index x args)
  then show ?thesis using fits
    by (intro call_resultI) (auto simp: list_index_def index_obj_eq)
next
  case (Call_count x)
  then show ?thesis using fits
    by (intro call_resultI) (auto simp: list_count_def mp_seq_count_obj_correct answer_number_def)
next
  case Call_len
  then show ?thesis using fits by (intro call_resultI) auto
qed

lemma do_call_correct:
  assumes "heap_limited gc" "list_ok l" "call_valid c"
  shows "list_ok (snd (do_call equal none gc c l))
    \<and> (py_call equal c (elems l) = (fst (do_call equal none gc c l), elems (snd (do_call equal none gc c l)))
       \<or> fst (do_call equal none gc c l) = Inl MemoryError
         \<and> (\<exists>n. elems (snd (do_call equal none gc c l)) = elems l @ take n (added_items c)))"
proof -
  obtain xs a where l: "l = rep xs a" "fits xs a" using assms(2) by (rule list_okE)
  obtain r ys a' where out: "do_call equal none gc c (rep xs a) = (r, rep ys a')" "fits ys a'"
      "(r, ys) = py_call equal c xs \<or> r = Inl MemoryError \<and> (\<exists>n. ys = xs @ take n (added_items c))"
    using call_correct [OF assms(1) l(2) assms(3), of equal none] unfolding call_result_def by blast
  from out(2,3) show ?thesis unfolding l(1) out(1) by (auto simp del: py_call.simps)
qed

interpretation pl: data_refinement "\<lambda>l. heap_limited gc \<and> list_ok l" elems call_valid "do_call equal none gc"
  "py_call equal" "\<lambda>r. r = Inl MemoryError" for equal none gc
proof (unfold_locales, goal_cases)
  case (1 s c)
  then show ?case using do_call_correct [of gc s c equal none] by blast
next
  case (2 s c)
  then show ?case using do_call_correct [of gc s c equal none] by blast
qed

section \<open>Properties\<close>

text \<open>
  C4: Each list operation does to the list what Python's lists promise, errors included: the result and
  the items afterwards are those of the same operation on a plain list, and the object keeps its
  invariant.  Only memory can run out, and then the items are unchanged, or for an extension from an
  iterable extended by the first of its items.
\<close>

theorem list_call_correct:
  assumes "heap_limited gc" "list_ok l" "call_valid c" "do_call equal none gc c l = (r, l')"
  shows "list_ok l' \<and> ((r, elems l') = py_call equal c (elems l)
    \<or> r = Inl MemoryError \<and> (\<exists>n. elems l' = elems l @ take n (added_items c)))"
  using do_call_correct [OF assms(1-3), of equal none] assms(4) by auto

declare extract_down.simps [code] extract_up.simps [code]

text \<open>A heap that grants requests up to 64 bytes, and the list of 1, 2 and 3.\<close>

definition heap64 :: "nat gc_heap" where
  "heap64 = \<lparr>grants = (\<lambda>b. b \<le> 64), stale_cell = (\<lambda>_. Some 99)\<rparr>"

definition list123 :: "nat mp_obj_list" where
  "list123 = \<lparr>len = 3, alloc = 4, items = [Some 1, Some 2, Some 3, None]\<rparr>"

lemma heap64_limited: "heap_limited heap64"
  by (simp add: heap_limited_def heap64_def MAX_CELLS_def)

lemma list123_rep: "list123 = rep [1, 2, 3] 4"
  by (simp add: list123_def rep_def)

lemma list123_ok: "list_ok list123"
  by (simp add: list123_rep fits_def MAX_CELLS_def)

theorem list_call_correct_witness:
  "do_call (=) 0 heap64 (Call_pop (Some (Some (- 3)))) list123
     = (Inr (An_object 1), \<lparr>len = 2, alloc = 4, items = [Some 2, Some 3, None, None]\<rparr>)
   \<and> list_ok \<lparr>len = 2, alloc = 4, items = [Some (2 :: nat), Some 3, None, None]\<rparr>
   \<and> py_call (=) (Call_pop (Some (Some (- 3)))) [1, 2, 3 :: nat] = (Inr (An_object 1), [2, 3])"
proof -
  have run: "do_call (=) 0 heap64 (Call_pop (Some (Some (- 3)))) list123
     = (Inr (An_object 1), \<lparr>len = 2, alloc = 4, items = [Some 2, Some 3, None, None]\<rparr>)"
    by code_simp
  then show ?thesis
    using list_call_correct [OF heap64_limited list123_ok, of "Call_pop (Some (Some (- 3)))" "(=)" 0]
    by (simp add: elems_def list123_def)
qed



text \<open>
  A sequence of list operations in which memory does not run out returns the results, and leaves the
  items, of the same sequence on a plain list.
\<close>

theorem list_calls_refine:
  assumes "heap_limited gc" "list_ok l" "list_all call_valid cs"
    and "\<not> list_ex (\<lambda>r. r = Inl MemoryError) (fst (run_calls (do_call equal none gc) cs l))"
  shows "run_calls (py_call equal) cs (elems l)
    = (fst (run_calls (do_call equal none gc) cs l), elems (snd (run_calls (do_call equal none gc) cs l)))"
  using pl.run_simulates [of gc l cs equal none] assms by simp

theorem list_calls_refine_witness:
  "fst (run_calls (do_call (=) 0 heap64) [Call_reverse, Call_pop None, Call_len] list123)
     = [Inr Done, Inr (An_object 1), Inr (A_number 2)]
   \<and> run_calls (py_call (=)) [Call_reverse, Call_pop None, Call_len] [1, 2, 3 :: nat]
       = ([Inr Done, Inr (An_object 1), Inr (A_number 2)], [3, 2])"
proof -
  have run: "run_calls (do_call (=) 0 heap64) [Call_reverse, Call_pop None, Call_len] list123
     = ([Inr Done, Inr (An_object 1), Inr (A_number 2)], \<lparr>len = 2, alloc = 4, items = [Some 3, Some 2, None, None]\<rparr>)"
    by code_simp
  then show ?thesis
    using list_calls_refine [OF heap64_limited list123_ok, of "[Call_reverse, Call_pop None, Call_len]" "(=)" 0]
    by (simp add: elems_def list123_def numeral_2_eq_2 numeral_3_eq_3)
qed

text \<open>
  C17: Sorting a list of any order that \<open>lt\<close> decides, reversed or not, with any key, leaves the same items
  in that order; the recursion of the sort never nests deeper than the logarithm of the length.
\<close>

theorem list_sort_correct:
  assumes "list_ok l" "decides (\<lambda>x y. lt x y = (\<not> reversed)) le"
  shows "\<exists>l'. mp_obj_list_sort key lt reversed l = (Inr (), l') \<and> list_ok l'
    \<and> mset (elems l') = mset (elems l)
    \<and> (\<forall>i j. i \<le> j \<longrightarrow> j < length (elems l') \<longrightarrow> le (key (elems l' ! i)) (key (elems l' ! j)))
    \<and> 2 ^ quicksort_depth key (\<lambda>x y. lt x y = (\<not> reversed)) (elems l) 0 (int (length (elems l)) - 1)
        \<le> max 1 (length (elems l))"
proof -
  obtain xs a where l: "l = rep xs a" "fits xs a" using assms(1) by (rule list_okE)
  obtain ys where ys: "mp_obj_list_sort key lt reversed (rep xs a) = (Inr (), rep ys a)" "mset ys = mset xs"
    "\<forall>i j. i \<le> j \<longrightarrow> j < length ys \<longrightarrow> le (key (ys ! i)) (key (ys ! j))"
    by (rule sort_rep [OF assms(2), of key xs a])
  have "length ys = length xs" using ys(2) by (rule mset_eq_length)
  then have "fits ys a" using l(2) by (simp add: fits_def)
  then show ?thesis using ys quicksort_depth_le [of key "\<lambda>x y. lt x y = (\<not> reversed)" xs 0 "int (length xs) - 1"]
    by (intro exI [of _ "rep ys a"]) (simp add: l(1))
qed

theorem list_sort_correct_witness:
  "decides (\<lambda>x y. (x < y) = (\<not> True)) (\<lambda>x y. y \<le> (x :: nat))
   \<and> mp_obj_list_sort (\<lambda>x. x) (<) True list123 = (Inr (), \<lparr>len = 3, alloc = 4, items = [Some 3, Some 2, Some 1, None]\<rparr>)
   \<and> (\<exists>l'. mp_obj_list_sort (\<lambda>x. x) (<) True list123 = (Inr (), l') \<and> mset (elems l') = mset [1, 2, 3])"
proof -
  have d: "decides (\<lambda>x y. (x < y) = (\<not> True)) (\<lambda>x y. y \<le> (x :: nat))" by (auto simp: decides_def)
  have run: "mp_obj_list_sort (\<lambda>x. x) (<) True list123 = (Inr (), \<lparr>len = 3, alloc = 4, items = [Some 3, Some 2, Some 1, None]\<rparr>)"
    by code_simp
  have "elems list123 = [1, 2, 3]" by (simp add: list123_rep)
  then show ?thesis using list_sort_correct [OF list123_ok d, of "\<lambda>x. x"] d run by auto
qed

text \<open>
  C25: Reading a slice of a list gives a new list of exactly the items that the language reference selects,
  for any start, stop and step, absent, negative or past the ends; a step of zero and members that are not
  integers raise.  The loop over the slice always ends and reads no cell outside the items.
\<close>

theorem list_slice_correct:
  assumes "heap_limited gc" "list_ok l"
  shows "case py_slice_of sl (int (length (elems l))) of
      Inl e \<Rightarrow> list_subscr_load gc l (Slice_of sl) = Some (Inl e)
    | Inr ps \<Rightarrow> list_subscr_load gc l (Slice_of sl) = Some (Inl MemoryError)
        \<or> (\<exists>l'. list_subscr_load gc l (Slice_of sl) = Some (Inr (Sublist l')) \<and> list_ok l'
             \<and> elems l' = map (\<lambda>p. elems l ! nat p) ps)"
proof -
  obtain xs a where l: "l = rep xs a" "fits xs a" using assms(2) by (rule list_okE)
  show ?thesis
  proof (cases "py_slice_of sl (int (length xs))")
    case (Inl e)
    then show ?thesis using load_slice_rep [OF assms(1) l(2), of sl] by (simp add: l(1))
  next
    case (Inr ps)
    then obtain r where "list_subscr_load gc (rep xs a) (Slice_of sl) = Some (and_then r (\<lambda>l. Inr (Sublist l)))"
      "makes_list (map (\<lambda>p. xs ! nat p) ps) r"
      using load_slice_rep [OF assms(1) l(2), of sl] by auto
    then show ?thesis using Inr by (auto simp: l(1) makes_list_def)
  qed
qed

theorem list_slice_correct_witness:
  "py_slice_of \<lparr>sl_start = None_part, sl_stop = None_part, sl_step = Int_part (- 2)\<rparr> 3 = Inr [2, 0]
   \<and> list_subscr_load heap64 list123 (Slice_of \<lparr>sl_start = None_part, sl_stop = None_part, sl_step = Int_part (- 2)\<rparr>)
      = Some (Inr (Sublist \<lparr>len = 2, alloc = 4, items = [Some 3, Some 1, None, None]\<rparr>))"
proof -
  let ?sl = "\<lparr>sl_start = None_part, sl_stop = None_part, sl_step = Int_part (- 2)\<rparr>"
  have py: "py_slice_of ?sl 3 = Inr [2, 0]" by code_simp
  have load: "list_subscr_load heap64 list123 (Slice_of ?sl)
      = Some (Inr (Sublist \<lparr>len = 2, alloc = 4, items = [Some 3, Some 1, None, None]\<rparr>))" by code_simp
  show ?thesis using list_slice_correct [OF heap64_limited list123_ok, of ?sl] py load by simp
qed

text \<open>
  Copying a list, adding two lists and repeating a list make a well-formed new list with the items
  that Python promises, or raise a memory error, provided the length of the product fits the heap's
  address range.
\<close>

theorem list_new_correct:
  assumes "heap_limited gc" "list_ok l" "list_ok l2" "length (elems l) * nat n \<le> 1073741823"
  shows "(list_copy gc l = Inl MemoryError \<or> (\<exists>l'. list_copy gc l = Inr l' \<and> list_ok l' \<and> elems l' = elems l))
    \<and> (list_add gc l l2 = Inl MemoryError \<or> (\<exists>l'. list_add gc l l2 = Inr l' \<and> list_ok l' \<and> elems l' = elems l @ elems l2))
    \<and> (list_multiply gc l n = Inl MemoryError
       \<or> (\<exists>l'. list_multiply gc l n = Inr l' \<and> list_ok l' \<and> elems l' = concat (replicate (nat n) (elems l))))"
proof -
  obtain xs a where l: "l = rep xs a" "fits xs a" using assms(2) by (rule list_okE)
  obtain ys b where l2: "l2 = rep ys b" "fits ys b" using assms(3) by (rule list_okE)
  have made: "makes_list zs r \<Longrightarrow> r = Inl MemoryError \<or> (\<exists>l'. r = Inr l' \<and> list_ok l' \<and> elems l' = zs)" for zs r
    by (auto simp: makes_list_def)
  have "length xs * nat n \<le> 1073741823" using assms(4) by (simp add: l(1))
  then show ?thesis
    using made [OF copy_rep [OF assms(1) l(2)]] made [OF add_rep [OF assms(1) l(2) l2(2)]]
      made [OF multiply_rep [OF assms(1) l(2)]] by (simp add: l(1) l2(1))
qed

theorem list_new_correct_witness:
  "list_multiply heap64 list123 2 = Inr \<lparr>len = 6, alloc = 6, items = map Some [1, 2, 3, 1, 2, 3]\<rparr>
   \<and> elems \<lparr>len = 6, alloc = 6, items = map Some [1, 2, 3, 1, 2, 3]\<rparr> = concat (replicate (nat 2) [1, 2, 3 :: nat])"
proof -
  have "list_multiply heap64 list123 2 = Inr \<lparr>len = 6, alloc = 6, items = map Some [1, 2, 3, 1, 2, 3]\<rparr>"
    by code_simp
  then show ?thesis
    using list_new_correct [OF heap64_limited list123_ok list123_ok, of 2] by (auto simp: list123_rep)
qed

text \<open>
  Comparing two lists of objects that a value orders, and comparing two blocks of bytes through the
  kernel's \<open>memcmp\<close>, is the comparison of the sequences: equality, or the lexicographic order with a prefix
  before the longer sequence.
\<close>

theorem sequence_compare_correct:
  assumes "list_ok l" "list_ok l2" "ordered_by val equal cmp"
  shows "list_binary_op equal cmp gc (Op_compare op) l (List_operand l2)
      = Inr (Bool (sequence_op op (map val (elems l)) (map val (elems l2))))
    \<and> mp_seq_cmp_bytes m op p1 n1 p2 n2 = sequence_op op (bytes_at m p1 (unat n1)) (bytes_at m p2 (unat n2))"
proof -
  obtain xs a where l: "l = rep xs a" using assms(1) by (rule list_okE)
  obtain ys b where l2: "l2 = rep ys b" using assms(2) by (rule list_okE)
  show ?thesis
    using mp_seq_cmp_objs_correct [OF assms(3), of op xs ys] mp_seq_cmp_bytes_correct [of m op p1 n1 p2 n2]
    by (simp add: list_binary_op_def l l2)
qed

fun nat_cmp :: "binary_op \<Rightarrow> nat \<Rightarrow> nat \<Rightarrow> bool" where
  "nat_cmp Op_equal x y = (x = y)"
| "nat_cmp Op_less x y = (x < y)"
| "nat_cmp Op_less_equal x y = (x \<le> y)"
| "nat_cmp Op_more x y = (y < x)"
| "nat_cmp Op_more_equal x y = (y \<le> x)"

theorem sequence_compare_correct_witness:
  "list_binary_op (=) nat_cmp heap64 (Op_compare Op_less) list123 (List_operand list123) = Inr (Bool False)
   \<and> list_binary_op (=) nat_cmp heap64 (Op_compare Op_more_equal) list123 (List_operand list123) = Inr (Bool True)"
proof -
  have "ordered_by (\<lambda>x. x) (=) nat_cmp" by (simp add: ordered_by_def)
  from sequence_compare_correct [OF list123_ok list123_ok this, of heap64]
  show ?thesis by (simp add: list123_rep)
qed

text \<open>
  Repeating a list of two items 2 to the 29 times, which is a small integer, is not refused: the
  number of cells and then the number of bytes wrap, \<open>m_new\<close> gives the NULL pointer for no bytes, and
  \<open>mp_seq_multiply\<close> writes outside any block, whatever the state of the heap.
\<close>

theorem list_multiply_wraps:
  assumes "list_ok l" "len l = 2"
  shows "list_binary_op equal cmp gc Op_multiply l (Int_operand 536870912) = Inl Out_of_bounds"
proof -
  obtain xs a where l: "l = rep xs a" "fits xs a" using assms(1) by (rule list_okE)
  have len: "length xs = 2" using assms(2) l by simp
  have "list_new gc 1073741824 = Inr \<lparr>len = 1073741824, alloc = 1073741824, items = []\<rparr>"
    by (simp add: list_new_def mp_obj_list_init_def LIST_MIN_ALLOC_def m_new_cells_def cells_bytes_def to_size_t_def mp_seq_clear_def set_cells_def)
  moreover have "mp_seq_multiply (items (rep xs a)) 2 536870912 [] = Inl Out_of_bounds"
  proof -
    have "get_cells 0 2 (items (rep xs a)) = Inr (map Some xs)" using len by (simp add: get_cells_def)
    then show ?thesis using len
      by (subst mp_seq_multiply_def, subst seq_multiply_loop.simps) (auto simp: set_cells_def)
  qed
  ultimately show ?thesis using len
    by (simp add: list_binary_op_def list_multiply_def Let_def to_size_t_def l(1) del: rep_simps(3))
qed

theorem list_multiply_wraps_witness:
  "list_binary_op (=) nat_cmp heap64 Op_multiply \<lparr>len = 2, alloc = 4, items = [Some 0, Some 0, None, None]\<rparr> (Int_operand 536870912)
     = Inl Out_of_bounds"
proof -
  have rep: "\<lparr>len = 2, alloc = 4, items = [Some (0 :: nat), Some 0, None, None]\<rparr> = rep [0, 0] 4"
    by (simp add: rep_def numeral_2_eq_2)
  have "list_ok (rep [0, 0 :: nat] 4)" by (simp add: fits_def MAX_CELLS_def)
  then show ?thesis unfolding rep by (intro list_multiply_wraps) simp_all
qed

end
