(* ===== verification/MpTuple.thy ===== *)
theory MpTuple
  imports MpListAll
begin

text \<open>
  Tuples: \<open>python/py/objtuple.c\<close>, on the same helpers and the same heap as lists.

  A tuple is its length and the cells behind it in its block, which never change once it is made.  The
  block has 8 bytes for type and length before the cells; its size is taken modulo 2 to the 32, as
  \<open>mp_obj_malloc_var\<close> computes it.  The empty tuple is one constant object without cells.
\<close>

section \<open>Making tuples\<close>

record 'o mp_obj_tuple =
  tuple_len :: nat
  tuple_items :: "'o cells"

definition mp_const_empty_tuple :: "'o mp_obj_tuple" where
  "mp_const_empty_tuple = \<lparr>tuple_len = 0, tuple_items = []\<rparr>"

text \<open>The cells of a new object; a block too small for the header is written past its end at once.\<close>

definition tuple_malloc :: "'o gc_heap \<Rightarrow> nat \<Rightarrow> seq_error + 'o cells" where
  "tuple_malloc gc n =
     (let bytes = to_size_t (8 + 4 * n) in
      if bytes \<noteq> 0 \<and> \<not> grants gc bytes then Inl MemoryError
      else if bytes < 8 then Inl Out_of_bounds
      else Inr (map (stale_cell gc) [0..<bytes div 4 - 2]))"

text \<open>The loop that fills a new tuple from \<open>items\<close>, with \<open>k\<close> turns left.\<close>

fun fill_tuple :: "nat \<Rightarrow> nat \<Rightarrow> 'o cells \<Rightarrow> 'o cells \<Rightarrow> seq_error + 'o cells" where
  "fill_tuple 0 i src dest = Inr dest"
| "fill_tuple (Suc k) i src dest =
     and_then (get_cell src i) (\<lambda>x. and_then (set_cells i [x] dest) (\<lambda>dest. fill_tuple k (i + 1) src dest))"

definition mp_obj_new_tuple :: "'o gc_heap \<Rightarrow> nat \<Rightarrow> 'o cells option \<Rightarrow> seq_error + 'o mp_obj_tuple" where
  "mp_obj_new_tuple gc n src =
     (if n = 0 then Inr mp_const_empty_tuple
      else and_then (tuple_malloc gc n) (\<lambda>cs.
        case src of
          None \<Rightarrow> Inr \<lparr>tuple_len = n, tuple_items = cs\<rparr>
        | Some src \<Rightarrow> and_then (fill_tuple n 0 src cs) (\<lambda>cs. Inr \<lparr>tuple_len = n, tuple_items = cs\<rparr>)))"

definition mp_obj_tuple_get :: "'o mp_obj_tuple \<Rightarrow> nat \<times> 'o cells" where
  "mp_obj_tuple_get self = (tuple_len self, tuple_items self)"

text \<open>
  The loop of \<open>mp_obj_tuple_make_new\<close> over an iterable, the list of the items it yields: they are gathered in
  a block of \<open>a\<close> cells that doubles when it is full.
\<close>

fun gather_items :: "'o gc_heap \<Rightarrow> 'o list \<Rightarrow> 'o cells \<Rightarrow> nat \<Rightarrow> nat \<Rightarrow> seq_error + (nat \<times> 'o cells)" where
  "gather_items gc [] buf a n = Inr (n, buf)"
| "gather_items gc (item # iter) buf a n =
     (if n \<ge> a then
        and_then (m_renew_cells gc buf (a * 2)) (\<lambda>buf.
        and_then (set_cells n [Some item] buf) (\<lambda>buf. gather_items gc iter buf (a * 2) (n + 1)))
      else and_then (set_cells n [Some item] buf) (\<lambda>buf. gather_items gc iter buf a (n + 1)))"

datatype 'o tuple_source = A_tuple "'o mp_obj_tuple" | Items_of "'o list"

definition mp_obj_tuple_make_new :: "'o gc_heap \<Rightarrow> 'o tuple_source option \<Rightarrow> seq_error + 'o mp_obj_tuple" where
  "mp_obj_tuple_make_new gc args =
     (case args of
        None \<Rightarrow> Inr mp_const_empty_tuple
      | Some (A_tuple t) \<Rightarrow> Inr t
      | Some (Items_of iterable) \<Rightarrow>
          and_then (m_new_cells gc 4) (\<lambda>buf.
          and_then (gather_items gc iterable buf 4 0) (\<lambda>(n, buf). mp_obj_new_tuple gc n (Some buf))))"

section \<open>Operators\<close>

definition tuple_objs :: "'o mp_obj_tuple \<Rightarrow> seq_error + 'o list" where
  "tuple_objs self =
     and_then (get_cells 0 (tuple_len self) (tuple_items self)) (\<lambda>cs.
       if None \<in> set cs then Inl Out_of_bounds else Inr (map the cs))"

text \<open>
  The hash of an item is a small integer, or the error its type raises.  The sum is a machine word that
  starts with the address of the empty tuple, and the result its low 31 bits as a small integer.
\<close>

definition small_int_value :: "u32 \<Rightarrow> int" where
  "small_int_value w = sint w div 2"

definition new_small_int :: "u32 \<Rightarrow> u32" where
  "new_small_int w = (push_bit 1 w) OR 1"

fun tuple_hash_loop :: "('o \<Rightarrow> seq_error + u32) \<Rightarrow> 'o list \<Rightarrow> u32 \<Rightarrow> seq_error + u32" where
  "tuple_hash_loop hash_of [] hash = Inr hash"
| "tuple_hash_loop hash_of (x # xs) hash =
     and_then (hash_of x) (\<lambda>h. tuple_hash_loop hash_of xs (hash + of_int (small_int_value h)))"

datatype tuple_unary = Tuple_bool | Tuple_hash | Tuple_len | Tuple_other

datatype tuple_unary_result = Truth_value bool | Small_int u32 | Length nat | Unary_not_supported

definition mp_obj_tuple_unary_op ::
  "u32 \<Rightarrow> ('o \<Rightarrow> seq_error + u32) \<Rightarrow> tuple_unary \<Rightarrow> 'o mp_obj_tuple \<Rightarrow> seq_error + tuple_unary_result" where
  "mp_obj_tuple_unary_op empty_addr hash_of op self =
     (case op of
        Tuple_bool \<Rightarrow> Inr (Truth_value (tuple_len self \<noteq> 0))
      | Tuple_hash \<Rightarrow>
          and_then (tuple_objs self) (\<lambda>xs.
          and_then (tuple_hash_loop hash_of xs empty_addr) (\<lambda>h. Inr (Small_int (new_small_int h))))
      | Tuple_len \<Rightarrow> Inr (Length (tuple_len self))
      | Tuple_other \<Rightarrow> Inr Unary_not_supported)"

text \<open>The right operand: a tuple, also of a subclass, an object that is an integer, or any other.\<close>

datatype 'o tuple_operand = Tuple_operand "'o mp_obj_tuple" | Number_operand int | Other_operand

datatype 'o tuple_result = Not_supported | New_tuple "'o mp_obj_tuple" | Compared bool

definition tuple_cmp_helper :: "('o \<Rightarrow> 'o \<Rightarrow> bool) \<Rightarrow> (binary_op \<Rightarrow> 'o \<Rightarrow> 'o \<Rightarrow> bool) \<Rightarrow> binary_op
    \<Rightarrow> 'o mp_obj_tuple \<Rightarrow> 'o tuple_operand \<Rightarrow> seq_error + 'o tuple_result" where
  "tuple_cmp_helper equal cmp op self another_in =
     (case another_in of
        Tuple_operand another \<Rightarrow>
          and_then (tuple_objs self) (\<lambda>xs. and_then (tuple_objs another) (\<lambda>ys.
            Inr (Compared (mp_seq_cmp_objs equal cmp op xs ys))))
      | _ \<Rightarrow> Inr Not_supported)"

definition tuple_add :: "'o gc_heap \<Rightarrow> 'o mp_obj_tuple \<Rightarrow> 'o mp_obj_tuple \<Rightarrow> seq_error + 'o mp_obj_tuple" where
  "tuple_add gc o' p =
     and_then (mp_obj_new_tuple gc (to_size_t (tuple_len o' + tuple_len p)) None) (\<lambda>s.
     and_then (mp_seq_cat (tuple_items s) (tuple_items o') (tuple_len o') (tuple_items p) (tuple_len p)) (\<lambda>cs.
       Inr (s\<lparr>tuple_items := cs\<rparr>)))"

definition tuple_multiply :: "'o gc_heap \<Rightarrow> 'o mp_obj_tuple \<Rightarrow> int \<Rightarrow> seq_error + 'o mp_obj_tuple" where
  "tuple_multiply gc o' n =
     (if n \<le> 0 then Inr mp_const_empty_tuple
      else
        and_then (mp_obj_new_tuple gc (to_size_t (tuple_len o' * nat n)) None) (\<lambda>s.
        and_then (mp_seq_multiply (tuple_items o') (tuple_len o') (nat n) (tuple_items s)) (\<lambda>cs.
          Inr (s\<lparr>tuple_items := cs\<rparr>))))"

datatype tuple_op = Tuple_add | Tuple_inplace_add | Tuple_multiply | Tuple_inplace_multiply
  | Tuple_compare binary_op | Tuple_no_op

definition mp_obj_tuple_binary_op :: "('o \<Rightarrow> 'o \<Rightarrow> bool) \<Rightarrow> (binary_op \<Rightarrow> 'o \<Rightarrow> 'o \<Rightarrow> bool) \<Rightarrow> 'o gc_heap \<Rightarrow> tuple_op
    \<Rightarrow> 'o mp_obj_tuple \<Rightarrow> 'o tuple_operand \<Rightarrow> seq_error + 'o tuple_result" where
  "mp_obj_tuple_binary_op equal cmp gc op lhs rhs =
     (if op = Tuple_add \<or> op = Tuple_inplace_add then
        (case rhs of
           Tuple_operand p \<Rightarrow> and_then (tuple_add gc lhs p) (\<lambda>s. Inr (New_tuple s))
         | _ \<Rightarrow> Inr Not_supported)
      else if op = Tuple_multiply \<or> op = Tuple_inplace_multiply then
        (case rhs of
           Number_operand n \<Rightarrow> and_then (tuple_multiply gc lhs n) (\<lambda>s. Inr (New_tuple s))
         | _ \<Rightarrow> Inr Not_supported)
      else
        (case op of
           Tuple_compare c \<Rightarrow> tuple_cmp_helper equal cmp c lhs rhs
         | _ \<Rightarrow> Inr Not_supported))"

section \<open>Subscripts, search, printing, iteration\<close>

text \<open>\<open>load\<close> says that the value is \<open>MP_OBJ_SENTINEL\<close>; a tuple cannot be stored to.\<close>

datatype 'o tuple_loaded = No_store | Tuple_item "'o option" | Subtuple "'o mp_obj_tuple"

definition mp_obj_tuple_subscr :: "'o gc_heap \<Rightarrow> 'o mp_obj_tuple \<Rightarrow> list_subscript \<Rightarrow> bool \<Rightarrow> seq_error + 'o tuple_loaded" where
  "mp_obj_tuple_subscr gc self index load =
     (if load then
        (case index of
           Slice_of sl \<Rightarrow>
             and_then (mp_seq_get_fast_slice_indexes (tuple_len self) sl) (\<lambda>(fast, b).
               if \<not> fast then Inl NotImplementedError
               else
                 and_then (mp_obj_new_tuple gc (nat (bs_stop b - bs_start b)) None) (\<lambda>res.
                 and_then (mp_seq_copy (tuple_items res) (drop (nat (bs_start b)) (tuple_items self)) (tuple_len res)) (\<lambda>cs.
                   Inr (Subtuple (res\<lparr>tuple_items := cs\<rparr>)))))
         | At i \<Rightarrow>
             and_then (mp_get_index (tuple_len self) i False) (\<lambda>index_value.
             and_then (get_cell (tuple_items self) index_value) (\<lambda>x. Inr (Tuple_item x))))
      else Inr No_store)"

definition tuple_count :: "('o \<Rightarrow> 'o \<Rightarrow> bool) \<Rightarrow> 'o mp_obj_tuple \<Rightarrow> 'o \<Rightarrow> seq_error + nat" where
  "tuple_count equal self x = and_then (tuple_objs self) (\<lambda>xs. Inr (mp_seq_count_obj equal xs x))"

definition tuple_index :: "('o \<Rightarrow> 'o \<Rightarrow> bool) \<Rightarrow> 'o mp_obj_tuple \<Rightarrow> 'o \<Rightarrow> int option list \<Rightarrow> seq_error + nat" where
  "tuple_index equal self x args = and_then (tuple_objs self) (\<lambda>xs. mp_seq_index_obj equal xs x args)"

text \<open>JSON is not built in, so that items are printed by \<open>repr\<close>.\<close>

definition mp_obj_tuple_print :: "('o \<Rightarrow> string) \<Rightarrow> 'o mp_obj_tuple \<Rightarrow> seq_error + string" where
  "mp_obj_tuple_print repr self =
     and_then (tuple_objs self) (\<lambda>xs.
       Inr (''('' @ print_items repr True xs @ (if tuple_len self = 1 then '','' else []) @ '')''))"

definition tuple_it_iternext :: "'o mp_obj_tuple \<Rightarrow> nat \<Rightarrow> (seq_error + 'o option option) \<times> nat" where
  "tuple_it_iternext tuple cur =
     (if cur < tuple_len tuple then
        (case get_cell (tuple_items tuple) cur of Inl e \<Rightarrow> (Inl e, cur) | Inr x \<Rightarrow> (Inr (Some x), cur + 1))
      else (Inr None, cur))"

definition mp_obj_tuple_getiter :: "'o mp_obj_tuple \<Rightarrow> 'o mp_obj_tuple \<times> nat" where
  "mp_obj_tuple_getiter self = (self, 0)"

text \<open>All that a \<open>for\<close> loop gets from the iterator, with enough steps to reach its end.\<close>

fun tuple_items_from :: "nat \<Rightarrow> 'o mp_obj_tuple \<times> nat \<Rightarrow> seq_error + 'o option list" where
  "tuple_items_from 0 it = Inr []"
| "tuple_items_from (Suc fuel) (tuple, cur) =
     (case tuple_it_iternext tuple cur of
        (Inl e, _) \<Rightarrow> Inl e
      | (Inr None, _) \<Rightarrow> Inr []
      | (Inr (Some x), cur) \<Rightarrow> and_then (tuple_items_from fuel (tuple, cur)) (\<lambda>xs. Inr (x # xs)))"

end
