(* ===== verification/MpTupleSpec.thy ===== *)
theory MpTupleSpec
  imports MpTuple MpListSpec
begin

text \<open>
  What Python's tuples promise, on plain lists of their items, and that the operations of \<open>MpTuple\<close> keep it.
\<close>

section \<open>The invariant\<close>

definition tup :: "'o list \<Rightarrow> 'o mp_obj_tuple" where
  "tup xs = \<lparr>tuple_len = length xs, tuple_items = map Some xs\<rparr>"

definition tuple_elems :: "'o mp_obj_tuple \<Rightarrow> 'o list" where
  "tuple_elems t = map the (tuple_items t)"

definition tuple_ok :: "'o mp_obj_tuple \<Rightarrow> bool" where
  "tuple_ok t \<longleftrightarrow> t = tup (tuple_elems t) \<and> tuple_len t \<le> MAX_CELLS"

lemma tup_simps [simp]:
  "tuple_len (tup xs) = length xs" "tuple_items (tup xs) = map Some xs" "tuple_elems (tup xs) = xs"
  "tuple_ok (tup xs) \<longleftrightarrow> length xs \<le> MAX_CELLS" "tuple_objs (tup xs) = Inr xs"
  by (simp_all add: tup_def tuple_elems_def tuple_ok_def tuple_objs_def get_cells_def o_def image_iff)

lemma tuple_okE:
  assumes "tuple_ok t"
  obtains xs where "t = tup xs" "length xs \<le> MAX_CELLS"
  using assms unfolding tuple_ok_def by (metis tup_simps(1))

lemma empty_tuple [simp]: "mp_const_empty_tuple = tup []"
  by (simp add: mp_const_empty_tuple_def tup_def)

text \<open>What an operation that makes a tuple gives: the tuple of these items, or a memory error.\<close>

definition makes_tuple :: "'o list \<Rightarrow> seq_error + 'o mp_obj_tuple \<Rightarrow> bool" where
  "makes_tuple zs r \<longleftrightarrow> r = Inl MemoryError \<or> r = Inr (tup zs) \<and> length zs \<le> MAX_CELLS"

section \<open>Making tuples\<close>

lemma tuple_malloc_small:
  assumes "heap_limited gc" "n \<le> 1073741821"
  obtains "tuple_malloc gc n = Inl MemoryError"
  | cs where "tuple_malloc gc n = Inr cs" "length cs = n" "n \<le> MAX_CELLS"
proof (cases "grants gc (8 + 4 * n)")
  case True
  then have "8 + 4 * n \<le> 4 * MAX_CELLS" using assms(1) by (auto simp: heap_limited_def)
  moreover have "tuple_malloc gc n = Inr (map (stale_cell gc) [0..<n])"
    using True assms(2) by (simp add: tuple_malloc_def to_size_t_def Let_def)
  ultimately show ?thesis using that(2) by simp
next
  case False
  then show ?thesis using that(1) assms(2) by (simp add: tuple_malloc_def to_size_t_def Let_def)
qed

lemma fill_tuple_ok:
  "i + k \<le> length src \<Longrightarrow> i + k \<le> length dest \<Longrightarrow>
     fill_tuple k i src dest = Inr (take i dest @ take k (drop i src) @ drop (i + k) dest)"
proof (induction k arbitrary: i dest)
  case (Suc k)
  let ?d = "take i dest @ [src ! i] @ drop (Suc i) dest"
  have "set_cells i [src ! i] dest = Inr ?d" using Suc.prems by (simp add: set_cells_ok)
  moreover have "take (Suc i) ?d = take i dest @ [src ! i]" using Suc.prems by simp
  moreover have "drop (Suc i + k) ?d = drop (i + Suc k) dest" using Suc.prems by (simp add: add.commute)
  moreover have "take (Suc k) (drop i src) = src ! i # take k (drop (Suc i) src)"
    using Suc.prems by (simp add: take_Suc_conv_app_nth Cons_nth_drop_Suc [symmetric])
  ultimately show ?case using Suc.IH [of "Suc i" ?d] Suc.prems
    by (simp add: get_cell_def)
qed simp

lemma new_tuple_filled:
  assumes "heap_limited gc" "length zs \<le> 1073741821"
    and fill: "\<And>cs. length cs = length zs \<Longrightarrow> fill cs = Inr (map Some zs)"
  shows "makes_tuple zs (and_then (mp_obj_new_tuple gc (length zs) None) (\<lambda>s.
      and_then (fill (tuple_items s)) (\<lambda>cs. Inr (s\<lparr>tuple_items := cs\<rparr>))))"
proof (cases "zs = []")
  case True
  then show ?thesis using fill [of "[]"] by (simp add: mp_obj_new_tuple_def makes_tuple_def tup_def)
next
  case False
  show ?thesis
    by (rule tuple_malloc_small [OF assms(1,2)])
      (use False fill in \<open>auto simp: mp_obj_new_tuple_def makes_tuple_def tup_def\<close>)
qed

lemma new_tuple_copied:
  assumes "heap_limited gc" "length zs \<le> MAX_CELLS"
  shows "makes_tuple zs (mp_obj_new_tuple gc (length zs) (Some (map Some zs @ R)))"
proof (cases "zs = []")
  case False
  have "length zs \<le> 1073741821" using assms(2) by (simp add: MAX_CELLS_def)
  then show ?thesis
    by (rule tuple_malloc_small [OF assms(1)])
      (use False in \<open>auto simp: mp_obj_new_tuple_def makes_tuple_def tup_def fill_tuple_ok\<close>)
qed (simp add: mp_obj_new_tuple_def makes_tuple_def)

text \<open>The block in which the items of an iterable are gathered has the items so far in front.\<close>

lemma gather_items_ok:
  assumes "heap_limited gc" "length xs \<le> a" "a \<le> MAX_CELLS" "2 \<le> a" "length R = a - length xs"
  shows "gather_items gc ys (map Some xs @ R) a (length xs) = Inl MemoryError
    \<or> (\<exists>R'. gather_items gc ys (map Some xs @ R) a (length xs) = Inr (length (xs @ ys), map Some (xs @ ys) @ R')
         \<and> length (xs @ ys) \<le> MAX_CELLS)"
  using assms(2-5)
proof (induction ys arbitrary: xs a R)
  case (Cons y ys)
  have store: "set_cells (length xs) [Some y] (map Some xs @ c # S) = Inr (map Some (xs @ [y]) @ S)" for c S
    using set_cells_parts [of "length xs" "map Some xs" "[c]" "[Some y]" S] by simp
  have next_turn: "gather_items gc ys (map Some (xs @ [y]) @ S) b (length xs + 1) = Inl MemoryError
      \<or> (\<exists>R'. gather_items gc ys (map Some (xs @ [y]) @ S) b (length xs + 1)
            = Inr (length (xs @ y # ys), map Some (xs @ y # ys) @ R') \<and> length (xs @ y # ys) \<le> MAX_CELLS)"
    if "length xs < b" "b \<le> MAX_CELLS" "2 \<le> b" "length S = b - Suc (length xs)" for S b
    using Cons.IH [of "xs @ [y]" b S] that by simp
  show ?case
  proof (cases "length xs < a")
    case True
    then obtain c S where "R = c # S" using Cons.prems by (cases R) auto
    then show ?thesis using True next_turn [of a S] store [of c S] Cons.prems by simp
  next
    case False
    then have full: "R = []" "a = length xs" using Cons.prems by auto
    have "length (map Some xs) \<le> MAX_CELLS" "length (map Some xs) \<le> a * 2" "a * 2 \<le> 1073741823"
      using Cons.prems full by (simp_all add: MAX_CELLS_def)
    then show ?thesis
    proof (rule renew_grow [OF assms(1)])
      assume "m_renew_cells gc (map Some xs) (a * 2) = Inl MemoryError"
      then show ?thesis using full by simp
    next
      fix new assume new: "m_renew_cells gc (map Some xs) (a * 2) = Inr (map Some xs @ new)"
        "length new = a * 2 - length (map Some xs)" "a * 2 \<le> MAX_CELLS"
      then obtain c S where S: "new = c # S" using full Cons.prems by (cases new) auto
      have "length S = a * 2 - Suc (length xs)" "length xs < a * 2" using S new(2) full Cons.prems by auto
      then show ?thesis using next_turn [of "a * 2" S] store [of c S] new S full Cons.prems by simp
    qed
  qed
qed simp

lemma make_tuple_from:
  assumes "heap_limited gc"
  shows "makes_tuple ys (mp_obj_tuple_make_new gc (Some (Items_of ys)))"
proof (cases "m_new_cells gc 4")
  case (Inl e)
  then show ?thesis by (auto simp: mp_obj_tuple_make_new_def makes_tuple_def new_cells_small split: if_splits)
next
  case (Inr R)
  then have "length R = 4" by (auto simp: new_cells_small split: if_splits)
  then consider "gather_items gc ys R 4 0 = Inl MemoryError"
    | R' where "gather_items gc ys R 4 0 = Inr (length ys, map Some ys @ R')" "length ys \<le> MAX_CELLS"
    using gather_items_ok [OF assms, of "[]" 4 R ys] by (auto simp: MAX_CELLS_def)
  then show ?thesis
  proof cases
    case (2 R')
    then show ?thesis using new_tuple_copied [OF assms, of ys R'] Inr by (simp add: mp_obj_tuple_make_new_def)
  qed (simp add: Inr mp_obj_tuple_make_new_def makes_tuple_def)
qed

lemma add_tuples:
  assumes "heap_limited gc" "length xs \<le> MAX_CELLS" "length ys \<le> MAX_CELLS"
  shows "makes_tuple (xs @ ys) (tuple_add gc (tup xs) (tup ys))"
proof -
  have small: "length xs + length ys \<le> 262144" using assms by (simp add: MAX_CELLS_def)
  then have "makes_tuple (xs @ ys) (and_then (mp_obj_new_tuple gc (length (xs @ ys)) None) (\<lambda>s.
      and_then (mp_seq_cat (tuple_items s) (map Some xs) (length xs) (map Some ys) (length ys)) (\<lambda>cs. Inr (s\<lparr>tuple_items := cs\<rparr>))))"
    by (intro new_tuple_filled [OF assms(1)]) (simp_all add: mp_seq_cat_ok)
  moreover have "to_size_t (length xs + length ys) = length (xs @ ys)" using small by (simp add: to_size_t_def)
  ultimately show ?thesis unfolding tuple_add_def tup_simps by simp
qed

lemma multiply_tuple:
  assumes "heap_limited gc" "length xs * nat n \<le> 1073741821"
  shows "makes_tuple (concat (replicate (nat n) xs)) (tuple_multiply gc (tup xs) n)"
proof (cases "n \<le> 0")
  case False
  let ?zs = "concat (replicate (nat n) xs)"
  have len: "length ?zs = length xs * nat n" by (simp add: length_concat sum_list_replicate)
  have "makes_tuple ?zs (and_then (mp_obj_new_tuple gc (length ?zs) None) (\<lambda>s.
      and_then (mp_seq_multiply (map Some xs) (length xs) (nat n) (tuple_items s)) (\<lambda>cs. Inr (s\<lparr>tuple_items := cs\<rparr>))))"
    by (intro new_tuple_filled [OF assms(1)]) (use assms(2) in \<open>auto simp: len mp_seq_multiply_ok mult.commute map_concat\<close>)
  moreover have "to_size_t (length xs * nat n) = length xs * nat n" using assms(2) by (simp add: to_size_t_def)
  ultimately show ?thesis using False unfolding tuple_multiply_def tup_simps len by simp
qed (simp add: tuple_multiply_def makes_tuple_def)

lemma slice_tuple:
  assumes "heap_limited gc" "length xs \<le> MAX_CELLS"
  shows "case py_cut sl (length xs) of
      Inl e \<Rightarrow> mp_obj_tuple_subscr gc (tup xs) (Slice_of sl) True = Inl e
    | Inr (i, j) \<Rightarrow> \<exists>r. mp_obj_tuple_subscr gc (tup xs) (Slice_of sl) True = and_then r (\<lambda>t. Inr (Subtuple t))
        \<and> makes_tuple (take (j - i) (drop i xs)) r"
proof (rule cut_cases [of "length xs" sl])
  fix b i j
  assume f: "mp_seq_get_fast_slice_indexes (length xs) sl = Inr (True, b)" "py_cut sl (length xs) = Inr (i, j)"
    and ij: "i \<le> j" "j \<le> length xs" and b: "bs_start b = int i" "bs_stop b = int j" "bs_step b = 1"
  let ?zs = "take (j - i) (drop i xs)"
  define r where "r = and_then (mp_obj_new_tuple gc (length ?zs) None) (\<lambda>res.
    and_then (mp_seq_copy (tuple_items res) (drop i (map Some xs)) (length ?zs)) (\<lambda>cs. Inr (res\<lparr>tuple_items := cs\<rparr>)))"
  have len: "length ?zs = j - i" using ij by simp
  have r: "makes_tuple ?zs r"
    unfolding r_def
  proof (rule new_tuple_filled [OF assms(1)])
    show "mp_seq_copy cs (drop i (map Some xs)) (length ?zs) = Inr (map Some ?zs)" if "length cs = length ?zs" for cs
      using that ij by (simp add: mp_seq_copy_def get_cells_ok set_cells_ok take_map drop_map)
  qed (use ij assms(2) in \<open>simp add: MAX_CELLS_def\<close>)
  have "res_len = j - i" if "mp_obj_new_tuple gc (j - i) None = Inr res" "res_len = tuple_len res" for res res_len
    using that by (auto simp: mp_obj_new_tuple_def split: if_splits sum.splits)
  then have "mp_obj_tuple_subscr gc (tup xs) (Slice_of sl) True = and_then r (\<lambda>t. Inr (Subtuple t))"
    using f b ij unfolding r_def len
    by (auto simp: mp_obj_tuple_subscr_def nat_diff_distrib split: sum.splits)
  then show ?thesis using f r by auto
qed (auto simp: mp_obj_tuple_subscr_def)

lemma iterate_tuple:
  "length xs - cur \<le> fuel \<Longrightarrow> cur \<le> length xs \<Longrightarrow>
     tuple_items_from (Suc fuel) (tup xs, cur) = Inr (map Some (drop cur xs))"
proof (induction fuel arbitrary: cur)
  case 0
  then show ?case by (simp add: tuple_it_iternext_def)
next
  case (Suc fuel)
  show ?case
  proof (cases "cur < length xs")
    case True
    then show ?thesis using Suc.IH [of "cur + 1"] Suc.prems
      by (simp add: tuple_it_iternext_def get_cell_def Cons_nth_drop_Suc [symmetric])
  qed (simp add: tuple_it_iternext_def)
qed

section \<open>Calls and their meaning\<close>

datatype 'o tuple_call =
    Make_from "'o list"
  | Add_tuple "'o mp_obj_tuple"
  | Repeat int
  | Take_slice mp_obj_slice
  | Take_item "int option"
  | Find_item 'o "int option list"
  | Count_item 'o
  | Size
  | Iterate

datatype 'o tuple_answer = A_new_tuple "'o mp_obj_tuple" | The_item "'o option" | A_size nat | All_items "'o option list"

fun do_tuple :: "('o \<Rightarrow> 'o \<Rightarrow> bool) \<Rightarrow> (binary_op \<Rightarrow> 'o \<Rightarrow> 'o \<Rightarrow> bool) \<Rightarrow> 'o gc_heap \<Rightarrow> 'o tuple_call \<Rightarrow> 'o mp_obj_tuple
    \<Rightarrow> seq_error + 'o tuple_answer" where
  "do_tuple equal cmp gc (Make_from ys) t = and_then (mp_obj_tuple_make_new gc (Some (Items_of ys))) (\<lambda>t. Inr (A_new_tuple t))"
| "do_tuple equal cmp gc (Add_tuple p) t =
     and_then (mp_obj_tuple_binary_op equal cmp gc Tuple_add t (Tuple_operand p)) (\<lambda>r.
       case r of New_tuple t \<Rightarrow> Inr (A_new_tuple t) | _ \<Rightarrow> Inl TypeError)"
| "do_tuple equal cmp gc (Repeat n) t =
     and_then (mp_obj_tuple_binary_op equal cmp gc Tuple_multiply t (Number_operand n)) (\<lambda>r.
       case r of New_tuple t \<Rightarrow> Inr (A_new_tuple t) | _ \<Rightarrow> Inl TypeError)"
| "do_tuple equal cmp gc (Take_slice sl) t =
     and_then (mp_obj_tuple_subscr gc t (Slice_of sl) True) (\<lambda>r.
       case r of Subtuple t \<Rightarrow> Inr (A_new_tuple t) | _ \<Rightarrow> Inl TypeError)"
| "do_tuple equal cmp gc (Take_item i) t =
     and_then (mp_obj_tuple_subscr gc t (At i) True) (\<lambda>r.
       case r of Tuple_item x \<Rightarrow> Inr (The_item x) | _ \<Rightarrow> Inl TypeError)"
| "do_tuple equal cmp gc (Find_item x args) t = and_then (tuple_index equal t x args) (\<lambda>n. Inr (A_size n))"
| "do_tuple equal cmp gc (Count_item x) t = and_then (tuple_count equal t x) (\<lambda>n. Inr (A_size n))"
| "do_tuple equal cmp gc Size t =
     and_then (mp_obj_tuple_unary_op 0 (\<lambda>x. Inl TypeError) Tuple_len t) (\<lambda>r.
       case r of Length n \<Rightarrow> Inr (A_size n) | _ \<Rightarrow> Inl TypeError)"
| "do_tuple equal cmp gc Iterate t =
     and_then (tuple_items_from (Suc (tuple_len t)) (mp_obj_tuple_getiter t)) (\<lambda>xs. Inr (All_items xs))"

fun py_tuple :: "('o \<Rightarrow> 'o \<Rightarrow> bool) \<Rightarrow> 'o tuple_call \<Rightarrow> 'o list \<Rightarrow> seq_error + 'o tuple_answer" where
  "py_tuple equal (Make_from ys) xs = Inr (A_new_tuple (tup ys))"
| "py_tuple equal (Add_tuple p) xs = Inr (A_new_tuple (tup (xs @ tuple_elems p)))"
| "py_tuple equal (Repeat n) xs = Inr (A_new_tuple (tup (concat (replicate (nat n) xs))))"
| "py_tuple equal (Take_slice sl) xs =
     and_then (py_cut sl (length xs)) (\<lambda>(i, j). Inr (A_new_tuple (tup (take (j - i) (drop i xs)))))"
| "py_tuple equal (Take_item i) xs = and_then (py_index (length xs) i) (\<lambda>j. Inr (The_item (Some (xs ! j))))"
| "py_tuple equal (Find_item x args) xs =
     and_then (py_limits (length xs) args) (\<lambda>(i, j). and_then (first_equal equal xs x i j) (\<lambda>n. Inr (A_size n)))"
| "py_tuple equal (Count_item x) xs = Inr (A_size (length (filter (\<lambda>y. equal y x) xs)))"
| "py_tuple equal Size xs = Inr (A_size (length xs))"
| "py_tuple equal Iterate xs = Inr (All_items (map Some xs))"

text \<open>Arguments are objects of the same heap, and a product has less than 2 to the 30 items.\<close>

fun tuple_call_valid :: "'o tuple_call \<Rightarrow> 'o mp_obj_tuple \<Rightarrow> bool" where
  "tuple_call_valid (Add_tuple p) t = tuple_ok p"
| "tuple_call_valid (Repeat n) t = (tuple_len t * nat n \<le> 1073741821)"
| "tuple_call_valid c t = True"

fun answer_ok :: "seq_error + 'o tuple_answer \<Rightarrow> bool" where
  "answer_ok (Inr (A_new_tuple t)) = tuple_ok t"
| "answer_ok r = True"

text \<open>What a call must give: a memory error, or the answer, with a well-formed tuple.\<close>

definition tuple_result_ok :: "seq_error + 'o tuple_answer \<Rightarrow> seq_error + 'o tuple_answer \<Rightarrow> bool" where
  "tuple_result_ok r py \<longleftrightarrow> r = Inl MemoryError \<or> r = py \<and> answer_ok r"

lemma made_result:
  "makes_tuple zs r \<Longrightarrow> tuple_result_ok (and_then r (\<lambda>t. Inr (A_new_tuple t))) (Inr (A_new_tuple (tup zs)))"
  by (auto simp: makes_tuple_def tuple_result_ok_def)

lemma do_tuple_correct:
  assumes gc: "heap_limited gc" and len: "length xs \<le> MAX_CELLS" and valid: "tuple_call_valid c (tup xs)"
  shows "tuple_result_ok (do_tuple equal cmp gc c (tup xs)) (py_tuple equal c xs)"
proof (cases c)
  case (Make_from ys)
  then show ?thesis using made_result [OF make_tuple_from [OF gc, of ys]] by simp
next
  case (Add_tuple p)
  then obtain ys where p: "p = tup ys" "length ys \<le> MAX_CELLS" using valid by (auto elim: tuple_okE)
  then show ?thesis using made_result [OF add_tuples [OF gc len p(2)]] Add_tuple
    by (simp add: mp_obj_tuple_binary_op_def) (cases "tuple_add gc (tup xs) (tup ys)"; simp)
next
  case (Repeat n)
  then have "length xs * nat n \<le> 1073741821" using valid by simp
  from made_result [OF multiply_tuple [OF gc this]] show ?thesis using Repeat
    by (simp add: mp_obj_tuple_binary_op_def) (cases "tuple_multiply gc (tup xs) n"; simp)
next
  case (Take_slice sl)
  show ?thesis
  proof (cases "py_cut sl (length xs)")
    case (Inl e)
    then show ?thesis using slice_tuple [OF gc len, of sl] by (simp add: Take_slice tuple_result_ok_def)
  next
    case (Inr ij)
    then obtain i j r where ij: "ij = (i, j)" and r: "mp_obj_tuple_subscr gc (tup xs) (Slice_of sl) True = and_then r (\<lambda>t. Inr (Subtuple t))"
      "makes_tuple (take (j - i) (drop i xs)) r"
      using slice_tuple [OF gc len, of sl] by (cases ij) auto
    then show ?thesis using made_result [OF r(2)] Inr by (cases r) (simp_all add: Take_slice)
  qed
next
  case (Take_item i)
  show ?thesis
  proof (cases "py_index (length xs) i")
    case (Inl e)
    then show ?thesis by (simp add: Take_item mp_obj_tuple_subscr_def py_index_eq tuple_result_ok_def)
  next
    case (Inr j)
    then have "j < length xs" using mp_get_index_bound [of "length xs" i j] by (simp add: py_index_eq)
    then show ?thesis using Inr by (simp add: Take_item mp_obj_tuple_subscr_def py_index_eq get_cell_def tuple_result_ok_def)
  qed
next
  case (Find_item x args)
  then show ?thesis
    by (cases "py_limits (length xs) args") (auto simp: tuple_index_def index_obj_eq tuple_result_ok_def split: sum.splits)
next
  case (Count_item x)
  then show ?thesis by (simp add: tuple_count_def mp_seq_count_obj_correct tuple_result_ok_def)
next
  case Size
  then show ?thesis by (simp add: mp_obj_tuple_unary_op_def tuple_result_ok_def)
next
  case Iterate
  then show ?thesis using iterate_tuple [of xs 0 "length xs"]
    by (simp add: mp_obj_tuple_getiter_def tuple_result_ok_def del: tuple_items_from.simps)
qed

section \<open>Hashing\<close>

lemma hash_loop_sum:
  "(\<And>x. x \<in> set xs \<Longrightarrow> hash_of x = Inr (h x)) \<Longrightarrow>
     tuple_hash_loop hash_of xs w = Inr (w + (\<Sum>x\<leftarrow>xs. of_int (small_int_value (h x))))"
  by (induction xs arbitrary: w) (simp_all add: add.assoc)

lemma hash_loop_cong:
  "list_all2 (\<lambda>x y. hash_of x = hash_of y) xs ys \<Longrightarrow> tuple_hash_loop hash_of xs w = tuple_hash_loop hash_of ys w"
  by (induction xs ys arbitrary: w rule: list_all2_induct) (auto split: sum.split)

lemma cmp_objs_equal_items:
  assumes "mp_seq_cmp_objs equal cmp Op_equal xs ys"
  shows "list_all2 equal xs ys"
proof -
  have len: "length xs = length ys" using assms by (auto simp: mp_seq_cmp_objs_def split: if_splits)
  then have "cmp_objs_loop equal cmp Op_equal xs ys = (if list_all2 equal xs ys then None else Some False)"
    by (induction xs ys rule: list_induct2) auto
  then show ?thesis using assms by (auto simp: mp_seq_cmp_objs_def len split: if_splits)
qed

section \<open>Properties\<close>


definition tuple12 :: "nat mp_obj_tuple" where
  "tuple12 = \<lparr>tuple_len = 2, tuple_items = [Some 1, Some 2]\<rparr>"

lemma tuple12_eq: "tuple12 = tup [1, 2]"
  by (simp add: tuple12_def tup_def)

lemma tuple12_ok: "tuple_ok tuple12"
  by (simp add: tuple12_eq MAX_CELLS_def)


text \<open>
  Two tuples that compare equal have the same hash, or raise the same error, whenever equal items do; and
  if every item can be hashed the result is the sum of the items' hashes and the address of the empty
  tuple, cut to a small integer.
\<close>

theorem tuple_hash_agrees:
  assumes "tuple_ok t" "tuple_ok p" "\<And>x y. equal x y \<Longrightarrow> hash_of x = hash_of y"
    and "mp_obj_tuple_binary_op equal cmp gc (Tuple_compare Op_equal) t (Tuple_operand p) = Inr (Compared True)"
  shows "mp_obj_tuple_unary_op addr hash_of Tuple_hash t = mp_obj_tuple_unary_op addr hash_of Tuple_hash p
    \<and> (\<forall>h. (\<forall>x \<in> set (tuple_elems t). hash_of x = Inr (h x)) \<longrightarrow>
         mp_obj_tuple_unary_op addr hash_of Tuple_hash t
           = Inr (Small_int (new_small_int (addr + (\<Sum>x\<leftarrow>tuple_elems t. of_int (small_int_value (h x)))))))"
proof -
  obtain xs ys where t: "t = tup xs" "p = tup ys" using assms(1,2) by (elim tuple_okE) blast
  have "list_all2 equal xs ys"
    using assms(4) cmp_objs_equal_items [of equal cmp xs ys] by (simp add: t mp_obj_tuple_binary_op_def tuple_cmp_helper_def)
  then have "list_all2 (\<lambda>x y. hash_of x = hash_of y) xs ys" by (rule list_all2_mono) (rule assms(3))
  from hash_loop_cong [OF this] hash_loop_sum [of xs hash_of _ addr] show ?thesis
    by (auto simp: t mp_obj_tuple_unary_op_def)
qed

theorem tuple_hash_agrees_witness:
  "mp_obj_tuple_unary_op 0x1000 (\<lambda>x. Inr (new_small_int (of_nat x))) Tuple_hash tuple12 = Inr (Small_int 0x2007)"
proof -
  have eq: "mp_obj_tuple_binary_op (=) nat_cmp heap64 (Tuple_compare Op_equal) tuple12 (Tuple_operand tuple12) = Inr (Compared True)"
    by code_simp
  have same: "(Inr (new_small_int (of_nat x)) :: seq_error + u32) = Inr (new_small_int (of_nat y))" if "x = y" for x y :: nat
    using that by simp
  note hash = tuple_hash_agrees [where addr = "0x1000" and hash_of = "\<lambda>x. Inr (new_small_int (of_nat x))", OF tuple12_ok tuple12_ok same eq]
  have "small_int_value (new_small_int 1) = 1" "small_int_value (new_small_int 2) = 2" "new_small_int 0x1003 = (0x2007 :: u32)"
    by (simp_all add: small_int_value_def new_small_int_def)
  then show ?thesis
    using conjunct2 [OF hash, THEN spec, of "\<lambda>x. new_small_int (of_nat x)"] by (simp add: tuple12_eq)
qed



end
