(* ===== verification/MpString.thy ===== *)
theory MpString
  imports MpSeq Unichar
begin

text \<open>
  Strings and bytes: the methods of \<open>python/py/objstr.c\<close> in this configuration, where a string is a
  sequence of bytes (no Unicode strings, no byte arrays).

  A string object is its type and its bytes.  A pointer into the bytes is an index or, where a loop only
  moves it on, the list of the bytes from it to the end.  A \<open>memcmp\<close> with zero is the comparison of as many
  bytes as the second string has.  Whether memory for a result can be had is left out; where a result is
  written into a buffer, the buffer has its length and a write past it is the error \<open>Out_of_bounds\<close>.
\<close>

section \<open>Objects and arguments\<close>

text \<open>
  An argument is a string or bytes object, \<open>None\<close>, an object that \<open>mp_obj_get_int_maybe\<close> converts (a small
  integer or a truth value) with its value, or any other object.
\<close>

datatype str_type = Is_str | Is_bytes

datatype py_arg = Text str_type "u8 list" | Py_none | Py_int int | Py_other

text \<open>\<open>str_check_arg_type\<close> and \<open>mp_obj_str_get_data\<close>, with the bytes they let through.\<close>

definition str_check_arg_type :: "str_type \<Rightarrow> py_arg \<Rightarrow> seq_error + u8 list" where
  "str_check_arg_type self_type arg =
     (case arg of Text t bs \<Rightarrow> if t = self_type then Inr bs else Inl TypeError | _ \<Rightarrow> Inl TypeError)"

definition mp_obj_str_get_data :: "py_arg \<Rightarrow> seq_error + u8 list" where
  "mp_obj_str_get_data arg = (case arg of Text t bs \<Rightarrow> Inr bs | _ \<Rightarrow> Inl TypeError)"

definition get_int :: "py_arg \<Rightarrow> seq_error + int" where
  "get_int arg = (case arg of Py_int i \<Rightarrow> Inr i | _ \<Rightarrow> Inl TypeError)"

definition str_index_to_ptr :: "nat \<Rightarrow> py_arg \<Rightarrow> bool \<Rightarrow> seq_error + nat" where
  "str_index_to_ptr self_len index is_slice =
     mp_get_index self_len (case index of Py_int i \<Rightarrow> Some i | _ \<Rightarrow> None) is_slice"

definition match_at :: "u8 list \<Rightarrow> nat \<Rightarrow> u8 list \<Rightarrow> bool" where
  "match_at s i needle \<longleftrightarrow> take (length needle) (drop i s) = needle"

section \<open>Searching\<close>

text \<open>The loop of \<open>find_subbytes\<close>, from \<open>str_index\<close> with \<open>k\<close> steps left to \<open>str_index_end\<close>.\<close>

fun find_loop :: "u8 list \<Rightarrow> u8 list \<Rightarrow> bool \<Rightarrow> nat \<Rightarrow> nat \<Rightarrow> nat option" where
  "find_loop haystack needle forward i k =
     (if match_at haystack i needle then Some i
      else case k of
        0 \<Rightarrow> None
      | Suc k \<Rightarrow> find_loop haystack needle forward (if forward then i + 1 else i - 1) k)"

declare find_loop.simps [simp del]

definition find_subbytes :: "u8 list \<Rightarrow> u8 list \<Rightarrow> bool \<Rightarrow> nat option" where
  "find_subbytes haystack needle forward =
     (if length haystack \<ge> length needle then
        find_loop haystack needle forward (if forward then 0 else length haystack - length needle)
          (length haystack - length needle)
      else None)"

text \<open>An optional start or end of \<open>find\<close> and \<open>count\<close>: absent or \<open>None\<close>, or an index as in a slice.\<close>

definition str_bound :: "nat \<Rightarrow> py_arg list \<Rightarrow> nat \<Rightarrow> nat \<Rightarrow> seq_error + nat" where
  "str_bound len args k dflt =
     (if k < length args \<and> args ! k \<noteq> Py_none then str_index_to_ptr len (args ! k) True else Inr dflt)"

definition str_finder :: "str_type \<Rightarrow> u8 list \<Rightarrow> py_arg \<Rightarrow> py_arg list \<Rightarrow> bool \<Rightarrow> bool \<Rightarrow> seq_error + int" where
  "str_finder self_type haystack arg args forward is_index =
     and_then (str_check_arg_type self_type arg) (\<lambda>needle.
     and_then (str_bound (length haystack) args 0 0) (\<lambda>start.
     and_then (str_bound (length haystack) args 1 (length haystack)) (\<lambda>end_pos.
       let out_error = (if is_index then Inl ValueError else Inr (- 1)) in
       if end_pos < start then out_error
       else case find_subbytes (take (end_pos - start) (drop start haystack)) needle forward of
              None \<Rightarrow> out_error
            | Some p \<Rightarrow> Inr (int (start + p)))))"

definition str_find :: "str_type \<Rightarrow> u8 list \<Rightarrow> py_arg \<Rightarrow> py_arg list \<Rightarrow> seq_error + int" where
  "str_find t s arg args = str_finder t s arg args True False"

definition str_rfind :: "str_type \<Rightarrow> u8 list \<Rightarrow> py_arg \<Rightarrow> py_arg list \<Rightarrow> seq_error + int" where
  "str_rfind t s arg args = str_finder t s arg args False False"

definition str_index :: "str_type \<Rightarrow> u8 list \<Rightarrow> py_arg \<Rightarrow> py_arg list \<Rightarrow> seq_error + int" where
  "str_index t s arg args = str_finder t s arg args True True"

definition str_rindex :: "str_type \<Rightarrow> u8 list \<Rightarrow> py_arg \<Rightarrow> py_arg list \<Rightarrow> seq_error + int" where
  "str_rindex t s arg args = str_finder t s arg args False True"

definition str_startswith :: "u8 list \<Rightarrow> py_arg \<Rightarrow> py_arg option \<Rightarrow> seq_error + bool" where
  "str_startswith str arg start_arg =
     and_then (mp_obj_str_get_data arg) (\<lambda>prefix.
     and_then (case start_arg of None \<Rightarrow> Inr 0 | Some i \<Rightarrow> str_index_to_ptr (length str) i True) (\<lambda>start.
       if length prefix + start > length str then Inr False else Inr (match_at str start prefix)))"

definition str_endswith :: "u8 list \<Rightarrow> py_arg \<Rightarrow> py_arg option \<Rightarrow> seq_error + bool" where
  "str_endswith str arg start_arg =
     and_then (mp_obj_str_get_data arg) (\<lambda>suffix.
       if start_arg \<noteq> None then Inl NotImplementedError
       else if length suffix > length str then Inr False
       else Inr (match_at str (length str - length suffix) suffix))"

text \<open>The loop of \<open>str_count\<close> over the bytes from \<open>haystack_ptr\<close> to \<open>end\<close>, for a needle that is not empty.\<close>

function count_loop :: "u8 list \<Rightarrow> u8 list \<Rightarrow> int \<Rightarrow> int" where
  "count_loop s needle n =
     (if length needle \<le> length s \<and> needle \<noteq> [] then
        if match_at s 0 needle then count_loop (drop (length needle) s) needle (n + 1)
        else count_loop (drop 1 s) needle n
      else n)"
  by pat_completeness auto
termination
  by (relation "measure (\<lambda>(s, _). length s)") (auto simp flip: length_greater_0_conv)

declare count_loop.simps [simp del]

definition str_count :: "str_type \<Rightarrow> u8 list \<Rightarrow> py_arg \<Rightarrow> py_arg list \<Rightarrow> seq_error + int" where
  "str_count self_type haystack arg args =
     and_then (str_check_arg_type self_type arg) (\<lambda>needle.
     and_then (str_bound (length haystack) args 0 0) (\<lambda>start.
     and_then (str_bound (length haystack) args 1 (length haystack)) (\<lambda>end_pos.
       if needle = [] then Inr (int end_pos - int start + 1)
       else Inr (count_loop (take (end_pos - start) (drop start haystack)) needle 0))))"

section \<open>Taking apart\<close>

datatype strip_type = LSTRIP | RSTRIP | STRIP

text \<open>
  The loop of \<open>str_uni_strip\<close>, with the turns left and the position \<open>i\<close>.  The state says whether a
  character to keep has been seen, and the first and last of them.
\<close>

fun strip_loop :: "strip_type \<Rightarrow> u8 list \<Rightarrow> u8 list \<Rightarrow> nat \<Rightarrow> nat \<Rightarrow> bool \<times> nat \<times> nat \<Rightarrow> bool \<times> nat \<times> nat" where
  "strip_loop type str chars 0 i st = st"
| "strip_loop type str chars (Suc k) i (is_set, first_pos, last_pos) =
     (let i' = (if type = RSTRIP then i - 1 else i + 1) in
      if find_subbytes chars [str ! i] True = None then
        if \<not> is_set then
          if type = LSTRIP then (True, i, length str - 1)
          else if type = RSTRIP then (True, 0, i)
          else strip_loop type str chars k i' (True, i, i)
        else strip_loop type str chars k i' (is_set, first_pos, i)
      else strip_loop type str chars k i' (is_set, first_pos, last_pos))"

definition whitespace :: "u8 list" where
  "whitespace = [32, 9, 10, 13, 11, 12]"

definition str_uni_strip :: "strip_type \<Rightarrow> str_type \<Rightarrow> u8 list \<Rightarrow> py_arg option \<Rightarrow> seq_error + u8 list" where
  "str_uni_strip type self_type str arg =
     and_then (case arg of None \<Rightarrow> Inr whitespace | Some a \<Rightarrow> str_check_arg_type self_type a) (\<lambda>chars.
       let (is_set, first_pos, last_pos) =
             strip_loop type str chars (length str) (if type = RSTRIP then length str - 1 else 0) (False, 0, 0)
       in if \<not> is_set then Inr []
          else if last_pos < first_pos then Inl Assertion_failure
          else Inr (take (last_pos - first_pos + 1) (drop first_pos str)))"

text \<open>The loops of \<open>mp_obj_str_split\<close> over white space and over the characters of a word.\<close>

fun skip_spaces :: "u8 list \<Rightarrow> u8 list" where
  "skip_spaces [] = []"
| "skip_spaces (c # s) = (if unichar_isspace (ucast c) then skip_spaces s else c # s)"

fun scan_word :: "u8 list \<Rightarrow> u8 list \<times> u8 list" where
  "scan_word [] = ([], [])"
| "scan_word (c # s) =
     (if unichar_isspace (ucast c) then ([], c # s) else (let (w, r) = scan_word s in (c # w, r)))"

lemma skip_spaces_le: "length (skip_spaces s) \<le> length s"
  by (induction s) auto

lemma scan_word_parts: "scan_word s = (w, r) \<Longrightarrow> s = w @ r"
  by (induction s arbitrary: w r) (auto split: if_splits prod.splits)

lemma split_spaces_less:
  assumes "s \<noteq> []" "scan_word s = (w, r)"
  shows "length (skip_spaces r) < length s"
proof (cases w)
  case Nil
  then obtain c s' where "r = c # s'" "unichar_isspace (ucast c)"
    using assms by (cases s) (auto split: if_splits prod.splits)
  then show ?thesis using Nil scan_word_parts [OF assms(2)] skip_spaces_le [of s'] by simp
next
  case Cons
  then show ?thesis using scan_word_parts [OF assms(2)] skip_spaces_le [of r] by simp
qed

function split_spaces :: "int \<Rightarrow> u8 list \<Rightarrow> u8 list list" where
  "split_spaces splits s =
     (if s \<noteq> [] \<and> splits \<noteq> 0 then
        (case scan_word s of (word, s1) \<Rightarrow>
           word # (if s1 = [] then []
                   else split_spaces (if splits > 0 then splits - 1 else splits) (skip_spaces s1)))
      else if s \<noteq> [] then [s] else [])"
  by pat_completeness auto
termination
  by (relation "measure (\<lambda>(_, s). length s)") (auto dest: sym intro: split_spaces_less)

declare split_spaces.simps [simp del]

text \<open>The inner loop with a separator: the bytes up to its next occurrence, and the rest from there.\<close>

fun scan_sep :: "u8 list \<Rightarrow> int \<Rightarrow> u8 list \<Rightarrow> u8 list \<times> u8 list" where
  "scan_sep sep splits s =
     (if splits = 0 \<or> length sep > length s then (s, [])
      else if match_at s 0 sep then ([], s)
      else case s of [] \<Rightarrow> ([], []) | c # s \<Rightarrow> (let (w, r) = scan_sep sep splits s in (c # w, r)))"

declare scan_sep.simps [simp del]

lemma scan_sep_le: "length (snd (scan_sep sep splits s)) \<le> length s"
proof (induction s)
  case Nil
  then show ?case by (simp add: scan_sep.simps)
next
  case (Cons c s)
  then show ?case by (subst scan_sep.simps) (auto split: prod.splits)
qed

function split_sep :: "u8 list \<Rightarrow> int \<Rightarrow> u8 list \<Rightarrow> u8 list list" where
  "split_sep sep splits s =
     (case scan_sep sep splits s of (piece, s1) \<Rightarrow>
        piece # (if s1 = [] \<or> sep = [] then []
                 else split_sep sep (if splits > 0 then splits - 1 else splits) (drop (length sep) s1)))"
  by pat_completeness auto
termination
  using scan_sep_le by (relation "measure (\<lambda>(_, _, s). length s)") (auto, metis snd_conv Suc_le_eq diff_less length_greater_0_conv less_le_trans)

declare split_sep.simps [simp del]

text \<open>\<open>args\<close> are the arguments after the string: separator and limit, both optional.\<close>

definition mp_obj_str_split :: "str_type \<Rightarrow> u8 list \<Rightarrow> py_arg list \<Rightarrow> seq_error + u8 list list" where
  "mp_obj_str_split self_type s args =
     and_then (case args of _ # a # _ \<Rightarrow> get_int a | _ \<Rightarrow> Inr (- 1)) (\<lambda>splits.
       let sep = (case args of a # _ \<Rightarrow> a | [] \<Rightarrow> Py_none) in
       if sep = Py_none then Inr (split_spaces splits (skip_spaces s))
       else and_then (str_check_arg_type self_type sep) (\<lambda>sep_str.
              if sep_str = [] then Inl ValueError else Inr (split_sep sep_str splits s)))"

text \<open>
  \<open>str_rsplit\<close>: the backward search for the separator, \<open>k\<close> being the number of positions at or before
  which it is looked for, and the loop that fills the list of the results from its end.
\<close>

fun rscan :: "u8 list \<Rightarrow> u8 list \<Rightarrow> nat \<Rightarrow> nat option" where
  "rscan str sep 0 = None"
| "rscan str sep (Suc s) = (if match_at str s sep then Some s else rscan str sep s)"

fun rsplit_loop :: "u8 list \<Rightarrow> u8 list \<Rightarrow> nat \<Rightarrow> nat \<Rightarrow> nat \<Rightarrow> u8 list option list \<Rightarrow> nat \<times> u8 list option list" where
  "rsplit_loop str sep last_pos 0 idx res = (idx, res[idx := Some (take last_pos str)])"
| "rsplit_loop str sep last_pos (Suc splits) idx res =
     (case rscan str sep (last_pos + 1 - length sep) of
        None \<Rightarrow> (idx, res[idx := Some (take last_pos str)])
      | Some s \<Rightarrow> rsplit_loop str sep s splits (idx - 1)
          (res[idx := Some (take (last_pos - s - length sep) (drop (s + length sep) str))]))"

definition str_rsplit :: "str_type \<Rightarrow> u8 list \<Rightarrow> py_arg list \<Rightarrow> seq_error + u8 list option list" where
  "str_rsplit self_type s args =
     (if length args < 2 then and_then (mp_obj_str_split self_type s args) (\<lambda>ps. Inr (map Some ps))
      else and_then (get_int (args ! 1)) (\<lambda>splits.
        if splits < 0 then and_then (mp_obj_str_split self_type s args) (\<lambda>ps. Inr (map Some ps))
        else if args ! 0 = Py_none then Inl NotImplementedError
        else and_then (mp_obj_str_get_data (args ! 0)) (\<lambda>sep_str.
          if sep_str = [] then Inl ValueError
          else
            let n = nat splits;
                (idx, res) = rsplit_loop s sep_str (length s) n n (replicate (n + 1) None)
            in Inr (if idx \<noteq> 0 then take (n + 1 - idx) (drop idx res) else res))))"

section \<open>Putting together\<close>

text \<open>A write into a buffer of fixed length.\<close>

definition put_at :: "nat \<Rightarrow> u8 list \<Rightarrow> u8 list \<Rightarrow> seq_error + u8 list" where
  "put_at at src buf =
     (if src = [] then Inr buf
      else if at + length src \<le> length buf then Inr (take at buf @ src @ drop (at + length src) buf)
      else Inl Out_of_bounds)"

text \<open>
  One pass of \<open>str_replace\<close>.  \<open>data\<close> is the buffer, None in the first pass, which only measures; \<open>at\<close> is
  \<open>replaced_str_index\<close>, \<open>num\<close> counts the replacements, and \<open>s\<close> is what remains from \<open>offset_ptr\<close> on.
\<close>

definition put_data :: "nat \<Rightarrow> u8 list \<Rightarrow> u8 list option \<Rightarrow> seq_error + u8 list option" where
  "put_data at src data =
     (case data of None \<Rightarrow> Inr None | Some buf \<Rightarrow> and_then (put_at at src buf) (\<lambda>buf. Inr (Some buf)))"

lemma find_subbytes_le: "find_subbytes s needle forward = Some i \<Longrightarrow> length needle \<le> length s"
  by (simp add: find_subbytes_def split: if_splits)

function replace_loop :: "u8 list \<Rightarrow> u8 list \<Rightarrow> nat \<Rightarrow> nat \<Rightarrow> nat \<Rightarrow> u8 list \<Rightarrow> u8 list option
    \<Rightarrow> seq_error + nat \<times> nat \<times> u8 list option" where
  "replace_loop old new max_rep num at s data =
     (case (if num \<noteq> max_rep \<and> s \<noteq> [] then find_subbytes s old True else None) of
        None \<Rightarrow> and_then (put_data at s data) (\<lambda>data. Inr (num, at + length s, data))
      | Some i \<Rightarrow>
          let n = (if old = [] then i + 1 else i) in
          and_then (put_data at (take n s) data) (\<lambda>data.
          and_then (put_data (at + n) new data) (\<lambda>data.
            replace_loop old new max_rep (num + 1) (at + n + length new) (drop (n + length old) s) data)))"
  by pat_completeness auto
termination
  by (relation "measure (\<lambda>(_, _, _, _, _, s, _). length s)") (auto split: if_splits)

declare replace_loop.simps [simp del]

definition replace_pass :: "u8 list \<Rightarrow> u8 list \<Rightarrow> nat \<Rightarrow> u8 list \<Rightarrow> u8 list option \<Rightarrow> seq_error + nat \<times> nat \<times> u8 list option" where
  "replace_pass old new max_rep str data =
     (if old = [] then and_then (put_data 0 new data) (\<lambda>data. replace_loop old new max_rep 1 (length new) str data)
      else replace_loop old new max_rep 0 0 str data)"

text \<open>\<open>max_rep\<close> is compared as a \<open>size_t\<close>, so that -1 stands for the largest; the first bytes of a fresh buffer are \<open>fresh\<close>.\<close>

definition str_replace :: "(nat \<Rightarrow> u8) \<Rightarrow> str_type \<Rightarrow> u8 list \<Rightarrow> py_arg \<Rightarrow> py_arg \<Rightarrow> py_arg option \<Rightarrow> seq_error + u8 list" where
  "str_replace fresh self_type str old_arg new_arg max_arg =
     and_then (case max_arg of None \<Rightarrow> Inr (- 1) | Some a \<Rightarrow> get_int a) (\<lambda>m.
       if max_arg \<noteq> None \<and> m = 0 then Inr str
       else
         and_then (str_check_arg_type self_type old_arg) (\<lambda>old.
         and_then (str_check_arg_type self_type new_arg) (\<lambda>new.
           if length old > length str then Inr str
           else
             let max_rep = (if m < 0 then 4294967295 else nat m) in
             and_then (replace_pass old new max_rep str None) (\<lambda>(num, n, _).
               if num = 0 then Inr str
               else and_then (replace_pass old new max_rep str (Some (map fresh [0..<n]))) (\<lambda>(_, _, data).
                      Inr (the data))))))"

text \<open>\<open>str_join\<close>: the length required, then the pieces one behind the other.\<close>

fun join_required :: "str_type \<Rightarrow> nat \<Rightarrow> bool \<Rightarrow> py_arg list \<Rightarrow> seq_error + nat" where
  "join_required self_type sep_len first [] = Inr 0"
| "join_required self_type sep_len first (a # items) =
     and_then (str_check_arg_type self_type a) (\<lambda>s.
     and_then (join_required self_type sep_len False items) (\<lambda>n.
       Inr ((if first then 0 else sep_len) + length s + n)))"

fun join_fill :: "u8 list \<Rightarrow> bool \<Rightarrow> py_arg list \<Rightarrow> nat \<Rightarrow> u8 list \<Rightarrow> seq_error + u8 list" where
  "join_fill sep first [] at data = Inr data"
| "join_fill sep first (a # items) at data =
     and_then (if first then Inr data else put_at at sep data) (\<lambda>data.
       let at = (if first then at else at + length sep) in
       and_then (mp_obj_str_get_data a) (\<lambda>s.
       and_then (put_at at s data) (\<lambda>data. join_fill sep False items (at + length s) data)))"

definition str_join :: "(nat \<Rightarrow> u8) \<Rightarrow> str_type \<Rightarrow> u8 list \<Rightarrow> py_arg list \<Rightarrow> seq_error + u8 list" where
  "str_join fresh self_type sep items =
     and_then (join_required self_type (length sep) True items) (\<lambda>n.
       join_fill sep True items 0 (map fresh [0..<n]))"

section \<open>Operators, subscripts, character classes\<close>

definition str_multiply :: "(nat \<Rightarrow> u8) \<Rightarrow> u8 list \<Rightarrow> int \<Rightarrow> seq_error + u8 list" where
  "str_multiply fresh s n =
     (if n \<le> 0 then Inr []
      else and_then (mp_seq_multiply (map Some s) (length s) (nat n)
                       (map (Some \<circ> fresh) [0..<unat (of_nat (length s * nat n) :: u32)]))
             (\<lambda>cs. Inr (map the cs)))"

definition str_add :: "u8 list \<Rightarrow> u8 list \<Rightarrow> u8 list" where
  "str_add s r = (if s = [] then r else if r = [] then s else s @ r)"

definition str_contains :: "u8 list \<Rightarrow> u8 list \<Rightarrow> bool" where
  "str_contains s r \<longleftrightarrow> find_subbytes s r True \<noteq> None"

datatype str_subscript = Index_of py_arg | Slice_part mp_obj_slice

datatype str_loaded = Byte_value u8 | Substring "u8 list"

definition bytes_subscr :: "str_type \<Rightarrow> u8 list \<Rightarrow> str_subscript \<Rightarrow> seq_error + str_loaded" where
  "bytes_subscr self_type s index =
     (case index of
        Slice_part sl \<Rightarrow>
          and_then (mp_seq_get_fast_slice_indexes (length s) sl) (\<lambda>(fast, b).
            if \<not> fast then Inl NotImplementedError
            else Inr (Substring (take (nat (bs_stop b - bs_start b)) (drop (nat (bs_start b)) s))))
      | Index_of i \<Rightarrow>
          and_then (str_index_to_ptr (length s) i False) (\<lambda>index_val.
            if self_type = Is_bytes then Inr (Byte_value (s ! index_val)) else Inr (Substring [s ! index_val])))"

definition str_caseconv :: "(unichar \<Rightarrow> unichar) \<Rightarrow> u8 list \<Rightarrow> u8 list" where
  "str_caseconv op s = map (\<lambda>c. ucast (op (ucast c))) s"

definition str_lower :: "u8 list \<Rightarrow> u8 list" where
  "str_lower s = str_caseconv unichar_tolower s"

definition str_upper :: "u8 list \<Rightarrow> u8 list" where
  "str_upper s = str_caseconv unichar_toupper s"

text \<open>The two loops of \<open>str_uni_istype\<close>; the second is for \<open>unichar_isupper\<close> and \<open>unichar_islower\<close>.\<close>

fun all_of_type :: "(unichar \<Rightarrow> bool) \<Rightarrow> u8 list \<Rightarrow> bool" where
  "all_of_type f [] = True"
| "all_of_type f (c # s) = (if \<not> f (ucast c) then False else all_of_type f s)"

fun alphas_of_type :: "(unichar \<Rightarrow> bool) \<Rightarrow> bool \<Rightarrow> u8 list \<Rightarrow> bool" where
  "alphas_of_type f contains_alpha [] = contains_alpha"
| "alphas_of_type f contains_alpha (c # s) =
     (if unichar_isalpha (ucast c) then
        if \<not> f (ucast c) then False else alphas_of_type f True s
      else alphas_of_type f contains_alpha s)"

definition str_uni_istype :: "bool \<Rightarrow> (unichar \<Rightarrow> bool) \<Rightarrow> u8 list \<Rightarrow> bool" where
  "str_uni_istype is_case f s =
     (if s = [] then False else if \<not> is_case then all_of_type f s else alphas_of_type f False s)"

definition str_isspace :: "u8 list \<Rightarrow> bool" where
  "str_isspace s = str_uni_istype False unichar_isspace s"

definition str_isalpha :: "u8 list \<Rightarrow> bool" where
  "str_isalpha s = str_uni_istype False unichar_isalpha s"

definition str_isdigit :: "u8 list \<Rightarrow> bool" where
  "str_isdigit s = str_uni_istype False unichar_isdigit s"

definition str_isupper :: "u8 list \<Rightarrow> bool" where
  "str_isupper s = str_uni_istype True unichar_isupper s"

definition str_islower :: "u8 list \<Rightarrow> bool" where
  "str_islower s = str_uni_istype True unichar_islower s"

end
