(* ===== verification/MpStringOk.thy ===== *)
theory MpStringOk
  imports MpString
begin

text \<open>
  What the methods of \<open>MpString\<close> compute, in terms of the positions at which one byte string occurs in
  another.
\<close>

section \<open>Occurrences\<close>

lemma match_at_nth:
  "match_at s i n \<longleftrightarrow> n = [] \<or> i + length n \<le> length s \<and> (\<forall>j < length n. s ! (i + j) = n ! j)"
proof (cases "n = []")
  case False
  show ?thesis
  proof (cases "i + length n \<le> length s")
    case True
    then show ?thesis using False unfolding match_at_def list_eq_iff_nth_eq [of "take (length n) (drop i s)"]
      by auto
  next
    case no: False
    then have "length (take (length n) (drop i s)) \<noteq> length n" using False by (cases n) auto
    then have "\<not> match_at s i n" unfolding match_at_def by metis
    then show ?thesis using no False by simp
  qed
qed (simp add: match_at_def)

lemma match_at_Nil [simp]: "match_at s i []"
  by (simp add: match_at_def)

lemma match_at_fits: "match_at s i n \<Longrightarrow> n \<noteq> [] \<Longrightarrow> i + length n \<le> length s"
  by (simp add: match_at_nth)

lemma match_at_drop [simp]: "match_at (drop a s) i n = match_at s (a + i) n"
  by (simp add: match_at_def add.commute)

lemma match_at_take: "i + length n \<le> k \<Longrightarrow> match_at (take k s) i n = match_at s i n"
  by (auto simp: match_at_def take_drop min_def)

lemma match_at_append: "i + length n \<le> length s \<Longrightarrow> match_at (s @ r) i n = match_at s i n"
  by (simp add: match_at_def)

lemma match_at_Cons [simp]: "match_at (c # s) (Suc i) n = match_at s i n"
  by (simp add: match_at_def)

lemma match_at_split: "match_at s i n \<Longrightarrow> i \<le> length s \<Longrightarrow> s = take i s @ n @ drop (i + length n) s"
  by (metis add.commute append_take_drop_id drop_drop match_at_def)

text \<open>The first, or the last, occurrence between two positions.\<close>

definition occurs :: "u8 list \<Rightarrow> u8 list \<Rightarrow> nat \<Rightarrow> nat \<Rightarrow> nat \<Rightarrow> bool" where
  "occurs s n a b i \<longleftrightarrow> a \<le> i \<and> i + length n \<le> b \<and> match_at s i n"

definition best_in :: "bool \<Rightarrow> (nat \<Rightarrow> bool) \<Rightarrow> nat option \<Rightarrow> bool" where
  "best_in forward P r \<longleftrightarrow>
     (case r of
        None \<Rightarrow> \<forall>i. \<not> P i
      | Some i \<Rightarrow> P i \<and> (\<forall>j. P j \<longrightarrow> (if forward then i \<le> j else j \<le> i)))"

lemma find_loop_forward:
  "best_in True (\<lambda>j. i \<le> j \<and> j \<le> i + k \<and> match_at s j n) (find_loop s n True i k)"
proof (induction k arbitrary: i)
  case 0
  then show ?case by (auto simp: find_loop.simps [of s n True i 0] best_in_def)
next
  case (Suc k)
  show ?case
  proof (cases "match_at s i n")
    case True
    then show ?thesis by (simp add: find_loop.simps [of s n True i "Suc k"] best_in_def)
  next
    case False
    then have "(i \<le> j \<and> j \<le> i + Suc k \<and> match_at s j n) = (i + 1 \<le> j \<and> j \<le> i + 1 + k \<and> match_at s j n)" for j
      by (cases "j = i") auto
    then show ?thesis using Suc.IH [of "i + 1"] False by (simp add: find_loop.simps [of s n True i "Suc k"])
  qed
qed

lemma find_loop_backward:
  "best_in False (\<lambda>j. j \<le> k \<and> match_at s j n) (find_loop s n False k k)"
proof (induction k)
  case 0
  then show ?case by (auto simp: find_loop.simps [of s n False 0 0] best_in_def)
next
  case (Suc k)
  show ?case
  proof (cases "match_at s (Suc k) n")
    case True
    then show ?thesis by (simp add: find_loop.simps [of s n False "Suc k" "Suc k"] best_in_def)
  next
    case False
    then have "(j \<le> Suc k \<and> match_at s j n) = (j \<le> k \<and> match_at s j n)" for j
      by (cases "j = Suc k") auto
    then show ?thesis using Suc.IH False by (simp add: find_loop.simps [of s n False "Suc k" "Suc k"])
  qed
qed

lemma find_subbytes_best: "best_in forward (occurs s n 0 (length s)) (find_subbytes s n forward)"
proof (cases "length n \<le> length s")
  case True
  have "occurs s n 0 (length s) = (\<lambda>j. 0 \<le> j \<and> j \<le> 0 + (length s - length n) \<and> match_at s j n)"
    "occurs s n 0 (length s) = (\<lambda>j. j \<le> length s - length n \<and> match_at s j n)"
    using True by (auto simp: occurs_def fun_eq_iff)
  then show ?thesis
    using find_loop_forward [of 0 "length s - length n" s n] find_loop_backward [of "length s - length n" s n] True
    by (cases forward) (simp_all only: find_subbytes_def if_True if_False)
next
  case False
  then show ?thesis by (auto simp: find_subbytes_def best_in_def occurs_def)
qed

lemma find_subbytes_None: "find_subbytes s n forward = None \<longleftrightarrow> (\<forall>i. \<not> occurs s n 0 (length s) i)"
  using find_subbytes_best [of forward s n] by (auto simp: best_in_def split: option.splits)

lemma find_subbytes_Some: "find_subbytes s n True = Some i \<longleftrightarrow>
    occurs s n 0 (length s) i \<and> (\<forall>j < i. \<not> occurs s n 0 (length s) j)"
  using find_subbytes_best [of True s n]
  by (auto simp: best_in_def split: option.splits) (metis not_le le_antisym)+

lemma occurs_byte: "(\<exists>i. occurs s [c] 0 (length s) i) \<longleftrightarrow> c \<in> set s"
  by (auto simp: occurs_def match_at_nth in_set_conv_nth Suc_le_eq)

lemma find_byte: "find_subbytes chars [c] True = None \<longleftrightarrow> c \<notin> set chars"
  using occurs_byte [of chars c] find_subbytes_None [of chars "[c]" True] by auto

text \<open>An occurrence in a part of the string.\<close>

lemma occurs_part:
  assumes "b \<le> length s"
  shows "occurs (take (b - a) (drop a s)) n 0 (length (take (b - a) (drop a s))) i \<longleftrightarrow> a \<le> b \<and> occurs s n a b (a + i) \<or> b < a \<and> n = [] \<and> i = 0"
proof (cases "a \<le> b")
  case True
  have "match_at (take (b - a) (drop a s)) i n = match_at s (a + i) n" if "i + length n \<le> b - a"
    using that match_at_take [of i n "b - a" "drop a s"] by simp
  then show ?thesis using True assms by (auto simp: occurs_def)
next
  case False
  then show ?thesis by (auto simp: occurs_def match_at_def)
qed

section \<open>Stripping\<close>

definition strip_left :: "u8 list \<Rightarrow> u8 list \<Rightarrow> u8 list" where
  "strip_left chars s = dropWhile (\<lambda>c. c \<in> set chars) s"

definition strip_right :: "u8 list \<Rightarrow> u8 list \<Rightarrow> u8 list" where
  "strip_right chars s = rev (dropWhile (\<lambda>c. c \<in> set chars) (rev s))"

fun stripped :: "strip_type \<Rightarrow> u8 list \<Rightarrow> u8 list \<Rightarrow> u8 list" where
  "stripped LSTRIP chars s = strip_left chars s"
| "stripped RSTRIP chars s = strip_right chars s"
| "stripped STRIP chars s = strip_right chars (strip_left chars s)"

lemma dropWhile_drop:
  assumes "f < length s" "\<forall>j < f. P (s ! j)" "\<not> P (s ! f)"
  shows "dropWhile P s = drop f s"
proof -
  have "\<forall>x \<in> set (take f s). P x" using assms(1,2) by (auto simp: in_set_conv_nth)
  then have "dropWhile P (take f s @ drop f s) = dropWhile P (drop f s)" by (intro dropWhile_append2) auto
  also have "\<dots> = drop f s" using assms(1,3) by (simp add: Cons_nth_drop_Suc [symmetric])
  finally show ?thesis by simp
qed

lemma strip_right_take:
  assumes "l < length s" "\<forall>j. l < j \<and> j < length s \<longrightarrow> s ! j \<in> set chars" "s ! l \<notin> set chars"
  shows "strip_right chars s = take (Suc l) s"
proof -
  let ?f = "length s - Suc l"
  have "dropWhile (\<lambda>c. c \<in> set chars) (rev s) = drop ?f (rev s)"
    by (rule dropWhile_drop) (use assms(1,3) in \<open>auto simp: rev_nth intro!: assms(2) [rule_format]\<close>)
  moreover have "rev (drop ?f (rev s)) = take (Suc l) s" using assms(1) by (simp add: drop_rev)
  ultimately show ?thesis by (simp add: strip_right_def)
qed

text \<open>Where the loop finds the first and the last character to keep.\<close>

lemma find_append: "find P (xs @ ys) = (case find P xs of None \<Rightarrow> find P ys | Some x \<Rightarrow> Some x)"
  by (induction xs) auto

abbreviation kept :: "u8 list \<Rightarrow> u8 list \<Rightarrow> nat \<Rightarrow> bool" where
  "kept chars s j \<equiv> s ! j \<notin> set chars"

lemma strip_loop_left:
  "i + k = length s \<Longrightarrow> strip_loop LSTRIP s chars k i (False, 0, 0) =
     (case find (kept chars s) [i..<length s] of None \<Rightarrow> (False, 0, 0) | Some j \<Rightarrow> (True, j, length s - 1))"
  by (induction k arbitrary: i) (auto simp: upt_conv_Cons find_byte)

lemma strip_loop_right:
  "strip_loop RSTRIP s chars k (k - 1) (False, 0, 0) =
     (case find (kept chars s) (rev [0..<k]) of None \<Rightarrow> (False, 0, 0) | Some j \<Rightarrow> (True, 0, j))"
  by (induction k) (auto simp: find_byte)

lemma strip_loop_both_set:
  "i + k = length s \<Longrightarrow> strip_loop STRIP s chars k i (True, f, l) =
     (case find (kept chars s) (rev [i..<length s]) of None \<Rightarrow> (True, f, l) | Some j \<Rightarrow> (True, f, j))"
  by (induction k arbitrary: i l) (auto simp: upt_conv_Cons find_byte find_append split: option.splits)

lemma strip_loop_both:
  "i + k = length s \<Longrightarrow> strip_loop STRIP s chars k i (False, 0, 0) =
     (case find (kept chars s) [i..<length s] of
        None \<Rightarrow> (False, 0, 0) | Some j \<Rightarrow> (True, j, the (find (kept chars s) (rev [i..<length s]))))"
proof (induction k arbitrary: i)
  case (Suc k)
  then have i: "[i..<length s] = i # [Suc i..<length s]" "Suc i + k = length s" by (simp_all add: upt_conv_Cons)
  show ?case
  proof (cases "kept chars s i")
    case True
    then show ?thesis using strip_loop_both_set [OF i(2), of chars i i] i
      by (auto simp: find_byte find_append split: option.splits)
  next
    case False
    then have "find (kept chars s) [i..<length s] = find (kept chars s) [Suc i..<length s]"
      "find (kept chars s) (rev [i..<length s]) = find (kept chars s) (rev [Suc i..<length s])"
      by (simp_all add: i(1) find_append split: option.split)
    then show ?thesis using Suc.IH [OF i(2)] False by (simp add: find_byte split: option.split)
  qed
qed auto

lemma find_upt: "find P [0..<n] = Some f \<longleftrightarrow> f < n \<and> P f \<and> (\<forall>j < f. \<not> P j)"
  by (auto simp: find_Some_iff)

lemma find_rev_upt: "find P (rev [0..<n]) = Some l \<longleftrightarrow> l < n \<and> P l \<and> (\<forall>j. l < j \<and> j < n \<longrightarrow> \<not> P j)"
proof (induction n)
  case (Suc n)
  then show ?case by (auto simp: less_Suc_eq)
qed simp

lemma strip_none: "\<forall>j < length s. s ! j \<in> set chars \<Longrightarrow> stripped type chars s = []"
proof -
  assume "\<forall>j < length s. s ! j \<in> set chars"
  then have "\<forall>c \<in> set s. c \<in> set chars" by (metis in_set_conv_nth)
  then have "strip_left chars s = []" "strip_right chars s = []"
    by (simp_all add: strip_left_def strip_right_def dropWhile_eq_Nil_conv)
  then show ?thesis by (cases type) (simp_all add: strip_right_def)
qed

lemma strip_left_drop:
  "find (kept chars s) [0..<length s] = Some f \<Longrightarrow> strip_left chars s = drop f s"
  unfolding strip_left_def by (rule dropWhile_drop) (auto simp: find_upt)

lemma strip_right_found:
  "find (kept chars s) (rev [0..<length s]) = Some l \<Longrightarrow> strip_right chars s = take (Suc l) s"
  by (rule strip_right_take) (auto simp: find_rev_upt)

lemma strip_both_found:
  assumes "find (kept chars s) [0..<length s] = Some f" "find (kept chars s) (rev [0..<length s]) = Some l"
  shows "stripped STRIP chars s = take (Suc l - f) (drop f s)" "f \<le> l"
proof -
  show "f \<le> l" using assms unfolding find_upt find_rev_upt by (meson not_le)
  have l: "l < length s" "kept chars s l" "\<And>j. l < j \<Longrightarrow> j < length s \<Longrightarrow> s ! j \<in> set chars"
    using assms(2) by (auto simp: find_rev_upt)
  then have "drop f s ! j \<in> set chars" if "l - f < j" "j < length (drop f s)" for j
    using l(3) [of "f + j"] that \<open>f \<le> l\<close> by simp
  then have "strip_right chars (drop f s) = take (Suc (l - f)) (drop f s)"
    using l(1,2) \<open>f \<le> l\<close> by (intro strip_right_take) auto
  then show "stripped STRIP chars s = take (Suc l - f) (drop f s)"
    using strip_left_drop [OF assms(1)] \<open>f \<le> l\<close> by (simp add: Suc_diff_le)
qed

lemma strip_correct:
  "str_uni_strip type t s arg =
     and_then (case arg of None \<Rightarrow> Inr whitespace | Some a \<Rightarrow> str_check_arg_type t a) (\<lambda>chars. Inr (stripped type chars s))"
proof (cases "case arg of None \<Rightarrow> Inr whitespace | Some a \<Rightarrow> str_check_arg_type t a")
  case (Inl e)
  then show ?thesis by (simp add: str_uni_strip_def)
next
  case (Inr chars)
  show ?thesis
  proof (cases "find (kept chars s) [0..<length s]")
    case None
    then have none: "\<forall>j < length s. s ! j \<in> set chars" by (auto simp: find_None_iff)
    then have "find (kept chars s) (rev [0..<length s]) = None" by (auto simp: find_None_iff)
    then show ?thesis using Inr None strip_none [OF none, of type] strip_loop_left [of 0 "length s" s chars]
        strip_loop_right [of s chars "length s"] strip_loop_both [of 0 "length s" s chars]
      by (cases type) (simp_all add: str_uni_strip_def)
  next
    case (Some f)
    then have "find (kept chars s) (rev [0..<length s]) \<noteq> None" by (auto simp: find_None_iff find_upt)
    then obtain l where l: "find (kept chars s) (rev [0..<length s]) = Some l" by blast
    have lt: "f < length s" "l < length s" using Some l by (auto simp: find_upt find_rev_upt)
    show ?thesis
      using Inr Some l lt strip_loop_left [of 0 "length s" s chars] strip_left_drop [OF Some]
        strip_loop_right [of s chars "length s"] strip_right_found [OF l]
        strip_loop_both [of 0 "length s" s chars] strip_both_found [OF Some l]
      by (cases type) (simp_all add: str_uni_strip_def Suc_diff_le)
  qed
qed

section \<open>Joining and splitting\<close>

definition joined :: "u8 list \<Rightarrow> u8 list list \<Rightarrow> u8 list" where
  "joined sep ps = (case ps of [] \<Rightarrow> [] | p # ps \<Rightarrow> p @ concat (map (\<lambda>q. sep @ q) ps))"

lemma joined_simps [simp]:
  "joined sep [] = []" "joined sep [p] = p" "joined sep (p # q # ps) = p @ sep @ joined sep (q # ps)"
  by (simp_all add: joined_def)

lemma joined_append: "ps \<noteq> [] \<Longrightarrow> joined sep (ps @ [q]) = joined sep ps @ sep @ q"
  by (cases ps) (simp_all add: joined_def)

text \<open>\<open>clean sep p\<close>: in \<open>p\<close> followed by the separator, the separator first occurs at the end.\<close>

definition clean :: "u8 list \<Rightarrow> u8 list \<Rightarrow> bool" where
  "clean sep p \<longleftrightarrow> (\<forall>i < length p. \<not> match_at (p @ sep) i sep)"

definition free_of :: "u8 list \<Rightarrow> u8 list \<Rightarrow> bool" where
  "free_of sep p \<longleftrightarrow> (\<forall>i. \<not> match_at p i sep)"

lemma find_shift:
  assumes "\<not> match_at (c # s) 0 n"
  shows "find_subbytes (c # s) n True = map_option Suc (find_subbytes s n True)"
proof -
  have shift: "occurs (c # s) n 0 (length (c # s)) (Suc i) = occurs s n 0 (length s) i" for i
    by (simp add: occurs_def)
  have zero: "\<not> occurs (c # s) n 0 (length (c # s)) 0" using assms by (simp add: occurs_def)
  show ?thesis
  proof (cases "find_subbytes s n True")
    case None
    then have "\<not> occurs (c # s) n 0 (length (c # s)) i" for i
      using shift zero by (cases i) (auto simp: find_subbytes_None)
    then show ?thesis using None find_subbytes_None [of "c # s" n True] by simp
  next
    case (Some i)
    then have "occurs (c # s) n 0 (length (c # s)) (Suc i)" "\<And>j. j < Suc i \<Longrightarrow> \<not> occurs (c # s) n 0 (length (c # s)) j"
      using shift zero unfolding find_subbytes_Some by (auto simp: less_Suc_eq_0_disj simp del: list.size)
    then have "find_subbytes (c # s) n True = Some (Suc i)" unfolding find_subbytes_Some by blast
    then show ?thesis using Some by simp
  qed
qed

lemma scan_sep_find:
  assumes "sep \<noteq> []" "splits \<noteq> 0"
  shows "scan_sep sep splits s = (case find_subbytes s sep True of None \<Rightarrow> (s, []) | Some i \<Rightarrow> (take i s, drop i s))"
proof (induction s)
  case Nil
  then show ?case using assms by (simp add: scan_sep.simps [of _ _ "[]"] find_subbytes_def)
next
  case (Cons c s)
  show ?case
  proof (cases "length (c # s) < length sep")
    case True
    then show ?thesis by (simp add: scan_sep.simps [of _ _ "c # s"] find_subbytes_def)
  next
    case False
    show ?thesis
    proof (cases "match_at (c # s) 0 sep")
      case True
      then have "find_subbytes (c # s) sep True = Some 0" using False by (simp add: find_subbytes_Some occurs_def)
      then show ?thesis using True False assms by (simp add: scan_sep.simps [of _ _ "c # s"])
    next
      case no: False
      then have "find_subbytes (c # s) sep True = map_option Suc (find_subbytes s sep True)" by (rule find_shift)
      then show ?thesis using no False assms Cons.IH
        by (auto simp: scan_sep.simps [of _ _ "c # s"] split: option.splits)
    qed
  qed
qed

lemma find_free: "sep \<noteq> [] \<Longrightarrow> find_subbytes s sep True = None \<longleftrightarrow> free_of sep s"
  by (auto simp: find_subbytes_None occurs_def free_of_def dest: match_at_fits)

lemma find_clean:
  assumes "sep \<noteq> []" "find_subbytes s sep True = Some i"
  shows "s = take i s @ sep @ drop (i + length sep) s" "i + length sep \<le> length s" "clean sep (take i s)"
proof -
  have i: "i + length sep \<le> length s" "match_at s i sep" "\<And>j. j < i \<Longrightarrow> \<not> occurs s sep 0 (length s) j"
    using assms(2) by (auto simp: find_subbytes_Some occurs_def)
  show s: "s = take i s @ sep @ drop (i + length sep) s" "i + length sep \<le> length s"
    using match_at_split [OF i(2)] i(1) by auto
  have "\<not> match_at (take i s @ sep) j sep" if "j < i" for j
  proof -
    have "match_at ((take i s @ sep) @ drop (i + length sep) s) j sep = match_at (take i s @ sep) j sep"
      using that i(1) by (intro match_at_append) simp
    moreover have "\<not> match_at s j sep" using i(3) [OF that] that i(1) by (auto simp: occurs_def)
    ultimately show ?thesis using s(1) by simp
  qed
  then show "clean sep (take i s)" using i(1) by (simp add: clean_def)
qed

text \<open>The result of splitting at a separator.\<close>

definition split_result :: "u8 list \<Rightarrow> int \<Rightarrow> u8 list \<Rightarrow> u8 list list \<Rightarrow> bool" where
  "split_result sep k s ps \<longleftrightarrow> ps \<noteq> [] \<and> joined sep ps = s \<and> (\<forall>p \<in> set (butlast ps). clean sep p)
     \<and> (if k < 0 \<or> int (length ps) \<le> k then free_of sep (last ps) else int (length ps) = k + 1)"

lemma split_sep_step:
  assumes "sep \<noteq> []" "k \<noteq> 0"
  shows "split_sep sep k s = (case find_subbytes s sep True of None \<Rightarrow> [s]
    | Some i \<Rightarrow> take i s # split_sep sep (if k > 0 then k - 1 else k) (drop (i + length sep) s))"
proof (cases "find_subbytes s sep True")
  case None
  then show ?thesis using assms by (subst split_sep.simps) (simp add: scan_sep_find)
next
  case (Some i)
  then have "drop i s \<noteq> []" using find_clean(2) [OF assms(1) Some] assms(1) by (cases sep) auto
  then show ?thesis using Some assms by (subst split_sep.simps) (simp add: scan_sep_find add.commute)
qed

lemma split_sep_zero: "sep \<noteq> [] \<Longrightarrow> split_sep sep 0 s = [s]"
  by (simp add: split_sep.simps [of sep 0 s] scan_sep.simps [of sep 0 s])

lemma split_sep_correct:
  assumes "sep \<noteq> []"
  shows "split_result sep k s (split_sep sep k s)"
proof (induction "length s" arbitrary: s k rule: less_induct)
  case less
  show ?case
  proof (cases "k = 0")
    case True
    then show ?thesis using assms by (simp add: split_sep_zero split_result_def)
  next
    case False
    show ?thesis
    proof (cases "find_subbytes s sep True")
      case None
      then have "split_sep sep k s = [s]" using split_sep_step [OF assms False, of s] by simp
      then show ?thesis using None False find_free [OF assms, of s] by (simp add: split_result_def) linarith
    next
      case (Some i)
      let ?k = "if k > 0 then k - 1 else k" and ?s = "drop (i + length sep) s"
      note c = find_clean [OF assms Some]
      have ih: "split_result sep ?k ?s (split_sep sep ?k ?s)" using c(2) assms by (intro less) (cases sep; simp)
      then obtain q qs where q: "split_sep sep ?k ?s = q # qs"
        unfolding split_result_def by (meson neq_Nil_conv)
      have eq: "split_sep sep k s = take i s # q # qs"
        using split_sep_step [OF assms False, of s] Some q by simp
      have "joined sep (take i s # q # qs) = s"
        using ih c(1) unfolding split_result_def q by simp
      moreover have "\<forall>p \<in> set (butlast (take i s # q # qs)). clean sep p"
        using ih c(3) unfolding split_result_def q by simp
      moreover have "if k < 0 \<or> int (length (take i s # q # qs)) \<le> k then free_of sep (last (take i s # q # qs))
          else int (length (take i s # q # qs)) = k + 1"
        using ih False unfolding split_result_def q by (auto split: if_splits)
      ultimately show ?thesis unfolding split_result_def eq by blast
    qed
  qed
qed

lemma put_at_ok:
  "at + length src \<le> length buf \<Longrightarrow> put_at at src buf = Inr (take at buf @ src @ drop (at + length src) buf)"
  by (simp add: put_at_def)

lemma take_put: "at \<le> length buf \<Longrightarrow> take (at + length src) (take at buf @ src @ rest) = take at buf @ src"
  by (simp add: min_def)

lemma drop_put:
  "at + length src + k \<le> length buf \<Longrightarrow>
     drop (at + length src + k) (take at buf @ src @ drop (at + length src) buf) = drop (at + length src + k) buf"
  by (cases src) (auto simp: min_def ac_simps)

lemma join_required_rest:
  "join_required t (length sep) False (map (Text t) ps) = Inr (length (concat (map (\<lambda>q. sep @ q) ps)))"
  by (induction ps) (auto simp: str_check_arg_type_def)

lemma join_required_all: "join_required t (length sep) True (map (Text t) ps) = Inr (length (joined sep ps))"
  by (cases ps) (auto simp: str_check_arg_type_def join_required_rest joined_def)

lemma join_fill_rest:
  "at + length (concat (map (\<lambda>q. sep @ q) ps)) \<le> length data \<Longrightarrow>
     join_fill sep False (map (Text t) ps) at data =
       Inr (take at data @ concat (map (\<lambda>q. sep @ q) ps) @ drop (at + length (concat (map (\<lambda>q. sep @ q) ps))) data)"
proof (induction ps arbitrary: at data)
  case (Cons p ps)
  let ?rest = "concat (map (\<lambda>q. sep @ q) ps)"
  have fits: "at + length sep + length p + length ?rest \<le> length data" using Cons.prems by simp
  define d1 where "d1 = take at data @ sep @ drop (at + length sep) data"
  define d2 where "d2 = take (at + length sep) d1 @ p @ drop (at + length sep + length p) d1"
  have len: "length d1 = length data" "length d2 = length data" using fits by (auto simp: d1_def d2_def)
  have p1: "put_at at sep data = Inr d1" using fits by (simp add: put_at_ok d1_def)
  have p2: "put_at (at + length sep) p d1 = Inr d2" using fits len by (simp add: put_at_ok d2_def)
  have t1: "take (at + length sep) d1 = take at data @ sep" using fits unfolding d1_def by (intro take_put) simp
  have t2: "take (at + length sep + length p) d2 = take (at + length sep) d1 @ p"
    using fits len unfolding d2_def by (intro take_put) simp
  have d: "drop (at + length sep + length p + length ?rest) d2 = drop (at + length sep + length p + length ?rest) data"
    using drop_put [of "at + length sep" p "length ?rest" d1] drop_put [of at sep "length p + length ?rest" data] fits len
    unfolding d1_def [symmetric] d2_def [symmetric] by (simp add: add.assoc)
  have "join_fill sep False (map (Text t) ps) (at + length sep + length p) d2
      = Inr (take (at + length sep + length p) d2 @ ?rest @ drop (at + length sep + length p + length ?rest) d2)"
    using fits len by (intro Cons.IH) simp
  then have "join_fill sep False (map (Text t) ps) (at + length sep + length p) d2
      = Inr (take at data @ sep @ p @ ?rest @ drop (at + length sep + length p + length ?rest) data)"
    unfolding t1 t2 d by simp
  then show ?case using p1 p2 by (simp add: mp_obj_str_get_data_def add.assoc)
qed simp

lemma join_correct: "str_join fresh t sep (map (Text t) ps) = Inr (joined sep ps)"
proof (cases ps)
  case Nil
  then show ?thesis by (simp add: str_join_def)
next
  case (Cons p qs)
  let ?rest = "concat (map (\<lambda>q. sep @ q) qs)" and ?data = "map fresh [0..<length (joined sep ps)]"
  have j: "joined sep ps = p @ ?rest" by (simp add: Cons joined_def)
  define d where "d = p @ drop (length p) ?data"
  have "put_at 0 p ?data = Inr d" by (simp add: put_at_ok d_def j)
  moreover have "length d = length p + length ?rest" by (simp add: d_def j)
  then have "join_fill sep False (map (Text t) qs) (length p) d = Inr (p @ ?rest)"
    using join_fill_rest [of "length p" sep qs d t] by (simp add: d_def)
  moreover have "str_join fresh t sep (map (Text t) ps) = join_fill sep True (map (Text t) ps) 0 ?data"
    by (simp only: str_join_def join_required_all sum.case)
  ultimately show ?thesis by (simp add: Cons mp_obj_str_get_data_def j [unfolded Cons])
qed

lemma join_required_error:
  "i \<in> set items \<Longrightarrow> \<forall>bs. i \<noteq> Text t bs \<Longrightarrow> join_required t n first items = Inl TypeError"
proof (induction items arbitrary: first)
  case (Cons a items)
  show ?case
  proof (cases "\<exists>bs. a = Text t bs")
    case True
    then have "join_required t n False items = Inl TypeError" using Cons by auto
    then show ?thesis using True by (auto simp: str_check_arg_type_def)
  next
    case False
    then show ?thesis by (cases a) (auto simp: str_check_arg_type_def)
  qed
qed simp

lemma join_type_error:
  "i \<in> set items \<Longrightarrow> \<forall>bs. i \<noteq> Text t bs \<Longrightarrow> str_join fresh t sep items = Inl TypeError"
  by (simp add: str_join_def join_required_error)

section \<open>Splitting from the right\<close>

text \<open>\<open>clean_end sep p\<close>: in the separator followed by \<open>p\<close>, the separator last occurs at the beginning.\<close>

definition clean_end :: "u8 list \<Rightarrow> u8 list \<Rightarrow> bool" where
  "clean_end sep p \<longleftrightarrow> (\<forall>i > 0. \<not> match_at (sep @ p) i sep)"

lemma rscan_best: "best_in False (\<lambda>j. j < k \<and> match_at s j sep) (rscan s sep k)"
proof (induction k)
  case (Suc k)
  show ?case
  proof (cases "match_at s k sep")
    case False
    then have "(j < Suc k \<and> match_at s j sep) = (j < k \<and> match_at s j sep)" for j by (cases "j = k") auto
    then show ?thesis using Suc False by simp
  qed (simp add: best_in_def)
qed (simp add: best_in_def)

lemma rscan_None:
  assumes "sep \<noteq> []" "m \<le> length s"
  shows "rscan s sep (m + 1 - length sep) = None \<longleftrightarrow> free_of sep (take m s)"
proof -
  have "(\<exists>j. j < m + 1 - length sep \<and> match_at s j sep) \<longleftrightarrow> (\<exists>j. match_at (take m s) j sep)"
    using match_at_fits [of "take m s" _ sep] match_at_take [of _ sep m s] assms
    by (metis Suc_eq_plus1 length_take less_Suc_eq_le less_diff_conv min.absorb2)
  then show ?thesis using rscan_best [of "m + 1 - length sep" s sep]
    by (auto simp: best_in_def free_of_def split: option.splits)
qed

lemma rscan_Some:
  assumes "sep \<noteq> []" "m \<le> length s" "rscan s sep (m + 1 - length sep) = Some i"
  defines "p \<equiv> take (m - i - length sep) (drop (i + length sep) s)"
  shows "i + length sep \<le> m" "take m s = take i s @ sep @ p" "clean_end sep p"
proof -
  have i: "i < m + 1 - length sep" "match_at s i sep"
    "\<And>j. j < m + 1 - length sep \<Longrightarrow> match_at s j sep \<Longrightarrow> j \<le> i"
    using rscan_best [of "m + 1 - length sep" s sep] assms(3) by (auto simp: best_in_def)
  show im: "i + length sep \<le> m" using i(1) by linarith
  have "match_at (take m s) i sep" using i(2) im by (simp add: match_at_take)
  then have "take m s = take i (take m s) @ sep @ drop (i + length sep) (take m s)"
    by (rule match_at_split) (use im assms(2) in simp)
  then show s: "take m s = take i s @ sep @ p" using im by (simp add: p_def drop_take min_def)
  have "\<not> match_at (sep @ p) j sep" if "0 < j" for j
  proof
    assume m: "match_at (sep @ p) j sep"
    have "drop i (take m s) = sep @ p" using s im assms(2) by (metis append_eq_conv_conj length_take min.absorb2 add_leD1 le_trans)
    then have "match_at (take m s) (i + j) sep" using m by (metis match_at_drop)
    then have "i + j + length sep \<le> m" "match_at s (i + j) sep"
      using match_at_fits [of "take m s" "i + j" sep] match_at_take [of "i + j" sep m s] assms(1,2) by auto
    moreover from this have "i + j < m + 1 - length sep" by linarith
    ultimately show False using i(3) [of "i + j"] that by simp
  qed
  then show "clean_end sep p" by (simp add: clean_end_def)
qed

text \<open>The list that the loop fills: NULL up to \<open>idx\<close>, then the pieces in order.\<close>

definition rsplit_result :: "u8 list \<Rightarrow> nat \<Rightarrow> u8 list \<Rightarrow> u8 list list \<Rightarrow> bool" where
  "rsplit_result sep k s ps \<longleftrightarrow> ps \<noteq> [] \<and> joined sep ps = s \<and> (\<forall>p \<in> set (tl ps). clean_end sep p)
     \<and> (if length ps \<le> k then free_of sep (hd ps) else length ps = k + 1)"

lemma rsplit_loop_correct:
  assumes "sep \<noteq> []"
  shows "m \<le> length s \<Longrightarrow> \<exists>ps. rsplit_loop s sep m k k (replicate (k + 1) None @ R)
      = (k + 1 - length ps, replicate (k + 1 - length ps) None @ map Some ps @ R)
    \<and> rsplit_result sep k (take m s) ps \<and> length ps \<le> k + 1"
proof (induction k arbitrary: m R)
  case 0
  show ?case by (intro exI [of _ "[take m s]"]) (simp add: rsplit_result_def)
next
  case (Suc k)
  have upd: "(replicate (Suc k + 1) None @ R)[Suc k := Some x] = replicate (k + 1) None @ (Some x # R)" for x :: "u8 list"
  proof -
    have "replicate (Suc k + 1) None @ R = replicate (k + 1) None @ None # R"
      using replicate_append_same [of "k + 1" "None :: u8 list option"] by (simp del: replicate_Suc add: replicate_Suc [symmetric])
    then show ?thesis using list_update_length [of "replicate (k + 1) None" None R "Some x"] by (simp del: replicate_Suc)
  qed
  show ?case
  proof (cases "rscan s sep (m + 1 - length sep)")
    case None
    have "rsplit_loop s sep m (Suc k) (Suc k) (replicate (Suc k + 1) None @ R)
        = (Suc k, replicate (k + 1) None @ (Some (take m s) # R))"
      using None upd [of "take m s"] by simp
    moreover have "free_of sep (take m s)" using rscan_None [OF assms Suc.prems] None by simp
    ultimately show ?thesis by (intro exI [of _ "[take m s]"]) (simp add: rsplit_result_def)
  next
    case (Some i)
    let ?p = "take (m - i - length sep) (drop (i + length sep) s)"
    note c = rscan_Some [OF assms Suc.prems Some]
    have "i \<le> length s" using c(1) Suc.prems by linarith
    from Suc.IH [OF this, of "Some ?p # R"] obtain ps where ps:
      "rsplit_loop s sep i k k (replicate (k + 1) None @ Some ?p # R)
         = (k + 1 - length ps, replicate (k + 1 - length ps) None @ map Some ps @ Some ?p # R)"
      "rsplit_result sep k (take i s) ps" "length ps \<le> k + 1" by blast
    have "rsplit_loop s sep m (Suc k) (Suc k) (replicate (Suc k + 1) None @ R)
        = (Suc k + 1 - length (ps @ [?p]), replicate (Suc k + 1 - length (ps @ [?p])) None @ map Some (ps @ [?p]) @ R)"
      using Some upd [of ?p] ps(1) by simp
    moreover have "rsplit_result sep (Suc k) (take m s) (ps @ [?p])"
      using ps(2) c by (auto simp: rsplit_result_def joined_append split: if_splits)
    ultimately show ?thesis using ps(3) by (intro exI [of _ "ps @ [?p]"]) simp
  qed
qed

section \<open>Words\<close>

abbreviation space :: "u8 \<Rightarrow> bool" where
  "space c \<equiv> unichar_isspace (ucast c)"

text \<open>Splitting at white space: up to \<open>k\<close> words, all for a negative \<open>k\<close>, and the rest.\<close>

function words :: "int \<Rightarrow> u8 list \<Rightarrow> u8 list list" where
  "words k s =
     (let s1 = dropWhile space s in
      if s1 = [] then []
      else if k = 0 then [s1]
      else takeWhile (\<lambda>c. \<not> space c) s1
             # words (if k > 0 then k - 1 else k) (dropWhile (\<lambda>c. \<not> space c) s1))"
  by pat_completeness auto
termination
proof (relation "measure (\<lambda>(_, s). length s)", goal_cases)
  case (2 k s x)
  obtain c r where x: "x = c # r" using 2(2) by (cases x) simp_all
  then have "\<not> space c" using 2 hd_dropWhile [of space s] by (metis list.sel(1))
  then have "length (dropWhile (\<lambda>c. \<not> space c) x) < length x"
    by (simp add: x length_dropWhile_le less_Suc_eq_le)
  also have "length x \<le> length s" using 2 length_dropWhile_le by simp
  finally show ?case by simp
qed simp

declare words.simps [simp del]

lemma skip_spaces_eq: "skip_spaces s = dropWhile space s"
  by (induction s) auto

lemma scan_word_eq: "scan_word s = (takeWhile (\<lambda>c. \<not> space c) s, dropWhile (\<lambda>c. \<not> space c) s)"
  by (induction s) auto

lemma words_Nil: "words k [] = []"
  by (subst words.simps) simp

lemma split_spaces_words: "split_spaces k (skip_spaces s) = words k s"
proof (induction k s rule: words.induct)
  case (1 k s)
  let ?s = "dropWhile space s" and ?k = "if k > 0 then k - 1 else k"
  let ?r = "dropWhile (\<lambda>c. \<not> space c) ?s"
  show ?case
  proof (cases "?s = [] \<or> k = 0")
    case True
    have "words k s = (if ?s = [] then [] else [?s])" using True by (subst words.simps) (auto simp: Let_def)
    moreover have "split_spaces k ?s = (if ?s = [] then [] else [?s])"
      using True by (subst split_spaces.simps) (auto split: prod.split)
    ultimately show ?thesis by (simp only: skip_spaces_eq)
  next
    case False
    then have "split_spaces ?k (skip_spaces ?r) = words ?k ?r" using 1 by simp
    moreover have "words ?k ?r = []" if "?r = []" using that by (simp only: words_Nil)
    moreover have "split_spaces k ?s = takeWhile (\<lambda>c. \<not> space c) ?s # (if ?r = [] then [] else split_spaces ?k (skip_spaces ?r))"
      using False by (subst split_spaces.simps) (simp add: scan_word_eq)
    moreover have "words k s = takeWhile (\<lambda>c. \<not> space c) ?s # words ?k ?r"
      using False by (subst words.simps) (simp add: Let_def)
    ultimately show ?thesis unfolding skip_spaces_eq [of s] by presburger
  qed
qed

section \<open>Counting and finding\<close>

lemma count_loop_split: "n \<noteq> [] \<Longrightarrow> count_loop s n c = c + int (length (split_sep n (- 1) s)) - 1"
proof (induction "length s" arbitrary: s c rule: less_induct)
  case less
  show ?case
  proof (cases "length n \<le> length s")
    case False
    then show ?thesis using less.prems
      by (simp add: count_loop.simps [of s] split_sep_step [of n "- 1" s] find_subbytes_def)
  next
    case fits: True
    show ?thesis
    proof (cases "match_at s 0 n")
      case True
      then have "find_subbytes s n True = Some 0" using fits by (simp add: find_subbytes_Some occurs_def)
      moreover have "count_loop (drop (length n) s) n (c + 1) = c + 1 + int (length (split_sep n (- 1) (drop (length n) s))) - 1"
        using less.prems fits by (intro less.hyps) (cases n; simp)+
      ultimately show ?thesis using True fits less.prems
        by (simp add: count_loop.simps [of s] split_sep_step [of n "- 1" s])
    next
      case False
      then obtain b s' where s: "s = b # s'" using fits less.prems by (cases s) auto
      have "length (split_sep n (- 1) s) = length (split_sep n (- 1) s')"
        using find_shift [of b s' n] False less.prems
        by (simp add: s split_sep_step [of n "- 1" "b # s'"] split_sep_step [of n "- 1" s'] split: option.split)
      moreover have "count_loop s' n c = c + int (length (split_sep n (- 1) s')) - 1"
        using less.prems by (intro less.hyps) (simp_all add: s)
      moreover have "count_loop s n c = count_loop s' n c"
        using fits False less.prems by (simp add: s count_loop.simps [of "b # s'"])
      ultimately show ?thesis by simp
    qed
  qed
qed

definition py_bound :: "nat \<Rightarrow> py_arg list \<Rightarrow> nat \<Rightarrow> nat \<Rightarrow> seq_error + nat" where
  "py_bound len args k dflt =
     (if k < length args then
        (case args ! k of
           Py_none \<Rightarrow> Inr dflt
         | Py_int i \<Rightarrow> Inr (nat (max 0 (min (int len) (if i < 0 then i + int len else i))))
         | _ \<Rightarrow> Inl TypeError)
      else Inr dflt)"

lemma str_bound_eq: "str_bound len args k dflt = py_bound len args k dflt"
  by (auto simp: str_bound_def py_bound_def str_index_to_ptr_def mp_get_index_def Let_def split: py_arg.split)

lemma py_bound_le: "py_bound len args k dflt = Inr i \<Longrightarrow> dflt \<le> len \<Longrightarrow> i \<le> len"
  by (auto simp: py_bound_def split: py_arg.splits if_splits)

lemma best_in_part:
  assumes "a \<le> b" "b \<le> length s"
  shows "best_in forward (occurs s n a b) (map_option ((+) a) (find_subbytes (take (b - a) (drop a s)) n forward))"
proof -
  let ?p = "take (b - a) (drop a s)"
  have part: "occurs ?p n 0 (length ?p) i = occurs s n a b (a + i)" for i
    using occurs_part [OF assms(2), of a n i] assms(1) by simp
  have "\<exists>j. i = a + j" if "occurs s n a b i" for i using that by (auto simp: occurs_def intro: le_Suc_ex)
  then have ex: "occurs s n a b i \<Longrightarrow> \<exists>j. i = a + j \<and> occurs ?p n 0 (length ?p) j" for i using part by blast
  show ?thesis
  proof (cases "find_subbytes ?p n forward")
    case None
    then show ?thesis using ex find_subbytes_None [of ?p n forward] by (auto simp: best_in_def)
  next
    case (Some j)
    then have j: "occurs s n a b (a + j)" "\<And>j'. occurs ?p n 0 (length ?p) j' \<Longrightarrow> if forward then j \<le> j' else j' \<le> j"
      using find_subbytes_best [of forward ?p n] part by (auto simp: best_in_def)
    have "if forward then a + j \<le> i else i \<le> a + j" if "occurs s n a b i" for i
      using ex [OF that] j(2) by (auto split: if_splits)
    then show ?thesis using Some j(1) by (simp add: best_in_def)
  qed
qed

end
