(* ===== verification/MpStringSpec.thy ===== *)
theory MpStringSpec
  imports MpStringOk
begin

text \<open>
  Replacement in two passes, and what Python promises of the methods of strings and bytes, stated whole.
\<close>

section \<open>Replacing\<close>

text \<open>What both passes of \<open>str_replace\<close> agree on: the text from \<open>offset_ptr\<close> on, after replacement.\<close>

function replaced :: "u8 list \<Rightarrow> u8 list \<Rightarrow> nat \<Rightarrow> nat \<Rightarrow> u8 list \<Rightarrow> u8 list" where
  "replaced old new m num s =
     (case (if num \<noteq> m \<and> s \<noteq> [] then find_subbytes s old True else None) of
        None \<Rightarrow> s
      | Some i \<Rightarrow>
          let n = (if old = [] then i + 1 else i) in
          take n s @ new @ replaced old new m (num + 1) (drop (n + length old) s))"
  by pat_completeness auto
termination
  by (relation "measure (\<lambda>(_, _, _, _, s). length s)") (auto split: if_splits)

declare replaced.simps [simp del]

lemma find_start:
  assumes "find_subbytes s old True = Some i" "s \<noteq> []"
  shows "(if old = [] then i + 1 else i) + length old \<le> length s"
proof (cases "old = []")
  case True
  then have "i = 0" using assms by (auto simp: find_subbytes_Some occurs_def)
  then show ?thesis using True assms(2) by (cases s) auto
next
  case False
  then show ?thesis using find_clean(2) [OF False assms(1)] by simp
qed

lemma measuring_pass:
  "\<exists>num'. replace_loop old new m num at s None = Inr (num', at + length (replaced old new m num s), None)
     \<and> num \<le> num' \<and> (num' = num \<longrightarrow> replaced old new m num s = s)"
proof (induction "length s" arbitrary: num at s rule: less_induct)
  case less
  show ?case
  proof (cases "if num \<noteq> m \<and> s \<noteq> [] then find_subbytes s old True else None")
    case None
    then show ?thesis by (subst replace_loop.simps, subst (1 2) replaced.simps) (simp add: put_data_def)
  next
    case (Some i)
    then have f: "find_subbytes s old True = Some i" "s \<noteq> []" by (auto split: if_splits)
    define n where "n = (if old = [] then i + 1 else i)"
    have n: "n + length old \<le> length s" "0 < n + length old" using find_start [OF f] by (auto simp: n_def)
    let ?s = "drop (n + length old) s"
    have "length ?s < length s" using n f(2) unfolding length_drop by linarith
    from less [OF this, of "num + 1" "at + n + length new"] obtain num' where ih:
      "replace_loop old new m (num + 1) (at + n + length new) ?s None
         = Inr (num', at + n + length new + length (replaced old new m (num + 1) ?s), None)" "num + 1 \<le> num'"
      by blast
    have "replaced old new m num s = take n s @ new @ replaced old new m (num + 1) ?s"
      using Some by (subst replaced.simps) (simp add: n_def Let_def)
    moreover have "replace_loop old new m num at s None = replace_loop old new m (num + 1) (at + n + length new) ?s None"
      using Some by (subst replace_loop.simps) (simp add: n_def Let_def put_data_def)
    ultimately show ?thesis using ih n(1) by (intro exI [of _ num']) simp
  qed
qed

lemma writing_pass:
  "at + length (replaced old new m num s) = length buf \<Longrightarrow>
     \<exists>num'. replace_loop old new m num at s (Some buf)
       = Inr (num', length buf, Some (take at buf @ replaced old new m num s))"
proof (induction "length s" arbitrary: num at s buf rule: less_induct)
  case less
  show ?case
  proof (cases "if num \<noteq> m \<and> s \<noteq> [] then find_subbytes s old True else None")
    case None
    then have r: "replaced old new m num s = s" by (subst replaced.simps) simp
    have "replace_loop old new m num at s (Some buf)
        = and_then (put_data at s (Some buf)) (\<lambda>data. Inr (num, at + length s, data))"
      using None by (subst replace_loop.simps) simp
    then show ?thesis using less.prems by (simp add: r put_data_def put_at_ok)
  next
    case (Some i)
    then have f: "find_subbytes s old True = Some i" "s \<noteq> []" by (auto split: if_splits)
    define n where "n = (if old = [] then i + 1 else i)"
    have n: "n + length old \<le> length s" "0 < n + length old" using find_start [OF f] by (auto simp: n_def)
    let ?s = "drop (n + length old) s"
    have r: "replaced old new m num s = take n s @ new @ replaced old new m (num + 1) ?s"
      using Some by (subst replaced.simps) (simp add: n_def Let_def)
    have fits: "at + n + length new + length (replaced old new m (num + 1) ?s) = length buf"
      using less.prems n(1) by (simp add: r)
    define b1 where "b1 = take at buf @ take n s @ drop (at + n) buf"
    define b2 where "b2 = take (at + n) b1 @ new @ drop (at + n + length new) b1"
    have p1: "put_data at (take n s) (Some buf) = Inr (Some b1)"
      using fits n(1) by (simp add: put_data_def put_at_ok b1_def)
    have len: "length b1 = length buf" "length b2 = length buf" using fits n(1) by (auto simp: b1_def b2_def)
    have p2: "put_data (at + n) new (Some b1) = Inr (Some b2)"
      using fits len by (simp add: put_data_def put_at_ok b2_def)
    have t1: "take (at + n) b1 = take at buf @ take n s"
      using take_put [of at buf "take n s" "drop (at + n) buf"] fits n(1) by (simp add: b1_def)
    have t2: "take (at + n + length new) b2 = take (at + n) b1 @ new"
      using take_put [of "at + n" b1 new] fits len by (simp add: b2_def)
    have "length ?s < length s" using n f(2) unfolding length_drop by linarith
    from less.hyps [OF this, of "at + n + length new" "num + 1" b2] fits len obtain num' where
      "replace_loop old new m (num + 1) (at + n + length new) ?s (Some b2)
         = Inr (num', length buf, Some (take (at + n + length new) b2 @ replaced old new m (num + 1) ?s))"
      by auto
    moreover have "replace_loop old new m num at s (Some buf)
        = replace_loop old new m (num + 1) (at + n + length new) ?s (Some b2)"
      using Some p1 p2 by (subst replace_loop.simps) (simp add: n_def [symmetric] Let_def)
    ultimately show ?thesis unfolding r t2 t1 by simp
  qed
qed

text \<open>With an occurrence to replace, the pieces between the occurrences joined by the new text.\<close>

lemma replaced_split:
  assumes "old \<noteq> []"
  shows "num \<le> m \<and> k = int m - int num \<or> k < 0 \<and> num + length s < m \<Longrightarrow>
    replaced old new m num s = joined new (split_sep old k s)"
proof (induction "length s" arbitrary: num k s rule: less_induct)
  case less
  show ?case
  proof (cases "k = 0")
    case True
    then have "num = m" using less.prems by linarith
    then show ?thesis using True assms by (subst replaced.simps) (simp add: split_sep_zero)
  next
    case False
    then have "num \<noteq> m" using less.prems by linarith
    show ?thesis
    proof (cases "find_subbytes s old True")
      case None
      then show ?thesis using split_sep_step [OF assms False, of s] by (subst replaced.simps) simp
    next
      case (Some i)
      let ?k = "if k > 0 then k - 1 else k" and ?s = "drop (i + length old) s"
      note c = find_clean [OF assms Some]
      have s: "s \<noteq> []" "length ?s < length s" using c(2) assms by (cases old; auto)+
      have "num + 1 \<le> m \<and> ?k = int m - int (num + 1) \<or> ?k < 0 \<and> num + 1 + length ?s < m"
        using less.prems False s(2) by auto
      from less.hyps [OF s(2) this] have ih: "replaced old new m (num + 1) ?s = joined new (split_sep old ?k ?s)" .
      obtain q qs where q: "split_sep old ?k ?s = q # qs"
        using split_sep_correct [OF assms, of ?k ?s] unfolding split_result_def by (meson neq_Nil_conv)
      have "replaced old new m num s = take i s @ new @ replaced old new m (num + 1) ?s"
        using Some s \<open>num \<noteq> m\<close> assms by (subst replaced.simps) simp
      moreover have "split_sep old k s = take i s # split_sep old ?k ?s"
        using split_sep_step [OF assms False, of s] Some by simp
      ultimately show ?thesis using ih q by simp
    qed
  qed
qed

lemma replaced_empty:
  "num \<le> m \<Longrightarrow> replaced [] new m num s = concat (map (\<lambda>c. c # new) (take (m - num) s)) @ drop (m - num) s"
proof (induction s arbitrary: num)
  case Nil
  then show ?case by (subst replaced.simps) simp
next
  case (Cons c s)
  have "find_subbytes (c # s) [] True = Some 0" by (simp add: find_subbytes_Some occurs_def)
  then have step: "replaced [] new m num (c # s) = (if num = m then c # s else c # new @ replaced [] new m (num + 1) s)"
    by (subst replaced.simps) simp
  show ?case
  proof (cases "num = m")
    case False
    then have "m - num = Suc (m - (num + 1))" "num + 1 \<le> m" using Cons.prems by linarith+
    then show ?thesis using step False Cons.IH [of "num + 1"] by simp
  next
    case True
    then show ?thesis using step by simp
  qed
qed

definition py_replace :: "u8 list \<Rightarrow> u8 list \<Rightarrow> int \<Rightarrow> u8 list \<Rightarrow> u8 list" where
  "py_replace old new k s =
     (if k = 0 then s
      else if old = [] then
        let j = (if k < 0 then length s else nat (k - 1))
        in new @ concat (map (\<lambda>c. c # new) (take j s)) @ drop j s
      else joined new (split_sep old k s))"

lemma replace_pass_result:
  assumes "length s < 4294967294" "k \<noteq> 0" "m = (if k < 0 then 4294967295 else nat k)"
  shows "\<exists>num. replace_pass old new m s None = Inr (num, length (py_replace old new k s), None)
      \<and> (num = 0 \<longrightarrow> py_replace old new k s = s)"
    and "length buf = length (py_replace old new k s) \<Longrightarrow>
      \<exists>num n. replace_pass old new m s (Some buf) = Inr (num, n, Some (py_replace old new k s))"
proof -
  have m: "1 \<le> m" using assms(2,3) by auto
  have e: "py_replace [] new k s = new @ replaced [] new m 1 s"
    using replaced_empty [OF m, of new s] assms by (auto simp: py_replace_def Let_def nat_diff_distrib)
  have r: "py_replace old new k s = replaced old new m 0 s" if "old \<noteq> []"
    using replaced_split [OF that, of 0 m k s new] assms that by (auto simp: py_replace_def)
  show "\<exists>num. replace_pass old new m s None = Inr (num, length (py_replace old new k s), None)
      \<and> (num = 0 \<longrightarrow> py_replace old new k s = s)"
    using measuring_pass [of old new m 0 0 s] measuring_pass [of "[]" new m 1 "length new" s] e r
    by (cases "old = []") (auto simp: replace_pass_def put_data_def)
  show "\<exists>num n. replace_pass old new m s (Some buf) = Inr (num, n, Some (py_replace old new k s))"
    if "length buf = length (py_replace old new k s)"
  proof (cases "old = []")
    case True
    have "put_data 0 new (Some buf) = Inr (Some (new @ drop (length new) buf))"
      using that by (simp add: put_data_def put_at_ok True e)
    then show ?thesis using writing_pass [of "length new" "[]" new m 1 s "new @ drop (length new) buf"] that
      by (auto simp: replace_pass_def True e)
  next
    case False
    then show ?thesis using writing_pass [of 0 old new m 0 s buf] that r by (auto simp: replace_pass_def)
  qed
qed

section \<open>Properties\<close>

text \<open>The bytes of a text.\<close>

definition bytes :: "string \<Rightarrow> u8 list" where
  "bytes s = map of_char s"







text \<open>
  Adding is concatenation, and repeating is repeated concatenation as long as the length stays within 32
  bits; the character tests hold of a text that is not empty if every character passes, or for the two case tests
  if there is a letter and every letter passes; the case conversions change the letters only.
\<close>

lemma alphas_of_type_eq:
  "alphas_of_type f b s \<longleftrightarrow> (b \<or> (\<exists>c \<in> set s. unichar_isalpha (ucast c)))
     \<and> (\<forall>c \<in> set s. unichar_isalpha (ucast c) \<longrightarrow> f (ucast c))"
  by (induction s arbitrary: b) auto

lemma all_of_type_eq: "all_of_type f s \<longleftrightarrow> (\<forall>c \<in> set s. f (ucast c))"
  by (induction s) auto

theorem str_operators_correct:
  assumes "length s * nat n < 4294967296"
  shows "str_multiply fresh s n = Inr (concat (replicate (nat n) s)) \<and> str_add s r = s @ r
    \<and> (str_uni_istype False f s \<longleftrightarrow> s \<noteq> [] \<and> (\<forall>c \<in> set s. f (ucast c)))
    \<and> (str_uni_istype True f s \<longleftrightarrow> (\<exists>c \<in> set s. unichar_isalpha (ucast c))
         \<and> (\<forall>c \<in> set s. unichar_isalpha (ucast c) \<longrightarrow> f (ucast c)))
    \<and> str_lower s = map (\<lambda>c. if 65 \<le> unat c \<and> unat c \<le> 90 then c + 32 else c) s
    \<and> str_upper s = map (\<lambda>c. if 97 \<le> unat c \<and> unat c \<le> 122 then c - 32 else c) s"
proof (intro conjI)
  have u: "unat (ucast c :: 32 word) = unat c" for c :: u8 by (rule unat_ucast_u32)
  have down: "ucast (ucast c + 32 :: 32 word) = c + 32" "ucast (ucast c - 32 :: 32 word) = c - 32"
      "ucast (ucast c :: 32 word) = c" for c :: u8
    by (transfer, simp add: take_bit_eq_mod, simp add: mod_diff_eq mod_mod_cancel mod_simps)
       (transfer, simp add: take_bit_eq_mod, simp add: mod_diff_eq mod_mod_cancel mod_simps, transfer, simp)
  show "str_multiply fresh s n = Inr (concat (replicate (nat n) s))"
  proof (cases "n \<le> 0")
    case False
    have "unat (of_nat (length s * nat n) :: u32) = length s * nat n" using assms by (simp only: unat_of_nat) simp
    then show ?thesis using False
      by (simp add: str_multiply_def mp_seq_multiply_ok mult.commute map_concat o_def)
  qed (simp add: str_multiply_def)
  show "str_add s r = s @ r" by (simp add: str_add_def)
  show "str_uni_istype False f s \<longleftrightarrow> s \<noteq> [] \<and> (\<forall>c \<in> set s. f (ucast c))"
    by (simp add: str_uni_istype_def all_of_type_eq)
  show "str_uni_istype True f s \<longleftrightarrow> (\<exists>c \<in> set s. unichar_isalpha (ucast c))
       \<and> (\<forall>c \<in> set s. unichar_isalpha (ucast c) \<longrightarrow> f (ucast c))"
    by (auto simp: str_uni_istype_def alphas_of_type_eq)
  show "str_lower s = map (\<lambda>c. if 65 \<le> unat c \<and> unat c \<le> 90 then c + 32 else c) s"
    by (auto simp: str_lower_def str_caseconv_def unichar_tolower_def char_classes char_in_def u down)
  show "str_upper s = map (\<lambda>c. if 97 \<le> unat c \<and> unat c \<le> 122 then c - 32 else c) s"
    by (auto simp: str_upper_def str_caseconv_def unichar_toupper_def char_classes char_in_def u down)
qed

theorem str_operators_correct_witness:
  "str_multiply (\<lambda>_. 0) (bytes ''ab'') 3 = Inr (concat (replicate (nat 3) (bytes ''ab'')))"
  using conjunct1 [OF str_operators_correct [of "bytes ''ab''" 3]] by (simp add: bytes_def)

text \<open>
  With crossed bounds, \<open>count\<close> of an empty text is the difference of the bounds plus one, which is negative
  when the start is two or more past the end; Python gives 0.
\<close>

theorem str_count_negative:
  "str_count t s (Text t []) [Py_int 3, Py_int 1] = Inr (- 1)" if "3 \<le> length s"
  using that by (simp add: str_count_def str_check_arg_type_def str_bound_eq py_bound_def)

end
