(* ===== verification/MpPrint.thy ===== *)
theory MpPrint
  imports MpSeq SmallInt
begin

text \<open>
  Printing: \<open>python/py/mpprint.c\<close> and the formatting of integers in \<open>objint.c\<close>, in this configuration
  without floats and long integers.

  A function that prints returns the bytes it hands to \<open>print_strn\<close>, in order, and the number of
  characters it reports.  Flags are a C \<open>int\<close>, tested bit by bit; widths, precisions and lengths are integers
  far below 2 to the 31.  A buffer that is filled from its end towards its start is the free bytes before
  the cursor (\<open>room\<close>) and the bytes from the cursor on.  The assertions on the radix are left out: every
  caller passes 2, 8, 10 or 16.  When a conversion fails an assertion, what was printed before is dropped.
\<close>

section \<open>Padding\<close>

definition PF_FLAG_LEFT_ADJUST :: u32 where "PF_FLAG_LEFT_ADJUST = 0x001"
definition PF_FLAG_SHOW_SIGN :: u32 where "PF_FLAG_SHOW_SIGN = 0x002"
definition PF_FLAG_SPACE_SIGN :: u32 where "PF_FLAG_SPACE_SIGN = 0x004"
definition PF_FLAG_NO_TRAILZ :: u32 where "PF_FLAG_NO_TRAILZ = 0x008"
definition PF_FLAG_SHOW_PREFIX :: u32 where "PF_FLAG_SHOW_PREFIX = 0x010"
definition PF_FLAG_SHOW_COMMA :: u32 where "PF_FLAG_SHOW_COMMA = 0x020"
definition PF_FLAG_PAD_AFTER_SIGN :: u32 where "PF_FLAG_PAD_AFTER_SIGN = 0x040"
definition PF_FLAG_CENTER_ADJUST :: u32 where "PF_FLAG_CENTER_ADJUST = 0x080"
definition PF_FLAG_SHOW_OCTAL_LETTER :: u32 where "PF_FLAG_SHOW_OCTAL_LETTER = 0x200"

lemmas pf_flag_defs = PF_FLAG_LEFT_ADJUST_def PF_FLAG_SHOW_SIGN_def PF_FLAG_SPACE_SIGN_def PF_FLAG_NO_TRAILZ_def
  PF_FLAG_SHOW_PREFIX_def PF_FLAG_SHOW_COMMA_def PF_FLAG_PAD_AFTER_SIGN_def PF_FLAG_CENTER_ADJUST_def
  PF_FLAG_SHOW_OCTAL_LETTER_def

definition flag_set :: "u32 \<Rightarrow> u32 \<Rightarrow> bool" where
  "flag_set flags f \<longleftrightarrow> flags AND f \<noteq> 0"

definition pad_spaces :: "u8 list" where "pad_spaces = replicate 16 0x20"
definition pad_zeroes :: "u8 list" where "pad_zeroes = replicate 16 0x30"

text \<open>The loop that prints padding, at most the length of \<open>pad_chars\<close> at a time.\<close>

function pad_loop :: "u8 list \<Rightarrow> nat \<Rightarrow> u8 list" where
  "pad_loop pad_chars left_pad =
     (if left_pad > 0 \<and> pad_chars \<noteq> [] then
        let p = (if left_pad > length pad_chars then length pad_chars else left_pad)
        in take p pad_chars @ pad_loop pad_chars (left_pad - p)
      else [])"
  by pat_completeness auto
termination
  by (relation "measure snd") auto

declare pad_loop.simps [simp del]

definition mp_print_strn :: "u8 list \<Rightarrow> u32 \<Rightarrow> u8 \<Rightarrow> int \<Rightarrow> u8 list \<times> int" where
  "mp_print_strn str flags fill width =
     (let len = int (length str);
          pad = width - len;
          pad_chars = (if fill = 0 \<or> fill = 0x20 then pad_spaces else if fill = 0x30 then pad_zeroes else [fill]);
          (left_pad, right_pad) =
            (if flag_set flags PF_FLAG_CENTER_ADJUST then (pad sdiv 2, pad - pad sdiv 2)
             else if flag_set flags PF_FLAG_LEFT_ADJUST then (0, pad)
             else (pad, 0))
      in ((if left_pad > 0 then pad_loop pad_chars (nat left_pad) else []) @ str
            @ (if right_pad > 0 then pad_loop pad_chars (nat right_pad) else []),
          (if left_pad > 0 then left_pad else 0) + len + (if right_pad > 0 then right_pad else 0)))"

section \<open>Integers\<close>

text \<open>The character for a digit, with \<open>base_char\<close> for ten.\<close>

definition int_char :: "u32 \<Rightarrow> u8 \<Rightarrow> u8" where
  "int_char c base_char = (if c \<ge> 10 then ucast c + base_char - 10 else ucast c + 0x30)"

text \<open>The loop of \<open>mp_print_int\<close>; it is entered with room in the buffer.\<close>

fun print_digits :: "u32 \<Rightarrow> u8 \<Rightarrow> nat \<Rightarrow> u32 \<Rightarrow> u8 list \<Rightarrow> nat \<times> u8 list" where
  "print_digits base base_char 0 x b = (0, b)"
| "print_digits base base_char (Suc room) x b =
     (let b = int_char (x mod base) base_char # b; x = x div base
      in if room > 0 \<and> x \<noteq> 0 then print_digits base base_char room x b else (room, b))"

definition INT_BUF_SIZE :: nat where "INT_BUF_SIZE = 16"

definition mp_print_int :: "u32 \<Rightarrow> bool \<Rightarrow> u32 \<Rightarrow> u8 \<Rightarrow> u32 \<Rightarrow> u8 \<Rightarrow> int \<Rightarrow> u8 list \<times> int" where
  "mp_print_int x is_signed base base_char flags fill width =
     (let sign = (if is_signed then
                    if sint x < 0 then [0x2D]
                    else if flag_set flags PF_FLAG_SHOW_SIGN then [0x2B]
                    else if flag_set flags PF_FLAG_SPACE_SIGN then [0x20] else []
                  else []);
          x = (if is_signed \<and> sint x < 0 then - x else x);
          (room, b) = (if x = 0 then (INT_BUF_SIZE - 1, [0x30]) else print_digits base base_char INT_BUF_SIZE x [])
      in if flag_set flags PF_FLAG_PAD_AFTER_SIGN then
           let (out1, len1) = (if sign \<noteq> [] then mp_print_strn sign flags fill 1 else ([], 0));
               width = (if sign \<noteq> [] then width - 1 else width);
               (out2, len2) = mp_print_strn b flags fill width
           in (out1 @ out2, len1 + len2)
         else
           mp_print_strn (if sign \<noteq> [] \<and> room > 0 then sign @ b else b) flags fill width)"

text \<open>\<open>mp_obj_int_formatted\<close> of \<open>objint.c\<close>: the table, the size it asks for, the loop and the whole.\<close>

definition log_base2_floor :: "nat list" where
  "log_base2_floor = [0, 1, 1, 2, 2, 2, 2, 3, 3, 3, 3, 3, 3, 3, 3, 4]"

definition mp_int_format_size :: "nat \<Rightarrow> nat \<Rightarrow> u8 list option \<Rightarrow> u8 \<Rightarrow> nat" where
  "mp_int_format_size num_bits base prefix comma =
     (let num_digits = num_bits div log_base2_floor ! (base - 1) + 1;
          num_commas = (if comma \<noteq> 0 then num_digits div 3 else 0);
          prefix_len = (case prefix of None \<Rightarrow> 0 | Some p \<Rightarrow> length p)
      in num_digits + num_commas + prefix_len + 2)"

text \<open>\<open>since\<close> is \<open>last_comma - b\<close>, the characters since the last comma.\<close>

function format_digits :: "u32 \<Rightarrow> u8 \<Rightarrow> u8 \<Rightarrow> nat \<Rightarrow> nat \<Rightarrow> u32 \<Rightarrow> u8 list \<Rightarrow> nat \<times> u8 list" where
  "format_digits base base_char comma 0 since num b = (0, b)"
| "format_digits base base_char comma (Suc room) since num b =
     (let b = int_char (num mod base) base_char # b; num = num div base; since = since + 1;
          (room, since, b) = (if comma \<noteq> 0 \<and> num \<noteq> 0 \<and> room > 0 \<and> since = 3
                              then (room - 1, 0, comma # b) else (room, since, b))
      in if room > 0 \<and> num \<noteq> 0 then format_digits base base_char comma room since num b else (room, b))"
  by pat_completeness auto
termination
  by (relation "measure (\<lambda>(_, _, _, room, _). room)") (auto split: if_splits)

definition mp_obj_int_formatted :: "mp_int \<Rightarrow> nat \<Rightarrow> u8 list option \<Rightarrow> u8 \<Rightarrow> u8 \<Rightarrow> u8 list" where
  "mp_obj_int_formatted x base prefix base_char comma =
     (let neg = (sint x < 0);
          num = (if neg then - x else x);
          room = mp_int_format_size 32 base prefix comma - 1;
          (room, b) = (if num = 0 then (room - 1, [0x30])
                       else format_digits (of_nat base) base_char comma room 0 num []);
          (room, b) = (case prefix of
                         None \<Rightarrow> (room, b)
                       | Some p \<Rightarrow> if room > length p then (room - length p, p @ b) else (room, b))
      in if neg \<and> room > 0 then 0x2D # b else b)"

definition mp_obj_int_print :: "mp_int \<Rightarrow> u8 list" where
  "mp_obj_int_print x = mp_obj_int_formatted x 10 None 0 0"

definition mp_obj_int_sign :: "mp_int \<Rightarrow> int" where
  "mp_obj_int_sign val = (if sint val < 0 then - 1 else if sint val > 0 then 1 else 0)"

text \<open>The sign and radix in front of a number, as \<open>mp_print_mp_int\<close> collects them.\<close>

definition int_prefix :: "mp_int \<Rightarrow> nat \<Rightarrow> u8 \<Rightarrow> u32 \<Rightarrow> u8 list" where
  "int_prefix x base base_char flags =
     (if mp_obj_int_sign x \<ge> 0 then
        if flag_set flags PF_FLAG_SHOW_SIGN then [0x2B]
        else if flag_set flags PF_FLAG_SPACE_SIGN then [0x20] else []
      else [])
     @ (if flag_set flags PF_FLAG_SHOW_PREFIX then
          if base = 2 then [0x30, base_char + 0x62 - 0x61]
          else if base = 8 then 0x30 # (if flag_set flags PF_FLAG_SHOW_OCTAL_LETTER then [base_char + 0x6F - 0x61] else [])
          else if base = 16 then [0x30, base_char + 0x78 - 0x61] else []
        else [])"

definition mp_print_mp_int :: "mp_int \<Rightarrow> nat \<Rightarrow> u8 \<Rightarrow> u32 \<Rightarrow> u8 \<Rightarrow> int \<Rightarrow> int \<Rightarrow> u8 list \<times> int" where
  "mp_print_mp_int x base base_char flags fill width prec =
     (let zero_fill = (\<not> flag_set flags (PF_FLAG_LEFT_ADJUST OR PF_FLAG_CENTER_ADJUST) \<and> fill = 0x30);
          width = (if zero_fill \<and> prec > width then prec else width);
          prec = (if zero_fill then 0 else prec);
          prefix = int_prefix x base base_char flags;
          comma = (if flag_set flags PF_FLAG_SHOW_COMMA then 0x2C else 0);
          flags = (if prec > 1 then flags OR PF_FLAG_PAD_AFTER_SIGN else flags);
          pad_after = flag_set flags PF_FLAG_PAD_AFTER_SIGN;
          str0 = mp_obj_int_formatted x base (if pad_after then None else Some prefix) base_char comma;
          sign = (pad_after \<and> hd str0 = 0x2D);
          str = (if sign then tl str0 else str0);
          fmt_size = int (length str);
          prec_width = (if fmt_size < prec then prec else fmt_size)
             + (if pad_after then (if sign then 1 else 0) + int (length prefix) else 0);
          gap = (if prec > 1 \<and> prec_width < width then width - prec_width else 0);
          spaces_after = (if flag_set flags PF_FLAG_LEFT_ADJUST then gap else 0);
          spaces_before = (if flag_set flags PF_FLAG_LEFT_ADJUST then 0 else gap);
          fill = (if prec > 1 then 0x30 else fill);
          flags = (if prec > 1 then flags AND NOT PF_FLAG_LEFT_ADJUST else flags);
          (out1, len1) = (if spaces_before \<noteq> 0 then mp_print_strn [] 0 0x20 spaces_before else ([], 0));
          (out2, len2) = (if pad_after \<and> sign then mp_print_strn [0x2D] 0 0 1 else ([], 0));
          width = (if pad_after \<and> sign then width - 1 else width);
          (out3, len3) = (if pad_after \<and> prefix \<noteq> [] then mp_print_strn prefix 0 0 1 else ([], 0));
          width = (if pad_after \<and> prefix \<noteq> [] then width - int (length prefix) else width);
          width = (if prec > 1 then prec else width);
          (out4, len4) = mp_print_strn str flags fill width;
          (out5, len5) = (if spaces_after \<noteq> 0 then mp_print_strn [] 0 0x20 spaces_after else ([], 0))
      in (out1 @ out2 @ out3 @ out4 @ out5, len1 + len2 + len3 + len4 + len5))"

section \<open>Format strings\<close>

text \<open>
  The arguments of a variadic call: an \<open>int\<close>, the bytes of a C string (None for the NULL pointer), and
  those of an interned string.  Reading one of another kind than was passed is undefined in C.
\<close>

datatype c_arg = Arg_int u32 | Arg_str "u8 list option" | Arg_qstr "u8 list"

datatype printf_error = Unsupported_format | Bad_argument

fun printf_flags :: "u8 list \<Rightarrow> u32 \<Rightarrow> u8 \<Rightarrow> u32 \<times> u8 \<times> u8 list" where
  "printf_flags [] flags fill = (flags, fill, [])"
| "printf_flags (c # fmt) flags fill =
     (if c = 0x2D then printf_flags fmt (flags OR PF_FLAG_LEFT_ADJUST) fill
      else if c = 0x2B then printf_flags fmt (flags OR PF_FLAG_SHOW_SIGN) fill
      else if c = 0x20 then printf_flags fmt (flags OR PF_FLAG_SPACE_SIGN) fill
      else if c = 0x21 then printf_flags fmt (flags OR PF_FLAG_NO_TRAILZ) fill
      else if c = 0x30 then printf_flags fmt (flags OR PF_FLAG_PAD_AFTER_SIGN) 0x30
      else (flags, fill, c # fmt))"

fun printf_number :: "u8 list \<Rightarrow> int \<Rightarrow> int \<times> u8 list" where
  "printf_number [] width = (width, [])"
| "printf_number (c # fmt) width =
     (if 0x30 \<le> c \<and> c \<le> 0x39 then printf_number fmt (width * 10 + int (unat c) - 0x30) else (width, c # fmt))"

text \<open>The precision, -1 if there is none; a star takes it from the arguments.\<close>

definition printf_precision :: "u8 list \<Rightarrow> c_arg list \<Rightarrow> printf_error + int \<times> u8 list \<times> c_arg list" where
  "printf_precision fmt args =
     (case fmt of
        c # fmt1 \<Rightarrow>
          if c = 0x2E then
            (case fmt1 of
               c1 # fmt2 \<Rightarrow>
                 if c1 = 0x2A then
                   (case args of Arg_int p # args \<Rightarrow> Inr (if sint p < 0 then 0 else sint p, fmt2, args) | _ \<Rightarrow> Inl Bad_argument)
                 else (let (prec, fmt3) = printf_number fmt1 0 in Inr (if prec < 0 then 0 else prec, fmt3, args))
             | [] \<Rightarrow> Inr (0, [], args))
          else Inr (- 1, fmt, args)
      | [] \<Rightarrow> Inr (- 1, [], args))"

definition cut_to :: "int \<Rightarrow> u8 list \<Rightarrow> u8 list" where
  "cut_to prec str = (if prec \<ge> 0 \<and> nat prec < length str then take (nat prec) str else str)"

text \<open>One conversion, selected by the character \<open>c\<close>.\<close>

definition printf_conversion :: "u8 \<Rightarrow> u32 \<Rightarrow> u8 \<Rightarrow> int \<Rightarrow> int \<Rightarrow> c_arg list
    \<Rightarrow> printf_error + (u8 list \<times> int) \<times> c_arg list" where
  "printf_conversion c flags fill width prec args =
     (if c = 0x62 then
        (case args of
           Arg_int v # args \<Rightarrow>
             Inr (mp_print_strn (if v \<noteq> 0 then map of_char ''true'' else map of_char ''false'') flags fill width, args)
         | _ \<Rightarrow> Inl Bad_argument)
      else if c = 0x63 then
        (case args of Arg_int v # args \<Rightarrow> Inr (mp_print_strn [ucast v] flags fill width, args) | _ \<Rightarrow> Inl Bad_argument)
      else if c = 0x71 then
        (case args of Arg_qstr str # args \<Rightarrow> Inr (mp_print_strn (cut_to prec str) flags fill width, args) | _ \<Rightarrow> Inl Bad_argument)
      else if c = 0x73 then
        (case args of
           Arg_str None # args \<Rightarrow>
             if prec \<noteq> 0 then Inr (mp_print_strn (map of_char ''(null)'') flags fill width, args) else Inl Bad_argument
         | Arg_str (Some str) # args \<Rightarrow> Inr (mp_print_strn (cut_to prec str) flags fill width, args)
         | _ \<Rightarrow> Inl Bad_argument)
      else if c = 0x64 then
        (case args of Arg_int v # args \<Rightarrow> Inr (mp_print_int v True 10 0x61 flags fill width, args) | _ \<Rightarrow> Inl Bad_argument)
      else if c = 0x75 \<or> c = 0x78 \<or> c = 0x58 then
        (case args of
           Arg_int v # args \<Rightarrow>
             Inr (mp_print_int v False (16 - ((ucast c + 1) AND 6)) ((c AND 0xF0) - 0x50 + 0x41) flags fill width, args)
         | _ \<Rightarrow> Inl Bad_argument)
      else if c = 0x70 \<or> c = 0x50 then
        (case args of Arg_int v # args \<Rightarrow> Inr (mp_print_int v False 16 0x61 flags fill width, args) | _ \<Rightarrow> Inl Bad_argument)
      else if c = 0x25 then Inr (([c], 1), args)
      else Inl Unsupported_format)"

definition skip_long :: "u8 list \<Rightarrow> u8 list" where
  "skip_long fmt = (case fmt of c # fmt1 \<Rightarrow> if c = 0x6C then fmt1 else fmt | [] \<Rightarrow> [])"

lemma printf_flags_le: "printf_flags fmt flags fill = (flags', fill', fmt') \<Longrightarrow> length fmt' \<le> length fmt"
  by (induction fmt flags fill rule: printf_flags.induct) (auto split: if_splits)

lemma printf_number_le: "printf_number fmt width = (width', fmt') \<Longrightarrow> length fmt' \<le> length fmt"
  by (induction fmt width rule: printf_number.induct) (auto split: if_splits)

lemma printf_precision_le: "printf_precision fmt args = Inr (prec, fmt', args') \<Longrightarrow> length fmt' \<le> length fmt"
  by (auto simp: printf_precision_def split: list.splits if_splits prod.splits c_arg.splits dest: printf_number_le)

lemma skip_long_le: "length (skip_long fmt) \<le> length fmt"
  by (simp add: skip_long_def split: list.split)

lemma printf_step_less:
  assumes "dropWhile (\<lambda>c. c \<noteq> 0x25) fmt = c # fmt1" "(flags, fill, fmt2) = printf_flags fmt1 0 0x20"
    "(width, fmt3) = printf_number fmt2 0" "printf_precision fmt3 args = Inr (prec, fmt4, args')"
    "skip_long fmt4 = c1 # fmt5"
  shows "length fmt5 < length fmt"
proof -
  have "Suc (length fmt1) \<le> length fmt"
    using assms(1) length_dropWhile_le [of "\<lambda>c. c \<noteq> 0x25" fmt] by simp
  moreover have "Suc (length fmt5) \<le> length fmt4" using assms(5) skip_long_le [of fmt4] by simp
  ultimately show ?thesis
    using printf_flags_le [OF assms(2) [symmetric]] printf_number_le [OF assms(3) [symmetric]] printf_precision_le [OF assms(4)]
    by linarith
qed

text \<open>\<open>mp_vprintf\<close>, and \<open>mp_printf\<close> with the arguments of the call; the format ends where the list ends.\<close>

function mp_vprintf :: "u8 list \<Rightarrow> c_arg list \<Rightarrow> printf_error + u8 list \<times> int" where
  "mp_vprintf fmt args =
     (let plain = takeWhile (\<lambda>c. c \<noteq> 0x25) fmt
      in case dropWhile (\<lambda>c. c \<noteq> 0x25) fmt of
           [] \<Rightarrow> Inr (plain, int (length plain))
         | _ # fmt1 \<Rightarrow>
             (case printf_flags fmt1 0 0x20 of (flags, fill, fmt2) \<Rightarrow>
             (case printf_number fmt2 0 of (width, fmt3) \<Rightarrow>
             (case printf_precision fmt3 args of
                Inl e \<Rightarrow> Inl e
              | Inr (prec, fmt4, args) \<Rightarrow>
                  (case skip_long fmt4 of
                     [] \<Rightarrow> Inr (plain, int (length plain))
                   | c # fmt5 \<Rightarrow>
                       (case printf_conversion c flags fill width prec args of
                          Inl e \<Rightarrow> Inl e
                        | Inr ((out, n), args) \<Rightarrow>
                            and_then (mp_vprintf fmt5 args) (\<lambda>(rest, m).
                              Inr (plain @ out @ rest, int (length plain) + n + m))))))))"
  by pat_completeness auto
termination
  by (relation "measure (\<lambda>(fmt, _). length fmt)") (use printf_step_less in auto)

declare mp_vprintf.simps [simp del]

end
