(* ===== verification/MpPrintSpec.thy ===== *)
theory MpPrintSpec
  imports MpPrint ParseNum
begin

text \<open>
  What printing promises: padding to a width, digits that the number parser reads back, and format strings
  as sequences of directives.
\<close>

section \<open>Padding\<close>

lemma pad_loop_replicate: "0 < k \<Longrightarrow> pad_loop (replicate k c) n = replicate n c"
proof (induction n rule: less_induct)
  case (less n)
  show ?case
  proof (cases "n = 0")
    case True
    then show ?thesis by (simp add: pad_loop.simps)
  next
    case False
    then have "pad_loop (replicate k c) n = replicate (min n k) c @ pad_loop (replicate k c) (n - min n k)"
      using less.prems by (subst pad_loop.simps) (simp add: Let_def min_def)
    also have "\<dots> = replicate n c"
      using less False by (simp add: replicate_add [symmetric])
    finally show ?thesis .
  qed
qed

definition fill_char :: "u8 \<Rightarrow> u8" where
  "fill_char fill = (if fill = 0 then 0x20 else fill)"

text \<open>How many of \<open>gap\<close> fill characters go to the left.\<close>

definition left_part :: "u32 \<Rightarrow> nat \<Rightarrow> nat" where
  "left_part fl gap =
     (if flag_set fl PF_FLAG_CENTER_ADJUST then gap div 2 else if flag_set fl PF_FLAG_LEFT_ADJUST then 0 else gap)"

lemma pad_chars_eq:
  "pad_loop (if fill = 0 \<or> fill = 0x20 then pad_spaces else if fill = 0x30 then pad_zeroes else [fill]) n
     = replicate n (fill_char fill)"
  using pad_loop_replicate [of 16 "0x20" n] pad_loop_replicate [of 16 "0x30" n] pad_loop_replicate [of 1 fill n]
  by (simp add: pad_spaces_def pad_zeroes_def fill_char_def)

lemma print_strn_correct:
  "mp_print_strn str fl fill width =
     (let gap = nat (width - int (length str)); l = left_part fl gap
      in (replicate l (fill_char fill) @ str @ replicate (gap - l) (fill_char fill), int (length str + gap)))"
proof -
  have half: "(k :: int) sdiv 2 = (if 0 \<le> k then k div 2 else - (- k div 2))" for k
    by (simp add: signed_divide_int_def sgn_if)
  define pad where "pad = width - int (length str)"
  show ?thesis
  proof (cases "0 \<le> pad")
    case True
    then obtain n where n: "pad = int n" using nonneg_int_cases by blast
    have n2: "int n div 2 = int (n div 2)" "nat (int n - int (n div 2)) = n - n div 2" by simp_all
    show ?thesis
      unfolding mp_print_strn_def pad_def [symmetric] Let_def n half pad_chars_eq left_part_def
      by (simp add: n2 of_nat_diff)
  next
    case False
    have "\<not> 0 < - (- pad div 2)" "\<not> 0 < pad - - (- pad div 2)" using False by simp_all
    then show ?thesis
      using False unfolding mp_print_strn_def pad_def [symmetric] Let_def half pad_chars_eq left_part_def
      by simp
  qed
qed

lemma print_strn_0 [simp]: "width \<le> int (length str) \<Longrightarrow> mp_print_strn str fl fill width = (str, int (length str))"
  by (simp add: print_strn_correct left_part_def)

section \<open>Digits\<close>

function digits_of :: "nat \<Rightarrow> nat \<Rightarrow> nat list" where
  "digits_of b n = (if n < b \<or> b < 2 then [n] else digits_of b (n div b) @ [n mod b])"
  by pat_completeness auto
termination
  by (relation "measure snd") auto

declare digits_of.simps [simp del]

lemma digits_of_facts:
  assumes "2 \<le> b"
  shows "digits_value b (digits_of b n) = n" "\<forall>d \<in> set (digits_of b n). d < b" "digits_of b n \<noteq> []"
    "n < b ^ k \<Longrightarrow> 0 < k \<Longrightarrow> length (digits_of b n) \<le> k"
proof -
  show "digits_value b (digits_of b n) = n"
  proof (induction b n rule: digits_of.induct)
    case (1 b n)
    then show ?case by (subst digits_of.simps) (auto simp: digits_value_def)
  qed
  show "\<forall>d \<in> set (digits_of b n). d < b"
    using assms
  proof (induction b n rule: digits_of.induct)
    case (1 b n)
    then show ?case by (subst digits_of.simps) auto
  qed
  show "digits_of b n \<noteq> []" by (subst digits_of.simps) simp
  show "n < b ^ k \<Longrightarrow> 0 < k \<Longrightarrow> length (digits_of b n) \<le> k"
  proof (induction k arbitrary: n)
    case (Suc k)
    show ?case
    proof (cases "n < b")
      case True
      then show ?thesis by (simp add: digits_of.simps)
    next
      case False
      then have "0 < k" using Suc.prems(1) by (cases k) auto
      moreover have "n div b < b ^ k" using Suc.prems(1) assms by (simp add: div_less_iff_less_mult mult.commute)
      ultimately show ?thesis using Suc.IH False assms by (subst digits_of.simps) simp
    qed
  qed simp
qed

abbreviation char_digits :: "u8 \<Rightarrow> nat \<Rightarrow> nat \<Rightarrow> u8 list" where
  "char_digits ch b n \<equiv> map (\<lambda>d. int_char (of_nat d) ch) (digits_of b n)"

lemma word_div_mod:
  assumes "2 \<le> b" "b \<le> 36"
  shows "unat (x div of_nat b :: u32) = unat x div b" "x mod of_nat b = (of_nat (unat x mod b) :: u32)"
    "x div of_nat b = 0 \<longleftrightarrow> unat x < b"
proof -
  have b: "unat (of_nat b :: u32) = b" using assms by (simp add: unat_of_nat_small)
  then show d: "unat (x div of_nat b :: u32) = unat x div b" by (simp add: unat_div)
  have "unat x mod b < 4294967296" by (rule le_less_trans [OF mod_less_eq_dividend u32_bound])
  then show "x mod of_nat b = (of_nat (unat x mod b) :: u32)"
    using b by (simp only: word_unat_eq_iff unat_mod unat_of_nat_small)
  have "x div of_nat b = 0 \<longleftrightarrow> unat x div b = 0" using d by (metis unat_eq_zero)
  then show "x div of_nat b = 0 \<longleftrightarrow> unat x < b" using assms by (simp add: div_eq_0_iff)
qed

lemma print_digits_correct:
  assumes "2 \<le> b" "b \<le> 36"
  shows "length (digits_of b (unat x)) \<le> room \<Longrightarrow>
    print_digits (of_nat b) ch room x out = (room - length (digits_of b (unat x)), char_digits ch b (unat x) @ out)"
proof (induction room arbitrary: x out)
  case 0
  then show ?case using digits_of_facts(3) [OF assms(1)] by simp
next
  case (Suc room)
  note w = word_div_mod [OF assms, of x]
  show ?case
  proof (cases "unat x < b")
    case True
    then show ?thesis using w by (simp add: Let_def digits_of.simps)
  next
    case False
    then have ds: "digits_of b (unat x) = digits_of b (unat (x div of_nat b)) @ [unat x mod b]"
      using assms(1) w(1) by (subst digits_of.simps) simp
    then have len: "length (digits_of b (unat (x div of_nat b))) \<le> room" using Suc.prems by simp
    moreover have "room \<noteq> 0"
      using len digits_of_facts(3) [OF assms(1), of "unat (x div of_nat b)"] by (metis le_zero_eq length_0_conv)
    ultimately show ?thesis using Suc.IH [OF len] False ds w(2,3) by (simp add: Let_def)
  qed
qed

text \<open>A comma after every third digit from the right.\<close>

function with_commas :: "u8 \<Rightarrow> u8 list \<Rightarrow> u8 list" where
  "with_commas c cs =
     (if c = 0 \<or> length cs \<le> 3 then cs
      else with_commas c (take (length cs - 3) cs) @ c # drop (length cs - 3) cs)"
  by pat_completeness auto
termination
  by (relation "measure (\<lambda>(_, cs). length cs)") auto

declare with_commas.simps [simp del]

lemma with_commas_0 [simp]: "with_commas 0 cs = cs"
  by (simp add: with_commas.simps)

text \<open>The same from right to left, \<open>since\<close> characters after the last comma.\<close>

fun grouped :: "u8 \<Rightarrow> nat \<Rightarrow> u8 list \<Rightarrow> u8 list \<Rightarrow> u8 list" where
  "grouped c since [] b = b"
| "grouped c since (d # ds) b =
     (if c \<noteq> 0 \<and> ds \<noteq> [] \<and> since = 2 then grouped c 0 ds (c # d # b) else grouped c (since + 1) ds (d # b))"

lemma grouped_0: "grouped 0 since ds b = rev ds @ b"
  by (induction ds arbitrary: since b) auto

lemma grouped_append: "grouped c since ds (b @ b') = grouped c since ds b @ b'"
  by (induction c since ds b rule: grouped.induct) (simp_all flip: append_Cons del: append_Cons)

lemma grouped_size: "length (grouped c since ds b) = length (grouped c since ds []) + length b"
  using grouped_append [of c since ds "[]" b] by simp

lemma grouped_ge: "length ds + length b \<le> length (grouped c since ds b)"
  by (induction c since ds b rule: grouped.induct) auto

lemma length_grouped:
  "since < 3 \<Longrightarrow> c \<noteq> 0 \<Longrightarrow> length (grouped c since ds b) = length ds + (length ds - 1 + since) div 3 + length b"
proof (induction ds arbitrary: since b)
  case (Cons d ds)
  show ?case
  proof (cases "ds = []")
    case False
    then obtain m where "length ds = Suc m" by (cases ds) auto
    then show ?thesis using False Cons by (cases "since = 2") auto
  qed (use Cons.prems in simp)
qed simp

lemma grouped_with_commas: "grouped c 0 ds b = with_commas c (rev ds) @ b"
proof (induction "length ds" arbitrary: ds b rule: less_induct)
  case less
  show ?case
  proof (cases "c = 0 \<or> length ds \<le> 3")
    case True
    then show ?thesis
    proof
      assume "length ds \<le> 3"
      then consider "ds = []" | x where "ds = [x]" | x y where "ds = [x, y]" | x y z where "ds = [x, y, z]"
        by (cases ds rule: remdups_adj.cases; cases "tl (tl ds)") (auto simp: le_Suc_eq)
      then show ?thesis by cases (simp_all add: with_commas.simps)
    qed (simp add: grouped_0)
  next
    case False
    then obtain x y z es where ds: "ds = x # y # z # es" "es \<noteq> []"
      by (auto simp: not_le Suc_le_eq [symmetric] numeral_eq_Suc Suc_le_length_iff)
    then show ?thesis using False less [of es] by (subst with_commas.simps) (simp add: numeral_eq_Suc)
  qed
qed

lemma format_digits_correct:
  assumes "2 \<le> base" "base \<le> 36"
  shows "comma = 0 \<or> since < 3 \<Longrightarrow> length (grouped comma since (rev (char_digits ch base (unat num))) []) \<le> room \<Longrightarrow>
    format_digits (of_nat base) ch comma room since num b
      = (let b' = grouped comma since (rev (char_digits ch base (unat num))) b
         in (room - (length b' - length b), b'))"
proof (induction "unat num" arbitrary: num room since b rule: less_induct)
  case less
  note w = word_div_mod [OF assms, of num]
  let ?c = "int_char (of_nat (unat num mod base)) ch" and ?num = "num div of_nat base"
  show ?case
  proof (cases "unat num < base")
    case True
    obtain r where "room = Suc r" using less.prems True by (cases room) (auto simp: digits_of.simps)
    then show ?thesis using w True by (simp add: Let_def digits_of.simps)
  next
    case False
    let ?ds = "rev (char_digits ch base (unat ?num))"
    have ds: "rev (char_digits ch base (unat num)) = ?c # ?ds"
      using assms(1) False w(1) by (subst digits_of.simps) simp
    have ne: "?ds \<noteq> []" using digits_of_facts(3) [OF assms(1)] by simp
    have smaller: "unat ?num < unat num" using w(1) False assms(1) by simp
    obtain r where r: "room = Suc r" using less.prems ne grouped_ge [of "?c # ?ds" "[]" comma since]
      unfolding ds by (cases room) auto
    show ?thesis
    proof (cases "comma \<noteq> 0 \<and> since = 2")
      case True
      then have need: "length (grouped comma 0 ?ds []) + 1 \<le> r"
        using less.prems(2) ne grouped_size [of comma 0 ?ds "[comma, ?c]"] unfolding ds r by simp
      moreover have "0 < length (grouped comma 0 ?ds [])" using ne grouped_ge [of ?ds "[]" comma 0] by (cases ?ds) auto
      ultimately have "1 < r" "length (grouped comma 0 ?ds []) \<le> r - 1" by linarith+
      then show ?thesis
        using True w False less.hyps [OF smaller, of 0 "r - 1" "comma # ?c # b"] ne grouped_size [of comma 0 ?ds "comma # ?c # b"]
        unfolding ds r by (simp add: Let_def)
    next
      case no: False
      then have need: "length (grouped comma (since + 1) ?ds []) \<le> r"
        using less.prems(2) ne grouped_size [of comma "since + 1" ?ds "[?c]"] unfolding ds r by auto
      moreover have "0 < length (grouped comma (since + 1) ?ds [])"
        using ne grouped_ge [of ?ds "[]" comma "since + 1"] by (cases ?ds) auto
      ultimately have "0 < r" by linarith
      then show ?thesis
        using need no w False less.hyps [OF smaller, of "since + 1" r "?c # b"] ne less.prems(1) grouped_size [of comma "since + 1" ?ds "?c # b"]
        unfolding ds r by (auto simp: Let_def)
    qed
  qed
qed

section \<open>Integers as text\<close>

definition minus_sign :: "int \<Rightarrow> u8 list" where
  "minus_sign k = (if k < 0 then [0x2D] else [])"

lemma unat_magnitude: "unat (if sint x < 0 then - x else x :: u32) = nat \<bar>sint x\<bar>"
proof (cases "sint x < 0")
  case True
  have "- x = word_of_int (- sint x)" by simp
  then have "uint (- x) = (- sint x) mod 2 ^ 32" by (simp only: uint_word_of_int) simp
  also have "\<dots> = - sint x" using True sint_bounds [of x] by (intro mod_pos_pos_trivial) simp_all
  finally show ?thesis using True by (simp add: unat_eq_nat_uint)
next
  case False
  then have "uint x = sint x" using sint_bounds [of x] by (simp add: uint_sint take_bit_eq_mod)
  then show ?thesis using False by (simp add: unat_eq_nat_uint)
qed

lemma enough_digits:
  assumes "2 \<le> base" "base \<le> 16" "n \<le> 2147483648"
  shows "length (digits_of base n) \<le> 32 div log_base2_floor ! (base - 1) + 1"
proof -
  have "base \<in> {2,3,4,5,6,7,8,9,10,11,12,13,14,15,16}"
    using assms(1,2) unfolding insert_iff empty_iff by presburger
  then have "2147483648 < base ^ (32 div log_base2_floor ! (base - 1) + 1)"
    unfolding log_base2_floor_def by (elim insertE emptyE) simp_all
  then show ?thesis using assms by (intro digits_of_facts(4)) simp_all
qed

lemma int_formatted_correct:
  assumes "2 \<le> base" "base \<le> 16"
  shows "mp_obj_int_formatted x base prefix ch comma
    = minus_sign (sint x) @ (case prefix of None \<Rightarrow> [] | Some p \<Rightarrow> p)
        @ with_commas comma (char_digits ch base (nat \<bar>sint x\<bar>))"
proof -
  define num where "num = (if sint x < 0 then - x else x)"
  have num: "unat num = nat \<bar>sint x\<bar>" unfolding num_def by (rule unat_magnitude)
  let ?ds = "char_digits ch base (unat num)" and ?D = "32 div log_base2_floor ! (base - 1) + 1"
  define b where "b = with_commas comma ?ds"
  define size where "size = mp_int_format_size 32 base prefix comma - 1"
  have D: "length ?ds \<le> ?D"
    using enough_digits [OF assms, of "unat num"] sint_bounds [of x] unfolding num by simp
  have b: "grouped comma 0 (rev ?ds) [] = b" by (simp add: b_def grouped_with_commas)
  have "length b = length ?ds + (if comma = 0 then 0 else (length ?ds - 1) div 3)"
    unfolding b [symmetric] by (simp add: length_grouped grouped_0)
  then have room: "length b + (case prefix of None \<Rightarrow> 0 | Some p \<Rightarrow> length p) < size"
    using D by (auto simp: size_def mp_int_format_size_def Let_def split: option.split intro: add_le_mono div_le_mono)
  have "(if num = 0 then (size - 1, [0x30]) else format_digits (of_nat base) ch comma size 0 num []) = (size - length b, b)"
  proof (cases "num = 0")
    case True
    then show ?thesis using assms(1) by (auto simp: b_def digits_of.simps with_commas.simps int_char_def)
  next
    case False
    then show ?thesis
      using format_digits_correct [of base comma 0 ch num size "[]"] assms room unfolding b by (simp add: Let_def)
  qed
  then show ?thesis
    using room unfolding mp_obj_int_formatted_def num_def [symmetric] size_def [symmetric] Let_def num [symmetric] b_def [symmetric]
    by (auto simp: minus_sign_def split: option.split)
qed

lemma int_char_digit: "d < 36 \<Longrightarrow> int_char (of_nat d) 0x61 = digit_char d"
proof -
  assume "d < 36"
  then have "d \<in> {0,1,2,3,4,5,6,7,8,9,10,11,12,13,14,15,16,17,18,19,20,21,22,23,24,25,26,27,28,29,30,31,32,33,34,35}"
    unfolding insert_iff empty_iff by presburger
  then show ?thesis by (elim insertE emptyE; simp add: int_char_def digit_char_def word_le_nat_alt)
qed

lemma int_char_decimal: "d < 10 \<Longrightarrow> int_char (of_nat d) ch = digit_char d"
proof -
  assume "d < 10"
  then have "d \<in> {0,1,2,3,4,5,6,7,8,9}" unfolding insert_iff empty_iff by presburger
  then show ?thesis by (elim insertE emptyE; simp add: int_char_def digit_char_def word_le_nat_alt)
qed

lemma char_digits_lower: "2 \<le> base \<Longrightarrow> base \<le> 36 \<Longrightarrow> char_digits 0x61 base n = map digit_char (digits_of base n)"
  using digits_of_facts(2) [of base n] by (auto simp: int_char_digit)

lemma digits_value_zeros: "digits_value b (replicate k 0 @ ds) = digits_value b ds"
  by (induction k) (simp_all add: digits_value_def)

text \<open>What the parser makes of a number: the smallest small integer is not read back.\<close>

definition read_back :: "mp_int \<Rightarrow> num_error + mp_int" where
  "read_back x = (if sint x = - 1073741824 then Inl Long_int else Inr x)"

lemma sign_of_magnitude: "(if sint x < 0 then - of_nat (nat \<bar>sint x\<bar>) else of_nat (nat \<bar>sint x\<bar>)) = (x :: mp_int)"
proof -
  have "of_nat (nat k) = (of_int k :: mp_int)" if "0 \<le> k" for k using that by (rule of_nat_nat)
  from this [of "\<bar>sint x\<bar>"] show ?thesis by (cases "sint x < 0") (simp_all only: abs_of_neg abs_of_nonneg not_less, simp_all)
qed

lemma parse_int_text:
  assumes "small_int (sint x)" "2 \<le> base" "base \<le> 36" "radix_prefix base radix pre"
    and "pl \<in> {[], [0x2B]}" "sint x < 0 \<longrightarrow> pl = []" "\<forall>c \<in> set sp1. space_byte c" "\<forall>c \<in> set sp2. space_byte c"
  shows "mp_parse_num_integer (sp1 @ minus_sign (sint x) @ pl @ pre
     @ map digit_char (replicate k 0 @ digits_of base (nat \<bar>sint x\<bar>)) @ sp2) radix = read_back x"
proof -
  let ?n = "nat \<bar>sint x\<bar>" and ?s = "minus_sign (sint x) @ pl"
  let ?ds = "replicate k 0 @ digits_of base ?n"
  have ds: "?ds \<noteq> []" "\<forall>d \<in> set ?ds. d < base" "digits_value base ?ds = ?n"
    using digits_of_facts(1-3) [OF assms(2)] assms(2) by (auto simp: digits_value_zeros)
  have sign: "?s \<in> {[], [0x2B], [0x2D]}" "?s = [0x2D] \<longleftrightarrow> sint x < 0"
    using assms(5,6) by (auto simp: minus_sign_def)
  have "sp1 @ minus_sign (sint x) @ pl @ pre @ map digit_char ?ds @ sp2 = sp1 @ ?s @ pre @ map digit_char ?ds @ sp2"
    by simp
  moreover have "?n < 2 ^ 30 \<longleftrightarrow> sint x \<noteq> - 1073741824" using assms(1) by (auto simp: small_int_def)
  ultimately show ?thesis
    using parse_num_value [OF assms(2,3,4) ds(1,2) assms(7,8) sign(1)] sign_of_magnitude [of x]
    unfolding ds(3) sign(2) read_back_def by (auto simp: Let_def)
qed

text \<open>The prefix that \<open>mp_print_mp_int\<close> builds when asked for one.\<close>

lemma int_prefix_parts:
  assumes "base \<in> {2, 8, 10, 16}" "flag_set fl PF_FLAG_SHOW_PREFIX" "flag_set fl PF_FLAG_SHOW_OCTAL_LETTER"
  obtains sp pl pre where "int_prefix x base 0x61 fl = sp @ pl @ pre" "radix_prefix base 0 pre" "sp \<in> {[], [0x20]}"
    "pl \<in> {[], [0x2B]}" "sint x < 0 \<longrightarrow> sp = [] \<and> pl = []"
proof -
  let ?pre = "if base = 2 then [0x30, 0x62] else if base = 8 then [0x30, 0x6F] else if base = 16 then [0x30, 0x78] else [] :: u8 list"
  have pre: "radix_prefix base 0 ?pre" using assms(1) by (auto simp: radix_prefix_def)
  have joined: "int_prefix x base 0x61 fl = (if sint x < 0 then [] else if flag_set fl PF_FLAG_SHOW_SIGN then [0x2B]
      else if flag_set fl PF_FLAG_SPACE_SIGN then [0x20] else []) @ ?pre"
    using assms by (auto simp: int_prefix_def mp_obj_int_sign_def)
  show thesis
  proof (cases "flag_set fl PF_FLAG_SHOW_SIGN \<or> sint x < 0")
    case True
    then show thesis using that [of "[]" "if sint x < 0 then [] else [0x2B]" ?pre] pre unfolding joined by auto
  next
    case False
    then show thesis using that [of "if flag_set fl PF_FLAG_SPACE_SIGN then [0x20] else []" "[]" ?pre] pre unfolding joined by auto
  qed
qed

lemma print_mp_int_spaces:
  assumes "\<not> flag_set fl PF_FLAG_PAD_AFTER_SIGN" "\<not> flag_set fl PF_FLAG_SHOW_COMMA" "fill \<noteq> 0x30" "prec \<le> 1"
  shows "mp_print_mp_int x base ch fl fill width prec
    = mp_print_strn (mp_obj_int_formatted x base (Some (int_prefix x base ch fl)) ch 0) fl fill width"
  using assms by (simp add: mp_print_mp_int_def Let_def split: prod.split)

lemma flag_set_or: "flag_set fl (f OR g) \<longleftrightarrow> flag_set fl f \<or> flag_set fl g"
  by (simp add: flag_set_def bit.conj_disj_distrib or_eq_0_iff)

lemma print_mp_int_zeros:
  assumes "flag_set fl PF_FLAG_PAD_AFTER_SIGN" "\<not> flag_set fl PF_FLAG_SHOW_COMMA" "fill = 0x30"
    "\<not> flag_set fl PF_FLAG_LEFT_ADJUST" "\<not> flag_set fl PF_FLAG_CENTER_ADJUST" "2 \<le> base" "base \<le> 16"
  shows "\<exists>k. fst (mp_print_mp_int x base 0x61 fl fill width prec)
    = minus_sign (sint x) @ int_prefix x base 0x61 fl @ map digit_char (replicate k 0 @ digits_of base (nat \<bar>sint x\<bar>))"
proof -
  let ?ds = "map digit_char (digits_of base (nat \<bar>sint x\<bar>))"
  have str: "mp_obj_int_formatted x base None 0x61 0 = minus_sign (sint x) @ ?ds"
    using int_formatted_correct [OF assms(6,7), where x = x and prefix = None and ch = "0x61" and comma = 0] char_digits_lower [of base "nat \<bar>sint x\<bar>"] assms(6,7) by simp
  have "?ds \<noteq> []" using digits_of_facts(3) [OF assms(6)] by simp
  moreover have "hd ?ds \<noteq> 0x2D"
    using digits_of_facts(2,3) [OF assms(6), of "nat \<bar>sint x\<bar>"] digit_char_facts(6) assms(7)
    by (cases "digits_of base (nat \<bar>sint x\<bar>)") auto
  ultimately have sign: "hd (minus_sign (sint x) @ ?ds) = 0x2D \<longleftrightarrow> sint x < 0"
    "(if sint x < 0 then tl (minus_sign (sint x) @ ?ds) else minus_sign (sint x) @ ?ds) = ?ds"
    by (auto simp: minus_sign_def)
  define w where "w = (if width < prec then prec else width) - (if sint x < 0 then 1 else 0)
      - (if int_prefix x base 0x61 fl \<noteq> [] then int (length (int_prefix x base 0x61 fl)) else 0)"
  have one: "mp_print_strn [0x2D] 0 0 1 = ([0x2D], 1)"
    "p \<noteq> [] \<Longrightarrow> mp_print_strn p 0 0 1 = (p, int (length p))" for p :: "u8 list"
    by (cases p; simp)+
  have "fst (mp_print_mp_int x base 0x61 fl fill width prec)
      = minus_sign (sint x) @ int_prefix x base 0x61 fl @ fst (mp_print_strn ?ds fl 0x30 w)"
    using assms(1-5) sign one unfolding mp_print_mp_int_def Let_def w_def
    by (cases "sint x < 0"; cases "int_prefix x base 0x61 fl = []") (simp_all add: flag_set_or str minus_sign_def split: prod.split)
  also have "fst (mp_print_strn ?ds fl 0x30 w) = map digit_char (replicate (nat (w - int (length ?ds))) 0 @ digits_of base (nat \<bar>sint x\<bar>))"
    using assms(4,5) by (simp add: print_strn_correct Let_def left_part_def fill_char_def digit_char_def)
  finally show ?thesis by blast
qed

lemma padded_text:
  assumes "fill = 0 \<or> fill = 0x20"
  obtains l r where "fst (mp_print_strn str fl fill width) = replicate l 0x20 @ str @ replicate r 0x20"
  using assms that by (auto simp: print_strn_correct Let_def fill_char_def)

lemma space_byte_space [simp]: "space_byte 0x20"
  by (simp add: space_byte_def char_classes)

lemma read_formatted:
  assumes "small_int (sint x)" "2 \<le> base" "base \<le> 16" "radix_prefix base radix pre" "pl \<in> {[], [0x2B]}"
    "sint x < 0 \<longrightarrow> sp = [] \<and> pl = []" "\<forall>c \<in> set sp1 \<union> set sp \<union> set sp2. space_byte c"
  shows "mp_parse_num_integer (sp1 @ mp_obj_int_formatted x base (Some (sp @ pl @ pre)) 0x61 0 @ sp2) radix = read_back x"
proof -
  have eq: "sp1 @ mp_obj_int_formatted x base (Some (sp @ pl @ pre)) 0x61 0 @ sp2
      = (sp1 @ sp) @ minus_sign (sint x) @ pl @ pre @ map digit_char (replicate 0 0 @ digits_of base (nat \<bar>sint x\<bar>)) @ sp2"
    unfolding int_formatted_correct [OF assms(2,3)] with_commas_0
    using char_digits_lower [of base "nat \<bar>sint x\<bar>"] assms(2,3,6) by (auto simp: minus_sign_def)
  show ?thesis unfolding eq by (rule parse_int_text) (use assms in auto)
qed

lemma read_printed:
  assumes "small_int (sint x)" "base \<in> {2, 8, 10, 16}" "flag_set fl PF_FLAG_SHOW_PREFIX" "flag_set fl PF_FLAG_SHOW_OCTAL_LETTER"
    "\<not> flag_set fl PF_FLAG_SHOW_COMMA"
    "fill \<in> {0, 0x20} \<and> \<not> flag_set fl PF_FLAG_PAD_AFTER_SIGN \<and> prec \<le> 1
     \<or> fill = 0x30 \<and> flag_set fl PF_FLAG_PAD_AFTER_SIGN \<and> \<not> flag_set fl PF_FLAG_LEFT_ADJUST \<and> \<not> flag_set fl PF_FLAG_CENTER_ADJUST"
  shows "mp_parse_num_integer (fst (mp_print_mp_int x base 0x61 fl fill width prec)) 0 = read_back x"
proof -
  have base: "2 \<le> base" "base \<le> 16" using assms(2) by auto
  obtain sp pl pre where pre: "int_prefix x base 0x61 fl = sp @ pl @ pre" "radix_prefix base 0 pre" "sp \<in> {[], [0x20]}"
    "pl \<in> {[], [0x2B]}" "sint x < 0 \<longrightarrow> sp = [] \<and> pl = []" by (rule int_prefix_parts [OF assms(2-4)])
  show ?thesis
  proof (cases "fill = 0x30")
    case True
    then obtain k where k: "fst (mp_print_mp_int x base 0x61 fl fill width prec)
        = minus_sign (sint x) @ (sp @ pl @ pre) @ map digit_char (replicate k 0 @ digits_of base (nat \<bar>sint x\<bar>))"
      using print_mp_int_zeros [of fl fill base x width prec] assms(5,6) base pre(1) by auto
    also have "\<dots> = sp @ minus_sign (sint x) @ pl @ pre @ map digit_char (replicate k 0 @ digits_of base (nat \<bar>sint x\<bar>)) @ []"
      using pre(5) by (auto simp: minus_sign_def)
    finally show ?thesis
      using parse_int_text [of x base 0 pre pl sp "[]" k] assms(1) base pre by auto
  next
    case False
    then have style: "fill = 0 \<or> fill = 0x20" "\<not> flag_set fl PF_FLAG_PAD_AFTER_SIGN" "prec \<le> 1" using assms(6) by auto
    obtain l r where "fst (mp_print_mp_int x base 0x61 fl fill width prec)
        = replicate l 0x20 @ mp_obj_int_formatted x base (Some (sp @ pl @ pre)) 0x61 0 @ replicate r 0x20"
      using padded_text [OF style(1)] print_mp_int_spaces [OF style(2) assms(5) False style(3)] pre(1) by metis
    moreover have "\<forall>c \<in> set (replicate l 0x20) \<union> set sp \<union> set (replicate r 0x20). space_byte c" using pre(3) by auto
    ultimately show ?thesis using read_formatted [OF assms(1) base pre(2,4,5)] by simp
  qed
qed

text \<open>
  C21: Printing an integer and reading it again gives the integer back.  This holds for what \<open>repr\<close> prints, for
  binary, octal, decimal and hexadecimal text with every prefix and radix that fit together, and for what
  formatting prints with a prefix, any sign option, any width, padded on either side with spaces or
  after the sign with zeros.  The buffer the code computes is always long enough.  The one exception is
  the smallest small integer, which the parser reports as a long integer.
\<close>

theorem int_text_roundtrip:
  assumes "small_int (sint x)" "base \<in> {2, 8, 10, 16}" "radix_prefix base radix pre"
    "flag_set fl PF_FLAG_SHOW_PREFIX" "flag_set fl PF_FLAG_SHOW_OCTAL_LETTER" "\<not> flag_set fl PF_FLAG_SHOW_COMMA"
    "fill \<in> {0, 0x20} \<and> \<not> flag_set fl PF_FLAG_PAD_AFTER_SIGN \<and> prec \<le> 1
     \<or> fill = 0x30 \<and> flag_set fl PF_FLAG_PAD_AFTER_SIGN \<and> \<not> flag_set fl PF_FLAG_LEFT_ADJUST \<and> \<not> flag_set fl PF_FLAG_CENTER_ADJUST"
  shows "mp_parse_num_integer (mp_obj_int_print x) 0 = read_back x
    \<and> mp_parse_num_integer (mp_obj_int_formatted x base (Some pre) 0x61 0) radix = read_back x
    \<and> mp_parse_num_integer (fst (mp_print_mp_int x base 0x61 fl fill width prec)) 0 = read_back x
    \<and> (read_back x \<noteq> Inr x \<longrightarrow> x = MP_SMALL_INT_MIN)"
proof (intro conjI impI)
  have base: "2 \<le> base" "base \<le> 16" using assms(2) by auto
  have "mp_obj_int_print x = minus_sign (sint x) @ map digit_char (digits_of 10 (nat \<bar>sint x\<bar>))"
    unfolding mp_obj_int_print_def using int_formatted_correct [of 10 x None 0 0] digits_of_facts(2) [of 10 "nat \<bar>sint x\<bar>"]
    by (auto simp: int_char_decimal)
  then show "mp_parse_num_integer (mp_obj_int_print x) 0 = read_back x"
    using parse_int_text [of x 10 0 "[]" "[]" "[]" "[]" 0] assms(1) by (simp add: radix_prefix_def)
  show "mp_parse_num_integer (mp_obj_int_formatted x base (Some pre) 0x61 0) radix = read_back x"
    using read_formatted [OF assms(1) base assms(3), of "[]" "[]" "[]" "[]"] by simp
  show "mp_parse_num_integer (fst (mp_print_mp_int x base 0x61 fl fill width prec)) 0 = read_back x"
    by (rule read_printed [OF assms(1,2,4-7)])
  show "x = MP_SMALL_INT_MIN" if "read_back x \<noteq> Inr x"
  proof -
    have "sint x = sint MP_SMALL_INT_MIN" using that by (simp add: read_back_def split: if_splits)
    from arg_cong [OF this, of "word_of_int :: int \<Rightarrow> mp_int"] show ?thesis by (simp del: small_int_limits)
  qed
qed

theorem int_text_roundtrip_witness:
  "mp_print_mp_int (- 255) 16 0x61 0x250 0x30 8 0 = (map of_char ''-0x000ff'', 8)
   \<and> mp_parse_num_integer (map of_char ''-0x000ff'') 0 = Inr (- 255)"
proof -
  have run: "mp_print_mp_int (- 255) 16 0x61 0x250 0x30 8 0 = (map of_char ''-0x000ff'', 8)" by code_simp
  have "radix_prefix 16 16 []" by (simp add: radix_prefix_def)
  then show ?thesis
    using int_text_roundtrip [of "- 255" 16 16 "[]" "0x250" "0x30" 0 8] run
    by (simp add: small_int_def flag_set_def pf_flag_defs read_back_def)
qed

section \<open>Numbers in format strings\<close>

definition sign_text :: "bool \<Rightarrow> u32 \<Rightarrow> u32 \<Rightarrow> u8 list" where
  "sign_text is_signed x fl =
     (if \<not> is_signed then [] else if sint x < 0 then [0x2D]
      else if flag_set fl PF_FLAG_SHOW_SIGN then [0x2B] else if flag_set fl PF_FLAG_SPACE_SIGN then [0x20] else [])"

definition number_text :: "bool \<Rightarrow> u32 \<Rightarrow> nat \<Rightarrow> u8 \<Rightarrow> u8 list" where
  "number_text is_signed x base ch = char_digits ch base (if is_signed then nat \<bar>sint x\<bar> else unat x)"

lemma print_int_correct:
  assumes "8 \<le> base" "base \<le> 16"
  shows "mp_print_int x is_signed (of_nat base) ch fl fill width =
    (let s = sign_text is_signed x fl; ds = number_text is_signed x base ch
     in if flag_set fl PF_FLAG_PAD_AFTER_SIGN then
          (s @ fst (mp_print_strn ds fl fill (width - int (length s))),
           int (length s) + snd (mp_print_strn ds fl fill (width - int (length s))))
        else mp_print_strn (s @ ds) fl fill width)"
proof -
  define n where "n = (if is_signed \<and> sint x < 0 then - x else x)"
  have n: "unat n = (if is_signed then nat \<bar>sint x\<bar> else unat x)"
    unfolding n_def using unat_magnitude [of x] by auto
  let ?ds = "char_digits ch base (unat n)"
  have "unat n < base ^ 11"
    by (rule less_le_trans [OF u32_bound]) (rule order_trans [OF _ power_mono [of 8 base 11]], use assms in simp_all)
  then have len: "length ?ds \<le> 11" using assms by (simp add: digits_of_facts(4))
  have digits: "(if n = 0 then (INT_BUF_SIZE - 1, [0x30]) else print_digits (of_nat base) ch INT_BUF_SIZE n []) = (16 - length ?ds, ?ds)"
  proof (cases "n = 0")
    case True
    then show ?thesis using assms by (auto simp: digits_of.simps int_char_def INT_BUF_SIZE_def)
  next
    case False
    then show ?thesis using print_digits_correct [of base n INT_BUF_SIZE ch "[]"] len assms by (simp add: INT_BUF_SIZE_def)
  qed
  have sign: "(if is_signed then if sint x < 0 then [0x2D] else if flag_set fl PF_FLAG_SHOW_SIGN then [0x2B]
      else if flag_set fl PF_FLAG_SPACE_SIGN then [0x20] else [] else []) = sign_text is_signed x fl"
    by (auto simp: sign_text_def)
  have one: "sign_text is_signed x fl = [] \<or> length (sign_text is_signed x fl) = 1" by (simp add: sign_text_def)
  show ?thesis
    unfolding mp_print_int_def n_def [symmetric] Let_def digits sign number_text_def n [symmetric]
    using one len by (cases "sign_text is_signed x fl = []") (simp_all add: split_beta)
qed

section \<open>Format strings\<close>

text \<open>
  A format string is plain text and directives: flags, an optional width, an optional precision, an
  optional \<open>l\<close>, and a conversion.
\<close>

datatype precision = No_precision | Precision nat | From_args

datatype directive = Plain_text "u8 list" | Directive "u8 list" "nat option" precision bool u8

definition decimal :: "nat \<Rightarrow> u8 list" where
  "decimal n = map digit_char (digits_of 10 n)"

fun directive_text :: "directive \<Rightarrow> u8 list" where
  "directive_text (Plain_text t) = t"
| "directive_text (Directive fs width prec is_long c) =
     [0x25] @ fs @ (case width of None \<Rightarrow> [] | Some n \<Rightarrow> decimal n)
       @ (case prec of No_precision \<Rightarrow> [] | Precision n \<Rightarrow> 0x2E # decimal n | From_args \<Rightarrow> [0x2E, 0x2A])
       @ (if is_long then [0x6C] else []) @ [c]"

definition flag_chars :: "u8 set" where
  "flag_chars = {0x2D, 0x2B, 0x20, 0x21, 0x30}"

fun directive_ok :: "directive \<Rightarrow> bool" where
  "directive_ok (Plain_text t) \<longleftrightarrow> 0x25 \<notin> set t"
| "directive_ok (Directive fs width prec is_long c) \<longleftrightarrow>
     set fs \<subseteq> flag_chars \<and> width \<noteq> Some 0 \<and> c \<in> set (map of_char ''bcqsduxXpP%'')"

fun flag_bits :: "u8 list \<Rightarrow> u32" where
  "flag_bits [] = 0"
| "flag_bits (c # fs) =
     (if c = 0x2D then PF_FLAG_LEFT_ADJUST else if c = 0x2B then PF_FLAG_SHOW_SIGN
      else if c = 0x20 then PF_FLAG_SPACE_SIGN else if c = 0x21 then PF_FLAG_NO_TRAILZ
      else PF_FLAG_PAD_AFTER_SIGN) OR flag_bits fs"

text \<open>What a sequence of directives prints.\<close>

definition take_precision :: "precision \<Rightarrow> c_arg list \<Rightarrow> printf_error + int \<times> c_arg list" where
  "take_precision prec args =
     (case prec of
        No_precision \<Rightarrow> Inr (- 1, args)
      | Precision n \<Rightarrow> Inr (int n, args)
      | From_args \<Rightarrow> (case args of Arg_int p # args \<Rightarrow> Inr (max 0 (sint p), args) | _ \<Rightarrow> Inl Bad_argument))"

fun run_directives :: "directive list \<Rightarrow> c_arg list \<Rightarrow> printf_error + u8 list" where
  "run_directives [] args = Inr []"
| "run_directives (Plain_text t # ds) args = and_then (run_directives ds args) (\<lambda>out. Inr (t @ out))"
| "run_directives (Directive fs width prec is_long c # ds) args =
     and_then (take_precision prec args) (\<lambda>(p, args).
     and_then (printf_conversion c (flag_bits fs) (if 0x30 \<in> set fs then 0x30 else 0x20)
                 (case width of None \<Rightarrow> 0 | Some n \<Rightarrow> int n) p args) (\<lambda>((out, _), args).
     and_then (run_directives ds args) (\<lambda>out'. Inr (out @ out'))))"

lemma printf_flags_scan:
  "set fs \<subseteq> flag_chars \<Longrightarrow> tail \<noteq> [] \<Longrightarrow> hd tail \<notin> flag_chars \<Longrightarrow>
    printf_flags (fs @ tail) fl fill = (fl OR flag_bits fs, if 0x30 \<in> set fs then 0x30 else fill, tail)"
proof (induction fs arbitrary: fl fill)
  case Nil
  then show ?case by (cases tail) (auto simp: flag_chars_def)
next
  case (Cons c fs)
  then show ?case by (auto simp: flag_chars_def or.assoc)
qed

lemma digit_char_range: "d < 10 \<Longrightarrow> 0x30 \<le> digit_char d \<and> digit_char d \<le> 0x39"
  using digit_char_facts(3) [of d] by (simp add: word_le_nat_alt)

lemma printf_number_decimal:
  assumes "tail \<noteq> []" "\<not> (0x30 \<le> hd tail \<and> hd tail \<le> 0x39)"
  shows "printf_number (decimal n @ tail) 0 = (int n, tail)"
proof -
  have "printf_number (map digit_char ds @ tail) v = (foldl (\<lambda>v d. v * 10 + int d) v ds, tail)"
    if "\<forall>d \<in> set ds. d < 10" for ds v
    using that
  proof (induction ds arbitrary: v)
    case Nil
    then show ?case using assms by (cases tail) auto
  next
    case (Cons d ds)
    then show ?case using digit_char_range [of d] digit_char_facts(3) [of d] by simp
  qed
  moreover have "foldl (\<lambda>v d. v * 10 + int d) (int v) ds = int (foldl (\<lambda>v d. v * 10 + d) v ds)" for v ds
    by (induction ds arbitrary: v) (simp_all, metis of_nat_add of_nat_mult of_nat_numeral)
  from this [of 0 "digits_of 10 n"] have "foldl (\<lambda>v d. v * 10 + int d) 0 (digits_of 10 n) = int n"
    using digits_of_facts(1) [of 10 n] by (simp add: digits_value_def)
  ultimately show ?thesis using digits_of_facts(2) [of 10 n] by (simp add: decimal_def)
qed

lemma digits_of_first: "0 < n \<Longrightarrow> 2 \<le> b \<Longrightarrow> hd (digits_of b n) \<noteq> 0"
proof (induction b n rule: digits_of.induct)
  case (1 b n)
  then show ?case
    using digits_of_facts(3) [of b "n div b"] by (subst digits_of.simps) (auto simp: div_greater_zero_iff)
qed

lemma decimal_first:
  assumes "0 < n"
  shows "decimal n \<noteq> []" "hd (decimal n) \<notin> flag_chars"
proof -
  obtain d ds where ds: "digits_of 10 n = d # ds" "d \<noteq> 0" "d < 10"
    using digits_of_facts(2,3) [of 10 n] digits_of_first [OF assms, of 10] by (cases "digits_of 10 n") auto
  then have "d \<in> {1,2,3,4,5,6,7,8,9}" unfolding insert_iff empty_iff by presburger
  then have "digit_char d \<notin> flag_chars" by (elim insertE emptyE; simp add: digit_char_def flag_chars_def)
  then show "decimal n \<noteq> []" "hd (decimal n) \<notin> flag_chars" by (simp_all add: decimal_def ds)
qed

lemma vprintf_plain:
  assumes "0x25 \<notin> set t"
  shows "mp_vprintf (t @ fmt) args = and_then (mp_vprintf fmt args) (\<lambda>(out, n). Inr (t @ out, int (length t) + n))"
proof -
  obtain before rest where now: "takeWhile (\<lambda>c. c \<noteq> 0x25) fmt = before" "dropWhile (\<lambda>c. c \<noteq> 0x25) fmt = rest" by simp
  have later: "takeWhile (\<lambda>c. c \<noteq> 0x25) (t @ fmt) = t @ before" "dropWhile (\<lambda>c. c \<noteq> 0x25) (t @ fmt) = rest"
    using assms by (auto simp: dropWhile_append takeWhile_append now)
  show ?thesis
    unfolding mp_vprintf.simps [of "t @ fmt"] mp_vprintf.simps [of fmt] now later
    by (auto simp: Let_def split: list.splits prod.splits sum.splits)
qed

lemma conversion_chars:
  assumes "c \<in> set (map of_char ''bcqsduxXpP%'')"
  shows "c \<notin> flag_chars" "\<not> (0x30 \<le> c \<and> c \<le> 0x39)" "c \<noteq> 0x2E" "c \<noteq> 0x6C"
  using assms by (auto simp: flag_chars_def)

text \<open>The number reported is the number of characters printed.\<close>

definition counted :: "u8 list \<times> int \<Rightarrow> bool" where
  "counted r \<longleftrightarrow> snd r = int (length (fst r))"

lemma counted_strn [simp]: "counted (mp_print_strn s fl fill width)"
  by (simp add: counted_def print_strn_correct Let_def left_part_def)

lemma counted_print_int [simp]: "counted (mp_print_int v is_signed base ch fl fill width)"
proof -
  have two: "counted (fst p @ fst q, snd p + snd q)" if "counted p" "counted q" for p q
    using that by (simp add: counted_def)
  show ?thesis
    unfolding mp_print_int_def Let_def split_beta
    using two [OF counted_strn counted_strn] counted_strn by (simp add: counted_def)
qed

lemma conversion_count: "printf_conversion c fl fill width prec args = Inr (r, args') \<Longrightarrow> counted r"
proof (cases args)
  case Nil
  then show "printf_conversion c fl fill width prec args = Inr (r, args') \<Longrightarrow> ?thesis"
    by (auto simp: printf_conversion_def counted_def split: if_split_asm)
next
  case (Cons a as)
  have "counted ([c], 1)" by (simp add: counted_def)
  then show "printf_conversion c fl fill width prec args = Inr (r, args') \<Longrightarrow> ?thesis"
    unfolding Cons printf_conversion_def
    by (cases a) (auto simp del: print_strn_0 split: if_split_asm option.split_asm)
qed

lemma decimal_head: "\<exists>d ds. decimal n = digit_char d # ds \<and> d < 10"
  using digits_of_facts(2,3) [of 10 n] by (cases "digits_of 10 n") (auto simp: decimal_def)

lemma precision_scan:
  assumes "tail \<noteq> []" "\<not> (0x30 \<le> hd tail \<and> hd tail \<le> 0x39)" "hd tail \<noteq> 0x2E"
  shows "printf_precision ((case prec of No_precision \<Rightarrow> [] | Precision n \<Rightarrow> 0x2E # decimal n | From_args \<Rightarrow> [0x2E, 0x2A]) @ tail) args
    = and_then (take_precision prec args) (\<lambda>(p, args). Inr (p, tail, args))"
proof (cases prec)
  case No_precision
  then show ?thesis using assms by (cases tail) (auto simp: printf_precision_def take_precision_def)
next
  case (Precision n)
  obtain d ds where "decimal n = digit_char d # ds" "d < 10" using decimal_head by blast
  moreover have "digit_char d \<noteq> 0x2A" using digit_char_range [of d] \<open>d < 10\<close> by (auto simp: word_le_nat_alt)
  ultimately show ?thesis
    using Precision printf_number_decimal [OF assms(1,2), of n] by (simp add: printf_precision_def take_precision_def)
next
  case From_args
  then show ?thesis by (auto simp: printf_precision_def take_precision_def max_def split: list.split c_arg.split)
qed

lemma vprintf_directive:
  assumes "directive_ok (Directive fs width prec is_long c)"
  shows "mp_vprintf (directive_text (Directive fs width prec is_long c) @ rest) args =
     and_then (take_precision prec args) (\<lambda>(p, args).
     and_then (printf_conversion c (flag_bits fs) (if 0x30 \<in> set fs then 0x30 else 0x20)
                 (case width of None \<Rightarrow> 0 | Some n \<Rightarrow> int n) p args) (\<lambda>((out, n), args).
     and_then (mp_vprintf rest args) (\<lambda>(out', m). Inr (out @ out', n + m))))"
proof -
  have c: "c \<in> set (map of_char ''bcqsduxXpP%'')" using assms by simp
  note cc = conversion_chars [OF c]
  define t3 where "t3 = (if is_long then [0x6C] else []) @ c # rest"
  define t2 where "t2 = (case prec of No_precision \<Rightarrow> [] | Precision n \<Rightarrow> 0x2E # decimal n | From_args \<Rightarrow> [0x2E, 0x2A]) @ t3"
  define t1 where "t1 = (case width of None \<Rightarrow> [] | Some n \<Rightarrow> decimal n) @ t2"
  have t3: "t3 \<noteq> []" "hd t3 \<notin> flag_chars" "\<not> (0x30 \<le> hd t3 \<and> hd t3 \<le> 0x39)" "hd t3 \<noteq> 0x2E" "skip_long t3 = c # rest"
    using cc by (auto simp: t3_def flag_chars_def skip_long_def)
  have t2: "t2 \<noteq> []" "hd t2 \<notin> flag_chars" "\<not> (0x30 \<le> hd t2 \<and> hd t2 \<le> 0x39)"
    using t3 by (auto simp: t2_def flag_chars_def split: precision.splits)
  have width: "printf_number t1 0 = (case width of None \<Rightarrow> 0 | Some n \<Rightarrow> int n, t2)"
    using printf_number_decimal [OF t2(1,3)] t2(1,3) by (cases width; cases t2) (auto simp: t1_def)
  have t1: "t1 \<noteq> []" "hd t1 \<notin> flag_chars"
    using decimal_first assms t2 by (auto simp: t1_def split: option.splits)
  have flag: "printf_flags (fs @ t1) 0 0x20 = (flag_bits fs, if 0x30 \<in> set fs then 0x30 else 0x20, t1)"
    using printf_flags_scan [OF _ t1, of fs 0 "0x20"] assms by simp
  have "directive_text (Directive fs width prec is_long c) @ rest = 0x25 # fs @ t1"
    by (simp add: t1_def t2_def t3_def)
  then show ?thesis
    using precision_scan [OF t3(1,3,4), of prec args] t3(5)
    by (simp add: mp_vprintf.simps [of "0x25 # fs @ t1"] Let_def flag width t2_def split: sum.split prod.split)
qed

lemma vprintf_directives:
  assumes "\<forall>d \<in> set ds. directive_ok d"
  shows "mp_vprintf (concat (map directive_text ds)) args
    = and_then (run_directives ds args) (\<lambda>out. Inr (out, int (length out)))"
  using assms
proof (induction ds args rule: run_directives.induct)
  case (1 args)
  then show ?case by (simp add: mp_vprintf.simps)
next
  case (2 t ds args)
  then show ?case by (simp add: vprintf_plain split: sum.split)
next
  case (3 fs width prec is_long c ds args)
  have ok: "directive_ok (Directive fs width prec is_long c)" "\<forall>d \<in> set ds. directive_ok d" using "3.prems" by simp_all
  note step = vprintf_directive [OF ok(1), of "concat (map directive_text ds)" args]
  show ?case
    unfolding list.map concat.simps step run_directives.simps
    using "3.IH" [OF _ _ _ _ _ ok(2)]
    by (auto split: sum.split prod.split dest!: conversion_count simp: counted_def)
qed

lemma printed_text: "and_then r (\<lambda>out. Inr (out, f out)) = Inr (s, n) \<Longrightarrow> r = Inr s"
  by (cases r) auto



end
