(* ===== verification/Spec2Isabelle.thy ===== *)
theory Spec2Isabelle
  imports Libc Bump Keyboard Initrd Hal Kernel GcCollect Ringbuf LexLiterals MpDictSpec MpListSpec MpTupleSpec MpStringSpec
    MpPrintSpec
begin

text \<open>
  A verification library for NexusOS, the i686 kernel under \<open>src/kernel\<close> that boots from multiboot, sets
  up its drivers and hands the machine to an embedded MicroPython 1.22.  Definitions follow the C code and
  keep its names; paths below are relative to \<open>src/kernel\<close>.

  \<^bold>\<open>The parts and how they interact.\<close>  \<open>kernel_main\<close> (\<open>kernel.c\<close>) programs COM1, the console, the segment and
  interrupt tables, the timer, the keyboard and the kernel heap, finds the RAM disk in the first multiboot
  module and calls \<open>start_nexus_python\<close> (\<open>python/nexus_hal.c\<close>), which gives MicroPython's collector 512 KiB at
  0x700000 and runs the interpreter on the lines of the line editor.  IRQ 1 runs \<open>keyboard_event\<close>, which fills a ring
  buffer; the line editor drains it through \<open>mp_hal_stdin_rx_chr\<close> and \<open>keyboard_getc\<close>; output goes through
  \<open>terminal_putchar\<close> to the screen and to COM1.  A line reaches the lexer (\<open>python/py/lexer.c\<close>), whose
  literals go through \<open>parsenum.c\<close>; the objects of a program live on the collector's heap.

  \<^bold>\<open>Foundations.\<close>
  \<^item> \<open>Prelude\<close>: 32-bit words as addresses and \<open>size_t\<close>, the flat byte memory, little-endian access, C
    strings, word and list lemmas.
  \<^item> \<open>Interfaces\<close>: the contracts \<open>allocator\<close> (provided by \<open>Bump\<close> and \<open>GcAlloc\<close>), \<open>bounded_queue\<close>
    (\<open>Keyboard\<close>, \<open>Ringbuf\<close>) and \<open>byte_sink\<close> (\<open>Machine\<close>, \<open>Vga\<close>), with what clients get from them; a
    bounded queue is a \<open>data_refinement\<close> of a bounded list.
  \<^item> \<open>Refinement\<close>: the contract \<open>data_refinement\<close>, from single calls to sequences of calls; provided by
    \<open>MpListSpec\<close> and, through \<open>bounded_queue\<close>, by the two ring buffers.
  \<^item> \<open>KeyMap\<close>: the contract \<open>key_map\<close> of a table with keys; provided by the hash map in \<open>MpDictOk\<close>.
  \<^item> \<open>Ring\<close>: circular arrays as queues, shared by \<open>Keyboard\<close> and \<open>Ringbuf\<close>.

  \<^bold>\<open>The kernel.\<close>
  \<^item> \<open>Libc\<close> (\<open>libc.c\<close>): memory and string routines; \<open>memmove\<close> for any overlap, \<open>memcmp\<close>, \<open>strcpy\<close> and the
    others functionally.
  \<^item> \<open>Bump\<close> (\<open>drivers/mem.c\<close>): \<open>kmalloc\<close>; blocks are disjoint, and a huge request wraps the test.
  \<^item> \<open>Machine\<close> (COM1 in \<open>kernel.c\<close>), \<open>Vga\<close> (\<open>drivers/vga.c\<close>): port I/O, serial transfer; the console
    refines an abstract 25 by 80 screen.
  \<^item> \<open>Gdt\<close>, \<open>Idt\<close> (\<open>drivers/gdt.c\<close>, \<open>drivers/idt.c\<close>): descriptors, gates, controllers, IRQ dispatch, timer.
  \<^item> \<open>Keyboard\<close> (\<open>drivers/keyboard.c\<close>): scancode machine, ring buffer, blocking reader; the step relation
    \<open>kbd_step\<close> interleaves IRQ 1 with the single accesses of the reader.
  \<^item> \<open>Initrd\<close> (\<open>tools/mkinitrd.py\<close> beside the kernel, \<open>initrd.c\<close>): builder and reader, and their round trip.
  \<^item> \<open>Hal\<close> (\<open>python/nexus_hal.c\<close>, \<open>python/mphalport.h\<close>): console, delay, line editor with history, a turn of the REPL.
  \<^item> \<open>Kernel\<close> (\<open>kernel.c\<close>): the boot sequence on the state of all drivers.

  \<^bold>\<open>MicroPython's heap\<close> (\<open>python/py/gc.c\<close>).  \<open>GcTable\<close> has the two-bit table, \<open>Gc\<close> all operations, \<open>GcHeap\<close> the
  invariant \<open>gc_ok\<close>, \<open>GcAlloc\<close> allocation and set-up, \<open>GcResize\<close> \<open>gc_free\<close> and \<open>gc_realloc\<close>, \<open>GcMark\<close> marking against
  the inductive set \<open>gc_reach\<close>, \<open>GcCollect\<close> the sweep, the collection and the properties.

  \<^bold>\<open>MicroPython's front end.\<close>
  \<^item> \<open>Unichar\<close> (\<open>unicode.c\<close>), \<open>SmallInt\<close> (\<open>smallint.c\<close>), \<open>ParseNum\<close> (\<open>parsenum.c\<close>, \<open>parsenumbase.c\<close>).
  \<^item> \<open>Lexer\<close> (\<open>lexer.c\<close>, \<open>reader.c\<close>): the tokeniser.  \<open>LexText\<close> views it as consuming a normalised text, \<open>LexOps\<close> and
    \<open>LexScan\<close> compare its table searches with plain lists of operators and keywords, \<open>LexTokens\<close> shows
    that a run of it ends with balanced indentation, \<open>LexLiterals\<close> that the \<open>repr\<close> of a string (\<open>objstr.c\<close>) is a
    literal for the same bytes and that decimal literals have their value.
  \<^item> \<open>MpPrint\<close> (\<open>mpprint.c\<close>, \<open>objint.c\<close>), \<open>MpPrintSpec\<close>: padding, integers in any radix and format strings; what
    is printed is read back by \<open>ParseNum\<close>.
  \<^item> \<open>Ringbuf\<close> (\<open>ringbuf.c\<close>, \<open>ringbuf.h\<close>): bytes, 16-bit values and blocks in a 16-bit indexed buffer.

  \<^bold>\<open>MicroPython's containers.\<close>
  \<^item> \<open>MpMap\<close> (\<open>map.c\<close>), \<open>MpMapOk\<close>, \<open>MpMapOps\<close>: open addressing with deletion marks as a finite map; \<open>MpStr\<close>
    (\<open>qstr.c\<close>, \<open>objstr.c\<close>): strings meet what the map asks of its keys.
  \<^item> \<open>MpDict\<close> (\<open>objdict.c\<close>), \<open>MpDictOk\<close>, \<open>MpDictAll\<close>, \<open>MpDictSpec\<close>: every method of dictionaries as on finite maps.
  \<^item> \<open>MpSeq\<close> (\<open>sequence.c\<close>, \<open>objslice.c\<close>): indices, slices, comparison and block moves; \<open>MpSort\<close>: the quicksort.
  \<^item> \<open>MpList\<close> (\<open>objlist.c\<close>), \<open>MpListOk\<close>, \<open>MpListAll\<close>, \<open>MpListSpec\<close>: lists with their block of cells, as plain lists.
  \<^item> \<open>MpTuple\<close> (\<open>objtuple.c\<close>), \<open>MpTupleSpec\<close>: tuples on the same helpers.
  \<^item> \<open>MpString\<close> (\<open>objstr.c\<close>), \<open>MpStringOk\<close>, \<open>MpStringSpec\<close>: the methods and operators of strings and bytes,
    as cutting and joining lists.

  \<^bold>\<open>This theory\<close> states what spans components: the collector's heap and the kernel's heap never meet, and
  lists work on whatever the collector grants.

  \<^bold>\<open>State and results.\<close>  File-level variables are fields of a record, \<open>machine\<close> extended by \<open>vga\<close>, the interrupt
  state, the keyboard and the line editor, so that an operation is a function on the part of the state it touches.  Memory is
  a total map from 32-bit addresses to bytes.  Raised exceptions, failed assertions and accesses outside
  an array are values of a sum or \<open>option\<close> type, so that their absence is a theorem.

  \<^bold>\<open>Loops, bounds and fuel.\<close>  A loop that waits for a device or scans for a terminator is a \<open>partial_function\<close>
  into \<open>option\<close>, where \<open>None\<close> is never returning, and that it returns is proved under the named condition on
  the device.  All other loops are total functions.  \<open>map_lookup\<close> and the rehash call each other: depth 2
  always suffices, and a probe sequence makes at most as many steps as the table has slots.  The mark
  stack has the 64 entries of the code and its overflow is handled.  A heap of 512 KiB has no block of more
  than \<open>MAX_CELLS\<close> = 131072 cells, and \<open>lists_on_python_heap\<close> derives the exact limit from \<open>gc_init\<close>.  Small
  integers have 31 bits; \<open>mp_int_t\<close> values are words where they can wrap and integers where sums are
  shown or known to stay in range.

  \<^bold>\<open>Parameters.\<close>  The answers of devices (\<open>dev_in\<close>, with \<open>uart_live\<close> for a serial port that becomes ready again
  and again), addresses chosen by the linker, what the boot loader left in memory, the execution of a
  line by the interpreter, the equality, hash and comparison of Python objects (total functions without
  side effects, with laws such as \<open>obj_laws\<close> and \<open>ordered_by\<close>), iterables (the lists of their items), and, for lists and
  tuples, which requests the collector grants and what fresh cells hold.

  \<^bold>\<open>Not modelled.\<close>  The assembly in \<open>boot.s\<close> beyond the loading of descriptor tables; MicroPython's compiler,
  emitters, virtual machine, modules and the object types not named above, which run between the lexer
  and the objects and are a parameter of \<open>Hal\<close>; floats, long integers, f-strings, Unicode strings, sets, finalisers, threads, ordered
  maps that grow, JSON printing: compiled out in \<open>mpconfigport.h\<close>;
  \<open>str.format\<close>, the constructors of strings and their interning; dump routines and the collector's self-test: output only;
  the vendored \<open>littlefs\<close>, \<open>oofatfs\<close> and \<open>cmsis\<close>: not linked into the kernel.
\<close>

section \<open>The two heaps of the kernel\<close>

text \<open>
  \<open>kernel_main\<close> gives the bump allocator the 4 MiB from 0x200000, and \<open>nexus_python_start\<close> gives the
  collector the 512 KiB from 0x700000.  Every state the collector's operations reach from there has
  the pool that \<open>gc_init\<close> laid out.
\<close>

abbreviation python_heap :: "gc_state \<Rightarrow> gc_state \<Rightarrow> bool" where
  "python_heap s0 s \<equiv> gc_ok s \<and> same_pool (gc_area (gc_init 0x700000 0x780000 s0)) (gc_area s)"

lemma python_heap_starts: "python_heap s0 (gc_init 0x700000 0x780000 s0)"
  by (rule conjI, rule gc_init_ok) (simp_all add: same_pool_def)

lemma python_heap_layout:
  assumes "same_pool (gc_area (gc_init 0x700000 0x780000 s0)) (gc_area s)"
  shows "unat (gc_pool_start (gc_area s)) = 7348160" "total_blocks (gc_area s) = 32260"
    "unat (gc_pool_end (gc_area s)) = 7864320"
proof -
  have st: "(0x700000 :: u32) \<le> 0x780000" "0 < unat (0x780000 :: u32) - unat (0x700000 :: u32)"
    by simp_all
  have area: "gc_area (gc_init 0x700000 0x780000 s0) = gc_setup_area 0x700000 0x780000"
    by (simp add: gc_init_def)
  show "unat (gc_pool_start (gc_area s)) = 7348160"
    using assms setup_fields(2) [OF st] by (simp add: same_pool_def area)
  show "total_blocks (gc_area s) = 32260"
    using assms setup_fields(1) [OF st] by (simp add: same_pool_def area total_blocks_def)
  have "layout_ok (gc_area (gc_init 0x700000 0x780000 s0))"
    using python_heap_starts [of s0] by (simp add: gc_ok_def)
  then show "unat (gc_pool_end (gc_area s)) = 7864320"
    using assms setup_fields [OF st] by (simp add: layout_ok_def same_pool_def area total_blocks_def)
qed

lemma fresh_heap_grants:
  assumes "0 < b" "b \<le> 516160"
  shows "fst (gc_alloc (gc_collect r) (gc_init 0x700000 0x780000 s0) (of_nat b)) \<noteq> 0"
proof
  let ?s = "gc_init 0x700000 0x780000 s0" and ?n = "of_nat b :: u32"
  assume miss: "fst (gc_alloc (gc_collect r) ?s ?n) = 0"
  have ok: "gc_ok ?s" using python_heap_starts [of s0] by simp
  have ub: "unat ?n = b" using assms(2) by (simp add: unat_of_nat)
  have blocks: "0 < blocks_for ?n" "blocks_for ?n \<le> 32260" using assms ub by (simp_all add: blocks_for_spec)
  have "\<not> gc_is_locked ?s" by (simp add: gc_is_locked_def gc_init_def)
  then have "find_free (gc_area ?s) (blocks_for ?n) = None"
    using gc_alloc_miss [OF ok _ _ blocks(1), of "gc_collect r"] miss prod.collapse by metis
  then obtain i where "gc_kind ?s i \<noteq> 0"
    using find_free_miss [of "gc_area ?s" "blocks_for ?n" 0] ok blocks
      python_heap_layout(2) [of s0 ?s] by (auto simp: gc_ok_def same_pool_def)
  moreover have "atb_get_kind (0 # replicate 8065 0) i = 0"
    using empty_table [of "Suc 8065" i] by (simp only: replicate_Suc)
  then have "gc_kind ?s i = 0"
    by (simp add: gc_init_def gc_setup_area_def Let_def)
  ultimately show False by simp
qed

text \<open>A block the collector hands out comes from the heap as it was or as the collection left it.\<close>

lemma python_heap_alloc:
  assumes "python_heap s0 s" "fst (gc_alloc (gc_collect r) s n) \<noteq> 0"
  obtains s1 start where "python_heap s0 s1" "0 < blocks_for n"
    "allocated s1 start (blocks_for n) (snd (gc_alloc (gc_collect r) s n))"
    "fst (gc_alloc (gc_collect r) s n) = ptr_from_block (gc_area s1) start"
proof -
  have ok: "gc_ok s" and pool: "same_pool (gc_area (gc_init 0x700000 0x780000 s0)) (gc_area s)"
    using assms(1) by simp_all
  note col = gc_collect_collected [OF ok, of r]
  have "python_heap s0 (gc_collect r s)"
    using col pool by (auto simp: collected_def same_pool_def)
  then show ?thesis
    using gc_alloc_cases [of s "gc_collect r" n, OF ok col(2) prod.collapse [symmetric]] that assms by metis
qed



section \<open>Lists on Python's heap\<close>

text \<open>
  A request for \<open>b\<close> bytes can be granted if in some state of Python's heap, for some roots, the
  collector finds a new block, or moves or grows a live one, to that size.
\<close>

definition granted_by :: "gc_roots \<Rightarrow> gc_state \<Rightarrow> u32 \<Rightarrow> bool" where
  "granted_by r s n \<longleftrightarrow> fst (gc_alloc (gc_collect r) s n) \<noteq> 0
     \<or> (\<exists>h p s'. h \<in> live r s \<and> \<not> gc_is_locked s \<and> p \<noteq> 0
          \<and> gc_realloc (gc_collect r) s (ptr_from_block (gc_area s) h) n True = Some (p, s'))"

definition collector_grants :: "gc_state \<Rightarrow> nat \<Rightarrow> bool" where
  "collector_grants s0 b \<longleftrightarrow> b + 15 < 4294967296 \<and> (\<exists>r s. python_heap s0 s \<and> granted_by r s (of_nat b))"

lemma collector_grants_bound:
  assumes "collector_grants s0 b"
  shows "0 < b \<and> b \<le> 516160"
proof -
  from assms obtain r s where b: "b + 15 < 4294967296" and s: "python_heap s0 s"
    and granted: "granted_by r s (of_nat b)"
    unfolding collector_grants_def by blast
  have ub: "unat (of_nat b :: u32) = b" using b by (simp add: unat_of_nat)
  from granted show ?thesis
    unfolding granted_by_def
  proof (elim disjE exE conjE)
    assume "fst (gc_alloc (gc_collect r) s (of_nat b)) \<noteq> 0"
    with s obtain s1 start where "python_heap s0 s1" "0 < blocks_for (of_nat b)"
        "allocated s1 start (blocks_for (of_nat b)) (snd (gc_alloc (gc_collect r) s (of_nat b)))"
      by (rule python_heap_alloc)
    then show ?thesis
      using blocks_for_le [of "of_nat b"] python_heap_layout(2) [of s0 s1]
      by (cases "b = 0") (simp_all add: allocated_def ub blocks_for_spec)
  next
    fix h p s'
    assume h: "h \<in> live r s" "\<not> gc_is_locked s" and p: "p \<noteq> 0"
      and run: "gc_realloc (gc_collect r) s (ptr_from_block (gc_area s) h) (of_nat b) True = Some (p, s')"
    show ?thesis
    proof (cases "b = 0")
      case True
      then show ?thesis using run p h(1) gc_collect_collected live_survives
        by (auto simp: gc_realloc_def gc_alloc_def blocks_for_spec split: if_splits)
    next
      case False
      have ok: "gc_ok s" using s by simp
      note live = live_survives [OF ok h(1)]
      have "(of_nat b :: u32) \<noteq> 0" using False ub by (metis unat_0)
      from gc_realloc_result [where collect = "gc_collect r", OF ok gc_collect_collected(2) [OF ok] live(2,1) h(2) refl this _ refl, of True] run p ub b
      obtain s1 b' where ok': "gc_ok s'" and rs: "s1 = s \<or> s1 = gc_collect r s"
          "resized s1 s' h (chain_len (gc_alloc_table (gc_area s)) h) b' ((b + 15) div 16)"
        by auto
      have "total_blocks (gc_area s') = total_blocks (gc_area s)"
        using rs gc_collect_collected(1) [OF ok, of r]
        by (auto simp: resized_def collected_def same_pool_def total_blocks_def)
      moreover have "b' + (b + 15) div 16 \<le> total_blocks (gc_area s')"
        using chain_in_heap [of "gc_area s'" b'] ok' rs(2) by (simp add: resized_def gc_ok_def)
      ultimately show ?thesis using python_heap_layout(2) [of s0 s] s False by linarith
    qed
  qed
qed

lemma collector_grants_eq: "collector_grants s0 b \<longleftrightarrow> 0 < b \<and> b \<le> 516160"
proof
  assume "0 < b \<and> b \<le> 516160"
  then show "collector_grants s0 b"
    using python_heap_starts [of s0] fresh_heap_grants [of b _ s0]
    unfolding collector_grants_def granted_by_def by (intro conjI exI disjI1) auto
qed (rule collector_grants_bound)

text \<open>
  C15: On Python's heap the collector can grant a request of a list exactly if it asks for at least one and
  at most the pool's 516160 bytes; whichever of these it does grant, any sequence of list operations
  keeps the object well formed, and unless memory runs out gives the results and the items of the same
  sequence on a plain list.
\<close>

theorem lists_on_python_heap:
  assumes "\<forall>b. grants gc b \<longrightarrow> collector_grants s0 b" "list_ok l" "list_all call_valid cs"
  shows "(\<forall>b. collector_grants s0 b \<longleftrightarrow> 0 < b \<and> b \<le> 516160)
    \<and> list_ok (snd (run_calls (do_call equal none gc) cs l))
    \<and> (Inl MemoryError \<notin> set (fst (run_calls (do_call equal none gc) cs l)) \<longrightarrow>
          run_calls (py_call equal) cs (elems l)
            = (fst (run_calls (do_call equal none gc) cs l), elems (snd (run_calls (do_call equal none gc) cs l))))"
proof -
  have "heap_limited gc"
    unfolding heap_limited_def using assms(1) collector_grants_bound by (fastforce simp: MAX_CELLS_def)
  then show ?thesis
    using pl.run_keeps [of gc l cs equal none] pl.run_simulates [of gc l cs equal none] assms(2,3) collector_grants_eq
    by (auto simp: list_ex_iff)
qed

text \<open>A list that grows on a collector with 64 bytes left in one run.\<close>

definition python_list_heap :: "nat gc_heap" where
  "python_list_heap = \<lparr>grants = (\<lambda>b. 0 < b \<and> b \<le> 64), stale_cell = (\<lambda>_. Some 99)\<rparr>"

theorem lists_on_python_heap_witness:
  "fst (run_calls (do_call (=) 0 python_list_heap) [Call_extend [4, 5], Call_pop None, Call_len] list123)
     = [Inr Done, Inr (An_object 5), Inr (A_number 4)]
   \<and> list_ok (snd (run_calls (do_call (=) 0 python_list_heap) [Call_extend [4, 5], Call_pop None, Call_len] list123))
   \<and> fst (run_calls (py_call (=)) [Call_extend [4, 5], Call_pop None, Call_len] (elems list123))
     = [Inr Done, Inr (An_object 5), Inr (A_number 4)]"
proof -
  have "\<forall>b. grants python_list_heap b \<longrightarrow> collector_grants demo_heap b"
    by (simp add: python_list_heap_def collector_grants_eq)
  note all = lists_on_python_heap [OF this list123_ok, of "[Call_extend [4, 5], Call_pop None, Call_len]" "(=)" 0]
  have "fst (run_calls (do_call (=) 0 python_list_heap) [Call_extend [4, 5], Call_pop None, Call_len] list123)
     = [Inr Done, Inr (An_object 5), Inr (A_number 4)]"
    by code_simp
  then show ?thesis using all by (simp del: do_call.simps py_call.simps run_calls.simps)
qed

end
